(* ===== verification/Prelude.thy ===== *)
theory Prelude
  imports Main "HOL-Library.Word"
begin

text \<open>
  Shared vocabulary of the development: machine integers, byte strings, and the generic
  lemmas on lists and words that the component theories use.

  A C++ \<open>char\<close> buffer, a \<open>std::string\<close> and the memory a \<open>Slice\<close> views are all lists of
  bytes. A pointer into a buffer together with its limit is the list of the bytes from the
  pointer up to the limit, so advancing the pointer is taking a suffix. Reading a byte past
  the end of a buffer is undefined behaviour in the source; \<open>byte_at\<close> reads 0 there, and the
  properties only read inside the buffer.
\<close>

unbundle bit_operations_syntax

type_synonym byte = "8 word"
type_synonym bytes = "byte list"
type_synonym u32 = "32 word"
type_synonym u64 = "64 word"

named_theorems coding_simps \<open>round trips and lengths of the byte encodings\<close>
named_theorems state_defs \<open>definitions of state updates that proofs unfold\<close>

section \<open>Bytes and words\<close>

definition byte_at :: "bytes \<Rightarrow> nat \<Rightarrow> byte" where
  "byte_at xs i = (if i < length xs then xs ! i else 0)"

lemma byte_at_Cons_0 [simp]: "byte_at (x # xs) 0 = x"
  by (simp add: byte_at_def)

lemma byte_at_Cons_Suc [simp]: "byte_at (x # xs) (Suc i) = byte_at xs i"
  by (simp add: byte_at_def)

lemma byte_at_numeral [simp]: "byte_at (x # xs) (numeral k) = byte_at xs (pred_numeral k)"
  by (simp add: numeral_eq_Suc)

lemma byte_at_append1 [simp]: "i < length xs \<Longrightarrow> byte_at (xs @ ys) i = byte_at xs i"
  by (simp add: byte_at_def nth_append)

lemma byte_at_append2 [simp]: "byte_at (xs @ ys) (length xs + i) = byte_at ys i"
  by (simp add: byte_at_def nth_append)

text \<open>Store \<open>bs\<close> at offset \<open>off\<close> of a buffer that is long enough (a write through a pointer).\<close>

definition overwrite :: "bytes \<Rightarrow> nat \<Rightarrow> bytes \<Rightarrow> bytes" where
  "overwrite buf off bs = take off buf @ bs @ drop (off + length bs) buf"

lemma length_overwrite [simp]:
  "off + length bs \<le> length buf \<Longrightarrow> length (overwrite buf off bs) = length buf"
  by (simp add: overwrite_def)

lemma drop_overwrite [simp]:
  "off + length bs \<le> length buf \<Longrightarrow> off + length bs \<le> n \<Longrightarrow> drop n (overwrite buf off bs) = drop n buf"
  by (simp add: overwrite_def drop_append)

text \<open>The bytes of an ASCII string literal.\<close>

definition lit :: "string \<Rightarrow> bytes" where
  "lit s = map (\<lambda>c. of_nat (of_char c :: nat)) s"

lemma length_lit [simp]: "length (lit s) = length s"
  by (simp add: lit_def)

section \<open>Lists\<close>

lemma take_eq_append: "length xs = n \<Longrightarrow> take n (xs @ ys) = xs"
  by simp

lemma drop_eq_append: "length xs = n \<Longrightarrow> drop n (xs @ ys) = ys"
  by simp

lemma takeWhile_filter_sorted:
  assumes "sorted_wrt R xs" and "\<And>x y. R x y \<Longrightarrow> P y \<Longrightarrow> P x"
  shows "takeWhile P xs = filter P xs"
  using assms(1)
proof (induction xs)
  case Nil
  then show ?case by simp
next
  case (Cons x xs)
  show ?case
  proof (cases "P x")
    case True
    with Cons show ?thesis by simp
  next
    case False
    with Cons.prems have "\<forall>y \<in> set xs. \<not> P y"
      using assms(2) by auto
    with False show ?thesis by (simp add: filter_empty_conv)
  qed
qed

lemma dropWhile_filter_sorted:
  assumes "sorted_wrt R xs" and "\<And>x y. R x y \<Longrightarrow> P y \<Longrightarrow> P x"
  shows "dropWhile P xs = filter (\<lambda>x. \<not> P x) xs"
  using assms(1)
proof (induction xs)
  case Nil
  then show ?case by simp
next
  case (Cons x xs)
  show ?case
  proof (cases "P x")
    case True
    with Cons show ?thesis by simp
  next
    case False
    with Cons.prems have "\<forall>y \<in> set xs. \<not> P y"
      using assms(2) by auto
    with False show ?thesis by (simp add: filter_id_conv)
  qed
qed

lemma hd_dropWhile_find: "(case dropWhile (\<lambda>x. \<not> P x) xs of [] \<Rightarrow> None | y # _ \<Rightarrow> Some y) = find P xs"
  by (induction xs) auto

lemma find_append: "find P (xs @ ys) = (case find P xs of None \<Rightarrow> find P ys | Some y \<Rightarrow> Some y)"
  by (induction xs) auto

lemma find_None_iff': "find P xs = None \<longleftrightarrow> (\<forall>x \<in> set xs. \<not> P x)"
  by (induction xs) auto

lemma find_SomeD: "find P xs = Some x \<Longrightarrow> x \<in> set xs \<and> P x"
  by (induction xs) (auto split: if_splits)

end
