(* ===== verification/Coding.thy ===== *)
theory Coding
  imports Prelude
begin

text \<open>
  Byte encodings (util/coding.cc): fixed-width little-endian integers, varints of 32 and 64
  bits, and length-prefixed slices. An encoder that writes through \<open>char* dst\<close> is the list of
  bytes it writes; a decoder takes the bytes from its pointer to the limit and returns the
  value together with the bytes after it, or \<open>None\<close> where the source returns \<open>nullptr\<close> or
  \<open>false\<close>.
\<close>

section \<open>Fixed-width integers\<close>

definition EncodeFixed32 :: "u32 \<Rightarrow> bytes" where
  "EncodeFixed32 value =
     [ucast value, ucast (drop_bit 8 value), ucast (drop_bit 16 value), ucast (drop_bit 24 value)]"

definition PutFixed32 :: "bytes \<Rightarrow> u32 \<Rightarrow> bytes" where
  "PutFixed32 dst value = dst @ EncodeFixed32 value"

definition DecodeFixed32 :: "bytes \<Rightarrow> u32" where
  "DecodeFixed32 p =
     ucast (byte_at p 0) OR push_bit 8 (ucast (byte_at p 1)) OR
     push_bit 16 (ucast (byte_at p 2)) OR push_bit 24 (ucast (byte_at p 3))"

definition EncodeFixed64 :: "u64 \<Rightarrow> bytes" where
  "EncodeFixed64 value =
     [ucast value, ucast (drop_bit 8 value), ucast (drop_bit 16 value), ucast (drop_bit 24 value),
      ucast (drop_bit 32 value), ucast (drop_bit 40 value), ucast (drop_bit 48 value),
      ucast (drop_bit 56 value)]"

definition PutFixed64 :: "bytes \<Rightarrow> u64 \<Rightarrow> bytes" where
  "PutFixed64 dst value = dst @ EncodeFixed64 value"

definition DecodeFixed64 :: "bytes \<Rightarrow> u64" where
  "DecodeFixed64 p =
     ucast (byte_at p 0) OR push_bit 8 (ucast (byte_at p 1)) OR
     push_bit 16 (ucast (byte_at p 2)) OR push_bit 24 (ucast (byte_at p 3)) OR
     push_bit 32 (ucast (byte_at p 4)) OR push_bit 40 (ucast (byte_at p 5)) OR
     push_bit 48 (ucast (byte_at p 6)) OR push_bit 56 (ucast (byte_at p 7))"

lemma length_EncodeFixed [simp, coding_simps]:
  "length (EncodeFixed32 v) = 4" "length (EncodeFixed64 w) = 8"
  by (simp_all add: EncodeFixed32_def EncodeFixed64_def)

lemma byte_split:
  fixes v :: "'a::len word"
  shows "ucast (ucast v :: byte) OR push_bit 8 (drop_bit 8 v) = v"
proof (rule bit_word_eqI)
  fix n
  assume "n < LENGTH('a)"
  then show "bit (ucast (ucast v :: byte) OR push_bit 8 (drop_bit 8 v)) n = bit v n"
    by (cases "8 \<le> n") (auto simp: bit_simps)
qed

lemma DecodeFixed32_horner:
  "DecodeFixed32 (b0 # b1 # b2 # b3 # xs) =
     ucast b0 OR push_bit 8 (ucast b1 OR push_bit 8 (ucast b2 OR push_bit 8 (ucast b3)))"
  by (simp add: DecodeFixed32_def push_bit_or push_bit_push_bit or.assoc)

lemma DecodeFixed64_horner:
  "DecodeFixed64 (b0 # b1 # b2 # b3 # b4 # b5 # b6 # b7 # xs) =
     ucast b0 OR push_bit 8 (ucast b1 OR push_bit 8 (ucast b2 OR push_bit 8 (ucast b3 OR
     push_bit 8 (ucast b4 OR push_bit 8 (ucast b5 OR push_bit 8 (ucast b6 OR push_bit 8 (ucast b7)))))))"
  by (simp add: DecodeFixed64_def push_bit_or push_bit_push_bit or.assoc)

lemma byte_top32: "ucast (ucast (drop_bit 24 (v :: u32)) :: byte) = drop_bit 24 v"
  by (rule bit_word_eqI) (auto simp: bit_simps dest: bit_imp_le_length)

lemma byte_top64: "ucast (ucast (drop_bit 56 (v :: u64)) :: byte) = drop_bit 56 v"
  by (rule bit_word_eqI) (auto simp: bit_simps dest: bit_imp_le_length)

lemma DecodeFixed32_EncodeFixed32 [simp, coding_simps]: "DecodeFixed32 (EncodeFixed32 v @ xs) = v"
proof -
  have "drop_bit 16 v = drop_bit 8 (drop_bit 8 v)" "drop_bit 24 v = drop_bit 8 (drop_bit 8 (drop_bit 8 v))"
    by (simp_all add: drop_bit_drop_bit)
  then show ?thesis
    using byte_top32 [of v] by (simp add: EncodeFixed32_def DecodeFixed32_horner byte_split del: drop_bit_drop_bit)
qed

lemma drop_bit_steps:
  fixes v :: u64
  shows "drop_bit 16 v = drop_bit 8 (drop_bit 8 v)" "drop_bit 24 v = drop_bit 8 (drop_bit 16 v)"
    "drop_bit 32 v = drop_bit 8 (drop_bit 24 v)" "drop_bit 40 v = drop_bit 8 (drop_bit 32 v)"
    "drop_bit 48 v = drop_bit 8 (drop_bit 40 v)" "drop_bit 56 v = drop_bit 8 (drop_bit 48 v)"
  by (simp_all add: drop_bit_drop_bit)

lemma DecodeFixed64_EncodeFixed64 [simp, coding_simps]: "DecodeFixed64 (EncodeFixed64 v @ xs) = v"
  unfolding EncodeFixed64_def append_Cons DecodeFixed64_horner byte_top64
  by (simp add: drop_bit_steps byte_split del: drop_bit_drop_bit)


section \<open>Varints\<close>

text \<open>The bits kept and the continuation bit of a varint byte (coding.cc).\<close>

definition kVarintContinuationBit :: byte where
  "kVarintContinuationBit = 128"

definition kVarintValueMask :: byte where
  "kVarintValueMask = 127"

lemma unat_drop_bit_7: "unat (drop_bit 7 (v :: 'a::len word)) = unat v div 128"
  by (simp only: unat_drop_bit_eq) (simp add: drop_bit_eq_div)

lemma drop_bit_7_less32: "128 \<le> (value :: u32) \<Longrightarrow> unat (drop_bit 7 value) < unat value"
  unfolding unat_drop_bit_7 by (simp add: word_le_nat_alt)

lemma drop_bit_7_less64: "128 \<le> (value :: u64) \<Longrightarrow> unat (drop_bit 7 value) < unat value"
  unfolding unat_drop_bit_7 by (simp add: word_le_nat_alt)

function EncodeVarint32 :: "u32 \<Rightarrow> bytes" where
  "EncodeVarint32 value =
     (if value \<ge> ucast kVarintContinuationBit
      then ucast ((value AND ucast kVarintValueMask) OR ucast kVarintContinuationBit)
           # EncodeVarint32 (drop_bit 7 value)
      else [ucast value])"
  by pat_completeness auto
termination
  by (relation "measure unat") (auto simp: kVarintContinuationBit_def intro: drop_bit_7_less32)

function EncodeVarint64 :: "u64 \<Rightarrow> bytes" where
  "EncodeVarint64 value =
     (if value \<ge> ucast kVarintContinuationBit
      then ucast ((value AND ucast kVarintValueMask) OR ucast kVarintContinuationBit)
           # EncodeVarint64 (drop_bit 7 value)
      else [ucast value])"
  by pat_completeness auto
termination
  by (relation "measure unat") (auto simp: kVarintContinuationBit_def intro: drop_bit_7_less64)

declare EncodeVarint32.simps [simp del] EncodeVarint64.simps [simp del]

definition PutVarint32 :: "bytes \<Rightarrow> u32 \<Rightarrow> bytes" where
  "PutVarint32 dst value = dst @ EncodeVarint32 value"

definition PutVarint64 :: "bytes \<Rightarrow> u64 \<Rightarrow> bytes" where
  "PutVarint64 dst value = dst @ EncodeVarint64 value"

text \<open>
  The decoding loop: \<open>shift\<close> and \<open>result\<close> are the loop variables, \<open>p\<close> the bytes up to the
  limit. \<open>None\<close> is \<open>nullptr\<close>: the shift passed its bound or the bytes ran out before a byte
  without the continuation bit.
\<close>

fun GetVarint32Loop :: "nat \<Rightarrow> u32 \<Rightarrow> bytes \<Rightarrow> (u32 \<times> bytes) option" where
  "GetVarint32Loop shift result [] = None"
| "GetVarint32Loop shift result (b # p) =
     (if shift \<le> 28
      then if b AND kVarintContinuationBit \<noteq> 0
           then GetVarint32Loop (shift + 7)
                  (result OR push_bit shift (ucast b AND ucast kVarintValueMask)) p
           else Some (result OR push_bit shift (ucast b), p)
      else None)"

definition GetVarint32Ptr :: "bytes \<Rightarrow> (u32 \<times> bytes) option" where
  "GetVarint32Ptr p = GetVarint32Loop 0 0 p"

fun GetVarint64Loop :: "nat \<Rightarrow> u64 \<Rightarrow> bytes \<Rightarrow> (u64 \<times> bytes) option" where
  "GetVarint64Loop shift result [] = None"
| "GetVarint64Loop shift result (b # p) =
     (if shift \<le> 63
      then if b AND kVarintContinuationBit = 0
           then Some (result OR push_bit shift (ucast b), p)
           else GetVarint64Loop (shift + 7)
                  (result OR push_bit shift (ucast b AND ucast kVarintValueMask)) p
      else None)"

definition GetVarint64Ptr :: "bytes \<Rightarrow> (u64 \<times> bytes) option" where
  "GetVarint64Ptr p = GetVarint64Loop 0 0 p"

text \<open>
  The \<open>Slice* input\<close> variants: on success the value and the input advanced past it; on
  failure the source returns \<open>false\<close> and leaves the input as it was.
\<close>

definition GetVarint32 :: "bytes \<Rightarrow> (u32 \<times> bytes) option" where
  "GetVarint32 input =
     (case GetVarint32Ptr input of
        None \<Rightarrow> None
      | Some (value, parsed) \<Rightarrow> Some (value, drop (length input - length parsed) input))"

definition GetVarint64 :: "bytes \<Rightarrow> (u64 \<times> bytes) option" where
  "GetVarint64 input =
     (case GetVarint64Ptr input of
        None \<Rightarrow> None
      | Some (value, parsed) \<Rightarrow> Some (value, drop (length input - length parsed) input))"

definition PutLengthPrefixedSlice :: "bytes \<Rightarrow> bytes \<Rightarrow> bytes" where
  "PutLengthPrefixedSlice dst value = PutVarint32 dst (of_nat (length value)) @ value"

definition GetLengthPrefixedSlice :: "bytes \<Rightarrow> (bytes \<times> bytes) option" where
  "GetLengthPrefixedSlice input =
     (case GetVarint32Ptr input of
        None \<Rightarrow> None
      | Some (len, data) \<Rightarrow>
          if length data < unat len then None
          else Some (take (unat len) data,
                     drop ((length input - length data) + unat len) input))"

function VarintLength :: "u64 \<Rightarrow> nat" where
  "VarintLength value = (if value \<ge> 128 then Suc (VarintLength (drop_bit 7 value)) else 1)"
  by pat_completeness auto
termination
  by (relation "measure unat") (auto intro: drop_bit_7_less64)

declare VarintLength.simps [simp del]


section \<open>A reference encoder on natural numbers\<close>

fun varint_bytes :: "nat \<Rightarrow> bytes" where
  "varint_bytes n =
     (if n < 128 then [of_nat n] else ((of_nat n AND 127) OR 128) # varint_bytes (n div 128))"

declare varint_bytes.simps [simp del]

lemma bit_127: "bit (127 :: int) k \<longleftrightarrow> k < 7"
proof -
  have "(127 :: int) = mask 7"
    by (simp add: mask_eq_exp_minus_1)
  then show ?thesis
    by (simp only: bit_mask_iff) simp
qed

lemma bit_128: "bit (128 :: int) k \<longleftrightarrow> k = 7"
proof -
  have "(128 :: int) = 2 ^ 7"
    by simp
  then show ?thesis
    by (simp only: bit_exp_iff) auto
qed

lemma varint_byte_high: "(w AND 127 OR 128) AND 128 \<noteq> (0 :: byte)"
proof -
  have "bit ((w AND 127 OR 128) AND 128 :: byte) 7"
    by (simp add: bit_simps)
  then show ?thesis by (metis bit_0_eq bot_apply bot_bool_def)
qed

lemma varint_byte_low:
  assumes "n < 128"
  shows "(of_nat n :: byte) AND 128 = 0"
proof -
  have "\<not> bit n 7"
    using assms by (simp add: bit_iff_odd)
  then show ?thesis
    by (auto simp: bit_simps bit_128 intro!: bit_word_eqI)
qed

lemma EncodeVarint32_reference: "EncodeVarint32 v = varint_bytes (unat v)"
proof (induction v rule: EncodeVarint32.induct)
  case (1 v)
  show ?case
  proof (cases "v \<ge> 128")
    case True
    have "EncodeVarint32 v = ucast ((v AND 127) OR 128) # EncodeVarint32 (drop_bit 7 v)"
      using True by (simp add: EncodeVarint32.simps [of v] kVarintContinuationBit_def kVarintValueMask_def)
    moreover have "EncodeVarint32 (drop_bit 7 v) = varint_bytes (unat v div 128)"
      using "1.IH" True by (simp only: kVarintContinuationBit_def unat_drop_bit_7) simp
    moreover have "(ucast ((v AND 127) OR 128) :: byte) = (of_nat (unat v) AND 127) OR 128"
      by (rule bit_word_eqI) (auto simp: bit_simps)
    ultimately show ?thesis
      using True by (simp add: varint_bytes.simps [of "unat v"] word_le_nat_alt)
  next
    case False
    then show ?thesis
      by (simp add: EncodeVarint32.simps [of v] varint_bytes.simps [of "unat v"]
          kVarintContinuationBit_def word_le_nat_alt)
  qed
qed


lemma EncodeVarint64_reference: "EncodeVarint64 v = varint_bytes (unat v)"
proof (induction v rule: EncodeVarint64.induct)
  case (1 v)
  show ?case
  proof (cases "v \<ge> 128")
    case True
    have "EncodeVarint64 v = ucast ((v AND 127) OR 128) # EncodeVarint64 (drop_bit 7 v)"
      using True by (simp add: EncodeVarint64.simps [of v] kVarintContinuationBit_def kVarintValueMask_def)
    moreover have "EncodeVarint64 (drop_bit 7 v) = varint_bytes (unat v div 128)"
      using "1.IH" True by (simp only: kVarintContinuationBit_def unat_drop_bit_7) simp
    moreover have "(ucast ((v AND 127) OR 128) :: byte) = (of_nat (unat v) AND 127) OR 128"
      by (rule bit_word_eqI) (auto simp: bit_simps)
    ultimately show ?thesis
      using True by (simp add: varint_bytes.simps [of "unat v"] word_le_nat_alt)
  next
    case False
    then show ?thesis
      by (simp add: EncodeVarint64.simps [of v] varint_bytes.simps [of "unat v"]
          kVarintContinuationBit_def word_le_nat_alt)
  qed
qed

lemma ucast_of_nat_small: "n < 256 \<Longrightarrow> ucast (of_nat n :: byte) = (of_nat n :: 'a::len word)"
  by (simp add: unsigned_of_nat take_bit_nat_eq_self)

lemma varint_byte_value:
  "ucast ((of_nat n AND 127 OR 128) :: byte) AND (127 :: 'a::len word) = of_nat n AND 127"
  by (rule bit_word_eqI) (auto simp: bit_simps bit_127 bit_128)

lemma push_bit_split_7:
  fixes x :: "'a::len word"
  shows "push_bit s (x AND 127) OR push_bit (s + 7) (drop_bit 7 x) = push_bit s x"
proof (rule bit_word_eqI)
  fix k
  show "bit (push_bit s (x AND 127) OR push_bit (s + 7) (drop_bit 7 x)) k = bit (push_bit s x) k"
    by (cases "s + 7 \<le> k") (auto simp: bit_simps bit_127)
qed

lemma drop_bit_7_of_nat:
  assumes "n < 2 ^ LENGTH('a)"
  shows "of_nat (n div 128) = drop_bit 7 (of_nat n :: 'a::len word)"
  using assms by (intro word_unat_eq_iff [THEN iffD2]) (simp add: unat_drop_bit_7 unat_of_nat)


lemma GetVarint32Loop_varint_bytes:
  assumes "shift \<in> {0, 7, 14, 21, 28}" and "n < 2 ^ (32 - shift)"
  shows "GetVarint32Loop shift r (varint_bytes n @ rest) = Some (r OR push_bit shift (of_nat n), rest)"
  using assms
proof (induction n arbitrary: shift r rule: varint_bytes.induct)
  case (1 n)
  have shift: "shift \<le> 28" using "1.prems" by auto
  show ?case
  proof (cases "n < 128")
    case True
    then show ?thesis
      using shift by (simp add: varint_bytes.simps [of n] kVarintContinuationBit_def
          varint_byte_low ucast_of_nat_small)
  next
    case False
    have s21: "shift \<in> {0, 7, 14, 21}" using "1.prems" False by auto
    have "(2 :: nat) ^ (32 - shift) = 128 * 2 ^ (32 - (shift + 7))"
      using s21 by auto
    then have less: "n div 128 < 2 ^ (32 - (shift + 7))"
      using "1.prems"(2) by (simp add: less_mult_imp_div_less mult.commute)
    have "n < 2 ^ 32"
      using "1.prems"(2) power_increasing [of "32 - shift" 32 "2 :: nat"] by simp
    then have dm: "(of_nat (n div 128) :: u32) = drop_bit 7 (of_nat n)"
      by (intro drop_bit_7_of_nat) simp
    have "GetVarint32Loop shift r (varint_bytes n @ rest) =
        GetVarint32Loop (shift + 7) (r OR push_bit shift (of_nat n AND 127)) (varint_bytes (n div 128) @ rest)"
      using False shift varint_byte_high [of "of_nat n"] varint_byte_value [of n, where 'a = 32]
      by (simp add: varint_bytes.simps [of n] kVarintContinuationBit_def kVarintValueMask_def)
    also have "\<dots> = Some ((r OR push_bit shift (of_nat n AND 127)) OR push_bit (shift + 7) (of_nat (n div 128)), rest)"
      using False less s21 by (intro "1.IH" [OF False]) auto
    also have "\<dots> = Some (r OR push_bit shift (of_nat n), rest)"
      by (simp only: dm or.assoc push_bit_split_7)
    finally show ?thesis .
  qed
qed


lemma GetVarint64Loop_varint_bytes:
  assumes "shift \<in> {0, 7, 14, 21, 28, 35, 42, 49, 56, 63}" and "n < 2 ^ (64 - shift)"
  shows "GetVarint64Loop shift r (varint_bytes n @ rest) = Some (r OR push_bit shift (of_nat n), rest)"
  using assms
proof (induction n arbitrary: shift r rule: varint_bytes.induct)
  case (1 n)
  have shift: "shift \<le> 63" using "1.prems" by auto
  show ?case
  proof (cases "n < 128")
    case True
    then show ?thesis
      using shift by (simp add: varint_bytes.simps [of n] kVarintContinuationBit_def
          varint_byte_low ucast_of_nat_small)
  next
    case False
    have s56: "shift \<in> {0, 7, 14, 21, 28, 35, 42, 49, 56}" using "1.prems" False by auto
    have "(2 :: nat) ^ (64 - shift) = 128 * 2 ^ (64 - (shift + 7))"
      using s56 by auto
    then have less: "n div 128 < 2 ^ (64 - (shift + 7))"
      using "1.prems"(2) by (simp add: less_mult_imp_div_less mult.commute)
    have "n < 2 ^ 64"
      using "1.prems"(2) power_increasing [of "64 - shift" 64 "2 :: nat"] by simp
    then have dm: "(of_nat (n div 128) :: u64) = drop_bit 7 (of_nat n)"
      by (intro drop_bit_7_of_nat) simp
    have "GetVarint64Loop shift r (varint_bytes n @ rest) =
        GetVarint64Loop (shift + 7) (r OR push_bit shift (of_nat n AND 127)) (varint_bytes (n div 128) @ rest)"
      using False shift varint_byte_high [of "of_nat n"] varint_byte_value [of n, where 'a = 64]
      by (simp add: varint_bytes.simps [of n] kVarintContinuationBit_def kVarintValueMask_def)
    also have "\<dots> = Some ((r OR push_bit shift (of_nat n AND 127)) OR push_bit (shift + 7) (of_nat (n div 128)), rest)"
      using False less s56 by (intro "1.IH" [OF False]) auto
    also have "\<dots> = Some (r OR push_bit shift (of_nat n), rest)"
      by (simp only: dm or.assoc push_bit_split_7)
    finally show ?thesis .
  qed
qed

section \<open>Round trips\<close>

lemma GetVarint32Ptr_EncodeVarint32 [simp, coding_simps]:
  "GetVarint32Ptr (EncodeVarint32 v @ rest) = Some (v, rest)"
  using GetVarint32Loop_varint_bytes [of 0 "unat v" 0 rest] unsigned_less [of v, where ?'a = nat]
  by (simp add: GetVarint32Ptr_def EncodeVarint32_reference)

lemma GetVarint64Ptr_EncodeVarint64 [simp, coding_simps]:
  "GetVarint64Ptr (EncodeVarint64 v @ rest) = Some (v, rest)"
  using GetVarint64Loop_varint_bytes [of 0 "unat v" 0 rest] unsigned_less [of v, where ?'a = nat]
  by (simp add: GetVarint64Ptr_def EncodeVarint64_reference)

lemma GetVarint32Loop_suffix:
  "GetVarint32Loop s r p = Some (v, rest) \<Longrightarrow> \<exists>used. p = used @ rest \<and> used \<noteq> []"
proof (induction s r p rule: GetVarint32Loop.induct)
  case (2 shift result b p)
  then show ?case
    by (auto split: if_splits intro: exI [of _ "[b]"])
qed simp

lemma GetVarint64Loop_suffix:
  "GetVarint64Loop s r p = Some (v, rest) \<Longrightarrow> \<exists>used. p = used @ rest \<and> used \<noteq> []"
proof (induction s r p rule: GetVarint64Loop.induct)
  case (2 shift result b p)
  then show ?case
    by (auto split: if_splits intro: exI [of _ "[b]"])
qed simp

lemma GetVarint32_Ptr: "GetVarint32 p = GetVarint32Ptr p"
  unfolding GetVarint32_def
  by (auto split: option.split simp: GetVarint32Ptr_def dest!: GetVarint32Loop_suffix)

lemma GetVarint64_Ptr: "GetVarint64 p = GetVarint64Ptr p"
  unfolding GetVarint64_def
  by (auto split: option.split simp: GetVarint64Ptr_def dest!: GetVarint64Loop_suffix)

lemma GetVarint32_EncodeVarint32 [simp, coding_simps]:
  "GetVarint32 (EncodeVarint32 v @ rest) = Some (v, rest)"
  by (simp add: GetVarint32_Ptr)

lemma GetVarint64_EncodeVarint64 [simp, coding_simps]:
  "GetVarint64 (EncodeVarint64 v @ rest) = Some (v, rest)"
  by (simp add: GetVarint64_Ptr)

lemma GetVarint32_shorter: "GetVarint32 p = Some (v, rest) \<Longrightarrow> length rest < length p"
  by (auto simp: GetVarint32_Ptr GetVarint32Ptr_def dest!: GetVarint32Loop_suffix)

lemma GetVarint64_shorter: "GetVarint64 p = Some (v, rest) \<Longrightarrow> length rest < length p"
  by (auto simp: GetVarint64_Ptr GetVarint64Ptr_def dest!: GetVarint64Loop_suffix)

lemma GetLengthPrefixedSlice_append:
  assumes "length v < 2 ^ 32"
  shows "GetLengthPrefixedSlice (EncodeVarint32 (of_nat (length v)) @ v @ rest) = Some (v, rest)"
proof -
  have "unat (of_nat (length v) :: u32) = length v"
    using assms by (simp add: unat_of_nat)
  then show ?thesis
    by (simp add: GetLengthPrefixedSlice_def)
qed

lemma GetLengthPrefixedSlice_Put [coding_simps]:
  "length v < 2 ^ 32 \<Longrightarrow> GetLengthPrefixedSlice (PutLengthPrefixedSlice [] v @ rest) = Some (v, rest)"
  using GetLengthPrefixedSlice_append [of v rest] by (simp add: PutLengthPrefixedSlice_def PutVarint32_def)

lemma PutLengthPrefixedSlice_append: "PutLengthPrefixedSlice dst v = dst @ PutLengthPrefixedSlice [] v"
  by (simp add: PutLengthPrefixedSlice_def PutVarint32_def)

lemma GetLengthPrefixedSlice_shorter:
  assumes "GetLengthPrefixedSlice p = Some (v, rest)"
  shows "length rest < length p"
proof -
  obtain len d where d: "GetVarint32Ptr p = Some (len, d)" "unat len \<le> length d"
      "rest = drop (length p - length d + unat len) p"
    using assms by (auto simp: GetLengthPrefixedSlice_def split: option.splits if_splits)
  from d(1) have "length d < length p"
    using GetVarint32_shorter by (simp add: GetVarint32_Ptr)
  with d show ?thesis by simp
qed

section \<open>Lengths: no encoder overruns its stack buffer\<close>

lemma length_varint_bytes:
  "n < 128 ^ k \<Longrightarrow> 0 < k \<Longrightarrow> length (varint_bytes n) \<le> k"
proof (induction k arbitrary: n)
  case (Suc k)
  show ?case
  proof (cases "n < 128")
    case False
    with Suc.prems have "k \<noteq> 0"
      by (intro notI) simp
    moreover have "n div 128 < 128 ^ k"
      using Suc.prems by (simp add: less_mult_imp_div_less mult.commute)
    ultimately have "n div 128 < 128 ^ k" "k \<noteq> 0"
      by simp_all
    with Suc.IH [of "n div 128"] False show ?thesis
      by (simp add: varint_bytes.simps [of n])
  qed (simp add: varint_bytes.simps [of n])
qed simp

lemma length_EncodeVarint32: "length (EncodeVarint32 v) \<le> 5"
  unfolding EncodeVarint32_reference
  by (rule length_varint_bytes) (use unsigned_less [of v, where ?'a = nat] in auto)

lemma length_EncodeVarint64: "length (EncodeVarint64 v) \<le> 10"
  unfolding EncodeVarint64_reference
  by (rule length_varint_bytes) (use unsigned_less [of v, where ?'a = nat] in auto)

lemma EncodeVarint_nonempty [simp]: "EncodeVarint32 v \<noteq> []" "EncodeVarint64 w \<noteq> []"
  by (simp_all add: EncodeVarint32.simps EncodeVarint64.simps)

lemma VarintLength_EncodeVarint64: "VarintLength v = length (EncodeVarint64 v)"
proof (induction v rule: VarintLength.induct)
  case (1 v)
  then show ?case
    by (simp add: VarintLength.simps [of v] EncodeVarint64.simps [of v] kVarintContinuationBit_def)
qed

lemma VarintLength_EncodeVarint32: "n < 2 ^ 32 \<Longrightarrow> VarintLength (of_nat n) = length (EncodeVarint32 (of_nat n))"
  by (simp add: VarintLength_EncodeVarint64 EncodeVarint64_reference EncodeVarint32_reference unat_of_nat)

text \<open>A proper prefix of an encoding is never accepted.\<close>

lemma GetVarint32Loop_truncated:
  "GetVarint32Loop s r p = Some (v, []) \<Longrightarrow> k < length p \<Longrightarrow> GetVarint32Loop s r (take k p) = None"
proof (induction s r p arbitrary: k rule: GetVarint32Loop.induct)
  case (2 shift result b p)
  then show ?case by (cases k) (auto split: if_splits)
qed simp

lemma GetVarint64Loop_truncated:
  "GetVarint64Loop s r p = Some (v, []) \<Longrightarrow> k < length p \<Longrightarrow> GetVarint64Loop s r (take k p) = None"
proof (induction s r p arbitrary: k rule: GetVarint64Loop.induct)
  case (2 shift result b p)
  then show ?case by (cases k) (auto split: if_splits)
qed simp

lemma GetVarint32_truncated: "k < length (EncodeVarint32 v) \<Longrightarrow> GetVarint32 (take k (EncodeVarint32 v)) = None"
  using GetVarint32Ptr_EncodeVarint32 [of v "[]"]
  by (simp add: GetVarint32_Ptr) (simp add: GetVarint32Ptr_def GetVarint32Loop_truncated)

lemma GetVarint64_truncated: "k < length (EncodeVarint64 v) \<Longrightarrow> GetVarint64 (take k (EncodeVarint64 v)) = None"
  using GetVarint64Ptr_EncodeVarint64 [of v "[]"]
  by (simp add: GetVarint64_Ptr) (simp add: GetVarint64Ptr_def GetVarint64Loop_truncated)

end
