(* ===== verification/Statuses.thy ===== *)
theory Statuses
  imports Coding
begin

text \<open>
  Status values (util/status.cc). A status is its \<open>state_\<close> pointer: \<open>None\<close> is \<open>nullptr\<close> (OK), and
  \<open>Some st\<close> the heap buffer of a 4-byte length, the code byte and the message. Copying and
  moving a status copies or hands over the buffer, which is value semantics here. The length
  is stored with \<open>memcpy\<close>, in the little-endian order of the supported hosts.
\<close>

type_synonym Status = "bytes option"

datatype Code = kOk | kNotFound | kCorruption | kNotSupported | kInvalidArgument | kIOError

fun code_byte :: "Code \<Rightarrow> byte" where
  "code_byte kOk = 0"
| "code_byte kNotFound = 1"
| "code_byte kCorruption = 2"
| "code_byte kNotSupported = 3"
| "code_byte kInvalidArgument = 4"
| "code_byte kIOError = 5"

definition NewStatus :: "Code \<Rightarrow> bytes \<Rightarrow> bytes \<Rightarrow> Status" where
  "NewStatus code msg msg2 =
     (let len1 = length msg; len2 = length msg2;
          size = (of_nat len1 + (if len2 = 0 then 0 else 2 + of_nat len2)) :: u32
      in Some (EncodeFixed32 size @ [code_byte code] @ msg
               @ (if len2 \<noteq> 0 then lit '': '' @ msg2 else [])))"

definition CopyState :: "bytes \<Rightarrow> bytes" where
  "CopyState state = take (unat (DecodeFixed32 state) + 5) state"

definition OK :: Status where
  "OK = None"

definition NotFound :: "bytes \<Rightarrow> bytes \<Rightarrow> Status" where
  "NotFound msg msg2 = NewStatus kNotFound msg msg2"

definition Corruption :: "bytes \<Rightarrow> bytes \<Rightarrow> Status" where
  "Corruption msg msg2 = NewStatus kCorruption msg msg2"

definition NotSupported :: "bytes \<Rightarrow> bytes \<Rightarrow> Status" where
  "NotSupported msg msg2 = NewStatus kNotSupported msg msg2"

definition InvalidArgument :: "bytes \<Rightarrow> bytes \<Rightarrow> Status" where
  "InvalidArgument msg msg2 = NewStatus kInvalidArgument msg msg2"

definition IOError :: "bytes \<Rightarrow> bytes \<Rightarrow> Status" where
  "IOError msg msg2 = NewStatus kIOError msg msg2"

definition ok :: "Status \<Rightarrow> bool" where
  "ok s \<longleftrightarrow> s = None"

text \<open>\<open>Status::code\<close>, as the byte the source casts to its enum.\<close>

definition status_code :: "Status \<Rightarrow> byte" where
  "status_code s = (case s of None \<Rightarrow> code_byte kOk | Some state \<Rightarrow> byte_at state 4)"

definition IsNotFound :: "Status \<Rightarrow> bool" where
  "IsNotFound s \<longleftrightarrow> status_code s = code_byte kNotFound"

definition IsCorruption :: "Status \<Rightarrow> bool" where
  "IsCorruption s \<longleftrightarrow> status_code s = code_byte kCorruption"

definition IsNotSupportedError :: "Status \<Rightarrow> bool" where
  "IsNotSupportedError s \<longleftrightarrow> status_code s = code_byte kNotSupported"

definition IsInvalidArgument :: "Status \<Rightarrow> bool" where
  "IsInvalidArgument s \<longleftrightarrow> status_code s = code_byte kInvalidArgument"

definition IsIOError :: "Status \<Rightarrow> bool" where
  "IsIOError s \<longleftrightarrow> status_code s = code_byte kIOError"

text \<open>
  \<open>ToString\<close>. \<open>dec\<close> is the decimal text \<open>snprintf\<close> prints for the code in the default branch,
  which no constructed status reaches.
\<close>

definition Status_ToString :: "(nat \<Rightarrow> bytes) \<Rightarrow> Status \<Rightarrow> bytes" where
  "Status_ToString dec s =
     (case s of
        None \<Rightarrow> lit ''OK''
      | Some state \<Rightarrow>
          (let code = status_code s;
               type =
                 (if code = code_byte kOk then lit ''OK''
                  else if code = code_byte kNotFound then lit ''NotFound: ''
                  else if code = code_byte kCorruption then lit ''Corruption: ''
                  else if code = code_byte kNotSupported then lit ''Not implemented: ''
                  else if code = code_byte kInvalidArgument then lit ''Invalid argument: ''
                  else if code = code_byte kIOError then lit ''IO error: ''
                  else lit ''Unknown code('' @ dec (unat code) @ lit ''): '')
           in type @ take (unat (DecodeFixed32 state)) (drop 5 state)))"

section \<open>Properties\<close>

lemma status_code_NewStatus [simp]: "status_code (NewStatus c m m2) = code_byte c"
  by (simp add: status_code_def NewStatus_def Let_def byte_at_def nth_append)

lemma status_code_OK [simp]: "status_code OK = 0"
  by (simp add: status_code_def OK_def)

lemma ok_simps [simp]:
  "ok OK" "ok None" "\<not> ok (Some s)" "\<not> ok (NewStatus c m m2)" "\<not> ok (NotFound m m2)" "\<not> ok (Corruption m m2)"
  "\<not> ok (NotSupported m m2)" "\<not> ok (InvalidArgument m m2)" "\<not> ok (IOError m m2)"
  by (simp_all add: ok_def OK_def NewStatus_def NotFound_def Corruption_def NotSupported_def
      InvalidArgument_def IOError_def Let_def)

lemma ok_iff_OK: "ok s \<longleftrightarrow> s = OK"
  by (simp add: ok_def OK_def)

lemma IsNotFound_simps [simp]:
  "IsNotFound (NotFound m m2)" "\<not> IsNotFound OK" "\<not> IsNotFound (Corruption m m2)"
  "\<not> IsNotFound (IOError m m2)" "\<not> IsNotFound (InvalidArgument m m2)" "\<not> IsNotFound (NotSupported m m2)"
  by (simp_all add: IsNotFound_def NotFound_def Corruption_def IOError_def InvalidArgument_def NotSupported_def)

lemma IsCorruption_simps [simp]:
  "IsCorruption (Corruption m m2)" "\<not> IsCorruption OK" "\<not> IsCorruption (NotFound m m2)"
  by (simp_all add: IsCorruption_def NotFound_def Corruption_def)

lemma status_distinct [simp]:
  "NotFound m m2 \<noteq> OK" "Corruption m m2 \<noteq> OK" "NotSupported m m2 \<noteq> OK" "InvalidArgument m m2 \<noteq> OK"
  "IOError m m2 \<noteq> OK" "NotFound m m2 \<noteq> Corruption n n2"
  by (auto simp: OK_def NotFound_def Corruption_def NotSupported_def InvalidArgument_def IOError_def
      NewStatus_def Let_def)

definition message_text :: "bytes \<Rightarrow> bytes \<Rightarrow> bytes" where
  "message_text msg msg2 = (if msg2 = [] then msg else msg @ lit '': '' @ msg2)"

lemma Status_ToString_NewStatus:
  assumes "length msg + length msg2 + 2 < 2 ^ 32"
  shows "Status_ToString dec (NewStatus c msg msg2) =
           (case c of kOk \<Rightarrow> lit ''OK'' | kNotFound \<Rightarrow> lit ''NotFound: '' | kCorruption \<Rightarrow> lit ''Corruption: ''
            | kNotSupported \<Rightarrow> lit ''Not implemented: '' | kInvalidArgument \<Rightarrow> lit ''Invalid argument: ''
            | kIOError \<Rightarrow> lit ''IO error: '') @ message_text msg msg2"
proof -
  have "unat (of_nat (length msg) + (if length msg2 = 0 then 0 else 2 + of_nat (length msg2)) :: u32)
        = length (message_text msg msg2)"
    using assms by (simp add: message_text_def unat_word_ariths unat_of_nat)
  then show ?thesis
    by (cases c) (simp_all add: Status_ToString_def NewStatus_def status_code_def Let_def byte_at_def
        nth_append message_text_def)
qed

lemma CopyState_NewStatus:
  assumes "length msg + length msg2 + 2 < 2 ^ 32" and "NewStatus c msg msg2 = Some st"
  shows "CopyState st = st"
proof -
  have "unat (of_nat (length msg) + (if length msg2 = 0 then 0 else 2 + of_nat (length msg2)) :: u32)
        = length (message_text msg msg2)"
    using assms(1) by (simp add: message_text_def unat_word_ariths unat_of_nat)
  with assms(2) show ?thesis
    by (auto simp: NewStatus_def Let_def CopyState_def message_text_def)
qed

end
