(* ===== verification/Files.thy ===== *)
theory Files
  imports Statuses "HOL-Library.Monad_Syntax"
begin

text \<open>
  The file interfaces of include/lindb/env.h and their POSIX implementations (util/env.cc).
  System calls are parameters: a call maps the state of the kernel (for one descriptor) to its
  return value and the new state. The retry loops on \<open>EINTR\<close> are partial functions, and \<open>None\<close>
  is a call that never returns. Clients see a file as a record of its operations; the locales
  \<open>writable_file\<close>, \<open>reliable_file\<close> and \<open>sequential_file\<close> are the contracts they rely on.
\<close>

section \<open>Interfaces\<close>

record 'f writable_ops =
  wf_Append :: "bytes \<Rightarrow> 'f \<Rightarrow> (Status \<times> 'f) option"
  wf_Flush :: "'f \<Rightarrow> (Status \<times> 'f) option"
  wf_Sync :: "'f \<Rightarrow> (Status \<times> 'f) option"
  wf_Close :: "'f \<Rightarrow> (Status \<times> 'f) option"

type_synonym 's sequential_read = "nat \<Rightarrow> 's \<Rightarrow> (Status \<times> bytes \<times> 's) option"

text \<open>A successful operation appends exactly its data to what the file will hold.\<close>

locale writable_file =
  fixes ops :: "'f writable_ops" and contents :: "'f \<Rightarrow> bytes"
  assumes append_ok: "wf_Append ops bs f = Some (s, f') \<Longrightarrow> ok s \<Longrightarrow> contents f' = contents f @ bs"
    and flush_ok: "wf_Flush ops f = Some (s, f') \<Longrightarrow> ok s \<Longrightarrow> contents f' = contents f"

text \<open>A file on a device that never fails.\<close>

locale reliable_file = writable_file +
  assumes append_reliable: "\<exists>f'. wf_Append ops bs f = Some (OK, f')"
    and flush_reliable: "\<exists>f'. wf_Flush ops f = Some (OK, f')"

locale sequential_file =
  fixes read :: "'s sequential_read" and remaining :: "'s \<Rightarrow> bytes"
  assumes read_ok: "\<exists>s'. read n s = Some (OK, take n (remaining s), s') \<and> remaining s' = drop n (remaining s)"

section \<open>System calls\<close>

text \<open>A non-negative return value, or \<open>-1\<close> with \<open>errno\<close>.\<close>

datatype sysret = SysOk nat | SysErr nat

definition EINTR :: nat where
  "EINTR = 4"

definition ENOENT :: nat where
  "ENOENT = 2"

record 'o wr_calls =
  sys_write :: "bytes \<Rightarrow> 'o \<Rightarrow> sysret \<times> 'o"
  sys_fsync :: "'o \<Rightarrow> sysret \<times> 'o"
  sys_close :: "'o \<Rightarrow> sysret \<times> 'o"
  strerror :: "nat \<Rightarrow> bytes"

definition PosixError :: "(nat \<Rightarrow> bytes) \<Rightarrow> bytes \<Rightarrow> nat \<Rightarrow> Status" where
  "PosixError serr context_name error_number =
     (if error_number = ENOENT then NotFound context_name (serr error_number)
      else IOError context_name (serr error_number))"

section \<open>PosixWritableFile\<close>

definition kWritableFileBufferSize :: nat where
  "kWritableFileBufferSize = 65536"

text \<open>\<open>pw_buf\<close> is \<open>buf_[0..pos_)\<close>, so \<open>pos_\<close> is its length.\<close>

record 'o PosixWritableFile =
  pw_filename :: bytes
  pw_open :: bool
  pw_buf :: bytes
  pw_os :: 'o

definition PosixWritableFile_new :: "bytes \<Rightarrow> 'o \<Rightarrow> 'o PosixWritableFile" where
  "PosixWritableFile_new filename k = \<lparr> pw_filename = filename, pw_open = True, pw_buf = [], pw_os = k \<rparr>"

partial_function (option) WriteUnbufferedLoop :: "'o wr_calls \<Rightarrow> bytes \<Rightarrow> bytes \<Rightarrow> 'o \<Rightarrow> (Status \<times> 'o) option" where
  "WriteUnbufferedLoop sys filename data k =
     (if data = [] then Some (OK, k)
      else let (r, k') = sys_write sys data k
           in case r of
                SysErr e \<Rightarrow>
                  if e = EINTR then WriteUnbufferedLoop sys filename data k'
                  else Some (PosixError (strerror sys) filename e, k')
              | SysOk n \<Rightarrow>
                  if n = 0 then Some (IOError filename (lit ''write returned 0''), k')
                  else WriteUnbufferedLoop sys filename (drop n data) k')"

definition WriteUnbuffered ::
    "'o wr_calls \<Rightarrow> bytes \<Rightarrow> 'o PosixWritableFile \<Rightarrow> (Status \<times> 'o PosixWritableFile) option" where
  "WriteUnbuffered sys data f =
     map_option (\<lambda>(s, k). (s, f\<lparr> pw_os := k \<rparr>)) (WriteUnbufferedLoop sys (pw_filename f) data (pw_os f))"

definition FlushBuffer :: "'o wr_calls \<Rightarrow> 'o PosixWritableFile \<Rightarrow> (Status \<times> 'o PosixWritableFile) option" where
  "FlushBuffer sys f =
     do { (status, f') \<leftarrow> WriteUnbuffered sys (pw_buf f) f;
          Some (status, if ok status then f'\<lparr> pw_buf := [] \<rparr> else f') }"

definition Posix_Append ::
    "'o wr_calls \<Rightarrow> bytes \<Rightarrow> 'o PosixWritableFile \<Rightarrow> (Status \<times> 'o PosixWritableFile) option" where
  "Posix_Append sys data f =
     (if length data \<le> kWritableFileBufferSize - length (pw_buf f)
      then Some (OK, f\<lparr> pw_buf := pw_buf f @ data \<rparr>)
      else
        let copy_size = kWritableFileBufferSize - length (pw_buf f);
            f1 = (if copy_size > 0 then f\<lparr> pw_buf := pw_buf f @ take copy_size data \<rparr> else f);
            write_data = drop copy_size data
        in do { (status, f2) \<leftarrow> FlushBuffer sys f1;
                if \<not> ok status then Some (status, f2)
                else if length write_data < kWritableFileBufferSize
                then Some (OK, f2\<lparr> pw_buf := write_data \<rparr>)
                else WriteUnbuffered sys write_data f2 })"

definition Posix_Close :: "'o wr_calls \<Rightarrow> 'o PosixWritableFile \<Rightarrow> (Status \<times> 'o PosixWritableFile) option" where
  "Posix_Close sys f =
     do { (status, f1) \<leftarrow> FlushBuffer sys f;
          let (r, k) = sys_close sys (pw_os f1);
          Some (case r of SysErr e \<Rightarrow> if ok status then PosixError (strerror sys) (pw_filename f) e else status
                        | SysOk n \<Rightarrow> status,
                f1\<lparr> pw_os := k, pw_open := False \<rparr>) }"

definition Posix_Flush :: "'o wr_calls \<Rightarrow> 'o PosixWritableFile \<Rightarrow> (Status \<times> 'o PosixWritableFile) option" where
  "Posix_Flush sys f = FlushBuffer sys f"

definition Posix_Sync :: "'o wr_calls \<Rightarrow> 'o PosixWritableFile \<Rightarrow> (Status \<times> 'o PosixWritableFile) option" where
  "Posix_Sync sys f =
     do { (status, f1) \<leftarrow> FlushBuffer sys f;
          if \<not> ok status then Some (status, f1)
          else let (r, k) = sys_fsync sys (pw_os f1)
               in Some (case r of SysErr e \<Rightarrow> PosixError (strerror sys) (pw_filename f) e | SysOk n \<Rightarrow> OK,
                        f1\<lparr> pw_os := k \<rparr>) }"

definition Posix_ops :: "'o wr_calls \<Rightarrow> 'o PosixWritableFile writable_ops" where
  "Posix_ops sys =
     \<lparr> wf_Append = Posix_Append sys, wf_Flush = Posix_Flush sys, wf_Sync = Posix_Sync sys, wf_Close = Posix_Close sys \<rparr>"

section \<open>PosixSequentialFile\<close>

type_synonym 'o rd_call = "nat \<Rightarrow> 'o \<Rightarrow> (sysret \<times> bytes) \<times> 'o"

text \<open>\<open>rd n\<close> is \<open>::read\<close>; the bytes are what it puts into the buffer.\<close>

partial_function (option) PosixSequential_Read ::
    "(nat \<Rightarrow> bytes) \<Rightarrow> 'o rd_call \<Rightarrow> bytes \<Rightarrow> nat \<Rightarrow> 'o \<Rightarrow> (Status \<times> bytes \<times> 'o) option" where
  "PosixSequential_Read serr rd filename n k =
     (let ((r, bs), k') = rd n k
      in case r of
           SysErr e \<Rightarrow>
             if e = EINTR then PosixSequential_Read serr rd filename n k'
             else Some (PosixError serr filename e, [], k')
         | SysOk m \<Rightarrow> Some (OK, take m bs, k'))"

section \<open>Whole files\<close>

text \<open>
  \<open>opened\<close> is the result of \<open>NewWritableFile\<close>. The last component of the result tells whether the
  file is removed again (\<open>env->RemoveFile\<close>), which happens when a later step fails.
\<close>

definition DoWriteStringToFile ::
    "'f writable_ops \<Rightarrow> Status \<times> 'f \<Rightarrow> bytes \<Rightarrow> bool \<Rightarrow> (Status \<times> 'f \<times> bool) option" where
  "DoWriteStringToFile ops opened data should_sync =
     (let (status, file) = opened
      in if \<not> ok status then Some (status, file, False)
         else do { (s1, f1) \<leftarrow> wf_Append ops data file;
                   (s2, f2) \<leftarrow> (if ok s1 \<and> should_sync then wf_Sync ops f1 else Some (s1, f1));
                   (s3, f3) \<leftarrow> (if ok s2 then wf_Close ops f2 else Some (s2, f2));
                   Some (s3, f3, \<not> ok s3) })"

partial_function (option) ReadFileLoop :: "'s sequential_read \<Rightarrow> bytes \<Rightarrow> 's \<Rightarrow> (Status \<times> bytes \<times> 's) option" where
  "ReadFileLoop read data s =
     do { (status, fragment, s') \<leftarrow> read 8192 s;
          if \<not> ok status then Some (status, data, s')
          else if fragment = [] then Some (status, data, s')
          else ReadFileLoop read (data @ fragment) s' }"

section \<open>The writable file meets its contract\<close>

text \<open>What POSIX promises of \<open>write\<close>: a count of bytes from the front of the data, in order.\<close>

definition write_call_ok :: "'o wr_calls \<Rightarrow> ('o \<Rightarrow> bytes) \<Rightarrow> bool" where
  "write_call_ok sys written \<longleftrightarrow>
     (\<forall>data k r k'. sys_write sys data k = (r, k') \<longrightarrow>
        (case r of SysOk n \<Rightarrow> n \<le> length data \<and> written k' = written k @ take n data
                 | SysErr e \<Rightarrow> written k' = written k))"

definition Posix_contents :: "('o \<Rightarrow> bytes) \<Rightarrow> 'o PosixWritableFile \<Rightarrow> bytes" where
  "Posix_contents written f = written (pw_os f) @ pw_buf f"

lemma write_call_result:
  assumes "write_call_ok sys written" "sys_write sys data k = (r, k')"
  shows "case r of SysOk n \<Rightarrow> n \<le> length data \<and> written k' = written k @ take n data | SysErr e \<Rightarrow> written k' = written k"
  using assms unfolding write_call_ok_def by blast

lemma write_call_SysErr: "write_call_ok sys written \<Longrightarrow> sys_write sys data k = (SysErr e, k') \<Longrightarrow> written k' = written k"
  using write_call_result [of sys written data k "SysErr e" k'] by simp

lemma write_call_SysOk:
  assumes "write_call_ok sys written" "sys_write sys data k = (SysOk n, k')"
  shows "n \<le> length data" "written k' = written k @ take n data"
  using write_call_result [OF assms] by simp_all

text \<open>Whatever the device does, a front part of the data reaches it, all of it if the status is OK.\<close>

lemma WriteUnbufferedLoop_written:
  assumes sys: "write_call_ok sys written"
    and ret: "WriteUnbufferedLoop sys filename data k = Some r"
  shows "\<exists>n \<le> length data. written (snd r) = written k @ take n data \<and> (ok (fst r) \<longrightarrow> n = length data)"
proof -
  have "sys' = sys \<longrightarrow> (\<exists>n \<le> length data. written (snd r) = written k @ take n data \<and> (ok (fst r) \<longrightarrow> n = length data))"
    if "WriteUnbufferedLoop sys' filename data k = Some r" for sys'
  proof (rule WriteUnbufferedLoop.raw_induct [where P = "\<lambda>sys' filename data k r. sys' = sys \<longrightarrow>
      (\<exists>n \<le> length data. written (snd r) = written k @ take n data \<and> (ok (fst r) \<longrightarrow> n = length data))", OF _ that])
    fix f :: "'a wr_calls \<Rightarrow> bytes \<Rightarrow> bytes \<Rightarrow> 'a \<Rightarrow> (Status \<times> 'a) option" and sys' filename data k r
    assume IH: "\<And>sys' filename data k r. f sys' filename data k = Some r \<Longrightarrow> sys' = sys \<longrightarrow>
        (\<exists>n \<le> length data. written (snd r) = written k @ take n data \<and> (ok (fst r) \<longrightarrow> n = length data))"
      and step: "(if data = [] then Some (OK, k)
        else let (r, k') = sys_write sys' data k
             in case r of
                  SysOk n \<Rightarrow> if n = 0 then Some (IOError filename (lit ''write returned 0''), k') else f sys' filename (drop n data) k'
                | SysErr e \<Rightarrow> if e = EINTR then f sys' filename data k' else Some (PosixError (strerror sys') filename e, k')) = Some r"
    show "sys' = sys \<longrightarrow> (\<exists>n \<le> length data. written (snd r) = written k @ take n data \<and> (ok (fst r) \<longrightarrow> n = length data))"
    proof
      assume "sys' = sys"
      show "\<exists>n \<le> length data. written (snd r) = written k @ take n data \<and> (ok (fst r) \<longrightarrow> n = length data)"
      proof (cases "data = []")
        case True
        with step show ?thesis by auto
      next
        case False
        obtain res k' where w: "sys_write sys data k = (res, k')"
          by fastforce
        show ?thesis
        proof (cases res)
          case (SysErr e)
          have wr: "written k' = written k"
            using write_call_SysErr [OF sys] w SysErr by simp
          show ?thesis
          proof (cases "e = EINTR")
            case True
            with step False w SysErr \<open>sys' = sys\<close> have "f sys filename data k' = Some r"
              by simp
            from IH [OF this] show ?thesis
              by (simp add: wr)
          next
            case ne: False
            with step False w SysErr \<open>sys' = sys\<close> have "r = (PosixError (strerror sys) filename e, k')"
              by simp
            then show ?thesis
              by (intro exI [of _ 0]) (simp add: wr PosixError_def)
          qed
        next
          case (SysOk n)
          have n: "n \<le> length data" "written k' = written k @ take n data"
            using write_call_SysOk [OF sys] w SysOk by simp_all
          show ?thesis
          proof (cases "n = 0")
            case True
            with step False w SysOk \<open>sys' = sys\<close> n show ?thesis
              by (intro exI [of _ 0]) auto
          next
            case ne: False
            with step False w SysOk \<open>sys' = sys\<close> have "f sys filename (drop n data) k' = Some r"
              by simp
            from IH [OF this] obtain m where "m \<le> length data - n"
                "written (snd r) = written k' @ take m (drop n data)" "ok (fst r) \<longrightarrow> m = length data - n"
              by auto
            with n show ?thesis
              by (intro exI [of _ "n + m"]) (auto simp: take_add)
          qed
        qed
      qed
    qed
  qed
  with ret show ?thesis by blast
qed

lemma WriteUnbuffered_written:
  assumes "write_call_ok sys written" "WriteUnbuffered sys data f = Some (s, f')" "ok s"
  shows "written (pw_os f') = written (pw_os f) @ data" "pw_buf f' = pw_buf f"
  using assms WriteUnbufferedLoop_written [OF assms(1)] by (fastforce simp: WriteUnbuffered_def)+

lemma FlushBuffer_written:
  assumes "write_call_ok sys written" "FlushBuffer sys f = Some (s, f')" "ok s"
  shows "written (pw_os f') = Posix_contents written f" "pw_buf f' = []"
proof -
  obtain s1 f1 where f1: "WriteUnbuffered sys (pw_buf f) f = Some (s1, f1)" "s = s1" "f' = (if ok s1 then f1\<lparr> pw_buf := [] \<rparr> else f1)"
    using assms(2) by (auto simp: FlushBuffer_def Option.bind_eq_Some_conv)
  with WriteUnbuffered_written [OF assms(1) f1(1)] assms(3)
  show "written (pw_os f') = Posix_contents written f" "pw_buf f' = []"
    by (simp_all add: Posix_contents_def)
qed

lemma Posix_Append_contents:
  assumes sys: "write_call_ok sys written" and "Posix_Append sys data f = Some (s, f')" "ok s"
  shows "Posix_contents written f' = Posix_contents written f @ data"
proof (cases "length data \<le> kWritableFileBufferSize - length (pw_buf f)")
  case True
  with assms show ?thesis
    by (auto simp: Posix_Append_def Posix_contents_def)
next
  case False
  let ?c = "kWritableFileBufferSize - length (pw_buf f)"
  define f1 where "f1 = (if ?c > 0 then f\<lparr> pw_buf := pw_buf f @ take ?c data \<rparr> else f)"
  have f1c: "Posix_contents written f1 = Posix_contents written f @ take ?c data"
    by (auto simp: f1_def Posix_contents_def)
  obtain s2 f2 where f2: "FlushBuffer sys f1 = Some (s2, f2)"
    and rest: "(if \<not> ok s2 then Some (s2, f2)
                else if length (drop ?c data) < kWritableFileBufferSize then Some (OK, f2\<lparr> pw_buf := drop ?c data \<rparr>)
                else WriteUnbuffered sys (drop ?c data) f2) = Some (s, f')"
    using assms(2) False unfolding Posix_Append_def f1_def Let_def
    by (auto simp: Option.bind_eq_Some_conv split del: if_split)
  have "ok s2"
    using rest assms(3) by (auto split: if_splits)
  note fl = FlushBuffer_written [OF sys f2 this]
  show ?thesis
  proof (cases "length (drop ?c data) < kWritableFileBufferSize")
    case True
    with rest \<open>ok s2\<close> have "f' = f2\<lparr> pw_buf := drop ?c data \<rparr>"
      by simp
    then show ?thesis
      using fl f1c by (simp add: Posix_contents_def [of written "f2\<lparr> pw_buf := _ \<rparr>"])
  next
    case False
    with rest \<open>ok s2\<close> have "WriteUnbuffered sys (drop ?c data) f2 = Some (s, f')"
      by simp
    from WriteUnbuffered_written [OF sys this assms(3)] show ?thesis
      using fl f1c by (simp add: Posix_contents_def [of written f'])
  qed
qed

text \<open>
  Interpretation: on a kernel whose \<open>write\<close> takes at most \<open>c + 1\<close> bytes a time and never fails,
  the POSIX file is a reliable file, however small the pieces.
\<close>

definition disk_calls :: "nat \<Rightarrow> bytes wr_calls" where
  "disk_calls c =
     \<lparr> sys_write = (\<lambda>data k. (SysOk (min (length data) (Suc c)), k @ take (Suc c) data)),
       sys_fsync = (\<lambda>k. (SysOk 0, k)), sys_close = (\<lambda>k. (SysOk 0, k)), strerror = (\<lambda>_. lit ''error'') \<rparr>"

lemma disk_write_ok: "write_call_ok (disk_calls c) (\<lambda>k. k)"
  by (auto simp: write_call_ok_def disk_calls_def min_def)

lemma disk_WriteUnbufferedLoop: "WriteUnbufferedLoop (disk_calls c) filename data k = Some (OK, k @ data)"
proof (induction data arbitrary: k rule: length_induct)
  case (1 data)
  show ?case
  proof (cases "data = []")
    case False
    then have "min (length data) (Suc c) \<noteq> 0"
      by simp
    moreover have "drop (min (length data) (Suc c)) data = drop (Suc c) data"
      by (simp add: min_def)
    moreover have "length (drop (Suc c) data) < length data"
      using False by simp
    then have "WriteUnbufferedLoop (disk_calls c) filename (drop (Suc c) data) (k @ take (Suc c) data) =
        Some (OK, (k @ take (Suc c) data) @ drop (Suc c) data)"
      using 1 by blast
    moreover have "sys_write (disk_calls c) data k = (SysOk (min (length data) (Suc c)), k @ take (Suc c) data)"
      by (simp add: disk_calls_def)
    ultimately show ?thesis
      using False by (subst WriteUnbufferedLoop.simps) simp
  qed (simp add: WriteUnbufferedLoop.simps)
qed

lemma disk_FlushBuffer:
  "FlushBuffer (disk_calls c) f = Some (OK, f\<lparr> pw_os := pw_os f @ pw_buf f, pw_buf := [] \<rparr>)"
  by (simp add: FlushBuffer_def WriteUnbuffered_def disk_WriteUnbufferedLoop)

lemma disk_Append: "\<exists>f'. Posix_Append (disk_calls c) data f = Some (OK, f')"
  by (simp add: Posix_Append_def Let_def disk_FlushBuffer WriteUnbuffered_def disk_WriteUnbufferedLoop)

interpretation disk: reliable_file "Posix_ops (disk_calls c)" "Posix_contents (\<lambda>k. k)" for c
proof unfold_locales
  show "wf_Append (Posix_ops (disk_calls c)) bs f = Some (s, f') \<Longrightarrow> ok s \<Longrightarrow>
      Posix_contents (\<lambda>k. k) f' = Posix_contents (\<lambda>k. k) f @ bs" for bs f s f'
    using Posix_Append_contents [OF disk_write_ok] by (simp add: Posix_ops_def)
  show "wf_Flush (Posix_ops (disk_calls c)) f = Some (s, f') \<Longrightarrow> ok s \<Longrightarrow>
      Posix_contents (\<lambda>k. k) f' = Posix_contents (\<lambda>k. k) f" for f s f'
    by (auto simp: Posix_ops_def Posix_Flush_def disk_FlushBuffer Posix_contents_def)
  show "\<exists>f'. wf_Append (Posix_ops (disk_calls c)) bs f = Some (OK, f')" for bs f
    using disk_Append by (simp add: Posix_ops_def)
  show "\<exists>f'. wf_Flush (Posix_ops (disk_calls c)) f = Some (OK, f')" for f
    by (simp add: Posix_ops_def Posix_Flush_def disk_FlushBuffer)
qed

text \<open>A kernel file that delivers what is asked for, up to its end.\<close>

definition disk_read :: "bytes rd_call" where
  "disk_read n k = ((SysOk (length (take n k)), take n k), drop n k)"

interpretation disk: sequential_file "PosixSequential_Read serr disk_read filename" "\<lambda>k. k" for serr filename
  by unfold_locales (simp add: PosixSequential_Read.simps disk_read_def min_def)

text \<open>On a disk that does not fail, the whole string is written, and the file is kept.\<close>

lemma disk_DoWriteStringToFile:
  "\<exists>f'. DoWriteStringToFile (Posix_ops (disk_calls c)) (OK, PosixWritableFile_new filename []) data should_sync = Some (OK, f', False) \<and>
     pw_os f' = data \<and> \<not> pw_open f'"
proof -
  obtain f1 where f1: "Posix_Append (disk_calls c) data (PosixWritableFile_new filename []) = Some (OK, f1)"
    using disk_Append by blast
  have c1: "Posix_contents (\<lambda>k. k) f1 = data"
    using Posix_Append_contents [OF disk_write_ok f1] by (simp add: Posix_contents_def PosixWritableFile_new_def)
  have sys: "sys_fsync (disk_calls c) k = (SysOk 0, k)" "sys_close (disk_calls c) k = (SysOk 0, k)" for k
    by (simp_all add: disk_calls_def)
  have close: "Posix_Close (disk_calls c) f = Some (OK, f\<lparr> pw_os := pw_os f @ pw_buf f, pw_buf := [], pw_open := False \<rparr>)" for f
    by (simp add: Posix_Close_def disk_FlushBuffer sys)
  show ?thesis
    using f1 c1 by (simp add: DoWriteStringToFile_def Posix_ops_def Posix_Sync_def close disk_FlushBuffer sys
        Posix_contents_def)
qed

context sequential_file
begin

text \<open>Reading a whole file returns, with the contents.\<close>

lemma ReadFileLoop_all: "\<exists>s'. ReadFileLoop read data s = Some (OK, data @ remaining s, s')"
proof (induction "length (remaining s)" arbitrary: s data rule: less_induct)
  case less
  obtain s' where s': "read 8192 s = Some (OK, take 8192 (remaining s), s')" "remaining s' = drop 8192 (remaining s)"
    using read_ok by blast
  show ?case
  proof (cases "remaining s = []")
    case True
    with s' show ?thesis
      by (subst ReadFileLoop.simps) simp
  next
    case False
    then have "length (remaining s') < length (remaining s)"
      using s'(2) by simp
    from less [OF this, of "data @ take 8192 (remaining s)"] obtain s'' where
      "ReadFileLoop read (data @ take 8192 (remaining s)) s' = Some (OK, (data @ take 8192 (remaining s)) @ remaining s', s'')"
      by blast
    with s' False show ?thesis
      by (subst ReadFileLoop.simps) simp
  qed
qed

end

section \<open>The process's lock table (PosixLockTable) and the background queue\<close>

text \<open>A set of names; \<open>Insert\<close> reports whether the name was new.\<close>

definition LockTable_Insert :: "bytes \<Rightarrow> bytes set \<Rightarrow> bool \<times> bytes set" where
  "LockTable_Insert filename locked = (filename \<notin> locked, insert filename locked)"

definition LockTable_Remove :: "bytes \<Rightarrow> bytes set \<Rightarrow> bytes set" where
  "LockTable_Remove filename locked = locked - {filename}"

text \<open>
  \<open>LockFile\<close>: \<open>open_ret\<close> is the result of \<open>::open\<close> and \<open>lock_ret\<close> that of \<open>fcntl\<close>, called only once
  the name is in the table. The result is the status and, on success, the lock (its name).
\<close>

definition Posix_LockFile ::
    "(nat \<Rightarrow> bytes) \<Rightarrow> sysret \<Rightarrow> sysret \<Rightarrow> bytes \<Rightarrow> bytes set \<Rightarrow> Status \<times> bytes option \<times> bytes set" where
  "Posix_LockFile serr open_ret lock_ret fname locked =
     (case open_ret of
        SysErr e \<Rightarrow> (PosixError serr fname e, None, locked)
      | SysOk fd \<Rightarrow>
          (let (inserted, locked1) = LockTable_Insert fname locked
           in if \<not> inserted then (IOError (lit ''lock '' @ fname) (lit ''already held by process''), None, locked1)
              else case lock_ret of
                     SysErr e \<Rightarrow> (PosixError serr (lit ''lock '' @ fname) e, None, LockTable_Remove fname locked1)
                   | SysOk n \<Rightarrow> (OK, Some fname, locked1)))"

definition Posix_UnlockFile :: "(nat \<Rightarrow> bytes) \<Rightarrow> sysret \<Rightarrow> bytes \<Rightarrow> bytes set \<Rightarrow> Status \<times> bytes set" where
  "Posix_UnlockFile serr unlock_ret lock locked =
     (case unlock_ret of
        SysErr e \<Rightarrow> (PosixError serr (lit ''unlock '' @ lock) e, locked)
      | SysOk n \<Rightarrow> (OK, LockTable_Remove lock locked))"

text \<open>A lock is granted at most once until it is released, and a failed attempt leaves the table as it was.\<close>

lemma Posix_LockFile_exclusive:
  "Posix_LockFile serr r1 r2 fname locked = (s, l, locked') \<Longrightarrow>
     (l \<noteq> None \<longleftrightarrow> ok s) \<and> (ok s \<longrightarrow> fname \<notin> locked \<and> l = Some fname) \<and>
     locked' = (if ok s then insert fname locked else locked)"
  by (auto simp: Posix_LockFile_def LockTable_Insert_def LockTable_Remove_def PosixError_def split: sysret.splits if_splits)

section \<open>A file kept in memory\<close>

text \<open>The simplest reliable file; it carries the concrete instances of theorems about written files.\<close>

definition memory_file_ops :: "bytes writable_ops" where
  "memory_file_ops = \<lparr> wf_Append = (\<lambda>bs f. Some (OK, f @ bs)), wf_Flush = (\<lambda>f. Some (OK, f)),
     wf_Sync = (\<lambda>f. Some (OK, f)), wf_Close = (\<lambda>f. Some (OK, f)) \<rparr>"

interpretation memory: reliable_file memory_file_ops "\<lambda>f. f"
  by unfold_locales (auto simp: memory_file_ops_def)

end
