(* ===== verification/Hashes.thy ===== *)
theory Hashes
  imports Coding
begin

text \<open>
  Hashing, checksums and pseudo-random numbers: the 32-bit string hash (util/hash.cc), the
  table-driven CRC32C with its mask (util/crc32c.cc) and the Park-Miller generator
  (util/random.cc). The CRC is proved equal to a bit-serial reference, whose step is linear
  and injective; that gives the detection of every error burst of up to four bytes.
\<close>

section \<open>Hash (util/hash.cc)\<close>

fun HashWords :: "u32 \<Rightarrow> bytes \<Rightarrow> u32 \<times> bytes" where
  "HashWords h (b0 # b1 # b2 # b3 # data) =
     (let h1 = h + DecodeFixed32 [b0, b1, b2, b3];
          h2 = h1 * 0xc6a4a793;
          h3 = h2 XOR drop_bit 16 h2
      in HashWords h3 data)"
| "HashWords h data = (h, data)"

definition HashTail :: "u32 \<Rightarrow> bytes \<Rightarrow> u32" where
  "HashTail h data =
     (let h1 = (if length data = 3 then h + push_bit 16 (ucast (byte_at data 2)) else h);
          h2 = (if length data = 3 \<or> length data = 2 then h1 + push_bit 8 (ucast (byte_at data 1)) else h1)
      in if length data = 3 \<or> length data = 2 \<or> length data = 1
         then (let h3 = (h2 + ucast (byte_at data 0)) * 0xc6a4a793 in h3 XOR drop_bit 24 h3)
         else h)"

definition Hash :: "bytes \<Rightarrow> u32 \<Rightarrow> u32" where
  "Hash data seed =
     (if length data = 0 then seed
      else let (h, rest) = HashWords (seed XOR (of_nat (length data) * 0xc6a4a793)) data
           in HashTail h rest)"

section \<open>CRC32C (util/crc32c.cc)\<close>

definition kCRC32CPolynomial :: u32 where
  "kCRC32CPolynomial = 0x82f63b78"

definition kMaskDelta :: u32 where
  "kMaskDelta = 0xa282ead8"

definition crc_bit :: "u32 \<Rightarrow> u32" where
  "crc_bit crc =
     (if crc AND 1 \<noteq> 0 then drop_bit 1 crc XOR kCRC32CPolynomial else drop_bit 1 crc)"

definition MakeTable :: "u32 list" where
  "MakeTable = map (\<lambda>i. (crc_bit ^^ 8) (of_nat i)) [0..<256]"

fun ExtendLoop :: "u32 \<Rightarrow> bytes \<Rightarrow> u32" where
  "ExtendLoop crc [] = crc"
| "ExtendLoop crc (b # data) =
     ExtendLoop (MakeTable ! unat ((crc XOR ucast b) AND 0xff) XOR drop_bit 8 crc) data"

definition Extend :: "u32 \<Rightarrow> bytes \<Rightarrow> u32" where
  "Extend init_crc data = ExtendLoop (init_crc XOR 0xffffffff) data XOR 0xffffffff"

definition Value :: "bytes \<Rightarrow> u32" where
  "Value data = Extend 0 data"

definition Mask :: "u32 \<Rightarrow> u32" where
  "Mask crc = (drop_bit 15 crc OR push_bit 17 crc) + kMaskDelta"

definition Unmask :: "u32 \<Rightarrow> u32" where
  "Unmask masked_crc =
     (let rotated = masked_crc - kMaskDelta in drop_bit 17 rotated OR push_bit 15 rotated)"

section \<open>Random (util/random.cc)\<close>

definition RandomInit :: "u32 \<Rightarrow> u32" where
  "RandomInit s =
     (let seed = s AND 0x7fffffff in if seed = 0 \<or> seed = 2147483647 then 1 else seed)"

text \<open>\<open>Next\<close> returns the new seed, which is also its result.\<close>

definition RandomNext :: "u32 \<Rightarrow> u32" where
  "RandomNext seed =
     (let kM = 2147483647 :: u32;
          product = (ucast seed :: u64) * 16807;
          seed1 = (ucast (drop_bit 31 product + (product AND ucast kM)) :: u32)
      in if seed1 > kM then seed1 - kM else seed1)"

definition RandomUniform :: "u32 \<Rightarrow> u32 \<Rightarrow> u32 \<times> u32" where
  "RandomUniform seed n = (let r = RandomNext seed in (r mod n, r))"

definition RandomOneIn :: "u32 \<Rightarrow> u32 \<Rightarrow> bool \<times> u32" where
  "RandomOneIn seed n = (let r = RandomNext seed in (r mod n = 0, r))"

definition RandomSkewed :: "u32 \<Rightarrow> nat \<Rightarrow> u32 \<times> u32" where
  "RandomSkewed seed max_log =
     (let (k, seed1) = RandomUniform seed (of_nat (max_log + 1))
      in RandomUniform seed1 (push_bit (unat k) 1))"

section \<open>The bit-serial CRC is linear and injective\<close>

lemma crc_bit_alt: "crc_bit x = drop_bit 1 x XOR (if bit x 0 then kCRC32CPolynomial else 0)"
  by (simp add: crc_bit_def and_one_eq odd_iff_mod_2_eq_one [symmetric] bit_0)

lemma crc_bit_xor: "crc_bit (x XOR y) = crc_bit x XOR crc_bit y"
  by (auto simp: crc_bit_alt bit_xor_iff drop_bit_xor xor.assoc xor.left_commute xor.commute)

lemma bit_31_crc_bit: "bit (crc_bit x) 31 = bit x 0"
proof -
  have "bit kCRC32CPolynomial 31"
    by (simp add: kCRC32CPolynomial_def)
  moreover have "\<not> bit (drop_bit 1 x) 31"
    using bit_imp_le_length [of x 32] by (auto simp: bit_drop_bit_eq)
  ultimately show ?thesis
    by (simp add: crc_bit_alt bit_xor_iff)
qed

lemma crc_bit_inj:
  assumes "crc_bit x = crc_bit y"
  shows "x = y"
proof -
  have b0: "bit x 0 = bit y 0"
    using assms bit_31_crc_bit [of x] bit_31_crc_bit [of y] by simp
  have "drop_bit 1 x = crc_bit x XOR (if bit x 0 then kCRC32CPolynomial else 0)" for x
    by (simp add: crc_bit_alt xor.assoc)
  with assms b0 have d: "drop_bit 1 x = drop_bit 1 y"
    by simp
  show ?thesis
  proof (rule bit_word_eqI)
    fix n
    show "bit x n = bit y n"
    proof (cases n)
      case 0
      with b0 show ?thesis by simp
    next
      case (Suc m)
      with d have "bit (drop_bit 1 x) m = bit (drop_bit 1 y) m" by simp
      with Suc show ?thesis by (simp add: bit_drop_bit_eq)
    qed
  qed
qed

lemma crc_bits_xor: "(crc_bit ^^ k) (x XOR y) = (crc_bit ^^ k) x XOR (crc_bit ^^ k) y"
  by (induction k) (simp_all add: crc_bit_xor)

lemma crc_bits_inj: "(crc_bit ^^ k) x = (crc_bit ^^ k) y \<Longrightarrow> x = y"
  by (induction k) (auto dest: crc_bit_inj)

lemma crc_bits_shift: "take_bit k x = 0 \<Longrightarrow> (crc_bit ^^ k) x = drop_bit k x"
proof (induction k arbitrary: x)
  case (Suc k)
  have bits: "\<not> bit x i" if "i < Suc k" for i
    using Suc.prems that by (metis bit_0_eq bit_take_bit_iff bot_apply bot_bool_def)
  then have "crc_bit x = drop_bit 1 x"
    by (simp add: crc_bit_alt)
  moreover have "take_bit k (drop_bit 1 x) = 0"
    using bits by (intro bit_word_eqI) (auto simp: bit_simps)
  ultimately show ?case
    using Suc.IH [of "drop_bit 1 x"] by (simp only: funpow_Suc_right o_apply drop_bit_drop_bit) simp
qed simp

text \<open>One iteration of the table loop is eight steps of the bit-serial register.\<close>

lemma unat_and_255: "unat (w AND 255 :: u32) < 256"
proof -
  have "unat (w AND 255) \<le> unat (255 :: u32)"
    by (rule word_and_le1 [THEN word_le_nat_alt [THEN iffD1]])
  then show ?thesis by simp
qed

lemma MakeTable_nth: "MakeTable ! unat (w AND 0xff :: u32) = (crc_bit ^^ 8) (w AND 0xff)"
  using unat_and_255 [of w] by (simp add: MakeTable_def)

lemma bit_255: "bit (255 :: int) k \<longleftrightarrow> k < 8"
proof -
  have "(255 :: int) = mask 8"
    by (simp add: mask_eq_exp_minus_1)
  then show ?thesis
    by (simp only: bit_mask_iff) simp
qed

lemma table_step: "MakeTable ! unat (w AND 0xff) XOR drop_bit 8 w = (crc_bit ^^ 8) w"
proof -
  have split: "w = (w AND 0xff) XOR push_bit 8 (drop_bit 8 w)"
  proof (rule bit_word_eqI)
    fix n
    assume "n < LENGTH(32)"
    then show "bit w n = bit ((w AND 0xff) XOR push_bit 8 (drop_bit 8 w)) n"
      by (cases "8 \<le> n") (simp_all add: bit_simps bit_255)
  qed
  have "(crc_bit ^^ 8) (push_bit 8 (drop_bit 8 w)) = drop_bit 8 (push_bit 8 (drop_bit 8 w))"
    by (rule crc_bits_shift) (rule bit_word_eqI, simp add: bit_simps)
  also have "\<dots> = drop_bit 8 w"
    by (rule bit_word_eqI) (auto simp: bit_simps dest: bit_imp_le_length)
  finally have high: "(crc_bit ^^ 8) (push_bit 8 (drop_bit 8 w)) = drop_bit 8 w" .
  have "(crc_bit ^^ 8) w = (crc_bit ^^ 8) ((w AND 0xff) XOR push_bit 8 (drop_bit 8 w))"
    by (rule arg_cong [OF split])
  then show ?thesis
    by (simp only: crc_bits_xor MakeTable_nth high)
qed

fun crc_serial :: "u32 \<Rightarrow> bytes \<Rightarrow> u32" where
  "crc_serial crc [] = crc"
| "crc_serial crc (b # data) = crc_serial ((crc_bit ^^ 8) (crc XOR ucast b)) data"

lemma drop_8_xor_byte: "drop_bit 8 (crc XOR ucast (b :: byte)) = drop_bit 8 (crc :: u32)"
  by (rule bit_word_eqI) (auto simp: bit_simps dest: bit_imp_le_length)

lemma ExtendLoop_serial: "ExtendLoop crc data = crc_serial crc data"
proof (induction data arbitrary: crc)
  case (Cons b data)
  then show ?case
    using table_step [of "crc XOR ucast b"] by (simp only: ExtendLoop.simps crc_serial.simps drop_8_xor_byte)
qed simp

lemma crc_serial_append: "crc_serial c (xs @ ys) = crc_serial (crc_serial c xs) ys"
  by (induction xs arbitrary: c) simp_all

lemma crc_serial_inj: "crc_serial c xs = crc_serial d xs \<Longrightarrow> c = d"
proof (induction xs arbitrary: c d)
  case (Cons x xs)
  then have "(crc_bit ^^ 8) (c XOR ucast x) = (crc_bit ^^ 8) (d XOR ucast x)"
    by simp
  then have "c XOR ucast x = d XOR ucast x"
    by (rule crc_bits_inj)
  then have "(c XOR ucast x) XOR ucast x = (d XOR ucast x) XOR ucast x"
    by simp
  then show ?case
    by (simp add: xor.assoc)
qed simp

lemma Extend_Extend: "Extend (Extend c xs) ys = Extend c (xs @ ys)"
  by (simp add: Extend_def ExtendLoop_serial crc_serial_append xor.assoc)


section \<open>Error bursts\<close>

fun le_word :: "bytes \<Rightarrow> u32" where
  "le_word [] = 0"
| "le_word (b # bs) = ucast b XOR push_bit 8 (le_word bs)"

lemma bit_le_word: "bit (le_word bs) n \<Longrightarrow> n < 8 * length bs"
proof (induction bs arbitrary: n)
  case (Cons b bs)
  show ?case
  proof (cases "8 \<le> n")
    case True
    then have "\<not> bit b n"
      by (auto dest: bit_imp_le_length)
    with True Cons.prems have "bit (le_word bs) (n - 8)"
      by (simp add: bit_simps)
    with Cons.IH [of "n - 8"] True show ?thesis
      by simp
  qed simp
qed simp

lemma xor_right_cancel: "a XOR c = b XOR c \<Longrightarrow> a = (b :: 'a::len word)"
  by (metis xor.assoc xor.right_neutral xor_self_eq)

lemma drop_push_8: "(\<And>n. bit x n \<Longrightarrow> n < 24) \<Longrightarrow> drop_bit 8 (push_bit 8 x) = (x :: u32)"
  by (rule bit_word_eqI) (fastforce simp: bit_simps)

lemma crc_serial_le_word:
  "length bs \<le> 4 \<Longrightarrow> crc_serial c bs = (crc_bit ^^ (8 * length bs)) (c XOR le_word bs)"
proof (induction bs arbitrary: c)
  case (Cons b bs)
  have "drop_bit 8 (push_bit 8 (le_word bs)) = le_word bs"
    using Cons.prems by (intro drop_push_8) (auto dest!: bit_le_word)
  moreover have "(crc_bit ^^ 8) (push_bit 8 (le_word bs)) = drop_bit 8 (push_bit 8 (le_word bs))"
    by (rule crc_bits_shift) (rule bit_word_eqI, simp add: bit_simps)
  ultimately have le: "(crc_bit ^^ 8) (push_bit 8 (le_word bs)) = le_word bs"
    by simp
  have "crc_serial c (b # bs) = (crc_bit ^^ (8 * length bs)) ((crc_bit ^^ 8) (c XOR ucast b) XOR le_word bs)"
    using Cons by simp
  also have "(crc_bit ^^ 8) (c XOR ucast b) XOR le_word bs = (crc_bit ^^ 8) (c XOR le_word (b # bs))"
    by (simp only: le_word.simps crc_bits_xor le xor.assoc)
  also have "(crc_bit ^^ (8 * length bs)) ((crc_bit ^^ 8) (c XOR le_word (b # bs)))
      = (crc_bit ^^ (8 * length bs + 8)) (c XOR le_word (b # bs))"
    by (simp only: funpow_add o_apply)
  also have "8 * length bs + 8 = 8 * length (b # bs)"
    by simp
  finally show ?case .
qed simp

lemma le_word_inj: "length xs = length ys \<Longrightarrow> length xs \<le> 4 \<Longrightarrow> le_word xs = le_word ys \<Longrightarrow> xs = ys"
proof (induction xs ys rule: list_induct2)
  case (Cons x xs y ys)
  have bits: "bit (le_word (x # xs)) n = bit (le_word (y # ys)) n" for n
    using Cons.prems by simp
  have "x = y"
  proof (rule bit_word_eqI)
    fix n
    assume "n < LENGTH(8)"
    then show "bit x n = bit y n"
      using bits [of n] by (simp add: bit_simps)
  qed
  moreover have "le_word xs = le_word ys"
  proof (rule bit_word_eqI)
    fix n
    assume "n < LENGTH(32)"
    show "bit (le_word xs) n = bit (le_word ys) n"
    proof (cases "n < 24")
      case True
      moreover have "\<not> bit x (n + 8)" "\<not> bit y (n + 8)"
        by (auto dest: bit_imp_le_length)
      ultimately show ?thesis
        using bits [of "n + 8"] by (simp add: bit_simps)
    next
      case False
      moreover have "length xs \<le> 3" "length ys \<le> 3"
        using Cons by simp_all
      ultimately show ?thesis
        using bit_le_word [of xs n] bit_le_word [of ys n] by linarith
    qed
  qed
  ultimately show ?case
    using Cons by simp
qed simp

lemma Value_serial: "Value data = crc_serial 0xffffffff data XOR 0xffffffff"
  by (simp add: Value_def Extend_def ExtendLoop_serial)

lemma Value_burst:
  assumes "length bs = length bs'" and "length bs \<le> 4"
    and "Value (pre @ bs @ post) = Value (pre @ bs' @ post)"
  shows "bs = bs'"
proof -
  let ?c = "crc_serial 0xffffffff pre"
  have "crc_serial 0xffffffff (pre @ bs @ post) = crc_serial 0xffffffff (pre @ bs' @ post)"
    using assms(3) unfolding Value_serial by (rule xor_right_cancel)
  then have "crc_serial ?c bs = crc_serial ?c bs'"
    unfolding crc_serial_append by (rule crc_serial_inj)
  then have "(crc_bit ^^ (8 * length bs)) (?c XOR le_word bs) = (crc_bit ^^ (8 * length bs)) (?c XOR le_word bs')"
    using assms(1,2) crc_serial_le_word [of bs ?c] crc_serial_le_word [of bs' ?c] by simp
  then have "le_word bs XOR ?c = le_word bs' XOR ?c"
    by (simp only: xor.commute [of _ ?c]) (rule crc_bits_inj)
  then have "le_word bs = le_word bs'"
    by (rule xor_right_cancel)
  with assms(1,2) show ?thesis
    by (intro le_word_inj)
qed

section \<open>Mask and Unmask\<close>

lemma rotate_17: "drop_bit 17 (drop_bit 15 c OR push_bit 17 c) OR push_bit 15 (drop_bit 15 c OR push_bit 17 c) = (c :: u32)"
proof (rule bit_word_eqI)
  fix n
  assume "n < LENGTH(32)"
  then show "bit (drop_bit 17 (drop_bit 15 c OR push_bit 17 c) OR push_bit 15 (drop_bit 15 c OR push_bit 17 c)) n = bit c n"
    by (cases "15 \<le> n") (auto simp: bit_simps dest: bit_imp_le_length)
qed

lemma Unmask_Mask [simp]: "Unmask (Mask crc) = crc"
  unfolding Unmask_def Mask_def Let_def add_diff_cancel_right' by (rule rotate_17)

lemma Mask_inj: "Mask a = Mask b \<Longrightarrow> a = b"
  by (metis Unmask_Mask)


section \<open>The generator stays in its group\<close>

lemma mersenne_fold:
  fixes p :: nat
  shows "(p div 2 ^ 31 + p mod 2 ^ 31) mod 2147483647 = p mod 2147483647"
proof -
  have "p = p div 2 ^ 31 + p mod 2 ^ 31 + 2147483647 * (p div 2 ^ 31)"
    using div_mult_mod_eq [of p "2 ^ 31"] by simp
  then show ?thesis
    by (metis mod_mult_self2)
qed

lemma RandomNext_value:
  assumes "0 < unat seed" and "unat seed < 2147483647"
  shows "unat (RandomNext seed) = unat seed * 16807 mod 2147483647"
    and "0 < unat seed * 16807 mod 2147483647"
proof -
  let ?p = "unat seed * 16807"
  have small: "?p < 2 ^ 46"
    using assms by simp
  define product where "product = (ucast seed :: u64) * 16807"
  have "unat (ucast seed :: u64) = unat seed"
    using assms by (simp add: unsigned_ucast_eq take_bit_nat_eq_self)
  then have p: "unat product = ?p"
    using small by (simp add: product_def unat_word_ariths)
  have hi: "unat (drop_bit 31 product) = ?p div 2 ^ 31"
    by (simp only: unat_drop_bit_eq p) (simp add: drop_bit_eq_div)
  have "product AND 2147483647 = take_bit 31 product"
    by (simp add: take_bit_eq_mask mask_eq_exp_minus_1)
  then have "unat (product AND 2147483647) = take_bit 31 (unat product)"
    by (simp only: unsigned_take_bit_eq)
  then have lo: "unat (product AND 2147483647) = ?p mod 2 ^ 31"
    by (simp add: p take_bit_eq_mod)
  have hb: "?p div 2 ^ 31 < 2 ^ 15"
    using small by (simp add: less_mult_imp_div_less)
  define f where "f = ?p div 2 ^ 31 + ?p mod 2 ^ 31"
  have fb: "f < 2 ^ 31 + 2 ^ 15"
    using add_strict_mono [OF hb, of "?p mod 2 ^ 31" "2 ^ 31"] unfolding f_def by (simp only: add.commute) simp
  have us: "unat (drop_bit 31 product + (product AND 2147483647)) = f"
    using fb by (simp add: unat_word_ariths hi lo f_def)
  have fm: "f mod 2147483647 = ?p mod 2147483647"
    unfolding f_def by (rule mersenne_fold)
  show nz: "0 < ?p mod 2147483647"
  proof (rule ccontr)
    assume "\<not> 0 < ?p mod 2147483647"
    then have "2147483647 dvd unat seed * 16807"
      by (simp add: mod_eq_0_iff_dvd)
    moreover have "coprime (2147483647 :: nat) 16807"
      by (simp add: coprime_iff_gcd_eq_1 gcd_non_0_nat)
    ultimately have "2147483647 dvd unat seed"
      by (simp add: coprime_dvd_mult_left_iff)
    with assms show False
      by (auto dest: dvd_imp_le)
  qed
  define s1 where "s1 = (ucast (drop_bit 31 product + (product AND 2147483647)) :: u32)"
  have "unat s1 = f"
    using fb by (simp add: s1_def unsigned_ucast_eq us take_bit_nat_eq_self)
  moreover have "RandomNext seed = (if s1 > 2147483647 then s1 - 2147483647 else s1)"
    by (simp add: RandomNext_def Let_def s1_def product_def)
  ultimately have "unat (RandomNext seed) = (if f > 2147483647 then f - 2147483647 else f)"
    by (simp add: word_less_nat_alt unat_sub word_le_nat_alt)
  also have "\<dots> = f mod 2147483647"
  proof (cases "f > 2147483647")
    case True
    with fb have "f - 2147483647 < 2147483647" by simp
    with True show ?thesis by (simp add: le_mod_geq)
  next
    case False
    moreover have "f \<noteq> 2147483647"
      using nz fm by (intro notI) simp
    ultimately show ?thesis by simp
  qed
  finally show "unat (RandomNext seed) = ?p mod 2147483647"
    using fm by simp
qed

lemma RandomInit_range: "0 < unat (RandomInit s) \<and> unat (RandomInit s) < 2147483647"
proof -
  have "unat (s AND 0x7fffffff) \<le> unat (0x7fffffff :: u32)"
    by (rule word_and_le1 [THEN word_le_nat_alt [THEN iffD1]])
  then have le: "unat (s AND 0x7fffffff) \<le> 2147483647"
    by simp
  show ?thesis
  proof (cases "s AND 0x7fffffff = 0 \<or> s AND 0x7fffffff = 2147483647")
    case True
    then have "RandomInit s = 1"
      by (simp add: RandomInit_def Let_def)
    then show ?thesis by simp
  next
    case False
    then have "unat (s AND 0x7fffffff) \<noteq> 0" "unat (s AND 0x7fffffff) \<noteq> 2147483647"
      using word_unat_eq_iff [of "s AND 0x7fffffff" 2147483647] by (auto simp: unat_eq_zero)
    moreover have "RandomInit s = s AND 0x7fffffff"
      using False by (simp add: RandomInit_def Let_def)
    ultimately show ?thesis
      using le by (simp only:) linarith
  qed
qed

lemma RandomNext_range:
  "0 < unat seed \<Longrightarrow> unat seed < 2147483647 \<Longrightarrow>
     0 < unat (RandomNext seed) \<and> unat (RandomNext seed) < 2147483647"
  using RandomNext_value [of seed] by simp

end
