(* ===== verification/Logs.thy ===== *)
theory Logs
  imports Files Hashes
begin

text \<open>
  The write-ahead log (db/log_format.h, db/log_writer.cc, db/log_reader.cc). Records are cut
  into fragments that do not cross 32 KiB blocks; a fragment carries a masked checksum, its
  length and its place in the record. The file under the writer and the reader is a parameter,
  with the contracts of \<open>Files\<close>.
\<close>

section \<open>Format (db/log_format.h)\<close>

datatype RecordType = kZeroType | kFullType | kFirstType | kMiddleType | kLastType

fun rtype :: "RecordType \<Rightarrow> nat" where
  "rtype kZeroType = 0"
| "rtype kFullType = 1"
| "rtype kFirstType = 2"
| "rtype kMiddleType = 3"
| "rtype kLastType = 4"

definition kMaxRecordType :: nat where
  "kMaxRecordType = rtype kLastType"

definition log_kBlockSize :: nat where
  "log_kBlockSize = 32768"

definition log_kHeaderSize :: nat where
  "log_kHeaderSize = 7"

section \<open>Writer (db/log_writer.cc)\<close>

text \<open>The state of a writer is its \<open>block_offset_\<close> and the file \<open>dest_\<close>.\<close>

record 'f LogWriter =
  block_offset :: nat
  dest :: 'f

definition LogWriter_new :: "'f \<Rightarrow> nat \<Rightarrow> 'f LogWriter" where
  "LogWriter_new f dest_length = \<lparr> block_offset = dest_length mod log_kBlockSize, dest = f \<rparr>"

definition record_header :: "RecordType \<Rightarrow> bytes \<Rightarrow> bytes" where
  "record_header type data =
     (let len_lo = of_nat (length data mod 256) :: byte;
          len_hi = of_nat (length data div 256) :: byte;
          type_b = of_nat (rtype type) :: byte;
          crc = Extend (Value [type_b]) data
      in EncodeFixed32 (Mask crc) @ [len_lo, len_hi, type_b])"

definition EmitPhysicalRecord ::
    "'f writable_ops \<Rightarrow> RecordType \<Rightarrow> bytes \<Rightarrow> 'f LogWriter \<Rightarrow> (Status \<times> 'f LogWriter) option" where
  "EmitPhysicalRecord ops type data w =
     do { (s1, f1) \<leftarrow> wf_Append ops (record_header type data) (dest w);
          (s2, f2) \<leftarrow> (if ok s1 then wf_Append ops data f1 else Some (s1, f1));
          (s3, f3) \<leftarrow> (if ok s2 then wf_Flush ops f2 else Some (s2, f2));
          Some (s3, w\<lparr> block_offset := block_offset w + (log_kHeaderSize + length data), dest := f3 \<rparr>) }"

definition fragment_type :: "bool \<Rightarrow> bool \<Rightarrow> RecordType" where
  "fragment_type is_begin is_end =
     (if is_begin \<and> is_end then kFullType else if is_begin then kFirstType
      else if is_end then kLastType else kMiddleType)"

definition SwitchBlock :: "'f writable_ops \<Rightarrow> 'f LogWriter \<Rightarrow> (Status \<times> 'f LogWriter) option" where
  "SwitchBlock ops w =
     (let leftover = log_kBlockSize - block_offset w
      in if leftover < log_kHeaderSize
         then if leftover > 0
              then do { (s, f) \<leftarrow> wf_Append ops (replicate leftover 0) (dest w);
                        Some (s, if ok s then w\<lparr> block_offset := 0, dest := f \<rparr> else w\<lparr> dest := f \<rparr>) }
              else Some (OK, w\<lparr> block_offset := 0 \<rparr>)
         else Some (OK, w))"

text \<open>The \<open>do\<close> loop; each round after the first in a block has room for data.\<close>

partial_function (option) AddRecordLoop ::
    "'f writable_ops \<Rightarrow> bool \<Rightarrow> bytes \<Rightarrow> 'f LogWriter \<Rightarrow> (Status \<times> 'f LogWriter) option" where
  "AddRecordLoop ops is_begin data w =
     do { (s1, w1) \<leftarrow> SwitchBlock ops w;
          if \<not> ok s1 then Some (s1, w1)
          else
            let avail = log_kBlockSize - block_offset w1 - log_kHeaderSize;
                fragment_length = (if length data < avail then length data else avail);
                is_end = (length data = fragment_length)
            in do { (s2, w2) \<leftarrow> EmitPhysicalRecord ops (fragment_type is_begin is_end) (take fragment_length data) w1;
                    if \<not> ok s2 then Some (s2, w2)
                    else let left = drop fragment_length data
                         in if left \<noteq> [] then AddRecordLoop ops False left w2 else Some (OK, w2) } }"

definition AddRecord :: "'f writable_ops \<Rightarrow> bytes \<Rightarrow> 'f LogWriter \<Rightarrow> (Status \<times> 'f LogWriter) option" where
  "AddRecord ops data w = AddRecordLoop ops True data w"

section \<open>Reader (db/log_reader.cc)\<close>

record 's LogReader =
  lr_file :: 's
  lr_checksum :: bool
  lr_buffer :: bytes
  lr_eof :: bool

definition LogReader_new :: "'s \<Rightarrow> bool \<Rightarrow> 's LogReader" where
  "LogReader_new file checksum = \<lparr> lr_file = file, lr_checksum = checksum, lr_buffer = [], lr_eof = False \<rparr>"

definition kEof :: nat where
  "kEof = kMaxRecordType + 1"

definition kBadRecord :: nat where
  "kBadRecord = kMaxRecordType + 2"

text \<open>
  The return value, \<open>*result\<close> (empty when not assigned), and \<open>*status\<close>. Every path of the source's
  \<open>while (true)\<close> returns in its first round.
\<close>

definition ParsePhysicalRecord :: "'s LogReader \<Rightarrow> Status \<Rightarrow> (nat \<times> bytes \<times> Status) \<times> 's LogReader" where
  "ParsePhysicalRecord r status =
     (let buffer = lr_buffer r;
          stored_crc = DecodeFixed32 buffer;
          len = unat (byte_at buffer 4) + 256 * unat (byte_at buffer 5);
          type = unat (byte_at buffer 6)
      in if log_kHeaderSize + len > length buffer
         then (if \<not> lr_eof r then (kBadRecord, [], Corruption (lit ''bad WAL record length'') []) else (kEof, [], status),
               r\<lparr> lr_buffer := [] \<rparr>)
         else if type = rtype kZeroType \<and> len = 0
         then ((kBadRecord, [], status), r\<lparr> lr_buffer := [] \<rparr>)
         else if type > kMaxRecordType
         then ((kBadRecord, [], Corruption (lit ''unknown WAL record type'') []),
               r\<lparr> lr_buffer := drop (log_kHeaderSize + len) buffer \<rparr>)
         else
           let payload = take len (drop log_kHeaderSize buffer);
               actual_crc = Extend (Value [byte_at buffer 6]) payload
           in if lr_checksum r \<and> Unmask stored_crc \<noteq> actual_crc
              then ((kBadRecord, [], Corruption (lit ''WAL record checksum mismatch'') []), r\<lparr> lr_buffer := [] \<rparr>)
              else ((type, payload, status), r\<lparr> lr_buffer := drop (log_kHeaderSize + len) buffer \<rparr>))"

definition ReadPhysicalRecord ::
    "'s sequential_read \<Rightarrow> 's LogReader \<Rightarrow> Status \<Rightarrow> ((nat \<times> bytes \<times> Status) \<times> 's LogReader) option" where
  "ReadPhysicalRecord read r status =
     (if length (lr_buffer r) < log_kHeaderSize
      then if lr_eof r
           then if lr_buffer r \<noteq> []
                then Some ((kBadRecord, [], Corruption (lit ''truncated WAL record header'') []), r\<lparr> lr_buffer := [] \<rparr>)
                else Some ((kEof, [], status), r)
           else do { (read_status, block, file) \<leftarrow> read log_kBlockSize (lr_file r);
                     if \<not> ok read_status
                     then Some ((kBadRecord, [], read_status), r\<lparr> lr_file := file, lr_eof := True \<rparr>)
                     else let r1 = r\<lparr> lr_file := file, lr_buffer := block, lr_eof := length block < log_kBlockSize \<rparr>
                          in if block = [] then Some ((kEof, [], status), r1)
                             else if length block < log_kHeaderSize
                             then Some ((kBadRecord, [], Corruption (lit ''truncated WAL record header'') []),
                                        r1\<lparr> lr_buffer := [] \<rparr>)
                             else Some (ParsePhysicalRecord r1 status) }
      else Some (ParsePhysicalRecord r status))"

text \<open>The result is the return value, \<open>*record\<close> and \<open>*status\<close>.\<close>

partial_function (option) ReadRecordLoop ::
    "'s sequential_read \<Rightarrow> bytes \<Rightarrow> bool \<Rightarrow> 's LogReader \<Rightarrow> Status \<Rightarrow> ((bool \<times> bytes \<times> Status) \<times> 's LogReader) option" where
  "ReadRecordLoop read scratch in_fragmented_record r status =
     do { ((type, fragment, status), r) \<leftarrow> ReadPhysicalRecord read r status;
          if type = rtype kFullType then Some ((True, fragment, status), r)
          else if type = rtype kFirstType then ReadRecordLoop read fragment True r status
          else if type = rtype kMiddleType
          then if \<not> in_fragmented_record
               then Some ((False, [], Corruption (lit ''missing start of fragmented WAL record'') []), r)
               else ReadRecordLoop read (scratch @ fragment) in_fragmented_record r status
          else if type = rtype kLastType
          then if \<not> in_fragmented_record
               then Some ((False, [], Corruption (lit ''missing start of fragmented WAL record'') []), r)
               else Some ((True, scratch @ fragment, status), r)
          else if type = kBadRecord then Some ((False, [], status), r)
          else if type = kEof
          then Some ((False, [], if in_fragmented_record
                                 then Corruption (lit ''partial WAL record without LAST'') [] else status), r)
          else Some ((False, [], Corruption (lit ''unknown WAL reader state'') []), r) }"

definition ReadRecord ::
    "'s sequential_read \<Rightarrow> 's LogReader \<Rightarrow> ((bool \<times> bytes \<times> Status) \<times> 's LogReader) option" where
  "ReadRecord read r = ReadRecordLoop read [] False r OK"

section \<open>What a record looks like in the file\<close>

text \<open>The bytes of a record written from block offset \<open>off\<close>, and the offset after it.\<close>

definition padding :: "nat \<Rightarrow> bytes" where
  "padding off = (if log_kBlockSize - off < log_kHeaderSize then replicate (log_kBlockSize - off) 0 else [])"

definition start_offset :: "nat \<Rightarrow> nat" where
  "start_offset off = (if log_kBlockSize - off < log_kHeaderSize then 0 else off)"

definition room :: "nat \<Rightarrow> nat" where
  "room off = log_kBlockSize - start_offset off - log_kHeaderSize"

definition physical :: "RecordType \<Rightarrow> bytes \<Rightarrow> bytes" where
  "physical type data = record_header type data @ data"

definition next_offset :: "nat \<Rightarrow> bytes \<Rightarrow> nat" where
  "next_offset off data = start_offset off + log_kHeaderSize + min (length data) (room off)"

function emitted :: "nat \<Rightarrow> bool \<Rightarrow> bytes \<Rightarrow> bytes" where
  "emitted off is_begin data =
     padding off @ physical (fragment_type is_begin (length data \<le> room off)) (take (room off) data)
     @ (if length data \<le> room off then [] else emitted (next_offset off data) False (drop (room off) data))"
  by pat_completeness auto
termination
proof (relation "measure (\<lambda>(off, _, data). 2 * length data + (if room off = 0 then 1 else 0))", goal_cases)
  case 1
  show ?case by simp
next
  case (2 off is_begin data)
  then show ?case
    by (auto simp: next_offset_def room_def start_offset_def log_kBlockSize_def log_kHeaderSize_def split: if_splits)
qed

declare emitted.simps [simp del]

function offset_after :: "nat \<Rightarrow> bytes \<Rightarrow> nat" where
  "offset_after off data =
     (if length data \<le> room off then next_offset off data
      else offset_after (next_offset off data) (drop (room off) data))"
  by pat_completeness auto
termination
proof (relation "measure (\<lambda>(off, data). 2 * length data + (if room off = 0 then 1 else 0))", goal_cases)
  case 1
  show ?case by simp
next
  case (2 off data)
  then show ?case
    by (auto simp: next_offset_def room_def start_offset_def log_kBlockSize_def log_kHeaderSize_def split: if_splits)
qed

declare offset_after.simps [simp del]

lemmas log_sizes = log_kBlockSize_def log_kHeaderSize_def

lemma length_record_header [simp]: "length (record_header type data) = 7"
  by (simp add: record_header_def Let_def)

lemma length_physical [simp]: "length (physical type data) = 7 + length data"
  by (simp add: physical_def)

lemma start_offset_bounds: "start_offset off + 7 \<le> log_kBlockSize"
  "room off = log_kBlockSize - start_offset off - 7" "start_offset off + 7 + room off = log_kBlockSize"
  by (auto simp: start_offset_def room_def log_sizes)

lemma next_offset_le: "next_offset off data \<le> log_kBlockSize"
  using start_offset_bounds [of off] by (simp add: next_offset_def log_sizes)

lemma offset_after_le: "offset_after off data \<le> log_kBlockSize"
  by (induction off data rule: offset_after.induct) (subst offset_after.simps, simp add: next_offset_le)

section \<open>The writer writes what \<open>emitted\<close> says\<close>

context reliable_file
begin

lemma append_exact: "\<exists>f'. wf_Append ops bs f = Some (OK, f') \<and> contents f' = contents f @ bs"
  using append_reliable [of bs f] append_ok [of bs f OK] by auto

lemma flush_exact: "\<exists>f'. wf_Flush ops f = Some (OK, f') \<and> contents f' = contents f"
  using flush_reliable [of f] flush_ok [of f OK] by auto

lemma EmitPhysicalRecord_exact:
  "\<exists>w'. EmitPhysicalRecord ops type data w = Some (OK, w') \<and>
     contents (dest w') = contents (dest w) @ physical type data \<and>
     block_offset w' = block_offset w + 7 + length data"
proof -
  obtain f1 where f1: "wf_Append ops (record_header type data) (dest w) = Some (OK, f1)"
      "contents f1 = contents (dest w) @ record_header type data"
    using append_exact by blast
  obtain f2 where f2: "wf_Append ops data f1 = Some (OK, f2)" "contents f2 = contents f1 @ data"
    using append_exact by blast
  obtain f3 where f3: "wf_Flush ops f2 = Some (OK, f3)" "contents f3 = contents f2"
    using flush_exact by blast
  show ?thesis
    by (simp add: EmitPhysicalRecord_def f1 f2 f3 physical_def log_kHeaderSize_def)
qed

lemma SwitchBlock_exact:
  "\<exists>w'. SwitchBlock ops w = Some (OK, w') \<and> contents (dest w') = contents (dest w) @ padding (block_offset w) \<and>
     block_offset w' = start_offset (block_offset w)"
proof -
  obtain f where "wf_Append ops (replicate (log_kBlockSize - block_offset w) 0) (dest w) = Some (OK, f)"
      "contents f = contents (dest w) @ replicate (log_kBlockSize - block_offset w) 0"
    using append_exact by blast
  then show ?thesis
    by (simp add: SwitchBlock_def Let_def padding_def start_offset_def)
qed

lemma AddRecordLoop_exact:
  "\<exists>w'. AddRecordLoop ops is_begin data w = Some (OK, w') \<and>
     contents (dest w') = contents (dest w) @ emitted (block_offset w) is_begin data \<and>
     block_offset w' = offset_after (block_offset w) data"
proof (induction "block_offset w" is_begin data arbitrary: w rule: emitted.induct)
  case (1 is_begin data)
  let ?off = "block_offset w"
  obtain w1 where w1: "SwitchBlock ops w = Some (OK, w1)" "contents (dest w1) = contents (dest w) @ padding ?off"
      "block_offset w1 = start_offset ?off"
    using SwitchBlock_exact by blast
  have r: "log_kBlockSize - block_offset w1 - log_kHeaderSize = room ?off"
    by (simp add: w1(3) room_def)
  let ?n = "if length data < room ?off then length data else room ?off"
  have n: "take ?n data = take (room ?off) data" "drop ?n data = drop (room ?off) data"
      "length data = ?n \<longleftrightarrow> length data \<le> room ?off" "drop (room ?off) data = [] \<longleftrightarrow> length data \<le> room ?off"
    by auto
  obtain w2 where w2: "EmitPhysicalRecord ops (fragment_type is_begin (length data \<le> room ?off)) (take (room ?off) data) w1 = Some (OK, w2)"
      "contents (dest w2) = contents (dest w1) @ physical (fragment_type is_begin (length data \<le> room ?off)) (take (room ?off) data)"
      "block_offset w2 = block_offset w1 + 7 + length (take (room ?off) data)"
    using EmitPhysicalRecord_exact by blast
  have off2: "block_offset w2 = next_offset ?off data"
    by (simp add: w2(3) w1(3) next_offset_def log_kHeaderSize_def min.commute)
  have unf: "AddRecordLoop ops is_begin data w =
      (if drop (room ?off) data \<noteq> [] then AddRecordLoop ops False (drop (room ?off) data) w2 else Some (OK, w2))"
    unfolding AddRecordLoop.simps [of ops is_begin data w] w1(1) Option.bind.bind_lunit case_prod_conv Let_def r n
    using w2(1) by simp
  show ?case
  proof (cases "length data \<le> room ?off")
    case True
    then show ?thesis
      using unf w2(2) w1(2) off2 by (simp add: emitted.simps [of ?off] offset_after.simps [of ?off])
  next
    case False
    obtain w3 where "AddRecordLoop ops False (drop (room ?off) data) w2 = Some (OK, w3)"
        "contents (dest w3) = contents (dest w2) @ emitted (block_offset w2) False (drop (room ?off) data)"
        "block_offset w3 = offset_after (block_offset w2) (drop (room ?off) data)"
      using 1(1) [OF False off2 [symmetric]] by blast
    then show ?thesis
      using False unf w2(2) w1(2) off2 n(4) by (simp add: emitted.simps [of ?off] offset_after.simps [of ?off])
  qed
qed

lemma AddRecord_exact:
  "\<exists>w'. AddRecord ops data w = Some (OK, w') \<and>
     contents (dest w') = contents (dest w) @ emitted (block_offset w) True data \<and>
     block_offset w' = offset_after (block_offset w) data"
  unfolding AddRecord_def by (rule AddRecordLoop_exact)

end

section \<open>The reader reads what the writer wrote\<close>

text \<open>
  The reader stands at block offset \<open>off\<close> with \<open>U\<close> still to be read: the rest of the block is in
  the buffer, and the end of the file was seen if the block is short.
\<close>

definition in_block :: "nat \<Rightarrow> nat" where
  "in_block off = (if off mod log_kBlockSize = 0 then 0 else log_kBlockSize - off mod log_kBlockSize)"

definition reader_at :: "('s \<Rightarrow> bytes) \<Rightarrow> nat \<Rightarrow> bytes \<Rightarrow> 's LogReader \<Rightarrow> bool" where
  "reader_at remaining off U r \<longleftrightarrow>
     lr_buffer r = take (in_block off) U \<and> remaining (lr_file r) = drop (in_block off) U \<and>
     (lr_eof r \<longleftrightarrow> in_block off \<noteq> 0 \<and> length U < in_block off)"

lemma header_fields:
  assumes "length data < 65536"
  shows "DecodeFixed32 (physical t data @ U) = Mask (Extend (Value [of_nat (rtype t)]) data)"
    "byte_at (physical t data @ U) 4 = of_nat (length data mod 256)"
    "byte_at (physical t data @ U) 5 = of_nat (length data div 256)"
    "byte_at (physical t data @ U) 6 = of_nat (rtype t)"
    "unat (of_nat (length data mod 256) :: byte) + 256 * unat (of_nat (length data div 256) :: byte) = length data"
    "unat (of_nat (rtype t) :: byte) = rtype t"
proof -
  let ?h = "EncodeFixed32 (Mask (Extend (Value [of_nat (rtype t)]) data))"
  show "DecodeFixed32 (physical t data @ U) = Mask (Extend (Value [of_nat (rtype t)]) data)"
    by (simp add: physical_def record_header_def Let_def)
  have tail: "byte_at (physical t data @ U) (length ?h + k) =
      byte_at ([of_nat (length data mod 256), of_nat (length data div 256), of_nat (rtype t)] @ data @ U) k" for k
    unfolding physical_def record_header_def Let_def append_assoc by (rule byte_at_append2)
  show "byte_at (physical t data @ U) 4 = of_nat (length data mod 256)"
    using tail [of 0] by simp
  show "byte_at (physical t data @ U) 5 = of_nat (length data div 256)"
    using tail [of 1] by simp
  show "byte_at (physical t data @ U) 6 = of_nat (rtype t)"
    using tail [of 2] by simp
  have "length data div 256 < 256"
    using assms by (simp add: less_mult_imp_div_less)
  then show "unat (of_nat (length data mod 256) :: byte) + 256 * unat (of_nat (length data div 256) :: byte) = length data"
    by (simp add: unat_of_nat take_bit_nat_eq_self)
  show "unat (of_nat (rtype t) :: byte) = rtype t"
    by (cases t) simp_all
qed

lemma rtype_simps [simp]: "rtype t \<le> kMaxRecordType" "rtype t = 0 \<longleftrightarrow> t = kZeroType"
  by (cases t; simp add: kMaxRecordType_def)+

text \<open>A whole physical record at the front of the buffer is accepted.\<close>

lemma ParsePhysicalRecord_physical:
  assumes "lr_buffer r = take n (physical t data @ U)" "7 + length data \<le> n" "t \<noteq> kZeroType" "length data < 65536"
  shows "ParsePhysicalRecord r status =
           ((rtype t, data, status), r\<lparr> lr_buffer := take (n - (7 + length data)) U \<rparr>)"
proof -
  have buf: "lr_buffer r = physical t data @ take (n - (7 + length data)) U"
    using assms(1,2) by (simp add: take_append)
  note h = header_fields(1-4) [OF assms(4), of t "take (n - (7 + length data)) U"] header_fields(5,6) [OF assms(4)]
  show ?thesis
    unfolding ParsePhysicalRecord_def buf Let_def h
    using assms(3) by (simp add: log_kHeaderSize_def physical_def leD)
qed

context sequential_file
begin

abbreviation at :: "nat \<Rightarrow> bytes \<Rightarrow> 's LogReader \<Rightarrow> bool" where
  "at \<equiv> reader_at remaining"

lemma ReadPhysicalRecord_block:
  assumes "length (lr_buffer r) < 7" "\<not> lr_eof r" "remaining (lr_file r) = physical t data @ U"
    and t: "t \<noteq> kZeroType" and len: "7 + length data \<le> log_kBlockSize"
  shows "\<exists>r'. ReadPhysicalRecord read r status = Some ((rtype t, data, status), r') \<and> at (7 + length data) U r'"
proof -
  let ?S = "physical t data @ U"
  obtain fl where fl: "read log_kBlockSize (lr_file r) = Some (OK, take log_kBlockSize ?S, fl)"
      "remaining fl = drop log_kBlockSize ?S"
    using read_ok [of log_kBlockSize "lr_file r"] assms(3) by auto
  let ?r1 = "r\<lparr> lr_file := fl, lr_buffer := take log_kBlockSize ?S, lr_eof := length (take log_kBlockSize ?S) < log_kBlockSize \<rparr>"
  have big: "\<not> length (take log_kBlockSize ?S) < log_kHeaderSize" "take log_kBlockSize ?S \<noteq> []"
    using length_record_header [of t data] by (auto simp: log_sizes physical_def simp del: length_record_header)
  have "ReadPhysicalRecord read r status = Some (ParsePhysicalRecord ?r1 status)"
  proof -
    define B where "B = take log_kBlockSize ?S"
    show ?thesis
      using assms(1,2) fl(1) big unfolding B_def [symmetric] by (simp add: ReadPhysicalRecord_def Let_def log_kHeaderSize_def)
  qed
  also have "ParsePhysicalRecord ?r1 status =
      ((rtype t, data, status), ?r1\<lparr> lr_buffer := take (log_kBlockSize - (7 + length data)) U \<rparr>)"
    using t len by (intro ParsePhysicalRecord_physical) (auto simp: log_sizes)
  finally have step: "ReadPhysicalRecord read r status =
      Some ((rtype t, data, status), ?r1\<lparr> lr_buffer := take (log_kBlockSize - (7 + length data)) U \<rparr>)" .
  have k: "in_block (7 + length data) = log_kBlockSize - (7 + length data)"
    using len by (cases "7 + length data = log_kBlockSize") (auto simp: in_block_def log_sizes)
  have "at (7 + length data) U (?r1\<lparr> lr_buffer := take (log_kBlockSize - (7 + length data)) U \<rparr>)"
    unfolding reader_at_def k using fl(2) len by (auto simp: log_sizes)
  with step show ?thesis by blast
qed

lemma ReadPhysicalRecord_step:
  assumes at: "at off (padding off @ physical t data @ U) r" and off: "off \<le> log_kBlockSize"
    and t: "t \<noteq> kZeroType" and len: "length data \<le> room off"
  shows "\<exists>r'. ReadPhysicalRecord read r status = Some ((rtype t, data, status), r') \<and>
           at (start_offset off + 7 + length data) U r'"
proof -
  have len': "start_offset off + 7 + length data \<le> log_kBlockSize"
    using len start_offset_bounds(3) [of off] by simp
  have st: "lr_buffer r = take (in_block off) (padding off @ physical t data @ U)"
      "remaining (lr_file r) = drop (in_block off) (padding off @ physical t data @ U)"
      "lr_eof r \<longleftrightarrow> in_block off \<noteq> 0 \<and> length (padding off @ physical t data @ U) < in_block off"
    using at by (simp_all add: reader_at_def)
  consider (new) "length (padding off) = in_block off" "in_block off < 7" "start_offset off = 0"
    | (same) "padding off = []" "in_block off = log_kBlockSize - off" "start_offset off = off" "7 \<le> log_kBlockSize - off"
    using off by (cases "off = 0"; cases "off = log_kBlockSize"; cases "log_kBlockSize - off < log_kHeaderSize")
      (auto simp: in_block_def padding_def start_offset_def log_sizes)
  then show ?thesis
  proof cases
    case new
    then have "length (lr_buffer r) < 7" "\<not> lr_eof r" "remaining (lr_file r) = physical t data @ U"
      using st by (simp_all add: take_append drop_append)
    from ReadPhysicalRecord_block [OF this t] len' new(3) show ?thesis
      by simp
  next
    case same
    have buf: "lr_buffer r = take (log_kBlockSize - off) (physical t data @ U)"
      using st(1) same by simp
    have fit: "7 + length data \<le> log_kBlockSize - off"
      using len' same by simp
    have "\<not> length (lr_buffer r) < log_kHeaderSize"
      using buf same(4) by (simp add: log_kHeaderSize_def)
    then have step: "ReadPhysicalRecord read r status =
        Some ((rtype t, data, status), r\<lparr> lr_buffer := take (log_kBlockSize - off - (7 + length data)) U \<rparr>)"
      using ParsePhysicalRecord_physical [OF buf fit t] fit by (simp add: ReadPhysicalRecord_def log_sizes)
    have k: "in_block (off + 7 + length data) = log_kBlockSize - off - (7 + length data)"
    proof (cases "off + 7 + length data = log_kBlockSize")
      case True
      show ?thesis
        unfolding True by (simp add: in_block_def) (use True in linarith)
    next
      case False
      with fit same(4) have "off + 7 + length data < log_kBlockSize"
        by (simp add: log_sizes)
      then show ?thesis
        by (simp add: in_block_def)
    qed
    have "at (off + 7 + length data) U (r\<lparr> lr_buffer := take (log_kBlockSize - off - (7 + length data)) U \<rparr>)"
      unfolding reader_at_def k using st same fit by (auto simp: log_sizes)
    with step same(3) show ?thesis by simp
  qed
qed

lemma ReadPhysicalRecord_end:
  assumes "at off [] r"
  shows "\<exists>r'. ReadPhysicalRecord read r status = Some ((kEof, [], status), r')"
proof (cases "lr_eof r")
  case True
  then show ?thesis
    using assms by (simp add: reader_at_def ReadPhysicalRecord_def log_kHeaderSize_def)
next
  case False
  obtain fl where "read log_kBlockSize (lr_file r) = Some (OK, [], fl)"
    using read_ok [of log_kBlockSize "lr_file r"] assms by (auto simp: reader_at_def)
  with False show ?thesis
    using assms by (simp add: reader_at_def ReadPhysicalRecord_def log_kHeaderSize_def Let_def)
qed

lemma ReadRecordLoop_emitted:
  assumes "at off (emitted off is_begin data @ U) r" and "off \<le> log_kBlockSize" and "is_begin \<or> infr"
  shows "\<exists>r'. ReadRecordLoop read scratch infr r status =
             Some ((True, (if is_begin then data else scratch @ data), status), r') \<and> at (offset_after off data) U r'"
  using assms
proof (induction off is_begin data arbitrary: r scratch infr rule: emitted.induct)
  case (1 off is_begin data)
  let ?t = "fragment_type is_begin (length data \<le> room off)" and ?d = "take (room off) data"
  let ?rest = "if length data \<le> room off then [] else emitted (next_offset off data) False (drop (room off) data)"
  have t: "?t \<noteq> kZeroType"
    by (simp add: fragment_type_def)
  have "at off (padding off @ physical ?t ?d @ (?rest @ U)) r"
    using 1(2) by (simp add: emitted.simps [of off])
  from ReadPhysicalRecord_step [OF this 1(3) t] obtain r1 where
    step: "ReadPhysicalRecord read r status = Some ((rtype ?t, ?d, status), r1)"
    and r1: "at (next_offset off data) (?rest @ U) r1"
    by (auto simp: next_offset_def log_kHeaderSize_def min.commute)
  note unf = ReadRecordLoop.simps [of read _ _ r status]
  show ?case
  proof (cases "length data \<le> room off")
    case True
    with step r1 1(4) show ?thesis
      by (cases is_begin) (auto simp: unf fragment_type_def offset_after.simps [of off])
  next
    case False
    have "ReadRecordLoop read scratch infr r status =
        ReadRecordLoop read (if is_begin then ?d else scratch @ ?d) True r1 status"
      using step False 1(4) by (cases is_begin) (auto simp: unf fragment_type_def)
    moreover obtain r2 where "ReadRecordLoop read (if is_begin then ?d else scratch @ ?d) True r1 status =
        Some ((True, (if is_begin then ?d else scratch @ ?d) @ drop (room off) data, status), r2)"
        "at (offset_after (next_offset off data) (drop (room off) data)) U r2"
    proof -
      have "at (next_offset off data) (emitted (next_offset off data) False (drop (room off) data) @ U) r1"
        using r1 False by simp
      from 1(1) [OF False this next_offset_le, of True] that show ?thesis
        by (metis (no_types, lifting))
    qed
    ultimately show ?thesis
      using False by (cases is_begin) (auto simp: offset_after.simps [of off])
  qed
qed

lemma ReadRecord_emitted:
  assumes "at off (emitted off True data @ U) r" and "off \<le> log_kBlockSize"
  shows "\<exists>r'. ReadRecord read r = Some ((True, data, OK), r') \<and> at (offset_after off data) U r'"
  using ReadRecordLoop_emitted [OF assms, of False "[]" OK] by (simp add: ReadRecord_def)

lemma ReadRecord_end:
  assumes "at off [] r"
  shows "\<exists>r'. ReadRecord read r = Some ((False, [], OK), r')"
  using ReadPhysicalRecord_end [OF assms, of OK]
  by (auto simp: ReadRecord_def ReadRecordLoop.simps [of read "[]" False r] kEof_def kBadRecord_def kMaxRecordType_def)

end

section \<open>Replaying a log\<close>

text \<open>
  Read records until \<open>ReadRecord\<close> returns false, the loop of a recovery: the records and the
  final status.
\<close>

partial_function (option) ReadAllRecords :: "'s sequential_read \<Rightarrow> 's LogReader \<Rightarrow> bytes list \<Rightarrow> (bytes list \<times> Status) option" where
  "ReadAllRecords read r acc =
     do { ((found, record, status), r') \<leftarrow> ReadRecord read r;
          if found then ReadAllRecords read r' (acc @ [record]) else Some (acc, status) }"

fun AddRecords :: "'f writable_ops \<Rightarrow> bytes list \<Rightarrow> 'f LogWriter \<Rightarrow> (Status \<times> 'f LogWriter) option" where
  "AddRecords ops [] w = Some (OK, w)"
| "AddRecords ops (d # ds) w =
     do { (s, w') \<leftarrow> AddRecord ops d w; if ok s then AddRecords ops ds w' else Some (s, w') }"

fun emitted_all :: "nat \<Rightarrow> bytes list \<Rightarrow> bytes" where
  "emitted_all off [] = []"
| "emitted_all off (d # ds) = emitted off True d @ emitted_all (offset_after off d) ds"

context reliable_file
begin

lemma AddRecords_exact:
  "\<exists>w'. AddRecords ops ds w = Some (OK, w') \<and> contents (dest w') = contents (dest w) @ emitted_all (block_offset w) ds"
proof (induction ds arbitrary: w)
  case (Cons d ds)
  obtain w1 where w1: "AddRecord ops d w = Some (OK, w1)"
      "contents (dest w1) = contents (dest w) @ emitted (block_offset w) True d"
      "block_offset w1 = offset_after (block_offset w) d"
    using AddRecord_exact by blast
  obtain w2 where "AddRecords ops ds w1 = Some (OK, w2)"
      "contents (dest w2) = contents (dest w1) @ emitted_all (block_offset w1) ds"
    using Cons.IH by blast
  with w1 show ?case
    by simp
qed simp

end

definition stops :: "nat \<Rightarrow> bool" where
  "stops c \<longleftrightarrow> c = kEof \<or> c = kBadRecord"

text \<open>A record cut short within its header or payload is not returned.\<close>

lemma byte_at_take: "i < j \<Longrightarrow> byte_at (take j xs) i = byte_at xs i"
  by (simp add: byte_at_def)

lemma ParsePhysicalRecord_cut:
  assumes "lr_buffer r = take j (physical t data)" "7 \<le> j" "j < 7 + length data" "length data < 65536" "lr_eof r"
  shows "ParsePhysicalRecord r status = ((kEof, [], status), r\<lparr> lr_buffer := [] \<rparr>)"
proof -
  note h = header_fields(2,3) [OF assms(4), of t "[]"] header_fields(5) [OF assms(4)]
  have "byte_at (take j (physical t data)) 4 = of_nat (length data mod 256)"
    "byte_at (take j (physical t data)) 5 = of_nat (length data div 256)"
    using h(1,2) assms(2) by (simp_all add: byte_at_take)
  moreover have "\<not> 7 + length data \<le> length (take j (physical t data))"
    using assms(3) by simp
  ultimately show ?thesis
    unfolding ParsePhysicalRecord_def assms(1) Let_def using h(3) assms(5) by (simp add: log_kHeaderSize_def not_le)
qed

context sequential_file
begin

lemma ReadPhysicalRecord_cut:
  assumes at: "at off (take k (padding off @ physical t data)) r" and off: "off \<le> log_kBlockSize"
    and len: "length data \<le> room off" and k: "k < length (padding off @ physical t data)"
  shows "\<exists>c st r'. ReadPhysicalRecord read r status = Some ((c, [], st), r') \<and> stops c"
proof -
  have len': "start_offset off + 7 + length data \<le> log_kBlockSize"
    using len start_offset_bounds(3) [of off] by simp
  let ?U = "take k (padding off @ physical t data)"
  have st: "lr_buffer r = take (in_block off) ?U" "remaining (lr_file r) = drop (in_block off) ?U"
      "lr_eof r \<longleftrightarrow> in_block off \<noteq> 0 \<and> length ?U < in_block off"
    using at by (simp_all add: reader_at_def)
  consider (new) "length (padding off) = in_block off" "in_block off < 7" "start_offset off = 0"
    | (same) "padding off = []" "in_block off = log_kBlockSize - off" "start_offset off = off" "7 \<le> log_kBlockSize - off"
    using off by (cases "off = 0"; cases "off = log_kBlockSize"; cases "log_kBlockSize - off < log_kHeaderSize")
      (auto simp: in_block_def padding_def start_offset_def log_sizes)
  then show ?thesis
  proof cases
    case new
    have small: "length (lr_buffer r) < log_kHeaderSize"
      using st(1) new by (simp add: log_kHeaderSize_def)
    show ?thesis
    proof (cases "lr_eof r")
      case True
      with small show ?thesis
        by (auto simp: ReadPhysicalRecord_def stops_def)
    next
      case False
      let ?j = "k - in_block off"
      have rem: "remaining (lr_file r) = take ?j (physical t data)"
      proof -
        have "in_block off \<le> k"
          using False st(3) new(1) k by auto
        then show ?thesis
          using st(2) new(1) by (simp add: min_def)
      qed
      have j: "?j < 7 + length data" "?j \<le> log_kBlockSize"
        using k new len' by auto
      define B where "B = take ?j (physical t data)"
      have Bl: "length B = ?j"
        using j by (simp add: B_def)
      obtain fl where fl: "read log_kBlockSize (lr_file r) = Some (OK, B, fl)"
        using read_ok [of log_kBlockSize "lr_file r"] rem j(2) by (auto simp: B_def min_def)
      let ?r1 = "r\<lparr> lr_file := fl, lr_buffer := B, lr_eof := length B < log_kBlockSize \<rparr>"
      have unf: "ReadPhysicalRecord read r status =
          (if B = [] then Some ((kEof, [], status), ?r1)
           else if length B < log_kHeaderSize then Some ((kBadRecord, [], Corruption (lit ''truncated WAL record header'') []), ?r1\<lparr> lr_buffer := [] \<rparr>)
           else Some (ParsePhysicalRecord ?r1 status))"
        using small False fl by (simp add: ReadPhysicalRecord_def Let_def)
      show ?thesis
      proof (cases "length B < log_kHeaderSize")
        case True
        with unf show ?thesis
          by (auto simp: stops_def)
      next
        case big: False
        have "ParsePhysicalRecord ?r1 status = ((kEof, [], status), ?r1\<lparr> lr_buffer := [] \<rparr>)"
          using big Bl j len' new(3) by (intro ParsePhysicalRecord_cut [of _ ?j t data]) (auto simp: B_def log_sizes)
        with unf big show ?thesis
          by (auto simp: stops_def)
      qed
    qed
  next
    case same
    have k': "k < 7 + length data" "k < log_kBlockSize - off"
      using k same len' by auto
    have buf: "lr_buffer r = take k (physical t data)" "lr_eof r"
      using st same k' by auto
    show ?thesis
    proof (cases "k < 7")
      case True
      with buf show ?thesis
        by (auto simp: ReadPhysicalRecord_def stops_def log_kHeaderSize_def)
    next
      case False
      then have "ParsePhysicalRecord r status = ((kEof, [], status), r\<lparr> lr_buffer := [] \<rparr>)"
        using buf k' len' by (intro ParsePhysicalRecord_cut [of r k t data]) (auto simp: log_sizes)
      moreover have "\<not> length (lr_buffer r) < log_kHeaderSize"
        using buf False k' by (simp add: log_kHeaderSize_def)
      ultimately show ?thesis
        by (simp add: ReadPhysicalRecord_def stops_def)
    qed
  qed
qed

lemma ReadRecordLoop_stops:
  assumes "ReadPhysicalRecord read r status = Some ((c, [], st), r')" "stops c"
  shows "\<exists>st' r'. ReadRecordLoop read scratch infr r status = Some ((False, [], st'), r')"
  using assms by (auto simp: ReadRecordLoop.simps [of read _ _ r status] stops_def kEof_def kBadRecord_def kMaxRecordType_def)

lemma ReadRecordLoop_cut:
  assumes "at off (take k (emitted off is_begin data)) r" and "off \<le> log_kBlockSize" and "is_begin \<or> infr"
    and "k < length (emitted off is_begin data)"
  shows "\<exists>st r'. ReadRecordLoop read scratch infr r status = Some ((False, [], st), r')"
  using assms
proof (induction off is_begin data arbitrary: r scratch infr k rule: emitted.induct)
  case (1 off is_begin data)
  let ?t = "fragment_type is_begin (length data \<le> room off)" and ?d = "take (room off) data"
  let ?rest = "if length data \<le> room off then [] else emitted (next_offset off data) False (drop (room off) data)"
  let ?p = "padding off @ physical ?t ?d"
  have t: "?t \<noteq> kZeroType"
    by (simp add: fragment_type_def)
  have e: "emitted off is_begin data = ?p @ ?rest"
    by (simp add: emitted.simps [of off])
  show ?case
  proof (cases "k < length ?p")
    case True
    then have "take k (emitted off is_begin data) = take k ?p"
      unfolding e by (simp del: append_assoc)
    with 1(2) have "at off (take k ?p) r"
      by simp
    from ReadPhysicalRecord_cut [OF this 1(3) _ True, of status] show ?thesis
      using ReadRecordLoop_stops by fastforce
  next
    case False
    let ?k = "k - length ?p"
    have cut: "take k (emitted off is_begin data) = padding off @ physical ?t ?d @ take ?k ?rest"
      unfolding e using False by (simp del: append_assoc)
    have big: "\<not> length data \<le> room off"
    proof
      assume "length data \<le> room off"
      with 1(5) False show False
        unfolding e by simp
    qed
    from ReadPhysicalRecord_step [OF 1(2) [unfolded cut] 1(3) t] obtain r1 where
      step: "ReadPhysicalRecord read r status = Some ((rtype ?t, ?d, status), r1)"
      and r1: "at (next_offset off data) (take ?k ?rest) r1"
      by (auto simp: next_offset_def log_kHeaderSize_def min.commute)
    have kl: "?k < length (emitted (next_offset off data) False (drop (room off) data))"
      using 1(5) False big unfolding e by simp
    have "\<exists>s. ReadRecordLoop read scratch infr r status = ReadRecordLoop read s True r1 status"
      using step big 1(4) by (cases is_begin) (auto simp: ReadRecordLoop.simps [of read _ _ r status] fragment_type_def)
    then obtain s where s: "ReadRecordLoop read scratch infr r status = ReadRecordLoop read s True r1 status"
      by blast
    have "at (next_offset off data) (take ?k (emitted (next_offset off data) False (drop (room off) data))) r1"
      using r1 big by simp
    from 1(1) [OF big this next_offset_le _ kl, of True s] s show ?thesis
      by simp
  qed
qed

text \<open>Replay returns every complete record, in order, and never a torn one.\<close>

lemma ReadAllRecords_emitted:
  assumes "at off (emitted_all off ds @ tail) r" and "off \<le> log_kBlockSize"
    and "\<And>r'. at (foldl offset_after off ds) tail r' \<Longrightarrow> foldl offset_after off ds \<le> log_kBlockSize \<Longrightarrow>
           \<exists>st r''. ReadRecord read r' = Some ((False, [], st), r'') \<and> P st"
  shows "\<exists>st. ReadAllRecords read r acc = Some (acc @ ds, st) \<and> P st"
  using assms
proof (induction ds arbitrary: off r acc)
  case Nil
  from Nil(3) [of r] Nil(1,2) show ?case
    by (auto simp: ReadAllRecords.simps [of read r])
next
  case (Cons d ds)
  have "at off (emitted off True d @ (emitted_all (offset_after off d) ds @ tail)) r"
    using Cons.prems(1) by simp
  from ReadRecord_emitted [OF this Cons.prems(2)] obtain r1 where
    r1: "ReadRecord read r = Some ((True, d, OK), r1)" "at (offset_after off d) (emitted_all (offset_after off d) ds @ tail) r1"
    by blast
  have "\<exists>st. ReadAllRecords read r1 (acc @ [d]) = Some ((acc @ [d]) @ ds, st) \<and> P st"
    using Cons.prems(3) by (intro Cons.IH [OF r1(2) offset_after_le]) simp
  with r1(1) show ?case
    by (auto simp: ReadAllRecords.simps [of read r])
qed

lemma reader_at_new: "at 0 (remaining f) (LogReader_new f checksum)"
  by (simp add: reader_at_def LogReader_new_def in_block_def)

lemma Replay_complete:
  assumes "remaining f = emitted_all 0 ds"
  shows "ReadAllRecords read (LogReader_new f checksum) [] = Some (ds, OK)"
proof -
  have "at 0 (emitted_all 0 ds @ []) (LogReader_new f checksum)"
    using reader_at_new [of f checksum] assms by simp
  from ReadAllRecords_emitted [OF this, of "\<lambda>st. st = OK" "[]"] ReadRecord_end show ?thesis
    by auto
qed

lemma Replay_torn:
  assumes "remaining f = emitted_all 0 ds @ take k (emitted (foldl offset_after 0 ds) True d)"
    and "k < length (emitted (foldl offset_after 0 ds) True d)"
  shows "\<exists>st. ReadAllRecords read (LogReader_new f checksum) [] = Some (ds, st)"
proof -
  let ?tail = "take k (emitted (foldl offset_after 0 ds) True d)"
  have at: "at 0 (emitted_all 0 ds @ ?tail) (LogReader_new f checksum)"
    using reader_at_new [of f checksum] assms(1) by simp
  have "\<exists>st. ReadAllRecords read (LogReader_new f checksum) [] = Some ([] @ ds, st) \<and> True"
  proof (rule ReadAllRecords_emitted [OF at])
    fix r' assume "at (foldl offset_after 0 ds) ?tail r'" "foldl offset_after 0 ds \<le> log_kBlockSize"
    from ReadRecordLoop_cut [OF this, of False "[]" OK] assms(2)
    show "\<exists>st r''. ReadRecord read r' = Some ((False, [], st), r'') \<and> True"
      by (simp add: ReadRecord_def)
  qed simp
  then show ?thesis by simp
qed

end

section \<open>Damage\<close>

text \<open>
  With checksums on, a physical record whose type and payload were changed within four adjacent
  bytes is never delivered.
\<close>

lemma Extend_Value: "Extend (Value xs) ys = Value (xs @ ys)"
  by (simp add: Value_def Extend_Extend)

lemma ParsePhysicalRecord_damaged:
  assumes "of_nat (rtype t) # data = pre @ bs @ post" "t' # data' = pre @ bs' @ post"
    and "length bs = length bs'" "length bs \<le> 4" "bs \<noteq> bs'"
    and "length data < 65536" "lr_checksum r"
    and buf: "lr_buffer r = take 6 (record_header t data) @ t' # data' @ U"
  shows "\<exists>st. fst (ParsePhysicalRecord r status) = (kBadRecord, [], st)"
proof -
  have len: "length data' = length data"
    using assms(1-3) by (metis length_Cons length_append nat.inject)
  have h: "take 6 (record_header t data) =
      EncodeFixed32 (Mask (Value (of_nat (rtype t) # data))) @ [of_nat (length data mod 256), of_nat (length data div 256)]"
    by (simp add: record_header_def Let_def Extend_Value)
  let ?c = "EncodeFixed32 (Mask (Value (of_nat (rtype t) # data)))"
  have b: "lr_buffer r = ?c @ [of_nat (length data mod 256), of_nat (length data div 256), t'] @ data' @ U"
    using buf h by simp
  have at: "byte_at (lr_buffer r) (4 + k) = byte_at ([of_nat (length data mod 256), of_nat (length data div 256), t'] @ data' @ U) k" for k
    using byte_at_append2 [of ?c _ k] unfolding b by simp
  have f: "DecodeFixed32 (lr_buffer r) = Mask (Value (of_nat (rtype t) # data))"
      "unat (byte_at (lr_buffer r) 4) + 256 * unat (byte_at (lr_buffer r) 5) = length data"
      "byte_at (lr_buffer r) 6 = t'"
    using at [of 0] at [of 1] at [of 2] header_fields(5) [OF assms(6)] by (simp_all add: b)
  have pay: "take (length data) (drop log_kHeaderSize (lr_buffer r)) = data'"
    by (simp add: b log_kHeaderSize_def len [symmetric])
  have fit: "\<not> length (lr_buffer r) < log_kHeaderSize + length data"
    by (simp add: b log_kHeaderSize_def len)
  have "Value (of_nat (rtype t) # data) \<noteq> Value (t' # data')"
    using Value_burst [of bs bs' pre post] assms(1-5) by metis
  then have bad: "Unmask (Mask (Value (of_nat (rtype t) # data))) \<noteq> Extend (Value [t']) data'"
    by (simp add: Extend_Value)
  show ?thesis
    unfolding ParsePhysicalRecord_def Let_def f pay using fit bad assms(7) by simp
qed

end
