(* ===== verification/Arenas.thy ===== *)
theory Arenas
  imports Prelude
begin

text \<open>
  The memory pool (util/arena.h, util/arena.cc). Addresses are natural numbers and 0 is
  \<open>nullptr\<close>; a pointer has 8 bytes. \<open>fresh blocks n\<close> is the address that \<open>new char[n]\<close> returns
  when the arena holds \<open>blocks\<close>; \<open>operator_new\<close> states what the language promises of it. The
  source keeps only the addresses of its blocks; their sizes are recorded here so that the
  properties can speak about the memory of a block.
\<close>

type_synonym region = "nat \<times> nat"

record Arena =
  alloc_ptr :: nat
  alloc_bytes_remaining :: nat
  blocks :: "region list"
  memory_usage :: nat

definition kBlockSize :: nat where
  "kBlockSize = 4096"

definition Arena_new :: Arena where
  "Arena_new = \<lparr> alloc_ptr = 0, alloc_bytes_remaining = 0, blocks = [], memory_usage = 0 \<rparr>"

definition MemoryUsage :: "Arena \<Rightarrow> nat" where
  "MemoryUsage a = memory_usage a"

definition AllocateNewBlock :: "(region list \<Rightarrow> nat \<Rightarrow> nat) \<Rightarrow> nat \<Rightarrow> Arena \<Rightarrow> nat \<times> Arena" where
  "AllocateNewBlock fresh block_bytes a =
     (let result = fresh (blocks a) block_bytes
      in (result, a\<lparr> blocks := blocks a @ [(result, block_bytes)],
                     memory_usage := memory_usage a + (block_bytes + 8) \<rparr>))"

definition AllocateFallback :: "(region list \<Rightarrow> nat \<Rightarrow> nat) \<Rightarrow> nat \<Rightarrow> Arena \<Rightarrow> nat \<times> Arena" where
  "AllocateFallback fresh n a =
     (if n > kBlockSize div 4 then AllocateNewBlock fresh n a
      else let (p, a') = AllocateNewBlock fresh kBlockSize a
           in (p, a'\<lparr> alloc_ptr := p + n, alloc_bytes_remaining := kBlockSize - n \<rparr>))"

text \<open>The source asserts that \<open>n\<close> is positive.\<close>

definition Allocate :: "(region list \<Rightarrow> nat \<Rightarrow> nat) \<Rightarrow> nat \<Rightarrow> Arena \<Rightarrow> nat \<times> Arena" where
  "Allocate fresh n a =
     (if n \<le> alloc_bytes_remaining a
      then (alloc_ptr a,
            a\<lparr> alloc_ptr := alloc_ptr a + n, alloc_bytes_remaining := alloc_bytes_remaining a - n \<rparr>)
      else AllocateFallback fresh n a)"

definition AllocateAligned :: "(region list \<Rightarrow> nat \<Rightarrow> nat) \<Rightarrow> nat \<Rightarrow> Arena \<Rightarrow> nat \<times> Arena" where
  "AllocateAligned fresh n a =
     (let align = 8;
          current_mod = alloc_ptr a mod align;
          slop = (if current_mod = 0 then 0 else align - current_mod);
          needed = n + slop
      in if needed \<le> alloc_bytes_remaining a
         then (alloc_ptr a + slop,
               a\<lparr> alloc_ptr := alloc_ptr a + needed,
                  alloc_bytes_remaining := alloc_bytes_remaining a - needed \<rparr>)
         else AllocateFallback fresh n a)"

section \<open>Allocation sequences\<close>

datatype request = Plain nat | Aligned nat

fun req_size :: "request \<Rightarrow> nat" where
  "req_size (Plain n) = n"
| "req_size (Aligned n) = n"

fun serve :: "(region list \<Rightarrow> nat \<Rightarrow> nat) \<Rightarrow> request \<Rightarrow> Arena \<Rightarrow> nat \<times> Arena" where
  "serve fresh (Plain n) a = Allocate fresh n a"
| "serve fresh (Aligned n) a = AllocateAligned fresh n a"

text \<open>The regions handed out for a list of requests, and the arena afterwards.\<close>

fun serve_all :: "(region list \<Rightarrow> nat \<Rightarrow> nat) \<Rightarrow> request list \<Rightarrow> Arena \<Rightarrow> region list \<times> Arena" where
  "serve_all fresh [] a = ([], a)"
| "serve_all fresh (r # rs) a =
     (let (p, a') = serve fresh r a; (ps, a'') = serve_all fresh rs a'
      in ((p, req_size r) # ps, a''))"

definition apart :: "region \<Rightarrow> region \<Rightarrow> bool" where
  "apart r s \<longleftrightarrow> fst r + snd r \<le> fst s \<or> fst s + snd s \<le> fst r"

definition inside :: "region \<Rightarrow> region \<Rightarrow> bool" where
  "inside r b \<longleftrightarrow> fst b \<le> fst r \<and> fst r + snd r \<le> fst b + snd b"

text \<open>What \<open>new char[n]\<close> promises: storage aligned for any object, apart from the live blocks.\<close>

definition operator_new :: "(region list \<Rightarrow> nat \<Rightarrow> nat) \<Rightarrow> bool" where
  "operator_new fresh \<longleftrightarrow>
     (\<forall>bs n. 0 < fresh bs n \<and> fresh bs n mod 16 = 0 \<and> (\<forall>b \<in> set bs. apart (fresh bs n, n) b))"

text \<open>An allocator that satisfies it: the next multiple of 16 after every block.\<close>

definition bump_new :: "region list \<Rightarrow> nat \<Rightarrow> nat" where
  "bump_new bs n = 16 * (1 + Max (insert 0 ((\<lambda>b. fst b + snd b) ` set bs)))"

lemma bump_new_ok: "operator_new bump_new"
proof -
  have "apart (bump_new bs n, n) b" if "b \<in> set bs" for bs n b
  proof -
    have "fst b + snd b \<le> Max (insert 0 ((\<lambda>b. fst b + snd b) ` set bs))"
      using that by (intro Max_ge) auto
    then show ?thesis
      by (simp add: apart_def bump_new_def)
  qed
  then show ?thesis
    by (simp add: operator_new_def) (simp add: bump_new_def)
qed

section \<open>The arena invariant\<close>

text \<open>
  \<open>rs\<close> are the regions handed out so far: they, and the free rest of the current block, lie
  inside blocks and are pairwise apart.
\<close>

definition arena_inv :: "Arena \<Rightarrow> region list \<Rightarrow> bool" where
  "arena_inv a rs \<longleftrightarrow>
     (let free = (alloc_ptr a, alloc_bytes_remaining a) in
      sorted_wrt apart (free # rs) \<and>
      (\<forall>r \<in> set rs. \<exists>b \<in> set (blocks a). inside r b) \<and>
      (free = (0, 0) \<or> (\<exists>b \<in> set (blocks a). inside free b)) \<and>
      sorted_wrt apart (blocks a) \<and>
      memory_usage a = (\<Sum>b \<leftarrow> blocks a. snd b + 8))"

lemma arena_inv_new: "arena_inv Arena_new []"
  by (simp add: arena_inv_def Arena_new_def)

lemma apart_sym: "apart r s \<longleftrightarrow> apart s r"
  by (auto simp: apart_def)

lemma apart_inside: "apart n b \<Longrightarrow> inside r b \<Longrightarrow> apart n r"
  by (auto simp: apart_def inside_def)

lemma sorted_wrt_snoc: "sorted_wrt P (xs @ [y]) \<longleftrightarrow> sorted_wrt P xs \<and> (\<forall>x \<in> set xs. P x y)"
  by (simp add: sorted_wrt_append)

lemma apart_part: "apart b r \<Longrightarrow> inside r' b \<Longrightarrow> apart r' r"
  by (auto simp: apart_def inside_def)

lemma inside_trans: "inside r s \<Longrightarrow> inside s t \<Longrightarrow> inside r t"
  by (auto simp: inside_def)

text \<open>A piece cut from the front of the free rest, after skipping \<open>slop\<close> bytes.\<close>

lemma arena_inv_cut:
  assumes "arena_inv a rs" and "slop + n \<le> alloc_bytes_remaining a" and "0 < n"
  shows "arena_inv (a\<lparr> alloc_ptr := alloc_ptr a + (slop + n),
                       alloc_bytes_remaining := alloc_bytes_remaining a - (slop + n) \<rparr>)
           ((alloc_ptr a + slop, n) # rs)"
proof -
  let ?free = "(alloc_ptr a, alloc_bytes_remaining a)"
  let ?new = "(alloc_ptr a + slop, n)"
  let ?rest = "(alloc_ptr a + (slop + n), alloc_bytes_remaining a - (slop + n))"
  have inv: "sorted_wrt apart (?free # rs)" "\<forall>r \<in> set rs. \<exists>b \<in> set (blocks a). inside r b"
      "?free = (0, 0) \<or> (\<exists>b \<in> set (blocks a). inside ?free b)"
    using assms(1) by (simp_all add: arena_inv_def Let_def)
  have parts: "inside ?new ?free" "inside ?rest ?free" "apart ?rest ?new"
    using assms(2) by (simp_all add: inside_def apart_def)
  have "?free \<noteq> (0, 0)"
    using assms by auto
  with inv(3) parts have "\<exists>b \<in> set (blocks a). inside ?new b" "\<exists>b \<in> set (blocks a). inside ?rest b"
    by (blast intro: inside_trans)+
  moreover have "sorted_wrt apart (?rest # ?new # rs)"
    using inv(1) parts by (auto intro: apart_part)
  ultimately show ?thesis
    using assms(1) inv(2) by (simp add: arena_inv_def Let_def)
qed

lemma fresh_apart: "operator_new fresh \<Longrightarrow> b \<in> set bs \<Longrightarrow> apart (fresh bs n, n) b"
  by (auto simp: operator_new_def)

text \<open>A whole new block, handed out at once.\<close>

lemma arena_inv_AllocateNewBlock:
  assumes new_ok: "operator_new fresh" and inv0: "arena_inv a rs" and res: "AllocateNewBlock fresh n a = (p, a')"
  shows "arena_inv a' ((p, n) # rs)" "p mod 8 = 0"
    "blocks a' = blocks a @ [(p, n)]" "alloc_ptr a' = alloc_ptr a"
    "alloc_bytes_remaining a' = alloc_bytes_remaining a" "memory_usage a' = memory_usage a + (n + 8)"
proof -
  let ?free = "(alloc_ptr a, alloc_bytes_remaining a)"
  have p: "p = fresh (blocks a) n"
    and a': "a' = a\<lparr> blocks := blocks a @ [(p, n)], memory_usage := memory_usage a + (n + 8) \<rparr>"
    using res by (auto simp: AllocateNewBlock_def Let_def)
  show "p mod 8 = 0"
  proof -
    have "16 dvd p"
      using new_ok by (auto simp: p operator_new_def)
    then have "8 dvd p"
      using dvd_trans [of 8 16 p] by simp
    then show ?thesis
      by simp
  qed
  have inv: "sorted_wrt apart (?free # rs)" "\<forall>r \<in> set rs. \<exists>b \<in> set (blocks a). inside r b"
      "?free = (0, 0) \<or> (\<exists>b \<in> set (blocks a). inside ?free b)" "sorted_wrt apart (blocks a)"
    using inv0 by (simp_all add: arena_inv_def Let_def)
  have new: "apart (p, n) b" if "b \<in> set (blocks a)" for b
    using fresh_apart [OF new_ok that] p by simp
  have "apart (p, n) ?free"
    using inv(3) new apart_inside [of "(p, n)" _ ?free] by (auto simp: apart_def [of _ "(0, 0)"])
  then have "apart ?free (p, n)"
    by (simp only: apart_sym)
  moreover have "\<forall>r \<in> set rs. apart (p, n) r"
    using inv(2) new by (blast intro: apart_inside)
  moreover have "sorted_wrt apart (blocks a')"
    using inv(4) new apart_sym by (auto simp: a' sorted_wrt_append)
  moreover have "inside (p, n) (p, n)"
    by (simp add: inside_def)
  ultimately show "arena_inv a' ((p, n) # rs)"
    using inv0 inv by (auto simp: arena_inv_def Let_def a')
  show "blocks a' = blocks a @ [(p, n)]" "alloc_ptr a' = alloc_ptr a"
    "alloc_bytes_remaining a' = alloc_bytes_remaining a" "memory_usage a' = memory_usage a + (n + 8)"
    by (simp_all add: a')
qed

lemma arena_inv_AllocateFallback:
  assumes new_ok: "operator_new fresh" and inv: "arena_inv a rs" and pos: "0 < n" and "AllocateFallback fresh n a = (p, a')"
  shows "arena_inv a' ((p, n) # rs)" "p mod 8 = 0"
proof -
  have "arena_inv a' ((p, n) # rs) \<and> p mod 8 = 0"
  proof (cases "n > kBlockSize div 4")
    case True
    with assms have "AllocateNewBlock fresh n a = (p, a')"
      by (simp add: AllocateFallback_def)
    with arena_inv_AllocateNewBlock [OF new_ok inv] show ?thesis
      by blast
  next
    case False
    obtain a1 where a1: "AllocateNewBlock fresh kBlockSize a = (p, a1)"
      and a': "a' = a1\<lparr> alloc_ptr := p + n, alloc_bytes_remaining := kBlockSize - n \<rparr>"
      using assms False by (auto simp: AllocateFallback_def split: prod.splits)
    note new = arena_inv_AllocateNewBlock [OF new_ok inv a1]
    let ?a2 = "a1\<lparr> alloc_ptr := p, alloc_bytes_remaining := kBlockSize \<rparr>"
    have "arena_inv ?a2 rs"
      using new(1,3) by (auto simp: arena_inv_def Let_def inside_def)
    from arena_inv_cut [OF this, of 0 n] False pos have "arena_inv a' ((p, n) # rs)"
      by (simp add: a')
    with new(2) show ?thesis
      by simp
  qed
  then show "arena_inv a' ((p, n) # rs)" "p mod 8 = 0"
    by simp_all
qed

lemma arena_inv_Allocate:
  assumes new_ok: "operator_new fresh" and inv: "arena_inv a rs" and pos: "0 < n" and "Allocate fresh n a = (p, a')"
  shows "arena_inv a' ((p, n) # rs)"
  using assms arena_inv_cut [OF inv, of 0 n] arena_inv_AllocateFallback [OF new_ok inv pos]
  by (auto simp: Allocate_def split: if_splits)

lemma arena_inv_AllocateAligned:
  assumes new_ok: "operator_new fresh" and inv: "arena_inv a rs" and pos: "0 < n" and "AllocateAligned fresh n a = (p, a')"
  shows "arena_inv a' ((p, n) # rs)" "p mod 8 = 0"
proof -
  let ?slop = "if alloc_ptr a mod 8 = 0 then 0 else 8 - alloc_ptr a mod 8"
  have slop: "(alloc_ptr a + ?slop) mod 8 = 0"
    by presburger
  have "arena_inv a' ((p, n) # rs) \<and> p mod 8 = 0"
  proof (cases "n + ?slop \<le> alloc_bytes_remaining a")
    case True
    with assms have "p = alloc_ptr a + ?slop"
        "a' = a\<lparr> alloc_ptr := alloc_ptr a + (?slop + n),
                 alloc_bytes_remaining := alloc_bytes_remaining a - (?slop + n) \<rparr>"
      unfolding AllocateAligned_def Let_def by (simp_all add: add.commute)
    with arena_inv_cut [OF inv, of ?slop n] True pos slop show ?thesis
      by (simp add: add.commute)
  next
    case False
    with assms have "AllocateFallback fresh n a = (p, a')"
      unfolding AllocateAligned_def Let_def by simp
    with arena_inv_AllocateFallback [OF new_ok inv pos] show ?thesis
      by blast
  qed
  then show "arena_inv a' ((p, n) # rs)" "p mod 8 = 0"
    by simp_all
qed

lemma arena_inv_serve:
  assumes new_ok: "operator_new fresh" and inv: "arena_inv a rs" and "0 < req_size r" and "serve fresh r a = (p, a')"
  shows "arena_inv a' ((p, req_size r) # rs)"
  using assms arena_inv_Allocate [OF new_ok] arena_inv_AllocateAligned [OF new_ok]  by (cases r) auto

lemma arena_inv_serve_all:
  assumes new_ok: "operator_new fresh" and inv: "arena_inv a rs" and "\<forall>r \<in> set reqs. 0 < req_size r" and "serve_all fresh reqs a = (ps, a')"
  shows "arena_inv a' (rev ps @ rs)"
  using assms
proof (induction reqs arbitrary: a rs ps)
  case (Cons r reqs)
  obtain p a1 where s: "serve fresh r a = (p, a1)"
    by fastforce
  obtain qs where q: "serve_all fresh reqs a1 = (qs, a')" "ps = (p, req_size r) # qs"
    using Cons.prems(4) s by (auto split: prod.splits)
  have "arena_inv a1 ((p, req_size r) # rs)"
    using arena_inv_serve [OF new_ok Cons.prems(2) _ s] Cons.prems(3) by simp
  from Cons.IH [OF new_ok this _ q(1)] Cons.prems(3) q(2) show ?case
    by simp
qed simp

lemma sorted_wrt_apart_rev: "sorted_wrt apart (rev ps) \<longleftrightarrow> sorted_wrt apart ps"
proof -
  have "(\<lambda>x y. apart y x) = apart"
    by (intro ext) (simp add: apart_def disj_commute)
  then show ?thesis
    by (simp add: sorted_wrt_rev)
qed

end
