(* ===== verification/SkipLists.thy ===== *)
theory SkipLists
  imports Arenas Hashes
begin

text \<open>
  The skip list (db/skiplist.h, db/skiplist.cc). The nodes live in a store indexed by the order
  of their allocation; index 0 is \<open>head_\<close>, and a \<open>Node*\<close> is an index or \<open>None\<close> (\<open>nullptr\<close>). A node
  has as many forward pointers as its height. The search loops are partial functions, whose
  value \<open>None\<close> is not returning; they are proved to return on every well-formed list, and to
  find the position that the sorted list of the keys gives.
\<close>

section \<open>Data\<close>

record 'k Node =
  nd_key :: 'k
  nd_next :: "nat option list"

record 'k SkipList =
  nodes :: "'k Node list"
  max_height :: nat
  rnd :: u32
  arena :: Arena

definition kMaxHeight :: nat where
  "kMaxHeight = 12"

text \<open>The size of a \<open>Node\<close> with one forward pointer, for a pointer-sized key.\<close>

definition sizeof_Node :: nat where
  "sizeof_Node = 16"

definition node_key :: "'k Node list \<Rightarrow> nat \<Rightarrow> 'k" where
  "node_key ns x = nd_key (ns ! x)"

definition height_of :: "'k Node list \<Rightarrow> nat \<Rightarrow> nat" where
  "height_of ns x = length (nd_next (ns ! x))"

definition Node_Next :: "'k Node list \<Rightarrow> nat \<Rightarrow> nat \<Rightarrow> nat option" where
  "Node_Next ns x n = nd_next (ns ! x) ! n"

definition Node_SetNext :: "'k Node list \<Rightarrow> nat \<Rightarrow> nat \<Rightarrow> nat option \<Rightarrow> 'k Node list" where
  "Node_SetNext ns x n y = ns[x := (ns ! x)\<lparr> nd_next := (nd_next (ns ! x))[n := y] \<rparr>]"

section \<open>Operations\<close>

text \<open>The memory of a new node comes from the arena; its pointers are set by the caller.\<close>

definition NewNode :: "(region list \<Rightarrow> nat \<Rightarrow> nat) \<Rightarrow> 'k \<Rightarrow> nat \<Rightarrow> 'k SkipList \<Rightarrow> nat \<times> 'k SkipList" where
  "NewNode fresh key height s =
     (let (_, a) = AllocateAligned fresh (sizeof_Node + 8 * (height - 1)) (arena s)
      in (length (nodes s),
          s\<lparr> nodes := nodes s @ [\<lparr> nd_key = key, nd_next = replicate height None \<rparr>], arena := a \<rparr>))"

definition SkipList_new :: "(region list \<Rightarrow> nat \<Rightarrow> nat) \<Rightarrow> 'k \<Rightarrow> Arena \<Rightarrow> 'k SkipList" where
  "SkipList_new fresh default_key a =
     (let s = \<lparr> nodes = [], max_height = 1, rnd = RandomInit 0xdeadbeef, arena = a \<rparr>;
          (head, s') = NewNode fresh default_key kMaxHeight s
      in s'\<lparr> nodes := fold (\<lambda>i ns. Node_SetNext ns head i None) [0..<kMaxHeight] (nodes s') \<rparr>)"

function RandomHeightLoop :: "nat \<Rightarrow> u32 \<Rightarrow> nat \<times> u32" where
  "RandomHeightLoop height seed =
     (if height < kMaxHeight
      then let (one_in, seed') = RandomOneIn seed 4
           in if one_in then RandomHeightLoop (height + 1) seed' else (height, seed')
      else (height, seed))"
  by pat_completeness auto
termination
  by (relation "measure (\<lambda>(height, _). kMaxHeight - height)") auto

declare RandomHeightLoop.simps [simp del]

definition RandomHeight :: "'k SkipList \<Rightarrow> nat \<times> 'k SkipList" where
  "RandomHeight s = (let (h, seed) = RandomHeightLoop 1 (rnd s) in (h, s\<lparr> rnd := seed \<rparr>))"

definition KeyIsAfterNode :: "('k \<Rightarrow> 'k \<Rightarrow> int) \<Rightarrow> 'k Node list \<Rightarrow> 'k \<Rightarrow> nat option \<Rightarrow> bool" where
  "KeyIsAfterNode cmp ns key n = (case n of None \<Rightarrow> False | Some y \<Rightarrow> cmp (node_key ns y) key < 0)"

text \<open>
  \<open>prev\<close> is the caller's array of predecessors, with \<open>None\<close> for an entry not yet written; the
  empty list is the null pointer, where nothing is stored.
\<close>

partial_function (option) FindGreaterOrEqualLoop ::
    "('k \<Rightarrow> 'k \<Rightarrow> int) \<Rightarrow> 'k Node list \<Rightarrow> 'k \<Rightarrow> nat \<Rightarrow> nat \<Rightarrow> nat option list
      \<Rightarrow> (nat option \<times> nat option list) option" where
  "FindGreaterOrEqualLoop cmp ns key x level prev =
     (let nxt = Node_Next ns x level
      in if KeyIsAfterNode cmp ns key nxt
         then FindGreaterOrEqualLoop cmp ns key (the nxt) level prev
         else let prev' = prev[level := Some x]
              in if level = 0 then Some (nxt, prev')
                 else FindGreaterOrEqualLoop cmp ns key x (level - 1) prev')"

definition FindGreaterOrEqual ::
    "('k \<Rightarrow> 'k \<Rightarrow> int) \<Rightarrow> 'k SkipList \<Rightarrow> 'k \<Rightarrow> nat option list \<Rightarrow> (nat option \<times> nat option list) option" where
  "FindGreaterOrEqual cmp s key prev =
     FindGreaterOrEqualLoop cmp (nodes s) key 0 (max_height s - 1) prev"

partial_function (option) FindLessThanLoop ::
    "('k \<Rightarrow> 'k \<Rightarrow> int) \<Rightarrow> 'k Node list \<Rightarrow> 'k \<Rightarrow> nat \<Rightarrow> nat \<Rightarrow> nat option" where
  "FindLessThanLoop cmp ns key x level =
     (let nxt = Node_Next ns x level
      in if nxt = None \<or> cmp (node_key ns (the nxt)) key \<ge> 0
         then if level = 0 then Some x else FindLessThanLoop cmp ns key x (level - 1)
         else FindLessThanLoop cmp ns key (the nxt) level)"

definition FindLessThan :: "('k \<Rightarrow> 'k \<Rightarrow> int) \<Rightarrow> 'k SkipList \<Rightarrow> 'k \<Rightarrow> nat option" where
  "FindLessThan cmp s key = FindLessThanLoop cmp (nodes s) key 0 (max_height s - 1)"

partial_function (option) FindLastLoop :: "'k Node list \<Rightarrow> nat \<Rightarrow> nat \<Rightarrow> nat option" where
  "FindLastLoop ns x level =
     (let nxt = Node_Next ns x level
      in if nxt = None
         then if level = 0 then Some x else FindLastLoop ns x (level - 1)
         else FindLastLoop ns (the nxt) level)"

definition FindLast :: "'k SkipList \<Rightarrow> nat option" where
  "FindLast s = FindLastLoop (nodes s) 0 (max_height s - 1)"

text \<open>One round of the linking loop of \<open>Insert\<close>.\<close>

definition Link :: "nat \<Rightarrow> nat option list \<Rightarrow> nat \<Rightarrow> 'k Node list \<Rightarrow> 'k Node list" where
  "Link x prev i ns =
     (let p = the (prev ! i); ns' = Node_SetNext ns x i (Node_Next ns p i) in Node_SetNext ns' p i (Some x))"

definition Insert ::
    "('k \<Rightarrow> 'k \<Rightarrow> int) \<Rightarrow> (region list \<Rightarrow> nat \<Rightarrow> nat) \<Rightarrow> 'k \<Rightarrow> 'k SkipList \<Rightarrow> 'k SkipList option" where
  "Insert cmp fresh key s =
     (case FindGreaterOrEqual cmp s key (replicate kMaxHeight None) of
        None \<Rightarrow> None
      | Some (_, prev) \<Rightarrow>
          (let (height, s1) = RandomHeight s;
               current_max_height = max_height s1;
               (prev', s2) =
                 (if height > current_max_height
                  then (fold (\<lambda>i p. p[i := Some 0]) [current_max_height..<height] prev,
                        s1\<lparr> max_height := height \<rparr>)
                  else (prev, s1));
               (x, s3) = NewNode fresh key height s2
           in Some (s3\<lparr> nodes := fold (Link x prev') [0..<height] (nodes s3) \<rparr>)))"

definition Contains :: "('k \<Rightarrow> 'k \<Rightarrow> int) \<Rightarrow> 'k SkipList \<Rightarrow> 'k \<Rightarrow> bool option" where
  "Contains cmp s key =
     (case FindGreaterOrEqual cmp s key [] of
        None \<Rightarrow> None
      | Some (x, _) \<Rightarrow> Some (case x of None \<Rightarrow> False | Some y \<Rightarrow> cmp key (node_key (nodes s) y) = 0))"

section \<open>Iterator\<close>

text \<open>An iterator is its \<open>node_\<close>. The outer option of a result is again that of not returning.\<close>

definition Iter_Valid :: "nat option \<Rightarrow> bool" where
  "Iter_Valid node \<longleftrightarrow> node \<noteq> None"

definition Iter_key :: "'k SkipList \<Rightarrow> nat option \<Rightarrow> 'k" where
  "Iter_key s node = node_key (nodes s) (the node)"

definition Iter_Next :: "'k SkipList \<Rightarrow> nat option \<Rightarrow> nat option" where
  "Iter_Next s node = Node_Next (nodes s) (the node) 0"

definition head_to_null :: "nat \<Rightarrow> nat option" where
  "head_to_null x = (if x = 0 then None else Some x)"

definition Iter_Prev :: "('k \<Rightarrow> 'k \<Rightarrow> int) \<Rightarrow> 'k SkipList \<Rightarrow> nat option \<Rightarrow> nat option option" where
  "Iter_Prev cmp s node = map_option head_to_null (FindLessThan cmp s (Iter_key s node))"

definition Iter_Seek :: "('k \<Rightarrow> 'k \<Rightarrow> int) \<Rightarrow> 'k SkipList \<Rightarrow> 'k \<Rightarrow> nat option option" where
  "Iter_Seek cmp s target = map_option fst (FindGreaterOrEqual cmp s target [])"

definition Iter_SeekToFirst :: "'k SkipList \<Rightarrow> nat option" where
  "Iter_SeekToFirst s = Node_Next (nodes s) 0 0"

definition Iter_SeekToLast :: "'k SkipList \<Rightarrow> nat option option" where
  "Iter_SeekToLast s = map_option head_to_null (FindLast s)"

section \<open>Well-formed lists\<close>

text \<open>The nodes reached from \<open>x\<close> on level \<open>l\<close>, up to \<open>nullptr\<close>.\<close>

fun chain :: "'k Node list \<Rightarrow> nat \<Rightarrow> nat \<Rightarrow> nat list \<Rightarrow> bool" where
  "chain ns l x [] \<longleftrightarrow> Node_Next ns x l = None"
| "chain ns l x (y # ys) \<longleftrightarrow> Node_Next ns x l = Some y \<and> chain ns l y ys"

lemma chain_last: "chain ns l x (xs @ ys) \<Longrightarrow> chain ns l (last (x # xs)) ys"
  by (induction xs arbitrary: x) auto

text \<open>
  \<open>ids\<close> are the nodes in the order of level 0. On level \<open>l\<close> the list links the nodes of more
  than \<open>l\<close> pointers, in the same order.
\<close>

definition on_level :: "'k Node list \<Rightarrow> nat list \<Rightarrow> nat \<Rightarrow> nat list" where
  "on_level ns ids l = filter (\<lambda>n. l < height_of ns n) ids"

definition skip_inv :: "('k \<Rightarrow> 'k \<Rightarrow> int) \<Rightarrow> ('k \<Rightarrow> bool) \<Rightarrow> 'k SkipList \<Rightarrow> nat list \<Rightarrow> bool" where
  "skip_inv cmp dm s ids \<longleftrightarrow>
     set ids = {1..<length (nodes s)} \<and> nodes s \<noteq> [] \<and>
     height_of (nodes s) 0 = kMaxHeight \<and>
     1 \<le> max_height s \<and> max_height s \<le> kMaxHeight \<and>
     (\<forall>n \<in> set ids. dm (node_key (nodes s) n) \<and> 1 \<le> height_of (nodes s) n \<and> height_of (nodes s) n \<le> max_height s) \<and>
     sorted_wrt (\<lambda>a b. cmp (node_key (nodes s) a) (node_key (nodes s) b) < 0) ids \<and>
     (\<forall>l < kMaxHeight. chain (nodes s) l 0 (on_level (nodes s) ids l))"

text \<open>The keys in order: what the list represents.\<close>

definition keys_of :: "'k SkipList \<Rightarrow> nat list \<Rightarrow> 'k list" where
  "keys_of s ids = map (node_key (nodes s)) ids"

text \<open>The contract of the key comparator, on a domain of keys.\<close>

locale key_order =
  fixes cmp :: "'k \<Rightarrow> 'k \<Rightarrow> int" and dm :: "'k \<Rightarrow> bool"
  assumes key_refl: "dm a \<Longrightarrow> cmp a a = 0"
    and key_anti: "dm a \<Longrightarrow> dm b \<Longrightarrow> cmp a b < 0 \<longleftrightarrow> 0 < cmp b a"
    and key_trans: "dm a \<Longrightarrow> dm b \<Longrightarrow> dm d \<Longrightarrow> cmp a b \<le> 0 \<Longrightarrow> cmp b d \<le> 0 \<Longrightarrow> cmp a d \<le> 0"
begin

lemma key_less_trans:
  assumes "dm a" "dm b" "dm d" "cmp a b < 0" "cmp b d < 0"
  shows "cmp a d < 0"
proof (rule ccontr)
  assume "\<not> cmp a d < 0"
  then have "cmp d a \<le> 0"
    using key_anti [of d a] key_anti [of a d] assms by linarith
  with assms have "cmp d b \<le> 0"
    by (intro key_trans [of d a b]) auto
  with assms show False
    using key_anti [of b d] by simp
qed

lemma key_less_le_trans:
  assumes "dm a" "dm b" "dm d" "cmp a b < 0" "cmp b d \<le> 0"
  shows "cmp a d < 0"
proof (rule ccontr)
  assume "\<not> cmp a d < 0"
  then have "cmp d a \<le> 0"
    using key_anti [of d a] key_anti [of a d] assms by linarith
  with assms have "cmp b a \<le> 0"
    by (intro key_trans [of b d a]) auto
  with assms show False
    using key_anti [of a b] by simp
qed

end

text \<open>
  A position of a search for the nodes that satisfy \<open>Q\<close>, a set closed downwards in the order:
  \<open>x\<close> is the head or a node of level \<open>l\<close> in \<open>Q\<close>.
\<close>

definition search_pos :: "'k Node list \<Rightarrow> nat list \<Rightarrow> (nat \<Rightarrow> bool) \<Rightarrow> nat \<Rightarrow> nat \<Rightarrow> bool" where
  "search_pos ns ids Q l x \<longleftrightarrow>
     (\<exists>xs ys. on_level ns ids l = xs @ ys \<and> x = last (0 # xs) \<and> (\<forall>n \<in> set xs. Q n))"

text \<open>The last node of level \<open>l\<close> in \<open>Q\<close>, or the head.\<close>

definition pred_at :: "'k Node list \<Rightarrow> nat list \<Rightarrow> (nat \<Rightarrow> bool) \<Rightarrow> nat \<Rightarrow> nat" where
  "pred_at ns ids Q l = last (0 # filter Q (on_level ns ids l))"

lemma on_level_Suc: "on_level ns ids (Suc l) = filter (\<lambda>n. Suc l < height_of ns n) (on_level ns ids l)"
  unfolding on_level_def by (auto simp: Suc_lessD intro!: filter_cong)

lemma on_level_member: "on_level ns ids l = xs @ y # ys \<Longrightarrow> y \<in> set ids"
  unfolding on_level_def by (metis filter_is_subset in_set_conv_decomp subsetD)

lemma chain_next:
  assumes "chain ns l 0 (xs @ ys)" and "x = last (0 # xs)"
  shows "Node_Next ns x l = (case ys of [] \<Rightarrow> None | y # _ \<Rightarrow> Some y)"
  using chain_last [OF assms(1)] assms(2) by (cases ys) auto

lemma search_pos_right:
  assumes "chain ns l 0 (on_level ns ids l)" "search_pos ns ids Q l x" "Node_Next ns x l = Some y" "Q y"
  shows "search_pos ns ids Q l y"
proof -
  obtain xs ys where xs: "on_level ns ids l = xs @ ys" "x = last (0 # xs)" "\<forall>n \<in> set xs. Q n"
    using assms(2) by (auto simp: search_pos_def)
  with assms(1,3) obtain zs where "ys = y # zs"
    using chain_next [of ns l xs ys x] by (auto split: list.splits)
  with xs assms(4) show ?thesis
    unfolding search_pos_def by (intro exI [of _ "xs @ [y]"] exI [of _ zs]) auto
qed

lemma search_pos_stuck:
  assumes "chain ns l 0 (on_level ns ids l)" "search_pos ns ids Q l x"
    and "\<forall>y. Node_Next ns x l = Some y \<longrightarrow> \<not> Q y"
    and "sorted_wrt R ids" "\<And>a b. a \<in> set ids \<Longrightarrow> b \<in> set ids \<Longrightarrow> R a b \<Longrightarrow> Q b \<Longrightarrow> Q a"
  shows "x = pred_at ns ids Q l" "Node_Next ns x l = find (\<lambda>n. \<not> Q n) (on_level ns ids l)"
proof -
  obtain xs ys where xs: "on_level ns ids l = xs @ ys" "x = last (0 # xs)" "\<forall>n \<in> set xs. Q n"
    using assms(2) by (auto simp: search_pos_def)
  then have nx: "Node_Next ns x l = (case ys of [] \<Rightarrow> None | y # _ \<Rightarrow> Some y)"
    using chain_next assms(1) by metis
  have srt: "sorted_wrt R (xs @ ys)" "set (xs @ ys) \<subseteq> set ids"
    using assms(4) xs(1) [symmetric] by (auto simp: on_level_def sorted_wrt_filter)
  have "\<forall>y \<in> set ys. \<not> Q y"
  proof (cases ys)
    case (Cons y zs)
    then have "\<not> Q y"
      using nx assms(3) by simp
    with Cons srt assms(5) show ?thesis
      by (auto simp: sorted_wrt_append)
  qed simp
  then have "filter Q (on_level ns ids l) = xs"
    using xs by (simp add: filter_empty_conv filter_id_conv)
  then show "x = pred_at ns ids Q l"
    by (simp add: pred_at_def xs(2))
  have "find (\<lambda>n. \<not> Q n) (xs @ ys) = find (\<lambda>n. \<not> Q n) ys"
    using xs(3) find_None_iff' [of "\<lambda>n. \<not> Q n" xs] by (simp add: find_append)
  also have "\<dots> = (case ys of [] \<Rightarrow> None | y # _ \<Rightarrow> Some y)"
    using \<open>\<forall>y \<in> set ys. \<not> Q y\<close> by (cases ys) auto
  finally show "Node_Next ns x l = find (\<lambda>n. \<not> Q n) (on_level ns ids l)"
    by (simp add: xs(1) nx)
qed

text \<open>Going down keeps the position, since the nodes before one in \<open>Q\<close> are in \<open>Q\<close>.\<close>

lemma search_pos_down:
  assumes "search_pos ns ids Q (Suc l) x"
    and "sorted_wrt R ids" "\<And>a b. a \<in> set ids \<Longrightarrow> b \<in> set ids \<Longrightarrow> R a b \<Longrightarrow> Q b \<Longrightarrow> Q a"
  shows "search_pos ns ids Q l x"
proof -
  obtain xs ys where xs: "on_level ns ids (Suc l) = xs @ ys" "x = last (0 # xs)" "\<forall>n \<in> set xs. Q n"
    using assms(1) by (auto simp: search_pos_def)
  show ?thesis
  proof (cases xs rule: rev_cases)
    case Nil
    with xs show ?thesis
      unfolding search_pos_def by (intro exI [of _ "[]"] exI [of _ "on_level ns ids l"]) auto
  next
    case (snoc zs z)
    then have "z \<in> set (on_level ns ids (Suc l))" "Q z" "x = z"
      using xs by auto
    then have "z \<in> set (on_level ns ids l)"
      by (simp add: on_level_Suc)
    then obtain us vs where us: "on_level ns ids l = us @ z # vs"
      by (meson split_list)
    have "sorted_wrt R (us @ z # vs)" "set (us @ z # vs) \<subseteq> set ids"
      using assms(2) us [symmetric] by (auto simp: on_level_def sorted_wrt_filter)
    then have "\<forall>n \<in> set us. Q n"
      using assms(3) \<open>Q z\<close> by (auto simp: sorted_wrt_append) 
    with us \<open>Q z\<close> \<open>x = z\<close> show ?thesis
      unfolding search_pos_def by (intro exI [of _ "us @ [z]"] exI [of _ vs]) auto
  qed
qed

text \<open>
  The induction of all three searches: along the level while the next node is in \<open>Q\<close>, then
  down, until level 0. It gives termination as well.
\<close>

lemma search_induct:
  assumes pos: "search_pos ns ids Q l x" and "l < m"
    and chains: "\<And>l. l < m \<Longrightarrow> chain ns l 0 (on_level ns ids l)"
    and srt: "sorted_wrt R ids" and down_closed: "\<And>a b. a \<in> set ids \<Longrightarrow> b \<in> set ids \<Longrightarrow> R a b \<Longrightarrow> Q b \<Longrightarrow> Q a"
    and right: "\<And>l x y. l < m \<Longrightarrow> search_pos ns ids Q l x \<Longrightarrow> Node_Next ns x l = Some y \<Longrightarrow> Q y \<Longrightarrow> y \<in> set ids \<Longrightarrow> P l y \<Longrightarrow> P l x"
    and down: "\<And>l x. Suc l < m \<Longrightarrow> x = pred_at ns ids Q (Suc l) \<Longrightarrow>
                 (\<forall>y. Node_Next ns x (Suc l) = Some y \<longrightarrow> \<not> Q y) \<Longrightarrow> P l x \<Longrightarrow> P (Suc l) x"
    and stop: "\<And>x. x = pred_at ns ids Q 0 \<Longrightarrow> (\<forall>y. Node_Next ns x 0 = Some y \<longrightarrow> \<not> Q y) \<Longrightarrow>
                 Node_Next ns x 0 = find (\<lambda>n. \<not> Q n) (on_level ns ids 0) \<Longrightarrow> P 0 x"
  shows "P l x"
  using assms(1,2)
proof (induction l arbitrary: x)
  case l: 0
  obtain xs ys where xs: "on_level ns ids 0 = xs @ ys" "x = last (0 # xs)" "\<forall>n \<in> set xs. Q n"
    using l by (auto simp: search_pos_def)
  from l xs show ?case
  proof (induction ys arbitrary: xs x)
    case Nil
    then have "\<forall>y. Node_Next ns x 0 = Some y \<longrightarrow> \<not> Q y"
      using chain_next [of ns 0 xs "[]" x] chains by (metis list.case(1) option.distinct(1))
    with Nil search_pos_stuck [OF chains Nil(1) _ srt down_closed] show ?case
      by (intro stop) auto
  next
    case (Cons y ys)
    have nx: "Node_Next ns x 0 = Some y"
      using Cons.prems chain_next [of ns 0 xs "y # ys" x] chains [of 0] by simp
    show ?case
    proof (cases "Q y")
      case True
      have "y \<in> set ids"
        by (rule on_level_member [OF Cons.prems(3)])
      moreover have "P 0 y"
        using Cons.prems search_pos_right [OF chains Cons.prems(1) nx True] True
        by (intro Cons.IH [of y "xs @ [y]"]) auto
      ultimately show ?thesis
        using right Cons.prems(1,2) nx True by blast
    next
      case False
      with Cons nx search_pos_stuck [OF chains Cons.prems(1) _ srt down_closed] show ?thesis
        by (intro stop) auto
    qed
  qed
next
  case l: (Suc l)
  obtain xs ys where xs: "on_level ns ids (Suc l) = xs @ ys" "x = last (0 # xs)" "\<forall>n \<in> set xs. Q n"
    using l.prems by (auto simp: search_pos_def)
  have go_down: "P (Suc l) x" if pos: "search_pos ns ids Q (Suc l) x" and stuck: "\<forall>y. Node_Next ns x (Suc l) = Some y \<longrightarrow> \<not> Q y" for x
    using search_pos_stuck(1) [OF chains pos stuck srt down_closed] l.prems stuck
      l.IH [OF search_pos_down [OF pos srt down_closed]] by (intro down) auto
  from l.prems xs show ?case
  proof (induction ys arbitrary: xs x)
    case Nil
    then have "\<forall>y. Node_Next ns x (Suc l) = Some y \<longrightarrow> \<not> Q y"
      using chain_next [of ns "Suc l" xs "[]" x] chains by (metis list.case(1) option.distinct(1))
    with Nil.prems show ?case
      by (blast intro: go_down)
  next
    case (Cons y ys)
    have nx: "Node_Next ns x (Suc l) = Some y"
      using Cons.prems chain_next [of ns "Suc l" xs "y # ys" x] chains [of "Suc l"] by simp
    show ?case
    proof (cases "Q y")
      case True
      have "y \<in> set ids"
        by (rule on_level_member [OF Cons.prems(3)])
      moreover have "P (Suc l) y"
        using Cons.prems search_pos_right [OF chains Cons.prems(1) nx True] True
        by (intro Cons.IH [of y "xs @ [y]"]) auto
      ultimately show ?thesis
        using right Cons.prems(1,2) nx True by blast
    next
      case False
      with Cons.prems nx show ?thesis
        by (intro go_down) auto
    qed
  qed
qed

section \<open>The searches return, and find the position\<close>

text \<open>The predecessors that a search from level \<open>l\<close> stores into \<open>prev\<close>.\<close>

definition fill_prev :: "(nat \<Rightarrow> nat) \<Rightarrow> nat \<Rightarrow> nat option list \<Rightarrow> nat option list" where
  "fill_prev p l prev = map (\<lambda>i. if i \<le> l then Some (p i) else prev ! i) [0..<length prev]"

lemma fill_prev_0: "fill_prev p 0 prev = prev[0 := Some (p 0)]"
  by (rule nth_equalityI) (auto simp: fill_prev_def nth_list_update)

lemma fill_prev_Suc: "fill_prev p l (prev[Suc l := Some (p (Suc l))]) = fill_prev p (Suc l) prev"
  by (rule nth_equalityI) (auto simp: fill_prev_def nth_list_update le_Suc_eq)

lemma fill_prev_Nil [simp]: "fill_prev p l [] = []"
  by (simp add: fill_prev_def)

lemma skip_invD:
  assumes "skip_inv cmp dm s ids"
  shows "set ids = {1..<length (nodes s)}" "nodes s \<noteq> []" "height_of (nodes s) 0 = kMaxHeight"
    "1 \<le> max_height s" "max_height s \<le> kMaxHeight"
    "n \<in> set ids \<Longrightarrow> dm (node_key (nodes s) n)"
    "n \<in> set ids \<Longrightarrow> 1 \<le> height_of (nodes s) n" "n \<in> set ids \<Longrightarrow> height_of (nodes s) n \<le> max_height s"
    "sorted_wrt (\<lambda>a b. cmp (node_key (nodes s) a) (node_key (nodes s) b) < 0) ids"
    "l < kMaxHeight \<Longrightarrow> chain (nodes s) l 0 (on_level (nodes s) ids l)"
  using assms by (auto simp: skip_inv_def)

lemma on_level_0:
  assumes "skip_inv cmp dm s ids"
  shows "on_level (nodes s) ids 0 = ids"
proof -
  have "0 < height_of (nodes s) n" if "n \<in> set ids" for n
    using skip_invD(7) [OF assms that] by simp
  then show ?thesis
    by (simp add: on_level_def filter_id_conv)
qed

lemma search_pos_head: "search_pos ns ids Q l 0"
  unfolding search_pos_def by (intro exI [of _ "[]"] exI [of _ "on_level ns ids l"]) auto

context key_order
begin

abbreviation before :: "'k SkipList \<Rightarrow> 'k \<Rightarrow> nat \<Rightarrow> bool" where
  "before s key n \<equiv> cmp (node_key (nodes s) n) key < 0"

lemma before_closed:
  assumes "skip_inv cmp dm s ids" "dm key" "a \<in> set ids" "b \<in> set ids"
    "cmp (node_key (nodes s) a) (node_key (nodes s) b) < 0" "before s key b"
  shows "before s key a"
  using key_less_trans [of "node_key (nodes s) a" "node_key (nodes s) b" key] skip_invD(6) [OF assms(1)] assms by blast

lemma FindGreaterOrEqual_right:
  "Node_Next ns x l = Some y \<Longrightarrow> cmp (node_key ns y) key < 0 \<Longrightarrow>
    FindGreaterOrEqualLoop cmp ns key x l prev = FindGreaterOrEqualLoop cmp ns key y l prev"
  by (simp add: FindGreaterOrEqualLoop.simps [of cmp ns key x] KeyIsAfterNode_def)

lemma FindGreaterOrEqual_down:
  "\<not> KeyIsAfterNode cmp ns key (Node_Next ns x (Suc l)) \<Longrightarrow>
    FindGreaterOrEqualLoop cmp ns key x (Suc l) prev = FindGreaterOrEqualLoop cmp ns key x l (prev[Suc l := Some x])"
  by (simp add: FindGreaterOrEqualLoop.simps [of cmp ns key x "Suc l"] Let_def)

lemma FindGreaterOrEqual_stop:
  "\<not> KeyIsAfterNode cmp ns key (Node_Next ns x 0) \<Longrightarrow>
    FindGreaterOrEqualLoop cmp ns key x 0 prev = Some (Node_Next ns x 0, prev[0 := Some x])"
  by (simp add: FindGreaterOrEqualLoop.simps [of cmp ns key x 0] Let_def)

lemma FindGreaterOrEqual_spec:
  assumes inv: "skip_inv cmp dm s ids" and key: "dm key"
  shows "FindGreaterOrEqual cmp s key prev =
           Some (find (\<lambda>n. \<not> before s key n) ids,
                 fill_prev (pred_at (nodes s) ids (before s key)) (max_height s - 1) prev)"
proof -
  let ?p = "pred_at (nodes s) ids (before s key)"
  let ?R = "\<lambda>a b. cmp (node_key (nodes s) a) (node_key (nodes s) b) < 0"
  have chains: "\<And>l. l < kMaxHeight \<Longrightarrow> chain (nodes s) l 0 (on_level (nodes s) ids l)"
    by (rule skip_invD(10) [OF inv])
  have "max_height s - 1 < kMaxHeight"
    using skip_invD(4,5) [OF inv] by simp
  have "\<forall>prev. FindGreaterOrEqualLoop cmp (nodes s) key 0 (max_height s - 1) prev =
          Some (find (\<lambda>n. \<not> before s key n) ids, fill_prev ?p (max_height s - 1) prev)"
  proof (rule search_induct [where P = "\<lambda>l x. \<forall>prev. FindGreaterOrEqualLoop cmp (nodes s) key x l prev =
          Some (find (\<lambda>n. \<not> before s key n) ids, fill_prev ?p l prev)",
      where R = ?R and ns = "nodes s" and ids = ids and Q = "before s key", OF search_pos_head \<open>max_height s - 1 < kMaxHeight\<close>], goal_cases)
    case (1 l)
    then show ?case by (rule chains)
  next
    case 2
    show ?case by (rule skip_invD(9) [OF inv])
  next
    case (3 a b)
    then show ?case by (rule before_closed [OF inv key])
  next
    case (4 l x y)
    then show ?case
      by (simp add: FindGreaterOrEqual_right)
  next
    case (5 l x)
    have "\<not> KeyIsAfterNode cmp (nodes s) key (Node_Next (nodes s) x (Suc l))"
      using 5(3) by (simp add: KeyIsAfterNode_def split: option.splits)
    from FindGreaterOrEqual_down [of "nodes s" key x l, OF this] 5(4) show ?case
      by (simp only: 5(2) fill_prev_Suc) blast
  next
    case (6 x)
    have "\<not> KeyIsAfterNode cmp (nodes s) key (Node_Next (nodes s) x 0)"
      using 6(2) by (simp add: KeyIsAfterNode_def split: option.splits)
    from FindGreaterOrEqual_stop [of "nodes s" key x, OF this] show ?case
      by (simp only: 6(3) on_level_0 [OF inv] fill_prev_0) (simp add: 6(1))
  qed
  then show ?thesis
    by (simp add: FindGreaterOrEqual_def)
qed

lemma FindLessThan_spec:
  assumes inv: "skip_inv cmp dm s ids" and key: "dm key"
  shows "FindLessThan cmp s key = Some (last (0 # filter (before s key) ids))"
proof -
  let ?R = "\<lambda>a b. cmp (node_key (nodes s) a) (node_key (nodes s) b) < 0"
  have chains: "\<And>l. l < kMaxHeight \<Longrightarrow> chain (nodes s) l 0 (on_level (nodes s) ids l)"
    by (rule skip_invD(10) [OF inv])
  have "max_height s - 1 < kMaxHeight"
    using skip_invD(4,5) [OF inv] by simp
  have "FindLessThanLoop cmp (nodes s) key 0 (max_height s - 1) = Some (pred_at (nodes s) ids (before s key) 0)"
  proof (rule search_induct [where P = "\<lambda>l x. FindLessThanLoop cmp (nodes s) key x l = Some (pred_at (nodes s) ids (before s key) 0)",
      where R = ?R and ns = "nodes s" and ids = ids and Q = "before s key", OF search_pos_head \<open>max_height s - 1 < kMaxHeight\<close>], goal_cases)
    case (1 l)
    then show ?case by (rule chains)
  next
    case 2
    show ?case by (rule skip_invD(9) [OF inv])
  next
    case (3 a b)
    then show ?case by (rule before_closed [OF inv key])
  next
    case (4 l x y)
    then show ?case
      by (subst FindLessThanLoop.simps) simp
  next
    case (5 l x)
    then show ?case
      by (subst FindLessThanLoop.simps) (auto simp: Let_def not_less)
  next
    case (6 x)
    then show ?case
      by (subst FindLessThanLoop.simps) (auto simp: Let_def not_less)
  qed
  then show ?thesis
    by (simp add: FindLessThan_def pred_at_def on_level_0 [OF inv])
qed

lemma FindLast_spec:
  assumes inv: "skip_inv cmp dm s ids"
  shows "FindLast s = Some (last (0 # ids))"
proof -
  let ?R = "\<lambda>a b. cmp (node_key (nodes s) a) (node_key (nodes s) b) < 0"
  have chains: "\<And>l. l < kMaxHeight \<Longrightarrow> chain (nodes s) l 0 (on_level (nodes s) ids l)"
    by (rule skip_invD(10) [OF inv])
  have "max_height s - 1 < kMaxHeight"
    using skip_invD(4,5) [OF inv] by simp
  have "FindLastLoop (nodes s) 0 (max_height s - 1) = Some (pred_at (nodes s) ids (\<lambda>_. True) 0)"
  proof (rule search_induct [where P = "\<lambda>l x. FindLastLoop (nodes s) x l = Some (pred_at (nodes s) ids (\<lambda>_. True) 0)",
      where R = ?R and ns = "nodes s" and ids = ids and Q = "\<lambda>_. True", OF search_pos_head \<open>max_height s - 1 < kMaxHeight\<close>], goal_cases)
    case (1 l)
    then show ?case by (rule chains)
  next
    case 2
    show ?case by (rule skip_invD(9) [OF inv])
  next
    case (3 a b)
    then show ?case by simp
  next
    case (4 l x y)
    then show ?case
      by (subst FindLastLoop.simps) simp
  next
    case (5 l x)
    then show ?case
      by (subst FindLastLoop.simps) (auto simp: Let_def)
  next
    case (6 x)
    then show ?case
      by (subst FindLastLoop.simps) (auto simp: Let_def)
  qed
  then show ?thesis
    by (simp add: FindLast_def pred_at_def on_level_0 [OF inv])
qed

end

section \<open>Pointer updates\<close>

lemma SetNext_simps [simp]:
  "length (Node_SetNext ns x n v) = length ns"
  "height_of (Node_SetNext ns x n v) y = height_of ns y"
  "node_key (Node_SetNext ns x n v) y = node_key ns y"
proof -
  show "length (Node_SetNext ns x n v) = length ns"
    by (simp add: Node_SetNext_def)
  have "Node_SetNext ns x n v ! y =
      (if y = x \<and> x < length ns then (ns ! x)\<lparr> nd_next := (nd_next (ns ! x))[n := v] \<rparr> else ns ! y)"
    by (cases "x < length ns") (simp_all add: Node_SetNext_def nth_list_update list_update_beyond)
  then show "height_of (Node_SetNext ns x n v) y = height_of ns y" "node_key (Node_SetNext ns x n v) y = node_key ns y"
    by (simp_all add: height_of_def node_key_def)
qed

lemma Node_Next_SetNext:
  "x < length ns \<Longrightarrow> n < height_of ns x \<Longrightarrow>
    Node_Next (Node_SetNext ns x n v) y m = (if y = x \<and> m = n then v else Node_Next ns y m)"
  by (auto simp: Node_SetNext_def Node_Next_def height_of_def nth_list_update)

lemma Link_simps [simp]:
  "length (Link x prev i ns) = length ns" "height_of (Link x prev i ns) y = height_of ns y"
  "node_key (Link x prev i ns) y = node_key ns y"
  by (simp_all add: Link_def Let_def)

lemma Link_fold_simps [simp]:
  "length (fold (Link x prev) is ns) = length ns" "height_of (fold (Link x prev) is ns) y = height_of ns y"
  "node_key (fold (Link x prev) is ns) y = node_key ns y"
  by (induction "is" arbitrary: ns) simp_all

lemma Node_Next_Link:
  assumes "x < length ns" "i < height_of ns x" "prev ! i = Some p" "p < length ns" "i < height_of ns p" "p \<noteq> x"
  shows "Node_Next (Link x prev i ns) y l =
           (if l = i \<and> y = x then Node_Next ns p i else if l = i \<and> y = p then Some x else Node_Next ns y l)"
  using assms by (auto simp: Link_def Let_def Node_Next_SetNext)

lemma Node_Next_Link_fold:
  assumes "x < length ns" "h \<le> height_of ns x"
    and "\<And>i. i < h \<Longrightarrow> prev ! i = Some (p i) \<and> p i < length ns \<and> i < height_of ns (p i) \<and> p i \<noteq> x"
  shows "Node_Next (fold (Link x prev) [0..<h] ns) y l =
           (if l < h \<and> y = x then Node_Next ns (p l) l else if l < h \<and> y = p l then Some x else Node_Next ns y l)"
  using assms
proof (induction h arbitrary: y l)
  case (Suc h)
  have IH: "Node_Next (fold (Link x prev) [0..<h] ns) y l =
      (if l < h \<and> y = x then Node_Next ns (p l) l else if l < h \<and> y = p l then Some x else Node_Next ns y l)" for y l
    using Suc.prems by (intro Suc.IH) auto
  have "Node_Next (Link x prev h (fold (Link x prev) [0..<h] ns)) y l =
      (if l = h \<and> y = x then Node_Next (fold (Link x prev) [0..<h] ns) (p h) h
       else if l = h \<and> y = p h then Some x else Node_Next (fold (Link x prev) [0..<h] ns) y l)"
    using Suc.prems by (intro Node_Next_Link) auto
  moreover have "p h \<noteq> x"
    using Suc.prems(3) by simp
  ultimately show ?case
    by (simp add: IH less_Suc_eq)
qed simp

lemma chain_cong:
  "(\<And>y. y \<in> set (a # ys) \<Longrightarrow> Node_Next ns' y l = Node_Next ns y l) \<Longrightarrow> chain ns' l a ys \<longleftrightarrow> chain ns l a ys"
  by (induction ys arbitrary: a) auto

lemma chain_insert:
  assumes "chain ns l a (xs @ ys)" "distinct (a # xs @ ys)" "x \<notin> set (a # xs @ ys)"
    and "\<And>y. Node_Next ns' y l = (if y = x then Node_Next ns p l else if y = p then Some x else Node_Next ns y l)"
    and "p = last (a # xs)"
  shows "chain ns' l a (xs @ x # ys)"
  using assms(1,2,3,5)
proof (induction xs arbitrary: a)
  case Nil
  have "chain ns' l b zs" if "ys = b # zs" for b zs
  proof (rule chain_cong [THEN iffD2])
    show "chain ns l b zs"
      using Nil that by simp
    show "Node_Next ns' y l = Node_Next ns y l" if "y \<in> set (b # zs)" for y
      using Nil that \<open>ys = b # zs\<close> by (auto simp: assms(4))
  qed
  with Nil have "chain ns' l x ys"
    by (cases ys) (auto simp: assms(4))
  with Nil show ?case
    by (auto simp: assms(4))
next
  case (Cons z xs)
  then have "p \<noteq> a" "x \<noteq> a"
    by (auto split: if_splits)
  with Cons show ?case
    by (auto simp: assms(4))
qed

lemma RandomHeightLoop_bounds:
  "RandomHeightLoop h seed = (h', seed') \<Longrightarrow> h \<le> kMaxHeight \<Longrightarrow> h \<le> h' \<and> h' \<le> kMaxHeight"
proof (induction h seed rule: RandomHeightLoop.induct)
  case (1 h seed)
  then show ?case
    by (auto simp: RandomHeightLoop.simps [of h seed] split: if_splits prod.splits)
      (metis Suc_leI Suc_leD not_less_eq_eq)+
qed

lemma RandomHeight_bounds:
  assumes "RandomHeight s = (h, s')"
  shows "1 \<le> h" "h \<le> kMaxHeight" "s' = s\<lparr> rnd := rnd s' \<rparr>"
  using assms RandomHeightLoop_bounds [of 1 "rnd s" h]
  by (auto simp: RandomHeight_def Let_def kMaxHeight_def split: prod.splits)

section \<open>Insertion\<close>

lemma sorted_wrt_irrefl_distinct:
  "sorted_wrt R xs \<Longrightarrow> (\<And>x. x \<in> set xs \<Longrightarrow> \<not> R x x) \<Longrightarrow> distinct xs"
  by (induction xs) auto

lemma filter_split_sorted:
  assumes "sorted_wrt R ids" "\<And>a b. a \<in> set ids \<Longrightarrow> b \<in> set ids \<Longrightarrow> R a b \<Longrightarrow> Q b \<Longrightarrow> Q a"
  shows "ids = filter Q ids @ filter (\<lambda>n. \<not> Q n) ids"
  using assms
proof (induction ids)
  case (Cons a ids)
  show ?case
  proof (cases "Q a")
    case True
    with Cons show ?thesis by auto
  next
    case False
    with Cons.prems have "\<forall>b \<in> set ids. \<not> Q b"
      by auto
    with False show ?thesis
      by (simp add: filter_empty_conv filter_id_conv)
  qed
qed simp

text \<open>The array of predecessors as \<open>Insert\<close> completes it.\<close>

lemma prev_complete:
  assumes "i < h" "h \<le> kMaxHeight" "1 \<le> m" "m \<le> kMaxHeight" "\<And>l. m \<le> l \<Longrightarrow> p l = 0"
  shows "fold (\<lambda>i q. q[i := Some 0]) [m..<h] (fill_prev p (m - 1) (replicate kMaxHeight None)) ! i = Some (p i)"
proof -
  have *: "length (fold (\<lambda>i q. q[i := Some 0]) [m..<h] q) = length q \<and>
      (\<forall>i < length q. fold (\<lambda>i q. q[i := Some 0]) [m..<h] q ! i = (if m \<le> i \<and> i < h then Some 0 else q ! i))"
    if "h \<le> length q" for q :: "nat option list"
    using that by (induction h) (auto simp: nth_list_update less_Suc_eq)
  have "length (fill_prev p (m - 1) (replicate kMaxHeight None)) = kMaxHeight"
    by (simp add: fill_prev_def)
  moreover have "fill_prev p (m - 1) (replicate kMaxHeight None) ! i = Some (p i)" if "i < m"
    using that assms by (simp add: fill_prev_def)
  ultimately show ?thesis
    using * [of "fill_prev p (m - 1) (replicate kMaxHeight None)"] assms by auto
qed

lemma NewNode_eq:
  "NewNode fresh key h s = (x, s') \<Longrightarrow>
     x = length (nodes s) \<and> nodes s' = nodes s @ [\<lparr> nd_key = key, nd_next = replicate h None \<rparr>] \<and>
     max_height s' = max_height s \<and> rnd s' = rnd s \<and>
     arena s' = snd (AllocateAligned fresh (sizeof_Node + 8 * (h - 1)) (arena s))"
  by (auto simp: NewNode_def split: prod.splits)

lemma append_node_simps:
  "y < length ns \<Longrightarrow> Node_Next (ns @ [n]) y l = Node_Next ns y l"
  "y < length ns \<Longrightarrow> height_of (ns @ [n]) y = height_of ns y"
  "y < length ns \<Longrightarrow> node_key (ns @ [n]) y = node_key ns y"
  "height_of (ns @ [n]) (length ns) = length (nd_next n)"
  "node_key (ns @ [n]) (length ns) = nd_key n"
  by (simp_all add: Node_Next_def height_of_def node_key_def nth_append)

text \<open>What \<open>Insert\<close> does to the node store, once the search has returned.\<close>

lemma Insert_unfold:
  assumes "FindGreaterOrEqual cmp s key (replicate kMaxHeight None) =
             Some (nxt, fill_prev p (max_height s - 1) (replicate kMaxHeight None))"
    and "1 \<le> max_height s" "max_height s \<le> kMaxHeight" "\<And>l. max_height s \<le> l \<Longrightarrow> p l = 0"
  shows "\<exists>h s' prev. Insert cmp fresh key s = Some s' \<and> 1 \<le> h \<and> h \<le> kMaxHeight \<and>
           max_height s' = max h (max_height s) \<and>
           (\<forall>i < h. prev ! i = Some (p i)) \<and>
           arena s' = snd (AllocateAligned fresh (sizeof_Node + 8 * (h - 1)) (arena s)) \<and>
           nodes s' = fold (Link (length (nodes s)) prev) [0..<h]
                        (nodes s @ [\<lparr> nd_key = key, nd_next = replicate h None \<rparr>])"
proof -
  let ?prev = "fill_prev p (max_height s - 1) (replicate kMaxHeight None)"
  obtain h s1 where h: "RandomHeight s = (h, s1)"
    by fastforce
  note hb = RandomHeight_bounds [OF h]
  define prev where "prev = fold (\<lambda>i q. q[i := Some 0]) [max_height s..<h] ?prev"
  define s2 where "s2 = s1\<lparr> max_height := max h (max_height s) \<rparr>"
  obtain x s3 where n: "NewNode fresh key h s2 = (x, s3)"
    by fastforce
  note ne = NewNode_eq [OF n]
  have m1: "max_height s1 = max_height s" "nodes s1 = nodes s" "arena s1 = arena s"
    using hb(3) by (metis SkipList.select_convs SkipList.surjective SkipList.update_convs(3))+
  have "Insert cmp fresh key s = Some (s3\<lparr> nodes := fold (Link x prev) [0..<h] (nodes s3) \<rparr>)"
  proof (cases "max_height s < h")
    case True
    with n show ?thesis
      by (simp add: Insert_def assms(1) h m1 prev_def s2_def Let_def)
  next
    case False
    then have "s2 = s1"
      using m1(1) by (simp add: s2_def max_def)
    with n False show ?thesis
      by (simp add: Insert_def assms(1) h m1 prev_def Let_def)
  qed
  moreover have "\<forall>i < h. prev ! i = Some (p i)"
    unfolding prev_def using prev_complete [of _ h "max_height s" p] hb assms by blast
  ultimately show ?thesis
    using hb ne m1 by (auto simp: s2_def)
qed

text \<open>The list of a new object is empty.\<close>

lemma clear_head:
  "fold (\<lambda>i ns. Node_SetNext ns x i None) is ns ! x = (ns ! x)\<lparr> nd_next := replicate n None \<rparr> \<and>
   length (fold (\<lambda>i ns. Node_SetNext ns x i None) is ns) = length ns"
  if "nd_next (ns ! x) = replicate n None" "x < length ns" for x :: nat and ns :: "'a Node list"
  using that
proof (induction "is" arbitrary: ns)
  case Nil
  then show ?case
    by (cases "ns ! x") simp
next
  case (Cons i "is")
  have "(replicate n None)[i := None] = (replicate n None :: nat option list)"
    by (metis list_update_beyond list_update_id not_le nth_replicate length_replicate)
  with Cons show ?case
    by (simp add: Node_SetNext_def)
qed

lemma SkipList_new_inv: "skip_inv cmp dm (SkipList_new fresh d a) []"
proof -
  let ?s = "\<lparr> nodes = [], max_height = 1, rnd = RandomInit 0xdeadbeef, arena = a \<rparr>"
  obtain x s' where n: "NewNode fresh d kMaxHeight ?s = (x, s')"
    by fastforce
  note ne = NewNode_eq [OF n]
  have "SkipList_new fresh d a = s'\<lparr> nodes := fold (\<lambda>i ns. Node_SetNext ns x i None) [0..<kMaxHeight] (nodes s') \<rparr>"
    unfolding SkipList_new_def Let_def n by simp
  note new = this
  let ?ns = "nodes (SkipList_new fresh d a)"
  have "?ns ! 0 = \<lparr> nd_key = d, nd_next = replicate kMaxHeight None \<rparr> \<and> length ?ns = 1 \<and> max_height (SkipList_new fresh d a) = 1"
    using clear_head [of "nodes s'" 0 kMaxHeight "[0..<kMaxHeight]"] ne
    by (simp add: new)
  then show ?thesis
    by (auto simp: skip_inv_def height_of_def Node_Next_def on_level_def kMaxHeight_def)
qed

context key_order
begin

text \<open>
  \<open>Insert\<close> returns, keeps the list well-formed, and puts the new node where the order of the
  keys places it.
\<close>

lemma Insert_spec:
  assumes inv: "skip_inv cmp dm s ids" and key: "dm key"
    and fresh_key: "\<forall>n \<in> set ids. cmp (node_key (nodes s) n) key \<noteq> 0"
  shows "\<exists>s' h. Insert cmp fresh key s = Some s' \<and>
           skip_inv cmp dm s' (filter (before s key) ids @ length (nodes s) # filter (\<lambda>n. \<not> before s key n) ids) \<and>
           keys_of s' (filter (before s key) ids @ length (nodes s) # filter (\<lambda>n. \<not> before s key n) ids) =
             filter (\<lambda>k. cmp k key < 0) (keys_of s ids) @ key # filter (\<lambda>k. \<not> cmp k key < 0) (keys_of s ids) \<and>
           1 \<le> h \<and> h \<le> kMaxHeight \<and>
           arena s' = snd (AllocateAligned fresh (sizeof_Node + 8 * (h - 1)) (arena s))"
proof -
  let ?ns = "nodes s" and ?Q = "before s key" and ?x = "length (nodes s)"
  let ?p = "pred_at ?ns ids ?Q"
  let ?A = "filter ?Q ids" and ?B = "filter (\<lambda>n. \<not> ?Q n) ids"
  note D = skip_invD [OF inv]
  have top: "on_level ?ns ids l = []" if "max_height s \<le> l" for l
  proof -
    have "\<not> l < height_of ?ns n" if "n \<in> set ids" for n
      using D(8) [OF that] \<open>max_height s \<le> l\<close> by simp
    then show ?thesis
      by (simp add: on_level_def filter_empty_conv)
  qed
  have "?p l = 0" if "max_height s \<le> l" for l
    using top [OF that] by (simp add: pred_at_def)
  then obtain h s' prev where s': "Insert cmp fresh key s = Some s'" "1 \<le> h" "h \<le> kMaxHeight"
      "max_height s' = max h (max_height s)" "\<forall>i < h. prev ! i = Some (?p i)"
      "arena s' = snd (AllocateAligned fresh (sizeof_Node + 8 * (h - 1)) (arena s))"
      "nodes s' = fold (Link ?x prev) [0..<h] (?ns @ [\<lparr> nd_key = key, nd_next = replicate h None \<rparr>])"
    using Insert_unfold [OF FindGreaterOrEqual_spec [OF inv key] D(4,5)] by metis
  let ?ns1 = "?ns @ [\<lparr> nd_key = key, nd_next = replicate h None \<rparr>]"
  have split: "ids = ?A @ ?B"
    by (rule filter_split_sorted [OF D(9) before_closed [OF inv key]])
  have idlt: "n < ?x" "0 < n" if "n \<in> set ids" for n
    using that D(1) by auto
  have len: "0 < ?x"
    using D(2) by simp
  have hx: "height_of (nodes s') ?x = h" "node_key (nodes s') ?x = key"
    unfolding s'(7) by (simp_all add: append_node_simps)
  have old: "height_of (nodes s') y = height_of ?ns y" "node_key (nodes s') y = node_key ?ns y" if "y < ?x" for y
    using that unfolding s'(7) by (simp_all add: append_node_simps)
  have pl: "?p l < ?x" "l < height_of ?ns (?p l)" if "l < kMaxHeight" for l
  proof -
    have "?p l = 0 \<or> ?p l \<in> set (filter ?Q (on_level ?ns ids l))"
      unfolding pred_at_def by (metis last.simps last_in_set)
    then show "?p l < ?x" "l < height_of ?ns (?p l)"
      using len idlt(1) D(3) that by (auto simp: on_level_def)
  qed
  have nxt: "Node_Next (nodes s') y l =
      (if l < h \<and> y = ?x then Node_Next ?ns1 (?p l) l else if l < h \<and> y = ?p l then Some ?x else Node_Next ?ns1 y l)" for y l
    unfolding s'(7)
  proof (rule Node_Next_Link_fold)
    fix i assume "i < h"
    then have "i < kMaxHeight"
      using s'(3) by simp
    with pl [OF this] s'(5) \<open>i < h\<close>
    show "prev ! i = Some (?p i) \<and> ?p i < length ?ns1 \<and> i < height_of ?ns1 (?p i) \<and> ?p i \<noteq> ?x"
      by (auto simp: append_node_simps)
  qed (simp_all add: append_node_simps)
  have lev: "on_level (nodes s') (?A @ ?x # ?B) l =
      filter ?Q (on_level ?ns ids l) @ (if l < h then [?x] else []) @ filter (\<lambda>n. \<not> ?Q n) (on_level ?ns ids l)" for l
  proof -
    have "filter (\<lambda>n. l < height_of (nodes s') n) xs = filter (\<lambda>n. l < height_of ?ns n) xs" if "set xs \<subseteq> set ids" for xs
      using that idlt(1) old(1) by (intro filter_cong) auto
    from this [of ?A] this [of ?B] show ?thesis
      by (simp add: on_level_def hx filter_filter conj_commute)
  qed
  have lsplit: "on_level ?ns ids l = filter ?Q (on_level ?ns ids l) @ filter (\<lambda>n. \<not> ?Q n) (on_level ?ns ids l)" for l
    by (subst split) (simp add: on_level_def filter_filter conj_commute)
  have dist: "distinct ids"
    by (rule sorted_wrt_irrefl_distinct [OF D(9)]) (simp add: key_refl D(6))
  have chains: "chain (nodes s') l 0 (on_level (nodes s') (?A @ ?x # ?B) l)" if "l < kMaxHeight" for l
  proof -
    let ?xs = "filter ?Q (on_level ?ns ids l)" and ?ys = "filter (\<lambda>n. \<not> ?Q n) (on_level ?ns ids l)"
    have sub: "n < ?x \<and> 0 < n" if "n \<in> set (?xs @ ?ys)" for n
      using that idlt by (auto simp: on_level_def)
    have "chain ?ns l 0 (?xs @ ?ys)"
      using D(10) [OF \<open>l < kMaxHeight\<close>] by (simp add: lsplit [symmetric])
    then have old_chain: "chain ?ns1 l 0 (?xs @ ?ys)"
      using sub len by (subst chain_cong) (auto simp: append_node_simps)
    have "distinct (?xs @ ?ys)"
      unfolding lsplit [symmetric] using dist by (simp add: on_level_def)
    then have d: "distinct (0 # ?xs @ ?ys)" "?x \<notin> set (0 # ?xs @ ?ys)"
      using sub len by fastforce+
    show ?thesis
    proof (cases "l < h")
      case True
      then have "chain (nodes s') l 0 (?xs @ ?x # ?ys)"
        using chain_insert [OF old_chain d, of "nodes s'" "?p l"] nxt by (simp add: pred_at_def)
      with True show ?thesis
        by (simp add: lev)
    next
      case False
      with old_chain show ?thesis
        unfolding lev using chain_cong [of 0 "?xs @ ?ys" "nodes s'" l ?ns1] by (simp add: nxt)
    qed
  qed
  have set': "set (?A @ ?x # ?B) = insert ?x (set ids)"
    by auto
  have nkey: "\<not> ?Q n \<Longrightarrow> n \<in> set ids \<Longrightarrow> cmp key (node_key ?ns n) < 0" for n
    using fresh_key D(6) [of n] key key_anti [of key "node_key ?ns n"] by force
  have srt: "sorted_wrt (\<lambda>a b. cmp (node_key (nodes s') a) (node_key (nodes s') b) < 0) (?A @ ?x # ?B)"
  proof -
    have "sorted_wrt (\<lambda>a b. cmp (node_key (nodes s') a) (node_key (nodes s') b) < 0) ids"
      using D(9) idlt(1) old(2) by (simp add: sorted_wrt_iff_nth_less)
    then have "sorted_wrt (\<lambda>a b. cmp (node_key (nodes s') a) (node_key (nodes s') b) < 0) (?A @ ?B)"
      using split by simp
    then show ?thesis
      using nkey idlt(1) old(2) by (auto simp: sorted_wrt_append hx)
  qed
  have "skip_inv cmp dm s' (?A @ ?x # ?B)"
    unfolding skip_inv_def
  proof (intro conjI)
    have "length (nodes s') = Suc ?x"
      unfolding s'(7) by simp
    then show "set (?A @ ?x # ?B) = {1..<length (nodes s')}" "nodes s' \<noteq> []"
      unfolding set' using D(1) len by (auto simp: Suc_le_eq)
    show "height_of (nodes s') 0 = kMaxHeight"
      using old(1) [OF len] D(3) by simp
    show "\<forall>n \<in> set (?A @ ?x # ?B). dm (node_key (nodes s') n) \<and> 1 \<le> height_of (nodes s') n \<and> height_of (nodes s') n \<le> max_height s'"
      unfolding set' using D(6,7,8) idlt(1) old key s'(2,4) hx by force
  qed (use srt chains s'(2,3,4) D(4,5) in auto)
  moreover have "keys_of s' (?A @ ?x # ?B) =
      filter (\<lambda>k. cmp k key < 0) (keys_of s ids) @ key # filter (\<lambda>k. \<not> cmp k key < 0) (keys_of s ids)"
  proof -
    have "map (node_key (nodes s')) xs = map (node_key ?ns) xs" if "set xs \<subseteq> set ids" for xs
      using that idlt(1) old(2) by (intro map_cong) auto
    from this [of ?A] this [of ?B] show ?thesis
      by (simp add: keys_of_def hx filter_map comp_def)
  qed
  ultimately show ?thesis
    using s'(1,2,3,6) by blast
qed

section \<open>Construction, membership and iteration\<close>

lemma Contains_spec:
  assumes inv: "skip_inv cmp dm s ids" and key: "dm key"
  shows "Contains cmp s key = Some (\<exists>k \<in> set (keys_of s ids). cmp key k = 0)"
proof -
  note D = skip_invD [OF inv]
  have eq: "(case find (\<lambda>n. \<not> before s key n) ids of None \<Rightarrow> False | Some y \<Rightarrow> cmp key (node_key (nodes s) y) = 0)
      \<longleftrightarrow> (\<exists>n \<in> set ids. cmp key (node_key (nodes s) n) = 0)"
    (is "?l \<longleftrightarrow> ?r")
  proof
    assume ?l
    then show ?r
      by (auto split: option.splits dest!: find_SomeD)
  next
    assume ?r
    then obtain n where n: "n \<in> set ids" "cmp key (node_key (nodes s) n) = 0"
      by blast
    then have nb: "\<not> before s key n"
      using key_anti [of "node_key (nodes s) n" key] D(6) key by simp
    then obtain y where y: "find (\<lambda>n. \<not> before s key n) ids = Some y"
      using n(1) by (cases "find (\<lambda>n. \<not> before s key n) ids") (auto simp: find_None_iff')
    have "y = n"
    proof (rule ccontr)
      assume "y \<noteq> n"
      have "\<not> before s key y" "y \<in> set ids"
        using find_SomeD [OF y] by auto
      have split: "ids = filter (before s key) ids @ filter (\<lambda>n. \<not> before s key n) ids"
        by (rule filter_split_sorted [OF D(9) before_closed [OF inv key]])
      have "find (\<lambda>n. \<not> before s key n) ids = Some (hd (filter (\<lambda>n. \<not> before s key n) ids))"
        using y by (induction ids) (auto split: if_splits)
      with y have "y = hd (filter (\<lambda>n. \<not> before s key n) ids)"
        by simp
      moreover have "n \<in> set (filter (\<lambda>n. \<not> before s key n) ids)"
        using n(1) nb by simp
      moreover have "sorted_wrt (\<lambda>a b. cmp (node_key (nodes s) a) (node_key (nodes s) b) < 0) (filter (\<lambda>n. \<not> before s key n) ids)"
        using D(9) by (simp add: sorted_wrt_filter)
      ultimately have lt: "cmp (node_key (nodes s) y) (node_key (nodes s) n) < 0"
        using \<open>y \<noteq> n\<close> by (cases "filter (\<lambda>n. \<not> before s key n) ids") auto
      have "cmp (node_key (nodes s) n) key \<le> 0"
        using n(2) nb key_anti [of key "node_key (nodes s) n"] D(6) [OF n(1)] key by simp
      then have "cmp (node_key (nodes s) y) key < 0"
        using lt key_less_le_trans [of "node_key (nodes s) y" "node_key (nodes s) n" key]
          D(6) [OF \<open>y \<in> set ids\<close>] D(6) [OF n(1)] key by blast
      with \<open>\<not> before s key y\<close> show False
        by blast
    qed
    with y n(2) show ?l
      by simp
  qed
  then show ?thesis
    by (simp add: Contains_def FindGreaterOrEqual_spec [OF inv key] keys_of_def)
qed

lemma Iter_Seek_spec:
  "skip_inv cmp dm s ids \<Longrightarrow> dm key \<Longrightarrow> Iter_Seek cmp s key = Some (find (\<lambda>n. \<not> before s key n) ids)"
  by (simp add: Iter_Seek_def FindGreaterOrEqual_spec)

lemma chain_nth: "chain ns l x ys \<Longrightarrow> i < length ys \<Longrightarrow>
    Node_Next ns (ys ! i) l = (if Suc i < length ys then Some (ys ! Suc i) else None)"
proof (induction ys arbitrary: x i)
  case (Cons y ys)
  then show ?case
    by (cases i; cases ys) auto
qed simp

lemma Iter_SeekToFirst_spec:
  assumes "skip_inv cmp dm s ids"
  shows "Iter_SeekToFirst s = (case ids of [] \<Rightarrow> None | n # _ \<Rightarrow> Some n)"
  using skip_invD(10) [OF assms, of 0] on_level_0 [OF assms]
  by (cases ids) (auto simp: Iter_SeekToFirst_def kMaxHeight_def)

lemma Iter_Next_spec:
  assumes "skip_inv cmp dm s ids" and "i < length ids"
  shows "Iter_Next s (Some (ids ! i)) = (if Suc i < length ids then Some (ids ! Suc i) else None)"
  using chain_nth [of "nodes s" 0 0 ids i] skip_invD(10) [OF assms(1), of 0] on_level_0 [OF assms(1)] assms(2)
  by (simp add: Iter_Next_def kMaxHeight_def)

lemma Iter_SeekToLast_spec:
  assumes "skip_inv cmp dm s ids"
  shows "Iter_SeekToLast s = Some (if ids = [] then None else Some (last ids))"
proof -
  have "last ids \<noteq> 0" if "ids \<noteq> []"
    using last_in_set [OF that] skip_invD(1) [OF assms] by auto
  then show ?thesis
    by (cases "ids = []") (simp_all add: Iter_SeekToLast_def FindLast_spec [OF assms] head_to_null_def)
qed

lemma Iter_Prev_spec:
  assumes inv: "skip_inv cmp dm s ids" and i: "i < length ids"
  shows "Iter_Prev cmp s (Some (ids ! i)) = Some (if i = 0 then None else Some (ids ! (i - 1)))"
proof -
  note D = skip_invD [OF inv]
  let ?k = "node_key (nodes s) (ids ! i)"
  have mem: "ids ! j \<in> set ids" if "j < length ids" for j
    using that by simp
  have less: "cmp (node_key (nodes s) (ids ! j)) (node_key (nodes s) (ids ! k)) < 0" if "j < k" "k < length ids" for j k
    using D(9) that by (simp add: sorted_wrt_iff_nth_less)
  have bef: "before s ?k (ids ! j) \<longleftrightarrow> j < i" if "j < length ids" for j
  proof (cases "j < i")
    case False
    have "0 < cmp (node_key (nodes s) (ids ! j)) ?k" if "i < j"
      using less [OF that \<open>j < length ids\<close>]
        key_anti [THEN iffD1, OF D(6) [OF mem [OF i]] D(6) [OF mem [OF \<open>j < length ids\<close>]]] by blast
    moreover have "cmp ?k ?k = 0"
      by (rule key_refl [OF D(6) [OF mem [OF i]]])
    ultimately have "\<not> before s ?k (ids ! j)"
      using False by (cases "i = j") (simp_all only: not_less, simp_all)
    with False show ?thesis
      by blast
  next
    case True
    then show ?thesis
      using less [OF True i] by simp
  qed
  have "filter (before s ?k) ids = take i ids"
  proof -
    have "filter (before s ?k) (take i ids) = take i ids"
    proof -
      have "before s ?k n" if "n \<in> set (take i ids)" for n
      proof -
        obtain j where "j < length (take i ids)" "n = take i ids ! j"
          using \<open>n \<in> set (take i ids)\<close> unfolding in_set_conv_nth by blast
        then have "n = ids ! j" "j < i" "j < length ids"
          by simp_all
        with less [OF \<open>j < i\<close> i] show ?thesis
          by blast
      qed
      then show ?thesis
        by (simp add: filter_id_conv)
    qed
    moreover have "filter (before s ?k) (drop i ids) = []"
    proof -
      have "\<not> before s ?k n" if "n \<in> set (drop i ids)" for n
      proof -
        obtain j where "j < length (drop i ids)" "n = drop i ids ! j"
          using \<open>n \<in> set (drop i ids)\<close> unfolding in_set_conv_nth by blast
        then have j: "n = ids ! (i + j)" "i + j < length ids"
          using i by (simp_all add: less_diff_conv add.commute)
        have "\<not> i + j < i"
          by simp
        with j bef [of "i + j"] show ?thesis
          by blast
      qed
      then show ?thesis
        by (simp add: filter_empty_conv)
    qed
    moreover have "filter (before s ?k) ids = filter (before s ?k) (take i ids) @ filter (before s ?k) (drop i ids)"
      by (simp only: filter_append [symmetric] append_take_drop_id)
    ultimately show ?thesis
      by simp
  qed
  then have "FindLessThan cmp s ?k = Some (last (0 # take i ids))"
    using FindLessThan_spec [OF inv D(6) [OF mem [OF i]]] by metis
  moreover have "last (0 # take i ids) = (if i = 0 then 0 else ids ! (i - 1))"
    using i by (cases "ids = []") (simp_all add: last_conv_nth)
  moreover have "ids ! (i - 1) \<noteq> 0"
  proof -
    have "ids ! (i - 1) \<in> {1..<length (nodes s)}"
      unfolding D(1) [symmetric] using i by (intro mem) simp
    then show ?thesis
      by simp
  qed
  ultimately show ?thesis
    by (cases "i = 0") (simp_all add: Iter_Prev_def Iter_key_def head_to_null_def)
qed

end

section \<open>A sequence of insertions\<close>

fun InsertAll :: "('k \<Rightarrow> 'k \<Rightarrow> int) \<Rightarrow> (region list \<Rightarrow> nat \<Rightarrow> nat) \<Rightarrow> 'k list \<Rightarrow> 'k SkipList \<Rightarrow> 'k SkipList option" where
  "InsertAll cmp fresh [] s = Some s"
| "InsertAll cmp fresh (k # ks) s = Option.bind (Insert cmp fresh k s) (InsertAll cmp fresh ks)"

context key_order
begin

lemma InsertAll_spec:
  assumes "skip_inv cmp dm s ids" "\<forall>k \<in> set ks. \<forall>x \<in> set (keys_of s ids). cmp x k \<noteq> 0"
    and "\<forall>k \<in> set ks. dm k" "sorted_wrt (\<lambda>a b. cmp a b \<noteq> 0) ks"
  shows "\<exists>s' ids'. InsertAll cmp fresh ks s = Some s' \<and> skip_inv cmp dm s' ids' \<and> set (keys_of s' ids') = set (keys_of s ids) \<union> set ks"
  using assms
proof (induction ks arbitrary: s ids)
  case (Cons k ks)
  obtain s1 ids1 where s1: "Insert cmp fresh k s = Some s1" "skip_inv cmp dm s1 ids1"
      "keys_of s1 ids1 = filter (\<lambda>x. cmp x k < 0) (keys_of s ids) @ k # filter (\<lambda>x. \<not> cmp x k < 0) (keys_of s ids)"
    using Insert_spec [OF Cons.prems(1), of k fresh] Cons.prems(2,3) by (auto simp: keys_of_def)
  have "set (keys_of s1 ids1) = insert k (set (keys_of s ids))" unfolding s1(3) by auto
  with Cons.IH [OF s1(2)] Cons.prems s1(1) show ?case by auto
qed auto

end

end
