(* ===== verification/Comparators.thy ===== *)
theory Comparators
  imports Coding "HOL-Library.List_Lexorder"
begin

text \<open>
  Slices and comparators (util/slice.cc, include/lindb/comparator.h, util/comparator.cc). The
  order of \<open>List_Lexorder\<close> on byte lists is the lexicographic order on unsigned bytes;
  \<open>Slice::compare\<close> is proved to decide it. A \<open>Comparator\<close> object is a record of its virtual
  functions; the locale \<open>comparator_laws\<close> is the contract that the sorted structures of the
  database rely on, on a domain of keys.
\<close>

section \<open>Slice::compare (util/slice.cc)\<close>

text \<open>The sign of the C library's \<open>memcmp\<close> on the first \<open>n\<close> bytes.\<close>

fun memcmp :: "nat \<Rightarrow> bytes \<Rightarrow> bytes \<Rightarrow> int" where
  "memcmp (Suc n) (x # xs) (y # ys) = (if x = y then memcmp n xs ys else if x < y then -1 else 1)"
| "memcmp n xs ys = 0"

definition Slice_compare :: "bytes \<Rightarrow> bytes \<Rightarrow> int" where
  "Slice_compare a b =
     (let min_len = (if length a < length b then length a else length b);
          result = memcmp min_len a b
      in if result = 0
         then if length a < length b then -1 else if length a > length b then 1 else result
         else result)"

definition Slice_eq :: "bytes \<Rightarrow> bytes \<Rightarrow> bool" where
  "Slice_eq a b \<longleftrightarrow> Slice_compare a b = 0"

fun lexcmp :: "bytes \<Rightarrow> bytes \<Rightarrow> int" where
  "lexcmp [] [] = 0"
| "lexcmp [] (y # ys) = -1"
| "lexcmp (x # xs) [] = 1"
| "lexcmp (x # xs) (y # ys) = (if x = y then lexcmp xs ys else if x < y then -1 else 1)"

lemma Slice_compare_lexcmp: "Slice_compare a b = lexcmp a b"
  by (induction a b rule: lexcmp.induct) (auto simp: Slice_compare_def Let_def)

lemma lexcmp_sign:
  "(lexcmp a b < 0 \<longleftrightarrow> a < b) \<and> (lexcmp a b = 0 \<longleftrightarrow> a = b) \<and> (0 < lexcmp a b \<longleftrightarrow> b < a)"
  by (induction a b rule: lexcmp.induct) auto

lemma Slice_compare_less [simp]: "Slice_compare a b < 0 \<longleftrightarrow> a < b"
  and Slice_compare_zero [simp]: "Slice_compare a b = 0 \<longleftrightarrow> a = b"
  and Slice_compare_greater [simp]: "0 < Slice_compare a b \<longleftrightarrow> b < a"
  using lexcmp_sign [of a b] by (simp_all add: Slice_compare_lexcmp)

lemma Slice_compare_le [simp]: "Slice_compare a b \<le> 0 \<longleftrightarrow> a \<le> b"
  and Slice_compare_ge [simp]: "0 \<le> Slice_compare a b \<longleftrightarrow> b \<le> a"
  by (metis Slice_compare_greater linorder_not_le) (metis Slice_compare_less linorder_not_le)

section \<open>Comparator objects\<close>

record comparator =
  Compare :: "bytes \<Rightarrow> bytes \<Rightarrow> int"
  Name :: bytes
  FindShortestSeparator :: "bytes \<Rightarrow> bytes \<Rightarrow> bytes"
  FindShortSuccessor :: "bytes \<Rightarrow> bytes"

locale comparator_laws =
  fixes c :: comparator and dm :: "bytes \<Rightarrow> bool"
  assumes cmp_refl: "dm a \<Longrightarrow> Compare c a a = 0"
    and cmp_anti: "dm a \<Longrightarrow> dm b \<Longrightarrow> Compare c a b < 0 \<longleftrightarrow> 0 < Compare c b a"
    and cmp_trans: "dm a \<Longrightarrow> dm b \<Longrightarrow> dm d \<Longrightarrow> Compare c a b \<le> 0 \<Longrightarrow> Compare c b d \<le> 0 \<Longrightarrow> Compare c a d \<le> 0"
    and sep_dom: "dm s \<Longrightarrow> dm l \<Longrightarrow> dm (FindShortestSeparator c s l)"
    and sep_ge: "dm s \<Longrightarrow> dm l \<Longrightarrow> Compare c s (FindShortestSeparator c s l) \<le> 0"
    and sep_less: "dm s \<Longrightarrow> dm l \<Longrightarrow> Compare c s l < 0 \<Longrightarrow> Compare c (FindShortestSeparator c s l) l < 0"
    and sep_noop: "dm s \<Longrightarrow> dm l \<Longrightarrow> \<not> Compare c s l < 0 \<Longrightarrow> Compare c s (FindShortestSeparator c s l) = 0"
    and succ_dom: "dm k \<Longrightarrow> dm (FindShortSuccessor c k)"
    and succ_ge: "dm k \<Longrightarrow> Compare c k (FindShortSuccessor c k) \<le> 0"
begin

lemma cmp_eq_sym: "dm a \<Longrightarrow> dm b \<Longrightarrow> Compare c a b = 0 \<Longrightarrow> Compare c b a = 0"
  using cmp_anti [of a b] cmp_anti [of b a] by simp

lemma cmp_not_less: "dm a \<Longrightarrow> dm b \<Longrightarrow> \<not> Compare c a b < 0 \<longleftrightarrow> Compare c b a \<le> 0"
  using cmp_anti [of a b] by linarith

lemma cmp_less_le_trans:
  assumes "dm a" "dm b" "dm d" "Compare c a b < 0" "Compare c b d \<le> 0"
  shows "Compare c a d < 0"
proof (rule ccontr)
  assume "\<not> Compare c a d < 0"
  with assms have "Compare c d a \<le> 0"
    by (simp add: cmp_not_less)
  with assms have "Compare c b a \<le> 0"
    by (blast intro: cmp_trans)
  with assms show False
    using cmp_anti [of a b] by simp
qed

lemma cmp_le_less_trans:
  assumes "dm a" "dm b" "dm d" "Compare c a b \<le> 0" "Compare c b d < 0"
  shows "Compare c a d < 0"
proof (rule ccontr)
  assume "\<not> Compare c a d < 0"
  with assms have "Compare c d a \<le> 0"
    by (simp add: cmp_not_less)
  with assms have "Compare c d b \<le> 0"
    by (blast intro: cmp_trans)
  with assms show False
    using cmp_anti [of b d] by simp
qed

lemma cmp_less_trans:
  "dm a \<Longrightarrow> dm b \<Longrightarrow> dm d \<Longrightarrow> Compare c a b < 0 \<Longrightarrow> Compare c b d < 0 \<Longrightarrow> Compare c a d < 0"
  by (rule cmp_less_le_trans [of a b d]) simp_all

end

text \<open>A comparator that accepts every byte string.\<close>

locale user_comparator = comparator_laws c "\<lambda>_. True" for c

section \<open>The bytewise comparator (util/comparator.cc)\<close>

text \<open>The number of leading bytes two strings share (the loop \<open>while (i < min && a[i] == b[i]) ++i\<close>).\<close>

fun shared_prefix :: "bytes \<Rightarrow> bytes \<Rightarrow> nat" where
  "shared_prefix (x # xs) (y # ys) = (if x = y then Suc (shared_prefix xs ys) else 0)"
| "shared_prefix xs ys = 0"

definition Bytewise_FindShortestSeparator :: "bytes \<Rightarrow> bytes \<Rightarrow> bytes" where
  "Bytewise_FindShortestSeparator start limit =
     (let min_length = min (length start) (length limit);
          diff_index = shared_prefix start limit
      in if diff_index \<ge> min_length then start
         else let start_byte = start ! diff_index; limit_byte = limit ! diff_index
              in if start_byte < 0xff \<and> unat start_byte + 1 < unat limit_byte
                 then take (diff_index + 1) (start[diff_index := start_byte + 1])
                 else start)"

fun Bytewise_FindShortSuccessor :: "bytes \<Rightarrow> bytes" where
  "Bytewise_FindShortSuccessor [] = []"
| "Bytewise_FindShortSuccessor (b # key) =
     (if b \<noteq> 0xff then [b + 1] else b # Bytewise_FindShortSuccessor key)"

definition BytewiseComparator :: comparator where
  "BytewiseComparator =
     \<lparr> Compare = Slice_compare,
       Name = lit ''lindb.BytewiseComparator'',
       FindShortestSeparator = Bytewise_FindShortestSeparator,
       FindShortSuccessor = Bytewise_FindShortSuccessor \<rparr>"

lemma Bytewise_simps [simp]:
  "Compare BytewiseComparator = Slice_compare"
  "FindShortestSeparator BytewiseComparator = Bytewise_FindShortestSeparator"
  "FindShortSuccessor BytewiseComparator = Bytewise_FindShortSuccessor"
  by (simp_all add: BytewiseComparator_def)

lemma shared_prefix_take: "take (shared_prefix a b) a = take (shared_prefix a b) b"
  by (induction a b rule: shared_prefix.induct) auto

lemma shared_prefix_le: "shared_prefix a b \<le> length a" "shared_prefix a b \<le> length b"
  by (induction a b rule: shared_prefix.induct) auto

lemma shared_prefix_diff:
  "shared_prefix a b < length a \<Longrightarrow> shared_prefix a b < length b \<Longrightarrow> a ! shared_prefix a b \<noteq> b ! shared_prefix a b"
  by (induction a b rule: shared_prefix.induct) auto

lemma byte_succ:
  fixes b :: byte
  assumes "b \<noteq> 255"
  shows "unat (b + 1) = unat b + 1"
proof -
  have "unat b \<noteq> 255"
    using assms word_unat_eq_iff [of b 255] by auto
  moreover have "unat b < 256"
    using unsigned_less [of b, where ?'a = nat] by simp
  ultimately show ?thesis
    by (simp add: unat_word_ariths)
qed

lemma byte_less_succ: "b \<noteq> 255 \<Longrightarrow> b < b + (1 :: byte)"
  using byte_succ [of b] by (simp add: word_less_nat_alt)

text \<open>
  \<open>start\<close>, \<open>limit\<close> and the separator agree up to the differing byte, where the separator lies
  strictly between them.
\<close>

lemma append_less_iff: "p @ x < p @ y \<longleftrightarrow> x < (y :: bytes)"
  by (induction p) auto

lemma Bytewise_sep_cases:
  "Bytewise_FindShortestSeparator s l = s \<or>
   (\<exists>p x s' y l'. s = p @ x # s' \<and> l = p @ y # l' \<and> x < x + 1 \<and> x + 1 < y \<and>
      Bytewise_FindShortestSeparator s l = p @ [x + 1])"
proof -
  let ?d = "shared_prefix s l"
  show ?thesis
  proof (cases "?d < length s \<and> ?d < length l \<and> s ! ?d < 0xff \<and> unat (s ! ?d) + 1 < unat (l ! ?d)")
    case True
    let ?p = "take ?d s"
    have s: "s = ?p @ s ! ?d # drop (Suc ?d) s"
      using True by (simp add: id_take_nth_drop [symmetric])
    have l: "l = ?p @ l ! ?d # drop (Suc ?d) l"
      using True by (subst shared_prefix_take) (simp add: id_take_nth_drop [symmetric])
    have ne: "s ! ?d \<noteq> 255"
      using True by auto
    have "s ! ?d + 1 < l ! ?d"
      using True byte_succ [OF ne] by (simp add: word_less_nat_alt)
    moreover have "Bytewise_FindShortestSeparator s l = ?p @ [s ! ?d + 1]"
      using True by (simp add: Bytewise_FindShortestSeparator_def Let_def take_Suc_conv_app_nth min_le_iff_disj)
    ultimately show ?thesis
      using s l byte_less_succ [OF ne] by blast
  qed (auto simp: Bytewise_FindShortestSeparator_def Let_def)
qed

lemma Bytewise_sep_ge: "s \<le> Bytewise_FindShortestSeparator s l"
  using Bytewise_sep_cases [of s l] by (auto simp: order.order_iff_strict append_less_iff)

lemma Bytewise_sep_less: "s < l \<Longrightarrow> Bytewise_FindShortestSeparator s l < l"
  using Bytewise_sep_cases [of s l] by (auto simp: append_less_iff)

lemma Bytewise_sep_noop: "\<not> s < l \<Longrightarrow> Bytewise_FindShortestSeparator s l = s"
  using Bytewise_sep_cases [of s l] by (auto simp: append_less_iff dest: less_trans)

lemma Bytewise_succ_ge: "k \<le> Bytewise_FindShortSuccessor k"
  by (induction k) (auto dest: byte_less_succ)

interpretation bytewise: user_comparator BytewiseComparator
  by unfold_locales
    (auto simp: Bytewise_sep_ge Bytewise_sep_less Bytewise_sep_noop Bytewise_succ_ge)

end
