(* ===== verification/DBFormat.thy ===== *)
theory DBFormat
  imports Comparators
begin

text \<open>
  Internal keys (db/dbformat.h, db/dbformat.cc): a user key followed by the 8-byte tag that
  packs a sequence number and a value type. The order on internal keys is a comparator built
  from the user's; \<open>user_comparator \<subseteq> ikey: comparator_laws\<close> derives its contract from the
  user comparator's, on keys of at least 8 bytes.
\<close>

type_synonym SequenceNumber = u64

datatype ValueType = kTypeDeletion | kTypeValue

fun type_byte :: "ValueType \<Rightarrow> byte" where
  "type_byte kTypeDeletion = 0"
| "type_byte kTypeValue = 1"

definition kValueTypeForSeek :: ValueType where
  "kValueTypeForSeek = kTypeValue"

definition kMaxSequenceNumber :: SequenceNumber where
  "kMaxSequenceNumber = push_bit 56 1 - 1"

record ParsedInternalKey =
  pk_user_key :: bytes
  pk_sequence :: SequenceNumber
  pk_type :: ValueType

text \<open>The source asserts \<open>seq \<le> kMaxSequenceNumber\<close>; without it the top byte is lost.\<close>

definition PackSequenceAndType :: "SequenceNumber \<Rightarrow> ValueType \<Rightarrow> u64" where
  "PackSequenceAndType seq type = push_bit 8 seq OR ucast (type_byte type)"

text \<open>The source asserts that the key has at least 8 bytes.\<close>

definition ExtractUserKey :: "bytes \<Rightarrow> bytes" where
  "ExtractUserKey internal_key = take (length internal_key - 8) internal_key"

definition InternalKeyEncodingLength :: "ParsedInternalKey \<Rightarrow> nat" where
  "InternalKeyEncodingLength key = length (pk_user_key key) + 8"

definition AppendInternalKey :: "bytes \<Rightarrow> ParsedInternalKey \<Rightarrow> bytes" where
  "AppendInternalKey result key =
     PutFixed64 (result @ pk_user_key key) (PackSequenceAndType (pk_sequence key) (pk_type key))"

definition ParseInternalKey :: "bytes \<Rightarrow> ParsedInternalKey option" where
  "ParseInternalKey internal_key =
     (let n = length internal_key
      in if n < 8 then None
         else let num = DecodeFixed64 (drop (n - 8) internal_key);
                  type = ucast (num AND 0xff) :: byte
              in if type > type_byte kTypeValue then None
                 else Some \<lparr> pk_user_key = take (n - 8) internal_key,
                             pk_sequence = drop_bit 8 num,
                             pk_type = (if type = 0 then kTypeDeletion else kTypeValue) \<rparr>)"

section \<open>InternalKey\<close>

text \<open>An \<open>InternalKey\<close> is its \<open>rep_\<close> string; the default constructor leaves it empty.\<close>

type_synonym InternalKey = bytes

definition InternalKey_new :: "bytes \<Rightarrow> SequenceNumber \<Rightarrow> ValueType \<Rightarrow> InternalKey" where
  "InternalKey_new user_key seq type =
     AppendInternalKey [] \<lparr> pk_user_key = user_key, pk_sequence = seq, pk_type = type \<rparr>"

definition InternalKey_Encode :: "InternalKey \<Rightarrow> bytes" where
  "InternalKey_Encode rep = rep"

definition InternalKey_DecodeFrom :: "bytes \<Rightarrow> InternalKey \<times> bool" where
  "InternalKey_DecodeFrom encoded = (encoded, encoded \<noteq> [])"

definition InternalKey_user_key :: "InternalKey \<Rightarrow> bytes" where
  "InternalKey_user_key rep = ExtractUserKey (InternalKey_Encode rep)"

definition InternalKey_SetFrom :: "ParsedInternalKey \<Rightarrow> InternalKey" where
  "InternalKey_SetFrom key = AppendInternalKey [] key"

section \<open>InternalKeyComparator\<close>

text \<open>The 64-bit tag in the last 8 bytes.\<close>

definition tag_of :: "bytes \<Rightarrow> u64" where
  "tag_of k = DecodeFixed64 (drop (length k - 8) k)"

definition InternalKey_Compare :: "comparator \<Rightarrow> bytes \<Rightarrow> bytes \<Rightarrow> int" where
  "InternalKey_Compare c a b =
     (let result = Compare c (ExtractUserKey a) (ExtractUserKey b)
      in if result = 0
         then let a_num = DecodeFixed64 (drop (length a - 8) a);
                  b_num = DecodeFixed64 (drop (length b - 8) b)
              in if a_num > b_num then -1 else if a_num < b_num then 1 else result
         else result)"

definition InternalKey_FindShortestSeparator :: "comparator \<Rightarrow> bytes \<Rightarrow> bytes \<Rightarrow> bytes" where
  "InternalKey_FindShortestSeparator c start limit =
     (let user_start = ExtractUserKey start;
          user_limit = ExtractUserKey limit;
          tmp = FindShortestSeparator c user_start user_limit
      in if length tmp < length user_start \<and> Compare c user_start tmp < 0
         then PutFixed64 tmp (PackSequenceAndType kMaxSequenceNumber kValueTypeForSeek)
         else start)"

definition InternalKey_FindShortSuccessor :: "comparator \<Rightarrow> bytes \<Rightarrow> bytes" where
  "InternalKey_FindShortSuccessor c key =
     (let user_key = ExtractUserKey key;
          tmp = FindShortSuccessor c user_key
      in if length tmp < length user_key \<and> Compare c user_key tmp < 0
         then PutFixed64 tmp (PackSequenceAndType kMaxSequenceNumber kValueTypeForSeek)
         else key)"

definition InternalKeyComparator :: "comparator \<Rightarrow> comparator" where
  "InternalKeyComparator c =
     \<lparr> Compare = InternalKey_Compare c,
       Name = lit ''lindb.InternalKeyComparator'',
       FindShortestSeparator = InternalKey_FindShortestSeparator c,
       FindShortSuccessor = InternalKey_FindShortSuccessor c \<rparr>"

lemma InternalKeyComparator_simps [simp]:
  "Compare (InternalKeyComparator c) = InternalKey_Compare c"
  "FindShortestSeparator (InternalKeyComparator c) = InternalKey_FindShortestSeparator c"
  "FindShortSuccessor (InternalKeyComparator c) = InternalKey_FindShortSuccessor c"
  by (simp_all add: InternalKeyComparator_def)

section \<open>LookupKey\<close>

text \<open>
  \<open>lk_rep\<close> is the buffer from \<open>start_\<close> to \<open>end_\<close> and \<open>lk_kstart\<close> the offset of \<open>kstart_\<close> in it.
  The buffer holds \<open>usize + 13\<close> bytes.
\<close>

record LookupKey =
  lk_rep :: bytes
  lk_kstart :: nat

definition LookupKey_new :: "bytes \<Rightarrow> SequenceNumber \<Rightarrow> LookupKey" where
  "LookupKey_new user_key sequence =
     (let usize = length user_key;
          prefix = EncodeVarint32 (of_nat (usize + 8))
      in \<lparr> lk_rep = prefix @ user_key @ EncodeFixed64 (PackSequenceAndType sequence kValueTypeForSeek),
           lk_kstart = length prefix \<rparr>)"

definition LookupKey_memtable_key :: "LookupKey \<Rightarrow> bytes" where
  "LookupKey_memtable_key k = lk_rep k"

definition LookupKey_internal_key :: "LookupKey \<Rightarrow> bytes" where
  "LookupKey_internal_key k = drop (lk_kstart k) (lk_rep k)"

definition LookupKey_user_key :: "LookupKey \<Rightarrow> bytes" where
  "LookupKey_user_key k = take (length (lk_rep k) - lk_kstart k - 8) (drop (lk_kstart k) (lk_rep k))"

section \<open>Tags\<close>

lemma type_byte_simps [simp]: "type_byte t = 0 \<longleftrightarrow> t = kTypeDeletion" "type_byte t \<le> 1"
  "type_byte t = type_byte t' \<longleftrightarrow> t = t'"
  by (cases t; cases t'; simp)+

lemma bit_1_u64: "bit (1 :: u64) n \<longleftrightarrow> n = 0"
  by (simp add: bit_1_iff)

lemma bit_type_byte: "bit (type_byte t) n \<longleftrightarrow> t = kTypeValue \<and> n = 0"
  by (cases t) (auto simp: bit_simps)

lemma bit_255_int: "bit (255 :: int) n \<longleftrightarrow> n < 8"
proof -
  have "(255 :: int) = mask 8"
    by (simp add: mask_eq_exp_minus_1)
  then show ?thesis
    by (simp only: bit_mask_iff) simp
qed

lemma tag_low [simp]: "(ucast (PackSequenceAndType seq t AND 0xff) :: byte) = type_byte t"
  by (rule bit_word_eqI) (auto simp: PackSequenceAndType_def bit_simps bit_type_byte bit_255_int)

lemma tag_high [simp]:
  assumes "seq \<le> kMaxSequenceNumber"
  shows "drop_bit 8 (PackSequenceAndType seq t) = seq"
proof -
  have "seq = take_bit 56 seq"
  proof -
    have "unat seq < 2 ^ 56"
      using assms by (simp add: kMaxSequenceNumber_def word_le_nat_alt push_bit_eq_mult)
    then show ?thesis
      by (intro word_unat_eq_iff [THEN iffD2]) (simp add: unsigned_take_bit_eq take_bit_nat_eq_self)
  qed
  then have high: "bit seq n \<longleftrightarrow> n < 56 \<and> bit seq n" for n
    by (metis bit_take_bit_iff)
  show ?thesis
    by (rule bit_word_eqI) (use high in \<open>auto simp: PackSequenceAndType_def bit_simps bit_type_byte\<close>)
qed

lemma unat_tag:
  assumes "seq \<le> kMaxSequenceNumber"
  shows "unat (PackSequenceAndType seq t) = unat seq * 256 + unat (type_byte t)"
proof -
  have "unat seq < 2 ^ 56"
    using assms by (simp add: kMaxSequenceNumber_def word_le_nat_alt push_bit_eq_mult)
  moreover have "push_bit 8 seq OR ucast (type_byte t) = push_bit 8 seq + (ucast (type_byte t) :: u64)"
    by (rule disjunctive_add [symmetric]) (auto simp: bit_simps bit_type_byte)
  ultimately show ?thesis
    by (cases t) (simp_all add: PackSequenceAndType_def push_bit_eq_mult unat_word_ariths)
qed

lemma tag_less_iff:
  assumes "s \<le> kMaxSequenceNumber" "s' \<le> kMaxSequenceNumber"
  shows "PackSequenceAndType s t < PackSequenceAndType s' t' \<longleftrightarrow>
           s < s' \<or> (s = s' \<and> t = kTypeDeletion \<and> t' = kTypeValue)"
  using assms by (cases t; cases t') (auto simp: word_less_nat_alt unat_tag word_unat_eq_iff)

lemma tag_eq_iff:
  assumes "s \<le> kMaxSequenceNumber" "s' \<le> kMaxSequenceNumber"
  shows "PackSequenceAndType s t = PackSequenceAndType s' t' \<longleftrightarrow> s = s' \<and> t = t'"
proof
  assume eq: "PackSequenceAndType s t = PackSequenceAndType s' t'"
  then have "s = s'"
    using assms tag_high by metis
  moreover have "type_byte t = type_byte t'"
    using eq tag_low by metis
  ultimately show "s = s' \<and> t = t'"
    by simp
qed simp

section \<open>Encoding and parsing\<close>

lemma AppendInternalKey_append:
  "AppendInternalKey dst k = dst @ pk_user_key k @ EncodeFixed64 (PackSequenceAndType (pk_sequence k) (pk_type k))"
  by (simp add: AppendInternalKey_def PutFixed64_def)

lemma InternalKey_new_append:
  "InternalKey_new u s t = u @ EncodeFixed64 (PackSequenceAndType s t)"
  by (simp add: InternalKey_new_def AppendInternalKey_append)

lemma length_InternalKey_new [simp]: "length (InternalKey_new u s t) = length u + 8"
  by (simp add: InternalKey_new_append)

lemma ExtractUserKey_append [simp]: "length tag = 8 \<Longrightarrow> ExtractUserKey (u @ tag) = u"
  by (simp add: ExtractUserKey_def)

lemma ExtractUserKey_InternalKey_new [simp]: "ExtractUserKey (InternalKey_new u s t) = u"
  by (simp add: InternalKey_new_append)

lemma DecodeFixed64_self [simp]: "DecodeFixed64 (EncodeFixed64 v) = v"
  using DecodeFixed64_EncodeFixed64 [of v "[]"] by simp

lemma DecodeFixed32_self [simp]: "DecodeFixed32 (EncodeFixed32 v) = v"
  using DecodeFixed32_EncodeFixed32 [of v "[]"] by simp

lemma tag_of_append [simp]: "tag_of (u @ EncodeFixed64 v) = v"
  by (simp add: tag_of_def)

lemma tag_of_InternalKey_new [simp]: "tag_of (InternalKey_new u s t) = PackSequenceAndType s t"
  by (simp add: InternalKey_new_append)

lemma length_AppendInternalKey:
  "length (AppendInternalKey [] k) = InternalKeyEncodingLength k"
  by (simp add: AppendInternalKey_append InternalKeyEncodingLength_def)

lemma ParseInternalKey_new:
  assumes "s \<le> kMaxSequenceNumber"
  shows "ParseInternalKey (InternalKey_new u s t) = Some \<lparr> pk_user_key = u, pk_sequence = s, pk_type = t \<rparr>"
  using assms by (cases t) (simp_all add: ParseInternalKey_def Let_def InternalKey_new_append)

text \<open>A key that parses is determined by what it parses to.\<close>

lemma ParseInternalKey_SomeD:
  assumes "ParseInternalKey k = Some p"
  shows "8 \<le> length k" "pk_user_key p = ExtractUserKey k" "pk_sequence p = drop_bit 8 (tag_of k)"
    "pk_sequence p \<le> kMaxSequenceNumber" "tag_of k = PackSequenceAndType (pk_sequence p) (pk_type p)"
proof -
  let ?n = "tag_of k"
  have p: "8 \<le> length k" "pk_user_key p = ExtractUserKey k" "pk_sequence p = drop_bit 8 ?n"
      "ucast (?n AND 0xff) \<le> (1 :: byte)"
      "pk_type p = (if (ucast (?n AND 0xff) :: byte) = 0 then kTypeDeletion else kTypeValue)"
    using assms by (auto simp: ParseInternalKey_def Let_def tag_of_def ExtractUserKey_def split: if_splits)
  then show "8 \<le> length k" "pk_user_key p = ExtractUserKey k" "pk_sequence p = drop_bit 8 ?n"
    by simp_all
  show "pk_sequence p \<le> kMaxSequenceNumber"
  proof -
    have "unat (drop_bit 8 ?n) = unat ?n div 256"
      by (simp only: unat_drop_bit_eq) (simp add: drop_bit_eq_div)
    moreover have "unat ?n < 2 ^ 64"
      using unsigned_less [of ?n, where ?'a = nat] by simp
    ultimately show ?thesis
      unfolding p by (simp add: kMaxSequenceNumber_def word_le_nat_alt push_bit_eq_mult)
  qed
  have "type_byte (pk_type p) = ucast (?n AND 0xff)"
  proof -
    have "unat (ucast (?n AND 0xff) :: byte) \<le> 1"
      using p(4) by (simp only: word_le_nat_alt) simp
    then show ?thesis
      unfolding p(5) by (auto simp: word_unat_eq_iff)
  qed
  moreover have "?n = push_bit 8 (drop_bit 8 ?n) OR ucast (ucast (?n AND 0xff) :: byte)"
  proof (rule bit_word_eqI)
    fix n
    assume "n < LENGTH(64)"
    then show "bit ?n n = bit (push_bit 8 (drop_bit 8 ?n) OR ucast (ucast (?n AND 0xff) :: byte)) n"
      by (cases "n < 8") (auto simp: bit_simps bit_255_int)
  qed
  ultimately show "?n = PackSequenceAndType (pk_sequence p) (pk_type p)"
    by (simp add: PackSequenceAndType_def p(3))
qed

lemma split_tag: "8 \<le> length k \<Longrightarrow> \<exists>w. k = ExtractUserKey k @ EncodeFixed64 w"
proof -
  assume "8 \<le> length k"
  then obtain t where t: "k = ExtractUserKey k @ t" "length t = 8"
    by (metis ExtractUserKey_def append_take_drop_id diff_diff_cancel length_drop)
  then obtain b0 b1 b2 b3 b4 b5 b6 b7 where bs: "t = [b0, b1, b2, b3, b4, b5, b6, b7]"
    by (auto simp: length_Suc_conv numeral_eq_Suc)
  have "EncodeFixed64 (DecodeFixed64 t) = t"
    unfolding EncodeFixed64_def DecodeFixed64_def bs
    by (simp, intro conjI; rule bit_word_eqI; auto simp: bit_simps dest: bit_imp_le_length)
  with t show ?thesis by metis
qed

section \<open>The order on internal keys\<close>

lemma InternalKey_Compare_alt:
  "InternalKey_Compare c a b =
     (if Compare c (ExtractUserKey a) (ExtractUserKey b) \<noteq> 0
      then Compare c (ExtractUserKey a) (ExtractUserKey b)
      else if tag_of a > tag_of b then -1 else if tag_of a < tag_of b then 1 else 0)"
  by (simp add: InternalKey_Compare_def tag_of_def Let_def)

lemma InternalKey_Compare_less:
  "InternalKey_Compare c a b < 0 \<longleftrightarrow>
     Compare c (ExtractUserKey a) (ExtractUserKey b) < 0 \<or>
     (Compare c (ExtractUserKey a) (ExtractUserKey b) = 0 \<and> tag_of b < tag_of a)"
  by (simp add: InternalKey_Compare_alt)

lemma InternalKey_Compare_zero:
  "InternalKey_Compare c a b = 0 \<longleftrightarrow>
     Compare c (ExtractUserKey a) (ExtractUserKey b) = 0 \<and> tag_of a = tag_of b"
  by (auto simp: InternalKey_Compare_alt)

lemma InternalKey_Compare_le:
  "InternalKey_Compare c a b \<le> 0 \<longleftrightarrow>
     Compare c (ExtractUserKey a) (ExtractUserKey b) < 0 \<or>
     (Compare c (ExtractUserKey a) (ExtractUserKey b) = 0 \<and> tag_of b \<le> tag_of a)"
  by (auto simp: InternalKey_Compare_alt)

lemma InternalKey_Compare_pos:
  "0 < InternalKey_Compare c a b \<longleftrightarrow>
     0 < Compare c (ExtractUserKey a) (ExtractUserKey b) \<or>
     (Compare c (ExtractUserKey a) (ExtractUserKey b) = 0 \<and> tag_of a < tag_of b)"
  by (auto simp: InternalKey_Compare_alt)

lemma ExtractUserKey_PutFixed64 [simp]: "ExtractUserKey (PutFixed64 u w) = u"
  by (simp add: PutFixed64_def)

lemma length_PutFixed [simp]: "length (PutFixed64 d w) = length d + 8" "length (PutFixed32 d v) = length d + 4"
  by (simp_all add: PutFixed64_def PutFixed32_def)

context user_comparator
begin

lemma InternalKey_order_trans:
  "InternalKey_Compare c a b \<le> 0 \<Longrightarrow> InternalKey_Compare c b d \<le> 0 \<Longrightarrow> InternalKey_Compare c a d \<le> 0"
proof -
  let ?a = "ExtractUserKey a" and ?b = "ExtractUserKey b" and ?d = "ExtractUserKey d"
  assume ab: "InternalKey_Compare c a b \<le> 0" and bd: "InternalKey_Compare c b d \<le> 0"
  consider "Compare c ?a ?d < 0" | "Compare c ?a ?b = 0" "Compare c ?b ?d = 0"
    using ab bd cmp_less_le_trans [of ?a ?b ?d] cmp_le_less_trans [of ?a ?b ?d]
    unfolding InternalKey_Compare_le by fastforce
  then show ?thesis
  proof cases
    case 2
    then have "Compare c ?a ?d \<le> 0" "Compare c ?d ?a \<le> 0"
      using cmp_trans [of ?a ?b ?d] cmp_trans [of ?d ?b ?a] cmp_eq_sym [of ?a ?b] cmp_eq_sym [of ?b ?d] by auto
    then have "Compare c ?a ?d = 0"
      using cmp_anti [of ?a ?d] by simp
    with ab bd 2 show ?thesis
      by (auto simp: InternalKey_Compare_le)
  qed (simp add: InternalKey_Compare_le)
qed

lemma InternalKey_sep_cases:
  "InternalKey_FindShortestSeparator c s l = s \<or>
   (\<exists>tmp w. InternalKey_FindShortestSeparator c s l = PutFixed64 tmp w \<and>
      tmp = FindShortestSeparator c (ExtractUserKey s) (ExtractUserKey l) \<and>
      Compare c (ExtractUserKey s) tmp < 0)"
  by (auto simp: InternalKey_FindShortestSeparator_def Let_def)

lemma InternalKey_sep_less:
  assumes "InternalKey_Compare c s l < 0"
  shows "InternalKey_Compare c (InternalKey_FindShortestSeparator c s l) l < 0"
proof -
  have "Compare c (ExtractUserKey s) (ExtractUserKey l) < 0"
    if "Compare c (ExtractUserKey s) (FindShortestSeparator c (ExtractUserKey s) (ExtractUserKey l)) < 0"
    using that sep_noop [of "ExtractUserKey s" "ExtractUserKey l"] by fastforce
  with InternalKey_sep_cases [of s l] assms show ?thesis
    using sep_less [of "ExtractUserKey s" "ExtractUserKey l"] by (auto simp: InternalKey_Compare_less)
qed

lemma InternalKey_Compare_refl: "InternalKey_Compare c a a = 0"
  by (simp add: InternalKey_Compare_zero cmp_refl)

lemma InternalKey_Compare_anti: "InternalKey_Compare c a b < 0 \<longleftrightarrow> 0 < InternalKey_Compare c b a"
  using cmp_anti [of "ExtractUserKey a" "ExtractUserKey b"] cmp_eq_sym [of "ExtractUserKey a" "ExtractUserKey b"]
    cmp_eq_sym [of "ExtractUserKey b" "ExtractUserKey a"]
  unfolding InternalKey_Compare_less InternalKey_Compare_pos by blast

lemma InternalKey_sep_length: "8 \<le> length s \<Longrightarrow> 8 \<le> length (InternalKey_FindShortestSeparator c s l)"
  using InternalKey_sep_cases [of s l] by auto

lemma InternalKey_sep_ge: "InternalKey_Compare c s (InternalKey_FindShortestSeparator c s l) \<le> 0"
  using InternalKey_sep_cases [of s l] cmp_refl [of "ExtractUserKey s"] by (auto simp: InternalKey_Compare_le)

lemma InternalKey_sep_noop:
  assumes "\<not> InternalKey_Compare c s l < 0"
  shows "InternalKey_Compare c s (InternalKey_FindShortestSeparator c s l) = 0"
proof -
  have "\<not> Compare c (ExtractUserKey s) (ExtractUserKey l) < 0"
    using assms by (simp add: InternalKey_Compare_less)
  then have "Compare c (ExtractUserKey s) (FindShortestSeparator c (ExtractUserKey s) (ExtractUserKey l)) = 0"
    by (rule sep_noop [OF TrueI TrueI])
  then have "InternalKey_FindShortestSeparator c s l = s"
    by (simp add: InternalKey_FindShortestSeparator_def Let_def)
  then show ?thesis
    by (simp add: InternalKey_Compare_refl)
qed

lemma InternalKey_succ_length: "8 \<le> length k \<Longrightarrow> 8 \<le> length (InternalKey_FindShortSuccessor c k)"
  by (simp add: InternalKey_FindShortSuccessor_def Let_def)

lemma InternalKey_succ_ge: "InternalKey_Compare c k (InternalKey_FindShortSuccessor c k) \<le> 0"
  by (simp add: InternalKey_FindShortSuccessor_def Let_def InternalKey_Compare_refl)
    (simp add: InternalKey_Compare_le)

end

sublocale user_comparator \<subseteq> ikey: comparator_laws "InternalKeyComparator c" "\<lambda>k. 8 \<le> length k"
  by unfold_locales
    (simp_all add: InternalKey_Compare_refl InternalKey_sep_less InternalKey_sep_ge InternalKey_sep_noop
      InternalKey_sep_length InternalKey_succ_length InternalKey_succ_ge,
      (blast intro: InternalKey_order_trans InternalKey_Compare_anti [THEN iffD1] InternalKey_Compare_anti [THEN iffD2])+)

text \<open>Sorting of keys built from their parts: user keys ascending, then newest first.\<close>

lemma InternalKey_Compare_new_less:
  assumes "s \<le> kMaxSequenceNumber" "s' \<le> kMaxSequenceNumber"
  shows "InternalKey_Compare c (InternalKey_new u s t) (InternalKey_new u' s' t') < 0 \<longleftrightarrow>
           Compare c u u' < 0 \<or>
           (Compare c u u' = 0 \<and> (s' < s \<or> (s = s' \<and> t = kTypeValue \<and> t' = kTypeDeletion)))"
  using assms by (auto simp: InternalKey_Compare_less tag_less_iff)

section \<open>Lookup keys\<close>

lemma LookupKey_parts:
  "LookupKey_internal_key (LookupKey_new u s) = InternalKey_new u s kValueTypeForSeek"
  "LookupKey_user_key (LookupKey_new u s) = u"
  "LookupKey_memtable_key (LookupKey_new u s) =
     EncodeVarint32 (of_nat (length u + 8)) @ InternalKey_new u s kValueTypeForSeek"
  by (simp_all add: LookupKey_internal_key_def LookupKey_user_key_def LookupKey_memtable_key_def
      LookupKey_new_def Let_def InternalKey_new_append)

lemma LookupKey_fits: "length (lk_rep (LookupKey_new u s)) \<le> length u + 13"
  using length_EncodeVarint32 [of "of_nat (length u + 8)"] by (simp add: LookupKey_new_def Let_def)

lemma LookupKey_memtable_decodes:
  assumes "length u \<le> 2 ^ 32 - 1 - 8"
  shows "GetLengthPrefixedSlice (LookupKey_memtable_key (LookupKey_new u s) @ rest) =
           Some (LookupKey_internal_key (LookupKey_new u s), rest)"
  using assms GetLengthPrefixedSlice_append [of "InternalKey_new u s kValueTypeForSeek" rest]
  by (simp add: LookupKey_parts)

end
