(* ===== verification/MemTables.thy ===== *)
theory MemTables
  imports SkipLists DBFormat Statuses "HOL-Library.Multiset"
begin

text \<open>
  The in-memory table (db/memtable.h, db/memtable.cc): entries of internal key and value, each
  a byte string allocated in the arena, in a skip list ordered by the internal keys at their
  front. A \<open>const char*\<close> into an entry is the list of the bytes from there to the end of the
  entry. The comparator of the table is a parameter of the operations.
\<close>

section \<open>Entries\<close>

text \<open>
  Decoding without a limit. \<open>None\<close> is the failed assertion after five bytes; running past the
  end of the buffer, which the source cannot notice, is \<open>None\<close> here as well.
\<close>

fun DecodeEntryVarint32Loop :: "nat \<Rightarrow> u32 \<Rightarrow> bytes \<Rightarrow> (u32 \<times> bytes) option" where
  "DecodeEntryVarint32Loop shift result [] = None"
| "DecodeEntryVarint32Loop shift result (b # p) =
     (if shift \<le> 28
      then if b AND 128 \<noteq> 0
           then DecodeEntryVarint32Loop (shift + 7) (result OR push_bit shift (ucast b AND 127)) p
           else Some (result OR push_bit shift (ucast b), p)
      else None)"

definition DecodeEntryVarint32 :: "bytes \<Rightarrow> (u32 \<times> bytes) option" where
  "DecodeEntryVarint32 p = DecodeEntryVarint32Loop 0 0 p"

text \<open>The slice, and the bytes from its end (\<open>data() + size()\<close>).\<close>

definition EntrySlice :: "bytes \<Rightarrow> bytes \<times> bytes" where
  "EntrySlice data =
     (case DecodeEntryVarint32 data of
        None \<Rightarrow> ([], [])
      | Some (len, p) \<Rightarrow> (take (unat len) p, drop (unat len) p))"

definition KeyComparator :: "comparator \<Rightarrow> bytes \<Rightarrow> bytes \<Rightarrow> int" where
  "KeyComparator c a b = InternalKey_Compare c (fst (EntrySlice a)) (fst (EntrySlice b))"

section \<open>MemTable\<close>

text \<open>
  \<open>arena_\<close> and \<open>table_\<close>: the skip list carries the arena it allocates from. The head's key is the
  null pointer, the empty list here; it is never read.
\<close>

type_synonym MemTable = "bytes SkipList"

definition MemTable_new :: "(region list \<Rightarrow> nat \<Rightarrow> nat) \<Rightarrow> MemTable" where
  "MemTable_new fresh = SkipList_new fresh [] Arena_new"

definition MemTable_Add ::
    "(region list \<Rightarrow> nat \<Rightarrow> nat) \<Rightarrow> comparator \<Rightarrow> SequenceNumber \<Rightarrow> ValueType \<Rightarrow> bytes \<Rightarrow> bytes
      \<Rightarrow> MemTable \<Rightarrow> MemTable option" where
  "MemTable_Add fresh c seq type key value m =
     (let key_size = length key;
          value_size = length value;
          internal_key_size = key_size + 8;
          encoded_len = VarintLength (of_nat internal_key_size) + internal_key_size
                        + VarintLength (of_nat value_size) + value_size;
          (_, a) = Allocate fresh encoded_len (arena m);
          buf = EncodeVarint32 (of_nat internal_key_size) @ key
                @ EncodeFixed64 (PackSequenceAndType seq type)
                @ EncodeVarint32 (of_nat value_size) @ value
      in Insert (KeyComparator c) fresh buf (m\<lparr> arena := a \<rparr>))"

text \<open>
  The result is the return value, the new contents of \<open>*value\<close> and \<open>*status\<close>; it is \<open>None\<close> only if
  the search does not return.
\<close>

definition MemTable_Get ::
    "comparator \<Rightarrow> MemTable \<Rightarrow> LookupKey \<Rightarrow> bytes \<Rightarrow> (bool \<times> bytes \<times> Status) option" where
  "MemTable_Get c m key value =
     (case Iter_Seek (KeyComparator c) m (LookupKey_memtable_key key) of
        None \<Rightarrow> None
      | Some node \<Rightarrow> Some (
          if \<not> Iter_Valid node then (False, value, NotFound (LookupKey_user_key key) [])
          else
            let entry = Iter_key m node;
                (entry_key, value_ptr) = EntrySlice entry;
                entry_user_key = ExtractUserKey entry_key
            in if Compare c entry_user_key (LookupKey_user_key key) \<noteq> 0
               then (False, value, NotFound (LookupKey_user_key key) [])
               else
                 let tag = DecodeFixed64 (drop (length entry_key - 8) entry_key);
                     type = ucast (tag AND 0xff) :: byte
                 in if type = type_byte kTypeValue
                    then (True, fst (EntrySlice value_ptr), OK)
                    else if type = type_byte kTypeDeletion
                    then (True, [], NotFound (LookupKey_user_key key) [])
                    else (True, [], Corruption (lit ''bad value type for'') (LookupKey_user_key key))))"

text \<open>The overload without a status.\<close>

definition MemTable_Get_found :: "comparator \<Rightarrow> MemTable \<Rightarrow> LookupKey \<Rightarrow> bytes \<Rightarrow> (bool \<times> bytes) option" where
  "MemTable_Get_found c m key value =
     map_option (\<lambda>(found, value', status). (found \<and> ok status, value')) (MemTable_Get c m key value)"

definition ApproximateMemoryUsage :: "MemTable \<Rightarrow> nat" where
  "ApproximateMemoryUsage m = MemoryUsage (arena m)"

definition MemTable_Empty :: "MemTable \<Rightarrow> bool" where
  "MemTable_Empty m = (\<not> Iter_Valid (Iter_SeekToFirst m))"

section \<open>MemTableIterator\<close>

definition MemIter_Seek :: "comparator \<Rightarrow> MemTable \<Rightarrow> bytes \<Rightarrow> nat option option" where
  "MemIter_Seek c m target =
     Iter_Seek (KeyComparator c) m (PutVarint32 [] (of_nat (length target)) @ target)"

definition MemIter_Prev :: "comparator \<Rightarrow> MemTable \<Rightarrow> nat option \<Rightarrow> nat option option" where
  "MemIter_Prev c m node = Iter_Prev (KeyComparator c) m node"

definition MemIter_key :: "MemTable \<Rightarrow> nat option \<Rightarrow> bytes" where
  "MemIter_key m node = fst (EntrySlice (Iter_key m node))"

definition MemIter_value :: "MemTable \<Rightarrow> nat option \<Rightarrow> bytes" where
  "MemIter_value m node =
     (let entry = Iter_key m node; (_, value_ptr) = EntrySlice entry in fst (EntrySlice value_ptr))"

section \<open>Entry encoding\<close>

lemma DecodeEntryVarint32_Get: "DecodeEntryVarint32 p = GetVarint32Ptr p"
proof -
  have "DecodeEntryVarint32Loop s r p = GetVarint32Loop s r p" for s r
    by (induction s r p rule: DecodeEntryVarint32Loop.induct)
      (simp_all add: kVarintContinuationBit_def kVarintValueMask_def)
  then show ?thesis
    by (simp add: DecodeEntryVarint32_def GetVarint32Ptr_def)
qed

lemma EntrySlice_append [simp]:
  "length s < 2 ^ 32 \<Longrightarrow> EntrySlice (EncodeVarint32 (of_nat (length s)) @ s @ rest) = (s, rest)"
  by (simp add: EntrySlice_def DecodeEntryVarint32_Get unat_of_nat)

text \<open>A logical entry and the bytes \<open>Add\<close> writes for it.\<close>

record MemEntry =
  me_key :: bytes
  me_seq :: SequenceNumber
  me_type :: ValueType
  me_value :: bytes

definition me_ikey :: "MemEntry \<Rightarrow> bytes" where
  "me_ikey e = InternalKey_new (me_key e) (me_seq e) (me_type e)"

definition encode_entry :: "MemEntry \<Rightarrow> bytes" where
  "encode_entry e =
     EncodeVarint32 (of_nat (length (me_key e) + 8)) @ me_ikey e
     @ EncodeVarint32 (of_nat (length (me_value e))) @ me_value e"

definition entry_sized :: "MemEntry \<Rightarrow> bool" where
  "entry_sized e \<longleftrightarrow> length (me_key e) + 8 < 2 ^ 32 \<and> length (me_value e) < 2 ^ 32 \<and> me_seq e \<le> kMaxSequenceNumber"

lemma EntrySlice_encode:
  assumes "entry_sized e"
  shows "EntrySlice (encode_entry e) = (me_ikey e, EncodeVarint32 (of_nat (length (me_value e))) @ me_value e)"
    "EntrySlice (EncodeVarint32 (of_nat (length (me_value e))) @ me_value e) = (me_value e, [])"
  using assms EntrySlice_append [of "me_ikey e"] EntrySlice_append [of "me_value e" "[]"]
  by (simp_all add: encode_entry_def entry_sized_def me_ikey_def)

text \<open>What the comparator reads of an entry or of a lookup key.\<close>

definition entry_ok :: "bytes \<Rightarrow> bool" where
  "entry_ok e \<longleftrightarrow> 8 \<le> length (fst (EntrySlice e))"

lemma entry_ok_encode: "entry_sized e \<Longrightarrow> entry_ok (encode_entry e)"
  by (simp add: entry_ok_def EntrySlice_encode me_ikey_def)

lemma entry_ok_lookup:
  assumes "length u + 8 < 2 ^ 32"
  shows "EntrySlice (LookupKey_memtable_key (LookupKey_new u s)) = (InternalKey_new u s kValueTypeForSeek, [])"
    "entry_ok (LookupKey_memtable_key (LookupKey_new u s))"
  using assms EntrySlice_append [of "InternalKey_new u s kValueTypeForSeek" "[]"]
  by (simp_all add: entry_ok_def LookupKey_parts)

text \<open>The table's comparator obeys the contract of the skip list.\<close>

sublocale user_comparator \<subseteq> entry: key_order "KeyComparator c" entry_ok
  by unfold_locales
    (auto simp: KeyComparator_def InternalKey_Compare_refl intro: InternalKey_order_trans
      InternalKey_Compare_anti [THEN iffD1] InternalKey_Compare_anti [THEN iffD2])

text \<open>
  \<open>Add\<close> allocates exactly the bytes it writes, and the table orders entries by internal key.
\<close>

lemma MemTable_Add_encode:
  assumes "length key + 8 < 2 ^ 32" and "length value < 2 ^ 32"
  shows "MemTable_Add fresh c seq type key value m =
    (let e = encode_entry \<lparr> me_key = key, me_seq = seq, me_type = type, me_value = value \<rparr>
     in Insert (KeyComparator c) fresh e (m\<lparr> arena := snd (Allocate fresh (length e) (arena m)) \<rparr>))"
proof -
  have "VarintLength (of_nat (length key + 8)) = length (EncodeVarint32 (of_nat (length key + 8)))"
    using assms(1) by (rule VarintLength_EncodeVarint32)
  moreover have "VarintLength (of_nat (length value)) = length (EncodeVarint32 (of_nat (length value)))"
    using assms(2) by (rule VarintLength_EncodeVarint32)
  ultimately show ?thesis
    by (simp add: MemTable_Add_def Let_def encode_entry_def me_ikey_def InternalKey_new_append
        split: prod.splits) (simp add: add.assoc)
qed

section \<open>What a table holds\<close>

text \<open>\<open>es\<close> are the entries of the table, in order.\<close>

definition mem_inv :: "comparator \<Rightarrow> MemTable \<Rightarrow> nat list \<Rightarrow> MemEntry list \<Rightarrow> bool" where
  "mem_inv c m ids es \<longleftrightarrow>
     skip_inv (KeyComparator c) entry_ok m ids \<and> keys_of m ids = map encode_entry es \<and> (\<forall>e \<in> set es. entry_sized e)"

definition entry_less :: "comparator \<Rightarrow> MemEntry \<Rightarrow> MemEntry \<Rightarrow> bool" where
  "entry_less c e e' \<longleftrightarrow> InternalKey_Compare c (me_ikey e) (me_ikey e') < 0"

definition entry_insert :: "comparator \<Rightarrow> MemEntry \<Rightarrow> MemEntry list \<Rightarrow> MemEntry list" where
  "entry_insert c e es = filter (\<lambda>x. entry_less c x e) es @ e # filter (\<lambda>x. \<not> entry_less c x e) es"

lemma set_entry_insert [simp]: "set (entry_insert c e es) = insert e (set es)"
  by (auto simp: entry_insert_def)

lemma mset_entry_insert [simp]: "mset (entry_insert c e es) = add_mset e (mset es)"
  by (simp add: entry_insert_def)

lemma skip_inv_arena [simp]: "skip_inv cmp dm (m\<lparr> arena := a \<rparr>) ids = skip_inv cmp dm m ids"
  by (simp add: skip_inv_def)

lemma keys_of_arena [simp]: "keys_of (m\<lparr> arena := a \<rparr>) ids = keys_of m ids"
  by (simp add: keys_of_def)

lemma KeyComparator_encode:
  "entry_sized e \<Longrightarrow> entry_sized e' \<Longrightarrow> KeyComparator c (encode_entry e) (encode_entry e') =
     InternalKey_Compare c (me_ikey e) (me_ikey e')"
  by (simp add: KeyComparator_def EntrySlice_encode)

lemma find_map: "find P (map f xs) = map_option f (find (P \<circ> f) xs)"
  by (induction xs) auto

lemma find_cong_set: "(\<And>x. x \<in> set xs \<Longrightarrow> P x = Q x) \<Longrightarrow> find P xs = find Q xs"
  by (induction xs) auto

lemma mem_inv_new: "mem_inv c (MemTable_new fresh) [] []"
  by (simp add: mem_inv_def MemTable_new_def SkipList_new_inv keys_of_def)

lemma mem_inv_sorted:
  assumes "mem_inv c m ids es"
  shows "sorted_wrt (entry_less c) es"
proof -
  have sk: "skip_inv (KeyComparator c) entry_ok m ids"
    using assms by (simp add: mem_inv_def)
  have "sorted_wrt (\<lambda>a b. KeyComparator c a b < 0) (keys_of m ids)"
    unfolding keys_of_def sorted_wrt_map by (rule skip_invD(9) [OF sk])
  moreover have "keys_of m ids = map encode_entry es"
    using assms by (simp only: mem_inv_def)
  ultimately have "sorted_wrt (\<lambda>a b. KeyComparator c a b < 0) (map encode_entry es)"
    by (simp only:)
  then have "sorted_wrt (\<lambda>a b. KeyComparator c (encode_entry a) (encode_entry b) < 0) es"
    by (simp only: sorted_wrt_map)
  then show ?thesis
    using assms by (auto simp: mem_inv_def entry_less_def KeyComparator_encode intro: sorted_wrt_mono_rel [rotated])
qed

text \<open>Seeking an internal key in the table is seeking it among the entries.\<close>

lemma mem_seek_key:
  assumes inv: "mem_inv c m ids es" and ks: "\<And>e. e \<in> set es \<Longrightarrow> KeyComparator c (encode_entry e) k < 0 \<longleftrightarrow> P e"
    and seek: "find (\<lambda>n. \<not> KeyComparator c (node_key (nodes m) n) k < 0) ids = node"
  shows "map_option (node_key (nodes m)) node = map_option encode_entry (find (\<lambda>e. \<not> P e) es)"
proof -
  have "map_option (node_key (nodes m)) node = find (\<lambda>x. \<not> KeyComparator c x k < 0) (keys_of m ids)"
    unfolding seek [symmetric] by (simp add: keys_of_def find_map comp_def)
  also have "\<dots> = map_option encode_entry (find (\<lambda>e. \<not> KeyComparator c (encode_entry e) k < 0) es)"
    using inv by (simp add: mem_inv_def find_map comp_def)
  also have "find (\<lambda>e. \<not> KeyComparator c (encode_entry e) k < 0) es = find (\<lambda>e. \<not> P e) es"
    using ks by (intro find_cong_set) auto
  finally show ?thesis .
qed

text \<open>\<open>Get\<close> in terms of the entries: it looks at the first one not before the lookup key.\<close>

definition get_result :: "comparator \<Rightarrow> MemEntry option \<Rightarrow> bytes \<Rightarrow> bytes \<Rightarrow> bool \<times> bytes \<times> Status" where
  "get_result c hit u value =
     (case hit of
        None \<Rightarrow> (False, value, NotFound u [])
      | Some e \<Rightarrow>
          if Compare c (me_key e) u \<noteq> 0 then (False, value, NotFound u [])
          else if me_type e = kTypeValue then (True, me_value e, OK) else (True, [], NotFound u []))"

context user_comparator
begin

lemma MemTable_Add_spec:
  assumes inv: "mem_inv c m ids es" and e: "entry_sized e"
    and fresh_key: "\<forall>e' \<in> set es. InternalKey_Compare c (me_ikey e') (me_ikey e) \<noteq> 0"
  shows "\<exists>m' ids'. MemTable_Add fresh c (me_seq e) (me_type e) (me_key e) (me_value e) m = Some m' \<and>
           mem_inv c m' ids' (entry_insert c e es)"
proof -
  let ?m = "m\<lparr> arena := snd (Allocate fresh (length (encode_entry e)) (arena m)) \<rparr>"
  have sk: "skip_inv (KeyComparator c) entry_ok ?m ids" and ks: "keys_of ?m ids = map encode_entry es"
      and sized: "\<forall>e' \<in> set es. entry_sized e'"
    using inv by (simp_all add: mem_inv_def)
  have e_eta: "\<lparr> me_key = me_key e, me_seq = me_seq e, me_type = me_type e, me_value = me_value e \<rparr> = e"
    by simp
  have "\<forall>n \<in> set ids. KeyComparator c (node_key (nodes ?m) n) (encode_entry e) \<noteq> 0"
  proof
    fix n assume "n \<in> set ids"
    then have "node_key (nodes ?m) n \<in> set (keys_of ?m ids)"
      by (simp add: keys_of_def)
    then obtain e' where "e' \<in> set es" "node_key (nodes ?m) n = encode_entry e'"
      unfolding ks by auto
    then show "KeyComparator c (node_key (nodes ?m) n) (encode_entry e) \<noteq> 0"
      using fresh_key sized e by (simp only: KeyComparator_encode) blast
  qed
  from entry.Insert_spec [OF sk entry_ok_encode [OF e] this, of fresh] obtain m' ids'
    where m': "Insert (KeyComparator c) fresh (encode_entry e) ?m = Some m'"
      "skip_inv (KeyComparator c) entry_ok m' ids'"
      "keys_of m' ids' = filter (\<lambda>k. KeyComparator c k (encode_entry e) < 0) (keys_of ?m ids) @ encode_entry e #
         filter (\<lambda>k. \<not> KeyComparator c k (encode_entry e) < 0) (keys_of ?m ids)"
    by blast
  have "keys_of m' ids' = map encode_entry (entry_insert c e es)"
  proof -
    have "filter (\<lambda>x. P (KeyComparator c (encode_entry x) (encode_entry e) < 0)) es =
        filter (\<lambda>x. P (entry_less c x e)) es" for P
      using sized e by (intro filter_cong) (auto simp: KeyComparator_encode entry_less_def)
    from this [of "\<lambda>x. x"] this [of "\<lambda>x. \<not> x"] show ?thesis
      unfolding m'(3) ks entry_insert_def by (simp add: filter_map comp_def)
  qed
  moreover have "MemTable_Add fresh c (me_seq e) (me_type e) (me_key e) (me_value e) m = Some m'"
    using MemTable_Add_encode [of "me_key e" "me_value e" fresh c "me_seq e" "me_type e" m] e m'(1) e_eta
    by (simp add: entry_sized_def Let_def)
  ultimately show ?thesis
    using m'(2) sized e by (auto simp: mem_inv_def)
qed

lemma MemTable_Get_first:
  assumes inv: "mem_inv c m ids es" and u: "length u + 8 < 2 ^ 32"
  shows "MemTable_Get c m (LookupKey_new u snap) value =
           Some (get_result c (find (\<lambda>e. \<not> InternalKey_Compare c (me_ikey e) (InternalKey_new u snap kValueTypeForSeek) < 0) es) u value)"
proof -
  let ?k = "LookupKey_memtable_key (LookupKey_new u snap)"
  let ?P = "\<lambda>e. InternalKey_Compare c (me_ikey e) (InternalKey_new u snap kValueTypeForSeek) < 0"
  have sk: "skip_inv (KeyComparator c) entry_ok m ids" and sized: "\<And>e. e \<in> set es \<Longrightarrow> entry_sized e"
    using inv by (simp_all add: mem_inv_def)
  obtain node where node: "Iter_Seek (KeyComparator c) m ?k = Some node"
      "find (\<lambda>n. \<not> KeyComparator c (node_key (nodes m) n) ?k < 0) ids = node"
    using entry.Iter_Seek_spec [OF sk entry_ok_lookup(2) [OF u]] by simp
  have "map_option (node_key (nodes m)) node = map_option encode_entry (find (\<lambda>e. \<not> ?P e) es)"
    using sized by (intro mem_seek_key [OF inv _ node(2)])
      (simp add: KeyComparator_def EntrySlice_encode entry_ok_lookup(1) [OF u])
  then consider "node = None" "find (\<lambda>e. \<not> ?P e) es = None"
    | n e where "node = Some n" "find (\<lambda>e. \<not> ?P e) es = Some e" "node_key (nodes m) n = encode_entry e"
    by (cases node; cases "find (\<lambda>e. \<not> ?P e) es") auto
  then show ?thesis
  proof cases
    case 1
    then show ?thesis
      using node(1) by (simp add: MemTable_Get_def Iter_Valid_def get_result_def LookupKey_parts)
  next
    case 2
    then have "entry_sized e"
      using sized find_SomeD by metis
    note sl = EntrySlice_encode [OF this]
    have tag: "DecodeFixed64 (drop (length v) (InternalKey_new v s t)) = PackSequenceAndType s t" for v s t
      by (simp add: InternalKey_new_append)
    show ?thesis
      using 2 node(1) sl
      by (cases "me_type e") (simp_all add: MemTable_Get_def Iter_Valid_def Iter_key_def get_result_def LookupKey_parts Let_def
          me_ikey_def tag)
  qed
qed

end

section \<open>Reading back what was added\<close>

text \<open>
  The specification of a lookup, on the entries in any order: the entry of the user key with
  the greatest tag among those the snapshot sees.
\<close>

definition visible :: "comparator \<Rightarrow> bytes \<Rightarrow> SequenceNumber \<Rightarrow> MemEntry \<Rightarrow> bool" where
  "visible c u snap e \<longleftrightarrow> Compare c (me_key e) u = 0 \<and> me_seq e \<le> snap"

fun newest :: "comparator \<Rightarrow> bytes \<Rightarrow> SequenceNumber \<Rightarrow> MemEntry list \<Rightarrow> MemEntry option" where
  "newest c u snap [] = None"
| "newest c u snap (e # es) =
     (if visible c u snap e
      then (case newest c u snap es of
              None \<Rightarrow> Some e
            | Some e' \<Rightarrow> if tag_of (me_ikey e') < tag_of (me_ikey e) then Some e else Some e')
      else newest c u snap es)"

lemma newest_NoneD: "newest c u snap es = None \<Longrightarrow> e \<in> set es \<Longrightarrow> \<not> visible c u snap e"
  by (induction es) (auto split: if_splits option.splits)

lemma newest_SomeD:
  "newest c u snap es = Some e \<Longrightarrow> e \<in> set es \<and> visible c u snap e \<and>
     (\<forall>e' \<in> set es. visible c u snap e' \<longrightarrow> tag_of (me_ikey e') \<le> tag_of (me_ikey e))"
proof (induction es arbitrary: e)
  case (Cons a es)
  show ?case
  proof (cases "newest c u snap es")
    case None
    with Cons.prems show ?thesis
      using newest_NoneD [OF None] by (auto split: if_splits)
  next
    case (Some e')
    with Cons.prems Cons.IH [OF Some] show ?thesis
      by (fastforce split: if_splits)
  qed
qed simp

text \<open>A run of \<open>Add\<close>s.\<close>

fun MemTable_AddAll :: "(region list \<Rightarrow> nat \<Rightarrow> nat) \<Rightarrow> comparator \<Rightarrow> MemEntry list \<Rightarrow> MemTable \<Rightarrow> MemTable option" where
  "MemTable_AddAll fresh c [] m = Some m"
| "MemTable_AddAll fresh c (e # es) m =
     (case MemTable_Add fresh c (me_seq e) (me_type e) (me_key e) (me_value e) m of
        None \<Rightarrow> None
      | Some m' \<Rightarrow> MemTable_AddAll fresh c es m')"

text \<open>No two of the entries have equal internal keys.\<close>

definition distinct_keys :: "comparator \<Rightarrow> MemEntry list \<Rightarrow> bool" where
  "distinct_keys c = sorted_wrt (\<lambda>e e'. InternalKey_Compare c (me_ikey e) (me_ikey e') \<noteq> 0)"

context user_comparator
begin

lemma MemTable_AddAll_spec:
  assumes "mem_inv c m ids es" and "\<forall>e \<in> set ops. entry_sized e" and "distinct_keys c ops"
    and "\<forall>e \<in> set es. \<forall>e' \<in> set ops. InternalKey_Compare c (me_ikey e) (me_ikey e') \<noteq> 0"
  shows "\<exists>m' ids' es'. MemTable_AddAll fresh c ops m = Some m' \<and> mem_inv c m' ids' es' \<and> mset es' = mset es + mset ops"
  using assms
proof (induction ops arbitrary: m ids es)
  case (Cons e ops)
  obtain m1 ids1 where m1: "MemTable_Add fresh c (me_seq e) (me_type e) (me_key e) (me_value e) m = Some m1"
      "mem_inv c m1 ids1 (entry_insert c e es)"
    using MemTable_Add_spec [OF Cons.prems(1), of e fresh] Cons.prems(2,4) by auto
  have "\<forall>x \<in> set (entry_insert c e es). \<forall>e' \<in> set ops. InternalKey_Compare c (me_ikey x) (me_ikey e') \<noteq> 0"
    using Cons.prems(3,4) by (auto simp: distinct_keys_def)
  then obtain m' ids' es' where "MemTable_AddAll fresh c ops m1 = Some m'" "mem_inv c m' ids' es'"
      "mset es' = mset (entry_insert c e es) + mset ops"
    using Cons.IH [OF m1(2)] Cons.prems(2,3) by (auto simp: distinct_keys_def)
  with m1(1) show ?case
    by auto
qed auto

lemma before_lookup_iff:
  assumes "me_seq e \<le> kMaxSequenceNumber" "snap \<le> kMaxSequenceNumber"
  shows "InternalKey_Compare c (me_ikey e) (InternalKey_new u snap kValueTypeForSeek) < 0 \<longleftrightarrow>
           Compare c (me_key e) u < 0 \<or> (Compare c (me_key e) u = 0 \<and> snap < me_seq e)"
  using assms by (auto simp: me_ikey_def InternalKey_Compare_new_less kValueTypeForSeek_def)

lemma Compare_less_cong:
  assumes "Compare c b b' = 0"
  shows "Compare c a b < 0 \<longleftrightarrow> Compare c a b' < 0"
proof -
  have "Compare c b' b = 0"
    using cmp_eq_sym [of b b'] assms by simp
  then show ?thesis
    using assms cmp_less_le_trans [of a b b'] cmp_less_le_trans [of a b' b] by auto
qed

lemma Compare_eq_cong:
  assumes "Compare c b b' = 0"
  shows "Compare c a b = 0 \<longleftrightarrow> Compare c a b' = 0"
proof -
  have sym: "Compare c b' b = 0"
    using cmp_eq_sym [of b b'] assms by simp
  have eq: "Compare c x y = 0 \<longleftrightarrow> Compare c x y \<le> 0 \<and> Compare c y x \<le> 0" for x y
    using cmp_anti [of x y] cmp_anti [of y x] cmp_eq_sym [of x y] by fastforce
  show ?thesis
    unfolding eq using assms sym cmp_trans [of a b b'] cmp_trans [of b' b a] cmp_trans [of a b' b] cmp_trans [of b b' a]
    by fastforce
qed

lemma MemTable_Get_newest:
  assumes inv: "mem_inv c m ids es" and u: "length u + 8 < 2 ^ 32" and snap: "snap \<le> kMaxSequenceNumber"
    and perm: "mset es = mset ops"
  shows "MemTable_Get c m (LookupKey_new u snap) value = Some (get_result c (newest c u snap ops) u value)"
proof -
  let ?P = "\<lambda>e. \<not> InternalKey_Compare c (me_ikey e) (InternalKey_new u snap kValueTypeForSeek) < 0"
  have set: "set ops = set es"
    using perm by (metis set_mset_mset)
  have seq: "me_seq e \<le> kMaxSequenceNumber" if "e \<in> set es" for e
    using inv that by (auto simp: mem_inv_def entry_sized_def)
  note bef = before_lookup_iff [OF seq snap]
  show ?thesis
  proof (cases "newest c u snap ops")
    case None
    have "get_result c (find ?P es) u value = (False, value, NotFound u [])"
    proof (cases "find ?P es")
      case (Some e)
      then have e: "e \<in> set es" "?P e"
        using find_SomeD by metis+
      have "Compare c (me_key e) u \<noteq> 0"
        using newest_NoneD [OF None, of e] e(2) bef [OF e(1), of u] set e(1) by (auto simp: visible_def)
      with Some show ?thesis
        by (simp add: get_result_def)
    qed (simp add: get_result_def)
    then show ?thesis
      using None MemTable_Get_first [OF inv u] by (simp add: get_result_def)
  next
    case (Some e)
    note n = newest_SomeD [OF Some]
    then have e: "e \<in> set es" "Compare c (me_key e) u = 0" "me_seq e \<le> snap"
      using set by (auto simp: visible_def)
    obtain xs ys where split: "es = xs @ e # ys"
      using e(1) by (meson split_list)
    have "\<not> ?P x" if x: "x \<in> set xs" for x
    proof -
      have xes: "x \<in> set es" and less: "entry_less c x e"
        using split x mem_inv_sorted [OF inv] by (auto simp: sorted_wrt_append)
      have "Compare c (me_key x) (me_key e) < 0 \<or>
          (Compare c (me_key x) (me_key e) = 0 \<and> tag_of (me_ikey e) < tag_of (me_ikey x))"
        using less by (simp add: entry_less_def InternalKey_Compare_less me_ikey_def)
      moreover have "\<not> visible c u snap x" if "tag_of (me_ikey e) < tag_of (me_ikey x)"
        using n xes set that by fastforce
      ultimately show ?thesis
        using bef [OF xes, of u] Compare_less_cong [OF e(2)] Compare_eq_cong [OF e(2)]
        by (auto simp: visible_def not_le)
    qed
    then have "find ?P xs = None"
      unfolding find_None_iff' by blast
    moreover have "?P e"
      using bef [OF e(1), of u] e by auto
    ultimately have "find ?P es = Some e"
      by (simp add: split find_append)
    then show ?thesis
      using Some MemTable_Get_first [OF inv u] by simp
  qed
qed

text \<open>The keys and values an iterator shows are the entries in order.\<close>

lemma MemIter_entry:
  assumes "mem_inv c m ids es" and "i < length ids"
  shows "i < length es" "MemIter_key m (Some (ids ! i)) = me_ikey (es ! i)"
    "MemIter_value m (Some (ids ! i)) = me_value (es ! i)"
proof -
  have map: "map (node_key (nodes m)) ids = map encode_entry es" and sized: "\<forall>e \<in> set es. entry_sized e"
    using assms(1) by (simp_all add: mem_inv_def keys_of_def)
  from map show i: "i < length es"
    using assms(2) by (metis length_map)
  have "node_key (nodes m) (ids ! i) = encode_entry (es ! i)"
    using map assms(2) i by (metis nth_map)
  then show "MemIter_key m (Some (ids ! i)) = me_ikey (es ! i)" "MemIter_value m (Some (ids ! i)) = me_value (es ! i)"
    using sized i EntrySlice_encode [of "es ! i"] by (simp_all add: MemIter_key_def MemIter_value_def Iter_key_def)
qed

lemma MemTable_Empty_spec: "mem_inv c m ids es \<Longrightarrow> MemTable_Empty m \<longleftrightarrow> es = []"
  using entry.Iter_SeekToFirst_spec [of m ids]
  by (auto simp: mem_inv_def MemTable_Empty_def Iter_Valid_def keys_of_def split: list.splits)

end

end
