(* ===== verification/WriteBatches.thy ===== *)
theory WriteBatches
  imports MemTables
begin

text \<open>
  Write batches (db/write_batch.cc, db/write_batch_internal.h). A batch is its \<open>rep_\<close>: 8 bytes
  of sequence number, 4 bytes of record count, then the records. \<open>Iterate\<close> calls a handler;
  a handler is a record of its two callbacks on a state of its own, which may fail to return.
\<close>

type_synonym WriteBatch = bytes

definition kHeaderSize :: nat where
  "kHeaderSize = 12"

definition kRecordDeletion :: byte where
  "kRecordDeletion = 0"

definition kRecordValue :: byte where
  "kRecordValue = 1"

section \<open>The header\<close>

definition WB_Sequence :: "WriteBatch \<Rightarrow> SequenceNumber" where
  "WB_Sequence rep = DecodeFixed64 rep"

definition WB_SetSequence :: "SequenceNumber \<Rightarrow> WriteBatch \<Rightarrow> WriteBatch" where
  "WB_SetSequence seq rep = overwrite rep 0 (EncodeFixed64 seq)"

definition WB_Count :: "WriteBatch \<Rightarrow> int" where
  "WB_Count rep = sint (DecodeFixed32 (drop 8 rep))"

definition WB_SetCount :: "int \<Rightarrow> WriteBatch \<Rightarrow> WriteBatch" where
  "WB_SetCount n rep = overwrite rep 8 (EncodeFixed32 (of_int n))"

definition WB_Contents :: "WriteBatch \<Rightarrow> bytes" where
  "WB_Contents rep = rep"

definition WB_ByteSize :: "WriteBatch \<Rightarrow> nat" where
  "WB_ByteSize rep = length rep"

definition WB_SetContents :: "bytes \<Rightarrow> WriteBatch \<Rightarrow> WriteBatch" where
  "WB_SetContents contents rep = contents"

section \<open>Building a batch\<close>

definition WB_Clear :: WriteBatch where
  "WB_Clear = WB_SetCount 0 (WB_SetSequence 0 (replicate kHeaderSize 0))"

definition WB_Put :: "bytes \<Rightarrow> bytes \<Rightarrow> WriteBatch \<Rightarrow> WriteBatch" where
  "WB_Put key value rep =
     (let rep1 = WB_SetCount (WB_Count rep + 1) rep;
          rep2 = rep1 @ [kRecordValue];
          rep3 = PutLengthPrefixedSlice rep2 key
      in PutLengthPrefixedSlice rep3 value)"

definition WB_Delete :: "bytes \<Rightarrow> WriteBatch \<Rightarrow> WriteBatch" where
  "WB_Delete key rep =
     (let rep1 = WB_SetCount (WB_Count rep + 1) rep;
          rep2 = rep1 @ [kRecordDeletion]
      in PutLengthPrefixedSlice rep2 key)"

definition WB_Append :: "WriteBatch \<Rightarrow> WriteBatch \<Rightarrow> WriteBatch" where
  "WB_Append dst src = WB_SetCount (WB_Count dst + WB_Count src) dst @ drop kHeaderSize src"

section \<open>Iterate\<close>

record 's handler =
  h_Put :: "bytes \<Rightarrow> bytes \<Rightarrow> 's \<Rightarrow> 's option"
  h_Delete :: "bytes \<Rightarrow> 's \<Rightarrow> 's option"

text \<open>The loop over \<open>input\<close>; it ends with a status, or with the number of records found.\<close>

function IterateLoop :: "'s handler \<Rightarrow> bytes \<Rightarrow> int \<Rightarrow> 's \<Rightarrow> ((Status + int) \<times> 's) option" where
  "IterateLoop h [] found st = Some (Inr found, st)"
| "IterateLoop h (tag # input) found st =
     (if tag = kRecordValue
      then (case GetLengthPrefixedSlice input of
              None \<Rightarrow> Some (Inl (Corruption (lit ''bad WriteBatch Put record'') []), st)
            | Some (key, input1) \<Rightarrow>
                (case GetLengthPrefixedSlice input1 of
                   None \<Rightarrow> Some (Inl (Corruption (lit ''bad WriteBatch Put record'') []), st)
                 | Some (value, input2) \<Rightarrow>
                     (case h_Put h key value st of
                        None \<Rightarrow> None
                      | Some st' \<Rightarrow> IterateLoop h input2 (found + 1) st')))
      else if tag = kRecordDeletion
      then (case GetLengthPrefixedSlice input of
              None \<Rightarrow> Some (Inl (Corruption (lit ''bad WriteBatch Delete record'') []), st)
            | Some (key, input1) \<Rightarrow>
                (case h_Delete h key st of
                   None \<Rightarrow> None
                 | Some st' \<Rightarrow> IterateLoop h input1 (found + 1) st'))
      else Some (Inl (Corruption (lit ''unknown WriteBatch record tag'') []), st))"
  by pat_completeness auto
termination
  by (relation "measure (\<lambda>(_, input, _, _). length input)")
    (auto dest!: GetLengthPrefixedSlice_shorter)

definition WB_Iterate :: "'s handler \<Rightarrow> WriteBatch \<Rightarrow> 's \<Rightarrow> (Status \<times> 's) option" where
  "WB_Iterate h rep st =
     (if length rep < kHeaderSize then Some (Corruption (lit ''malformed WriteBatch header'') [], st)
      else case IterateLoop h (drop kHeaderSize rep) 0 st of
             None \<Rightarrow> None
           | Some (Inl status, st') \<Rightarrow> Some (status, st')
           | Some (Inr found, st') \<Rightarrow>
               if found \<noteq> WB_Count rep then Some (Corruption (lit ''WriteBatch count mismatch'') [], st')
               else Some (OK, st'))"

section \<open>MemTableInserter\<close>

text \<open>The state of the inserter: the next sequence number and the table.\<close>

definition Inserter :: "(region list \<Rightarrow> nat \<Rightarrow> nat) \<Rightarrow> comparator \<Rightarrow> (SequenceNumber \<times> MemTable) handler" where
  "Inserter fresh c =
     \<lparr> h_Put = (\<lambda>key value (sequence, memtable).
          map_option (\<lambda>m. (sequence + 1, m)) (MemTable_Add fresh c sequence kTypeValue key value memtable)),
       h_Delete = (\<lambda>key (sequence, memtable).
          map_option (\<lambda>m. (sequence + 1, m)) (MemTable_Add fresh c sequence kTypeDeletion key [] memtable)) \<rparr>"

definition WB_InsertInto ::
    "(region list \<Rightarrow> nat \<Rightarrow> nat) \<Rightarrow> comparator \<Rightarrow> WriteBatch \<Rightarrow> MemTable \<Rightarrow> (Status \<times> MemTable) option" where
  "WB_InsertInto fresh c rep memtable =
     (if length rep < kHeaderSize then Some (Corruption (lit ''malformed WriteBatch header'') [], memtable)
      else map_option (\<lambda>(status, (_, m)). (status, m))
             (WB_Iterate (Inserter fresh c) rep (WB_Sequence rep, memtable)))"

section \<open>Reading back a batch\<close>

datatype WriteOp = PutOp bytes bytes | DeleteOp bytes

fun apply_op :: "WriteOp \<Rightarrow> WriteBatch \<Rightarrow> WriteBatch" where
  "apply_op (PutOp k v) rep = WB_Put k v rep"
| "apply_op (DeleteOp k) rep = WB_Delete k rep"

fun encode_op :: "WriteOp \<Rightarrow> bytes" where
  "encode_op (PutOp k v) = kRecordValue # PutLengthPrefixedSlice (PutLengthPrefixedSlice [] k) v"
| "encode_op (DeleteOp k) = kRecordDeletion # PutLengthPrefixedSlice [] k"

fun op_sized :: "WriteOp \<Rightarrow> bool" where
  "op_sized (PutOp k v) \<longleftrightarrow> length k < 2 ^ 32 \<and> length v < 2 ^ 32"
| "op_sized (DeleteOp k) \<longleftrightarrow> length k < 2 ^ 32"

fun run_op :: "'s handler \<Rightarrow> WriteOp \<Rightarrow> 's \<Rightarrow> 's option" where
  "run_op h (PutOp k v) st = h_Put h k v st"
| "run_op h (DeleteOp k) st = h_Delete h k st"

fun run_ops :: "'s handler \<Rightarrow> WriteOp list \<Rightarrow> 's \<Rightarrow> 's option" where
  "run_ops h [] st = Some st"
| "run_ops h (x # xs) st = Option.bind (run_op h x st) (run_ops h xs)"

definition header :: "SequenceNumber \<Rightarrow> u32 \<Rightarrow> bytes" where
  "header seq n = EncodeFixed64 seq @ EncodeFixed32 n"

definition batch_of :: "SequenceNumber \<Rightarrow> WriteOp list \<Rightarrow> WriteBatch" where
  "batch_of seq ops = header seq (of_nat (length ops)) @ concat (map encode_op ops)"

lemma length_header [simp]: "length (header seq n) = 12"
  by (simp add: header_def)

lemma WB_Count_header [simp]: "WB_Count (header seq n @ xs) = sint n"
  by (simp add: WB_Count_def header_def)

lemma WB_Sequence_header [simp]: "WB_Sequence (header seq n @ xs) = seq"
  by (simp add: WB_Sequence_def header_def)

lemma WB_SetCount_header [simp]: "WB_SetCount k (header seq n @ xs) = header seq (of_int k) @ xs"
  by (simp add: WB_SetCount_def header_def overwrite_def)

lemma WB_SetSequence_header [simp]: "WB_SetSequence s (header seq n @ xs) = header s n @ xs"
  by (simp add: WB_SetSequence_def header_def overwrite_def)

lemma WB_Clear_header: "WB_Clear = header 0 0"
proof -
  have "replicate kHeaderSize 0 = header 0 0 @ []"
    by (simp add: kHeaderSize_def header_def EncodeFixed64_def EncodeFixed32_def numeral_eq_Suc)
  then show ?thesis
    unfolding WB_Clear_def by (simp only: WB_SetSequence_header WB_SetCount_header) simp
qed

lemma apply_op_header:
  "apply_op x (header seq n @ xs) = header seq (n + 1) @ xs @ encode_op x"
  by (cases x) (simp_all add: WB_Put_def WB_Delete_def Let_def PutLengthPrefixedSlice_def PutVarint32_def)

lemma apply_ops_header:
  "fold apply_op ops (header seq n @ xs) = header seq (n + of_nat (length ops)) @ xs @ concat (map encode_op ops)"
proof (induction ops arbitrary: n xs)
  case (Cons x ops)
  show ?case
    using Cons.IH [of "n + 1" "xs @ encode_op x"] by (simp add: apply_op_header add.assoc)
qed simp

text \<open>What the builder produces.\<close>

lemma build_batch: "fold apply_op ops WB_Clear = batch_of 0 ops"
  using apply_ops_header [of ops 0 0 "[]"] by (simp add: WB_Clear_header batch_of_def)

lemma WB_Append_batch:
  assumes "length ops + length ops' < 2 ^ 31"
  shows "WB_Append (batch_of seq ops) (batch_of seq' ops') = batch_of seq (ops @ ops')"
proof -
  have "of_int (sint (of_nat (length ops) :: u32) + sint (of_nat (length ops') :: u32)) = (of_nat (length ops + length ops') :: u32)"
    by simp
  then show ?thesis
    by (simp add: WB_Append_def batch_of_def kHeaderSize_def)
qed

lemma IterateLoop_encode_op:
  assumes "op_sized x"
  shows "IterateLoop h (encode_op x @ rest) found st =
           (case run_op h x st of None \<Rightarrow> None | Some st' \<Rightarrow> IterateLoop h rest (found + 1) st')"
  using assms GetLengthPrefixedSlice_append
  by (cases x) (simp_all add: PutLengthPrefixedSlice_def PutVarint32_def kRecordValue_def kRecordDeletion_def)

lemma IterateLoop_ops:
  "\<forall>x \<in> set ops. op_sized x \<Longrightarrow> IterateLoop h (concat (map encode_op ops) @ rest) found st =
     (case run_ops h ops st of None \<Rightarrow> None | Some st' \<Rightarrow> IterateLoop h rest (found + int (length ops)) st')"
proof (induction ops arbitrary: found st)
  case (Cons x ops)
  then show ?case
    by (simp add: IterateLoop_encode_op del: IterateLoop.simps split: option.split) (simp add: add.assoc)
qed simp

lemma sint_count: "n < 2 ^ 31 \<Longrightarrow> sint (of_nat n :: u32) = int n"
  by (simp add: signed_of_nat signed_take_bit_int_eq_self)

lemma WB_Iterate_batch:
  assumes "\<forall>x \<in> set ops. op_sized x" and "length ops < 2 ^ 31"
  shows "WB_Iterate h (batch_of seq ops) st = map_option (\<lambda>st'. (OK, st')) (run_ops h ops st)"
  using assms IterateLoop_ops [of ops h "[]" 0 st]
  by (simp add: WB_Iterate_def batch_of_def kHeaderSize_def sint_count split: option.split)

section \<open>Batches into tables\<close>

fun op_entries :: "SequenceNumber \<Rightarrow> WriteOp list \<Rightarrow> MemEntry list" where
  "op_entries seq [] = []"
| "op_entries seq (PutOp k v # ops) =
     \<lparr> me_key = k, me_seq = seq, me_type = kTypeValue, me_value = v \<rparr> # op_entries (seq + 1) ops"
| "op_entries seq (DeleteOp k # ops) =
     \<lparr> me_key = k, me_seq = seq, me_type = kTypeDeletion, me_value = [] \<rparr> # op_entries (seq + 1) ops"

lemma run_ops_Inserter:
  "run_ops (Inserter fresh c) ops (seq, m) =
     map_option (\<lambda>m'. (seq + of_nat (length ops), m')) (MemTable_AddAll fresh c (op_entries seq ops) m)"
proof (induction ops arbitrary: seq m)
  case (Cons x ops)
  then show ?case
    by (cases x) (auto simp: Inserter_def add.assoc map_option_case split: option.splits)
qed simp

lemma WB_InsertInto_batch:
  assumes "\<forall>x \<in> set ops. op_sized x" and "length ops < 2 ^ 31"
  shows "WB_InsertInto fresh c (batch_of seq ops) m =
           map_option (\<lambda>m'. (OK, m')) (MemTable_AddAll fresh c (op_entries seq ops) m)"
proof -
  have "WB_Sequence (batch_of seq ops) = seq" "\<not> length (batch_of seq ops) < kHeaderSize"
    by (simp_all add: batch_of_def kHeaderSize_def)
  then show ?thesis
    by (simp add: WB_InsertInto_def WB_Iterate_batch [OF assms] run_ops_Inserter option.map_comp comp_def)
qed

text \<open>The entries of a batch have consecutive sequence numbers, so their keys differ.\<close>

lemma op_entries_seq:
  assumes "e \<in> set (op_entries seq ops)" and "unat seq + length ops \<le> 2 ^ 56"
  shows "unat seq \<le> unat (me_seq e) \<and> unat (me_seq e) < unat seq + length ops"
  using assms
proof (induction ops arbitrary: seq)
  case (Cons x ops)
  then have "unat (seq + 1) = unat seq + 1"
    by (simp add: unat_word_ariths)
  with Cons show ?case
    by (cases x) (force simp: Suc_le_eq)+
qed simp

lemma kMaxSequenceNumber_unat: "seq \<le> kMaxSequenceNumber \<longleftrightarrow> unat seq < 2 ^ 56"
  by (simp add: kMaxSequenceNumber_def word_le_nat_alt push_bit_eq_mult) linarith

definition op_bounded :: "WriteOp \<Rightarrow> bool" where
  "op_bounded x \<longleftrightarrow> (case x of PutOp k v \<Rightarrow> length k + 8 < 2 ^ 32 \<and> length v < 2 ^ 32 | DeleteOp k \<Rightarrow> length k + 8 < 2 ^ 32)"

lemma op_bounded_sized: "op_bounded x \<Longrightarrow> op_sized x"
  by (cases x) (auto simp: op_bounded_def)

lemma op_entries_sized:
  assumes "\<forall>x \<in> set ops. op_bounded x" and "unat seq + length ops \<le> 2 ^ 56"
  shows "\<forall>e \<in> set (op_entries seq ops). entry_sized e"
proof
  fix e assume e: "e \<in> set (op_entries seq ops)"
  have "length (me_key e) + 8 < 2 ^ 32 \<and> length (me_value e) < 2 ^ 32"
    using e assms(1) by (induction seq ops rule: op_entries.induct) (auto simp: op_bounded_def)
  moreover have "me_seq e \<le> kMaxSequenceNumber"
    using op_entries_seq [OF e assms(2)] assms(2) by (simp add: kMaxSequenceNumber_unat)
  ultimately show "entry_sized e"
    by (simp add: entry_sized_def)
qed

lemma InternalKey_Compare_seq_neq:
  assumes "me_seq e \<le> kMaxSequenceNumber" "me_seq e' \<le> kMaxSequenceNumber" "me_seq e \<noteq> me_seq e'"
  shows "InternalKey_Compare c (me_ikey e) (me_ikey e') \<noteq> 0"
  using assms by (auto simp: InternalKey_Compare_zero me_ikey_def tag_eq_iff)

lemma op_entries_distinct:
  assumes "unat seq + length ops \<le> 2 ^ 56"
  shows "distinct_keys c (op_entries seq ops)"
  using assms
proof (induction seq ops rule: op_entries.induct)
  case (1 seq)
  then show ?case by (simp add: distinct_keys_def)
next
  case (2 seq k v ops)
  have s: "unat (seq + 1) = unat seq + 1"
    using 2(2) by (simp add: unat_word_ariths)
  have "InternalKey_Compare c (me_ikey e) (me_ikey e') \<noteq> 0"
    if "me_seq e = seq" "e' \<in> set (op_entries (seq + 1) ops)" for e e'
    using that op_entries_seq [OF that(2)] 2(2) s
    by (intro InternalKey_Compare_seq_neq) (auto simp: kMaxSequenceNumber_unat)
  with 2 s show ?case
    by (auto simp: distinct_keys_def)
next
  case (3 seq k ops)
  have s: "unat (seq + 1) = unat seq + 1"
    using 3(2) by (simp add: unat_word_ariths)
  have "InternalKey_Compare c (me_ikey e) (me_ikey e') \<noteq> 0"
    if "me_seq e = seq" "e' \<in> set (op_entries (seq + 1) ops)" for e e'
    using that op_entries_seq [OF that(2)] 3(2) s
    by (intro InternalKey_Compare_seq_neq) (auto simp: kMaxSequenceNumber_unat)
  with 3 s show ?case
    by (auto simp: distinct_keys_def)
qed

context user_comparator
begin

text \<open>A batch inserted into a new table can be read back, for every key and snapshot.\<close>

lemma InsertInto_Get:
  assumes "\<forall>x \<in> set ops. op_bounded x" and "length ops < 2 ^ 31" and "unat seq + length ops \<le> 2 ^ 56"
  shows "\<exists>m. WB_InsertInto fresh c (batch_of seq ops) (MemTable_new fresh) = Some (OK, m) \<and>
           (\<forall>u snap value. length u + 8 < 2 ^ 32 \<longrightarrow> snap \<le> kMaxSequenceNumber \<longrightarrow>
              MemTable_Get c m (LookupKey_new u snap) value =
                Some (get_result c (newest c u snap (op_entries seq ops)) u value))"
proof -
  obtain m ids es where m: "MemTable_AddAll fresh c (op_entries seq ops) (MemTable_new fresh) = Some m"
      "mem_inv c m ids es" "mset es = mset (op_entries seq ops)"
    using MemTable_AddAll_spec [where fresh = fresh, OF mem_inv_new [where fresh = fresh] op_entries_sized [OF assms(1,3)] op_entries_distinct [OF assms(3)]]
    by auto
  have "WB_InsertInto fresh c (batch_of seq ops) (MemTable_new fresh) = Some (OK, m)"
    using WB_InsertInto_batch [of ops fresh c seq] assms(1,2) m(1) op_bounded_sized by auto
  with MemTable_Get_newest [OF m(2) _ _ m(3)] show ?thesis
    by blast
qed

end

section \<open>Truncated batches\<close>

definition handler_total :: "'s handler \<Rightarrow> bool" where
  "handler_total h \<longleftrightarrow> (\<forall>k v st. h_Put h k v st \<noteq> None) \<and> (\<forall>k st. h_Delete h k st \<noteq> None)"

lemma GetVarint32Ptr_truncated: "k < length (EncodeVarint32 v) \<Longrightarrow> GetVarint32Ptr (take k (EncodeVarint32 v)) = None"
  using GetVarint32_truncated by (simp add: GetVarint32_Ptr)

lemma GetLengthPrefixedSlice_truncated:
  assumes "length v < 2 ^ 32" and "k < length (PutLengthPrefixedSlice [] v)"
  shows "GetLengthPrefixedSlice (take k (PutLengthPrefixedSlice [] v)) = None"
proof (cases "k < length (EncodeVarint32 (of_nat (length v)))")
  case True
  then show ?thesis
    using GetVarint32Ptr_truncated by (simp add: GetLengthPrefixedSlice_def PutLengthPrefixedSlice_def PutVarint32_def)
next
  case False
  moreover have "unat (of_nat (length v) :: u32) = length v"
    using assms(1) by (simp add: unat_of_nat)
  ultimately show ?thesis
    using assms(2) by (simp add: GetLengthPrefixedSlice_def PutLengthPrefixedSlice_def PutVarint32_def)
qed

lemma take_append_cases:
  assumes "k < length (xs @ ys)"
  obtains "k < length xs" "take k (xs @ ys) = take k xs"
  | j where "j < length ys" "take k (xs @ ys) = xs @ take j ys" "k = length xs + j"
proof (cases "k < length xs")
  case False
  then show ?thesis
    using assms that(2) [of "k - length xs"] by (simp add: less_diff_conv2 not_less)
qed (use that(1) in simp)

lemma IterateLoop_cut_op:
  assumes "op_sized x" "handler_total h" "0 < k" "k < length (encode_op x)"
  shows "\<exists>msg. IterateLoop h (take k (encode_op x)) found st = Some (Inl (Corruption msg []), st)"
proof (cases x)
  case (PutOp key v)
  let ?K = "PutLengthPrefixedSlice [] key" and ?V = "PutLengthPrefixedSlice [] v"
  have e: "take k (encode_op x) = kRecordValue # take (k - 1) (?K @ ?V)"
    using assms(3) PutOp PutLengthPrefixedSlice_append [of ?K v] by (cases k) auto
  have "k - 1 < length (?K @ ?V)"
    using assms(3,4) PutOp PutLengthPrefixedSlice_append [of ?K v] by simp
  then show ?thesis
  proof (cases rule: take_append_cases)
    case 1
    then show ?thesis
      unfolding e using assms(1) PutOp GetLengthPrefixedSlice_truncated [of key "k - 1"] by auto
  next
    case (2 j)
    then show ?thesis
      unfolding e using assms(1) PutOp GetLengthPrefixedSlice_truncated [of v j] GetLengthPrefixedSlice_Put [of key "take j ?V"]
      by auto
  qed
next
  case (DeleteOp key)
  then show ?thesis
    using assms GetLengthPrefixedSlice_truncated [of key "k - 1"]
    by (cases k) (auto simp: kRecordDeletion_def kRecordValue_def)
qed

lemma IterateLoop_cut:
  assumes "\<forall>x \<in> set ops. op_sized x" "handler_total h" "k < length (concat (map encode_op ops))"
  shows "\<exists>res st'. IterateLoop h (take k (concat (map encode_op ops))) found st = Some (res, st') \<and>
           (case res of Inl s \<Rightarrow> \<exists>msg. s = Corruption msg [] | Inr n \<Rightarrow> n < found + int (length ops))"
  using assms
proof (induction ops arbitrary: k found st)
  case (Cons x ops)
  show ?case
  proof (cases "k = 0")
    case False
    have "k < length (encode_op x @ concat (map encode_op ops))"
      using Cons.prems(3) by simp
    then show ?thesis
    proof (cases rule: take_append_cases)
      case 1
      then show ?thesis
        using IterateLoop_cut_op [of x h k found st] Cons.prems False by fastforce
    next
      case (2 j)
      have "run_op h x st \<noteq> None"
        using Cons.prems(2) by (cases x) (simp_all only: handler_total_def run_op.simps, blast+)
      then obtain st1 where st1: "run_op h x st = Some st1"
        by blast
      from Cons.IH [of j "found + 1" st1] 2 Cons.prems obtain res st' where
        "IterateLoop h (take j (concat (map encode_op ops))) (found + 1) st1 = Some (res, st')"
        "case res of Inl s \<Rightarrow> \<exists>msg. s = Corruption msg [] | Inr n \<Rightarrow> n < found + 1 + int (length ops)"
        by auto
      with 2 st1 Cons.prems(1) show ?thesis
        using IterateLoop_encode_op [of x h "take j (concat (map encode_op ops))" found st]
        by (auto split: sum.splits)
    qed
  qed auto
qed simp

text \<open>Every proper prefix of a batch is reported as corrupt.\<close>

lemma WB_Iterate_truncated:
  assumes "\<forall>x \<in> set ops. op_sized x" "handler_total h" "length ops < 2 ^ 31" "k < length (batch_of seq ops)"
  shows "\<exists>msg st'. WB_Iterate h (take k (batch_of seq ops)) st = Some (Corruption msg [], st')"
proof (cases "k < 12")
  case True
  then show ?thesis
    using assms(4) by (auto simp: WB_Iterate_def kHeaderSize_def)
next
  case False
  let ?j = "k - 12"
  have e: "take k (batch_of seq ops) = header seq (of_nat (length ops)) @ take ?j (concat (map encode_op ops))"
    using False by (simp add: batch_of_def)
  have j: "?j < length (concat (map encode_op ops))"
    using False assms(4) by (simp add: batch_of_def)
  obtain res st' where res: "IterateLoop h (take ?j (concat (map encode_op ops))) 0 st = Some (res, st')"
      "case res of Inl s \<Rightarrow> \<exists>msg. s = Corruption msg [] | Inr n \<Rightarrow> n < 0 + int (length ops)"
    using IterateLoop_cut [OF assms(1,2) j] by blast
  have c: "WB_Count (header seq (of_nat (length ops)) @ take ?j (concat (map encode_op ops))) = int (length ops)"
    using assms(3) by (simp add: sint_count)
  show ?thesis
    unfolding WB_Iterate_def e using res c
    by (cases res) (auto simp: kHeaderSize_def)
qed

end
