(* ===== verification/Strings.thy ===== *)
theory Strings
  imports Coding
begin

text \<open>
  Decimal numbers and escaping (util/logging.cc) and the names of the database files
  (db/filename.cc). Numbers are printed by the standard library (\<open>std::to_string\<close> and the
  \<open>printf\<close> conversion \<open>%06llu\<close>), modelled by \<open>dec_digits\<close> and zero padding.
\<close>

section \<open>Numbers (util/logging.cc)\<close>

fun dec_digits :: "nat \<Rightarrow> bytes" where
  "dec_digits n = (if n < 10 then [of_nat (48 + n)] else dec_digits (n div 10) @ [of_nat (48 + n mod 10)])"

declare dec_digits.simps [simp del]

definition NumberToString :: "u64 \<Rightarrow> bytes" where
  "NumberToString num = dec_digits (unat num)"

definition AppendNumberTo :: "bytes \<Rightarrow> u64 \<Rightarrow> bytes" where
  "AppendNumberTo str num = str @ NumberToString num"

fun ConsumeLoop :: "u64 \<Rightarrow> nat \<Rightarrow> bytes \<Rightarrow> (u64 \<times> nat) option" where
  "ConsumeLoop result consumed [] = Some (result, consumed)"
| "ConsumeLoop result consumed (b # p) =
     (if b < 48 \<or> b > 57 then Some (result, consumed)
      else let digit = ucast (b - 48) :: u64
           in if result > (0xffffffffffffffff - digit) div 10 then None
              else ConsumeLoop (result * 10 + digit) (consumed + 1) p)"

text \<open>\<open>None\<close> is the return value \<open>false\<close>, with the input left as it was.\<close>

definition ConsumeDecimalNumber :: "bytes \<Rightarrow> (u64 \<times> bytes) option" where
  "ConsumeDecimalNumber input =
     (case ConsumeLoop 0 0 input of
        None \<Rightarrow> None
      | Some (result, consumed) \<Rightarrow>
          if consumed = 0 then None else Some (result, drop consumed input))"

section \<open>Escaping (util/logging.cc)\<close>

definition isprint :: "byte \<Rightarrow> bool" where
  "isprint b \<longleftrightarrow> 32 \<le> b \<and> b \<le> 126"

definition hex_digit :: "byte \<Rightarrow> byte" where
  "hex_digit d = (if d < 10 then 48 + d else 87 + d)"

definition AppendHexEscape :: "bytes \<Rightarrow> byte \<Rightarrow> bytes" where
  "AppendHexEscape dst b = dst @ [92, 120, hex_digit (drop_bit 4 b), hex_digit (b AND 15)]"

fun AppendEscapedStringTo :: "bytes \<Rightarrow> bytes \<Rightarrow> bytes" where
  "AppendEscapedStringTo str [] = str"
| "AppendEscapedStringTo str (b # value) =
     AppendEscapedStringTo
       (if b = 10 then str @ [92, 110]
        else if b = 13 then str @ [92, 114]
        else if b = 9 then str @ [92, 116]
        else if b = 92 then str @ [92, 92]
        else if isprint b then str @ [b]
        else AppendHexEscape str b) value"

definition EscapeString :: "bytes \<Rightarrow> bytes" where
  "EscapeString value = AppendEscapedStringTo [] value"

section \<open>Parsing is exact\<close>

definition is_digit :: "byte \<Rightarrow> bool" where
  "is_digit b \<longleftrightarrow> 48 \<le> b \<and> b \<le> 57"

definition dec_value :: "nat \<Rightarrow> bytes \<Rightarrow> nat" where
  "dec_value = foldl (\<lambda>n b. n * 10 + (unat b - 48))"

lemma dec_value_simps [simp]:
  "dec_value n [] = n" "dec_value n (b # bs) = dec_value (n * 10 + (unat b - 48)) bs"
  by (simp_all add: dec_value_def)

lemma dec_value_append: "dec_value n (xs @ ys) = dec_value (dec_value n xs) ys"
  by (simp add: dec_value_def)

lemma dec_value_ge: "n \<le> dec_value n bs"
proof (induction bs arbitrary: n)
  case (Cons b bs)
  have "n \<le> n * 10 + (unat b - 48)"
    by simp
  also have "\<dots> \<le> dec_value (n * 10 + (unat b - 48)) bs"
    by (rule Cons.IH)
  finally show ?case
    by simp
qed simp

lemma overflow_check:
  fixes r d :: u64
  assumes "unat d \<le> 9"
  shows "r > (0xffffffffffffffff - d) div 10 \<longleftrightarrow> 2 ^ 64 \<le> unat r * 10 + unat d"
proof -
  have "unat (0xffffffffffffffff - d) = 18446744073709551615 - unat d"
    using assms by (subst unat_sub) (auto simp: word_le_nat_alt)
  then have "unat ((0xffffffffffffffff - d) div 10) = (18446744073709551615 - unat d) div 10"
    by (simp add: unat_div)
  then show ?thesis
    using assms by (simp add: word_less_nat_alt) linarith
qed

lemma ConsumeLoop_digits:
  assumes "\<forall>b \<in> set ds. is_digit b" and "rest = [] \<or> \<not> is_digit (hd rest)"
  shows "ConsumeLoop r n (ds @ rest) =
           (if dec_value (unat r) ds < 2 ^ 64
            then Some (of_nat (dec_value (unat r) ds), n + length ds) else None)"
  using assms(1)
proof (induction ds arbitrary: r n)
  case Nil
  have "unat r < 2 ^ 64"
    using unsigned_less [of r, where ?'a = nat] by simp
  with assms(2) show ?case
    by (cases rest) (auto simp: is_digit_def)
next
  case (Cons b ds)
  let ?d = "ucast (b - 48) :: u64"
  have b: "48 \<le> b" "b \<le> 57"
    using Cons.prems by (auto simp: is_digit_def)
  then have ub: "unat (b - 48) = unat b - 48" "48 \<le> unat b" "unat b \<le> 57"
    by (simp_all add: unat_sub word_le_nat_alt)
  then have d: "unat ?d = unat b - 48" "unat ?d \<le> 9"
    by (simp_all add: unsigned_ucast_eq take_bit_nat_eq_self)
  show ?case
  proof (cases "r > (0xffffffffffffffff - ?d) div 10")
    case True
    with overflow_check [OF d(2), of r] d(1) have "2 ^ 64 \<le> unat r * 10 + (unat b - 48)"
      by simp
    then have "\<not> dec_value (unat r * 10 + (unat b - 48)) ds < 2 ^ 64"
      using dec_value_ge [of "unat r * 10 + (unat b - 48)" ds] by simp
    with True b show ?thesis
      by (auto simp: Let_def not_less)
  next
    case False
    then have small: "unat r * 10 + (unat b - 48) < 2 ^ 64"
      using overflow_check [OF d(2), of r] d(1) by simp
    then have u: "unat (r * 10 + ?d) = unat r * 10 + (unat b - 48)"
      using d by (simp add: unat_word_ariths)
    have "ConsumeLoop r n ((b # ds) @ rest) = ConsumeLoop (r * 10 + ?d) (n + 1) (ds @ rest)"
      using False b by (auto simp: Let_def not_less)
    with Cons.IH [of "r * 10 + ?d" "n + 1"] Cons.prems show ?thesis
      by (simp add: u)
  qed
qed

lemma ConsumeDecimalNumber_digits:
  assumes "ds \<noteq> []" and "\<forall>b \<in> set ds. is_digit b" and "rest = [] \<or> \<not> is_digit (hd rest)"
  shows "ConsumeDecimalNumber (ds @ rest) =
           (if dec_value 0 ds < 2 ^ 64 then Some (of_nat (dec_value 0 ds), rest) else None)"
  using assms ConsumeLoop_digits [OF assms(2,3), of 0 0] by (simp add: ConsumeDecimalNumber_def)

lemma ConsumeDecimalNumber_no_digit:
  "s = [] \<or> \<not> is_digit (hd s) \<Longrightarrow> ConsumeDecimalNumber s = None"
  using ConsumeLoop_digits [of "[]" s 0 0] by (simp add: ConsumeDecimalNumber_def)

lemma dec_digits_digits: "\<forall>b \<in> set (dec_digits n). is_digit b"
proof (induction n rule: dec_digits.induct)
  case (1 n)
  have "is_digit (of_nat (48 + k))" if "k < 10" for k
    using that by (simp add: is_digit_def word_le_nat_alt unat_of_nat take_bit_nat_eq_self unat_word_ariths)
  with 1 show ?case
    by (auto simp: dec_digits.simps [of n] simp del: of_nat_add)
qed

lemma dec_digits_nonempty [simp]: "dec_digits n \<noteq> []"
  by (simp add: dec_digits.simps)

lemma unat_digit: "k < 10 \<Longrightarrow> unat (of_nat (48 + k) :: byte) - 48 = k"
  by (simp add: unat_of_nat unat_word_ariths)

lemma dec_value_dec_digits: "dec_value 0 (dec_digits n) = n"
proof (induction n rule: dec_digits.induct)
  case (1 n)
  then show ?case
    by (simp add: dec_digits.simps [of n] dec_value_append unat_digit del: of_nat_add)
qed

lemma dec_value_zeros: "dec_value 0 (replicate k 48 @ ds) = dec_value 0 ds"
  by (induction k) simp_all


section \<open>File names (db/filename.cc)\<close>

datatype FileType =
  kLogFile | kDBLockFile | kTableFile | kDescriptorFile | kTempFile | kInfoLogFile | kCurrentFile

text \<open>The conversion \<open>%06llu\<close>: at least six digits, padded with zeros.\<close>

definition pad6 :: "u64 \<Rightarrow> bytes" where
  "pad6 number = (let ds = dec_digits (unat number) in replicate (6 - length ds) 48 @ ds)"

definition MaskFileName :: "bytes \<Rightarrow> u64 \<Rightarrow> string \<Rightarrow> bytes" where
  "MaskFileName dbname number suffix = dbname @ lit ''/'' @ pad6 number @ lit ''.'' @ lit suffix"

definition SliceEquals :: "bytes \<Rightarrow> string \<Rightarrow> bool" where
  "SliceEquals s literal \<longleftrightarrow> length s = length literal \<and> s = lit literal"

definition SliceStartsWith :: "bytes \<Rightarrow> string \<Rightarrow> bool" where
  "SliceStartsWith s prefix \<longleftrightarrow>
     length s \<ge> length prefix \<and> take (length prefix) s = lit prefix"

definition LogFileName :: "bytes \<Rightarrow> u64 \<Rightarrow> bytes" where
  "LogFileName dbname number = MaskFileName dbname number ''log''"

definition TableFileName :: "bytes \<Rightarrow> u64 \<Rightarrow> bytes" where
  "TableFileName dbname number = MaskFileName dbname number ''ldb''"

definition DescriptorFileName :: "bytes \<Rightarrow> u64 \<Rightarrow> bytes" where
  "DescriptorFileName dbname number = dbname @ lit ''/MANIFEST-'' @ pad6 number"

definition CurrentFileName :: "bytes \<Rightarrow> bytes" where
  "CurrentFileName dbname = dbname @ lit ''/CURRENT''"

definition LockFileName :: "bytes \<Rightarrow> bytes" where
  "LockFileName dbname = dbname @ lit ''/LOCK''"

definition TempFileName :: "bytes \<Rightarrow> u64 \<Rightarrow> bytes" where
  "TempFileName dbname number = MaskFileName dbname number ''dbtmp''"

definition InfoLogFileName :: "bytes \<Rightarrow> bytes" where
  "InfoLogFileName dbname = dbname @ lit ''/LOG''"

definition OldInfoLogFileName :: "bytes \<Rightarrow> bytes" where
  "OldInfoLogFileName dbname = dbname @ lit ''/LOG.old''"

definition ParseFileName :: "bytes \<Rightarrow> (u64 \<times> FileType) option" where
  "ParseFileName filename =
     (if SliceEquals filename ''CURRENT'' then Some (0, kCurrentFile)
      else if SliceEquals filename ''LOCK'' then Some (0, kDBLockFile)
      else if SliceEquals filename ''LOG'' \<or> SliceEquals filename ''LOG.old'' then Some (0, kInfoLogFile)
      else if SliceStartsWith filename ''MANIFEST-''
      then (case ConsumeDecimalNumber (drop (length ''MANIFEST-'') filename) of
              None \<Rightarrow> None
            | Some (num, rest) \<Rightarrow> if rest \<noteq> [] then None else Some (num, kDescriptorFile))
      else (case ConsumeDecimalNumber filename of
              None \<Rightarrow> None
            | Some (num, rest) \<Rightarrow>
                if SliceEquals rest ''.log'' then Some (num, kLogFile)
                else if SliceEquals rest ''.sst'' \<or> SliceEquals rest ''.ldb'' then Some (num, kTableFile)
                else if SliceEquals rest ''.dbtmp'' then Some (num, kTempFile)
                else None))"

lemma pad6_digits: "\<forall>b \<in> set (pad6 n). is_digit b"
  using dec_digits_digits by (auto simp: pad6_def Let_def is_digit_def)

lemma pad6_nonempty [simp]: "pad6 n \<noteq> []"
  by (simp add: pad6_def Let_def)

lemma dec_value_pad6: "dec_value 0 (pad6 n) = unat n"
  by (simp add: pad6_def Let_def dec_value_zeros dec_value_dec_digits)

lemma ConsumeDecimalNumber_pad6:
  "rest = [] \<or> \<not> is_digit (hd rest) \<Longrightarrow> ConsumeDecimalNumber (pad6 n @ rest) = Some (n, rest)"
  using ConsumeDecimalNumber_digits [OF pad6_nonempty pad6_digits, of rest n]
    unsigned_less [of n, where ?'a = nat] by (simp add: dec_value_pad6)

lemma digit_hd_not_literal:
  assumes "x \<noteq> []" "is_digit (hd x)" "\<not> is_digit (hd (lit l))" "l \<noteq> []"
  shows "\<not> SliceEquals (x @ y) l" "\<not> SliceStartsWith (x @ y) l"
proof -
  have "take (length l) (x @ y) \<noteq> lit l"
  proof
    assume "take (length l) (x @ y) = lit l"
    then have "hd (take (length l) (x @ y)) = hd (lit l)"
      by (rule arg_cong)
    with assms show False
      by (cases x; cases l) auto
  qed
  then show "\<not> SliceEquals (x @ y) l" "\<not> SliceStartsWith (x @ y) l"
    by (auto simp: SliceEquals_def SliceStartsWith_def)
qed

lemma lit_hds [simp]:
  "\<not> is_digit (hd (lit ''CURRENT''))" "\<not> is_digit (hd (lit ''LOCK''))" "\<not> is_digit (hd (lit ''LOG''))"
  "\<not> is_digit (hd (lit ''LOG.old''))" "\<not> is_digit (hd (lit ''MANIFEST-''))"
  by (simp_all add: lit_def is_digit_def)

lemma ParseFileName_pad6:
  "ParseFileName (pad6 n @ rest) =
     (case ConsumeDecimalNumber (pad6 n @ rest) of
              None \<Rightarrow> None
            | Some (num, rest) \<Rightarrow>
                if SliceEquals rest ''.log'' then Some (num, kLogFile)
                else if SliceEquals rest ''.sst'' \<or> SliceEquals rest ''.ldb'' then Some (num, kTableFile)
                else if SliceEquals rest ''.dbtmp'' then Some (num, kTempFile)
                else None)"
proof -
  have "is_digit (hd (pad6 n))"
    using pad6_digits [of n] by simp
  note no = digit_hd_not_literal [OF pad6_nonempty this]
  show ?thesis
    unfolding ParseFileName_def by (simp add: no)
qed

text \<open>The name of a file within its directory.\<close>

definition base_name :: "bytes \<Rightarrow> bytes \<Rightarrow> bytes" where
  "base_name dbname path = drop (length dbname + 1) path"

lemma ParseFileName_Mask:
  "ParseFileName (base_name db (LogFileName db n)) = Some (n, kLogFile)"
  "ParseFileName (base_name db (TableFileName db n)) = Some (n, kTableFile)"
  "ParseFileName (base_name db (TempFileName db n)) = Some (n, kTempFile)"
  by (simp_all add: base_name_def LogFileName_def TableFileName_def TempFileName_def MaskFileName_def
      ParseFileName_pad6 ConsumeDecimalNumber_pad6 SliceEquals_def lit_def is_digit_def)

lemma ParseFileName_fixed:
  "ParseFileName (base_name db (CurrentFileName db)) = Some (0, kCurrentFile)"
  "ParseFileName (base_name db (LockFileName db)) = Some (0, kDBLockFile)"
  "ParseFileName (base_name db (InfoLogFileName db)) = Some (0, kInfoLogFile)"
  "ParseFileName (base_name db (OldInfoLogFileName db)) = Some (0, kInfoLogFile)"
  by (simp_all add: base_name_def CurrentFileName_def LockFileName_def InfoLogFileName_def
      OldInfoLogFileName_def ParseFileName_def SliceEquals_def lit_def)

lemma ParseFileName_Descriptor:
  "ParseFileName (base_name db (DescriptorFileName db n)) = Some (n, kDescriptorFile)"
proof -
  have "base_name db (DescriptorFileName db n) = lit ''MANIFEST-'' @ pad6 n"
    by (simp add: base_name_def DescriptorFileName_def lit_def)
  moreover have "SliceStartsWith (lit ''MANIFEST-'' @ pad6 n) ''MANIFEST-''"
    by (simp add: SliceStartsWith_def)
  moreover have "\<not> SliceEquals (lit ''MANIFEST-'' @ pad6 n) l" if "length l \<le> 9" for l
    using that pad6_nonempty [of n] by (cases "pad6 n") (auto simp: SliceEquals_def dest: arg_cong [of _ _ length])
  ultimately show ?thesis
    using ConsumeDecimalNumber_pad6 [of "[]" n] by (simp add: ParseFileName_def)
qed

end
