(* ===== verification/Formats.thy ===== *)
theory Formats
  imports Files Hashes
begin

text \<open>
  The file format of tables (db/format.cc, db/format.h): block handles, the footer, and
  \<open>ReadBlock\<close>; and positional reads (\<open>PosixRandomAccessFile\<close> of util/env.cc). The locale
  \<open>random_file\<close> is the contract of a file that does not change while it is read.
\<close>

section \<open>Positional reads\<close>

text \<open>
  A read returns its status, the bytes, and whether they lie in the caller's buffer (as opposed
  to memory of the file object).
\<close>

type_synonym random_read = "nat \<Rightarrow> nat \<Rightarrow> (Status \<times> bytes \<times> bool) option"

locale random_file =
  fixes read :: random_read and contents :: bytes and in_buffer :: bool
  assumes read_at: "off \<le> 2 ^ 63 - 1 \<Longrightarrow> off + n \<le> length contents \<Longrightarrow> read off n = Some (OK, take n (drop off contents), in_buffer)"

type_synonym 'o pr_call = "nat \<Rightarrow> nat \<Rightarrow> 'o \<Rightarrow> (sysret \<times> bytes) \<times> 'o"

text \<open>\<open>pread offset n\<close> is \<open>::pread\<close>; it is repeated while a signal interrupts it.\<close>

partial_function (option) PreadLoop ::
    "(nat \<Rightarrow> bytes) \<Rightarrow> 'o pr_call \<Rightarrow> bytes \<Rightarrow> nat \<Rightarrow> nat \<Rightarrow> 'o \<Rightarrow> (Status \<times> bytes) option" where
  "PreadLoop serr pread filename offset n k =
     (let ((r, bs), k') = pread offset n k
      in case r of
           SysErr e \<Rightarrow>
             if e = EINTR then PreadLoop serr pread filename offset n k'
             else Some (PosixError serr filename e, [])
         | SysOk m \<Rightarrow> Some (OK, take m bs))"

definition PosixRandom_Read :: "(nat \<Rightarrow> bytes) \<Rightarrow> 'o pr_call \<Rightarrow> bytes \<Rightarrow> 'o \<Rightarrow> random_read" where
  "PosixRandom_Read serr pread filename k offset n =
     (if offset > 2 ^ 63 - 1 then Some (InvalidArgument (lit ''read offset too large'') filename, [], False)
      else map_option (\<lambda>(s, bs). (s, bs, ok s)) (PreadLoop serr pread filename offset n k))"

text \<open>A kernel file of bytes \<open>k\<close>.\<close>

definition disk_pread :: "bytes pr_call" where
  "disk_pread offset n k = ((SysOk (length (take n (drop offset k))), take n (drop offset k)), k)"

lemma PosixRandom_disk:
  "offset \<le> 2 ^ 63 - 1 \<Longrightarrow>
   PosixRandom_Read serr disk_pread filename k offset n = Some (OK, take n (drop offset k), True)"
  by (simp add: PosixRandom_Read_def PreadLoop.simps disk_pread_def OK_def ok_def min_def)

section \<open>Block handles\<close>

record BlockHandle =
  bh_offset :: u64
  bh_size :: u64

definition BlockHandle_new :: BlockHandle where
  "BlockHandle_new = \<lparr>bh_offset = NOT 0, bh_size = NOT 0\<rparr>"

definition BlockHandle_EncodeTo :: "BlockHandle \<Rightarrow> bytes \<Rightarrow> bytes" where
  "BlockHandle_EncodeTo h dst = PutVarint64 (PutVarint64 dst (bh_offset h)) (bh_size h)"

text \<open>A decoder returns \<open>Inl\<close> its error, or the value and the rest of the input.\<close>

definition BlockHandle_DecodeFrom :: "bytes \<Rightarrow> Status + BlockHandle \<times> bytes" where
  "BlockHandle_DecodeFrom input =
     (case GetVarint64 input of
        None \<Rightarrow> Inl (Corruption (lit ''bad block handle'') [])
      | Some (off, r1) \<Rightarrow>
          (case GetVarint64 r1 of
             None \<Rightarrow> Inl (Corruption (lit ''bad block handle'') [])
           | Some (sz, r2) \<Rightarrow> Inr (\<lparr>bh_offset = off, bh_size = sz\<rparr>, r2)))"

definition kMaxEncodedLength :: nat where
  "kMaxEncodedLength = 10 + 10"

section \<open>The footer\<close>

record Footer =
  ft_metaindex_handle :: BlockHandle
  ft_index_handle :: BlockHandle

definition kEncodedLength :: nat where
  "kEncodedLength = 2 * kMaxEncodedLength + 8"

definition kTableMagicNumber :: u64 where
  "kTableMagicNumber = 0xdb4775248b80fb57"

definition kBlockTrailerSize :: nat where
  "kBlockTrailerSize = 5"

text \<open>\<open>std::string::resize\<close> cuts or pads with zero bytes.\<close>

definition resize :: "nat \<Rightarrow> bytes \<Rightarrow> bytes" where
  "resize n s = take n (s @ replicate (n - length s) 0)"

definition Footer_EncodeTo :: "Footer \<Rightarrow> bytes \<Rightarrow> bytes" where
  "Footer_EncodeTo f dst =
     (let original_size = length dst;
          dst = BlockHandle_EncodeTo (ft_metaindex_handle f) dst;
          dst = BlockHandle_EncodeTo (ft_index_handle f) dst;
          dst = resize (original_size + 2 * kMaxEncodedLength) dst;
          dst = PutFixed32 dst (ucast kTableMagicNumber)
      in PutFixed32 dst (ucast (drop_bit 32 kTableMagicNumber)))"

definition Footer_DecodeFrom :: "bytes \<Rightarrow> Status + Footer \<times> bytes" where
  "Footer_DecodeFrom input =
     (if length input < kEncodedLength then Inl (Corruption (lit ''not an sstable (footer too short)'') [])
      else let magic_lo = DecodeFixed32 (drop (kEncodedLength - 8) input);
               magic_hi = DecodeFixed32 (drop (kEncodedLength - 4) input);
               magic = push_bit 32 (ucast magic_hi :: u64) OR ucast magic_lo
           in if magic \<noteq> kTableMagicNumber
              then Inl (Corruption (lit ''not an sstable (bad magic number)'') [])
              else case BlockHandle_DecodeFrom input of
                     Inl s \<Rightarrow> Inl s
                   | Inr (meta, r1) \<Rightarrow>
                       (case BlockHandle_DecodeFrom r1 of
                          Inl s \<Rightarrow> Inl s
                        | Inr (index, r2) \<Rightarrow>
                            Inr (\<lparr>ft_metaindex_handle = meta, ft_index_handle = index\<rparr>, drop kEncodedLength input)))"

section \<open>ReadBlock\<close>

datatype CompressionType = kNoCompression | kSnappyCompression | kZstdCompression

fun compression_byte :: "CompressionType \<Rightarrow> byte" where
  "compression_byte kNoCompression = 0"
| "compression_byte kSnappyCompression = 1"
| "compression_byte kZstdCompression = 2"

record BlockContents =
  bc_data :: bytes
  bc_cachable :: bool
  bc_heap_allocated :: bool

record ReadOptions =
  ro_verify_checksums :: bool
  ro_fill_cache :: bool

text \<open>\<open>n + kBlockTrailerSize\<close> is a \<open>size_t\<close> sum. \<open>None\<close> is a read that never returns.\<close>

definition ReadBlock :: "random_read \<Rightarrow> ReadOptions \<Rightarrow> BlockHandle \<Rightarrow> (Status + BlockContents) option" where
  "ReadBlock read options handle =
     (let n = unat (bh_size handle); total = (n + kBlockTrailerSize) mod 2 ^ 64
      in case read (unat (bh_offset handle)) total of
           None \<Rightarrow> None
         | Some (s, contents, in_buf) \<Rightarrow> Some
             (if \<not> ok s then Inl s
              else if length contents \<noteq> total then Inl (Corruption (lit ''truncated block read'') [])
              else if ro_verify_checksums options
                   \<and> Unmask (DecodeFixed32 (drop (n + 1) contents)) \<noteq> Value (take (n + 1) contents)
              then Inl (Corruption (lit ''block checksum mismatch'') [])
              else if byte_at contents n \<noteq> compression_byte kNoCompression
              then Inl (NotSupported (lit ''compressed block'') [])
              else Inr \<lparr>bc_data = take n contents, bc_cachable = in_buf, bc_heap_allocated = in_buf\<rparr>))"

text \<open>The trailer a block is stored with (\<open>WriteRawBlock\<close>).\<close>

definition block_trailer :: "bytes \<Rightarrow> CompressionType \<Rightarrow> bytes" where
  "block_trailer data type =
     compression_byte type # EncodeFixed32 (Mask (Extend (Value data) [compression_byte type]))"

section \<open>Round trips\<close>

lemma BlockHandle_Decode_Encode [coding_simps]:
  "BlockHandle_DecodeFrom (BlockHandle_EncodeTo h [] @ rest) = Inr (h, rest)"
  by (simp add: BlockHandle_DecodeFrom_def BlockHandle_EncodeTo_def PutVarint64_def)

lemma BlockHandle_EncodeTo_append: "BlockHandle_EncodeTo h dst = dst @ BlockHandle_EncodeTo h []"
  by (simp add: BlockHandle_EncodeTo_def PutVarint64_def)

lemma BlockHandle_EncodeTo_length: "length (BlockHandle_EncodeTo h []) \<le> kMaxEncodedLength"
  using add_mono [OF length_EncodeVarint64 length_EncodeVarint64]
  by (simp add: BlockHandle_EncodeTo_def PutVarint64_def kMaxEncodedLength_def)

lemma BlockHandle_EncodeTo_nonempty: "BlockHandle_EncodeTo h [] \<noteq> []"
  by (simp add: BlockHandle_EncodeTo_def PutVarint64_def)

lemma Footer_bytes:
  "Footer_EncodeTo f [] =
     (let hs = BlockHandle_EncodeTo (ft_metaindex_handle f) [] @ BlockHandle_EncodeTo (ft_index_handle f) []
      in hs @ replicate (40 - length hs) 0
         @ EncodeFixed32 (ucast kTableMagicNumber) @ EncodeFixed32 (ucast (drop_bit 32 kTableMagicNumber)))"
proof -
  have "length (BlockHandle_EncodeTo (ft_metaindex_handle f) []) + length (BlockHandle_EncodeTo (ft_index_handle f) []) \<le> 40"
    using add_mono [OF BlockHandle_EncodeTo_length BlockHandle_EncodeTo_length]
    by (simp add: kMaxEncodedLength_def)
  then show ?thesis
    by (simp add: Footer_EncodeTo_def Let_def resize_def PutFixed32_def kMaxEncodedLength_def
        BlockHandle_EncodeTo_append [of _ "BlockHandle_EncodeTo _ []"])
qed

lemma Footer_length: "length (Footer_EncodeTo f []) = kEncodedLength"
proof -
  have "length (BlockHandle_EncodeTo (ft_metaindex_handle f) []) + length (BlockHandle_EncodeTo (ft_index_handle f) []) \<le> 40"
    using add_mono [OF BlockHandle_EncodeTo_length BlockHandle_EncodeTo_length]
    by (simp add: kMaxEncodedLength_def)
  then show ?thesis
    by (simp add: Footer_bytes Let_def kEncodedLength_def kMaxEncodedLength_def)
qed

lemma magic_halves:
  "push_bit 32 (ucast (ucast (drop_bit 32 kTableMagicNumber) :: u32) :: u64) OR ucast (ucast kTableMagicNumber :: u32)
    = kTableMagicNumber"
  by code_simp

lemma Footer_Decode_Encode: "Footer_DecodeFrom (Footer_EncodeTo f [] @ rest) = Inr (f, rest)"
proof -
  let ?hs = "BlockHandle_EncodeTo (ft_metaindex_handle f) [] @ BlockHandle_EncodeTo (ft_index_handle f) []"
  let ?pad = "replicate (40 - length ?hs) 0 :: bytes"
  have len: "length (?hs @ ?pad) = 40"
    using add_mono [OF BlockHandle_EncodeTo_length BlockHandle_EncodeTo_length, of "ft_metaindex_handle f" "ft_index_handle f"]
    by (simp add: kMaxEncodedLength_def)
  let ?m = "EncodeFixed32 (ucast kTableMagicNumber)" and ?n = "EncodeFixed32 (ucast (drop_bit 32 kTableMagicNumber))"
  have bytes: "Footer_EncodeTo f [] @ rest = (?hs @ ?pad) @ ?m @ ?n @ rest"
    by (simp add: Footer_bytes Let_def)
  have d40: "drop 40 (Footer_EncodeTo f [] @ rest) = ?m @ ?n @ rest"
    unfolding bytes using len by (metis drop_eq_append)
  have "drop 44 (Footer_EncodeTo f [] @ rest) = drop 4 (drop 40 (Footer_EncodeTo f [] @ rest))"
    by (simp only: drop_drop) simp
  also have "\<dots> = ?n @ rest" unfolding d40 by simp
  finally have d44: "drop 44 (Footer_EncodeTo f [] @ rest) = ?n @ rest" .
  have d48: "drop kEncodedLength (Footer_EncodeTo f [] @ rest) = rest"
    using Footer_length [of f] by simp
  have "\<not> length (Footer_EncodeTo f [] @ rest) < kEncodedLength"
    by (simp add: Footer_length)
  moreover have "BlockHandle_DecodeFrom (Footer_EncodeTo f [] @ rest)
      = Inr (ft_metaindex_handle f, BlockHandle_EncodeTo (ft_index_handle f) [] @ ?pad @ ?m @ ?n @ rest)"
    unfolding bytes by (simp add: BlockHandle_Decode_Encode)
  ultimately show ?thesis
    using d40 d44 d48 magic_halves
    by (simp add: Footer_DecodeFrom_def kEncodedLength_def kMaxEncodedLength_def BlockHandle_Decode_Encode)
qed

lemma Value_trailer: "Value (data @ [b]) = Extend (Value data) [b]"
  by (simp add: Value_def Extend_Extend)

context random_file
begin

text \<open>A block stored with its trailer is read back, with or without checking.\<close>

lemma ReadBlock_stored:
  assumes c: "contents = pre @ data @ block_trailer data kNoCompression @ post"
    and h: "unat (bh_offset h) = length pre" "unat (bh_size h) = length data"
    and fits: "length contents < 2 ^ 63"
  shows "ReadBlock read options h = Some (Inr \<lparr>bc_data = data, bc_cachable = in_buffer, bc_heap_allocated = in_buffer\<rparr>)"
proof -
  have t: "length (block_trailer data kNoCompression) = 5"
    by (simp add: block_trailer_def)
  have total: "(length data + kBlockTrailerSize) mod 2 ^ 64 = length data + 5"
    using fits c t by (simp add: kBlockTrailerSize_def)
  have r: "read (length pre) (length data + 5) = Some (OK, data @ block_trailer data kNoCompression, in_buffer)"
    using c t fits by (subst read_at) simp_all
  have "Unmask (DecodeFixed32 (drop (length data + 1) (data @ block_trailer data kNoCompression)))
      = Value (take (length data + 1) (data @ block_trailer data kNoCompression))"
    using DecodeFixed32_EncodeFixed32 [of _ "[]"] by (simp add: block_trailer_def Value_trailer Unmask_Mask)
  moreover have "byte_at (data @ block_trailer data kNoCompression) (length data) = 0"
    using byte_at_append2 [of data "block_trailer data kNoCompression" 0] by (simp add: block_trailer_def)
  ultimately show ?thesis
    using total r t unfolding ReadBlock_def h Let_def by (simp add: OK_def ok_def)
qed

end

text \<open>A file of the operating system, whole and unchanging, keeps the contract.\<close>

interpretation disk: random_file "PosixRandom_Read serr disk_pread filename k" k True for serr filename k
  by unfold_locales (simp add: PosixRandom_disk)

end
