(* ===== verification/Iterators.thy ===== *)
theory Iterators
  imports Comparators Statuses
begin

text \<open>
  The iterator protocol (include/lindb/iterator.h, db/iterator.cc, db/iterator_wrapper.h). An
  iterator object is a state together with the record of its virtual functions; an operation
  returns \<open>None\<close> when one of its loops does not end. The locale \<open>sorted_iterator\<close> is the contract
  every cursor over a sorted run of entries keeps: each operation returns, and the cursor
  stands where the contract says.
\<close>

section \<open>The virtual functions\<close>

record 's iter_ops =
  it_Valid :: "'s \<Rightarrow> bool"
  it_SeekToFirst :: "'s \<Rightarrow> 's option"
  it_SeekToLast :: "'s \<Rightarrow> 's option"
  it_Seek :: "'s \<Rightarrow> bytes \<Rightarrow> 's option"
  it_Next :: "'s \<Rightarrow> 's option"
  it_Prev :: "'s \<Rightarrow> 's option"
  it_key :: "'s \<Rightarrow> bytes"
  it_value :: "'s \<Rightarrow> bytes"
  it_status :: "'s \<Rightarrow> Status"

text \<open>
  The empty iterator: its state is its status. \<open>key\<close> and \<open>value\<close> assert false, and return the
  empty slice where assertions are compiled out.
\<close>

definition EmptyIterator :: "Status iter_ops" where
  "EmptyIterator = \<lparr>it_Valid = (\<lambda>s. False), it_SeekToFirst = Some, it_SeekToLast = Some,
     it_Seek = (\<lambda>s target. Some s), it_Next = Some, it_Prev = Some,
     it_key = (\<lambda>s. []), it_value = (\<lambda>s. []), it_status = (\<lambda>s. s)\<rparr>"

definition NewEmptyIterator :: Status where
  "NewEmptyIterator = OK"

definition NewErrorIterator :: "Status \<Rightarrow> Status" where
  "NewErrorIterator status = status"

section \<open>Cleanup functions\<close>

text \<open>
  The cleanup chain, embedded head first; the destructor runs the chain in order. A head whose
  function is null is the empty chain.
\<close>

type_synonym 'f cleanups = "'f list"

fun RegisterCleanup :: "'f cleanups \<Rightarrow> 'f \<Rightarrow> 'f cleanups" where
  "RegisterCleanup [] f = [f]"
| "RegisterCleanup (head # nodes) f = head # f # nodes"

fun run_cleanups :: "('f \<Rightarrow> 'w \<Rightarrow> 'w) \<Rightarrow> 'f cleanups \<Rightarrow> 'w \<Rightarrow> 'w" where
  "run_cleanups run [] w = w"
| "run_cleanups run (node # nodes) w = run_cleanups run nodes (run node w)"

lemma RegisterCleanup_chain: "foldl RegisterCleanup (h # ns) fs = h # rev fs @ ns"
  by (induction fs arbitrary: ns) auto

lemma RegisterCleanup_all: "foldl RegisterCleanup [] (f # fs) = f # rev fs"
  using RegisterCleanup_chain [of f "[]" fs] by simp

section \<open>The contract of a sorted cursor\<close>

type_synonym entries = "(bytes \<times> bytes) list"

text \<open>The index of the first entry whose key is not below the target.\<close>

definition lower_bound :: "comparator \<Rightarrow> entries \<Rightarrow> bytes \<Rightarrow> nat" where
  "lower_bound c es target = length (takeWhile (\<lambda>e. Compare c (fst e) target < 0) es)"

lemma lower_bound_le: "lower_bound c es t \<le> length es"
  by (simp add: lower_bound_def length_takeWhile_le)

lemma lower_bound_less: "i < lower_bound c es t \<Longrightarrow> Compare c (fst (es ! i)) t < 0"
  unfolding lower_bound_def by (metis (mono_tags, lifting) nth_mem set_takeWhileD takeWhile_nth)

lemma lower_bound_ge: "lower_bound c es t < length es \<Longrightarrow> \<not> Compare c (fst (es ! lower_bound c es t)) t < 0"
  unfolding lower_bound_def by (rule nth_length_takeWhile)

lemma lower_boundI:
  assumes "i \<le> length es" "\<And>j. j < i \<Longrightarrow> Compare c (fst (es ! j)) t < 0"
    and "i < length es \<Longrightarrow> \<not> Compare c (fst (es ! i)) t < 0"
  shows "lower_bound c es t = i"
proof (rule ccontr)
  assume "lower_bound c es t \<noteq> i"
  then consider "lower_bound c es t < i" | "i < lower_bound c es t"
    by linarith
  then show False
  proof cases
    case 1
    with assms lower_bound_ge [of c es t] show False by fastforce
  next
    case 2
    with assms(3) lower_bound_less [OF 2] lower_bound_le [of c es t] show False by simp
  qed
qed

text \<open>
  \<open>at s es i\<close> relates a state to the entries it runs over and to its position; the position
  \<open>length es\<close> is the invalid one.
\<close>

locale sorted_iterator =
  fixes c :: comparator and dm :: "bytes \<Rightarrow> bool"
    and ops :: "'s iter_ops"
    and at :: "'s \<Rightarrow> entries \<Rightarrow> nat \<Rightarrow> bool"
  assumes at_Valid: "at s es i \<Longrightarrow> it_Valid ops s \<longleftrightarrow> i < length es"
    and at_le: "at s es i \<Longrightarrow> i \<le> length es"
    and at_key: "at s es i \<Longrightarrow> i < length es \<Longrightarrow> it_key ops s = fst (es ! i)"
    and at_value: "at s es i \<Longrightarrow> i < length es \<Longrightarrow> it_value ops s = snd (es ! i)"
    and at_status: "at s es i \<Longrightarrow> it_status ops s = OK"
    and at_dom: "at s es i \<Longrightarrow> e \<in> set es \<Longrightarrow> dm (fst e)"
    and at_sorted: "at s es i \<Longrightarrow> sorted_wrt (\<lambda>a b. Compare c (fst a) (fst b) < 0) es"
    and at_SeekToFirst: "at s es i \<Longrightarrow> \<exists>s'. it_SeekToFirst ops s = Some s' \<and> at s' es 0"
    and at_SeekToLast: "at s es i \<Longrightarrow> \<exists>s'. it_SeekToLast ops s = Some s' \<and> at s' es (length es - 1)"
    and at_Seek: "at s es i \<Longrightarrow> dm t \<Longrightarrow> \<exists>s'. it_Seek ops s t = Some s' \<and> at s' es (lower_bound c es t)"
    and at_Next: "at s es i \<Longrightarrow> i < length es \<Longrightarrow> \<exists>s'. it_Next ops s = Some s' \<and> at s' es (Suc i)"
    and at_Prev: "at s es i \<Longrightarrow> i < length es \<Longrightarrow>
      \<exists>s'. it_Prev ops s = Some s' \<and> at s' es (if i = 0 then length es else i - 1)"

text \<open>A full scan, as BuildTable and the compaction loop do it: first to last with \<open>Next\<close>.\<close>

partial_function (option) scan_from :: "'s iter_ops \<Rightarrow> 's \<Rightarrow> entries option" where
  "scan_from ops s =
     (if it_Valid ops s
      then Option.bind (it_Next ops s) (\<lambda>s'.
             Option.bind (scan_from ops s') (\<lambda>es. Some ((it_key ops s, it_value ops s) # es)))
      else Some [])"

definition scan :: "'s iter_ops \<Rightarrow> 's \<Rightarrow> entries option" where
  "scan ops s = Option.bind (it_SeekToFirst ops s) (scan_from ops)"

text \<open>And backwards, from the last entry with \<open>Prev\<close>.\<close>

partial_function (option) rscan_from :: "'s iter_ops \<Rightarrow> 's \<Rightarrow> entries option" where
  "rscan_from ops s =
     (if it_Valid ops s
      then Option.bind (it_Prev ops s) (\<lambda>s'.
             Option.bind (rscan_from ops s') (\<lambda>es. Some ((it_key ops s, it_value ops s) # es)))
      else Some [])"

definition rscan :: "'s iter_ops \<Rightarrow> 's \<Rightarrow> entries option" where
  "rscan ops s = Option.bind (it_SeekToLast ops s) (rscan_from ops)"

context sorted_iterator
begin

lemma scan_from_at: "at s es i \<Longrightarrow> scan_from ops s = Some (drop i es)"
proof (induction "length es - i" arbitrary: s i)
  case 0
  then show ?case
    using at_Valid [OF 0(2)] by (simp add: scan_from.simps [of _ s])
next
  case (Suc n)
  from Suc.hyps(2) have i: "i < length es" by simp
  then obtain s' where s': "it_Next ops s = Some s'" "at s' es (Suc i)"
    using at_Next [OF Suc.prems] by blast
  have "scan_from ops s' = Some (drop (Suc i) es)"
    using Suc.hyps s' by simp
  with s' i show ?case
    using at_Valid [OF Suc.prems] at_key [OF Suc.prems i] at_value [OF Suc.prems i]
    by (simp add: scan_from.simps [of _ s] Cons_nth_drop_Suc)
qed

lemma scan_at:
  assumes "at s es i" shows "scan ops s = Some es"
proof -
  obtain s' where "it_SeekToFirst ops s = Some s'" "at s' es 0"
    using at_SeekToFirst [OF assms] by blast
  then show ?thesis
    using scan_from_at [of s' es 0] by (simp add: scan_def)
qed

lemma rscan_from_at: "at s es i \<Longrightarrow> i < length es \<Longrightarrow> rscan_from ops s = Some (rev (take (Suc i) es))"
proof (induction i arbitrary: s)
  case 0
  then obtain s' where s': "it_Prev ops s = Some s'" "at s' es (length es)"
    using at_Prev [OF 0] by auto
  then have "rscan_from ops s' = Some []"
    using at_Valid [OF s'(2)] by (simp add: rscan_from.simps [of _ s'])
  with 0 s' show ?case
    using at_Valid [OF 0(1)] at_key [OF 0] at_value [OF 0]
    by (simp add: rscan_from.simps [of _ s] take_Suc_conv_app_nth)
next
  case (Suc i)
  then obtain s' where s': "it_Prev ops s = Some s'" "at s' es i"
    using at_Prev [OF Suc.prems] by auto
  then have "rscan_from ops s' = Some (rev (take (Suc i) es))"
    using Suc by simp
  with Suc.prems s' show ?case
    using at_Valid [OF Suc.prems(1)] at_key [OF Suc.prems] at_value [OF Suc.prems]
    by (simp add: rscan_from.simps [of _ s] take_Suc_conv_app_nth [of "Suc i"])
qed

lemma rscan_at:
  assumes "at s es i" shows "rscan ops s = Some (rev es)"
proof -
  obtain s' where s': "it_SeekToLast ops s = Some s'" "at s' es (length es - 1)"
    using at_SeekToLast [OF assms] by blast
  show ?thesis
  proof (cases "es = []")
    case True
    with s' show ?thesis
      using at_Valid [OF s'(2)] by (simp add: rscan_def rscan_from.simps [of _ s'])
  next
    case False
    with s' show ?thesis
      using rscan_from_at [OF s'(2)] by (simp add: rscan_def)
  qed
qed

text \<open>What a client sees of a cursor: both scans, and where a seek leads.\<close>

lemma cursor_at:
  assumes "at s es i" "dm t"
  shows "scan ops s = Some es \<and> rscan ops s = Some (rev es)
    \<and> (\<exists>s'. it_Seek ops s t = Some s' \<and> it_Valid ops s' = (lower_bound c es t < length es)
         \<and> (lower_bound c es t < length es \<longrightarrow> (it_key ops s', it_value ops s') = es ! lower_bound c es t))"
proof -
  obtain s' where s': "it_Seek ops s t = Some s'" "at s' es (lower_bound c es t)"
    using at_Seek [OF assms] by blast
  then show ?thesis
    using scan_at [OF assms(1)] rscan_at [OF assms(1)] at_Valid [OF s'(2)] at_key [OF s'(2)] at_value [OF s'(2)] by simp
qed

end

text \<open>The empty iterator keeps the contract over no entries.\<close>

definition at_empty :: "Status \<Rightarrow> entries \<Rightarrow> nat \<Rightarrow> bool" where
  "at_empty s es i \<longleftrightarrow> es = [] \<and> i = 0 \<and> s = OK"

sublocale comparator_laws \<subseteq> empty_iter: sorted_iterator c dm EmptyIterator at_empty
  by unfold_locales (auto simp: EmptyIterator_def lower_bound_def at_empty_def)

section \<open>Virtual dispatch\<close>

text \<open>An iterator pointer that may hold one of two classes: a call goes to the class of the object.\<close>

definition Dispatch :: "'a iter_ops \<Rightarrow> 'b iter_ops \<Rightarrow> ('a + 'b) iter_ops" where
  "Dispatch f g = \<lparr>it_Valid = case_sum (it_Valid f) (it_Valid g),
     it_SeekToFirst = case_sum (map_option Inl \<circ> it_SeekToFirst f) (map_option Inr \<circ> it_SeekToFirst g),
     it_SeekToLast = case_sum (map_option Inl \<circ> it_SeekToLast f) (map_option Inr \<circ> it_SeekToLast g),
     it_Seek = (\<lambda>s t. case_sum (\<lambda>x. map_option Inl (it_Seek f x t)) (\<lambda>y. map_option Inr (it_Seek g y t)) s),
     it_Next = case_sum (map_option Inl \<circ> it_Next f) (map_option Inr \<circ> it_Next g),
     it_Prev = case_sum (map_option Inl \<circ> it_Prev f) (map_option Inr \<circ> it_Prev g),
     it_key = case_sum (it_key f) (it_key g),
     it_value = case_sum (it_value f) (it_value g),
     it_status = case_sum (it_status f) (it_status g)\<rparr>"

lemma Dispatch_sorted:
  assumes "sorted_iterator c dm f at1" "sorted_iterator c dm g at2"
  shows "sorted_iterator c dm (Dispatch f g) (case_sum at1 at2)"
proof (unfold_locales, goal_cases)
  case (1 s es i) then show ?case
    using assms by (cases s) (simp_all add: Dispatch_def sorted_iterator.at_Valid)
next
  case (2 s es i) then show ?case
    using assms by (cases s) (simp_all add: sorted_iterator.at_le)
next
  case (3 s es i) then show ?case
    using assms by (cases s) (simp_all add: Dispatch_def sorted_iterator.at_key)
next
  case (4 s es i) then show ?case
    using assms by (cases s) (simp_all add: Dispatch_def sorted_iterator.at_value)
next
  case (5 s es i) then show ?case
    using assms by (cases s) (simp_all add: Dispatch_def sorted_iterator.at_status)
next
  case (6 s es i e) then show ?case
    using assms by (cases s) (auto dest: sorted_iterator.at_dom)
next
  case (7 s es i) then show ?case
    using assms by (cases s) (auto dest: sorted_iterator.at_sorted)
next
  case (8 s es i) then show ?case
    using assms by (cases s) (fastforce simp: Dispatch_def dest: sorted_iterator.at_SeekToFirst)+
next
  case (9 s es i) then show ?case
    using assms by (cases s) (fastforce simp: Dispatch_def dest: sorted_iterator.at_SeekToLast)+
next
  case (10 s es i t) then show ?case
    using assms by (cases s) (fastforce simp: Dispatch_def dest: sorted_iterator.at_Seek)+
next
  case (11 s es i) then show ?case
    using assms by (cases s) (fastforce simp: Dispatch_def dest: sorted_iterator.at_Next)+
next
  case (12 s es i) then show ?case
    using assms by (cases s) (fastforce simp: Dispatch_def dest: sorted_iterator.at_Prev simp del: if_split)+
qed

text \<open>Objects of one class with different members: the state carries what the operations depend on.\<close>

definition Object_ops :: "('t \<Rightarrow> 's iter_ops) \<Rightarrow> ('t \<times> 's) iter_ops" where
  "Object_ops f = \<lparr>it_Valid = (\<lambda>(t, s). it_Valid (f t) s),
     it_SeekToFirst = (\<lambda>(t, s). map_option (Pair t) (it_SeekToFirst (f t) s)),
     it_SeekToLast = (\<lambda>(t, s). map_option (Pair t) (it_SeekToLast (f t) s)),
     it_Seek = (\<lambda>(t, s) target. map_option (Pair t) (it_Seek (f t) s target)),
     it_Next = (\<lambda>(t, s). map_option (Pair t) (it_Next (f t) s)),
     it_Prev = (\<lambda>(t, s). map_option (Pair t) (it_Prev (f t) s)),
     it_key = (\<lambda>(t, s). it_key (f t) s), it_value = (\<lambda>(t, s). it_value (f t) s), it_status = (\<lambda>(t, s). it_status (f t) s)\<rparr>"

definition at_object :: "('t \<Rightarrow> bool) \<Rightarrow> ('t \<Rightarrow> 's \<Rightarrow> entries \<Rightarrow> nat \<Rightarrow> bool) \<Rightarrow> 't \<times> 's \<Rightarrow> entries \<Rightarrow> nat \<Rightarrow> bool" where
  "at_object good at o' es i \<longleftrightarrow> good (fst o') \<and> at (fst o') (snd o') es i"

lemma Object_sorted:
  assumes sorted: "\<And>t. good t \<Longrightarrow> sorted_iterator c dm (f t) (at t)"
  shows "sorted_iterator c dm (Object_ops f) (at_object good at)"
proof (unfold_locales, goal_cases)
  case (1 s es i)
  then have g: "good (fst s)" and p: "at (fst s) (snd s) es i" by (auto simp: at_object_def)
  show ?case using sorted_iterator.at_Valid [OF sorted [OF g] p] by (cases s) (simp add: Object_ops_def)
next
  case (2 s es i)
  then have g: "good (fst s)" and p: "at (fst s) (snd s) es i" by (auto simp: at_object_def)
  show ?case by (rule sorted_iterator.at_le [OF sorted [OF g] p])
next
  case (3 s es i)
  then have g: "good (fst s)" and p: "at (fst s) (snd s) es i" by (auto simp: at_object_def)
  show ?case using sorted_iterator.at_key [OF sorted [OF g] p] 3 by (cases s) (simp add: Object_ops_def)
next
  case (4 s es i)
  then have g: "good (fst s)" and p: "at (fst s) (snd s) es i" by (auto simp: at_object_def)
  show ?case using sorted_iterator.at_value [OF sorted [OF g] p] 4 by (cases s) (simp add: Object_ops_def)
next
  case (5 s es i)
  then have g: "good (fst s)" and p: "at (fst s) (snd s) es i" by (auto simp: at_object_def)
  show ?case using sorted_iterator.at_status [OF sorted [OF g] p] by (cases s) (simp add: Object_ops_def)
next
  case (6 s es i e)
  then have g: "good (fst s)" and p: "at (fst s) (snd s) es i" by (auto simp: at_object_def)
  show ?case using sorted_iterator.at_dom [OF sorted [OF g] p] 6 by blast
next
  case (7 s es i)
  then have g: "good (fst s)" and p: "at (fst s) (snd s) es i" by (auto simp: at_object_def)
  show ?case by (rule sorted_iterator.at_sorted [OF sorted [OF g] p])
next
  case (8 s es i)
  then have g: "good (fst s)" and p: "at (fst s) (snd s) es i" by (auto simp: at_object_def)
  show ?case using sorted_iterator.at_SeekToFirst [OF sorted [OF g] p] g by (cases s) (auto simp: Object_ops_def at_object_def)
next
  case (9 s es i)
  then have g: "good (fst s)" and p: "at (fst s) (snd s) es i" by (auto simp: at_object_def)
  show ?case using sorted_iterator.at_SeekToLast [OF sorted [OF g] p] g by (cases s) (auto simp: Object_ops_def at_object_def)
next
  case (10 s es i t)
  then have g: "good (fst s)" and p: "at (fst s) (snd s) es i" by (auto simp: at_object_def)
  show ?case using sorted_iterator.at_Seek [OF sorted [OF g] p] 10 g by (cases s) (auto simp: Object_ops_def at_object_def)
next
  case (11 s es i)
  then have g: "good (fst s)" and p: "at (fst s) (snd s) es i" by (auto simp: at_object_def)
  show ?case using sorted_iterator.at_Next [OF sorted [OF g] p] 11 g by (cases s) (auto simp: Object_ops_def at_object_def)
next
  case (12 s es i)
  then have g: "good (fst s)" and p: "at (fst s) (snd s) es i" by (auto simp: at_object_def)
  show ?case using sorted_iterator.at_Prev [OF sorted [OF g] p] 12 g by (cases s) (auto simp: Object_ops_def at_object_def)
qed

section \<open>IteratorWrapper\<close>

text \<open>
  The wrapper caches \<open>Valid\<close> and \<open>key\<close> of the iterator it owns. \<open>None\<close> for the pointer is
  \<open>nullptr\<close>; the operations assert that it is not.
\<close>

record 's IteratorWrapper =
  w_iter :: "'s option"
  w_valid :: bool
  w_key :: bytes

definition Wrapper_empty :: "'s IteratorWrapper" where
  "Wrapper_empty = \<lparr>w_iter = None, w_valid = False, w_key = []\<rparr>"

definition Wrapper_Update :: "'s iter_ops \<Rightarrow> 's IteratorWrapper \<Rightarrow> 's IteratorWrapper" where
  "Wrapper_Update ops w =
     (case w_iter w of
        None \<Rightarrow> w\<lparr>w_valid := False\<rparr>
      | Some s \<Rightarrow> if it_Valid ops s then w\<lparr>w_valid := True, w_key := it_key ops s\<rparr>
                  else w\<lparr>w_valid := False\<rparr>)"

definition Wrapper_Set :: "'s iter_ops \<Rightarrow> 's IteratorWrapper \<Rightarrow> 's option \<Rightarrow> 's IteratorWrapper" where
  "Wrapper_Set ops w iter = Wrapper_Update ops (w\<lparr>w_iter := iter\<rparr>)"

definition Wrapper_new :: "'s iter_ops \<Rightarrow> 's option \<Rightarrow> 's IteratorWrapper" where
  "Wrapper_new ops iter = Wrapper_Set ops Wrapper_empty iter"

definition Wrapper_move ::
  "'s iter_ops \<Rightarrow> ('s \<Rightarrow> 's option) \<Rightarrow> 's IteratorWrapper \<Rightarrow> 's IteratorWrapper option" where
  "Wrapper_move ops f w =
     Option.bind (w_iter w) (\<lambda>s. Option.bind (f s) (\<lambda>s'. Some (Wrapper_Update ops (w\<lparr>w_iter := Some s'\<rparr>))))"

definition Wrapper_ops :: "'s iter_ops \<Rightarrow> 's IteratorWrapper iter_ops" where
  "Wrapper_ops ops = \<lparr>it_Valid = w_valid,
     it_SeekToFirst = Wrapper_move ops (it_SeekToFirst ops),
     it_SeekToLast = Wrapper_move ops (it_SeekToLast ops),
     it_Seek = (\<lambda>w target. Wrapper_move ops (\<lambda>s. it_Seek ops s target) w),
     it_Next = Wrapper_move ops (it_Next ops),
     it_Prev = Wrapper_move ops (it_Prev ops),
     it_key = w_key,
     it_value = (\<lambda>w. case w_iter w of None \<Rightarrow> [] | Some s \<Rightarrow> it_value ops s),
     it_status = (\<lambda>w. case w_iter w of None \<Rightarrow> OK | Some s \<Rightarrow> it_status ops s)\<rparr>"

text \<open>The cache agrees with the iterator.\<close>

definition wrapped :: "'s iter_ops \<Rightarrow> ('s \<Rightarrow> entries \<Rightarrow> nat \<Rightarrow> bool) \<Rightarrow> 's IteratorWrapper \<Rightarrow> entries \<Rightarrow> nat \<Rightarrow> bool" where
  "wrapped ops at w es i \<longleftrightarrow>
     (\<exists>s. w_iter w = Some s \<and> at s es i \<and> w_valid w = it_Valid ops s
          \<and> (it_Valid ops s \<longrightarrow> w_key w = it_key ops s))"

lemma Wrapper_new_wrapped: "at s es i \<Longrightarrow> wrapped ops at (Wrapper_new ops (Some s)) es i"
  by (simp add: wrapped_def Wrapper_new_def Wrapper_Set_def Wrapper_Update_def)

lemma Wrapper_move_wrapped:
  assumes "w_iter w = Some s" "f s = Some s'" "at s' es i"
  shows "\<exists>w'. Wrapper_move ops f w = Some w' \<and> wrapped ops at w' es i"
  using assms by (auto simp: Wrapper_move_def wrapped_def Wrapper_Update_def)

context sorted_iterator
begin

lemma wrapper_sorted: "sorted_iterator c dm (Wrapper_ops ops) (wrapped ops at)"
proof (unfold_locales, goal_cases)
  case (1 s es i)
  then show ?case by (auto simp: wrapped_def Wrapper_ops_def at_Valid)
next
  case (2 s es i)
  then show ?case by (auto simp: wrapped_def dest: at_le)
next
  case (3 s es i)
  then show ?case by (auto simp: wrapped_def Wrapper_ops_def at_Valid at_key)
next
  case (4 s es i)
  then show ?case by (auto simp: wrapped_def Wrapper_ops_def at_value)
next
  case (5 s es i)
  then show ?case by (auto simp: wrapped_def Wrapper_ops_def at_status)
next
  case (6 s es i e)
  then show ?case by (auto simp: wrapped_def dest: at_dom)
next
  case (7 s es i)
  then show ?case by (auto simp: wrapped_def dest: at_sorted)
next
  case (8 w es i)
  then obtain s where s: "w_iter w = Some s" "at s es i" by (auto simp: wrapped_def)
  with at_SeekToFirst [OF s(2)] show ?case
    by (auto simp: Wrapper_ops_def intro!: Wrapper_move_wrapped)
next
  case (9 w es i)
  then obtain s where s: "w_iter w = Some s" "at s es i" by (auto simp: wrapped_def)
  with at_SeekToLast [OF s(2)] show ?case
    by (auto simp: Wrapper_ops_def intro!: Wrapper_move_wrapped)
next
  case (10 w es i t)
  then obtain s where s: "w_iter w = Some s" "at s es i" by (auto simp: wrapped_def)
  with at_Seek [OF s(2) 10(2)] show ?case
    by (auto simp: Wrapper_ops_def intro!: Wrapper_move_wrapped)
next
  case (11 w es i)
  then obtain s where s: "w_iter w = Some s" "at s es i" by (auto simp: wrapped_def)
  with at_Next [OF s(2) 11(2)] show ?case
    by (auto simp: Wrapper_ops_def intro!: Wrapper_move_wrapped)
next
  case (12 w es i)
  then obtain s where s: "w_iter w = Some s" "at s es i" by (auto simp: wrapped_def)
  with at_Prev [OF s(2) 12(2)] show ?case
    by (auto simp: Wrapper_ops_def intro!: Wrapper_move_wrapped)
qed

end

end
