(* ===== verification/Blocks.thy ===== *)
theory Blocks
  imports Iterators
begin

text \<open>
  Blocks of sorted entries with prefix-compressed keys (db/block_builder.cc, db/block.cc). A
  pointer into a block is its offset. \<open>current_\<close>, \<open>restarts_\<close> and the restart indices are
  \<open>uint32_t\<close> in the code; they are naturals here, with the wrap-around written out where a sum
  is cast, and the lengths of an entry stay 32-bit words.
\<close>

section \<open>BlockBuilder\<close>

record BlockBuilder =
  bb_interval :: int
  bb_buffer :: bytes
  bb_restarts :: "u32 list"
  bb_counter :: int
  bb_finished :: bool
  bb_last_key :: bytes

definition BlockBuilder_new :: "int \<Rightarrow> BlockBuilder" where
  "BlockBuilder_new interval = \<lparr>bb_interval = interval, bb_buffer = [], bb_restarts = [0],
     bb_counter = 0, bb_finished = False, bb_last_key = []\<rparr>"

definition BB_Reset :: "BlockBuilder \<Rightarrow> BlockBuilder" where
  "BB_Reset b = b\<lparr>bb_buffer := [], bb_restarts := [0], bb_counter := 0, bb_finished := False, bb_last_key := []\<rparr>"

definition BB_CurrentSizeEstimate :: "BlockBuilder \<Rightarrow> nat" where
  "BB_CurrentSizeEstimate b = length (bb_buffer b) + length (bb_restarts b) * 4 + 4"

definition BB_empty :: "BlockBuilder \<Rightarrow> bool" where
  "BB_empty b \<longleftrightarrow> bb_buffer b = []"

definition BB_Finish :: "BlockBuilder \<Rightarrow> bytes \<times> BlockBuilder" where
  "BB_Finish b =
     (let buffer = PutFixed32 (foldl PutFixed32 (bb_buffer b) (bb_restarts b)) (of_nat (length (bb_restarts b)))
      in (buffer, b\<lparr>bb_buffer := buffer, bb_finished := True\<rparr>))"

text \<open>
  \<open>Add\<close>, with the loop that counts the shared bytes as \<open>shared_prefix\<close>. Its assertions (not
  finished, keys ascending) are the hypotheses of the lemmas.
\<close>

definition BB_Add :: "BlockBuilder \<Rightarrow> bytes \<Rightarrow> bytes \<Rightarrow> BlockBuilder" where
  "BB_Add b key v =
     (let (shared, b) =
            (if bb_counter b < bb_interval b then (shared_prefix (bb_last_key b) key, b)
             else (0, b\<lparr>bb_restarts := bb_restarts b @ [of_nat (length (bb_buffer b))], bb_counter := 0\<rparr>));
          non_shared = length key - shared;
          buffer = PutVarint32 (PutVarint32 (PutVarint32 (bb_buffer b) (of_nat shared)) (of_nat non_shared)) (of_nat (length v))
      in b\<lparr>bb_buffer := buffer @ take non_shared (drop shared key) @ v,
           bb_last_key := take shared (bb_last_key b) @ take non_shared (drop shared key),
           bb_counter := bb_counter b + 1\<rparr>)"

definition BB_AddAll :: "BlockBuilder \<Rightarrow> entries \<Rightarrow> BlockBuilder" where
  "BB_AddAll b es = foldl (\<lambda>b (k, v). BB_Add b k v) b es"

section \<open>Decoding an entry\<close>

text \<open>
  \<open>DecodeEntry data p limit\<close> reads the three lengths at \<open>p\<close> and returns them with the offset
  of the key bytes. The last test adds the two lengths in 32 bits, as the code does.
\<close>

definition DecodeEntry :: "bytes \<Rightarrow> nat \<Rightarrow> nat \<Rightarrow> (u32 \<times> u32 \<times> u32 \<times> nat) option" where
  "DecodeEntry data p limit =
     (if limit - p < 3 then None
      else Option.bind
        (let b0 = byte_at data p; b1 = byte_at data (p + 1); b2 = byte_at data (p + 2)
         in if b0 OR b1 OR b2 < 128 then Some (ucast b0, ucast b1, ucast b2, p + 3)
            else Option.bind (GetVarint32Ptr (take (limit - p) (drop p data))) (\<lambda>(shared, r1).
                 Option.bind (GetVarint32Ptr r1) (\<lambda>(non_shared, r2).
                 Option.bind (GetVarint32Ptr r2) (\<lambda>(value_length, r3).
                   Some (shared, non_shared, value_length, limit - length r3)))))
        (\<lambda>(shared, non_shared, value_length, q).
           if (of_nat (limit - q) :: u32) < non_shared + value_length then None
           else Some (shared, non_shared, value_length, q)))"

section \<open>BlockIter\<close>

text \<open>\<open>value_\<close> is an offset and a size in the block; a cleared slice has size 0.\<close>

record BlockIter =
  bi_data :: bytes
  bi_restarts :: nat
  bi_num_restarts :: nat
  bi_current :: nat
  bi_restart_index :: nat
  bi_key :: bytes
  bi_value :: "nat \<times> nat"
  bi_status :: Status

definition BlockIter_new :: "bytes \<Rightarrow> nat \<Rightarrow> nat \<Rightarrow> BlockIter" where
  "BlockIter_new data restarts num_restarts =
     \<lparr>bi_data = data, bi_restarts = restarts, bi_num_restarts = num_restarts, bi_current = restarts,
      bi_restart_index = num_restarts, bi_key = [], bi_value = (0, 0), bi_status = OK\<rparr>"

definition BI_Valid :: "BlockIter \<Rightarrow> bool" where
  "BI_Valid it \<longleftrightarrow> bi_current it < bi_restarts it"

definition GetRestartPoint :: "BlockIter \<Rightarrow> nat \<Rightarrow> nat" where
  "GetRestartPoint it index = unat (DecodeFixed32 (drop (bi_restarts it + index * 4) (bi_data it)))"

definition NextEntryOffset :: "BlockIter \<Rightarrow> nat" where
  "NextEntryOffset it = (fst (bi_value it) + snd (bi_value it)) mod 2 ^ 32"

definition SeekToRestartPoint :: "BlockIter \<Rightarrow> nat \<Rightarrow> BlockIter" where
  "SeekToRestartPoint it index =
     it\<lparr>bi_key := [], bi_restart_index := index, bi_value := (GetRestartPoint it index, 0)\<rparr>"

definition CorruptionError :: "BlockIter \<Rightarrow> BlockIter" where
  "CorruptionError it =
     it\<lparr>bi_current := bi_restarts it, bi_restart_index := bi_num_restarts it, bi_key := [],
        bi_value := (0, 0), bi_status := Corruption (lit ''bad entry in block'') []\<rparr>"

text \<open>The loop that moves \<open>restart_index_\<close> up to the restart before \<open>current_\<close>.\<close>

function AdvanceRestart :: "BlockIter \<Rightarrow> nat \<Rightarrow> nat" where
  "AdvanceRestart it index =
     (if index + 1 < bi_num_restarts it \<and> GetRestartPoint it (index + 1) < bi_current it
      then AdvanceRestart it (index + 1) else index)"
  by pat_completeness auto
termination
  by (relation "measure (\<lambda>(it, index). bi_num_restarts it - index)") auto

declare AdvanceRestart.simps [simp del]

definition ParseNextKey :: "BlockIter \<Rightarrow> bool \<times> BlockIter" where
  "ParseNextKey it0 =
     (let it = it0\<lparr>bi_current := NextEntryOffset it0\<rparr>;
          p = bi_current it; limit = bi_restarts it
      in if p \<ge> limit
         then (False, it\<lparr>bi_current := bi_restarts it, bi_restart_index := bi_num_restarts it\<rparr>)
         else case DecodeEntry (bi_data it) p limit of
             None \<Rightarrow> (False, CorruptionError it)
           | Some (shared, non_shared, value_length, q) \<Rightarrow>
               if length (bi_key it) < unat shared then (False, CorruptionError it)
               else let it = it\<lparr>bi_key := take (unat shared) (bi_key it) @ take (unat non_shared) (drop q (bi_data it)),
                                bi_value := (q + unat non_shared, unat value_length)\<rparr>
                    in (True, it\<lparr>bi_restart_index := AdvanceRestart it (bi_restart_index it)\<rparr>))"

definition BI_SeekToFirst :: "BlockIter \<Rightarrow> BlockIter" where
  "BI_SeekToFirst it = snd (ParseNextKey (SeekToRestartPoint it 0))"

text \<open>\<open>while (ParseNextKey() && NextEntryOffset() < bound)\<close>, of \<open>SeekToLast\<close> and \<open>Prev\<close>.\<close>

partial_function (option) ParseUntil :: "nat \<Rightarrow> BlockIter \<Rightarrow> BlockIter option" where
  "ParseUntil bound it =
     (let (parsed, it') = ParseNextKey it
      in if parsed \<and> NextEntryOffset it' < bound then ParseUntil bound it' else Some it')"

definition BI_SeekToLast :: "BlockIter \<Rightarrow> BlockIter option" where
  "BI_SeekToLast it = ParseUntil (bi_restarts it) (SeekToRestartPoint it (bi_num_restarts it - 1))"

text \<open>The binary search of \<open>Seek\<close> over the restart array; \<open>Inl\<close> is a corrupted restart entry.\<close>

partial_function (option) SeekBinary ::
    "comparator \<Rightarrow> BlockIter \<Rightarrow> bytes \<Rightarrow> nat \<Rightarrow> nat \<Rightarrow> (unit + nat) option" where
  "SeekBinary c it target left right =
     (if left < right
      then let mid = ((left + right + 1) mod 2 ^ 32) div 2;
               region_offset = GetRestartPoint it mid
           in case DecodeEntry (bi_data it) region_offset (bi_restarts it) of
                None \<Rightarrow> Some (Inl ())
              | Some (shared, non_shared, value_length, key_ptr) \<Rightarrow>
                  if shared \<noteq> 0 then Some (Inl ())
                  else if Compare c (take (unat non_shared) (drop key_ptr (bi_data it))) target < 0
                       then SeekBinary c it target mid right
                       else SeekBinary c it target left (mid - 1)
      else Some (Inr left))"

partial_function (option) SeekLinear :: "comparator \<Rightarrow> bytes \<Rightarrow> BlockIter \<Rightarrow> BlockIter option" where
  "SeekLinear c target it =
     (let (parsed, it') = ParseNextKey it
      in if \<not> parsed then Some it'
         else if Compare c (bi_key it') target \<ge> 0 then Some it'
         else SeekLinear c target it')"

definition BI_Seek :: "comparator \<Rightarrow> BlockIter \<Rightarrow> bytes \<Rightarrow> BlockIter option" where
  "BI_Seek c it target =
     (let current_key_compare = (if BI_Valid it then Compare c (bi_key it) target else 0);
          left = (if BI_Valid it \<and> current_key_compare < 0 then bi_restart_index it else 0);
          right = (if BI_Valid it \<and> current_key_compare > 0 then bi_restart_index it
                   else bi_num_restarts it - 1)
      in if BI_Valid it \<and> current_key_compare = 0 then Some it
         else Option.bind (SeekBinary c it target left right) (\<lambda>r.
           case r of
             Inl _ \<Rightarrow> Some (CorruptionError it)
           | Inr left \<Rightarrow>
               let skip_seek = (BI_Valid it \<and> left = bi_restart_index it \<and> current_key_compare < 0)
               in SeekLinear c target (if skip_seek then it else SeekToRestartPoint it left)))"

definition BI_Next :: "BlockIter \<Rightarrow> BlockIter" where
  "BI_Next it = snd (ParseNextKey it)"

text \<open>The loop of \<open>Prev\<close> that backs up to a restart before the current entry; \<open>None\<close> when there is none.\<close>

fun PrevRestart :: "BlockIter \<Rightarrow> nat \<Rightarrow> nat option" where
  "PrevRestart it 0 = (if GetRestartPoint it 0 \<ge> bi_current it then None else Some 0)"
| "PrevRestart it (Suc index) =
     (if GetRestartPoint it (Suc index) \<ge> bi_current it then PrevRestart it index else Some (Suc index))"

definition BI_Prev :: "BlockIter \<Rightarrow> BlockIter option" where
  "BI_Prev it =
     (case PrevRestart it (bi_restart_index it) of
        None \<Rightarrow> Some (it\<lparr>bi_current := bi_restarts it, bi_restart_index := bi_num_restarts it\<rparr>)
      | Some index \<Rightarrow> ParseUntil (bi_current it) (SeekToRestartPoint it index))"

definition BI_value :: "BlockIter \<Rightarrow> bytes" where
  "BI_value it = take (snd (bi_value it)) (drop (fst (bi_value it)) (bi_data it))"

definition BlockIter_ops :: "comparator \<Rightarrow> BlockIter iter_ops" where
  "BlockIter_ops c = \<lparr>it_Valid = BI_Valid, it_SeekToFirst = (\<lambda>it. Some (BI_SeekToFirst it)),
     it_SeekToLast = BI_SeekToLast, it_Seek = BI_Seek c, it_Next = (\<lambda>it. Some (BI_Next it)),
     it_Prev = BI_Prev, it_key = bi_key, it_value = BI_value, it_status = bi_status\<rparr>"

section \<open>Block\<close>

record Block =
  blk_data :: bytes
  blk_size :: nat
  blk_restart_offset :: nat

definition NumRestarts :: "bytes \<Rightarrow> nat \<Rightarrow> u32" where
  "NumRestarts data sz = DecodeFixed32 (drop (sz - 4) data)"

definition Block_new :: "bytes \<Rightarrow> Block" where
  "Block_new data =
     (let sz = length data
      in if sz < 4 then \<lparr>blk_data = data, blk_size = 0, blk_restart_offset = 0\<rparr>
         else let max_restarts_allowed = (sz - 4) div 4
              in if unat (NumRestarts data sz) > max_restarts_allowed
                 then \<lparr>blk_data = data, blk_size = 0, blk_restart_offset = 0\<rparr>
                 else \<lparr>blk_data = data, blk_size = sz,
                       blk_restart_offset = (sz - unat (1 + NumRestarts data sz) * 4) mod 2 ^ 32\<rparr>)"

type_synonym BlockIterator = "Status + BlockIter"

definition Block_NewIterator :: "Block \<Rightarrow> BlockIterator" where
  "Block_NewIterator b =
     (if blk_size b < 4 then Inl (NewErrorIterator (Corruption (lit ''bad block contents'') []))
      else let num_restarts = unat (NumRestarts (blk_data b) (blk_size b))
           in if num_restarts = 0 then Inl NewEmptyIterator
              else Inr (BlockIter_new (blk_data b) (blk_restart_offset b) num_restarts))"

definition Block_ops :: "comparator \<Rightarrow> BlockIterator iter_ops" where
  "Block_ops c = Dispatch EmptyIterator (BlockIter_ops c)"

section \<open>The layout of a block\<close>

definition entry_bytes :: "nat \<Rightarrow> bytes \<Rightarrow> bytes \<Rightarrow> bytes" where
  "entry_bytes sh k v =
     EncodeVarint32 (of_nat sh) @ EncodeVarint32 (of_nat (length k - sh))
     @ EncodeVarint32 (of_nat (length v)) @ drop sh k @ v"

definition entry_at :: "bytes \<Rightarrow> nat \<Rightarrow> bytes \<Rightarrow> bytes \<Rightarrow> bytes \<Rightarrow> nat \<Rightarrow> bool" where
  "entry_at D off prev k v nxt \<longleftrightarrow>
     (\<exists>sh pre post. sh \<le> length prev \<and> sh \<le> length k \<and> take sh k = take sh prev
        \<and> D = pre @ entry_bytes sh k v @ post \<and> length pre = off
        \<and> nxt = off + length (entry_bytes sh k v))"

definition prev_key :: "entries \<Rightarrow> nat \<Rightarrow> bytes" where
  "prev_key es i = (if i = 0 then [] else fst (es ! (i - 1)))"

lemma prev_key_simps [simp]: "prev_key es 0 = []" "prev_key es (Suc i) = fst (es ! i)"
  by (simp_all add: prev_key_def)

text \<open>
  \<open>block_layout D es offs rs\<close>: entry \<open>i\<close> of \<open>es\<close> lies at \<open>offs ! i\<close>, and the entries with the
  indices \<open>rs\<close> are restarts, which share no byte with their predecessor.
\<close>

definition block_layout :: "bytes \<Rightarrow> entries \<Rightarrow> nat list \<Rightarrow> nat list \<Rightarrow> bool" where
  "block_layout D es offs rs \<longleftrightarrow>
     length offs = Suc (length es) \<and> offs ! 0 = 0 \<and> rs \<noteq> [] \<and> rs ! 0 = 0 \<and> sorted_wrt (<) rs
     \<and> (\<forall>i < length es. entry_at D (offs ! i) (prev_key es i)
                          (fst (es ! i)) (snd (es ! i)) (offs ! Suc i))
     \<and> (\<forall>j < length rs. 0 < j \<longrightarrow> rs ! j < length es)
     \<and> (\<forall>j < length rs. rs ! j < length es \<longrightarrow>
          entry_at D (offs ! (rs ! j)) [] (fst (es ! (rs ! j))) (snd (es ! (rs ! j))) (offs ! Suc (rs ! j)))"

lemma entry_bytes_length: "3 \<le> length (entry_bytes sh k v)"
proof -
  have "1 \<le> length (EncodeVarint32 x)" for x
    by (simp add: Suc_le_eq)
  from add_mono [OF add_mono [OF this this] this]
  show ?thesis
    by (simp add: entry_bytes_def) (metis (no_types, lifting) le_add1 le_trans add.assoc numeral_3_eq_3 One_nat_def add_Suc add_0 numeral_Bit1 numeral_One)
qed

lemma entry_at_append: "entry_at D off prev k v nxt \<Longrightarrow> entry_at (D @ X) off prev k v nxt"
  unfolding entry_at_def by fastforce

lemma entry_at_weaken: "entry_at D off [] k v nxt \<Longrightarrow> entry_at D off prev k v nxt"
  unfolding entry_at_def by (intro exI [of _ 0]) auto

lemma entry_at_next: "entry_at D off prev k v nxt \<Longrightarrow> off + 3 \<le> nxt \<and> nxt \<le> length D"
  unfolding entry_at_def using entry_bytes_length by auto

lemma block_layout_append: "block_layout D es offs rs \<Longrightarrow> block_layout (D @ X) es offs rs"
  unfolding block_layout_def by (auto intro: entry_at_append)

lemma byte_less_128: "b < 128 \<longleftrightarrow> drop_bit 7 b = (0 :: byte)"
  by (simp add: word_unat_eq_iff unat_drop_bit_7 word_less_nat_alt div_eq_0_iff)

lemma byte_or_less_128: "(b0 OR b1 OR b2) < (128 :: byte) \<longleftrightarrow> b0 < 128 \<and> b1 < 128 \<and> b2 < 128"
  by (simp add: byte_less_128 drop_bit_or or_eq_0_iff)

lemma varint_first_byte:
  "byte_at (EncodeVarint32 a @ rest) 0 < 128 \<Longrightarrow> EncodeVarint32 a = [ucast a] \<and> ucast (ucast a :: byte) = a"
proof -
  assume *: "byte_at (EncodeVarint32 a @ rest) 0 < 128"
  have "unat a < 128"
  proof (rule ccontr)
    assume n: "\<not> unat a < 128"
    have "EncodeVarint32 a = (of_nat (unat a) AND 127 OR 128) # varint_bytes (unat a div 128)"
      using n by (simp only: EncodeVarint32_reference varint_bytes.simps [of "unat a"] if_False)
    with * have "drop_bit 7 (of_nat (unat a) AND 127 OR 128 :: byte) = 0"
      by (simp only: append_Cons byte_at_Cons_0 byte_less_128)
    then show False by (simp add: drop_bit_or or_eq_0_iff)
  qed
  then show ?thesis
    by (simp add: EncodeVarint32_reference varint_bytes.simps [of "unat a"] word_unat_eq_iff unsigned_ucast_eq unsigned_take_bit_eq take_bit_nat_eq_self)
qed

lemma unat_u32: "n < 2 ^ 32 \<Longrightarrow> unat (of_nat n :: u32) = n"
  by (simp add: unsigned_of_nat take_bit_nat_eq_self)

lemma byte_at_drop: "p + i < length D \<Longrightarrow> byte_at D (p + i) = byte_at (drop p D) i"
  by (auto simp: byte_at_def)

lemma DecodeEntry_entry:
  fixes sh :: nat and k v pre post :: bytes
  assumes D: "D = pre @ entry_bytes sh k v @ post"
    and lim: "length pre + length (entry_bytes sh k v) \<le> limit" "limit \<le> length D" "length D < 2 ^ 32"
    and sh: "sh \<le> length k"
  shows "DecodeEntry D (length pre) limit =
    Some (of_nat sh, of_nat (length k - sh), of_nat (length v),
          length pre + length (entry_bytes sh k v) - (length k - sh) - length v)"
proof -
  define E1 E2 E3 where E: "E1 = EncodeVarint32 (of_nat sh)" "E2 = EncodeVarint32 (of_nat (length k - sh))"
    "E3 = EncodeVarint32 (of_nat (length v))"
  let ?p = "length pre"
  let ?rest = "drop sh k @ v @ post"
  let ?q = "?p + length E1 + length E2 + length E3"
  have drop: "drop ?p D = E1 @ E2 @ E3 @ ?rest"
    by (simp add: D entry_bytes_def E)
  have len: "length (entry_bytes sh k v) = length E1 + length E2 + length E3 + (length k - sh) + length v"
    by (simp add: entry_bytes_def E)
  have ne: "length E1 > 0" "length E2 > 0" "length E3 > 0"
    by (simp_all add: E)
  have three: "3 \<le> limit - ?p"
    using lim entry_bytes_length [of sh k v] by linarith
  define tail where tail: "tail = take (limit - ?q) ?rest"
  have tk: "take (limit - ?p) (drop ?p D) = E1 @ E2 @ E3 @ tail"
    using lim len by (simp add: drop tail)
  have r3: "limit - length tail = ?q"
  proof -
    have "length ?rest = length D - ?q"
      using D len sh by (simp add: entry_bytes_def E)
    with lim len show ?thesis
      by (simp only: tail length_take min_def split: if_split) linarith
  qed
  have slow: "Option.bind (GetVarint32Ptr (take (limit - ?p) (drop ?p D))) (\<lambda>(shared, r1).
                 Option.bind (GetVarint32Ptr r1) (\<lambda>(non_shared, r2).
                 Option.bind (GetVarint32Ptr r2) (\<lambda>(value_length, r3).
                   Some (shared, non_shared, value_length, limit - length r3))))
    = Some (of_nat sh, of_nat (length k - sh), of_nat (length v), ?q)"
    unfolding tk using r3 by (simp add: E)
  have fast: "Some (ucast (byte_at D ?p), ucast (byte_at D (?p + 1)), ucast (byte_at D (?p + 2)), ?p + 3)
    = Some (of_nat sh :: u32, of_nat (length k - sh) :: u32, of_nat (length v) :: u32, ?q)"
    if b: "byte_at D ?p OR byte_at D (?p + 1) OR byte_at D (?p + 2) < 128"
  proof -
    have at: "byte_at D (?p + i) = byte_at (E1 @ E2 @ E3 @ ?rest) i" if "i < 3" for i
      using that three lim by (subst byte_at_drop) (simp_all add: drop)
    from b have b3: "byte_at D ?p < 128" "byte_at D (?p + 1) < 128" "byte_at D (?p + 2) < 128"
      by (simp_all only: byte_or_less_128)
    from b3(1) at [of 0] varint_first_byte [of "of_nat sh" "E2 @ E3 @ ?rest"]
    have 1: "E1 = [ucast (of_nat sh :: u32)]" "ucast (ucast (of_nat sh :: u32) :: byte) = (of_nat sh :: u32)"
      by (simp_all add: E)
    from b3(2) at [of 1] varint_first_byte [of "of_nat (length k - sh)" "E3 @ ?rest"]
    have 2: "E2 = [ucast (of_nat (length k - sh) :: u32)]"
        "ucast (ucast (of_nat (length k - sh) :: u32) :: byte) = (of_nat (length k - sh) :: u32)"
      by (simp_all only: 1(1) append_Cons append_Nil byte_at_Cons_Suc One_nat_def E(2))
    from b3(3) at [of 2] varint_first_byte [of "of_nat (length v)" "?rest"]
    have 3: "E3 = [ucast (of_nat (length v) :: u32)]"
        "ucast (ucast (of_nat (length v) :: u32) :: byte) = (of_nat (length v) :: u32)"
      by (simp_all only: 1(1) 2(1) append_Cons append_Nil byte_at_Cons_Suc numeral_2_eq_2 E(3))
    show ?thesis
      using at [of 0] at [of 1] at [of 2] 1(2) 2(2) 3(2)
      by (simp add: 1(1) 2(1) 3(1) numeral_2_eq_2)
  qed
  have fits: "\<not> (of_nat (limit - ?q) :: u32) < of_nat (length k - sh) + of_nat (length v)"
  proof -
    have "length k - sh + length v \<le> limit - ?q" "limit - ?q < 2 ^ 32"
      using lim len by simp_all
    then have "unat (of_nat (length k - sh + length v) :: u32) \<le> unat (of_nat (limit - ?q) :: u32)"
      by (simp add: unat_u32 del: of_nat_add)
    then show ?thesis
      by (simp add: word_less_nat_alt)
  qed
  show ?thesis (is "?lhs = ?rhs")
  proof (cases "byte_at D ?p OR byte_at D (?p + 1) OR byte_at D (?p + 2) < 128")
    case True
    show ?thesis
      unfolding DecodeEntry_def Let_def using three fits len by (simp only: True if_True fast [OF True] if_False not_less [symmetric]) simp
  next
    case False
    show ?thesis
      unfolding DecodeEntry_def Let_def using three fits len by (simp only: False if_False slow not_less [symmetric]) simp
  qed
qed

section \<open>The states of the iterator\<close>

definition bi_block :: "BlockIter \<Rightarrow> entries \<Rightarrow> nat list \<Rightarrow> nat list \<Rightarrow> bool" where
  "bi_block it es offs rs \<longleftrightarrow>
     block_layout (bi_data it) es offs rs \<and> bi_restarts it = offs ! length es
     \<and> bi_num_restarts it = length rs \<and> length rs < 2 ^ 31
     \<and> bi_restarts it \<le> length (bi_data it) \<and> length (bi_data it) < 2 ^ 32
     \<and> (\<forall>j < length rs. GetRestartPoint it j = offs ! (rs ! j)) \<and> bi_status it = OK"

text \<open>Ready to parse entry \<open>j\<close>; and standing at entry \<open>i\<close>.\<close>

definition bi_ready :: "BlockIter \<Rightarrow> entries \<Rightarrow> nat list \<Rightarrow> nat list \<Rightarrow> nat \<Rightarrow> bool" where
  "bi_ready it es offs rs j \<longleftrightarrow>
     bi_block it es offs rs \<and> j \<le> length es \<and> NextEntryOffset it = offs ! j
     \<and> bi_restart_index it < length rs \<and> rs ! bi_restart_index it \<le> j
     \<and> (j < length es \<longrightarrow> entry_at (bi_data it) (offs ! j) (bi_key it) (fst (es ! j)) (snd (es ! j)) (offs ! Suc j))"

definition bi_at :: "BlockIter \<Rightarrow> entries \<Rightarrow> nat list \<Rightarrow> nat list \<Rightarrow> nat \<Rightarrow> bool" where
  "bi_at it es offs rs i \<longleftrightarrow>
     bi_block it es offs rs \<and> i \<le> length es \<and> bi_current it = offs ! i
     \<and> (i < length es \<longrightarrow>
          bi_key it = fst (es ! i) \<and> BI_value it = snd (es ! i)
          \<and> fst (bi_value it) + snd (bi_value it) = offs ! Suc i
          \<and> bi_restart_index it < length rs \<and> rs ! bi_restart_index it \<le> i
          \<and> (bi_restart_index it + 1 < length rs \<longrightarrow> i \<le> rs ! (bi_restart_index it + 1)))"

lemma layout_step:
  "block_layout D es offs rs \<Longrightarrow> i < length es \<Longrightarrow> offs ! i + 3 \<le> offs ! Suc i \<and> offs ! Suc i \<le> length D"
  unfolding block_layout_def using entry_at_next by blast

lemma layout_mono:
  assumes "block_layout D es offs rs" "i \<le> j" "j \<le> length es"
  shows "offs ! i \<le> offs ! j"
  using assms(2,3)
proof (induction rule: dec_induct)
  case base
  then show ?case by simp
next
  case (step m)
  then show ?case using layout_step [OF assms(1), of m] by simp
qed

lemma layout_less:
  assumes "block_layout D es offs rs" "i < j" "j \<le> length es"
  shows "offs ! i < offs ! j"
  using layout_mono [OF assms(1), of "Suc i" j] layout_step [OF assms(1), of i] assms(2,3) by simp

lemma layout_less_iff:
  assumes "block_layout D es offs rs" "i \<le> length es" "j \<le> length es"
  shows "offs ! i < offs ! j \<longleftrightarrow> i < j"
  using layout_less [OF assms(1), of i j] layout_mono [OF assms(1), of j i] assms by (meson leD not_less)

lemma layout_key_length:
  assumes "block_layout D es offs rs"
  shows "i < length es \<Longrightarrow> length (fst (es ! i)) \<le> offs ! Suc i"
proof (induction i)
  case 0
  with assms have "entry_at D (offs ! 0) [] (fst (es ! 0)) (snd (es ! 0)) (offs ! Suc 0)"
    unfolding block_layout_def by fastforce
  then show ?case
    by (auto simp: entry_at_def entry_bytes_def)
next
  case (Suc i)
  with assms have "entry_at D (offs ! Suc i) (fst (es ! i)) (fst (es ! Suc i)) (snd (es ! Suc i)) (offs ! Suc (Suc i))"
    unfolding block_layout_def by fastforce
  with Suc show ?case
    by (auto simp: entry_at_def entry_bytes_def)
qed

lemma layout_restart_le: "block_layout D es offs rs \<Longrightarrow> j < length rs \<Longrightarrow> rs ! j \<le> length es"
  unfolding block_layout_def by (cases "j = 0") (auto intro: less_imp_le)

lemma layout_restart:
  assumes "block_layout D es offs rs" "j < length rs" "rs ! j < length es"
  shows "\<exists>pre post. D = pre @ entry_bytes 0 (fst (es ! (rs ! j))) (snd (es ! (rs ! j))) @ post
    \<and> length pre = offs ! (rs ! j)
    \<and> offs ! Suc (rs ! j) = offs ! (rs ! j) + length (entry_bytes 0 (fst (es ! (rs ! j))) (snd (es ! (rs ! j))))"
proof -
  have "entry_at D (offs ! (rs ! j)) [] (fst (es ! (rs ! j))) (snd (es ! (rs ! j))) (offs ! Suc (rs ! j))"
    using assms unfolding block_layout_def by blast
  then show ?thesis
    unfolding entry_at_def by auto
qed

lemma GetRestartPoint_cong:
  "bi_data a = bi_data b \<Longrightarrow> bi_restarts a = bi_restarts b \<Longrightarrow> GetRestartPoint a j = GetRestartPoint b j"
  by (simp add: GetRestartPoint_def)

lemma bi_block_cong:
  assumes "bi_block a es offs rs" "bi_data b = bi_data a" "bi_restarts b = bi_restarts a"
    "bi_num_restarts b = bi_num_restarts a" "bi_status b = bi_status a"
  shows "bi_block b es offs rs"
  using assms GetRestartPoint_cong [of b a] unfolding bi_block_def by auto

lemma bi_block_offs:
  assumes "bi_block it es offs rs" "i \<le> length es"
  shows "offs ! i \<le> bi_restarts it" "offs ! i < 2 ^ 32" "offs ! i < bi_restarts it \<longleftrightarrow> i < length es"
proof -
  have lay: "block_layout (bi_data it) es offs rs" and R: "bi_restarts it = offs ! length es"
    and "bi_restarts it \<le> length (bi_data it)" "length (bi_data it) < 2 ^ 32"
    using assms(1) by (simp_all add: bi_block_def)
  then show "offs ! i \<le> bi_restarts it" "offs ! i < 2 ^ 32"
    using layout_mono [OF lay assms(2)] by simp_all
  show "offs ! i < bi_restarts it \<longleftrightarrow> i < length es"
    using layout_less_iff [OF lay assms(2), of "length es"] by (simp add: R)
qed

lemma bi_at_Valid: "bi_at it es offs rs i \<Longrightarrow> BI_Valid it \<longleftrightarrow> i < length es"
  unfolding bi_at_def BI_Valid_def using bi_block_offs(3) [of it es offs rs i] by auto

lemma AdvanceRestart_spec:
  assumes "index < bi_num_restarts it"
  shows "AdvanceRestart it index < bi_num_restarts it
    \<and> (AdvanceRestart it index = index \<or> GetRestartPoint it (AdvanceRestart it index) < bi_current it)
    \<and> (AdvanceRestart it index + 1 < bi_num_restarts it \<longrightarrow>
         bi_current it \<le> GetRestartPoint it (AdvanceRestart it index + 1))"
  using assms
proof (induction it index rule: AdvanceRestart.induct)
  case (1 it index)
  show ?case
  proof (cases "index + 1 < bi_num_restarts it \<and> GetRestartPoint it (index + 1) < bi_current it")
    case True
    then have "AdvanceRestart it index = AdvanceRestart it (index + 1)"
      by (simp add: AdvanceRestart.simps [of it index])
    with 1 True show ?thesis by fastforce
  next
    case False
    then have "AdvanceRestart it index = index"
      by (auto simp: AdvanceRestart.simps [of it index])
    with 1 False show ?thesis by auto
  qed
qed

lemma ParseNextKey_ready:
  assumes r: "bi_ready it es offs rs j"
  shows "\<exists>it'. ParseNextKey it = (j < length es, it') \<and> bi_at it' es offs rs j"
proof (cases "j < length es")
  case False
  with r have j: "j = length es" and b: "bi_block it es offs rs" and n: "NextEntryOffset it = offs ! j"
    by (auto simp: bi_ready_def)
  let ?it' = "it\<lparr>bi_current := bi_restarts it, bi_restart_index := bi_num_restarts it\<rparr>"
  have "ParseNextKey it = (False, ?it')"
    using b n j by (simp add: ParseNextKey_def bi_block_def)
  moreover have "bi_block ?it' es offs rs"
    by (rule bi_block_cong [OF b]) simp_all
  ultimately show ?thesis
    using b j by (auto simp: bi_at_def bi_block_def)
next
  case True
  from r have b: "bi_block it es offs rs" and n: "NextEntryOffset it = offs ! j"
    and idx: "bi_restart_index it < length rs" "rs ! bi_restart_index it \<le> j"
    by (auto simp: bi_ready_def)
  let ?k = "fst (es ! j)" and ?v = "snd (es ! j)" and ?D = "bi_data it"
  have lay: "block_layout ?D es offs rs" and R: "bi_restarts it = offs ! length es"
    and size: "bi_restarts it \<le> length ?D" "length ?D < 2 ^ 32"
    using b by (simp_all add: bi_block_def)
  obtain sh pre post where e: "sh \<le> length (bi_key it)" "sh \<le> length ?k" "take sh ?k = take sh (bi_key it)"
      "?D = pre @ entry_bytes sh ?k ?v @ post" "length pre = offs ! j"
      "offs ! Suc j = offs ! j + length (entry_bytes sh ?k ?v)"
    using r True unfolding bi_ready_def entry_at_def by blast
  have nxt: "offs ! Suc j \<le> bi_restarts it"
    using bi_block_offs(1) [OF b, of "Suc j"] True by simp
  define kp where kp: "kp = offs ! Suc j - (length ?k - sh) - length ?v"
  have q: "length pre + length (EncodeVarint32 (of_nat sh)) + length (EncodeVarint32 (of_nat (length ?k - sh)))
       + length (EncodeVarint32 (of_nat (length ?v))) = kp"
    "kp + (length ?k - sh) + length ?v = offs ! Suc j"
    using e by (simp_all add: entry_bytes_def kp)
  have dec: "DecodeEntry ?D (offs ! j) (bi_restarts it)
      = Some (of_nat sh, of_nat (length ?k - sh), of_nat (length ?v), kp)"
    using DecodeEntry_entry [OF e(4), of "bi_restarts it"] e nxt size by (simp add: kp)
  have small: "sh < 2 ^ 32" "length ?k - sh < 2 ^ 32" "length ?v < 2 ^ 32"
    using e(2,4) size nxt layout_key_length [OF lay True] by (simp_all add: entry_bytes_def)
  define hdr where "hdr = pre @ EncodeVarint32 (of_nat sh) @ EncodeVarint32 (of_nat (length ?k - sh))
      @ EncodeVarint32 (of_nat (length ?v))"
  have hdr: "?D = hdr @ drop sh ?k @ ?v @ post" "length hdr = kp"
    using e(4) q(1) by (simp_all add: hdr_def entry_bytes_def)
  have dk: "take (length ?k - sh) (drop kp ?D) = drop sh ?k"
    and dv: "take (length ?v) (drop (kp + (length ?k - sh)) ?D) = ?v"
    unfolding hdr(2) [symmetric] by (simp_all add: hdr(1))
  let ?it1 = "it\<lparr>bi_current := offs ! j, bi_key := ?k, bi_value := (kp + (length ?k - sh), length ?v)\<rparr>"
  let ?it' = "?it1\<lparr>bi_restart_index := AdvanceRestart ?it1 (bi_restart_index it)\<rparr>"
  have key: "take sh (bi_key it) @ drop sh ?k = ?k"
    by (simp add: e(3) [symmetric])
  have "ParseNextKey it = (True, ?it')"
    using e(1) bi_block_offs(3) [OF b, of j] True small
    by (simp add: ParseNextKey_def n Let_def dec unat_u32 dk key del: of_nat_diff)
  moreover have b': "bi_block ?it' es offs rs" and b1: "bi_block ?it1 es offs rs"
    by (rule bi_block_cong [OF b]; simp)+
  moreover have "bi_at ?it' es offs rs j"
  proof -
    let ?a = "AdvanceRestart ?it1 (bi_restart_index it)"
    have num: "bi_num_restarts ?it1 = length rs" and grp: "\<forall>i < length rs. GetRestartPoint ?it1 i = offs ! (rs ! i)"
      using b1 by (simp_all add: bi_block_def)
    have a: "?a < length rs" "?a = bi_restart_index it \<or> offs ! (rs ! ?a) < offs ! j"
        "?a + 1 < length rs \<longrightarrow> offs ! j \<le> offs ! (rs ! (?a + 1))"
      using AdvanceRestart_spec [of "bi_restart_index it" ?it1] num grp idx by auto
    have "rs ! ?a \<le> j"
      using a(1,2) idx(2) layout_less_iff [OF lay layout_restart_le [OF lay a(1)], of j] True by auto
    moreover have "?a + 1 < length rs \<longrightarrow> j \<le> rs ! (?a + 1)"
      using a(3) layout_less_iff [OF lay layout_restart_le [OF lay, of "?a + 1"], of j] True by (auto simp: not_less [symmetric])
    ultimately show ?thesis
      using b' True a(1) q(2) dv by (simp add: bi_at_def BI_value_def)
  qed
  ultimately show ?thesis
    using True by (intro exI [of _ ?it']) simp
qed

lemma bi_ready_of_at:
  assumes a: "bi_at it es offs rs i" and i: "i < length es"
  shows "bi_ready it es offs rs (Suc i)"
proof -
  have b: "bi_block it es offs rs" using a by (simp add: bi_at_def)
  have "offs ! Suc i < 2 ^ 32"
    using bi_block_offs(2) [OF b, of "Suc i"] i by simp
  moreover have "Suc i < length es \<Longrightarrow> entry_at (bi_data it) (offs ! Suc i) (fst (es ! i))
      (fst (es ! Suc i)) (snd (es ! Suc i)) (offs ! Suc (Suc i))"
    using b unfolding bi_block_def block_layout_def by fastforce
  ultimately show ?thesis
    using a i by (auto simp: bi_at_def bi_ready_def NextEntryOffset_def)
qed

lemma SeekToRestartPoint_ready:
  assumes b: "bi_block it es offs rs" and j: "j < length rs"
  shows "bi_ready (SeekToRestartPoint it j) es offs rs (rs ! j)"
proof -
  let ?it' = "SeekToRestartPoint it j"
  have b': "bi_block ?it' es offs rs"
    by (rule bi_block_cong [OF b]) (simp_all add: SeekToRestartPoint_def)
  have lay: "block_layout (bi_data it) es offs rs" using b by (simp add: bi_block_def)
  have "GetRestartPoint it j = offs ! (rs ! j)"
    using b j by (simp add: bi_block_def)
  moreover have "offs ! (rs ! j) < 2 ^ 32"
    using bi_block_offs(2) [OF b layout_restart_le [OF lay j]] .
  ultimately show ?thesis
    using b' j layout_restart_le [OF lay j] lay
    by (auto simp: bi_ready_def NextEntryOffset_def SeekToRestartPoint_def block_layout_def)
qed

lemma ParseUntil_spec:
  assumes "bi_ready it es offs rs j" "m \<le> length es" "0 < m" "j < m"
  shows "\<exists>it'. ParseUntil (offs ! m) it = Some it' \<and> bi_at it' es offs rs (m - 1)"
  using assms
proof (induction "m - j" arbitrary: it j rule: less_induct)
  case less
  obtain it' where p: "ParseNextKey it = (True, it')" "bi_at it' es offs rs j"
    using ParseNextKey_ready [OF less.prems(1)] less.prems by auto
  then have nxt: "NextEntryOffset it' = offs ! Suc j" and lay: "block_layout (bi_data it') es offs rs"
    and r: "bi_ready it' es offs rs (Suc j)"
    using bi_ready_of_at [OF p(2)] less.prems by (auto simp: bi_ready_def bi_block_def)
  show ?case
  proof (cases "Suc j < m")
    case True
    then have "offs ! Suc j < offs ! m"
      using layout_less [OF lay] less.prems by simp
    then have "ParseUntil (offs ! m) it = ParseUntil (offs ! m) it'"
      by (simp add: ParseUntil.simps [of _ it] p nxt)
    with less.hyps [OF _ r] True less.prems show ?thesis by simp
  next
    case False
    with less.prems have m: "m = Suc j" by simp
    then have "ParseUntil (offs ! m) it = Some it'"
      by (simp add: ParseUntil.simps [of _ it] p nxt)
    with p m show ?thesis by simp
  qed
qed

lemma ParseUntil_end:
  assumes "bi_ready it es offs rs (length es)"
  shows "\<exists>it'. ParseUntil bound it = Some it' \<and> bi_at it' es offs rs (length es)"
  using ParseNextKey_ready [OF assms] by (auto simp: ParseUntil.simps [of _ it])

lemma BI_SeekToFirst_at:
  assumes "bi_block it es offs rs"
  shows "bi_at (BI_SeekToFirst it) es offs rs 0"
proof -
  have "rs \<noteq> []" "rs ! 0 = 0" using assms by (auto simp: bi_block_def block_layout_def)
  then show ?thesis
    using ParseNextKey_ready [OF SeekToRestartPoint_ready [OF assms, of 0]]
    by (auto simp: BI_SeekToFirst_def)
qed

lemma BI_SeekToLast_at:
  assumes b: "bi_block it es offs rs"
  shows "\<exists>it'. BI_SeekToLast it = Some it' \<and> bi_at it' es offs rs (length es - 1)"
proof -
  let ?j = "length rs - 1"
  have lay: "block_layout (bi_data it) es offs rs" and num: "bi_num_restarts it = length rs"
    and R: "bi_restarts it = offs ! length es"
    using b by (simp_all add: bi_block_def)
  have j: "?j < length rs" using lay by (auto simp: block_layout_def)
  note r = SeekToRestartPoint_ready [OF b j]
  show ?thesis
  proof (cases "es = []")
    case True
    with layout_restart_le [OF lay j] have "rs ! ?j = 0" by simp
    with r True ParseUntil_end [of _ es offs rs] show ?thesis by (simp add: BI_SeekToLast_def num R)
  next
    case False
    then have "rs ! ?j < length es"
      using lay j by (cases "?j = 0") (auto simp: block_layout_def)
    with False ParseUntil_spec [OF r, of "length es"] show ?thesis
      by (simp add: BI_SeekToLast_def num R)
  qed
qed

lemma BI_Next_at:
  assumes "bi_at it es offs rs i" "i < length es"
  shows "bi_at (BI_Next it) es offs rs (Suc i)"
  using ParseNextKey_ready [OF bi_ready_of_at [OF assms]] by (auto simp: BI_Next_def)

lemma PrevRestart_spec:
  "(case PrevRestart it j of
      None \<Rightarrow> (\<forall>i \<le> j. bi_current it \<le> GetRestartPoint it i)
    | Some i \<Rightarrow> i \<le> j \<and> GetRestartPoint it i < bi_current it)"
  by (induction j) (auto simp: le_Suc_eq split: option.splits)

lemma BI_Prev_at:
  fixes i :: nat
  assumes a: "bi_at it es offs rs i" and i: "i < length es"
  shows "\<exists>it'. BI_Prev it = Some it' \<and> bi_at it' es offs rs (if i = 0 then length es else i - 1)"
proof -
  have b: "bi_block it es offs rs" and cur: "bi_current it = offs ! i"
    and idx: "bi_restart_index it < length rs" "rs ! bi_restart_index it \<le> i"
    using a i by (simp_all add: bi_at_def)
  have lay: "block_layout (bi_data it) es offs rs" and R: "bi_restarts it = offs ! length es"
    and num: "bi_num_restarts it = length rs"
    and grp: "\<And>j. j < length rs \<Longrightarrow> GetRestartPoint it j = offs ! (rs ! j)"
    using b by (simp_all add: bi_block_def)
  have rs0: "0 < length rs" "rs ! 0 = 0" using lay by (auto simp: block_layout_def)
  note P = PrevRestart_spec [where it = it and j = "bi_restart_index it"]
  show ?thesis
  proof (cases "PrevRestart it (bi_restart_index it)")
    case None
    with P cur have "offs ! i \<le> offs ! (rs ! 0)"
      using grp [of 0] rs0 by auto
    with rs0 have "i = 0"
      using layout_less [OF lay, of 0 i] i by (cases "i = 0") auto
    moreover have "bi_block (it\<lparr>bi_current := bi_restarts it, bi_restart_index := bi_num_restarts it\<rparr>) es offs rs"
      by (rule bi_block_cong [OF b]) simp_all
    ultimately show ?thesis
      by (simp add: BI_Prev_def None bi_at_def R)
  next
    case (Some j)
    with P idx have j: "j < length rs" "offs ! (rs ! j) < offs ! i"
      using grp [of j] cur by auto
    then have "rs ! j < i"
      using layout_less_iff [OF lay layout_restart_le [OF lay j(1)], of i] i by simp
    with ParseUntil_spec [OF SeekToRestartPoint_ready [OF b j(1)], of i] i show ?thesis
      by (simp add: BI_Prev_def Some cur)
  qed
qed

section \<open>Seek\<close>

context comparator_laws
begin

lemma SeekBinary_spec:
  assumes b: "bi_block it es offs rs" and d: "\<forall>e \<in> set es. dm (fst e)" "dm t"
  shows "left \<le> right \<Longrightarrow> right < length rs \<Longrightarrow> left = 0 \<or> Compare c (fst (es ! (rs ! left))) t < 0 \<Longrightarrow>
    \<exists>l. SeekBinary c it t left right = Some (Inr l) \<and> l < length rs
        \<and> (l = 0 \<or> Compare c (fst (es ! (rs ! l))) t < 0)"
proof (induction "right - left" arbitrary: left right rule: less_induct)
  case less
  have lay: "block_layout (bi_data it) es offs rs" and R: "bi_restarts it = offs ! length es"
    and num: "length rs < 2 ^ 31" and grp: "\<And>j. j < length rs \<Longrightarrow> GetRestartPoint it j = offs ! (rs ! j)"
    and size: "bi_restarts it \<le> length (bi_data it)" "length (bi_data it) < 2 ^ 32"
    using b by (simp_all add: bi_block_def)
  show ?case
  proof (cases "left < right")
    case False
    with less.prems show ?thesis
      by (subst SeekBinary.simps) simp
  next
    case True
    define mid where "mid = (left + right + 1) div 2"
    have mid: "((left + right + 1) mod 2 ^ 32) div 2 = mid" "left < mid" "mid \<le> right" "mid < length rs"
      using True less.prems num by (simp_all add: mid_def)
    have "\<forall>j < length rs. 0 < j \<longrightarrow> rs ! j < length es"
      using lay unfolding block_layout_def by blast
    then have m: "rs ! mid < length es"
      using mid(2,4) by simp
    let ?k = "fst (es ! (rs ! mid))" and ?v = "snd (es ! (rs ! mid))"
    obtain pre post where e: "bi_data it = pre @ entry_bytes 0 ?k ?v @ post" "length pre = offs ! (rs ! mid)"
        "offs ! Suc (rs ! mid) = offs ! (rs ! mid) + length (entry_bytes 0 ?k ?v)"
      using layout_restart [OF lay mid(4) m] by blast
    define q where "q = offs ! Suc (rs ! mid) - length ?k - length ?v"
    have nxt: "offs ! Suc (rs ! mid) \<le> bi_restarts it"
      using bi_block_offs(1) [OF b, of "Suc (rs ! mid)"] m by simp
    then have dec: "DecodeEntry (bi_data it) (offs ! (rs ! mid)) (bi_restarts it)
        = Some (0, of_nat (length ?k), of_nat (length ?v), q)"
      using DecodeEntry_entry [OF e(1), of "bi_restarts it"] e(2,3) size by (simp add: q_def)
    have "length ?k < 2 ^ 32"
      using layout_key_length [OF lay m] nxt size by simp
    moreover have "take (length ?k) (drop q (bi_data it)) = ?k"
    proof -
      define hdr where "hdr = pre @ EncodeVarint32 (of_nat 0) @ EncodeVarint32 (of_nat (length ?k - 0))
        @ EncodeVarint32 (of_nat (length ?v))"
      have "bi_data it = hdr @ ?k @ ?v @ post" "length hdr = q"
        using e by (simp_all add: hdr_def entry_bytes_def q_def)
      then show ?thesis by simp
    qed
    ultimately have step: "SeekBinary c it t left right =
        (if Compare c ?k t < 0 then SeekBinary c it t mid right else SeekBinary c it t left (mid - 1))"
      using True by (subst SeekBinary.simps) (simp add: mid(1) [simplified] grp [OF mid(4)] dec unat_u32 Let_def)
    show ?thesis
    proof (cases "Compare c ?k t < 0")
      case True
      then have "\<exists>l. SeekBinary c it t mid right = Some (Inr l) \<and> l < length rs
        \<and> (l = 0 \<or> Compare c (fst (es ! (rs ! l))) t < 0)"
        using less.hyps [of right mid] mid less.prems by simp
      with step True show ?thesis by simp
    next
      case False
      have "\<exists>l. SeekBinary c it t left (mid - 1) = Some (Inr l) \<and> l < length rs
        \<and> (l = 0 \<or> Compare c (fst (es ! (rs ! l))) t < 0)"
        using less.hyps [of "mid - 1" left] mid less.prems by simp
      with step False show ?thesis by simp
    qed
  qed
qed

lemma SeekLinear_spec:
  "bi_ready it es offs rs j \<Longrightarrow> (\<forall>i < j. Compare c (fst (es ! i)) t < 0) \<Longrightarrow>
   \<exists>it'. SeekLinear c t it = Some it' \<and> bi_at it' es offs rs (lower_bound c es t)"
proof (induction "length es - j" arbitrary: it j rule: less_induct)
  case less
  then have j: "j \<le> length es" by (simp add: bi_ready_def)
  obtain it' where p: "ParseNextKey it = (j < length es, it')" "bi_at it' es offs rs j"
    using ParseNextKey_ready [OF less.prems(1)] by auto
  show ?case
  proof (cases "j < length es \<and> Compare c (fst (es ! j)) t < 0")
    case True
    then have "SeekLinear c t it = SeekLinear c t it'"
      using p by (simp add: SeekLinear.simps [of c t it] bi_at_def)
    moreover have "\<forall>i < Suc j. Compare c (fst (es ! i)) t < 0"
      using True less.prems(2) by (auto simp: less_Suc_eq)
    ultimately show ?thesis
      using less.hyps [OF _ bi_ready_of_at [OF p(2)]] True by simp
  next
    case False
    then have "SeekLinear c t it = Some it'"
      using p by (auto simp: SeekLinear.simps [of c t it] bi_at_def)
    moreover have "lower_bound c es t = j"
      using False less.prems(2) j by (intro lower_boundI) auto
    ultimately show ?thesis using p by simp
  qed
qed

lemma below_sorted:
  assumes s: "sorted_wrt (\<lambda>a b. Compare c (fst a) (fst b) < 0) es" and d: "\<forall>e \<in> set es. dm (fst e)" "dm t"
    and ij: "i \<le> j" "j < length es" "Compare c (fst (es ! j)) t \<le> 0" "i < j \<or> Compare c (fst (es ! j)) t < 0"
  shows "Compare c (fst (es ! i)) t < 0"
proof (cases "i = j")
  case True
  with ij show ?thesis by auto
next
  case False
  with ij s have "Compare c (fst (es ! i)) (fst (es ! j)) < 0"
    by (simp add: sorted_wrt_iff_nth_less)
  with ij d cmp_less_le_trans [of "fst (es ! i)" "fst (es ! j)" t] show ?thesis by simp
qed

lemma BI_Seek_at:
  assumes a: "bi_at it es offs rs i" and s: "sorted_wrt (\<lambda>a b. Compare c (fst a) (fst b) < 0) es"
    and d: "\<forall>e \<in> set es. dm (fst e)" "dm t"
  shows "\<exists>it'. BI_Seek c it t = Some it' \<and> bi_at it' es offs rs (lower_bound c es t)"
proof -
  have b: "bi_block it es offs rs" and cur: "bi_current it = offs ! i"
    using a by (simp_all add: bi_at_def)
  have lay: "block_layout (bi_data it) es offs rs" and num: "bi_num_restarts it = length rs"
    using b by (simp_all add: bi_block_def)
  have rs0: "0 < length rs" "rs ! 0 = 0" using lay by (auto simp: block_layout_def)
  note valid = bi_at_Valid [OF a]
  note below = below_sorted [OF s d]
  define cur_cmp where "cur_cmp = (if BI_Valid it then Compare c (bi_key it) t else 0)"
  have at: "bi_key it = fst (es ! i)" "bi_restart_index it < length rs" "rs ! bi_restart_index it \<le> i"
    if "i < length es"
    using a that by (simp_all add: bi_at_def)
  show ?thesis
  proof (cases "BI_Valid it \<and> cur_cmp = 0")
    case True
    then have i: "i < length es" and z: "Compare c (fst (es ! i)) t = 0"
      using valid at by (auto simp: cur_cmp_def)
    then have "lower_bound c es t = i"
      using below [of _ i] by (intro lower_boundI) auto
    moreover have "BI_Seek c it t = Some it"
      using True by (auto simp: BI_Seek_def cur_cmp_def Let_def)
    ultimately show ?thesis using a by simp
  next
    case False
    define left where "left = (if BI_Valid it \<and> cur_cmp < 0 then bi_restart_index it else 0)"
    define right where "right = (if BI_Valid it \<and> cur_cmp > 0 then bi_restart_index it else bi_num_restarts it - 1)"
    have lr: "left \<le> right" "right < length rs"
      using at(2) valid rs0 by (auto simp: left_def right_def num)
    have l0: "left = 0 \<or> Compare c (fst (es ! (rs ! left))) t < 0"
      using below [of "rs ! bi_restart_index it" i] at valid
      by (auto simp: left_def cur_cmp_def)
    obtain l where l: "SeekBinary c it t left right = Some (Inr l)" "l < length rs"
        "l = 0 \<or> Compare c (fst (es ! (rs ! l))) t < 0"
      using SeekBinary_spec [OF b d lr l0] by blast
    define skip where "skip = (BI_Valid it \<and> l = bi_restart_index it \<and> cur_cmp < 0)"
    have eq: "BI_Seek c it t = SeekLinear c t (if skip then it else SeekToRestartPoint it l)"
      using False l(1) by (auto simp: BI_Seek_def Let_def cur_cmp_def [symmetric] left_def [symmetric]
        right_def [symmetric] skip_def)
    show ?thesis
    proof (cases skip)
      case True
      then have i: "i < length es" and neg: "Compare c (fst (es ! i)) t < 0"
        using valid at by (auto simp: skip_def cur_cmp_def)
      have "\<forall>j < Suc i. Compare c (fst (es ! j)) t < 0"
        using below [of _ i] i neg by (auto simp: less_Suc_eq_le)
      with SeekLinear_spec [OF bi_ready_of_at [OF a i]] eq True show ?thesis by simp
    next
      case False
      have "rs ! l < length es \<or> rs ! l = 0"
        using lay l(2) rs0 by (cases "l = 0") (auto simp: block_layout_def)
      then have "\<forall>j < rs ! l. Compare c (fst (es ! j)) t < 0"
        using below [of _ "rs ! l"] l(3) rs0 by fastforce
      with SeekLinear_spec [OF SeekToRestartPoint_ready [OF b l(2)]] eq False show ?thesis by simp
    qed
  qed
qed

end

text \<open>The iterator over a well-formed block keeps the contract of a sorted cursor.\<close>

definition at_block :: "comparator \<Rightarrow> (bytes \<Rightarrow> bool) \<Rightarrow> BlockIter \<Rightarrow> entries \<Rightarrow> nat \<Rightarrow> bool" where
  "at_block c dm it es i \<longleftrightarrow>
     (\<exists>offs rs. bi_at it es offs rs i) \<and> sorted_wrt (\<lambda>a b. Compare c (fst a) (fst b) < 0) es
     \<and> (\<forall>e \<in> set es. dm (fst e))"

lemma at_blockI:
  "bi_at it es offs rs i \<Longrightarrow> sorted_wrt (\<lambda>a b. Compare c (fst a) (fst b) < 0) es \<Longrightarrow> \<forall>e \<in> set es. dm (fst e)
    \<Longrightarrow> at_block c dm it es i"
  unfolding at_block_def by blast

lemma at_block_move: "at_block c dm it es i \<Longrightarrow> bi_at it' es offs rs j \<Longrightarrow> at_block c dm it' es j"
  unfolding at_block_def by blast

lemma bi_at_block: "bi_at it es offs rs i \<Longrightarrow> bi_block it es offs rs"
  by (simp add: bi_at_def)

context comparator_laws
begin

lemma block_iter_sorted: "sorted_iterator c dm (BlockIter_ops c) (at_block c dm)"
proof (unfold_locales, goal_cases)
  case (1 it es i) then show ?case
    by (auto simp: at_block_def BlockIter_ops_def bi_at_Valid)
next
  case (2 it es i) then show ?case
    by (auto simp: at_block_def bi_at_def)
next
  case (3 it es i) then show ?case
    by (auto simp: at_block_def BlockIter_ops_def bi_at_def)
next
  case (4 it es i) then show ?case
    by (auto simp: at_block_def BlockIter_ops_def bi_at_def)
next
  case (5 it es i) then show ?case
    by (auto simp: at_block_def BlockIter_ops_def bi_at_def bi_block_def)
next
  case (6 it es i e) then show ?case
    by (auto simp: at_block_def)
next
  case (7 it es i) then show ?case
    by (auto simp: at_block_def)
next
  case (8 it es i)
  then obtain offs rs where a: "bi_at it es offs rs i" by (auto simp: at_block_def)
  from 8 show ?case
    using BI_SeekToFirst_at [OF bi_at_block [OF a]] unfolding at_block_def BlockIter_ops_def by auto
next
  case (9 it es i)
  then obtain offs rs where a: "bi_at it es offs rs i" by (auto simp: at_block_def)
  from 9 show ?case
    using BI_SeekToLast_at [OF bi_at_block [OF a]] unfolding at_block_def BlockIter_ops_def by auto
next
  case (10 it es i t)
  then obtain offs rs where a: "bi_at it es offs rs i" by (auto simp: at_block_def)
  from 10 show ?case
    using BI_Seek_at [OF a _ _ 10(2)] unfolding at_block_def BlockIter_ops_def by auto
next
  case (11 it es i)
  then obtain offs rs where a: "bi_at it es offs rs i" by (auto simp: at_block_def)
  from 11 show ?case
    using BI_Next_at [OF a 11(2)] unfolding at_block_def BlockIter_ops_def by auto
next
  case (12 it es i)
  then obtain offs rs where a: "bi_at it es offs rs i" by (auto simp: at_block_def)
  obtain it' where "BI_Prev it = Some it'" "bi_at it' es offs rs (if i = 0 then length es else i - 1)"
    using BI_Prev_at [OF a 12(2)] by blast
  then show ?case
    using at_block_move [OF 12(1)] by (simp add: BlockIter_ops_def)
qed

end

sublocale comparator_laws \<subseteq> block_iter: sorted_iterator c dm "BlockIter_ops c" "at_block c dm"
  by (rule block_iter_sorted)

sublocale comparator_laws \<subseteq> block:
    sorted_iterator c dm "Block_ops c" "case_sum at_empty (at_block c dm)"
  unfolding Block_ops_def
  by (rule Dispatch_sorted [OF empty_iter.sorted_iterator_axioms block_iter_sorted])

section \<open>What the builder writes\<close>

definition build_inv :: "BlockBuilder \<Rightarrow> entries \<Rightarrow> nat list \<Rightarrow> nat list \<Rightarrow> bool" where
  "build_inv b es offs rs \<longleftrightarrow>
     block_layout (bb_buffer b) es offs rs \<and> offs ! length es = length (bb_buffer b)
     \<and> bb_restarts b = map (\<lambda>r. of_nat (offs ! r)) rs \<and> bb_last_key b = prev_key es (length es)
     \<and> (es = [] \<longrightarrow> bb_counter b = 0) \<and> 0 < bb_interval b"

lemma build_inv_new: "0 < interval \<Longrightarrow> build_inv (BlockBuilder_new interval) [] [0] [0]"
  by (simp add: build_inv_def BlockBuilder_new_def block_layout_def)

lemma build_inv_Reset: "0 < bb_interval b \<Longrightarrow> build_inv (BB_Reset b) [] [0] [0]"
  by (simp add: build_inv_def BB_Reset_def block_layout_def)

lemma prev_key_append: "i \<le> length es \<Longrightarrow> prev_key (es @ xs) i = prev_key es i"
  by (cases i) (auto simp: nth_append)

lemma block_layout_snoc:
  assumes lay: "block_layout D es offs rs" and R: "offs ! length es = length D"
    and sh: "sh \<le> length (prev_key es (length es))" "sh \<le> length k" "take sh k = take sh (prev_key es (length es))"
    and rs': "rs' = rs \<or> rs' = rs @ [length es] \<and> sh = 0 \<and> es \<noteq> []" and sh0: "es = [] \<Longrightarrow> sh = 0"
  shows "block_layout (D @ entry_bytes sh k v) (es @ [(k, v)]) (offs @ [length D + length (entry_bytes sh k v)]) rs'"
proof -
  let ?D = "D @ entry_bytes sh k v" and ?es = "es @ [(k, v)]" and ?offs = "offs @ [length D + length (entry_bytes sh k v)]"
  have len: "length offs = Suc (length es)" and rs: "rs \<noteq> []" "rs ! 0 = 0" "sorted_wrt (<) rs" "offs ! 0 = 0"
    and ent: "\<And>i. i < length es \<Longrightarrow> entry_at D (offs ! i) (prev_key es i) (fst (es ! i)) (snd (es ! i)) (offs ! Suc i)"
    and rb: "\<And>j. j < length rs \<Longrightarrow> 0 < j \<Longrightarrow> rs ! j < length es"
    and re: "\<And>j. j < length rs \<Longrightarrow> rs ! j < length es \<Longrightarrow>
          entry_at D (offs ! (rs ! j)) [] (fst (es ! (rs ! j))) (snd (es ! (rs ! j))) (offs ! Suc (rs ! j))"
    using lay unfolding block_layout_def by blast+
  have last: "entry_at ?D (length D) p k v (length D + length (entry_bytes sh k v))"
    if "sh \<le> length p" "take sh k = take sh p" for p
    unfolding entry_at_def using that sh(2) by (intro exI [of _ sh] exI [of _ D] exI [of _ "[]"]) simp
  have entries: "entry_at ?D (?offs ! i) (prev_key ?es i) (fst (?es ! i)) (snd (?es ! i)) (?offs ! Suc i)"
    if "i < length ?es" for i
  proof (cases "i = length es")
    case True
    then show ?thesis
      using last [OF sh(1,3)] by (simp add: nth_append len R prev_key_append)
  next
    case False
    with that show ?thesis
      using entry_at_append [OF ent [of i]] by (simp add: nth_append len prev_key_append)
  qed
  have restart: "entry_at ?D (?offs ! i) [] (fst (?es ! i)) (snd (?es ! i)) (?offs ! Suc i)"
    if "i \<in> set rs'" "i < length ?es" for i
  proof (cases "i = length es")
    case True
    have "sh = 0"
    proof (cases "es = []")
      case False
      have "length es \<notin> set rs"
        using rb False rs by (metis in_set_conv_nth length_greater_0_conv less_irrefl neq0_conv)
      with that True rs' show ?thesis by auto
    qed (use sh0 in simp)
    with True show ?thesis
      using last [of "[]"] by (simp add: nth_append len R)
  next
    case False
    with that rs' have "i \<in> set rs" by auto
    then obtain j where j: "j < length rs" "rs ! j = i"
      by (auto simp: in_set_conv_nth)
    with False that show ?thesis
      using entry_at_append [OF re [of j]] by (simp add: nth_append len)
  qed
  have le0: "\<forall>r \<in> set rs. r < length es \<or> r = 0"
    using rb rs(2) by (metis in_set_conv_nth neq0_conv)
  then have le: "\<forall>r \<in> set rs. r < Suc (length es)"
    using less_SucI by blast
  have "sorted_wrt (<) rs'"
    using rs' rs(3) le0 by (auto simp: sorted_wrt_append)
  moreover have "rs' \<noteq> []" "rs' ! 0 = 0"
    using rs' rs by (auto simp: nth_append)
  moreover have "rs' ! j < length ?es" if "j < length rs'" for j
  proof -
    have "\<forall>r \<in> set rs'. r < Suc (length es)"
      using rs' le by auto
    with nth_mem [OF that] show ?thesis by simp
  qed
  ultimately show ?thesis
    unfolding block_layout_def using entries restart len rs(4) nth_mem [of _ rs'] by (simp add: nth_append)
qed

lemma build_inv_Add:
  assumes "build_inv b es offs rs"
  shows "\<exists>offs' rs'. build_inv (BB_Add b k v) (es @ [(k, v)]) offs' rs'"
proof -
  have lay: "block_layout (bb_buffer b) es offs rs" and R: "offs ! length es = length (bb_buffer b)"
    and res: "bb_restarts b = map (\<lambda>r. of_nat (offs ! r)) rs" and last: "bb_last_key b = prev_key es (length es)"
    and cnt: "es = [] \<longrightarrow> bb_counter b = 0" "0 < bb_interval b"
    using assms by (auto simp: build_inv_def)
  let ?share = "bb_counter b < bb_interval b"
  define sh where "sh = (if ?share then shared_prefix (bb_last_key b) k else 0)"
  define rs' where "rs' = (if ?share then rs else rs @ [length es])"
  let ?offs = "offs @ [length (bb_buffer b) + length (entry_bytes sh k v)]"
  have sh: "sh \<le> length (prev_key es (length es))" "sh \<le> length k" "take sh k = take sh (prev_key es (length es))"
    using shared_prefix_le [of "bb_last_key b" k] shared_prefix_take [of "bb_last_key b" k]
    by (auto simp: sh_def last)
  have buf: "bb_buffer (BB_Add b k v) = bb_buffer b @ entry_bytes sh k v"
    and res': "bb_restarts (BB_Add b k v)
      = (if ?share then bb_restarts b else bb_restarts b @ [of_nat (length (bb_buffer b))])"
    and key: "bb_last_key (BB_Add b k v) = take sh (bb_last_key b) @ drop sh k"
    and int: "bb_interval (BB_Add b k v) = bb_interval b"
    by (simp_all add: BB_Add_def sh_def entry_bytes_def PutVarint32_def Let_def)
  have "block_layout (bb_buffer b @ entry_bytes sh k v) (es @ [(k, v)]) ?offs rs'"
    using cnt by (intro block_layout_snoc [OF lay R sh]) (auto simp: rs'_def sh_def last)
  moreover have "map (\<lambda>r. of_nat (?offs ! r)) rs' = bb_restarts (BB_Add b k v)"
  proof -
    have "\<forall>r \<in> set rs. r < length offs"
      using lay layout_restart_le [OF lay] by (metis block_layout_def in_set_conv_nth le_imp_less_Suc)
    then show ?thesis
      using R lay by (auto simp: rs'_def res' res nth_append block_layout_def)
  qed
  moreover have "bb_last_key (BB_Add b k v) = k"
    by (simp add: key last sh(3) [symmetric])
  moreover have "?offs ! length (es @ [(k, v)]) = length (bb_buffer (BB_Add b k v))"
    using lay by (simp add: buf nth_append block_layout_def)
  ultimately have "build_inv (BB_Add b k v) (es @ [(k, v)]) ?offs rs'"
    using cnt by (simp add: build_inv_def buf int)
  then show ?thesis by blast
qed

lemma build_inv_AddAll:
  "build_inv b es offs rs \<Longrightarrow> \<exists>offs' rs'. build_inv (BB_AddAll b xs) (es @ xs) offs' rs'"
proof (induction xs arbitrary: b es offs rs)
  case Nil
  then show ?case by (auto simp: BB_AddAll_def)
next
  case (Cons x xs)
  obtain offs' rs' where "build_inv (BB_Add b (fst x) (snd x)) (es @ [x]) offs' rs'"
    using build_inv_Add [OF Cons.prems, of "fst x" "snd x"] by auto
  from Cons.IH [OF this] show ?case
    by (simp add: BB_AddAll_def case_prod_beta)
qed

lemma foldl_PutFixed32: "foldl PutFixed32 buf xs = buf @ concat (map EncodeFixed32 xs)"
  by (induction xs arbitrary: buf) (simp_all add: PutFixed32_def)

lemma length_fixed_array: "length (concat (map EncodeFixed32 xs)) = length xs * 4"
  by (induction xs) simp_all

lemma drop_fixed_array:
  "j < length xs \<Longrightarrow>
   \<exists>rest. drop (j * 4) (concat (map EncodeFixed32 xs) @ tail) = EncodeFixed32 (xs ! j) @ rest"
proof (induction xs arbitrary: j)
  case (Cons x xs)
  then show ?case
    by (cases j) auto
qed simp

lemma Finish_bytes:
  "fst (BB_Finish b) = bb_buffer b @ concat (map EncodeFixed32 (bb_restarts b))
     @ EncodeFixed32 (of_nat (length (bb_restarts b)))"
  by (simp add: BB_Finish_def Let_def foldl_PutFixed32 PutFixed32_def)

lemma Finish_length: "length (fst (BB_Finish b)) = BB_CurrentSizeEstimate b"
  by (simp add: Finish_bytes BB_CurrentSizeEstimate_def length_fixed_array)

text \<open>Opening a finished block gives a cursor over exactly the entries that were added.\<close>

lemma Finish_NewIterator:
  assumes inv: "build_inv b es offs rs" and fits: "length (fst (BB_Finish b)) < 2 ^ 32"
  shows "\<exists>it. Block_NewIterator (Block_new (fst (BB_Finish b))) = Inr it \<and> bi_at it es offs rs (length es)"
proof -
  let ?buf = "bb_buffer b" and ?n = "length (bb_restarts b)" and ?D = "fst (BB_Finish b)"
  have lay: "block_layout ?buf es offs rs" and R: "offs ! length es = length ?buf"
    and res: "bb_restarts b = map (\<lambda>r. of_nat (offs ! r)) rs"
    using inv by (auto simp: build_inv_def)
  have n: "?n = length rs" "0 < ?n" using res lay by (auto simp: block_layout_def)
  have D: "length ?D = length ?buf + ?n * 4 + 4"
    using Finish_length [of b] by (simp add: BB_CurrentSizeEstimate_def)
  have num: "NumRestarts ?D (length ?D) = of_nat ?n"
    using DecodeFixed32_EncodeFixed32 [of "of_nat ?n" "[]"]
    by (simp add: NumRestarts_def D) (simp add: Finish_bytes length_fixed_array)
  have un: "unat (of_nat ?n :: u32) = ?n" "unat (1 + of_nat ?n :: u32) = ?n + 1"
    using fits D unat_u32 [of ?n] unat_u32 [of "?n + 1"] by (simp_all add: add.commute)
  let ?it = "BlockIter_new ?D (length ?buf) ?n"
  have "Block_new ?D = \<lparr>blk_data = ?D, blk_size = length ?D, blk_restart_offset = length ?buf\<rparr>"
    using fits by (simp add: Block_new_def num un Let_def) (simp add: D)
  then have new: "Block_NewIterator (Block_new ?D) = Inr ?it"
    using n(2) by (simp add: Block_NewIterator_def num un) (simp add: D)
  have layD: "block_layout ?D es offs rs"
    unfolding Finish_bytes by (rule block_layout_append [OF lay])
  have grp: "GetRestartPoint ?it j = offs ! (rs ! j)" if "j < length rs" for j
  proof -
    obtain rest where "drop (j * 4) (concat (map EncodeFixed32 (bb_restarts b)) @ EncodeFixed32 (of_nat ?n))
        = EncodeFixed32 (bb_restarts b ! j) @ rest"
      using drop_fixed_array [of j "bb_restarts b" "EncodeFixed32 (of_nat ?n)"] \<open>j < length rs\<close> n by auto
    then have "DecodeFixed32 (drop (length ?buf + j * 4) ?D) = of_nat (offs ! (rs ! j))"
      using that by (simp add: Finish_bytes res)
    moreover have "offs ! (rs ! j) < 2 ^ 32"
      using layout_mono [OF lay layout_restart_le [OF lay that]] R D fits by simp
    ultimately show ?thesis
      by (simp add: GetRestartPoint_def BlockIter_new_def unat_u32)
  qed
  have "bi_at ?it es offs rs (length es)"
    using layD R n fits D grp by (auto simp: bi_at_def bi_block_def) (simp_all add: BlockIter_new_def)
  with new show ?thesis by blast
qed

context comparator_laws
begin

lemma block_read_back:
  assumes "0 < interval" and "length (fst (BB_Finish (BB_AddAll (BlockBuilder_new interval) es))) < 2 ^ 32"
    and "sorted_wrt (\<lambda>a b. Compare c (fst a) (fst b) < 0) es" "\<forall>e \<in> set es. dm (fst e)"
  shows "case_sum at_empty (at_block c dm)
    (Block_NewIterator (Block_new (fst (BB_Finish (BB_AddAll (BlockBuilder_new interval) es))))) es (length es)"
proof -
  obtain offs rs where "build_inv (BB_AddAll (BlockBuilder_new interval) es) es offs rs"
    using build_inv_AddAll [OF build_inv_new [OF assms(1)], of es] by auto
  then obtain it where "Block_NewIterator (Block_new (fst (BB_Finish (BB_AddAll (BlockBuilder_new interval) es)))) = Inr it"
      "bi_at it es offs rs (length es)"
    using Finish_NewIterator [OF _ assms(2)] by blast
  with at_blockI [OF this(2) assms(3,4)] show ?thesis by simp
qed

text \<open>So both scans of the opened block return the entries, and a seek finds the lower bound.\<close>

lemma block_cursor:
  assumes "0 < interval" and "length (fst (BB_Finish (BB_AddAll (BlockBuilder_new interval) es))) < 2 ^ 32"
    and "sorted_wrt (\<lambda>a b. Compare c (fst a) (fst b) < 0) es" "\<forall>e \<in> set es. dm (fst e)" "dm t"
  defines "it \<equiv> Block_NewIterator (Block_new (fst (BB_Finish (BB_AddAll (BlockBuilder_new interval) es))))"
  shows "scan (Block_ops c) it = Some es \<and> rscan (Block_ops c) it = Some (rev es)
    \<and> (\<exists>it'. it_Seek (Block_ops c) it t = Some it' \<and> it_Valid (Block_ops c) it' = (lower_bound c es t < length es)
         \<and> (lower_bound c es t < length es \<longrightarrow> (it_key (Block_ops c) it', it_value (Block_ops c) it') = es ! lower_bound c es t))"
  unfolding it_def by (rule block.cursor_at [OF block_read_back [OF assms(1-4)] assms(5)])

end

section \<open>A malformed entry\<close>

text \<open>
  The bounds test of \<open>DecodeEntry\<close> adds two 32-bit lengths, so lengths whose sum wraps pass it:
  the entry below claims 4294967295 key bytes where 2 are left.
\<close>

lemma DecodeEntry_wraps:
  "DecodeEntry [0, 0xff, 0xff, 0xff, 0xff, 0x0f, 1, 65, 66] 0 9 = Some (0, 4294967295, 1, 7)"
  by code_simp

end
