(* ===== verification/Filters.thy ===== *)
theory Filters
  imports Coding Hashes
begin

text \<open>
  Filters: the Bloom filter policy (util/bloom.cc) and the filter block of a table
  (db/filter_block.h, db/filter_block.cc). The locale \<open>filter_policy\<close> is what the filter block
  needs of a policy: a filter never rejects a key it was built from.
\<close>

section \<open>Policies\<close>

record filter_policy_ops =
  fp_Name :: bytes
  CreateFilter :: "bytes list \<Rightarrow> bytes \<Rightarrow> bytes"
  KeyMayMatch :: "bytes \<Rightarrow> bytes \<Rightarrow> bool"

text \<open>\<open>CreateFilter keys dst\<close> appends a filter to \<open>dst\<close>.\<close>

locale filter_policy =
  fixes p :: filter_policy_ops
  assumes create_append: "CreateFilter p keys dst = dst @ CreateFilter p keys []"
    and create_nonempty: "CreateFilter p keys [] \<noteq> []"
    and no_false_negative: "k \<in> set keys \<Longrightarrow> KeyMayMatch p k (CreateFilter p keys [])"

section \<open>The Bloom filter (util/bloom.cc)\<close>

definition BloomHash :: "bytes \<Rightarrow> u32" where
  "BloomHash key = Hash key 0xbc9f1d34"

text \<open>The number of probes: \<open>bits_per_key * 0.69\<close> truncated, within 1 and 30.\<close>

definition bloom_k :: "nat \<Rightarrow> nat" where
  "bloom_k bits_per_key =
     (let k = bits_per_key * 69 div 100 in if k < 1 then 1 else if k > 30 then 30 else k)"

definition bloom_delta :: "u32 \<Rightarrow> u32" where
  "bloom_delta hash = drop_bit 17 hash OR push_bit 15 hash"

definition bloom_bitpos :: "u32 \<Rightarrow> nat \<Rightarrow> nat" where
  "bloom_bitpos hash bits = unat hash mod bits"

fun BloomSetLoop :: "nat \<Rightarrow> nat \<Rightarrow> u32 \<Rightarrow> u32 \<Rightarrow> bytes \<Rightarrow> bytes" where
  "BloomSetLoop 0 bits hash delta array = array"
| "BloomSetLoop (Suc j) bits hash delta array =
     (let bitpos = bloom_bitpos hash bits
      in BloomSetLoop j bits (hash + delta) delta
           (array[bitpos div 8 := (array ! (bitpos div 8)) OR push_bit (bitpos mod 8) 1]))"

definition bloom_bytes :: "nat \<Rightarrow> nat \<Rightarrow> nat" where
  "bloom_bytes n bits_per_key =
     (let bits = n * bits_per_key; bits1 = (if bits < 64 then 64 else bits) in (bits1 + 7) div 8)"

definition Bloom_CreateFilter :: "nat \<Rightarrow> bytes list \<Rightarrow> bytes \<Rightarrow> bytes" where
  "Bloom_CreateFilter bits_per_key keys dst =
     (let k = bloom_k bits_per_key;
          nbytes = bloom_bytes (length keys) bits_per_key;
          bits = nbytes * 8;
          array = fold (\<lambda>key a. BloomSetLoop k bits (BloomHash key) (bloom_delta (BloomHash key)) a)
                    keys (replicate nbytes 0)
      in dst @ array @ [of_nat k])"

fun BloomTestLoop :: "nat \<Rightarrow> nat \<Rightarrow> u32 \<Rightarrow> u32 \<Rightarrow> bytes \<Rightarrow> bool" where
  "BloomTestLoop 0 bits hash delta array = True"
| "BloomTestLoop (Suc j) bits hash delta array =
     (let bitpos = bloom_bitpos hash bits
      in if byte_at array (bitpos div 8) AND push_bit (bitpos mod 8) 1 = 0 then False
         else BloomTestLoop j bits (hash + delta) delta array)"

definition Bloom_KeyMayMatch :: "bytes \<Rightarrow> bytes \<Rightarrow> bool" where
  "Bloom_KeyMayMatch key flt =
     (let len = length flt
      in if len < 2 then False
         else let bits = (len - 1) * 8; k = unat (byte_at flt (len - 1))
              in if k > 30 then True
                 else BloomTestLoop k bits (BloomHash key) (bloom_delta (BloomHash key)) flt)"

definition BloomFilterPolicy :: "nat \<Rightarrow> filter_policy_ops" where
  "BloomFilterPolicy bits_per_key =
     \<lparr> fp_Name = lit ''lindb.BuiltinBloomFilter2'',
       CreateFilter = Bloom_CreateFilter bits_per_key,
       KeyMayMatch = Bloom_KeyMayMatch \<rparr>"

section \<open>The filter block (db/filter_block.cc)\<close>

definition kFilterBaseLg :: nat where
  "kFilterBaseLg = 11"

definition kFilterBase :: nat where
  "kFilterBase = 2048"

record FilterBlockBuilder =
  fb_keys :: bytes
  fb_start :: "nat list"
  fb_result :: bytes
  fb_filter_offsets :: "u32 list"

definition FilterBlockBuilder_new :: FilterBlockBuilder where
  "FilterBlockBuilder_new = \<lparr> fb_keys = [], fb_start = [], fb_result = [], fb_filter_offsets = [] \<rparr>"

definition GenerateFilter :: "filter_policy_ops \<Rightarrow> FilterBlockBuilder \<Rightarrow> FilterBlockBuilder" where
  "GenerateFilter p b =
     (let num_keys = length (fb_start b)
      in if num_keys = 0
         then b\<lparr> fb_filter_offsets := fb_filter_offsets b @ [of_nat (length (fb_result b))] \<rparr>
         else let start = fb_start b @ [length (fb_keys b)];
                  tmp_keys = map (\<lambda>i. take (start ! (i + 1) - start ! i) (drop (start ! i) (fb_keys b))) [0..<num_keys]
              in \<lparr> fb_keys = [], fb_start = [],
                   fb_result = CreateFilter p tmp_keys (fb_result b),
                   fb_filter_offsets = fb_filter_offsets b @ [of_nat (length (fb_result b))] \<rparr>)"

function StartBlockLoop :: "filter_policy_ops \<Rightarrow> nat \<Rightarrow> FilterBlockBuilder \<Rightarrow> FilterBlockBuilder" where
  "StartBlockLoop p filter_index b =
     (if filter_index > length (fb_filter_offsets b)
      then StartBlockLoop p filter_index (GenerateFilter p b) else b)"
  by pat_completeness auto
termination
  by (relation "measure (\<lambda>(_, i, b). i - length (fb_filter_offsets b))") (auto simp: GenerateFilter_def Let_def)

declare StartBlockLoop.simps [simp del]

text \<open>The source asserts that the index does not decrease.\<close>

definition StartBlock :: "filter_policy_ops \<Rightarrow> nat \<Rightarrow> FilterBlockBuilder \<Rightarrow> FilterBlockBuilder" where
  "StartBlock p block_offset b = StartBlockLoop p (block_offset div kFilterBase) b"

definition AddKey :: "bytes \<Rightarrow> FilterBlockBuilder \<Rightarrow> FilterBlockBuilder" where
  "AddKey key b = b\<lparr> fb_start := fb_start b @ [length (fb_keys b)], fb_keys := fb_keys b @ key \<rparr>"

definition FilterBlock_Finish :: "filter_policy_ops \<Rightarrow> FilterBlockBuilder \<Rightarrow> bytes" where
  "FilterBlock_Finish p b =
     (let b1 = (if fb_start b \<noteq> [] then GenerateFilter p b else b);
          array_offset = of_nat (length (fb_result b1)) :: u32;
          result1 = fold (\<lambda>off r. PutFixed32 r off) (fb_filter_offsets b1) (fb_result b1)
      in PutFixed32 result1 array_offset @ [of_nat kFilterBaseLg])"

text \<open>\<open>fr_data\<close> is \<open>None\<close> when the contents were rejected; \<open>fr_offset\<close> is the offset of \<open>offset_\<close>.\<close>

record FilterBlockReader =
  fr_data :: "bytes option"
  fr_offset :: nat
  fr_num :: nat
  fr_base_lg :: nat

definition FilterBlockReader_new :: "bytes \<Rightarrow> FilterBlockReader" where
  "FilterBlockReader_new contents =
     (let n = length contents
      in if n < 5 then \<lparr> fr_data = None, fr_offset = 0, fr_num = 0, fr_base_lg = 0 \<rparr>
         else let base_lg = unat (byte_at contents (n - 1));
                  array_offset = unat (DecodeFixed32 (drop (n - 5) contents))
              in if array_offset > n - 5
                 then \<lparr> fr_data = None, fr_offset = 0, fr_num = 0, fr_base_lg = base_lg \<rparr>
                 else \<lparr> fr_data = Some contents, fr_offset = array_offset,
                        fr_num = (n - 5 - array_offset) div 4, fr_base_lg = base_lg \<rparr>)"

definition FilterBlock_KeyMayMatch :: "filter_policy_ops \<Rightarrow> FilterBlockReader \<Rightarrow> nat \<Rightarrow> bytes \<Rightarrow> bool" where
  "FilterBlock_KeyMayMatch p r block_offset key =
     (case fr_data r of
        None \<Rightarrow> True
      | Some data \<Rightarrow>
          (let index = block_offset div 2 ^ fr_base_lg r
           in if index < fr_num r
              then let start = unat (DecodeFixed32 (drop (fr_offset r + index * 4) data));
                       limit = unat (DecodeFixed32 (drop (fr_offset r + index * 4 + 4) data))
                   in if start = limit then False
                      else if start < limit \<and> limit \<le> fr_offset r
                      then KeyMayMatch p key (take (limit - start) (drop start data))
                      else True
              else True))"

section \<open>The Bloom filter has no false negatives\<close>

lemma length_BloomSetLoop [simp]: "length (BloomSetLoop j bits h d a) = length a"
  by (induction j bits h d a rule: BloomSetLoop.induct) (simp_all add: Let_def)

lemma length_bloom_fold [simp]: "length (fold (\<lambda>key a. BloomSetLoop k bits (f key) (g key) a) keys a) = length a"
  by (induction keys arbitrary: a) simp_all

text \<open>Setting bits keeps those that are set.\<close>

definition bits_le :: "bytes \<Rightarrow> bytes \<Rightarrow> bool" where
  "bits_le a b \<longleftrightarrow> length a = length b \<and> (\<forall>i < length a. \<forall>n. bit (a ! i) n \<longrightarrow> bit (b ! i) n)"

lemma bits_le_refl [simp]: "bits_le a a"
  by (simp add: bits_le_def)

lemma bits_le_trans: "bits_le a b \<Longrightarrow> bits_le b c \<Longrightarrow> bits_le a c"
  by (simp add: bits_le_def)

lemma bits_le_set: "bits_le a (a[i := (a ! i) OR x])"
  by (cases "i < length a") (auto simp: bits_le_def nth_list_update bit_or_iff list_update_beyond)

lemma bits_le_BloomSetLoop: "bits_le a (BloomSetLoop j bits h d a)"
proof (induction j bits h d a rule: BloomSetLoop.induct)
  case (2 j bits h d a)
  then show ?case
    by (auto simp: Let_def intro: bits_le_trans [OF bits_le_set])
qed simp

lemma bits_le_fold: "bits_le a (fold (\<lambda>key a. BloomSetLoop k bits (f key) (g key) a) keys a)"
proof (induction keys arbitrary: a)
  case (Cons key keys)
  show ?case
    using bits_le_trans [OF bits_le_BloomSetLoop Cons.IH] by simp
qed simp

lemma bit_set_nonzero: "k < 8 \<Longrightarrow> bit (b :: byte) k \<Longrightarrow> b AND push_bit k 1 \<noteq> 0"
proof -
  assume "k < 8" "bit b k"
  then have "bit (b AND push_bit k 1) k"
    by (simp add: bit_simps)
  then show ?thesis
    by auto
qed

lemma BloomTestLoop_set:
  assumes "bits_le (BloomSetLoop j bits h d a) b" "0 < bits" "bits \<le> 8 * length a"
  shows "BloomTestLoop j bits h d (b @ rest)"
  using assms
proof (induction j bits h d a rule: BloomSetLoop.induct)
  case (2 j bits h d a)
  let ?pos = "bloom_bitpos h bits"
  let ?a = "a[?pos div 8 := (a ! (?pos div 8)) OR push_bit (?pos mod 8) 1]"
  have pos: "?pos div 8 < length a"
  proof -
    have "?pos < bits"
      using 2(3) by (simp add: bloom_bitpos_def)
    then show ?thesis
      using 2(4) by (simp add: div_less_iff_less_mult mult.commute)
  qed
  have le: "bits_le (BloomSetLoop j bits (h + d) d ?a) b"
    using 2(2) by (simp add: Let_def)
  have "bit (?a ! (?pos div 8)) (?pos mod 8)"
    using pos by (simp add: bit_simps)
  then have "bit (b ! (?pos div 8)) (?pos mod 8)"
    using bits_le_trans [OF bits_le_BloomSetLoop le] pos by (auto simp: bits_le_def)
  moreover have "?pos div 8 < length b"
    using le pos by (simp add: bits_le_def)
  ultimately have "byte_at (b @ rest) (?pos div 8) AND push_bit (?pos mod 8) 1 \<noteq> 0"
    using bit_set_nonzero [of "?pos mod 8" "b ! (?pos div 8)"] by (simp add: byte_at_def nth_append)
  moreover have "BloomTestLoop j bits (h + d) d (b @ rest)"
    using 2(1) [OF refl le] 2(3,4) by simp
  ultimately show ?case
    by (simp add: Let_def)
qed simp

lemma bloom_k_range: "1 \<le> bloom_k n" "bloom_k n \<le> 30"
  by (simp_all add: bloom_k_def Let_def)

lemma bloom_bytes_pos: "8 \<le> bloom_bytes n b"
  by (simp add: bloom_bytes_def Let_def) linarith

lemma Bloom_no_false_negative:
  assumes "key \<in> set keys"
  shows "Bloom_KeyMayMatch key (Bloom_CreateFilter n keys [])"
proof -
  let ?k = "bloom_k n" and ?b = "bloom_bytes (length keys) n"
  let ?step = "\<lambda>key a. BloomSetLoop ?k (?b * 8) (BloomHash key) (bloom_delta (BloomHash key)) a"
  define array where "array = fold ?step keys (replicate ?b 0)"
  have len: "length array = ?b"
    by (simp add: array_def)
  have f: "Bloom_CreateFilter n keys [] = array @ [of_nat ?k]"
    by (simp add: Bloom_CreateFilter_def array_def Let_def)
  obtain xs ys where keys: "keys = xs @ key # ys"
    using assms by (meson split_list)
  let ?a = "fold ?step xs (replicate ?b 0)"
  have "bits_le (?step key ?a) array"
    using bits_le_fold [of "?step key ?a" ?k "?b * 8" BloomHash "\<lambda>k. bloom_delta (BloomHash k)" ys]
    by (simp add: array_def keys)
  then have "BloomTestLoop ?k (?b * 8) (BloomHash key) (bloom_delta (BloomHash key)) (array @ [of_nat ?k])"
    using bloom_bytes_pos [of "length keys" n] by (intro BloomTestLoop_set) auto
  moreover have "unat (of_nat ?k :: byte) = ?k"
    using bloom_k_range [of n] by (simp add: unat_of_nat take_bit_nat_eq_self)
  moreover have "byte_at (array @ [of_nat ?k]) ?b = of_nat ?k"
    using len by (simp add: byte_at_def nth_append)
  ultimately show ?thesis
    using bloom_k_range [of n] bloom_bytes_pos [of "length keys" n]
    by (simp add: f Bloom_KeyMayMatch_def Let_def len)
qed

interpretation bloom: filter_policy "BloomFilterPolicy n" for n
  by unfold_locales
    (simp_all add: BloomFilterPolicy_def Bloom_no_false_negative, simp_all add: Bloom_CreateFilter_def Let_def)

section \<open>The filter block never rejects a key of the block\<close>

text \<open>What the table builder does: for every data block, its offset and its keys.\<close>

fun AddBlocks :: "filter_policy_ops \<Rightarrow> (nat \<times> bytes list) list \<Rightarrow> FilterBlockBuilder \<Rightarrow> FilterBlockBuilder" where
  "AddBlocks p [] b = b"
| "AddBlocks p ((off, keys) # blocks) b = AddBlocks p blocks (fold AddKey keys (StartBlock p off b))"

definition ends :: "'a list list \<Rightarrow> nat \<Rightarrow> nat" where
  "ends xss i = length (concat (take i xss))"

definition starts :: "'a list list \<Rightarrow> nat list" where
  "starts xss = map (ends xss) [0..<length xss]"

lemma length_starts [simp]: "length (starts xss) = length xss"
  by (simp add: starts_def)

lemma starts_Nil [simp]: "starts [] = []"
  by (simp add: starts_def)

lemma nth_starts [simp]: "i < length xss \<Longrightarrow> starts xss ! i = ends xss i"
  by (simp add: starts_def)

lemma ends_append: "i \<le> length xss \<Longrightarrow> ends (xss @ yss) i = ends xss i"
  by (simp add: ends_def)

lemma ends_all: "ends xss (length xss) = length (concat xss)"
  by (simp add: ends_def)

lemma starts_snoc: "starts (xss @ [xs]) = starts xss @ [length (concat xss)]"
proof -
  have "map (ends (xss @ [xs])) [0..<length xss] = map (ends xss) [0..<length xss]"
    by (rule map_cong) (auto simp: ends_append)
  then show ?thesis
    by (simp add: starts_def ends_append ends_all)
qed

lemma ends_slice:
  assumes "i < length xss"
  shows "take (ends xss (i + 1) - ends xss i) (drop (ends xss i) (concat xss)) = xss ! i"
    "ends xss (i + 1) = ends xss i + length (xss ! i)"
proof -
  have t: "take (i + 1) xss = take i xss @ [xss ! i]"
    using assms by (simp add: take_Suc_conv_app_nth)
  then show e: "ends xss (i + 1) = ends xss i + length (xss ! i)"
    by (simp add: ends_def)
  have "concat xss = concat (take i xss) @ xss ! i @ concat (drop (i + 1) xss)"
    using assms by (metis append_take_drop_id concat.simps(2) concat_append id_take_nth_drop Suc_eq_plus1)
  then show "take (ends xss (i + 1) - ends xss i) (drop (ends xss i) (concat xss)) = xss ! i"
    unfolding e by (simp add: ends_def)
qed

text \<open>
  \<open>fs\<close> are the filters generated so far, \<open>pend\<close> the keys waiting for the next one, \<open>seen\<close> the keys
  that were added, each with the offset of its block.
\<close>

definition filter_inv :: "filter_policy_ops \<Rightarrow> FilterBlockBuilder \<Rightarrow> bytes list \<Rightarrow> bytes list \<Rightarrow> (nat \<times> bytes) set \<Rightarrow> bool" where
  "filter_inv p b fs pend seen \<longleftrightarrow>
     fb_result b = concat fs \<and> fb_filter_offsets b = map of_nat (starts fs) \<and>
     fb_keys b = concat pend \<and> fb_start b = starts pend \<and>
     (\<forall>(off, k) \<in> seen.
        if off div kFilterBase < length fs then fs ! (off div kFilterBase) \<noteq> [] \<and> KeyMayMatch p k (fs ! (off div kFilterBase))
        else off div kFilterBase = length fs \<and> k \<in> set pend)"

lemma filter_inv_new: "filter_inv p FilterBlockBuilder_new [] [] {}"
  by (simp add: filter_inv_def FilterBlockBuilder_new_def starts_def)

lemma filter_inv_AddKey:
  assumes "filter_inv p b fs pend seen" and "off div kFilterBase = length fs"
  shows "filter_inv p (AddKey k b) fs (pend @ [k]) (insert (off, k) seen)"
  using assms by (auto simp: filter_inv_def AddKey_def starts_snoc split: if_splits)

lemma filter_inv_AddKeys:
  assumes "filter_inv p b fs pend seen" and "off div kFilterBase = length fs"
  shows "filter_inv p (fold AddKey keys b) fs (pend @ keys) (seen \<union> Pair off ` set keys)"
  using assms
proof (induction keys arbitrary: b pend seen)
  case (Cons k keys)
  from Cons.IH [OF filter_inv_AddKey [OF Cons.prems] Cons.prems(2)] show ?case
    by (simp add: insert_commute)
qed simp

context filter_policy
begin

lemma GenerateFilter_tmp_keys:
  assumes "fb_keys b = concat pend" "fb_start b = starts pend"
  shows "map (\<lambda>i. take ((fb_start b @ [length (fb_keys b)]) ! (i + 1) - (fb_start b @ [length (fb_keys b)]) ! i)
              (drop ((fb_start b @ [length (fb_keys b)]) ! i) (fb_keys b))) [0..<length (fb_start b)] = pend"
proof (rule nth_equalityI)
  fix i assume "i < length (map (\<lambda>i. take ((fb_start b @ [length (fb_keys b)]) ! (i + 1) - (fb_start b @ [length (fb_keys b)]) ! i)
              (drop ((fb_start b @ [length (fb_keys b)]) ! i) (fb_keys b))) [0..<length (fb_start b)])"
  then have i: "i < length pend"
    using assms by simp
  have n: "(starts pend @ [length (concat pend)]) ! i = ends pend i"
    "(starts pend @ [length (concat pend)]) ! (i + 1) = ends pend (i + 1)"
    using i by (cases "i + 1 = length pend"; auto simp: nth_append ends_all [symmetric])+
  show "map (\<lambda>i. take ((fb_start b @ [length (fb_keys b)]) ! (i + 1) - (fb_start b @ [length (fb_keys b)]) ! i)
              (drop ((fb_start b @ [length (fb_keys b)]) ! i) (fb_keys b))) [0..<length (fb_start b)] ! i = pend ! i"
    using i n ends_slice(1) [OF i] by (simp add: assms)
qed (simp add: assms)

lemma filter_inv_GenerateFilter:
  assumes inv: "filter_inv p b fs pend seen"
  shows "\<exists>f. filter_inv p (GenerateFilter p b) (fs @ [f]) [] seen"
proof (cases "pend = []")
  case True
  with inv have seen: "off div kFilterBase < length fs \<and> fs ! (off div kFilterBase) \<noteq> [] \<and> KeyMayMatch p k (fs ! (off div kFilterBase))"
    if "(off, k) \<in> seen" for off k
    using that by (fastforce simp: filter_inv_def split: if_splits)
  from True inv have "GenerateFilter p b = b\<lparr> fb_filter_offsets := fb_filter_offsets b @ [of_nat (length (fb_result b))] \<rparr>"
    by (simp add: GenerateFilter_def filter_inv_def starts_def)
  then have "filter_inv p (GenerateFilter p b) (fs @ [[]]) [] seen"
    using True inv seen by (auto simp: filter_inv_def starts_snoc nth_append intro: less_SucI)
  then show ?thesis by blast
next
  case False
  let ?f = "CreateFilter p pend []"
  have b: "fb_keys b = concat pend" "fb_start b = starts pend" "fb_result b = concat fs" "fb_filter_offsets b = map of_nat (starts fs)"
    using inv by (simp_all add: filter_inv_def)
  have "length (fb_start b) \<noteq> 0"
    using b(2) False by simp
  then have g: "GenerateFilter p b = \<lparr> fb_keys = [], fb_start = [], fb_result = CreateFilter p pend (fb_result b),
      fb_filter_offsets = fb_filter_offsets b @ [of_nat (length (fb_result b))] \<rparr>"
    unfolding GenerateFilter_def Let_def GenerateFilter_tmp_keys [OF b(1,2)] by simp
  have "filter_inv p (GenerateFilter p b) (fs @ [?f]) [] seen"
    unfolding filter_inv_def g
  proof (intro conjI)
    show "\<forall>(off, k) \<in> seen. if off div kFilterBase < length (fs @ [?f])
        then (fs @ [?f]) ! (off div kFilterBase) \<noteq> [] \<and> KeyMayMatch p k ((fs @ [?f]) ! (off div kFilterBase))
        else off div kFilterBase = length (fs @ [?f]) \<and> k \<in> set []"
      using inv no_false_negative [of _ pend] create_nonempty [of pend]
      by (fastforce simp: filter_inv_def nth_append split: if_splits)
  qed (use b create_append [of pend "concat fs"] in \<open>simp_all add: starts_snoc\<close>)
  then show ?thesis by blast
qed

lemma filter_inv_StartBlockLoop:
  assumes "filter_inv p b fs pend seen" and "length fs \<le> n"
  shows "\<exists>fs' pend'. filter_inv p (StartBlockLoop p n b) fs' pend' seen \<and> length fs' = n"
  using assms
proof (induction "n - length fs" arbitrary: b fs pend)
  case 0
  then have "length (fb_filter_offsets b) = n"
    by (simp add: filter_inv_def)
  with 0 show ?case
    by (subst StartBlockLoop.simps) auto
next
  case (Suc d)
  obtain f where f: "filter_inv p (GenerateFilter p b) (fs @ [f]) [] seen"
    using filter_inv_GenerateFilter [OF Suc.prems(1)] by blast
  have "length (fb_filter_offsets b) < n"
    using Suc by (simp add: filter_inv_def)
  then have "StartBlockLoop p n b = StartBlockLoop p n (GenerateFilter p b)"
    by (subst StartBlockLoop.simps) simp
  with Suc.hyps(1) [OF _ f] Suc.hyps(2) show ?case
    by simp
qed

lemma filter_inv_AddBlocks:
  assumes "filter_inv p b fs pend seen" and "\<forall>(off, keys) \<in> set blocks. length fs \<le> off div kFilterBase"
    and "sorted (map fst blocks)"
  shows "\<exists>fs' pend'. filter_inv p (AddBlocks p blocks b) fs' pend' (seen \<union> {(off, k). \<exists>keys. (off, keys) \<in> set blocks \<and> k \<in> set keys})"
  using assms
proof (induction blocks arbitrary: b fs pend seen)
  case Nil
  then show ?case by auto
next
  case (Cons blk blocks)
  obtain off keys where blk: "blk = (off, keys)"
    by fastforce
  obtain fs1 pend1 where s: "filter_inv p (StartBlock p off b) fs1 pend1 seen" "length fs1 = off div kFilterBase"
    using filter_inv_StartBlockLoop [OF Cons.prems(1), of "off div kFilterBase"] Cons.prems(2)
    unfolding StartBlock_def blk by auto
  have "\<forall>(off', keys') \<in> set blocks. length fs1 \<le> off' div kFilterBase"
    using Cons.prems(3) s(2) by (fastforce simp: blk intro: div_le_mono)
  from Cons.IH [OF filter_inv_AddKeys [OF s(1) s(2) [symmetric], of keys] this] Cons.prems(3) obtain fs2 pend2 where
    "filter_inv p (AddBlocks p blocks (fold AddKey keys (StartBlock p off b))) fs2 pend2
       (seen \<union> Pair off ` set keys \<union> {(off, k). \<exists>keys. (off, keys) \<in> set blocks \<and> k \<in> set keys})"
    by auto
  moreover have "seen \<union> Pair off ` set keys \<union> {(off, k). \<exists>keys. (off, keys) \<in> set blocks \<and> k \<in> set keys} =
      seen \<union> {(off, k). \<exists>keys. (off, keys) \<in> set (blk # blocks) \<and> k \<in> set keys}"
    unfolding blk by auto
  ultimately show ?case
    by (auto simp: blk)
qed

text \<open>Reading the offset array back.\<close>

lemma FilterBlock_Finish_eq:
  assumes "filter_inv p b fs pend seen"
  shows "\<exists>fs'. FilterBlock_Finish p b = concat fs' @ concat (map EncodeFixed32 (map of_nat (starts fs'))) @
            EncodeFixed32 (of_nat (length (concat fs'))) @ [11] \<and>
          (\<forall>(off, k) \<in> seen. off div kFilterBase < length fs' \<and> fs' ! (off div kFilterBase) \<noteq> [] \<and>
             KeyMayMatch p k (fs' ! (off div kFilterBase)))"
proof -
  let ?b = "if fb_start b \<noteq> [] then GenerateFilter p b else b"
  have "\<exists>fs'. filter_inv p ?b fs' [] seen"
  proof (cases "pend = []")
    case True
    with assms have "fb_start b = []"
      by (simp add: filter_inv_def starts_def)
    with assms True show ?thesis
      by auto
  next
    case False
    with assms have "fb_start b \<noteq> []"
      by (auto simp: filter_inv_def starts_def)
    with filter_inv_GenerateFilter [OF assms] show ?thesis
      by auto
  qed
  then obtain fs' where inv: "filter_inv p ?b fs' [] seen"
    by blast
  have fold: "fold (\<lambda>off r. r @ EncodeFixed32 off) offs r = r @ concat (map EncodeFixed32 offs)" for offs r
    by (induction offs arbitrary: r) simp_all
  have "FilterBlock_Finish p b = concat fs' @ concat (map EncodeFixed32 (map of_nat (starts fs'))) @
            EncodeFixed32 (of_nat (length (concat fs'))) @ [11]"
    using inv by (simp add: FilterBlock_Finish_def Let_def fold PutFixed32_def filter_inv_def kFilterBaseLg_def)
  moreover have "\<forall>(off, k) \<in> seen. off div kFilterBase < length fs' \<and> fs' ! (off div kFilterBase) \<noteq> [] \<and>
             KeyMayMatch p k (fs' ! (off div kFilterBase))"
    using inv by (fastforce simp: filter_inv_def split: if_splits)
  ultimately show ?thesis by blast
qed

lemma concat_Fixed32_drop:
  "i < length ws \<Longrightarrow> drop (i * 4) (concat (map EncodeFixed32 ws) @ rest) =
     EncodeFixed32 (ws ! i) @ drop ((i + 1) * 4) (concat (map EncodeFixed32 ws) @ rest)"
proof (induction ws arbitrary: i)
  case (Cons w ws)
  then show ?case
    by (cases i) simp_all
qed simp

lemma FilterBlock_lookup:
  assumes C: "C = concat fs @ concat (map EncodeFixed32 (map of_nat (starts fs))) @
                EncodeFixed32 (of_nat (length (concat fs))) @ [11]"
    and small: "length (concat fs) < 2 ^ 32"
    and i: "off div kFilterBase < length fs" "fs ! (off div kFilterBase) \<noteq> []"
  shows "FilterBlock_KeyMayMatch p (FilterBlockReader_new C) off key = KeyMayMatch p key (fs ! (off div kFilterBase))"
proof -
  let ?i = "off div kFilterBase" and ?R = "length (concat fs)"
  let ?offs = "map of_nat (starts fs) :: u32 list"
  let ?arr = "EncodeFixed32 (of_nat ?R)"
  have lo: "length (concat (map (EncodeFixed32 \<circ> f) ws)) = 4 * length ws" for f and ws :: "nat list"
    by (induction ws) simp_all
  have n: "length C = ?R + 4 * length fs + 5"
    by (simp add: C lo)
  have arr: "unat (of_nat ?R :: u32) = ?R"
    using small by (simp add: unat_of_nat)
  have le: "ends fs j \<le> ?R" for j
    unfolding ends_def by (metis append_take_drop_id concat_append le_add1 length_append)
  have "drop (length C - 5) C = ?arr @ [11]"
    using n by (simp add: C lo)
  then have r: "FilterBlockReader_new C = \<lparr> fr_data = Some C, fr_offset = ?R, fr_num = length fs, fr_base_lg = 11 \<rparr>"
    using n arr by (simp add: FilterBlockReader_new_def Let_def) (simp add: C lo byte_at_def nth_append)
  have tail: "drop ?R C = concat (map EncodeFixed32 ?offs) @ ?arr @ [11]"
    by (simp add: C)
  have enc: "concat (map EncodeFixed32 (?offs @ [of_nat ?R])) @ [11] = drop ?R C"
    by (simp add: tail)
  have word: "unat (DecodeFixed32 (drop (?R + j * 4) C)) = ends fs j" if "j \<le> length fs" for j
  proof -
    have "drop (?R + j * 4) C = drop (j * 4) (concat (map EncodeFixed32 (?offs @ [of_nat ?R])) @ [11])"
      unfolding enc drop_drop by (simp only: add.commute)
    also have "\<dots> = EncodeFixed32 ((?offs @ [of_nat ?R]) ! j) @ drop ((j + 1) * 4) (concat (map EncodeFixed32 (?offs @ [of_nat ?R])) @ [11])"
      using that by (intro concat_Fixed32_drop) simp
    finally have "DecodeFixed32 (drop (?R + j * 4) C) = (?offs @ [of_nat ?R]) ! j"
      by simp
    also have "\<dots> = of_nat (ends fs j)"
      using that by (cases "j = length fs") (simp_all add: nth_append ends_all)
    finally show ?thesis
      using le [of j] small by (simp add: unat_of_nat)
  qed
  have idx: "off div 2 ^ fr_base_lg (FilterBlockReader_new C) = ?i"
    by (simp add: r kFilterBase_def)
  have w1: "unat (DecodeFixed32 (drop (?R + ?i * 4) C)) = ends fs ?i"
    using word [of ?i] i(1) by simp
  have w2: "unat (DecodeFixed32 (drop (?R + ?i * 4 + 4) C)) = ends fs (?i + 1)"
    using word [of "?i + 1"] i(1) by (simp add: algebra_simps)
  have sl: "ends fs (?i + 1) = ends fs ?i + length (fs ! ?i)"
    by (rule ends_slice(2) [OF i(1)])
  have "take (ends fs (?i + 1) - ends fs ?i) (drop (ends fs ?i) C) = fs ! ?i"
  proof -
    have "take (length (fs ! ?i)) (drop (ends fs ?i) C) = take (length (fs ! ?i)) (drop (ends fs ?i) (concat fs))"
      using le [of "?i + 1"] sl by (simp add: C)
    also have "\<dots> = fs ! ?i"
      using ends_slice(1) [OF i(1)] unfolding sl by simp
    finally show ?thesis
      unfolding sl by simp
  qed
  moreover have "0 < length (fs ! ?i)"
    using i(2) by simp
  ultimately show ?thesis
    using i(1) le [of "?i + 1"] sl
    unfolding FilterBlock_KeyMayMatch_def idx by (simp add: r w1 w2)
qed

text \<open>Every key added for a block passes the filter for the offset of that block.\<close>

lemma FilterBlock_no_false_negative:
  assumes "sorted (map fst blocks)" and "(off, keys) \<in> set blocks" "k \<in> set keys"
    and "length (FilterBlock_Finish p (AddBlocks p blocks FilterBlockBuilder_new)) < 2 ^ 32"
  shows "FilterBlock_KeyMayMatch p
           (FilterBlockReader_new (FilterBlock_Finish p (AddBlocks p blocks FilterBlockBuilder_new))) off k"
proof -
  obtain fs pend where inv: "filter_inv p (AddBlocks p blocks FilterBlockBuilder_new) fs pend
      ({} \<union> {(off, k). \<exists>keys. (off, keys) \<in> set blocks \<and> k \<in> set keys})"
    using filter_inv_AddBlocks [OF filter_inv_new, of blocks] assms(1) by auto
  obtain fs' where C: "FilterBlock_Finish p (AddBlocks p blocks FilterBlockBuilder_new) =
        concat fs' @ concat (map EncodeFixed32 (map of_nat (starts fs'))) @ EncodeFixed32 (of_nat (length (concat fs'))) @ [11]"
    and m: "off div kFilterBase < length fs'" "fs' ! (off div kFilterBase) \<noteq> []" "KeyMayMatch p k (fs' ! (off div kFilterBase))"
    using FilterBlock_Finish_eq [OF inv] assms(2,3) by auto
  have "length (concat fs') < 2 ^ 32"
    using assms(4) unfolding C by simp
  from FilterBlock_lookup [OF C this m(1,2)] m(3) show ?thesis
    by simp
qed

end

end
