(* ===== verification/TableBuilders.thy ===== *)
theory TableBuilders
  imports Formats Blocks Filters DBFormat
begin

text \<open>
  Writing a table (db/table_builder.cc). The builder's state is its \<open>Rep\<close>; the file it writes is
  a state of \<open>writable_ops\<close>, and \<open>None\<close> is a file operation that does not return. Its assertions
  (not closed, ascending keys) are hypotheses of the lemmas.
\<close>

section \<open>Options and state\<close>

text \<open>
  The options without the pointers to the environment and the logger; the shared block cache is a
  state of its own, so that here only its presence is kept.
\<close>

record Options =
  op_comparator :: comparator
  op_create_if_missing :: bool
  op_error_if_exists :: bool
  op_paranoid_checks :: bool
  op_write_buffer_size :: nat
  op_max_open_files :: int
  op_block_cache :: bool
  op_block_size :: nat
  op_block_restart_interval :: int
  op_max_file_size :: nat
  op_compression :: CompressionType
  op_reuse_logs :: bool
  op_filter_policy :: "filter_policy_ops option"

definition Options_new :: Options where
  "Options_new =
     \<lparr>op_comparator = BytewiseComparator, op_create_if_missing = False, op_error_if_exists = False,
      op_paranoid_checks = False, op_write_buffer_size = 4 * 1024 * 1024, op_max_open_files = 1000,
      op_block_cache = False, op_block_size = 4 * 1024, op_block_restart_interval = 16,
      op_max_file_size = 2 * 1024 * 1024, op_compression = kNoCompression, op_reuse_logs = False,
      op_filter_policy = None\<rparr>"

record 'f TableBuilder =
  tb_options :: Options
  tb_file :: 'f
  tb_offset :: u64
  tb_status :: Status
  tb_data_block :: BlockBuilder
  tb_index_block :: BlockBuilder
  tb_last_key :: bytes
  tb_num_entries :: u64
  tb_closed :: bool
  tb_pending_index_entry :: bool
  tb_pending_handle :: BlockHandle
  tb_filter_block :: "FilterBlockBuilder option"

definition TableBuilder_new :: "Options \<Rightarrow> 'f \<Rightarrow> 'f TableBuilder" where
  "TableBuilder_new opt f =
     \<lparr>tb_options = opt, tb_file = f, tb_offset = 0, tb_status = OK,
      tb_data_block = BlockBuilder_new (op_block_restart_interval opt), tb_index_block = BlockBuilder_new 1,
      tb_last_key = [], tb_num_entries = 0, tb_closed = False, tb_pending_index_entry = False,
      tb_pending_handle = BlockHandle_new,
      tb_filter_block = map_option (\<lambda>p. StartBlock p 0 FilterBlockBuilder_new) (op_filter_policy opt)\<rparr>"

text \<open>
  \<open>ChangeOptions\<close> compares the two comparator pointers; the result of that is an argument. The
  block builders hold pointers to the builder's options, so their interval changes with them.
\<close>

definition TB_ChangeOptions :: "bool \<Rightarrow> Options \<Rightarrow> 'f TableBuilder \<Rightarrow> Status \<times> 'f TableBuilder" where
  "TB_ChangeOptions same_comparator opt r =
     (if \<not> same_comparator then (InvalidArgument (lit ''changing comparator while building table'') [], r)
      else (OK, r\<lparr>tb_options := opt,
                  tb_data_block := (tb_data_block r)\<lparr>bb_interval := op_block_restart_interval opt\<rparr>,
                  tb_index_block := (tb_index_block r)\<lparr>bb_interval := 1\<rparr>\<rparr>))"

section \<open>Writing blocks\<close>

definition WriteRawBlock ::
    "'f writable_ops \<Rightarrow> bytes \<Rightarrow> CompressionType \<Rightarrow> 'f TableBuilder \<Rightarrow> (BlockHandle \<times> 'f TableBuilder) option" where
  "WriteRawBlock ops data type r =
     (let handle = \<lparr>bh_offset = tb_offset r, bh_size = of_nat (length data)\<rparr>
      in Option.bind (wf_Append ops data (tb_file r)) (\<lambda>(s, f).
           let r = r\<lparr>tb_status := s, tb_file := f\<rparr>
           in if \<not> ok (tb_status r) then Some (handle, r)
              else Option.bind (wf_Append ops (block_trailer data type) (tb_file r)) (\<lambda>(s, f).
                     let r = r\<lparr>tb_status := s, tb_file := f\<rparr>
                     in Some (handle, if ok (tb_status r)
                                      then r\<lparr>tb_offset := tb_offset r + of_nat (length data + kBlockTrailerSize)\<rparr>
                                      else r))))"

text \<open>\<open>WriteBlock\<close> finishes and resets the block it is given.\<close>

definition WriteBlock ::
    "'f writable_ops \<Rightarrow> BlockBuilder \<Rightarrow> 'f TableBuilder \<Rightarrow> (BlockHandle \<times> BlockBuilder \<times> 'f TableBuilder) option" where
  "WriteBlock ops block r =
     (let (raw, block') = BB_Finish block
      in Option.bind (WriteRawBlock ops raw kNoCompression r) (\<lambda>(handle, r). Some (handle, BB_Reset block', r)))"

definition TB_Flush :: "'f writable_ops \<Rightarrow> 'f TableBuilder \<Rightarrow> 'f TableBuilder option" where
  "TB_Flush ops r =
     (if \<not> ok (tb_status r) then Some r
      else if BB_empty (tb_data_block r) then Some r
      else Option.bind (WriteBlock ops (tb_data_block r) r) (\<lambda>(handle, block, r).
        let r = r\<lparr>tb_data_block := block, tb_pending_handle := handle\<rparr>
        in Option.bind
             (if ok (tb_status r)
              then Option.bind (wf_Flush ops (tb_file r)) (\<lambda>(s, f).
                     Some (r\<lparr>tb_pending_index_entry := True, tb_status := s, tb_file := f\<rparr>))
              else Some r)
             (\<lambda>r. Some (case (op_filter_policy (tb_options r), tb_filter_block r) of
                      (Some p, Some fb) \<Rightarrow> r\<lparr>tb_filter_block := Some (StartBlock p (unat (tb_offset r)) fb)\<rparr>
                    | _ \<Rightarrow> r))))"

text \<open>The index entry of the finished block, once the next key (or the end) is known.\<close>

definition TB_AddIndex :: "bytes \<Rightarrow> 'f TableBuilder \<Rightarrow> 'f TableBuilder" where
  "TB_AddIndex separator r =
     r\<lparr>tb_last_key := separator,
        tb_index_block := BB_Add (tb_index_block r) separator (BlockHandle_EncodeTo (tb_pending_handle r) []),
        tb_pending_index_entry := False\<rparr>"

definition TB_Add :: "'f writable_ops \<Rightarrow> bytes \<Rightarrow> bytes \<Rightarrow> 'f TableBuilder \<Rightarrow> 'f TableBuilder option" where
  "TB_Add ops key v r =
     (if \<not> ok (tb_status r) then Some r
      else let r = (if tb_pending_index_entry r
                    then TB_AddIndex (FindShortestSeparator (op_comparator (tb_options r)) (tb_last_key r) key) r else r);
               r = r\<lparr>tb_filter_block := map_option (AddKey key) (tb_filter_block r),
                     tb_last_key := key, tb_num_entries := tb_num_entries r + 1,
                     tb_data_block := BB_Add (tb_data_block r) key v\<rparr>
           in if BB_CurrentSizeEstimate (tb_data_block r) \<ge> op_block_size (tb_options r)
              then TB_Flush ops r else Some r)"

section \<open>Finish\<close>

definition filter_key :: "filter_policy_ops \<Rightarrow> bytes" where
  "filter_key p = lit ''filter.'' @ fp_Name p"

text \<open>The filter block, when there is a policy; its handle.\<close>

definition TB_WriteFilter :: "'f writable_ops \<Rightarrow> 'f TableBuilder \<Rightarrow> (BlockHandle \<times> 'f TableBuilder) option" where
  "TB_WriteFilter ops r =
     (case (op_filter_policy (tb_options r), tb_filter_block r) of
        (Some p, Some fb) \<Rightarrow>
          if ok (tb_status r) then WriteRawBlock ops (FilterBlock_Finish p fb) kNoCompression r
          else Some (BlockHandle_new, r)
      | _ \<Rightarrow> Some (BlockHandle_new, r))"

definition TB_WriteMeta :: "'f writable_ops \<Rightarrow> BlockHandle \<Rightarrow> 'f TableBuilder \<Rightarrow> (BlockHandle \<times> 'f TableBuilder) option" where
  "TB_WriteMeta ops filter_block_handle r =
     (if \<not> ok (tb_status r) then Some (BlockHandle_new, r)
      else let b = BlockBuilder_new (op_block_restart_interval (tb_options r));
               b = (case (op_filter_policy (tb_options r), tb_filter_block r) of
                      (Some p, Some fb) \<Rightarrow> BB_Add b (filter_key p) (BlockHandle_EncodeTo filter_block_handle [])
                    | _ \<Rightarrow> b)
           in Option.bind (WriteBlock ops b r) (\<lambda>(handle, _, r). Some (handle, r)))"

definition TB_WriteIndex :: "'f writable_ops \<Rightarrow> 'f TableBuilder \<Rightarrow> (BlockHandle \<times> 'f TableBuilder) option" where
  "TB_WriteIndex ops r =
     (if \<not> ok (tb_status r) then Some (BlockHandle_new, r)
      else let r = (if tb_pending_index_entry r
                    then TB_AddIndex (FindShortSuccessor (op_comparator (tb_options r)) (tb_last_key r)) r else r)
           in Option.bind (WriteBlock ops (tb_index_block r) r) (\<lambda>(handle, block, r).
                Some (handle, r\<lparr>tb_index_block := block\<rparr>)))"

definition TB_WriteFooter :: "'f writable_ops \<Rightarrow> BlockHandle \<Rightarrow> BlockHandle \<Rightarrow> 'f TableBuilder \<Rightarrow> 'f TableBuilder option" where
  "TB_WriteFooter ops metaindex_handle index_handle r =
     (if \<not> ok (tb_status r) then Some r
      else let footer_encoding = Footer_EncodeTo \<lparr>ft_metaindex_handle = metaindex_handle, ft_index_handle = index_handle\<rparr> []
           in Option.bind (wf_Append ops footer_encoding (tb_file r)) (\<lambda>(s, f).
                let r = r\<lparr>tb_status := s, tb_file := f\<rparr>
                in Some (if ok (tb_status r) then r\<lparr>tb_offset := tb_offset r + of_nat (length footer_encoding)\<rparr> else r)))"

definition TB_Finish :: "'f writable_ops \<Rightarrow> 'f TableBuilder \<Rightarrow> (Status \<times> 'f TableBuilder) option" where
  "TB_Finish ops r =
     Option.bind (TB_Flush ops r) (\<lambda>r. let r = r\<lparr>tb_closed := True\<rparr> in
     Option.bind (TB_WriteFilter ops r) (\<lambda>(filter_block_handle, r).
     Option.bind (TB_WriteMeta ops filter_block_handle r) (\<lambda>(metaindex_handle, r).
     Option.bind (TB_WriteIndex ops r) (\<lambda>(index_handle, r).
     Option.bind (TB_WriteFooter ops metaindex_handle index_handle r) (\<lambda>r.
       Some (tb_status r, r))))))"

definition TB_Abandon :: "'f TableBuilder \<Rightarrow> 'f TableBuilder" where
  "TB_Abandon r = r\<lparr>tb_closed := True\<rparr>"

definition TB_NumEntries :: "'f TableBuilder \<Rightarrow> u64" where
  "TB_NumEntries r = tb_num_entries r"

definition TB_FileSize :: "'f TableBuilder \<Rightarrow> u64" where
  "TB_FileSize r = tb_offset r"

text \<open>Adding a sequence of entries, as BuildTable and the compaction loop do.\<close>

fun TB_AddAll :: "'f writable_ops \<Rightarrow> entries \<Rightarrow> 'f TableBuilder \<Rightarrow> 'f TableBuilder option" where
  "TB_AddAll ops [] r = Some r"
| "TB_AddAll ops ((k, v) # es) r = Option.bind (TB_Add ops k v r) (TB_AddAll ops es)"

section \<open>The layout of a table\<close>

definition stored :: "bytes \<Rightarrow> nat \<Rightarrow> bytes \<Rightarrow> bool" where
  "stored D off raw \<longleftrightarrow> (\<exists>pre post. D = pre @ raw @ block_trailer raw kNoCompression @ post \<and> length pre = off)"

text \<open>\<open>raw\<close> is a finished block of the entries \<open>es\<close>.\<close>

definition block_of :: "bytes \<Rightarrow> entries \<Rightarrow> bool" where
  "block_of raw es \<longleftrightarrow> (\<exists>b offs rs. build_inv b es offs rs \<and> raw = fst (BB_Finish b))"

text \<open>A written data block: its offset, its entries, its bytes.\<close>

type_synonym written = "nat \<times> entries \<times> bytes"

definition handle_of :: "nat \<Rightarrow> bytes \<Rightarrow> BlockHandle" where
  "handle_of off raw = \<lparr>bh_offset = of_nat off, bh_size = of_nat (length raw)\<rparr>"

definition blocks_ok :: "bytes \<Rightarrow> written list \<Rightarrow> bool" where
  "blocks_ok D fl \<longleftrightarrow>
     (\<forall>(off, bes, raw) \<in> set fl. stored D off raw \<and> block_of raw bes \<and> bes \<noteq> [])
     \<and> sorted_wrt (<) (map fst fl @ [length D])"

definition written_entries :: "written list \<Rightarrow> entries" where
  "written_entries fl = concat (map (\<lambda>w. fst (snd w)) fl)"

text \<open>The index entries of the blocks \<open>fl\<close>, separating each from the later ones and from \<open>rest\<close>.\<close>

definition separator_of :: "comparator \<Rightarrow> entries \<Rightarrow> entries \<Rightarrow> bytes" where
  "separator_of c bes rest =
     (case rest of [] \<Rightarrow> FindShortSuccessor c (fst (last bes)) | e # _ \<Rightarrow> FindShortestSeparator c (fst (last bes)) (fst e))"

definition index_ok :: "comparator \<Rightarrow> (bytes \<Rightarrow> bool) \<Rightarrow> written list \<Rightarrow> entries \<Rightarrow> entries \<Rightarrow> bool" where
  "index_ok c dm fl rest ies \<longleftrightarrow>
     length ies = length fl
     \<and> (\<forall>i < length fl. dm (fst (ies ! i))
          \<and> separator_of c (fst (snd (fl ! i))) (written_entries (drop (Suc i) fl) @ rest) = fst (ies ! i)
          \<and> snd (ies ! i) = BlockHandle_EncodeTo (handle_of (fst (fl ! i)) (snd (snd (fl ! i)))) []
          \<and> (\<forall>e \<in> set (fst (snd (fl ! i))). Compare c (fst e) (fst (ies ! i)) \<le> 0)
          \<and> (\<forall>e \<in> set (written_entries (drop (Suc i) fl) @ rest). Compare c (fst (ies ! i)) (fst e) < 0))"

definition filter_blocks :: "written list \<Rightarrow> nat \<Rightarrow> entries \<Rightarrow> (nat \<times> bytes list) list" where
  "filter_blocks fl n cur =
     map (\<lambda>(off, bes, raw). (unat (of_nat off :: u64), map fst bes)) fl @ [(unat (of_nat n :: u64), map fst cur)]"

lemma stored_append: "stored D off raw \<Longrightarrow> stored (D @ X) off raw"
  unfolding stored_def by fastforce

lemma stored_here: "stored (D @ raw @ block_trailer raw kNoCompression @ X) (length D) raw"
  unfolding stored_def by blast

lemma stored_less: "stored D off raw \<Longrightarrow> off + length raw + 5 \<le> length D"
  by (auto simp: stored_def block_trailer_def)

lemma written_entries_append: "written_entries (xs @ ys) = written_entries xs @ written_entries ys"
  by (simp add: written_entries_def)

lemma written_entries_simps [simp]: "written_entries [] = []"
    "written_entries ((off, bes, raw) # xs) = bes @ written_entries xs"
  by (simp_all add: written_entries_def)

lemma blocks_ok_append: "blocks_ok D fl \<Longrightarrow> blocks_ok (D @ X) fl"
  unfolding blocks_ok_def using stored_append
  by (fastforce simp: sorted_wrt_append)

lemma blocks_ok_snoc:
  assumes "blocks_ok D fl" "block_of raw cur" "cur \<noteq> []"
  shows "blocks_ok (D @ raw @ block_trailer raw kNoCompression) (fl @ [(length D, cur, raw)])"
proof -
  have "length D < length (D @ raw @ block_trailer raw kNoCompression)"
    by (simp add: block_trailer_def)
  moreover have "stored (D @ raw @ block_trailer raw kNoCompression) (length D) raw"
    using stored_here [of D raw "[]"] by simp
  moreover have "\<forall>(off, bes, raw') \<in> set fl. stored (D @ raw @ block_trailer raw kNoCompression) off raw'
      \<and> block_of raw' bes \<and> bes \<noteq> []"
    using assms(1) stored_append unfolding blocks_ok_def by fast
  ultimately show ?thesis
    using assms unfolding blocks_ok_def by (auto simp: sorted_wrt_append)
qed

lemma AddBlocks_append: "AddBlocks p (xs @ ys) b = AddBlocks p ys (AddBlocks p xs b)"
  by (induction p xs b rule: AddBlocks.induct) simp_all

lemma AddBlocks_snoc_key:
  "AddBlocks p (xs @ [(off, ks @ [k])]) b = AddKey k (AddBlocks p (xs @ [(off, ks)]) b)"
  by (simp add: AddBlocks_append)

section \<open>The builder's invariant\<close>

definition tb_inv ::
    "('f \<Rightarrow> bytes) \<Rightarrow> (bytes \<Rightarrow> bool) \<Rightarrow> Options \<Rightarrow> 'f TableBuilder \<Rightarrow> entries \<Rightarrow> written list \<Rightarrow> entries \<Rightarrow> entries \<Rightarrow> bool" where
  "tb_inv contents dm opt r es fl ies cur \<longleftrightarrow>
     tb_options r = opt \<and> ok (tb_status r) \<and> tb_offset r = of_nat (length (contents (tb_file r)))
     \<and> 0 < op_block_restart_interval opt
     \<and> blocks_ok (contents (tb_file r)) fl \<and> es = written_entries fl @ cur
     \<and> (\<exists>offs rs. build_inv (tb_data_block r) cur offs rs) \<and> (\<exists>offs rs. build_inv (tb_index_block r) ies offs rs)
     \<and> (if tb_pending_index_entry r
        then cur = [] \<and> fl \<noteq> [] \<and> index_ok (op_comparator opt) dm (butlast fl) (fst (snd (last fl))) ies
             \<and> tb_pending_handle r = handle_of (fst (last fl)) (snd (snd (last fl)))
        else index_ok (op_comparator opt) dm fl cur ies \<and> (cur = [] \<longrightarrow> fl = []))
     \<and> (es \<noteq> [] \<longrightarrow> tb_last_key r = fst (last es))
     \<and> sorted_wrt (\<lambda>a b. Compare (op_comparator opt) (fst a) (fst b) < 0) es \<and> (\<forall>e \<in> set es. dm (fst e))
     \<and> tb_filter_block r = map_option (\<lambda>p. AddBlocks p (filter_blocks fl (length (contents (tb_file r))) cur)
                                        FilterBlockBuilder_new) (op_filter_policy opt)"

lemma tb_invD:
  assumes "tb_inv contents dm opt r es fl ies cur"
  shows "es = written_entries fl @ cur"
    "sorted_wrt (\<lambda>a b. Compare (op_comparator opt) (fst a) (fst b) < 0) es" "\<forall>e \<in> set es. dm (fst e)"
    "blocks_ok (contents (tb_file r)) fl" "es \<noteq> [] \<Longrightarrow> tb_last_key r = fst (last es)"
    "ok (tb_status r)" "tb_options r = opt" "tb_offset r = of_nat (length (contents (tb_file r)))"
  using assms unfolding tb_inv_def by blast+

lemma tb_inv_open:
  assumes "tb_inv contents dm opt r es fl ies cur" "\<not> tb_pending_index_entry r"
  shows "index_ok (op_comparator opt) dm fl cur ies" "cur = [] \<longrightarrow> fl = []"
  using assms unfolding tb_inv_def by simp_all

lemma tb_inv_pending:
  assumes "tb_inv contents dm opt r es fl ies cur" "tb_pending_index_entry r"
  shows "cur = []" "fl \<noteq> []" "index_ok (op_comparator opt) dm (butlast fl) (fst (snd (last fl))) ies"
    "tb_pending_handle r = handle_of (fst (last fl)) (snd (snd (last fl)))"
  using assms unfolding tb_inv_def by simp_all

lemma tb_inv_builders:
  assumes "tb_inv contents dm opt r es fl ies cur"
  shows "\<exists>offs rs. build_inv (tb_data_block r) cur offs rs" "\<exists>offs rs. build_inv (tb_index_block r) ies offs rs"
    "0 < op_block_restart_interval opt"
    "tb_filter_block r = map_option (\<lambda>p. AddBlocks p (filter_blocks fl (length (contents (tb_file r))) cur)
                           FilterBlockBuilder_new) (op_filter_policy opt)"
  using assms unfolding tb_inv_def by blast+

lemma tb_inv_new:
  assumes "contents f = []" "0 < op_block_restart_interval opt"
  shows "tb_inv contents dm opt (TableBuilder_new opt f) [] [] [] []"
proof -
  have "index_ok (op_comparator opt) dm [] [] []" by (simp add: index_ok_def)
  then show ?thesis
    using assms build_inv_new [OF assms(2)] build_inv_new [of 1]
    by (auto simp: tb_inv_def TableBuilder_new_def blocks_ok_def filter_blocks_def ok_def OK_def comp_def)
qed

lemma build_inv_empty:
  assumes "build_inv b es offs rs" shows "bb_buffer b = [] \<longleftrightarrow> es = []"
proof -
  have lay: "block_layout (bb_buffer b) es offs rs" and R: "offs ! length es = length (bb_buffer b)" "offs ! 0 = 0"
    using assms by (auto simp: build_inv_def block_layout_def)
  show ?thesis
    using layout_less [OF lay, of 0 "length es"] R by (cases "es = []") auto
qed

lemma build_inv_reset:
  assumes "build_inv b es offs rs" shows "build_inv (BB_Reset b) [] [0] [0]"
  by (rule build_inv_Reset) (use assms in \<open>simp add: build_inv_def\<close>)

lemma BB_Reset_Finish: "BB_Reset (snd (BB_Finish b)) = BB_Reset b"
  by (simp add: BB_Finish_def BB_Reset_def Let_def)

context reliable_file
begin

lemma file_append: "\<exists>f'. wf_Append ops bs f = Some (OK, f') \<and> contents f' = contents f @ bs"
  using append_reliable [of bs f] append_ok by (auto simp: ok_def OK_def)

lemma file_flush: "\<exists>f'. wf_Flush ops f = Some (OK, f') \<and> contents f' = contents f"
  using flush_reliable [of f] flush_ok by (auto simp: ok_def OK_def)

lemma WriteRawBlock_stores:
  "\<exists>f'. WriteRawBlock ops data kNoCompression r =
      Some (\<lparr>bh_offset = tb_offset r, bh_size = of_nat (length data)\<rparr>,
            r\<lparr>tb_status := OK, tb_file := f', tb_offset := tb_offset r + of_nat (length data + 5)\<rparr>)
    \<and> contents f' = contents (tb_file r) @ data @ block_trailer data kNoCompression"
proof -
  obtain f1 where f1: "wf_Append ops data (tb_file r) = Some (OK, f1)" "contents f1 = contents (tb_file r) @ data"
    using file_append by blast
  obtain f2 where f2: "wf_Append ops (block_trailer data kNoCompression) f1 = Some (OK, f2)"
      "contents f2 = contents f1 @ block_trailer data kNoCompression"
    using file_append by blast
  show ?thesis
    using f1 f2 by (intro exI [of _ f2]) (simp add: WriteRawBlock_def ok_def OK_def kBlockTrailerSize_def)
qed

lemma TB_Flush_inv:
  assumes inv: "tb_inv contents dm opt r es fl ies cur" and np: "cur \<noteq> []"
  shows "\<exists>r' raw. TB_Flush ops r = Some r' \<and> block_of raw cur \<and> tb_pending_index_entry r'
    \<and> contents (tb_file r') = contents (tb_file r) @ raw @ block_trailer raw kNoCompression
    \<and> tb_inv contents dm opt r' es (fl @ [(length (contents (tb_file r)), cur, raw)]) ies []"
proof -
  let ?D = "contents (tb_file r)"
  obtain offs rs where data: "build_inv (tb_data_block r) cur offs rs" using inv by (auto simp: tb_inv_def)
  define raw where "raw = fst (BB_Finish (tb_data_block r))"
  have raw: "block_of raw cur" unfolding block_of_def raw_def using data by blast
  have ne: "\<not> BB_empty (tb_data_block r)" using build_inv_empty [OF data] np by (simp add: BB_empty_def)
  have st: "ok (tb_status r)" and opt: "tb_options r = opt" using inv by (simp_all add: tb_inv_def)
  obtain f1 where w: "WriteRawBlock ops raw kNoCompression r =
      Some (\<lparr>bh_offset = tb_offset r, bh_size = of_nat (length raw)\<rparr>,
            r\<lparr>tb_status := OK, tb_file := f1, tb_offset := tb_offset r + of_nat (length raw + 5)\<rparr>)"
      "contents f1 = ?D @ raw @ block_trailer raw kNoCompression"
    using WriteRawBlock_stores by blast
  obtain f2 where f2: "wf_Flush ops f1 = Some (OK, f2)" "contents f2 = contents f1" using file_flush by blast
  have off: "tb_offset r + of_nat (length raw + 5) = of_nat (length (contents f2))"
    using inv f2(2) w(2) by (simp add: tb_inv_def block_trailer_def)
  define fb where "fb = (case (op_filter_policy opt, tb_filter_block r) of
      (Some p, Some fb) \<Rightarrow> Some (StartBlock p (unat (of_nat (length (contents f2)) :: u64)) fb) | _ \<Rightarrow> tb_filter_block r)"
  define r' where "r' = r\<lparr>tb_status := OK, tb_file := f2, tb_offset := of_nat (length (contents f2)),
      tb_data_block := BB_Reset (tb_data_block r), tb_pending_index_entry := True,
      tb_pending_handle := \<lparr>bh_offset = tb_offset r, bh_size = of_nat (length raw)\<rparr>, tb_filter_block := fb\<rparr>"
  obtain b' where b': "BB_Finish (tb_data_block r) = (raw, b')" "BB_Reset b' = BB_Reset (tb_data_block r)"
    unfolding raw_def by (metis BB_Reset_Finish prod.collapse)
  then have "WriteBlock ops (tb_data_block r) r = Some (\<lparr>bh_offset = tb_offset r, bh_size = of_nat (length raw)\<rparr>,
      BB_Reset (tb_data_block r),
      r\<lparr>tb_status := OK, tb_file := f1, tb_offset := of_nat (length (contents f2))\<rparr>)"
    using w off unfolding WriteBlock_def by (simp del: of_nat_add)
  then have "TB_Flush ops r = Some r'"
    using st ne f2 opt by (cases "op_filter_policy opt"; cases "tb_filter_block r")
      (simp_all add: TB_Flush_def ok_def OK_def r'_def fb_def)
  moreover have "tb_inv contents dm opt r' es (fl @ [(length ?D, cur, raw)]) ies []"
  proof -
    have "\<not> tb_pending_index_entry r" using inv np by (auto simp: tb_inv_def split: if_splits)
    moreover have "blocks_ok (contents f2) (fl @ [(length ?D, cur, raw)])"
      using blocks_ok_snoc [of ?D fl raw cur] raw np inv f2(2) w(2) by (simp add: tb_inv_def)
    moreover have "fb = map_option (\<lambda>p. AddBlocks p (filter_blocks (fl @ [(length ?D, cur, raw)]) (length (contents f2)) [])
        FilterBlockBuilder_new) (op_filter_policy opt)"
      using inv by (auto simp: fb_def tb_inv_def filter_blocks_def AddBlocks_append split: option.splits)
    ultimately show ?thesis
      using inv build_inv_reset [OF data] off
      by (auto simp: tb_inv_def r'_def handle_of_def written_entries_append ok_def OK_def)
  qed
  moreover have "tb_pending_index_entry r'" "contents (tb_file r') = ?D @ raw @ block_trailer raw kNoCompression"
    using f2 w by (simp_all add: r'_def)
  ultimately show ?thesis using raw by blast
qed

end

section \<open>Adding entries\<close>

lemma index_ok_move:
  assumes "index_ok c dm fl (bes @ rest) ies" "dm sep" "separator_of c bes rest = sep"
    and "\<forall>e \<in> set bes. Compare c (fst e) sep \<le> 0" "\<forall>e \<in> set rest. Compare c sep (fst e) < 0"
  shows "index_ok c dm (fl @ [(off, bes, raw)]) rest (ies @ [(sep, BlockHandle_EncodeTo (handle_of off raw) [])])"
  using assms unfolding index_ok_def
  by (auto simp: nth_append less_Suc_eq written_entries_append)

lemma sorted_last_le:
  assumes sorted: "sorted_wrt (\<lambda>a b. Compare c (fst a) (fst b) < 0) es" and e: "e \<in> set es"
    and refl: "Compare c (fst (last es)) (fst (last es)) = 0"
  shows "Compare c (fst e) (fst (last es)) \<le> 0"
proof -
  obtain i where i: "i < length es" "e = es ! i" using e by (auto simp: in_set_conv_nth)
  have ne: "es \<noteq> []" using e by auto
  show ?thesis
  proof (cases "i = length es - 1")
    case True
    then show ?thesis using refl i ne by (simp add: last_conv_nth)
  next
    case False
    then have "i < length es - 1" using i by simp
    then have "Compare c (fst (es ! i)) (fst (es ! (length es - 1))) < 0"
      using sorted ne by (simp add: sorted_wrt_iff_nth_less)
    then show ?thesis using i ne by (simp add: last_conv_nth)
  qed
qed

abbreviation key_lt :: "comparator \<Rightarrow> bytes \<Rightarrow> bytes \<Rightarrow> bool" where
  "key_lt c a b \<equiv> Compare c a b < 0"

locale table_writer = wr: reliable_file ops contents + cmp: comparator_laws "op_comparator opt" dm
  for ops :: "'f writable_ops" and contents :: "'f \<Rightarrow> bytes" and opt :: Options and dm :: "bytes \<Rightarrow> bool"
begin

lemma index_ok_extend:
  assumes ix: "index_ok (op_comparator opt) dm fl rest ies" and "rest \<noteq> []" and lk: "key_lt (op_comparator opt) (fst (last rest)) k"
    and d: "\<forall>e \<in> set rest. dm (fst e)" "dm k"
  shows "index_ok (op_comparator opt) dm fl (rest @ [(k, v)]) ies"
proof -
  have "key_lt (op_comparator opt) (fst (ies ! i)) k" if i: "i < length fl" for i
  proof -
    have "last rest \<in> set rest" using assms(2) by simp
    then have "key_lt (op_comparator opt) (fst (ies ! i)) (fst (last rest))" "dm (fst (ies ! i))" "dm (fst (last rest))"
      using ix i d(1) unfolding index_ok_def by auto
    with cmp.cmp_less_trans [OF _ _ d(2) _ lk] show ?thesis by blast
  qed
  moreover have "separator_of (op_comparator opt) bes (es @ rest @ [(k, v)]) = separator_of (op_comparator opt) bes (es @ rest)" for bes es
    using assms(2) by (cases es; cases rest) (simp_all add: separator_of_def)
  ultimately show ?thesis using ix unfolding index_ok_def by auto
qed

lemma TB_Add_step:
  assumes inv: "tb_inv contents dm opt r es fl ies cur" and d: "dm k" and lk: "es \<noteq> [] \<Longrightarrow> key_lt (op_comparator opt) (fst (last es)) k"
  shows "\<exists>r' ies'. tb_inv contents dm opt r' (es @ [(k, v)]) fl ies' (cur @ [(k, v)])
    \<and> TB_Add ops k v r = (if BB_CurrentSizeEstimate (tb_data_block r') \<ge> op_block_size opt then TB_Flush ops r' else Some r')"
proof -
  define r1 where "r1 = (if tb_pending_index_entry r
      then TB_AddIndex (FindShortestSeparator (op_comparator opt) (tb_last_key r) k) r else r)"
  define r2 where "r2 = r1\<lparr>tb_filter_block := map_option (AddKey k) (tb_filter_block r1),
      tb_last_key := k, tb_num_entries := tb_num_entries r1 + 1, tb_data_block := BB_Add (tb_data_block r1) k v\<rparr>"
  have eq: "TB_Add ops k v r = (if BB_CurrentSizeEstimate (tb_data_block r2) \<ge> op_block_size opt then TB_Flush ops r2 else Some r2)"
    using inv by (simp add: TB_Add_def tb_inv_def r1_def r2_def TB_AddIndex_def Let_def)
  obtain offs rs where data: "build_inv (tb_data_block r) cur offs rs" using inv by (auto simp: tb_inv_def)
  obtain io irs where ixb: "build_inv (tb_index_block r) ies io irs" using inv by (auto simp: tb_inv_def)
  have es: "es = written_entries fl @ cur" and sorted: "sorted_wrt (\<lambda>a b. key_lt (op_comparator opt) (fst a) (fst b)) es" and dom: "\<forall>e \<in> set es. dm (fst e)"
    using tb_invD [OF inv] by blast+
  have all_lt: "key_lt (op_comparator opt) (fst e) k" if "e \<in> set es" for e
  proof -
    have "es \<noteq> []" using that by auto
    then have l: "last es \<in> set es" "key_lt (op_comparator opt) (fst (last es)) k" using lk by simp_all
    then have dl: "dm (fst (last es))" using dom by simp
    have "Compare (op_comparator opt) (fst e) (fst (last es)) \<le> 0"
      by (rule sorted_last_le [OF sorted that cmp.cmp_refl [OF dl]])
    with cmp.cmp_le_less_trans [of "fst e" "fst (last es)" k] that dom dl d l(2) show ?thesis by simp
  qed
  have "\<exists>ies'. (\<exists>io irs. build_inv (tb_index_block r1) ies' io irs)
      \<and> index_ok (op_comparator opt) dm fl (cur @ [(k, v)]) ies'"
  proof (cases "tb_pending_index_entry r")
    case True
    define sep where "sep = FindShortestSeparator (op_comparator opt) (tb_last_key r) k"
    have P: "cur = []" "fl \<noteq> []" "index_ok (op_comparator opt) dm (butlast fl) (fst (snd (last fl))) ies"
        "tb_pending_handle r = handle_of (fst (last fl)) (snd (snd (last fl)))"
      using tb_inv_pending [OF inv True] by blast+
    obtain off bes raw where l: "last fl = (off, bes, raw)" by (cases "last fl")
    have fl: "fl = butlast fl @ [(off, bes, raw)]" using P(2) l by (metis append_butlast_last_id)
    have esb: "es = written_entries (butlast fl) @ bes"
      using es P(1) fl by (metis append_Nil2 written_entries_append written_entries_simps)
    have bne: "bes \<noteq> []" using inv P(2) l unfolding tb_inv_def blocks_ok_def by (metis (mono_tags, lifting) case_prodD last_in_set)
    then have last: "last bes = last es" "es \<noteq> []" using esb by auto
    then have key: "tb_last_key r = fst (last es)" "dm (fst (last es))" "key_lt (op_comparator opt) (fst (last es)) k"
      using tb_invD(5) [OF inv last(2)] lk [OF last(2)] dom last_in_set [OF last(2)] by blast+
    have sep: "dm sep" "Compare (op_comparator opt) (fst (last es)) sep \<le> 0" "key_lt (op_comparator opt) sep k"
      using cmp.sep_dom cmp.sep_ge cmp.sep_less key d by (auto simp: sep_def)
    have "\<forall>e \<in> set bes. Compare (op_comparator opt) (fst e) sep \<le> 0"
    proof
      fix e assume "e \<in> set bes"
      then have e: "e \<in> set es" "dm (fst e)" using esb dom by auto
      from sorted_last_le [OF sorted e(1) cmp.cmp_refl [OF key(2)]]
      show "Compare (op_comparator opt) (fst e) sep \<le> 0"
        by (rule cmp.cmp_trans [OF e(2) key(2) sep(1) _ sep(2)])
    qed
    moreover have "index_ok (op_comparator opt) dm (butlast fl) (bes @ [(k, v)]) ies"
      using P(3) l bne last key dom esb d by (intro index_ok_extend) auto
    ultimately have "index_ok (op_comparator opt) dm fl [(k, v)] (ies @ [(sep, BlockHandle_EncodeTo (handle_of off raw) [])])"
      using sep fl index_ok_move [of "op_comparator opt" dm "butlast fl" bes "[(k, v)]" ies sep off raw] last key(1)
      by (simp add: sep_def separator_of_def)
    moreover have "tb_index_block r1 = BB_Add (tb_index_block r) sep (BlockHandle_EncodeTo (handle_of off raw) [])"
      using True P(4) l by (simp add: r1_def TB_AddIndex_def sep_def)
    ultimately show ?thesis
      using build_inv_Add [OF ixb, of sep "BlockHandle_EncodeTo (handle_of off raw) []"] P(1)
      by (intro exI [of _ "ies @ [(sep, BlockHandle_EncodeTo (handle_of off raw) [])]"]) simp
  next
    case False
    have ix: "index_ok (op_comparator opt) dm fl cur ies" "cur = [] \<longrightarrow> fl = []"
      using tb_inv_open [OF inv False] by blast+
    have "index_ok (op_comparator opt) dm fl (cur @ [(k, v)]) ies"
    proof (cases "cur = []")
      case True
      with ix show ?thesis by (simp add: index_ok_def)
    next
      case False
      then have l: "last cur = last es" "es \<noteq> []" using es by simp_all
      have "\<forall>e \<in> set cur. dm (fst e)" using dom es by simp
      with index_ok_extend [OF ix(1) False _ _ d] lk [OF l(2)] l(1) show ?thesis by simp
    qed
    then show ?thesis using False ixb by (intro exI [of _ ies]) (auto simp: r1_def)
  qed
  then obtain ies' where ies': "\<exists>io irs. build_inv (tb_index_block r2) ies' io irs"
      "index_ok (op_comparator opt) dm fl (cur @ [(k, v)]) ies'"
    by (auto simp: r2_def)
  have fields: "tb_options r2 = opt" "ok (tb_status r2)" "tb_file r2 = tb_file r" "tb_offset r2 = tb_offset r"
      "tb_data_block r2 = BB_Add (tb_data_block r) k v" "tb_last_key r2 = k" "\<not> tb_pending_index_entry r2"
      "tb_filter_block r2 = map_option (AddKey k) (tb_filter_block r)"
    using inv by (auto simp: r2_def r1_def TB_AddIndex_def tb_inv_def)
  have "sorted_wrt (\<lambda>a b. key_lt (op_comparator opt) (fst a) (fst b)) (es @ [(k, v)])"
    using sorted all_lt by (simp add: sorted_wrt_append)
  moreover have "tb_filter_block r2 = map_option (\<lambda>p. AddBlocks p (filter_blocks fl (length (contents (tb_file r))) (cur @ [(k, v)]))
      FilterBlockBuilder_new) (op_filter_policy opt)"
    using inv fields(8) by (simp add: tb_inv_def filter_blocks_def AddBlocks_snoc_key option.map_comp comp_def)
  ultimately have "tb_inv contents dm opt r2 (es @ [(k, v)]) fl ies' (cur @ [(k, v)])"
    using fields ies' build_inv_Add [OF data, of k v] d dom es tb_invD(4,8) [OF inv] tb_inv_builders(3) [OF inv]
    unfolding tb_inv_def by simp
  with eq show ?thesis by blast
qed

lemma TB_Add_inv:
  assumes inv: "tb_inv contents dm opt r es fl ies cur" and d: "dm k" and lk: "es \<noteq> [] \<Longrightarrow> key_lt (op_comparator opt) (fst (last es)) k"
  shows "\<exists>r' fl' ies' cur'. TB_Add ops k v r = Some r' \<and> tb_inv contents dm opt r' (es @ [(k, v)]) fl' ies' cur'"
proof -
  obtain r1 ies1 where r1: "tb_inv contents dm opt r1 (es @ [(k, v)]) fl ies1 (cur @ [(k, v)])"
      "TB_Add ops k v r = (if BB_CurrentSizeEstimate (tb_data_block r1) \<ge> op_block_size opt then TB_Flush ops r1 else Some r1)"
    using TB_Add_step [OF assms] by blast
  show ?thesis
  proof (cases "BB_CurrentSizeEstimate (tb_data_block r1) \<ge> op_block_size opt")
    case True
    with wr.TB_Flush_inv [OF r1(1)] r1(2) show ?thesis by auto
  qed (use r1 in auto)
qed

lemma TB_AddAll_inv:
  "tb_inv contents dm opt r es fl ies cur \<Longrightarrow> sorted_wrt (\<lambda>a b. key_lt (op_comparator opt) (fst a) (fst b)) (es @ xs) \<Longrightarrow> \<forall>e \<in> set xs. dm (fst e) \<Longrightarrow>
   \<exists>r' fl' ies' cur'. TB_AddAll ops xs r = Some r' \<and> tb_inv contents dm opt r' (es @ xs) fl' ies' cur'"
proof (induction xs arbitrary: r es fl ies cur)
  case Nil
  then show ?case by auto
next
  case (Cons x xs)
  obtain k v where x: "x = (k, v)" by (cases x)
  have "es \<noteq> [] \<Longrightarrow> key_lt (op_comparator opt) (fst (last es)) k"
    using Cons.prems(2) by (simp add: sorted_wrt_append x)
  from TB_Add_inv [OF Cons.prems(1) _ this, of v] Cons.prems(3) x obtain r' fl' ies' cur' where
    "TB_Add ops k v r = Some r'" "tb_inv contents dm opt r' (es @ [(k, v)]) fl' ies' cur'" by auto
  with Cons.IH [OF this(2)] Cons.prems x show ?case by auto
qed

end

section \<open>Finishing\<close>

text \<open>
  What a finished file \<open>D\<close> holds: the data blocks \<open>fl\<close> with the entries \<open>es\<close>, the index block, the
  filter block of the policy when there is one, the metaindex block, and the footer at the end.
\<close>

definition filter_ok :: "filter_policy_ops option \<Rightarrow> bytes \<Rightarrow> written list \<Rightarrow> entries \<Rightarrow> bool" where
  "filter_ok pol D fl mes \<longleftrightarrow>
     (case pol of None \<Rightarrow> mes = []
      | Some p \<Rightarrow> \<exists>n off raw. stored D off raw \<and> n \<le> length D \<and> (\<forall>w \<in> set fl. fst w \<le> n)
                  \<and> raw = FilterBlock_Finish p (AddBlocks p (filter_blocks fl n []) FilterBlockBuilder_new)
                  \<and> mes = [(filter_key p, BlockHandle_EncodeTo (handle_of off raw) [])])"

definition table_file ::
    "Options \<Rightarrow> (bytes \<Rightarrow> bool) \<Rightarrow> bytes \<Rightarrow> entries \<Rightarrow> written list \<Rightarrow> nat \<times> entries \<times> bytes \<Rightarrow> nat \<times> entries \<times> bytes \<Rightarrow> bool" where
  "table_file opt dm D es fl index meta \<longleftrightarrow>
     (case (index, meta) of ((ioff, ies, iraw), (moff, mes, mraw)) \<Rightarrow>
        (\<exists>D0. D = D0 @ Footer_EncodeTo \<lparr>ft_metaindex_handle = handle_of moff mraw, ft_index_handle = handle_of ioff iraw\<rparr> [])
        \<and> blocks_ok D fl \<and> es = written_entries fl
        \<and> stored D ioff iraw \<and> block_of iraw ies \<and> index_ok (op_comparator opt) dm fl [] ies
        \<and> stored D moff mraw \<and> block_of mraw mes \<and> filter_ok (op_filter_policy opt) D fl mes
        \<and> sorted_wrt (\<lambda>a b. key_lt (op_comparator opt) (fst a) (fst b)) es \<and> (\<forall>e \<in> set es. dm (fst e)))"

lemma block_ofI: "build_inv b es offs rs \<Longrightarrow> block_of (fst (BB_Finish b)) es"
  unfolding block_of_def by blast

context reliable_file
begin

text \<open>The builder \<open>r\<close> after its file has grown to \<open>f\<close>.\<close>

abbreviation grown :: "'a TableBuilder \<Rightarrow> 'a \<Rightarrow> 'a TableBuilder" where
  "grown r f \<equiv> r\<lparr>tb_status := OK, tb_file := f, tb_offset := of_nat (length (contents f))\<rparr>"

lemma WriteRawBlock_grown:
  assumes "tb_offset r = of_nat (length (contents (tb_file r)))"
  shows "\<exists>f. WriteRawBlock ops data kNoCompression r = Some (handle_of (length (contents (tb_file r))) data, grown r f)
    \<and> contents f = contents (tb_file r) @ data @ block_trailer data kNoCompression"
proof -
  obtain f where "WriteRawBlock ops data kNoCompression r =
      Some (\<lparr>bh_offset = tb_offset r, bh_size = of_nat (length data)\<rparr>,
            r\<lparr>tb_status := OK, tb_file := f, tb_offset := tb_offset r + of_nat (length data + 5)\<rparr>)"
    and c: "contents f = contents (tb_file r) @ data @ block_trailer data kNoCompression"
    using WriteRawBlock_stores by blast
  moreover have "tb_offset r + of_nat (length data + 5) = of_nat (length (contents f))"
    using assms c by (simp add: block_trailer_def)
  ultimately show ?thesis
    using assms by (intro exI [of _ f]) (simp add: handle_of_def)
qed

lemma WriteBlock_grown:
  assumes "tb_offset r = of_nat (length (contents (tb_file r)))"
  shows "\<exists>f. WriteBlock ops b r = Some (handle_of (length (contents (tb_file r))) (fst (BB_Finish b)), BB_Reset b, grown r f)
    \<and> contents f = contents (tb_file r) @ fst (BB_Finish b) @ block_trailer (fst (BB_Finish b)) kNoCompression"
proof -
  obtain f where "WriteRawBlock ops (fst (BB_Finish b)) kNoCompression r =
      Some (handle_of (length (contents (tb_file r))) (fst (BB_Finish b)), grown r f)"
    and "contents f = contents (tb_file r) @ fst (BB_Finish b) @ block_trailer (fst (BB_Finish b)) kNoCompression"
    using WriteRawBlock_grown [OF assms] by blast
  then show ?thesis
    using BB_Reset_Finish [of b] by (intro exI [of _ f]) (simp add: WriteBlock_def case_prod_beta)
qed

lemma WriteFooter_grown:
  assumes "ok (tb_status r)" "tb_offset r = of_nat (length (contents (tb_file r)))"
  shows "\<exists>f. TB_WriteFooter ops mh ih r = Some (grown r f)
    \<and> contents f = contents (tb_file r) @ Footer_EncodeTo \<lparr>ft_metaindex_handle = mh, ft_index_handle = ih\<rparr> []"
proof -
  obtain f where "wf_Append ops (Footer_EncodeTo \<lparr>ft_metaindex_handle = mh, ft_index_handle = ih\<rparr> []) (tb_file r) = Some (OK, f)"
      "contents f = contents (tb_file r) @ Footer_EncodeTo \<lparr>ft_metaindex_handle = mh, ft_index_handle = ih\<rparr> []"
    using file_append by blast
  then show ?thesis
    using assms by (intro exI [of _ f]) (simp add: TB_WriteFooter_def ok_def OK_def)
qed

end

text \<open>\<open>r'\<close> is \<open>r\<close> after writing \<open>X\<close> to its file.\<close>

definition grew :: "('f \<Rightarrow> bytes) \<Rightarrow> 'f TableBuilder \<Rightarrow> 'f TableBuilder \<Rightarrow> bytes \<Rightarrow> bool" where
  "grew contents r r' X \<longleftrightarrow>
     r' = r\<lparr>tb_status := tb_status r', tb_file := tb_file r', tb_offset := tb_offset r'\<rparr>
     \<and> ok (tb_status r') \<and> contents (tb_file r') = contents (tb_file r) @ X
     \<and> tb_offset r' = of_nat (length (contents (tb_file r')))"

lemma grewD:
  assumes "grew contents r r' X"
  shows "tb_options r' = tb_options r" "tb_data_block r' = tb_data_block r" "tb_index_block r' = tb_index_block r"
    "tb_last_key r' = tb_last_key r" "tb_pending_index_entry r' = tb_pending_index_entry r"
    "tb_pending_handle r' = tb_pending_handle r" "tb_filter_block r' = tb_filter_block r"
    "ok (tb_status r')" "contents (tb_file r') = contents (tb_file r) @ X"
    "tb_offset r' = of_nat (length (contents (tb_file r')))"
proof -
  have e: "r' = r\<lparr>tb_status := tb_status r', tb_file := tb_file r', tb_offset := tb_offset r'\<rparr>"
    using assms unfolding grew_def by (rule conjunct1)
  show "tb_options r' = tb_options r" "tb_data_block r' = tb_data_block r" "tb_index_block r' = tb_index_block r"
    "tb_last_key r' = tb_last_key r" "tb_pending_index_entry r' = tb_pending_index_entry r"
    "tb_pending_handle r' = tb_pending_handle r" "tb_filter_block r' = tb_filter_block r"
    by (subst e, simp)+
  show "ok (tb_status r')" "contents (tb_file r') = contents (tb_file r) @ X"
    "tb_offset r' = of_nat (length (contents (tb_file r')))"
    using assms unfolding grew_def by blast+
qed

context reliable_file
begin

lemma grew_grown: "contents f = contents (tb_file r) @ X \<Longrightarrow> grew contents r (grown r f) X"
  by (simp add: grew_def ok_def OK_def)

lemma WriteFilter_grew:
  assumes st: "ok (tb_status r)" and off: "tb_offset r = of_nat (length (contents (tb_file r)))"
    and fb: "tb_filter_block r = map_option fbf (op_filter_policy (tb_options r))"
  shows "\<exists>fh r' X. TB_WriteFilter ops r = Some (fh, r') \<and> grew contents r r' X
    \<and> (case op_filter_policy (tb_options r) of None \<Rightarrow> True
       | Some p \<Rightarrow> \<exists>raw. fh = handle_of (length (contents (tb_file r))) raw \<and> raw = FilterBlock_Finish p (fbf p)
                   \<and> X = raw @ block_trailer raw kNoCompression)"
proof (cases "op_filter_policy (tb_options r)")
  case None
  have "grew contents r r []" using st off by (simp add: grew_def)
  then show ?thesis using None by (auto simp: TB_WriteFilter_def)
next
  case (Some p)
  obtain f where "WriteRawBlock ops (FilterBlock_Finish p (fbf p)) kNoCompression r =
      Some (handle_of (length (contents (tb_file r))) (FilterBlock_Finish p (fbf p)), grown r f)"
    and c: "contents f = contents (tb_file r) @ FilterBlock_Finish p (fbf p) @ block_trailer (FilterBlock_Finish p (fbf p)) kNoCompression"
    using WriteRawBlock_grown [OF off] by blast
  then show ?thesis
    using Some fb st grew_grown [OF c] by (auto simp: TB_WriteFilter_def)
qed

lemma WriteMeta_grew:
  assumes st: "ok (tb_status r)" and off: "tb_offset r = of_nat (length (contents (tb_file r)))"
    and fb: "tb_filter_block r = map_option fbf (op_filter_policy (tb_options r))"
    and iv: "0 < op_block_restart_interval (tb_options r)"
  shows "\<exists>raw r'. TB_WriteMeta ops fh r = Some (handle_of (length (contents (tb_file r))) raw, r')
    \<and> grew contents r r' (raw @ block_trailer raw kNoCompression)
    \<and> block_of raw (case op_filter_policy (tb_options r) of None \<Rightarrow> [] | Some p \<Rightarrow> [(filter_key p, BlockHandle_EncodeTo fh [])])"
proof -
  let ?b = "BlockBuilder_new (op_block_restart_interval (tb_options r))"
  define b where "b = (case op_filter_policy (tb_options r) of None \<Rightarrow> ?b
    | Some p \<Rightarrow> (case tb_filter_block r of None \<Rightarrow> ?b | Some fb \<Rightarrow> BB_Add ?b (filter_key p) (BlockHandle_EncodeTo fh [])))"
  define raw where "raw = fst (BB_Finish b)"
  obtain f where w: "WriteBlock ops b r = Some (handle_of (length (contents (tb_file r))) raw, BB_Reset b, grown r f)"
    and c: "contents f = contents (tb_file r) @ raw @ block_trailer raw kNoCompression"
    using WriteBlock_grown [OF off, of b] by (auto simp: raw_def)
  have "block_of raw (case op_filter_policy (tb_options r) of None \<Rightarrow> [] | Some p \<Rightarrow> [(filter_key p, BlockHandle_EncodeTo fh [])])"
  proof (cases "op_filter_policy (tb_options r)")
    case None
    then show ?thesis using block_ofI [OF build_inv_new [OF iv]] fb by (simp add: raw_def b_def)
  next
    case (Some p)
    obtain offs rs where "build_inv (BB_Add (BlockBuilder_new (op_block_restart_interval (tb_options r))) (filter_key p)
        (BlockHandle_EncodeTo fh [])) ([] @ [(filter_key p, BlockHandle_EncodeTo fh [])]) offs rs"
      using build_inv_Add [OF build_inv_new [OF iv]] by blast
    from block_ofI [OF this] show ?thesis using fb Some by (simp add: raw_def b_def)
  qed
  moreover have "TB_WriteMeta ops fh r = Some (handle_of (length (contents (tb_file r))) raw, grown r f)"
    using st w by (simp add: TB_WriteMeta_def Let_def b_def [symmetric])
  ultimately show ?thesis using grew_grown [OF c] by blast
qed

end

context table_writer
begin

lemma WriteIndex_grew:
  assumes st: "ok (tb_status r)" and off: "tb_offset r = of_nat (length (contents (tb_file r)))" and opt: "tb_options r = opt"
    and ixb: "\<exists>offs rs. build_inv (tb_index_block r) ies offs rs"
    and pending: "tb_pending_index_entry r \<Longrightarrow>
        fl \<noteq> [] \<and> index_ok (op_comparator opt) dm (butlast fl) (fst (snd (last fl))) ies
        \<and> tb_pending_handle r = handle_of (fst (last fl)) (snd (snd (last fl)))
        \<and> dm (tb_last_key r) \<and> tb_last_key r = fst (last (fst (snd (last fl)))) \<and> (\<forall>e \<in> set (fst (snd (last fl))). dm (fst e) \<and> Compare (op_comparator opt) (fst e) (tb_last_key r) \<le> 0)"
    and complete: "\<not> tb_pending_index_entry r \<Longrightarrow> index_ok (op_comparator opt) dm fl [] ies"
  shows "\<exists>raw ies' r'. TB_WriteIndex ops r = Some (handle_of (length (contents (tb_file r))) raw, r')
    \<and> contents (tb_file r') = contents (tb_file r) @ raw @ block_trailer raw kNoCompression
    \<and> ok (tb_status r') \<and> tb_offset r' = of_nat (length (contents (tb_file r')))
    \<and> block_of raw ies' \<and> index_ok (op_comparator opt) dm fl [] ies'"
proof -
  define r1 where "r1 = (if tb_pending_index_entry r then TB_AddIndex (FindShortSuccessor (op_comparator opt) (tb_last_key r)) r else r)"
  have r1: "tb_file r1 = tb_file r" "tb_offset r1 = of_nat (length (contents (tb_file r1)))"
    using off by (simp_all add: r1_def TB_AddIndex_def)
  obtain offs rs where ib: "build_inv (tb_index_block r) ies offs rs" using ixb by blast
  have "\<exists>ies'. (\<exists>offs rs. build_inv (tb_index_block r1) ies' offs rs) \<and> index_ok (op_comparator opt) dm fl [] ies'"
  proof (cases "tb_pending_index_entry r")
    case True
    define sep where "sep = FindShortSuccessor (op_comparator opt) (tb_last_key r)"
    obtain o1 bes raw where l: "last fl = (o1, bes, raw)" by (cases "last fl")
    have P: "fl \<noteq> []" "index_ok (op_comparator opt) dm (butlast fl) bes ies" "tb_pending_handle r = handle_of o1 raw"
        "dm (tb_last_key r)" "tb_last_key r = fst (last bes)" "\<forall>e \<in> set bes. dm (fst e) \<and> Compare (op_comparator opt) (fst e) (tb_last_key r) \<le> 0"
      using pending [OF True] unfolding l fst_conv snd_conv by blast+
    have sep: "dm sep" "Compare (op_comparator opt) (tb_last_key r) sep \<le> 0"
      using cmp.succ_dom [OF P(4)] cmp.succ_ge [OF P(4)] by (simp_all add: sep_def)
    have le: "\<forall>e \<in> set bes. Compare (op_comparator opt) (fst e) sep \<le> 0"
      using P(4,6) sep cmp.cmp_trans [of _ "tb_last_key r" sep] by blast
    have "index_ok (op_comparator opt) dm (butlast fl @ [(o1, bes, raw)]) [] (ies @ [(sep, BlockHandle_EncodeTo (handle_of o1 raw) [])])"
      by (rule index_ok_move) (use P(2) sep(1) le P(5) in \<open>simp_all add: sep_def separator_of_def\<close>)
    moreover have "butlast fl @ [(o1, bes, raw)] = fl"
      using P(1) l by (metis append_butlast_last_id)
    ultimately show ?thesis
      using build_inv_Add [OF ib, of sep "BlockHandle_EncodeTo (handle_of o1 raw) []"] True P(3)
      by (intro exI [of _ "ies @ [(sep, BlockHandle_EncodeTo (handle_of o1 raw) [])]"]) (simp add: r1_def TB_AddIndex_def sep_def)
  next
    case False
    then show ?thesis using complete ib by (auto simp: r1_def)
  qed
  then obtain ies' offs' rs' where ies': "build_inv (tb_index_block r1) ies' offs' rs'" "index_ok (op_comparator opt) dm fl [] ies'"
    by blast
  define raw where "raw = fst (BB_Finish (tb_index_block r1))"
  obtain f where w: "WriteBlock ops (tb_index_block r1) r1 =
      Some (handle_of (length (contents (tb_file r1))) raw, BB_Reset (tb_index_block r1), wr.grown r1 f)"
    and c: "contents f = contents (tb_file r1) @ raw @ block_trailer raw kNoCompression"
    using wr.WriteBlock_grown [OF r1(2), of "tb_index_block r1"] by (auto simp: raw_def)
  have "TB_WriteIndex ops r = Some (handle_of (length (contents (tb_file r))) raw,
      (wr.grown r1 f)\<lparr>tb_index_block := BB_Reset (tb_index_block r1)\<rparr>)"
    using st w opt r1(1) unfolding TB_WriteIndex_def Let_def r1_def [symmetric] opt by simp
  then show ?thesis
    using c r1(1) block_ofI [OF ies'(1)] ies'(2)
    by (intro exI [of _ raw] exI [of _ ies'] exI [of _ "(wr.grown r1 f)\<lparr>tb_index_block := BB_Reset (tb_index_block r1)\<rparr>"])
      (simp add: raw_def ok_def OK_def)
qed

lemma TB_Flush_any:
  assumes inv: "tb_inv contents dm opt r es fl ies cur"
  shows "\<exists>r' fl'. TB_Flush ops r = Some r' \<and> tb_inv contents dm opt r' es fl' ies []
    \<and> (\<not> tb_pending_index_entry r' \<longrightarrow> fl' = [])"
proof (cases "cur = []")
  case True
  have "BB_empty (tb_data_block r)"
    using tb_inv_builders(1) [OF inv] build_inv_empty True by (auto simp: BB_empty_def)
  moreover have "\<not> tb_pending_index_entry r \<Longrightarrow> fl = []"
    using tb_inv_open(2) [OF inv] True by blast
  ultimately show ?thesis using inv True by (auto simp: TB_Flush_def)
next
  case False
  with wr.TB_Flush_inv [OF inv] show ?thesis by blast
qed

lemma pending_last:
  assumes inv: "tb_inv contents dm opt r es fl ies []" and fl: "fl \<noteq> []"
  shows "dm (tb_last_key r) \<and> tb_last_key r = fst (last (fst (snd (last fl)))) \<and> (\<forall>e \<in> set (fst (snd (last fl))). dm (fst e) \<and> Compare (op_comparator opt) (fst e) (tb_last_key r) \<le> 0)"
proof -
  obtain off bes raw where l: "last fl = (off, bes, raw)" by (cases "last fl")
  have f: "fl = butlast fl @ [(off, bes, raw)]" using fl l by (metis append_butlast_last_id)
  note I = tb_invD [OF inv]
  have es: "es = written_entries (butlast fl) @ bes"
    using I(1) f by (metis append_Nil2 written_entries_append written_entries_simps)
  have "(off, bes, raw) \<in> set fl" using f by (metis in_set_conv_decomp)
  then have "bes \<noteq> []" using I(4) unfolding blocks_ok_def by fast
  then have ne: "es \<noteq> []" using es by simp
  then have d: "dm (fst (last es))" using I(3) last_in_set by blast
  have "\<forall>e \<in> set bes. dm (fst e) \<and> Compare (op_comparator opt) (fst e) (fst (last es)) \<le> 0"
    using I(3) es sorted_last_le [OF I(2) _ cmp.cmp_refl [OF d]] by simp
  moreover have "last es = last bes" using es \<open>bes \<noteq> []\<close> by simp
  ultimately show ?thesis using I(5) [OF ne] d l by simp
qed

lemma TB_Finish_inv:
  assumes inv: "tb_inv contents dm opt r es fl ies cur"
  shows "\<exists>r' s fl' index meta. TB_Finish ops r = Some (s, r') \<and> ok s
    \<and> table_file opt dm (contents (tb_file r')) es fl' index meta \<and> tb_offset r' = of_nat (length (contents (tb_file r')))"
proof -
  obtain r1 fl1 where r1: "TB_Flush ops r = Some r1" "tb_inv contents dm opt r1 es fl1 ies []"
      "\<not> tb_pending_index_entry r1 \<Longrightarrow> fl1 = []"
    using TB_Flush_any [OF inv] by blast
  note I = tb_invD [OF r1(2)] and B = tb_inv_builders [OF r1(2)]
  define r2 where "r2 = r1\<lparr>tb_closed := True\<rparr>"
  let ?D = "contents (tb_file r1)"
  define fbf where "fbf = (\<lambda>p. AddBlocks p (filter_blocks fl1 (length ?D) []) FilterBlockBuilder_new)"
  have r2: "ok (tb_status r2)" "tb_offset r2 = of_nat (length (contents (tb_file r2)))"
      "tb_filter_block r2 = map_option fbf (op_filter_policy (tb_options r2))" "tb_file r2 = tb_file r1" "tb_options r2 = opt"
    using I B(4) by (simp_all add: r2_def fbf_def)
  obtain fh r3 X where W3: "TB_WriteFilter ops r2 = Some (fh, r3)" "grew contents r2 r3 X"
    and fh: "case op_filter_policy opt of None \<Rightarrow> True
       | Some p \<Rightarrow> \<exists>raw. fh = handle_of (length ?D) raw \<and> raw = FilterBlock_Finish p (fbf p) \<and> X = raw @ block_trailer raw kNoCompression"
    using wr.WriteFilter_grew [OF r2(1-3)] unfolding r2(4,5) by blast
  note G3 = grewD [OF W3(2)]
  have f3: "tb_filter_block r3 = map_option fbf (op_filter_policy (tb_options r3))" using G3 r2(3) by simp
  define mes where "mes = (case op_filter_policy opt of None \<Rightarrow> [] | Some p \<Rightarrow> [(filter_key p, BlockHandle_EncodeTo fh [])])"
  have iv: "0 < op_block_restart_interval (tb_options r3)" using B(3) G3 r2(5) by simp
  obtain mraw r4 where W4: "TB_WriteMeta ops fh r3 = Some (handle_of (length (contents (tb_file r3))) mraw, r4)"
      "grew contents r3 r4 (mraw @ block_trailer mraw kNoCompression)" "block_of mraw mes"
    using wr.WriteMeta_grew [OF G3(8,10) f3 iv, of fh] G3(1) r2(5) unfolding mes_def by auto
  note G4 = grewD [OF W4(2)]
  have same: "tb_options r4 = opt" "tb_index_block r4 = tb_index_block r1" "tb_last_key r4 = tb_last_key r1"
      "tb_pending_index_entry r4 = tb_pending_index_entry r1" "tb_pending_handle r4 = tb_pending_handle r1"
    using G3 G4 r2(5) by (simp_all add: r2_def)
  have pend: "fl1 \<noteq> [] \<and> index_ok (op_comparator opt) dm (butlast fl1) (fst (snd (last fl1))) ies
        \<and> tb_pending_handle r4 = handle_of (fst (last fl1)) (snd (snd (last fl1)))
        \<and> dm (tb_last_key r4) \<and> tb_last_key r4 = fst (last (fst (snd (last fl1))))
        \<and> (\<forall>e \<in> set (fst (snd (last fl1))). dm (fst e) \<and> Compare (op_comparator opt) (fst e) (tb_last_key r4) \<le> 0)"
    if "tb_pending_index_entry r4"
    using tb_inv_pending [OF r1(2)] pending_last [OF r1(2)] that unfolding same by blast
  have compl: "index_ok (op_comparator opt) dm fl1 [] ies" if "\<not> tb_pending_index_entry r4"
    using tb_inv_open(1) [OF r1(2)] that unfolding same by blast
  have ibs: "\<exists>offs rs. build_inv (tb_index_block r4) ies offs rs" using B(2) unfolding same by blast
  obtain iraw ies' r5 where W5: "TB_WriteIndex ops r4 = Some (handle_of (length (contents (tb_file r4))) iraw, r5)"
      "contents (tb_file r5) = contents (tb_file r4) @ iraw @ block_trailer iraw kNoCompression"
      "ok (tb_status r5)" "tb_offset r5 = of_nat (length (contents (tb_file r5)))"
      "block_of iraw ies'" "index_ok (op_comparator opt) dm fl1 [] ies'"
    using WriteIndex_grew [OF G4(8,10) same(1) ibs pend compl] by blast
  let ?mh = "handle_of (length (contents (tb_file r3))) mraw" and ?ih = "handle_of (length (contents (tb_file r4))) iraw"
  obtain f where W6: "TB_WriteFooter ops ?mh ?ih r5 = Some (wr.grown r5 f)"
      "contents f = contents (tb_file r5) @ Footer_EncodeTo \<lparr>ft_metaindex_handle = ?mh, ft_index_handle = ?ih\<rparr> []"
    using wr.WriteFooter_grown [OF W5(3,4)] by blast
  let ?F = "Footer_EncodeTo \<lparr>ft_metaindex_handle = ?mh, ft_index_handle = ?ih\<rparr> []"
  have fin: "TB_Finish ops r = Some (OK, wr.grown r5 f)"
    using r1(1) W3(1) W4(1) W5(1) W6(1) by (simp add: TB_Finish_def Let_def r2_def [symmetric])
  have c3: "contents (tb_file r3) = ?D @ X" using G3(9) r2(4) by simp
  have c4: "contents (tb_file r4) = contents (tb_file r3) @ mraw @ block_trailer mraw kNoCompression" using G4(9) .
  have cf: "contents f = ?D @ X @ mraw @ block_trailer mraw kNoCompression @ iraw @ block_trailer iraw kNoCompression @ ?F"
    using W6(2) W5(2) c4 c3 by simp
  have st_m: "stored (contents f) (length (contents (tb_file r3))) mraw"
    using stored_here [of "contents (tb_file r3)" mraw] W6(2) W5(2) c4 by simp
  have st_i: "stored (contents f) (length (contents (tb_file r4))) iraw"
    using stored_here [of "contents (tb_file r4)" iraw] W6(2) W5(2) by simp
  have bl: "blocks_ok (contents f) fl1" using blocks_ok_append [OF I(4)] cf by simp
  have fo: "filter_ok (op_filter_policy opt) (contents f) fl1 mes"
  proof (cases "op_filter_policy opt")
    case (Some p)
    with fh obtain raw where raw: "fh = handle_of (length ?D) raw" "raw = FilterBlock_Finish p (fbf p)" "X = raw @ block_trailer raw kNoCompression"
      by auto
    have "stored (contents f) (length ?D) raw" using stored_here [of ?D raw] cf raw(3) by simp
    moreover have "\<forall>w \<in> set fl1. fst w \<le> length ?D"
      using I(4) unfolding blocks_ok_def by (fastforce simp: sorted_wrt_append)
    moreover have "length ?D \<le> length (contents f)" using cf by simp
    ultimately show ?thesis
      using Some raw(1,2) by (auto simp: filter_ok_def mes_def fbf_def)
  qed (simp add: filter_ok_def mes_def)
  have "table_file opt dm (contents f) es fl1 (length (contents (tb_file r4)), ies', iraw) (length (contents (tb_file r3)), mes, mraw)"
    using I(1-3) bl st_m st_i fo W4(3) W5(5,6) W6(2) unfolding table_file_def by simp
  moreover have "ok OK" "tb_offset (wr.grown r5 f) = of_nat (length (contents (tb_file (wr.grown r5 f))))"
    by (simp_all add: ok_def OK_def)
  moreover have "tb_file (wr.grown r5 f) = f" by simp
  ultimately show ?thesis using fin by metis
qed

text \<open>Building a table from a sorted list of entries on a file that does not fail succeeds.\<close>

theorem table_built:
  assumes "contents f = []" "0 < op_block_restart_interval opt"
    and "sorted_wrt (\<lambda>a b. key_lt (op_comparator opt) (fst a) (fst b)) es" "\<forall>e \<in> set es. dm (fst e)"
  shows "\<exists>r s r' fl index meta. TB_AddAll ops es (TableBuilder_new opt f) = Some r \<and> TB_Finish ops r = Some (s, r') \<and> ok s
    \<and> table_file opt dm (contents (tb_file r')) es fl index meta \<and> tb_offset r' = of_nat (length (contents (tb_file r')))"
proof -
  obtain r fl ies cur where r: "TB_AddAll ops es (TableBuilder_new opt f) = Some r" "tb_inv contents dm opt r es fl ies cur"
    using TB_AddAll_inv [OF tb_inv_new [where contents = contents, OF assms(1,2)], of es] assms(3,4) by auto
  with TB_Finish_inv [OF r(2)] show ?thesis by blast
qed

end

text \<open>On a POSIX file, with the keys of a database or with user keys.\<close>

interpretation disk_table: table_writer "Posix_ops (disk_calls calls)" "Posix_contents (\<lambda>k. k)"
    "opt\<lparr>op_comparator := InternalKeyComparator BytewiseComparator\<rparr>" "\<lambda>k. 8 \<le> length k" for calls opt
  unfolding table_writer_def using disk.reliable_file_axioms bytewise.ikey.comparator_laws_axioms by simp

interpretation disk_user_table: table_writer "Posix_ops (disk_calls calls)" "Posix_contents (\<lambda>k. k)"
    "opt\<lparr>op_comparator := BytewiseComparator\<rparr>" "\<lambda>k. True" for calls opt
  unfolding table_writer_def using disk.reliable_file_axioms bytewise.comparator_laws_axioms by simp

end
