(* ===== verification/TwoLevels.thy ===== *)
theory TwoLevels
  imports Iterators
begin

text \<open>
  The two-level iterator (db/two_level_iterator.cc): an index iterator whose values are handles,
  and a data iterator over the block of the current handle. The block function is an argument,
  as in the code; \<open>None\<close> is a call that does not return. When both levels are sorted cursors and
  the index keys separate the blocks, the whole is a sorted cursor over the concatenation.
\<close>

section \<open>State and operations\<close>

record ('i, 'd) TwoLevel =
  tl_index :: "'i IteratorWrapper"
  tl_data :: "'d IteratorWrapper"
  tl_handle :: bytes
  tl_status :: Status

type_synonym 'd block_function = "bytes \<Rightarrow> 'd option"

definition NewTwoLevelIterator :: "'i iter_ops \<Rightarrow> 'i \<Rightarrow> ('i, 'd) TwoLevel" where
  "NewTwoLevelIterator iops index_iter =
     \<lparr>tl_index = Wrapper_new iops (Some index_iter), tl_data = Wrapper_empty, tl_handle = [], tl_status = OK\<rparr>"

definition SaveError :: "Status \<Rightarrow> ('i, 'd) TwoLevel \<Rightarrow> ('i, 'd) TwoLevel" where
  "SaveError status s = (if ok (tl_status s) \<and> \<not> ok status then s\<lparr>tl_status := status\<rparr> else s)"

definition SetDataIterator :: "'d iter_ops \<Rightarrow> 'd option \<Rightarrow> ('i, 'd) TwoLevel \<Rightarrow> ('i, 'd) TwoLevel" where
  "SetDataIterator dops data_iter s =
     (let s = (if w_iter (tl_data s) \<noteq> None then SaveError (it_status (Wrapper_ops dops) (tl_data s)) s else s)
      in s\<lparr>tl_data := Wrapper_Set dops (tl_data s) data_iter\<rparr>)"

definition InitDataBlock ::
    "'i iter_ops \<Rightarrow> 'd iter_ops \<Rightarrow> 'd block_function \<Rightarrow> ('i, 'd) TwoLevel \<Rightarrow> ('i, 'd) TwoLevel option" where
  "InitDataBlock iops dops bf s =
     (if \<not> w_valid (tl_index s) then Some (SetDataIterator dops None s)
      else let handle = it_value (Wrapper_ops iops) (tl_index s)
           in if w_iter (tl_data s) \<noteq> None \<and> Slice_compare handle (tl_handle s) = 0 then Some s
              else Option.bind (bf handle) (\<lambda>iter.
                     Some (SetDataIterator dops (Some iter) (s\<lparr>tl_handle := handle\<rparr>))))"

text \<open>An operation of the data iterator, if there is one; an operation of the index iterator.\<close>

definition data_do ::
    "('d IteratorWrapper \<Rightarrow> 'd IteratorWrapper option) \<Rightarrow> ('i, 'd) TwoLevel \<Rightarrow> ('i, 'd) TwoLevel option" where
  "data_do f s =
     (if w_iter (tl_data s) \<noteq> None then map_option (\<lambda>d. s\<lparr>tl_data := d\<rparr>) (f (tl_data s)) else Some s)"

definition index_do ::
    "('i IteratorWrapper \<Rightarrow> 'i IteratorWrapper option) \<Rightarrow> ('i, 'd) TwoLevel \<Rightarrow> ('i, 'd) TwoLevel option" where
  "index_do f s = map_option (\<lambda>i. s\<lparr>tl_index := i\<rparr>) (f (tl_index s))"

partial_function (option) SkipForward ::
    "'i iter_ops \<Rightarrow> 'd iter_ops \<Rightarrow> 'd block_function \<Rightarrow> ('i, 'd) TwoLevel \<Rightarrow> ('i, 'd) TwoLevel option" where
  "SkipForward iops dops bf s =
     (if w_iter (tl_data s) = None \<or> \<not> w_valid (tl_data s)
      then if \<not> w_valid (tl_index s) then Some (SetDataIterator dops None s)
           else Option.bind (index_do (it_Next (Wrapper_ops iops)) s) (\<lambda>s.
                Option.bind (InitDataBlock iops dops bf s) (\<lambda>s.
                Option.bind (data_do (it_SeekToFirst (Wrapper_ops dops)) s) (\<lambda>s.
                SkipForward iops dops bf s)))
      else Some s)"

partial_function (option) SkipBackward ::
    "'i iter_ops \<Rightarrow> 'd iter_ops \<Rightarrow> 'd block_function \<Rightarrow> ('i, 'd) TwoLevel \<Rightarrow> ('i, 'd) TwoLevel option" where
  "SkipBackward iops dops bf s =
     (if w_iter (tl_data s) = None \<or> \<not> w_valid (tl_data s)
      then if \<not> w_valid (tl_index s) then Some (SetDataIterator dops None s)
           else Option.bind (index_do (it_Prev (Wrapper_ops iops)) s) (\<lambda>s.
                Option.bind (InitDataBlock iops dops bf s) (\<lambda>s.
                Option.bind (data_do (it_SeekToLast (Wrapper_ops dops)) s) (\<lambda>s.
                SkipBackward iops dops bf s)))
      else Some s)"

definition TL_SeekToFirst where
  "TL_SeekToFirst iops dops bf s =
     Option.bind (index_do (it_SeekToFirst (Wrapper_ops iops)) s) (\<lambda>s.
     Option.bind (InitDataBlock iops dops bf s) (\<lambda>s.
     Option.bind (data_do (it_SeekToFirst (Wrapper_ops dops)) s) (SkipForward iops dops bf)))"

definition TL_SeekToLast where
  "TL_SeekToLast iops dops bf s =
     Option.bind (index_do (it_SeekToLast (Wrapper_ops iops)) s) (\<lambda>s.
     Option.bind (InitDataBlock iops dops bf s) (\<lambda>s.
     Option.bind (data_do (it_SeekToLast (Wrapper_ops dops)) s) (SkipBackward iops dops bf)))"

definition TL_Seek where
  "TL_Seek iops dops bf s target =
     Option.bind (index_do (\<lambda>w. it_Seek (Wrapper_ops iops) w target) s) (\<lambda>s.
     Option.bind (InitDataBlock iops dops bf s) (\<lambda>s.
     Option.bind (data_do (\<lambda>w. it_Seek (Wrapper_ops dops) w target) s) (SkipForward iops dops bf)))"

definition TL_Next where
  "TL_Next iops dops bf s =
     Option.bind (data_do (it_Next (Wrapper_ops dops)) s) (SkipForward iops dops bf)"

definition TL_Prev where
  "TL_Prev iops dops bf s =
     Option.bind (data_do (it_Prev (Wrapper_ops dops)) s) (SkipBackward iops dops bf)"

definition TL_status :: "'i iter_ops \<Rightarrow> 'd iter_ops \<Rightarrow> ('i, 'd) TwoLevel \<Rightarrow> Status" where
  "TL_status iops dops s =
     (if \<not> ok (it_status (Wrapper_ops iops) (tl_index s)) then it_status (Wrapper_ops iops) (tl_index s)
      else if w_iter (tl_data s) \<noteq> None \<and> \<not> ok (it_status (Wrapper_ops dops) (tl_data s))
      then it_status (Wrapper_ops dops) (tl_data s)
      else tl_status s)"

definition TwoLevel_ops ::
    "'i iter_ops \<Rightarrow> 'd iter_ops \<Rightarrow> 'd block_function \<Rightarrow> ('i, 'd) TwoLevel iter_ops" where
  "TwoLevel_ops iops dops bf = \<lparr>it_Valid = (\<lambda>s. w_valid (tl_data s)),
     it_SeekToFirst = TL_SeekToFirst iops dops bf, it_SeekToLast = TL_SeekToLast iops dops bf,
     it_Seek = TL_Seek iops dops bf, it_Next = TL_Next iops dops bf, it_Prev = TL_Prev iops dops bf,
     it_key = (\<lambda>s. w_key (tl_data s)), it_value = (\<lambda>s. it_value (Wrapper_ops dops) (tl_data s)),
     it_status = TL_status iops dops\<rparr>"

section \<open>The concatenation of the blocks\<close>

definition block_offset :: "(bytes \<Rightarrow> entries) \<Rightarrow> entries \<Rightarrow> nat \<Rightarrow> nat" where
  "block_offset content ies i = (\<Sum>e \<leftarrow> take i ies. length (content (snd e)))"

definition all_entries :: "(bytes \<Rightarrow> entries) \<Rightarrow> entries \<Rightarrow> entries" where
  "all_entries content ies = concat (map (\<lambda>e. content (snd e)) ies)"

lemma block_offset_Suc:
  "i < length ies \<Longrightarrow> block_offset content ies (Suc i) = block_offset content ies i + length (content (snd (ies ! i)))"
  by (simp add: block_offset_def take_Suc_conv_app_nth)

lemma block_offset_0 [simp]: "block_offset content ies 0 = 0"
  by (simp add: block_offset_def)

lemma block_offset_all: "length ies \<le> i \<Longrightarrow> block_offset content ies i = length (all_entries content ies)"
  by (simp add: block_offset_def all_entries_def length_concat comp_def)

lemma all_entries_split:
  assumes "i < length ies"
  shows "all_entries content ies = all_entries content (take i ies) @ content (snd (ies ! i)) @ all_entries content (drop (Suc i) ies)"
proof -
  have "all_entries content ies = all_entries content (take i ies @ ies ! i # drop (Suc i) ies)"
    by (simp only: id_take_nth_drop [OF assms, symmetric])
  then show ?thesis by (simp add: all_entries_def)
qed

lemma block_offset_length: "block_offset content ies i = length (all_entries content (take i ies))"
  by (simp add: block_offset_def all_entries_def length_concat comp_def)

lemma all_entries_nth:
  assumes "i < length ies" "j < length (content (snd (ies ! i)))"
  shows "all_entries content ies ! (block_offset content ies i + j) = content (snd (ies ! i)) ! j"
    "block_offset content ies i + j < length (all_entries content ies)"
  using all_entries_split [OF assms(1), of content] assms(2)
  by (simp_all add: block_offset_length nth_append)

text \<open>The index keys separate the blocks.\<close>

definition separated :: "comparator \<Rightarrow> (bytes \<Rightarrow> entries) \<Rightarrow> entries \<Rightarrow> bool" where
  "separated c content ies \<longleftrightarrow>
     (\<forall>i < length ies.
        (\<forall>e \<in> set (content (snd (ies ! i))). Compare c (fst e) (fst (ies ! i)) \<le> 0)
        \<and> (\<forall>e \<in> set (all_entries content (drop (Suc i) ies)). Compare c (fst (ies ! i)) (fst e) < 0))"

section \<open>Correctness\<close>

lemma lower_bound_skip:
  "(\<forall>e \<in> set xs. Compare c (fst e) t < 0) \<Longrightarrow> lower_bound c (xs @ ys) t = length xs + lower_bound c ys t"
  by (simp add: lower_bound_def)

lemma lower_bound_stop:
  assumes "lower_bound c xs t < length xs \<or> (\<forall>e \<in> set ys. \<not> Compare c (fst e) t < 0)"
  shows "lower_bound c (xs @ ys) t = lower_bound c xs t"
proof (cases "\<forall>e \<in> set xs. Compare c (fst e) t < 0")
  case True
  then have "lower_bound c xs t = length xs" by (simp add: lower_bound_def takeWhile_eq_all_conv [THEN iffD2])
  with assms have "\<forall>e \<in> set ys. \<not> Compare c (fst e) t < 0" by simp
  then have "takeWhile (\<lambda>e. Compare c (fst e) t < 0) ys = []" by (cases ys) auto
  then have "takeWhile (\<lambda>e. Compare c (fst e) t < 0) (xs @ ys) = xs" using True by simp
  moreover have "takeWhile (\<lambda>e. Compare c (fst e) t < 0) xs = xs" using True by (simp add: takeWhile_eq_all_conv)
  ultimately show ?thesis unfolding lower_bound_def by (simp only:)
next
  case False
  then show ?thesis by (auto simp: lower_bound_def takeWhile_append1)
qed

locale two_level = idx: sorted_iterator c dm iops iat + dat: sorted_iterator c dm dops datt
  for c :: comparator and dm :: "bytes \<Rightarrow> bool"
    and iops :: "'i iter_ops" and iat :: "'i \<Rightarrow> entries \<Rightarrow> nat \<Rightarrow> bool"
    and dops :: "'d iter_ops" and datt :: "'d \<Rightarrow> entries \<Rightarrow> nat \<Rightarrow> bool" +
  assumes le_less: "dm a \<Longrightarrow> dm b \<Longrightarrow> dm t \<Longrightarrow> Compare c a b \<le> 0 \<Longrightarrow> Compare c b t < 0 \<Longrightarrow> Compare c a t < 0"
    and not_less: "dm a \<Longrightarrow> dm b \<Longrightarrow> dm t \<Longrightarrow> \<not> Compare c a t < 0 \<Longrightarrow> Compare c a b < 0 \<Longrightarrow> \<not> Compare c b t < 0"

definition tl_env :: "('d \<Rightarrow> entries \<Rightarrow> nat \<Rightarrow> bool) \<Rightarrow> 'd block_function \<Rightarrow> (bytes \<Rightarrow> entries) \<Rightarrow> entries \<Rightarrow> bool" where
  "tl_env datt bf content ies \<longleftrightarrow> (\<forall>e \<in> set ies. \<exists>d j. bf (snd e) = Some d \<and> datt d (content (snd e)) j)"

definition tl_on where
  "tl_on iops iat dops datt content ies s i j \<longleftrightarrow>
     wrapped iops iat (tl_index s) ies i \<and> i < length ies
     \<and> wrapped dops datt (tl_data s) (content (snd (ies ! i))) j \<and> tl_handle s = snd (ies ! i) \<and> tl_status s = OK"

definition tl_off where
  "tl_off iops iat ies s i \<longleftrightarrow>
     wrapped iops iat (tl_index s) ies i \<and> w_iter (tl_data s) = None \<and> \<not> w_valid (tl_data s) \<and> tl_status s = OK"

definition tl_data_ok where
  "tl_data_ok dops datt content s \<longleftrightarrow>
     tl_status s = OK \<and> (w_iter (tl_data s) = None \<and> \<not> w_valid (tl_data s)
       \<or> (\<exists>j. wrapped dops datt (tl_data s) (content (tl_handle s)) j))"

definition tl_pos where
  "tl_pos iops iat dops datt content ies s p \<longleftrightarrow>
     (\<exists>i j. tl_on iops iat dops datt content ies s i j \<and> j < length (content (snd (ies ! i)))
            \<and> p = block_offset content ies i + j)
     \<or> (\<exists>i. tl_off iops iat ies s i) \<and> p = length (all_entries content ies)"

definition at_two_level where
  "at_two_level c dm iops iat dops datt bf s es p \<longleftrightarrow>
     (\<exists>content ies. tl_env datt bf content ies \<and> es = all_entries content ies \<and> separated c content ies
        \<and> sorted_wrt (\<lambda>a b. Compare c (fst a) (fst b) < 0) es \<and> (\<forall>e \<in> set es. dm (fst e))
        \<and> tl_pos iops iat dops datt content ies s p)"

lemma SkipForward_step:
  "\<not> w_valid (tl_data s) \<Longrightarrow> w_valid (tl_index s) \<Longrightarrow> SkipForward iops dops bf s =
     Option.bind (index_do (it_Next (Wrapper_ops iops)) s) (\<lambda>s.
     Option.bind (InitDataBlock iops dops bf s) (\<lambda>s.
     Option.bind (data_do (it_SeekToFirst (Wrapper_ops dops)) s) (SkipForward iops dops bf)))"
  by (subst SkipForward.simps) simp

lemma SkipBackward_step:
  "\<not> w_valid (tl_data s) \<Longrightarrow> w_valid (tl_index s) \<Longrightarrow> SkipBackward iops dops bf s =
     Option.bind (index_do (it_Prev (Wrapper_ops iops)) s) (\<lambda>s.
     Option.bind (InitDataBlock iops dops bf s) (\<lambda>s.
     Option.bind (data_do (it_SeekToLast (Wrapper_ops dops)) s) (SkipBackward iops dops bf)))"
  by (subst SkipBackward.simps) simp

lemma tl_on_data_ok: "tl_on iops iat dops datt content ies s i j \<Longrightarrow> tl_data_ok dops datt content s"
  unfolding tl_on_def tl_data_ok_def by (elim conjE) (simp, blast)

lemma tl_off_data_ok: "tl_off iops iat ies s i \<Longrightarrow> tl_data_ok dops datt content s"
  by (simp add: tl_off_def tl_data_ok_def)

lemma tl_pos_data_ok: "tl_pos iops iat dops datt content ies s p \<Longrightarrow> tl_data_ok dops datt content s"
  unfolding tl_pos_def using tl_on_data_ok tl_off_data_ok by blast

lemma tl_pos_index: "tl_pos iops iat dops datt content ies s p \<Longrightarrow> \<exists>i. wrapped iops iat (tl_index s) ies i"
  unfolding tl_pos_def tl_on_def tl_off_def by blast

lemma tl_data_ok_index: "tl_data_ok dops datt content (s\<lparr>tl_index := w\<rparr>) = tl_data_ok dops datt content s"
  by (simp add: tl_data_ok_def)

context two_level
begin

lemma iw: "sorted_iterator c dm (Wrapper_ops iops) (wrapped iops iat)"
  by (rule idx.wrapper_sorted)

lemma dw: "sorted_iterator c dm (Wrapper_ops dops) (wrapped dops datt)"
  by (rule dat.wrapper_sorted)

lemma index_valid: "wrapped iops iat w ies i \<Longrightarrow> w_valid w \<longleftrightarrow> i < length ies"
  using sorted_iterator.at_Valid [OF iw] by (simp add: Wrapper_ops_def)

lemma data_valid: "wrapped dops datt w es j \<Longrightarrow> w_valid w \<longleftrightarrow> j < length es"
  using sorted_iterator.at_Valid [OF dw] by (simp add: Wrapper_ops_def)

lemma data_status: "wrapped dops datt w es j \<Longrightarrow> it_status (Wrapper_ops dops) w = OK"
  by (rule sorted_iterator.at_status [OF dw])

lemma data_ok_status:
  assumes "tl_data_ok dops datt content s" "w_iter (tl_data s) \<noteq> None"
  shows "it_status (Wrapper_ops dops) (tl_data s) = OK"
proof -
  obtain j where "wrapped dops datt (tl_data s) (content (tl_handle s)) j"
    using assms by (auto simp: tl_data_ok_def)
  then show ?thesis by (rule data_status)
qed

lemma SetDataIterator_ok:
  assumes "tl_data_ok dops datt content s"
  shows "tl_status (SetDataIterator dops d s) = OK" "tl_index (SetDataIterator dops d s) = tl_index s"
    "tl_handle (SetDataIterator dops d s) = tl_handle s"
    "tl_data (SetDataIterator dops d s) = Wrapper_Set dops (tl_data s) d"
proof -
  have "w_iter (tl_data s) \<noteq> None \<Longrightarrow> it_status (Wrapper_ops dops) (tl_data s) = OK"
    by (rule data_ok_status [OF assms])
  then have "SetDataIterator dops d s = s\<lparr>tl_data := Wrapper_Set dops (tl_data s) d\<rparr>"
    by (simp add: SetDataIterator_def SaveError_def OK_def ok_def)
  with assms show "tl_status (SetDataIterator dops d s) = OK" "tl_index (SetDataIterator dops d s) = tl_index s"
    "tl_handle (SetDataIterator dops d s) = tl_handle s"
    "tl_data (SetDataIterator dops d s) = Wrapper_Set dops (tl_data s) d"
    by (simp_all add: tl_data_ok_def)
qed

lemma Wrapper_Set_wrapped: "datt d es j \<Longrightarrow> wrapped dops datt (Wrapper_Set dops w (Some d)) es j"
  by (simp add: wrapped_def Wrapper_Set_def Wrapper_Update_def)

lemma SetData_off:
  assumes "tl_data_ok dops datt content s" "wrapped iops iat (tl_index s) ies i"
  shows "tl_off iops iat ies (SetDataIterator dops None s) i"
  using assms(2) SetDataIterator_ok [OF assms(1), of None]
  by (simp add: tl_off_def Wrapper_Set_def Wrapper_Update_def)

lemma SetData_off_again: "tl_off iops iat ies s i \<Longrightarrow> tl_off iops iat ies (SetDataIterator dops None s) i"
  using SetData_off [OF tl_off_data_ok [of iops iat ies s i dops datt "\<lambda>_. []"], of ies i] by (simp add: tl_off_def)

lemma InitDataBlock_spec:
  assumes i: "wrapped iops iat (tl_index s) ies i" and d: "tl_data_ok dops datt content s"
    and env: "tl_env datt bf content ies"
  shows "\<exists>s'. InitDataBlock iops dops bf s = Some s' \<and>
    (if i < length ies then \<exists>j. tl_on iops iat dops datt content ies s' i j else tl_off iops iat ies s' i)"
proof (cases "i < length ies")
  case False
  then have "InitDataBlock iops dops bf s = Some (SetDataIterator dops None s)"
    using index_valid [OF i] by (simp add: InitDataBlock_def)
  with False SetData_off [OF d i] show ?thesis by simp
next
  case True
  have v: "it_value (Wrapper_ops iops) (tl_index s) = snd (ies ! i)"
    using sorted_iterator.at_value [OF iw i True] .
  show ?thesis
  proof (cases "w_iter (tl_data s) \<noteq> None \<and> snd (ies ! i) = tl_handle s")
    case same: True
    then have "InitDataBlock iops dops bf s = Some s"
      using index_valid [OF i] True v by (simp add: InitDataBlock_def)
    moreover obtain j where "wrapped dops datt (tl_data s) (content (tl_handle s)) j"
      using d same by (auto simp: tl_data_ok_def)
    ultimately show ?thesis
      using True i same d by (auto simp: tl_on_def tl_data_ok_def)
  next
    case new: False
    obtain x j where x: "bf (snd (ies ! i)) = Some x" "datt x (content (snd (ies ! i))) j"
      using env True unfolding tl_env_def by (meson nth_mem)
    let ?s = "s\<lparr>tl_handle := snd (ies ! i)\<rparr>"
    have st: "w_iter (tl_data s) \<noteq> None \<Longrightarrow> it_status (Wrapper_ops dops) (tl_data s) = OK"
      by (rule data_ok_status [OF d])
    have "InitDataBlock iops dops bf s = Some (SetDataIterator dops (Some x) ?s)"
      using index_valid [OF i] True v new x by (auto simp: InitDataBlock_def)
    moreover have "SetDataIterator dops (Some x) ?s = ?s\<lparr>tl_data := Wrapper_Set dops (tl_data s) (Some x)\<rparr>"
      using st by (simp add: SetDataIterator_def SaveError_def OK_def ok_def)
    moreover have "tl_on iops iat dops datt content ies (?s\<lparr>tl_data := Wrapper_Set dops (tl_data s) (Some x)\<rparr>) i j"
      using True i d Wrapper_Set_wrapped [OF x(2)] by (simp add: tl_on_def tl_data_ok_def)
    ultimately show ?thesis using True by auto
  qed
qed

text \<open>Moving the data iterator inside its block.\<close>

lemma data_do_on:
  assumes on: "tl_on iops iat dops datt content ies s i j"
    and f: "\<exists>w'. f (tl_data s) = Some w' \<and> wrapped dops datt w' (content (snd (ies ! i))) j'"
  shows "\<exists>s'. data_do f s = Some s' \<and> tl_on iops iat dops datt content ies s' i j'"
proof -
  have "w_iter (tl_data s) \<noteq> None" using on by (auto simp: tl_on_def wrapped_def)
  with f on show ?thesis by (auto simp: data_do_def tl_on_def)
qed

lemma data_do_off: "tl_off iops iat ies s i \<Longrightarrow> data_do f s = Some s"
  by (simp add: data_do_def tl_off_def)

lemma tl_on_data: "tl_on iops iat dops datt content ies s i j \<Longrightarrow> wrapped dops datt (tl_data s) (content (snd (ies ! i))) j"
  by (simp add: tl_on_def)

lemma tl_on_index: "tl_on iops iat dops datt content ies s i j \<Longrightarrow> wrapped iops iat (tl_index s) ies i \<and> i < length ies"
  by (simp add: tl_on_def)

lemma data_first: "\<forall>w es j. wrapped dops datt w es j \<longrightarrow>
    (\<exists>w'. it_SeekToFirst (Wrapper_ops dops) w = Some w' \<and> wrapped dops datt w' es 0)"
  using sorted_iterator.at_SeekToFirst [OF dw] by blast

lemma data_last: "\<forall>w es j. wrapped dops datt w es j \<longrightarrow>
    (\<exists>w'. it_SeekToLast (Wrapper_ops dops) w = Some w' \<and> wrapped dops datt w' es (length es - 1))"
  using sorted_iterator.at_SeekToLast [OF dw] by blast

lemma data_seek: "dm t \<Longrightarrow> \<forall>w es j. wrapped dops datt w es j \<longrightarrow>
    (\<exists>w'. it_Seek (Wrapper_ops dops) w t = Some w' \<and> wrapped dops datt w' es (lower_bound c es t))"
  using sorted_iterator.at_Seek [OF dw] by blast

text \<open>Moving the index and entering the block it shows, at the first or at the last entry.\<close>

lemma enter:
  assumes f: "f (tl_index s) = Some w'" "wrapped iops iat w' ies i" and d: "tl_data_ok dops datt content s"
    and env: "tl_env datt bf content ies"
    and g: "\<forall>w es j. wrapped dops datt w es j \<longrightarrow> (\<exists>w'. g w = Some w' \<and> wrapped dops datt w' es (h es))"
  shows "\<exists>s'. Option.bind (index_do f s) (\<lambda>s. Option.bind (InitDataBlock iops dops bf s) (\<lambda>s. Option.bind (data_do g s) k)) = k s'
    \<and> (if i < length ies then tl_on iops iat dops datt content ies s' i (h (content (snd (ies ! i)))) else tl_off iops iat ies s' i)"
proof -
  let ?s = "s\<lparr>tl_index := w'\<rparr>"
  have "index_do f s = Some ?s" using f(1) by (simp add: index_do_def)
  moreover obtain s1 where s1: "InitDataBlock iops dops bf ?s = Some s1"
      "if i < length ies then \<exists>j. tl_on iops iat dops datt content ies s1 i j else tl_off iops iat ies s1 i"
    using InitDataBlock_spec [of ?s ies i content bf] f(2) d env by (auto simp: tl_data_ok_index)
  moreover obtain s2 where "data_do g s1 = Some s2"
      "if i < length ies then tl_on iops iat dops datt content ies s2 i (h (content (snd (ies ! i)))) else tl_off iops iat ies s2 i"
  proof (cases "i < length ies")
    case True
    with s1 obtain j where on: "tl_on iops iat dops datt content ies s1 i j" by auto
    from data_do_on [OF on, of g "h (content (snd (ies ! i)))"] g tl_on_data [OF on] True that
    show ?thesis by auto
  next
    case False
    then have "tl_off iops iat ies s1 i" using s1 by simp
    from data_do_off [OF this, of g] this False that show ?thesis by simp
  qed
  ultimately show ?thesis by auto
qed

lemma SkipForward_on:
  assumes env: "tl_env datt bf content ies"
  shows "tl_on iops iat dops datt content ies s i j \<Longrightarrow>
    \<exists>s'. SkipForward iops dops bf s = Some s' \<and> tl_pos iops iat dops datt content ies s' (block_offset content ies i + j)"
proof (induction "length ies - i" arbitrary: s i j rule: less_induct)
  case less
  note on = less.prems
  have i: "i < length ies" and jl: "j \<le> length (content (snd (ies ! i)))"
    using tl_on_index [OF on] sorted_iterator.at_le [OF dw tl_on_data [OF on]] by auto
  show ?case
  proof (cases "j < length (content (snd (ies ! i)))")
    case True
    then have "SkipForward iops dops bf s = Some s"
      using data_valid [OF tl_on_data [OF on]] tl_on_data [OF on] by (subst SkipForward.simps) (auto simp: wrapped_def)
    moreover have "tl_pos iops iat dops datt content ies s (block_offset content ies i + j)"
      unfolding tl_pos_def using on True by blast
    ultimately show ?thesis by blast
  next
    case False
    with jl have j: "j = length (content (snd (ies ! i)))" by simp
    have nv: "\<not> w_valid (tl_data s)" "w_valid (tl_index s)"
      using data_valid [OF tl_on_data [OF on]] index_valid [of "tl_index s" ies i] tl_on_index [OF on] False by auto
    obtain w' where w': "it_Next (Wrapper_ops iops) (tl_index s) = Some w'" "wrapped iops iat w' ies (Suc i)"
      using sorted_iterator.at_Next [OF iw] tl_on_index [OF on] by blast
    obtain s' where s': "SkipForward iops dops bf s = SkipForward iops dops bf s'"
        "if Suc i < length ies then tl_on iops iat dops datt content ies s' (Suc i) 0 else tl_off iops iat ies s' (Suc i)"
      using enter [where f = "it_Next (Wrapper_ops iops)" and s = s and g = "it_SeekToFirst (Wrapper_ops dops)"
          and h = "\<lambda>_. 0" and k = "SkipForward iops dops bf" and content = content, OF w' tl_on_data_ok [OF on] env data_first]
        SkipForward_step [of s iops dops bf] nv by auto
    have off: "block_offset content ies i + j = block_offset content ies (Suc i)"
      using block_offset_Suc [OF i] j by simp
    show ?thesis
    proof (cases "Suc i < length ies")
      case True
      with s' less.hyps [of "Suc i" s' 0] off show ?thesis by simp
    next
      case False
      with s' have o: "tl_off iops iat ies s' (Suc i)" by simp
      then have nv': "\<not> w_valid (tl_data s')" "\<not> w_valid (tl_index s')"
        using index_valid [of "tl_index s'" ies "Suc i"] False by (auto simp: tl_off_def)
      then have "SkipForward iops dops bf s' = Some (SetDataIterator dops None s')"
        by (subst SkipForward.simps) simp
      moreover have "tl_off iops iat ies (SetDataIterator dops None s') (Suc i)"
        by (rule SetData_off_again [OF o])
      moreover have "block_offset content ies (Suc i) = length (all_entries content ies)"
        using block_offset_all [of ies "Suc i" content] False by simp
      ultimately show ?thesis
        using s'(1) off unfolding tl_pos_def by auto
    qed
  qed
qed

lemma SkipForward_off:
  assumes o: "tl_off iops iat ies s (length ies)"
  shows "\<exists>s'. SkipForward iops dops bf s = Some s'
    \<and> tl_pos iops iat dops datt content ies s' (length (all_entries content ies))"
proof -
  have "\<not> w_valid (tl_index s)" "\<not> w_valid (tl_data s)"
    using index_valid [of "tl_index s" ies "length ies"] o by (auto simp: tl_off_def)
  then have "SkipForward iops dops bf s = Some (SetDataIterator dops None s)"
    by (subst SkipForward.simps) simp
  moreover have "tl_off iops iat ies (SetDataIterator dops None s) (length ies)"
    by (rule SetData_off_again [OF o])
  ultimately show ?thesis unfolding tl_pos_def by blast
qed

lemma SkipBackward_off:
  assumes o: "tl_off iops iat ies s (length ies)"
  shows "\<exists>s'. SkipBackward iops dops bf s = Some s'
    \<and> tl_pos iops iat dops datt content ies s' (length (all_entries content ies))"
proof -
  have "\<not> w_valid (tl_index s)" "\<not> w_valid (tl_data s)"
    using index_valid [of "tl_index s" ies "length ies"] o by (auto simp: tl_off_def)
  then have "SkipBackward iops dops bf s = Some (SetDataIterator dops None s)"
    by (subst SkipBackward.simps) simp
  moreover have "tl_off iops iat ies (SetDataIterator dops None s) (length ies)"
    by (rule SetData_off_again [OF o])
  ultimately show ?thesis unfolding tl_pos_def by blast
qed

text \<open>Backwards, the exhausted block hands over to the last entry before it.\<close>

lemma SkipBackward_on:
  assumes env: "tl_env datt bf content ies"
  shows "tl_on iops iat dops datt content ies s i (length (content (snd (ies ! i)))) \<Longrightarrow>
    \<exists>s'. SkipBackward iops dops bf s = Some s' \<and>
      tl_pos iops iat dops datt content ies s'
        (if block_offset content ies i = 0 then length (all_entries content ies) else block_offset content ies i - 1)"
proof (induction i arbitrary: s)
  case 0
  note on = "0"
  have nv: "\<not> w_valid (tl_data s)" "w_valid (tl_index s)" and i: "0 < length ies"
    using data_valid [OF tl_on_data [OF on]] index_valid [of "tl_index s" ies 0] tl_on_index [OF on] by auto
  obtain w' where w': "it_Prev (Wrapper_ops iops) (tl_index s) = Some w'" "wrapped iops iat w' ies (length ies)"
    using sorted_iterator.at_Prev [OF iw, of "tl_index s" ies 0] tl_on_index [OF on] by auto
  obtain s' where s': "SkipBackward iops dops bf s = SkipBackward iops dops bf s'" "tl_off iops iat ies s' (length ies)"
    using enter [where f = "it_Prev (Wrapper_ops iops)" and s = s and g = "it_SeekToLast (Wrapper_ops dops)"
        and h = "\<lambda>es. length es - 1" and k = "SkipBackward iops dops bf" and content = content, OF w' tl_on_data_ok [OF on] env data_last]
      SkipBackward_step [of s iops dops bf] nv by auto
  from SkipBackward_off [OF s'(2)] s'(1) show ?case by simp
next
  case (Suc i)
  note on = Suc.prems
  have nv: "\<not> w_valid (tl_data s)" "w_valid (tl_index s)" and i: "Suc i < length ies"
    using data_valid [OF tl_on_data [OF on]] index_valid [of "tl_index s" ies "Suc i"] tl_on_index [OF on] by auto
  obtain w' where w': "it_Prev (Wrapper_ops iops) (tl_index s) = Some w'" "wrapped iops iat w' ies i"
    using sorted_iterator.at_Prev [OF iw, of "tl_index s" ies "Suc i"] tl_on_index [OF on] by auto
  let ?B = "content (snd (ies ! i))"
  obtain s' where s': "SkipBackward iops dops bf s = SkipBackward iops dops bf s'"
      "tl_on iops iat dops datt content ies s' i (length ?B - 1)"
    using enter [where f = "it_Prev (Wrapper_ops iops)" and s = s and g = "it_SeekToLast (Wrapper_ops dops)"
        and h = "\<lambda>es. length es - 1" and k = "SkipBackward iops dops bf" and content = content, OF w' tl_on_data_ok [OF on] env data_last]
      SkipBackward_step [of s iops dops bf] nv i by auto
  have off: "block_offset content ies (Suc i) = block_offset content ies i + length ?B"
    using block_offset_Suc [of i ies content] i by simp
  show ?case
  proof (cases "?B = []")
    case True
    with s'(2) have "tl_on iops iat dops datt content ies s' i (length ?B)" by simp
    moreover have "block_offset content ies (Suc i) = block_offset content ies i" using off True by simp
    ultimately show ?thesis using Suc.IH s'(1) by (simp only:)
  next
    case False
    then have "SkipBackward iops dops bf s' = Some s'"
      using data_valid [OF tl_on_data [OF s'(2)]] tl_on_data [OF s'(2)]
      by (subst SkipBackward.simps) (auto simp: wrapped_def)
    moreover have "tl_pos iops iat dops datt content ies s' (block_offset content ies i + (length ?B - 1))"
      unfolding tl_pos_def using s'(2) False by (metis diff_less length_greater_0_conv zero_less_one)
    moreover have "block_offset content ies i + (length ?B - 1) = block_offset content ies (Suc i) - 1"
      "block_offset content ies (Suc i) \<noteq> 0"
      using off False by (cases ?B; simp)+
    ultimately show ?thesis using s'(1) by simp
  qed
qed

lemma tl_on_valid: "tl_on iops iat dops datt content ies s i j \<Longrightarrow> w_valid (tl_data s) \<longleftrightarrow> j < length (content (snd (ies ! i)))"
  using data_valid [OF tl_on_data] by blast

lemma tl_pos_valid:
  assumes "tl_pos iops iat dops datt content ies s p"
  shows "p \<le> length (all_entries content ies)" "w_valid (tl_data s) \<longleftrightarrow> p < length (all_entries content ies)"
proof -
  have "p \<le> length (all_entries content ies) \<and> (w_valid (tl_data s) \<longleftrightarrow> p < length (all_entries content ies))"
    using assms unfolding tl_pos_def
  proof (elim disjE exE conjE)
    fix i j assume on: "tl_on iops iat dops datt content ies s i j" and j: "j < length (content (snd (ies ! i)))"
      and p: "p = block_offset content ies i + j"
    then show ?thesis
      using tl_on_valid [OF on] all_entries_nth(2) [of i ies j content] tl_on_index [OF on] by simp
  next
    fix i assume "p = length (all_entries content ies)" "tl_off iops iat ies s i"
    then show ?thesis by (simp add: tl_off_def)
  qed
  then show "p \<le> length (all_entries content ies)" "w_valid (tl_data s) \<longleftrightarrow> p < length (all_entries content ies)"
    by simp_all
qed

lemma tl_pos_on:
  assumes "tl_pos iops iat dops datt content ies s p" "p < length (all_entries content ies)"
  obtains i j where "tl_on iops iat dops datt content ies s i j" "j < length (content (snd (ies ! i)))"
    "i < length ies" "p = block_offset content ies i + j" "all_entries content ies ! p = content (snd (ies ! i)) ! j"
  using assms unfolding tl_pos_def
proof (elim disjE exE conjE)
  fix i j assume on: "tl_on iops iat dops datt content ies s i j" and j: "j < length (content (snd (ies ! i)))"
    and p: "p = block_offset content ies i + j"
  have i: "i < length ies" using tl_on_index [OF on] by simp
  from that [OF on j i p] show thesis
    using all_entries_nth(1) [where content = content, OF i j] by (simp add: p)
qed simp

lemma tl_pos_status:
  assumes "tl_pos iops iat dops datt content ies s p"
  shows "TL_status iops dops s = OK"
proof -
  obtain i where "wrapped iops iat (tl_index s) ies i" using tl_pos_index [OF assms] by blast
  then have "it_status (Wrapper_ops iops) (tl_index s) = OK" by (rule sorted_iterator.at_status [OF iw])
  moreover note d = tl_pos_data_ok [OF assms]
  ultimately show ?thesis
    using data_ok_status [OF d] d by (auto simp: TL_status_def OK_def ok_def tl_data_ok_def)
qed

lemma TL_SeekToFirst_pos:
  assumes p: "tl_pos iops iat dops datt content ies s p" and env: "tl_env datt bf content ies"
  shows "\<exists>s'. TL_SeekToFirst iops dops bf s = Some s' \<and> tl_pos iops iat dops datt content ies s' 0"
proof -
  obtain w' where w': "it_SeekToFirst (Wrapper_ops iops) (tl_index s) = Some w'" "wrapped iops iat w' ies 0"
    using sorted_iterator.at_SeekToFirst [OF iw] tl_pos_index [OF p] by blast
  obtain s' where s': "TL_SeekToFirst iops dops bf s = SkipForward iops dops bf s'"
      "if 0 < length ies then tl_on iops iat dops datt content ies s' 0 0 else tl_off iops iat ies s' 0"
    using enter [where f = "it_SeekToFirst (Wrapper_ops iops)" and s = s and g = "it_SeekToFirst (Wrapper_ops dops)"
        and h = "\<lambda>_. 0" and k = "SkipForward iops dops bf" and content = content, OF w' tl_pos_data_ok [OF p] env data_first]
    unfolding TL_SeekToFirst_def by blast
  show ?thesis
  proof (cases "ies = []")
    case True
    with s' SkipForward_off [of ies s' bf content] show ?thesis by (simp add: all_entries_def)
  next
    case False
    with s' SkipForward_on [OF env, of s' 0 0] show ?thesis by simp
  qed
qed

lemma SkipBackward_at:
  assumes env: "tl_env datt bf content ies"
    and on: "tl_on iops iat dops datt content ies s i j" and j: "j < length (content (snd (ies ! i)))"
  shows "SkipBackward iops dops bf s = Some s" "tl_pos iops iat dops datt content ies s (block_offset content ies i + j)"
proof -
  show "SkipBackward iops dops bf s = Some s"
    using tl_on_valid [OF on] j tl_on_data [OF on] by (subst SkipBackward.simps) (auto simp: wrapped_def)
  show "tl_pos iops iat dops datt content ies s (block_offset content ies i + j)"
    unfolding tl_pos_def using on j by blast
qed

lemma TL_SeekToLast_pos:
  assumes p: "tl_pos iops iat dops datt content ies s p" and env: "tl_env datt bf content ies"
  shows "\<exists>s'. TL_SeekToLast iops dops bf s = Some s'
    \<and> tl_pos iops iat dops datt content ies s' (length (all_entries content ies) - 1)"
proof -
  let ?i = "length ies - 1"
  obtain w' where w': "it_SeekToLast (Wrapper_ops iops) (tl_index s) = Some w'" "wrapped iops iat w' ies ?i"
    using sorted_iterator.at_SeekToLast [OF iw] tl_pos_index [OF p] by blast
  obtain s' where s': "TL_SeekToLast iops dops bf s = SkipBackward iops dops bf s'"
      "if ?i < length ies then tl_on iops iat dops datt content ies s' ?i (length (content (snd (ies ! ?i))) - 1)
       else tl_off iops iat ies s' ?i"
    using enter [where f = "it_SeekToLast (Wrapper_ops iops)" and s = s and g = "it_SeekToLast (Wrapper_ops dops)"
        and h = "\<lambda>es. length es - 1" and k = "SkipBackward iops dops bf" and content = content, OF w' tl_pos_data_ok [OF p] env data_last]
    unfolding TL_SeekToLast_def by blast
  show ?thesis
  proof (cases "ies = []")
    case True
    with s' SkipBackward_off [of ies s' bf content] show ?thesis by (simp add: all_entries_def)
  next
    case False
    let ?B = "content (snd (ies ! ?i))"
    from False have i: "?i < length ies" by simp
    with s' have on: "tl_on iops iat dops datt content ies s' ?i (length ?B - 1)" by simp
    have total: "block_offset content ies ?i + length ?B = length (all_entries content ies)"
      using block_offset_Suc [OF i, of content] block_offset_all [of ies "Suc ?i" content] False by simp
    show ?thesis
    proof (cases "?B = []")
      case True
      with on SkipBackward_on [OF env, of s' ?i] s'(1) total show ?thesis
        by (cases "block_offset content ies ?i = 0") simp_all
    next
      case nB: False
      then have "length ?B - 1 < length ?B" "block_offset content ies ?i + (length ?B - 1) = length (all_entries content ies) - 1"
        using total by (cases ?B; simp)+
      with SkipBackward_at [OF env on] s'(1) show ?thesis by simp
    qed
  qed
qed

lemma separated_bounds:
  assumes sep: "separated c content ies" and d: "\<forall>e \<in> set (all_entries content ies). dm (fst e)" "\<forall>e \<in> set ies. dm (fst e)" "dm t"
    and i: "i < length ies"
  shows "Compare c (fst (ies ! i)) t < 0 \<Longrightarrow> \<forall>e \<in> set (content (snd (ies ! i))). Compare c (fst e) t < 0"
    and "\<not> Compare c (fst (ies ! i)) t < 0 \<Longrightarrow> \<forall>e \<in> set (all_entries content (drop (Suc i) ies)). \<not> Compare c (fst e) t < 0"
proof -
  have s: "set (all_entries content ies) = set (all_entries content (take i ies)) \<union> set (content (snd (ies ! i)))
      \<union> set (all_entries content (drop (Suc i) ies))"
    using all_entries_split [OF i, of content] by auto
  have k: "dm (fst (ies ! i))" using d(2) i by simp
  show "\<forall>e \<in> set (content (snd (ies ! i))). Compare c (fst e) t < 0" if "Compare c (fst (ies ! i)) t < 0"
    using sep i s d(1) k that le_less [OF _ k d(3)] unfolding separated_def by blast
  show "\<forall>e \<in> set (all_entries content (drop (Suc i) ies)). \<not> Compare c (fst e) t < 0" if "\<not> Compare c (fst (ies ! i)) t < 0"
    using sep i s d(1) k that not_less [OF k _ d(3)] unfolding separated_def by blast
qed

lemma TL_Seek_pos:
  assumes p: "tl_pos iops iat dops datt content ies s p" and env: "tl_env datt bf content ies"
    and sep: "separated c content ies" and d: "\<forall>e \<in> set (all_entries content ies). dm (fst e)" "dm t"
  shows "\<exists>s'. TL_Seek iops dops bf s t = Some s'
    \<and> tl_pos iops iat dops datt content ies s' (lower_bound c (all_entries content ies) t)"
proof -
  obtain i0 where i0: "wrapped iops iat (tl_index s) ies i0" using tl_pos_index [OF p] by blast
  have di: "\<forall>e \<in> set ies. dm (fst e)" using sorted_iterator.at_dom [OF iw i0] by blast
  define i where "i = lower_bound c ies t"
  obtain w' where w': "it_Seek (Wrapper_ops iops) (tl_index s) t = Some w'" "wrapped iops iat w' ies i"
    using sorted_iterator.at_Seek [OF iw i0 d(2)] by (auto simp: i_def)
  obtain s' where s': "TL_Seek iops dops bf s t = SkipForward iops dops bf s'"
      "if i < length ies then tl_on iops iat dops datt content ies s' i (lower_bound c (content (snd (ies ! i))) t)
       else tl_off iops iat ies s' i"
    using enter [where f = "\<lambda>w. it_Seek (Wrapper_ops iops) w t" and s = s and g = "\<lambda>w. it_Seek (Wrapper_ops dops) w t"
        and h = "\<lambda>es. lower_bound c es t" and k = "SkipForward iops dops bf" and content = content,
        OF w' tl_pos_data_ok [OF p] env data_seek [OF d(2)]]
    unfolding TL_Seek_def by blast
  note bounds = separated_bounds [OF sep d(1) di d(2)]
  have before: "\<forall>e \<in> set (all_entries content (take i ies)). Compare c (fst e) t < 0"
  proof
    fix e assume "e \<in> set (all_entries content (take i ies))"
    then obtain x where "x \<in> set (take i ies)" "e \<in> set (content (snd x))" by (auto simp: all_entries_def)
    from this(1) obtain k where "k < i" "k < length ies" "x = ies ! k"
      by (auto simp: in_set_conv_nth)
    with \<open>e \<in> set (content (snd x))\<close> have "k < i" "k < length ies" "e \<in> set (content (snd (ies ! k)))"
      by simp_all
    with bounds(1) [of k] lower_bound_less [of k c ies t] show "Compare c (fst e) t < 0" by (simp add: i_def)
  qed
  show ?thesis
  proof (cases "i < length ies")
    case False
    then have "i = length ies" using lower_bound_le [of c ies t] by (simp add: i_def)
    moreover from this before have "lower_bound c (all_entries content ies) t = length (all_entries content ies)"
      by (intro lower_boundI) auto
    ultimately show ?thesis
      using s' SkipForward_off [of ies s' bf content] by simp
  next
    case True
    have "lower_bound c (content (snd (ies ! i)) @ all_entries content (drop (Suc i) ies)) t
        = lower_bound c (content (snd (ies ! i))) t"
      using bounds(2) [OF True] lower_bound_ge [of c ies t] True by (intro lower_bound_stop) (simp add: i_def)
    then have "lower_bound c (all_entries content ies) t
        = block_offset content ies i + lower_bound c (content (snd (ies ! i))) t"
      using lower_bound_skip [OF before] by (simp add: all_entries_split [OF True, of content] block_offset_length)
    with s' True SkipForward_on [OF env, of s' i] show ?thesis by simp
  qed
qed

lemma TL_Next_pos:
  assumes p: "tl_pos iops iat dops datt content ies s p" and env: "tl_env datt bf content ies"
    and l: "p < length (all_entries content ies)"
  shows "\<exists>s'. TL_Next iops dops bf s = Some s' \<and> tl_pos iops iat dops datt content ies s' (Suc p)"
proof -
  obtain i j where on: "tl_on iops iat dops datt content ies s i j" and j: "j < length (content (snd (ies ! i)))"
    and pe: "p = block_offset content ies i + j"
    using tl_pos_on [OF p l] by metis
  have "\<exists>w'. it_Next (Wrapper_ops dops) (tl_data s) = Some w' \<and> wrapped dops datt w' (content (snd (ies ! i))) (Suc j)"
    by (rule sorted_iterator.at_Next [OF dw tl_on_data [OF on] j])
  from data_do_on [where f = "it_Next (Wrapper_ops dops)" and j' = "Suc j" and content = content, OF on this]
  obtain s1 where "data_do (it_Next (Wrapper_ops dops)) s = Some s1" "tl_on iops iat dops datt content ies s1 i (Suc j)"
    by blast
  with SkipForward_on [OF env this(2)] pe show ?thesis by (simp add: TL_Next_def)
qed

lemma TL_Prev_pos:
  assumes p: "tl_pos iops iat dops datt content ies s p" and env: "tl_env datt bf content ies"
    and l: "p < length (all_entries content ies)"
  shows "\<exists>s'. TL_Prev iops dops bf s = Some s'
    \<and> tl_pos iops iat dops datt content ies s' (if p = 0 then length (all_entries content ies) else p - 1)"
proof -
  obtain i j where on: "tl_on iops iat dops datt content ies s i j" and j: "j < length (content (snd (ies ! i)))"
    and pe: "p = block_offset content ies i + j"
    using tl_pos_on [OF p l] by metis
  let ?j' = "if j = 0 then length (content (snd (ies ! i))) else j - 1"
  have "\<exists>w'. it_Prev (Wrapper_ops dops) (tl_data s) = Some w' \<and> wrapped dops datt w' (content (snd (ies ! i))) ?j'"
    by (rule sorted_iterator.at_Prev [OF dw tl_on_data [OF on] j])
  from data_do_on [where f = "it_Prev (Wrapper_ops dops)" and j' = ?j' and content = content, OF on this]
  obtain s1 where s1: "data_do (it_Prev (Wrapper_ops dops)) s = Some s1" "tl_on iops iat dops datt content ies s1 i ?j'"
    by blast
  show ?thesis
  proof (cases "j = 0")
    case True
    then have p0: "p = block_offset content ies i" using pe by simp
    show ?thesis
      unfolding p0 using True s1 SkipBackward_on [OF env, of s1 i] by (simp add: TL_Prev_def split del: if_split)
  next
    case False
    with s1 SkipBackward_at [OF env, of s1 i "j - 1"] j pe show ?thesis by (simp add: TL_Prev_def)
  qed
qed

text \<open>The whole is a sorted cursor over the concatenated blocks.\<close>

lemma at_two_levelI:
  assumes "tl_env datt bf content ies" "es = all_entries content ies" "separated c content ies"
    "sorted_wrt (\<lambda>a b. Compare c (fst a) (fst b) < 0) es" "\<forall>e \<in> set es. dm (fst e)"
    "tl_pos iops iat dops datt content ies s p"
  shows "at_two_level c dm iops iat dops datt bf s es p"
  using assms unfolding at_two_level_def by blast

lemma two_level_sorted:
  "sorted_iterator c dm (TwoLevel_ops iops dops bf) (at_two_level c dm iops iat dops datt bf)"
proof (unfold_locales, goal_cases)
  case (1 s es p)
  then obtain content ies where "es = all_entries content ies" "tl_pos iops iat dops datt content ies s p"
    unfolding at_two_level_def by blast
  with tl_pos_valid(2) show ?case by (simp add: TwoLevel_ops_def)
next
  case (2 s es p)
  then obtain content ies where "es = all_entries content ies" "tl_pos iops iat dops datt content ies s p"
    unfolding at_two_level_def by blast
  with tl_pos_valid(1) show ?case by simp
next
  case (3 s es p)
  then obtain content ies where e: "es = all_entries content ies" and pos: "tl_pos iops iat dops datt content ies s p"
    unfolding at_two_level_def by blast
  from tl_pos_on [OF pos] 3(2) e obtain i j where "tl_on iops iat dops datt content ies s i j"
      "j < length (content (snd (ies ! i)))" "es ! p = content (snd (ies ! i)) ! j" by metis
  with sorted_iterator.at_key [OF dw tl_on_data] show ?case by (simp add: TwoLevel_ops_def Wrapper_ops_def)
next
  case (4 s es p)
  then obtain content ies where e: "es = all_entries content ies" and pos: "tl_pos iops iat dops datt content ies s p"
    unfolding at_two_level_def by blast
  from tl_pos_on [OF pos] 4(2) e obtain i j where "tl_on iops iat dops datt content ies s i j"
      "j < length (content (snd (ies ! i)))" "es ! p = content (snd (ies ! i)) ! j" by metis
  with sorted_iterator.at_value [OF dw tl_on_data] show ?case by (simp add: TwoLevel_ops_def)
next
  case (5 s es p)
  then obtain content ies where "tl_pos iops iat dops datt content ies s p"
    unfolding at_two_level_def by blast
  from tl_pos_status [OF this] show ?case by (simp add: TwoLevel_ops_def)
next
  case (6 s es p e)
  then show ?case unfolding at_two_level_def by blast
next
  case (7 s es p)
  then show ?case unfolding at_two_level_def by blast
next
  case (8 s es p)
  then obtain content ies where A: "tl_env datt bf content ies" "es = all_entries content ies" "separated c content ies"
    "sorted_wrt (\<lambda>a b. Compare c (fst a) (fst b) < 0) es" "\<forall>e \<in> set es. dm (fst e)"
    and pos: "tl_pos iops iat dops datt content ies s p"
    unfolding at_two_level_def by blast
  from TL_SeekToFirst_pos [OF pos A(1)] at_two_levelI [OF A] A(2) show ?case
    by (simp add: TwoLevel_ops_def) blast
next
  case (9 s es p)
  then obtain content ies where A: "tl_env datt bf content ies" "es = all_entries content ies" "separated c content ies"
    "sorted_wrt (\<lambda>a b. Compare c (fst a) (fst b) < 0) es" "\<forall>e \<in> set es. dm (fst e)"
    and pos: "tl_pos iops iat dops datt content ies s p"
    unfolding at_two_level_def by blast
  from TL_SeekToLast_pos [OF pos A(1)] at_two_levelI [OF A] A(2) show ?case
    by (simp add: TwoLevel_ops_def) blast
next
  case (10 s es p t)
  then obtain content ies where A: "tl_env datt bf content ies" "es = all_entries content ies" "separated c content ies"
    "sorted_wrt (\<lambda>a b. Compare c (fst a) (fst b) < 0) es" "\<forall>e \<in> set es. dm (fst e)"
    and pos: "tl_pos iops iat dops datt content ies s p"
    unfolding at_two_level_def by blast
  from TL_Seek_pos [OF pos A(1,3) _ 10(2)] at_two_levelI [OF A] A(2,5) show ?case
    by (simp add: TwoLevel_ops_def) blast
next
  case (11 s es p)
  then obtain content ies where A: "tl_env datt bf content ies" "es = all_entries content ies" "separated c content ies"
    "sorted_wrt (\<lambda>a b. Compare c (fst a) (fst b) < 0) es" "\<forall>e \<in> set es. dm (fst e)"
    and pos: "tl_pos iops iat dops datt content ies s p"
    unfolding at_two_level_def by blast
  from TL_Next_pos [OF pos A(1)] at_two_levelI [OF A] A(2) 11(2) show ?case
    by (simp add: TwoLevel_ops_def) blast
next
  case (12 s es p)
  then obtain content ies where A: "tl_env datt bf content ies" "es = all_entries content ies" "separated c content ies"
    "sorted_wrt (\<lambda>a b. Compare c (fst a) (fst b) < 0) es" "\<forall>e \<in> set es. dm (fst e)"
    and pos: "tl_pos iops iat dops datt content ies s p"
    unfolding at_two_level_def by blast
  from TL_Prev_pos [OF pos A(1)] 12(2) A(2) obtain s' where s': "TL_Prev iops dops bf s = Some s'"
      "tl_pos iops iat dops datt content ies s' (if p = 0 then length es else p - 1)" by auto
  with at_two_levelI [OF A s'(2)] show ?case
    by (simp add: TwoLevel_ops_def split del: if_split)
qed

text \<open>A freshly made iterator stands at the end.\<close>

lemma NewTwoLevelIterator_at:
  assumes "iat i ies j" "tl_env datt bf content ies" "es = all_entries content ies" "separated c content ies"
    "sorted_wrt (\<lambda>a b. Compare c (fst a) (fst b) < 0) es" "\<forall>e \<in> set es. dm (fst e)"
  shows "at_two_level c dm iops iat dops datt bf (NewTwoLevelIterator iops i) es (length es)"
proof -
  have "tl_off iops iat ies (NewTwoLevelIterator iops i :: ('i, 'd) TwoLevel) j"
    using Wrapper_new_wrapped [of iat i ies j, OF assms(1)]
    by (simp add: tl_off_def NewTwoLevelIterator_def Wrapper_empty_def)
  then show ?thesis
    using assms by (intro at_two_levelI [OF assms(2-6)]) (auto simp: tl_pos_def)
qed

end

sublocale two_level \<subseteq> tl: sorted_iterator c dm "TwoLevel_ops iops dops bf" "at_two_level c dm iops iat dops datt bf" for bf
  by (rule two_level_sorted)

end
