(* ===== verification/Caches.thy ===== *)
theory Caches
  imports Comparators Hashes "HOL-Library.Multiset"
begin

text \<open>
  The sharded-free LRU cache (util/cache.cc). Entries live in a store keyed by their address; an
  address is never handed out twice, so it is also the identity of a handle. A hash chain (the
  \<open>next_hash\<close> pointers from a bucket head) is the list of its addresses, and the two circular
  lists \<open>lru_\<close> and \<open>in_use_\<close> are the lists of the addresses after their heads. Reference counts
  are naturals: they stay below the number of handles, which fits 32 bits. Calls of deleters are
  logged in order.
\<close>

section \<open>Entries and the handle table\<close>

record ('v, 'd) LRUEntry =
  le_value :: 'v
  le_deleter :: "'d option"
  le_charge :: nat
  le_key :: bytes
  le_in_cache :: bool
  le_refs :: nat
  le_hash :: u32

type_synonym ('v, 'd) store = "nat \<rightharpoonup> ('v, 'd) LRUEntry"

record HandleTable =
  ht_list :: "nat list list"
  ht_length :: nat
  ht_count :: nat

definition ht_bucket :: "u32 \<Rightarrow> nat \<Rightarrow> nat" where
  "ht_bucket h len = unat (h AND (of_nat len - 1))"

definition ht_matches :: "('v, 'd) store \<Rightarrow> bytes \<Rightarrow> u32 \<Rightarrow> nat \<Rightarrow> bool" where
  "ht_matches st key h i \<longleftrightarrow> (case st i of None \<Rightarrow> False | Some e \<Rightarrow> le_hash e = h \<and> Slice_eq key (le_key e))"

text \<open>\<open>FindPointer\<close>: the bucket, and the place in its chain of the first match or its end.\<close>

definition FindPointer :: "('v, 'd) store \<Rightarrow> HandleTable \<Rightarrow> bytes \<Rightarrow> u32 \<Rightarrow> nat \<times> nat" where
  "FindPointer st t key h =
     (let b = ht_bucket h (ht_length t)
      in (b, length (takeWhile (\<lambda>i. \<not> ht_matches st key h i) (ht_list t ! b))))"

definition HT_at :: "HandleTable \<Rightarrow> nat \<times> nat \<Rightarrow> nat option" where
  "HT_at t ptr = (let chain = ht_list t ! fst ptr in if snd ptr < length chain then Some (chain ! snd ptr) else None)"

definition HT_Lookup :: "('v, 'd) store \<Rightarrow> HandleTable \<Rightarrow> bytes \<Rightarrow> u32 \<Rightarrow> nat option" where
  "HT_Lookup st t key h = HT_at t (FindPointer st t key h)"

text \<open>
  \<open>Resize\<close> doubles the length from 4; a length of 0 cannot occur, the guard is there for the
  termination of the loop.
\<close>

function ResizeLength :: "nat \<Rightarrow> nat \<Rightarrow> nat" where
  "ResizeLength new_length n = (if 0 < new_length \<and> new_length < n then ResizeLength (new_length * 2) n else new_length)"
  by pat_completeness auto
termination
  by (relation "measure (\<lambda>(l, n). n - l)") auto

declare ResizeLength.simps [simp del]

definition ResizeMove :: "('v, 'd) store \<Rightarrow> nat \<Rightarrow> nat \<Rightarrow> nat list list \<Rightarrow> nat list list" where
  "ResizeMove st new_length i new_list =
     (let b = ht_bucket (le_hash (the (st i))) new_length in new_list[b := i # new_list ! b])"

definition Resize :: "('v, 'd) store \<Rightarrow> HandleTable \<Rightarrow> HandleTable" where
  "Resize st t =
     (let new_length = ResizeLength 4 (ht_count t);
          new_list = fold (\<lambda>chain nl. fold (ResizeMove st new_length) chain nl) (ht_list t) (replicate new_length [])
      in t\<lparr>ht_list := new_list, ht_length := new_length\<rparr>)"

definition HandleTable_new :: HandleTable where
  "HandleTable_new = Resize (Map.empty :: (unit, unit) store) \<lparr>ht_list = [], ht_length = 0, ht_count = 0\<rparr>"

definition HT_Insert :: "('v, 'd) store \<Rightarrow> HandleTable \<Rightarrow> nat \<Rightarrow> nat option \<times> HandleTable" where
  "HT_Insert st t i =
     (let e = the (st i);
          ptr = FindPointer st t (le_key e) (le_hash e);
          old = HT_at t ptr;
          chain = ht_list t ! fst ptr;
          t1 = t\<lparr>ht_list := (ht_list t)[fst ptr := (if old = None then chain @ [i] else chain[snd ptr := i])]\<rparr>
      in if old = None
         then let t2 = t1\<lparr>ht_count := ht_count t1 + 1\<rparr>
              in (old, if ht_count t2 > ht_length t2 then Resize st t2 else t2)
         else (old, t1))"

definition HT_Remove :: "('v, 'd) store \<Rightarrow> HandleTable \<Rightarrow> bytes \<Rightarrow> u32 \<Rightarrow> nat option \<times> HandleTable" where
  "HT_Remove st t key h =
     (let ptr = FindPointer st t key h;
          result = HT_at t ptr;
          chain = ht_list t ! fst ptr
      in if result = None then (None, t)
         else (result, t\<lparr>ht_list := (ht_list t)[fst ptr := take (snd ptr) chain @ drop (Suc (snd ptr)) chain],
                         ht_count := ht_count t - 1\<rparr>))"

section \<open>The cache\<close>

record ('v, 'd) LRUCache =
  lc_capacity :: nat
  lc_usage :: nat
  lc_lru :: "nat list"
  lc_in_use :: "nat list"
  lc_table :: HandleTable
  lc_store :: "('v, 'd) store"
  lc_next :: nat
  lc_calls :: "('d \<times> bytes \<times> 'v) list"

definition NewLRUCache :: "nat \<Rightarrow> ('v, 'd) LRUCache" where
  "NewLRUCache capacity = \<lparr>lc_capacity = capacity, lc_usage = 0, lc_lru = [], lc_in_use = [],
     lc_table = HandleTable_new, lc_store = Map.empty, lc_next = 0, lc_calls = []\<rparr>"

definition lc_entry :: "('v, 'd) LRUCache \<Rightarrow> nat \<Rightarrow> ('v, 'd) LRUEntry" where
  "lc_entry c i = the (lc_store c i)"

definition lc_set :: "nat \<Rightarrow> ('v, 'd) LRUEntry \<Rightarrow> ('v, 'd) LRUCache \<Rightarrow> ('v, 'd) LRUCache" where
  "lc_set i e c = c\<lparr>lc_store := (lc_store c)(i \<mapsto> e)\<rparr>"

text \<open>Unlinking works whichever list the entry is on.\<close>

definition LRU_Remove :: "nat \<Rightarrow> ('v, 'd) LRUCache \<Rightarrow> ('v, 'd) LRUCache" where
  "LRU_Remove i c = c\<lparr>lc_lru := remove1 i (lc_lru c), lc_in_use := remove1 i (lc_in_use c)\<rparr>"

definition LRU_Append_lru :: "nat \<Rightarrow> ('v, 'd) LRUCache \<Rightarrow> ('v, 'd) LRUCache" where
  "LRU_Append_lru i c = c\<lparr>lc_lru := lc_lru c @ [i]\<rparr>"

definition LRU_Append_in_use :: "nat \<Rightarrow> ('v, 'd) LRUCache \<Rightarrow> ('v, 'd) LRUCache" where
  "LRU_Append_in_use i c = c\<lparr>lc_in_use := lc_in_use c @ [i]\<rparr>"

definition FreeEntry :: "nat \<Rightarrow> ('v, 'd) LRUCache \<Rightarrow> ('v, 'd) LRUCache" where
  "FreeEntry i c =
     (let e = lc_entry c i
      in c\<lparr>lc_calls := lc_calls c @ (case le_deleter e of None \<Rightarrow> [] | Some d \<Rightarrow> [(d, le_key e, le_value e)]),
           lc_usage := lc_usage c - le_charge e,
           lc_store := (lc_store c)(i := None)\<rparr>)"

definition Cache_Ref :: "nat \<Rightarrow> ('v, 'd) LRUCache \<Rightarrow> ('v, 'd) LRUCache" where
  "Cache_Ref i c =
     (let e = lc_entry c i;
          c1 = (if le_refs e = 1 \<and> le_in_cache e then LRU_Append_in_use i (LRU_Remove i c) else c)
      in lc_set i (e\<lparr>le_refs := le_refs e + 1\<rparr>) c1)"

definition Cache_Unref :: "nat \<Rightarrow> ('v, 'd) LRUCache \<Rightarrow> ('v, 'd) LRUCache" where
  "Cache_Unref i c =
     (let e = lc_entry c i; e' = e\<lparr>le_refs := le_refs e - 1\<rparr>; c1 = lc_set i e' c
      in if le_refs e' = 0 then FreeEntry i c1
         else if le_refs e' = 1 \<and> le_in_cache e' then LRU_Append_lru i (LRU_Remove i c1)
         else c1)"

text \<open>
  The eviction loop of \<open>Insert\<close>. When \<open>Remove\<close> does not find the oldest entry the source loops
  for ever.
\<close>

partial_function (option) Cache_Evict :: "('v, 'd) LRUCache \<Rightarrow> ('v, 'd) LRUCache option" where
  "Cache_Evict c =
     (if lc_usage c > 0 \<and> lc_usage c > lc_capacity c \<and> lc_lru c \<noteq> []
      then let i = hd (lc_lru c); e = lc_entry c i;
               (removed, t) = HT_Remove (lc_store c) (lc_table c) (le_key e) (le_hash e)
           in if removed \<noteq> None
              then Cache_Evict (Cache_Unref i (LRU_Remove i (lc_set i (e\<lparr>le_in_cache := False\<rparr>) (c\<lparr>lc_table := t\<rparr>))))
              else Cache_Evict c
      else Some c)"

text \<open>Dropping an entry the table gave up (in \<open>Insert\<close> the old one, in \<open>Erase\<close> the removed one).\<close>

definition Cache_Drop :: "nat \<Rightarrow> ('v, 'd) LRUCache \<Rightarrow> ('v, 'd) LRUCache" where
  "Cache_Drop i c =
     (let e = (lc_entry c i)\<lparr>le_in_cache := False\<rparr>; c1 = lc_set i e c
      in if le_refs e = 1 then Cache_Unref i (LRU_Remove i c1) else c1)"

definition Cache_Insert ::
    "bytes \<Rightarrow> 'v \<Rightarrow> nat \<Rightarrow> 'd option \<Rightarrow> ('v, 'd) LRUCache \<Rightarrow> (nat option \<times> ('v, 'd) LRUCache) option" where
  "Cache_Insert key v charge deleter c =
     (if lc_capacity c > 0 \<and> charge > 0
      then let i = lc_next c;
               e = \<lparr>le_value = v, le_deleter = deleter, le_charge = charge, le_key = key,
                    le_in_cache = True, le_refs = 2, le_hash = Hash key 0\<rparr>;
               c1 = (lc_set i e c)\<lparr>lc_next := i + 1\<rparr>;
               (old, t) = HT_Insert (lc_store c1) (lc_table c1) i;
               c2 = c1\<lparr>lc_table := t, lc_usage := lc_usage c1 + charge\<rparr>;
               c3 = (case old of None \<Rightarrow> c2 | Some j \<Rightarrow> Cache_Drop j c2)
           in Option.bind (Cache_Evict (LRU_Append_in_use i c3)) (\<lambda>c4. Some (Some i, c4))
      else Some (None, c))"

definition Cache_Lookup :: "bytes \<Rightarrow> ('v, 'd) LRUCache \<Rightarrow> nat option \<times> ('v, 'd) LRUCache" where
  "Cache_Lookup key c =
     (case HT_Lookup (lc_store c) (lc_table c) key (Hash key 0) of
        None \<Rightarrow> (None, c)
      | Some i \<Rightarrow> (Some i, Cache_Ref i c))"

definition Cache_Release :: "nat \<Rightarrow> ('v, 'd) LRUCache \<Rightarrow> ('v, 'd) LRUCache" where
  "Cache_Release handle c = Cache_Unref handle c"

definition Cache_Value :: "('v, 'd) LRUCache \<Rightarrow> nat \<Rightarrow> 'v" where
  "Cache_Value c handle = le_value (lc_entry c handle)"

definition Cache_Erase :: "bytes \<Rightarrow> ('v, 'd) LRUCache \<Rightarrow> ('v, 'd) LRUCache" where
  "Cache_Erase key c =
     (let (removed, t) = HT_Remove (lc_store c) (lc_table c) key (Hash key 0); c1 = c\<lparr>lc_table := t\<rparr>
      in case removed of None \<Rightarrow> c1 | Some i \<Rightarrow> Cache_Drop i c1)"

text \<open>The destructor's loop over \<open>lru_\<close>, after its assertion that \<open>in_use_\<close> is empty.\<close>

definition Cache_destroy_step :: "nat \<Rightarrow> ('v, 'd) LRUCache \<Rightarrow> ('v, 'd) LRUCache" where
  "Cache_destroy_step i c =
     (let e = lc_entry c i; (_, t) = HT_Remove (lc_store c) (lc_table c) (le_key e) (le_hash e)
      in Cache_Unref i (LRU_Remove i (lc_set i (e\<lparr>le_in_cache := False\<rparr>) (c\<lparr>lc_table := t\<rparr>))))"

definition Cache_destroy :: "('v, 'd) LRUCache \<Rightarrow> ('v, 'd) LRUCache" where
  "Cache_destroy c = fold Cache_destroy_step (lc_lru c) c"

definition Cache_NewId :: "u64 \<Rightarrow> u64 \<times> u64" where
  "Cache_NewId next_id = (next_id, next_id + 1)"

section \<open>The handle table is a map\<close>

definition ht_ids :: "HandleTable \<Rightarrow> nat set" where
  "ht_ids t = set (concat (ht_list t))"

definition ht_placed :: "('v, 'd) store \<Rightarrow> nat list list \<Rightarrow> bool" where
  "ht_placed st nl \<longleftrightarrow>
     (\<forall>b < length nl. \<forall>i \<in> set (nl ! b). st i \<noteq> None \<and> ht_bucket (le_hash (the (st i))) (length nl) = b)"

definition ht_ok :: "('v, 'd) store \<Rightarrow> HandleTable \<Rightarrow> bool" where
  "ht_ok st t \<longleftrightarrow>
     ht_length t = length (ht_list t) \<and> 0 < ht_length t \<and> ht_length t < 2 ^ 32
     \<and> ht_count t = length (concat (ht_list t)) \<and> distinct (concat (ht_list t)) \<and> ht_placed st (ht_list t)
     \<and> inj_on (\<lambda>i. le_key (the (st i))) (ht_ids t)
     \<and> (\<forall>i \<in> ht_ids t. le_hash (the (st i)) = Hash (le_key (the (st i))) 0)"

lemma ht_okD:
  assumes "ht_ok st t"
  shows "0 < length (ht_list t)" "length (ht_list t) < 2 ^ 32" "ht_length t = length (ht_list t)"
    "ht_count t = length (concat (ht_list t))" "distinct (concat (ht_list t))" "ht_placed st (ht_list t)"
    "inj_on (\<lambda>i. le_key (the (st i))) (ht_ids t)"
    "i \<in> ht_ids t \<Longrightarrow> le_hash (the (st i)) = Hash (le_key (the (st i))) 0"
  using assms unfolding ht_ok_def by metis+

lemma ht_bucket_less:
  assumes "0 < len" "len < 2 ^ 32" shows "ht_bucket h len < len"
proof -
  have "unat (of_nat len :: u32) = len"
    using assms by (simp add: unsigned_of_nat take_bit_nat_eq_self)
  moreover have "h AND (of_nat len - 1) \<le> (of_nat len - 1 :: u32)"
    by (rule word_and_le1)
  then have "unat (h AND (of_nat len - 1)) \<le> unat (of_nat len - 1 :: u32)"
    by (simp add: word_le_nat_alt)
  ultimately show ?thesis
    using assms by (simp add: ht_bucket_def unat_sub_if_size word_size)
qed

lemma mset_concat_update:
  "b < length xs \<Longrightarrow> mset (concat (xs[b := ys])) + mset (xs ! b) = mset (concat xs) + mset ys"
proof (induction xs arbitrary: b)
  case (Cons x xs)
  then show ?case by (cases b) (auto simp: ac_simps)
qed simp

lemma ht_ids_mset: "ht_ids t = set_mset (mset (concat (ht_list t)))"
  by (simp add: ht_ids_def)

lemma ht_placedD:
  assumes "ht_placed st (ht_list t)" "i \<in> ht_ids t"
  shows "\<exists>e. st i = Some e \<and> ht_bucket (le_hash e) (length (ht_list t)) < length (ht_list t)
     \<and> i \<in> set (ht_list t ! ht_bucket (le_hash e) (length (ht_list t)))"
proof -
  obtain chain where "chain \<in> set (ht_list t)" "i \<in> set chain"
    using assms(2) by (auto simp: ht_ids_def)
  then obtain b where "b < length (ht_list t)" "i \<in> set (ht_list t ! b)"
    by (metis in_set_conv_nth)
  with assms(1) show ?thesis unfolding ht_placed_def by fastforce
qed

lemma ht_chain_ids: "b < length (ht_list t) \<Longrightarrow> i \<in> set (ht_list t ! b) \<Longrightarrow> i \<in> ht_ids t"
  by (auto simp: ht_ids_def)

text \<open>\<open>FindPointer\<close> is at the first chain element with the key, and there is at most one.\<close>

lemma FindPointer_spec:
  assumes ok: "ht_ok st t" and fp: "FindPointer st t key (Hash key 0) = (b, p)"
  shows "b < length (ht_list t)" "b = ht_bucket (Hash key 0) (length (ht_list t))"
    and "p \<le> length (ht_list t ! b)"
    and "p < length (ht_list t ! b) \<Longrightarrow> ht_list t ! b ! p \<in> ht_ids t \<and> le_key (the (st (ht_list t ! b ! p))) = key"
    and "p = length (ht_list t ! b) \<Longrightarrow> i \<in> ht_ids t \<Longrightarrow> le_key (the (st i)) \<noteq> key"
proof -
  let ?P = "\<lambda>i. \<not> ht_matches st key (Hash key 0) i"
  have b: "b = ht_bucket (Hash key 0) (length (ht_list t))" and p: "p = length (takeWhile ?P (ht_list t ! b))"
    using fp ok by (auto simp: FindPointer_def Let_def ht_ok_def)
  show "b = ht_bucket (Hash key 0) (length (ht_list t))" by (rule b)
  show bl: "b < length (ht_list t)"
    using ht_bucket_less [OF ht_okD(1,2) [OF ok]] by (simp add: b)
  show "p \<le> length (ht_list t ! b)" by (simp add: p length_takeWhile_le)
  show "ht_list t ! b ! p \<in> ht_ids t \<and> le_key (the (st (ht_list t ! b ! p))) = key" if "p < length (ht_list t ! b)"
  proof -
    have "ht_matches st key (Hash key 0) (ht_list t ! b ! p)"
      using nth_length_takeWhile [of ?P "ht_list t ! b"] that p by simp
    then have "le_key (the (st (ht_list t ! b ! p))) = key"
      by (auto simp: ht_matches_def Slice_eq_def split: option.splits)
    with that bl show ?thesis by (simp add: ht_chain_ids)
  qed
  show "le_key (the (st i)) \<noteq> key" if at_end: "p = length (ht_list t ! b)" and i: "i \<in> ht_ids t"
  proof
    assume k: "le_key (the (st i)) = key"
    have "le_hash (the (st i)) = Hash key 0" using ok i k by (auto simp: ht_ok_def)
    moreover from ht_placedD [OF ht_okD(6) [OF ok] i] obtain e where "st i = Some e"
        "i \<in> set (ht_list t ! ht_bucket (le_hash e) (length (ht_list t)))"
      by blast
    ultimately have e: "st i = Some e" "le_hash e = Hash key 0" "le_key e = key" "i \<in> set (ht_list t ! b)"
      using k by (simp_all add: b)
    then have "\<not> ?P i" by (simp add: ht_matches_def Slice_eq_def)
    moreover have "takeWhile ?P (ht_list t ! b) = ht_list t ! b"
      using at_end p by (metis takeWhile_eq_take take_all_iff order_refl)
    ultimately show False using e(4) by (metis set_takeWhileD)
  qed
qed

lemma HT_Lookup_iff:
  assumes ok: "ht_ok st t"
  shows "HT_Lookup st t key (Hash key 0) = Some i \<longleftrightarrow> i \<in> ht_ids t \<and> le_key (the (st i)) = key"
proof -
  obtain b p where fp: "FindPointer st t key (Hash key 0) = (b, p)" by fastforce
  note spec = FindPointer_spec [OF ok fp]
  have inj: "inj_on (\<lambda>i. le_key (the (st i))) (ht_ids t)" using ok by (simp add: ht_ok_def)
  show ?thesis
  proof (cases "p < length (ht_list t ! b)")
    case True
    with spec(4) inj show ?thesis
      by (auto simp: HT_Lookup_def HT_at_def fp dest: inj_onD)
  next
    case False
    with spec(3) have "p = length (ht_list t ! b)" by simp
    with spec(5) show ?thesis
      by (auto simp: HT_Lookup_def HT_at_def fp)
  qed
qed

lemma HT_Lookup_None:
  "ht_ok st t \<Longrightarrow> HT_Lookup st t key (Hash key 0) = None \<longleftrightarrow> (\<forall>i \<in> ht_ids t. le_key (the (st i)) \<noteq> key)"
  using HT_Lookup_iff [of st t key] by (cases "HT_Lookup st t key (Hash key 0)") auto

lemma ht_placed_update:
  assumes "ht_placed st nl" "\<And>i. i \<in> set ch \<Longrightarrow> st i \<noteq> None \<and> ht_bucket (le_hash (the (st i))) (length nl) = b"
  shows "ht_placed st (nl[b := ch])"
proof (cases "b < length nl")
  case True
  with assms show ?thesis unfolding ht_placed_def by (auto simp: nth_list_update)
next
  case False
  with assms(1) show ?thesis by (simp add: list_update_beyond)
qed

lemma ht_placed_empty: "ht_placed st (replicate L [])"
  by (simp add: ht_placed_def)

lemma HT_Remove_spec:
  assumes ok: "ht_ok st t" and rm: "HT_Remove st t key (Hash key 0) = (r, t')"
  shows "r = HT_Lookup st t key (Hash key 0) \<and> ht_ok st t' \<and> ht_ids t' = ht_ids t - set_option r"
proof -
  obtain b p where fp: "FindPointer st t key (Hash key 0) = (b, p)" by fastforce
  note spec = FindPointer_spec [OF ok fp]
  let ?chain = "ht_list t ! b"
  show ?thesis
  proof (cases "p < length ?chain")
    case False
    then have "HT_Lookup st t key (Hash key 0) = None" "HT_Remove st t key (Hash key 0) = (None, t)"
      by (simp_all add: HT_Remove_def HT_Lookup_def HT_at_def fp)
    with rm ok show ?thesis by simp
  next
    case True
    let ?j = "?chain ! p" and ?rest = "take p ?chain @ drop (Suc p) ?chain"
    have r: "r = Some ?j" and t': "ht_list t' = (ht_list t)[b := ?rest]" "ht_length t' = ht_length t"
        "ht_count t' = ht_count t - 1"
      using True rm by (auto simp: HT_Remove_def HT_at_def fp Let_def)
    have "mset ?chain = add_mset ?j (mset ?rest)"
      using True by (metis id_take_nth_drop mset.simps(2) mset_append union_mset_add_mset_right)
    then have m: "mset (concat (ht_list t)) = add_mset ?j (mset (concat (ht_list t')))"
      using mset_concat_update [OF spec(1), of ?rest] by (simp add: t')
    then have d: "distinct (?j # concat (ht_list t'))"
      using ht_okD(5) [OF ok] by (metis mset.simps(2) mset_eq_imp_distinct_iff)
    then have ids: "ht_ids t' = ht_ids t - {?j}" and j: "?j \<notin> ht_ids t'"
      using m by (auto simp: ht_ids_mset)
    have len: "length (concat (ht_list t)) = Suc (length (concat (ht_list t')))"
      using m by (metis length_Cons mset.simps(2) mset_eq_length)
    have "set ?rest \<subseteq> set ?chain"
      by (metis Un_least set_append set_drop_subset set_take_subset)
    then have "ht_placed st (ht_list t')"
      unfolding t' using ht_okD(6) [OF ok] spec(1)
      by (intro ht_placed_update) (auto simp: ht_placed_def)
    moreover have "inj_on (\<lambda>i. le_key (the (st i))) (ht_ids t')"
      using ht_okD(7) [OF ok] ids by (metis Diff_subset inj_on_subset)
    ultimately have "ht_ok st t'"
      using ht_okD(1-4) [OF ok] ht_okD(8) [OF ok] d len ids unfolding ht_ok_def by (simp add: t')
    moreover have "HT_Lookup st t key (Hash key 0) = Some ?j"
      using True by (simp add: HT_Lookup_def HT_at_def fp)
    ultimately show ?thesis using r ids by simp
  qed
qed

lemma ResizeLength_bounds:
  "0 < l \<Longrightarrow> l \<le> ResizeLength l n \<and> ResizeLength l n \<le> max l (2 * n)"
proof (induction l n rule: ResizeLength.induct)
  case (1 l n)
  show ?case
  proof (cases "l < n")
    case True
    then have "ResizeLength l n = ResizeLength (l * 2) n"
      using 1 by (simp add: ResizeLength.simps [of l n])
    with 1 True show ?thesis by (auto simp: max_def split: if_splits)
  next
    case False
    then show ?thesis by (simp add: ResizeLength.simps [of l n])
  qed
qed

lemma fold_fold_concat: "fold (\<lambda>xs. fold f xs) xss = fold f (concat xss)"
  by (induction xss) (simp_all add: fold_append)

lemma ResizeMove_fold:
  assumes "0 < L" "L < 2 ^ 32"
  shows "length nl = L \<Longrightarrow> ht_placed st nl \<Longrightarrow> \<forall>i \<in> set is. st i \<noteq> None \<Longrightarrow>
    length (fold (ResizeMove st L) is nl) = L \<and> ht_placed st (fold (ResizeMove st L) is nl)
    \<and> mset (concat (fold (ResizeMove st L) is nl)) = mset is + mset (concat nl)"
proof (induction "is" arbitrary: nl)
  case Nil
  then show ?case by simp
next
  case (Cons i "is")
  let ?b = "ht_bucket (le_hash (the (st i))) L"
  let ?nl = "ResizeMove st L i nl"
  have nl: "?nl = nl[?b := i # nl ! ?b]" by (simp add: ResizeMove_def Let_def)
  have b: "?b < length nl" using ht_bucket_less [OF assms] Cons.prems by simp
  have "length ?nl = L" using Cons.prems by (simp add: nl)
  moreover have "ht_placed st ?nl"
    unfolding nl using Cons.prems b by (intro ht_placed_update) (auto simp: ht_placed_def)
  moreover have "mset (concat ?nl) = add_mset i (mset (concat nl))"
    using mset_concat_update [OF b, of "i # nl ! ?b"] by (simp add: nl)
  ultimately show ?case
    using Cons.IH [of ?nl] Cons.prems by simp
qed

text \<open>\<open>Resize\<close> keeps the entries of the table.\<close>

lemma Resize_spec:
  assumes m: "ht_count t = length (concat (ht_list t))" "ht_count t < 2 ^ 31"
    and d: "distinct (concat (ht_list t))" and st: "\<forall>i \<in> ht_ids t. st i \<noteq> None"
    and k: "inj_on (\<lambda>i. le_key (the (st i))) (ht_ids t)" "\<forall>i \<in> ht_ids t. le_hash (the (st i)) = Hash (le_key (the (st i))) 0"
  shows "ht_ok st (Resize st t) \<and> ht_ids (Resize st t) = ht_ids t"
proof -
  define L where "L = ResizeLength 4 (ht_count t)"
  have L: "0 < L" "L < 2 ^ 32"
    using ResizeLength_bounds [of 4 "ht_count t"] m(2) by (auto simp: L_def)
  define nl where "nl = fold (ResizeMove st L) (concat (ht_list t)) (replicate L [])"
  have r: "Resize st t = t\<lparr>ht_list := nl, ht_length := L\<rparr>"
    unfolding Resize_def Let_def by (simp add: fold_fold_concat nl_def L_def)
  have z: "concat (replicate L []) = []" by (induction L) auto
  have nl: "length nl = L" "ht_placed st nl" "mset (concat nl) = mset (concat (ht_list t))"
    unfolding nl_def using ResizeMove_fold [OF L, of "replicate L []" st "concat (ht_list t)"] st z
    by (simp_all add: ht_placed_empty ht_ids_def)
  have "set (concat nl) = ht_ids t" "distinct (concat nl)" "length (concat nl) = ht_count t"
    using nl(3) d m(1) by (metis ht_ids_def mset_eq_setD, metis mset_eq_imp_distinct_iff, metis mset_eq_length)
  then show ?thesis
    using L nl k unfolding ht_ok_def by (simp add: r ht_ids_def)
qed

lemma HandleTable_new_ok: "ht_ok st HandleTable_new \<and> ht_ids HandleTable_new = {}"
proof -
  have "ResizeLength 4 0 = 4" by (simp add: ResizeLength.simps)
  then have new: "HandleTable_new = \<lparr>ht_list = replicate 4 [], ht_length = 4, ht_count = 0\<rparr>"
    by (simp add: HandleTable_new_def Resize_def)
  have "concat (replicate 4 []) = []" by (simp add: numeral_eq_Suc)
  then show ?thesis
    unfolding new ht_ok_def ht_ids_def by (simp add: ht_placed_empty)
qed

lemma mset_swap:
  fixes n :: "'a multiset"
  assumes "n + j = ch + i" "l' + ch = l + n"
  shows "l' + j = l + i"
proof -
  have "(l' + j) + ch = (l' + ch) + j" by (simp add: ac_simps)
  also have "\<dots> = l + (n + j)" using assms(2) by (simp add: ac_simps)
  also have "\<dots> = (l + i) + ch" using assms(1) by (simp add: ac_simps)
  finally show ?thesis by simp
qed

lemma HT_Insert_spec:
  assumes ok: "ht_ok st t" and e: "st i = Some e" "le_hash e = Hash (le_key e) 0" and i: "i \<notin> ht_ids t"
    and small: "ht_count t < 2 ^ 31 - 1" and ins: "HT_Insert st t i = (old, t')"
  shows "old = HT_Lookup st t (le_key e) (Hash (le_key e) 0) \<and> ht_ok st t'
    \<and> ht_ids t' = insert i (ht_ids t - set_option old)"
proof -
  obtain b p where fp: "FindPointer st t (le_key e) (Hash (le_key e) 0) = (b, p)" by fastforce
  note spec = FindPointer_spec [OF ok fp]
  let ?chain = "ht_list t ! b"
  have bi: "ht_bucket (le_hash (the (st i))) (length (ht_list t)) = b"
    using spec(2) e by simp
  have ch: "st j \<noteq> None \<and> ht_bucket (le_hash (the (st j))) (length (ht_list t)) = b"
    if "j \<in> set ?chain" for j
    using ht_okD(6) [OF ok] spec(1) that unfolding ht_placed_def by blast
  have inj: "inj_on (\<lambda>i. le_key (the (st i))) (ht_ids t)" by (rule ht_okD(7) [OF ok])
  have hash: "\<forall>j \<in> insert i (ht_ids t). le_hash (the (st j)) = Hash (le_key (the (st j))) 0"
    using ht_okD(8) [OF ok] e by simp
  show ?thesis
  proof (cases "p < length ?chain")
    case True
    let ?j = "?chain ! p" and ?new = "?chain[p := i]"
    have old: "old = Some ?j" and t': "t' = t\<lparr>ht_list := (ht_list t)[b := ?new]\<rparr>"
      using True ins by (auto simp: HT_Insert_def HT_at_def fp e Let_def)
    have "add_mset ?j (mset ?new) = add_mset i (mset ?chain)"
      using True by (simp add: mset_update)
    then have "mset ?new + {#?j#} = mset ?chain + {#i#}" by simp
    moreover have "mset (concat (ht_list t')) + mset ?chain = mset (concat (ht_list t)) + mset ?new"
      using mset_concat_update [OF spec(1), of ?new] by (simp add: t')
    ultimately have m: "mset (?j # concat (ht_list t')) = mset (i # concat (ht_list t))"
      using mset_swap [of "mset ?new" "{#?j#}" "mset ?chain" "{#i#}" "mset (concat (ht_list t'))" "mset (concat (ht_list t))"]
      by simp
    moreover have "distinct (i # concat (ht_list t))"
      using i ht_okD(5) [OF ok] by (simp add: ht_ids_def)
    ultimately have d: "distinct (?j # concat (ht_list t'))"
      by (metis mset_eq_imp_distinct_iff)
    have j: "insert ?j (ht_ids t') = insert i (ht_ids t)"
      using mset_eq_setD [OF m] by (simp add: ht_ids_def)
    have j': "?j \<notin> ht_ids t'" using d by (simp add: ht_ids_def)
    have "?j \<noteq> i" using spec(4) [OF True] i by auto
    then have "insert i (ht_ids t) - {?j} = insert i (ht_ids t - {?j})" by (simp add: insert_Diff_if)
    moreover have "ht_ids t' = insert ?j (ht_ids t') - {?j}" using j' by simp
    ultimately have ids: "ht_ids t' = insert i (ht_ids t - {?j})" by (simp only: j)
    have len: "length (concat (ht_list t')) = length (concat (ht_list t))"
      using mset_eq_length [OF m] by simp
    have "ht_placed st ((ht_list t)[b := ?new])"
    proof (rule ht_placed_update [OF ht_okD(6) [OF ok]])
      fix j assume "j \<in> set ?new"
      then have "j = i \<or> j \<in> set ?chain"
        using set_update_subset_insert [of ?chain p i] by blast
      then show "st j \<noteq> None \<and> ht_bucket (le_hash (the (st j))) (length (ht_list t)) = b"
        using ch bi e(1) by (elim disjE) (simp, blast)
    qed
    then have "ht_placed st (ht_list t')" by (simp add: t')
    moreover have "inj_on (\<lambda>i. le_key (the (st i))) (ht_ids t')"
      unfolding ids using inj spec(4) [OF True] e(1) by (auto simp: inj_on_def)
    ultimately have "ht_ok st t'"
      using ht_okD(1-4) [OF ok] d len hash ids unfolding ht_ok_def by (simp add: t')
    moreover have "HT_Lookup st t (le_key e) (Hash (le_key e) 0) = Some ?j"
      using True by (simp add: HT_Lookup_def HT_at_def fp)
    ultimately show ?thesis using old ids by simp
  next
    case False
    then have pe: "p = length ?chain" using spec(3) by simp
    define t1 where "t1 = t\<lparr>ht_list := (ht_list t)[b := ?chain @ [i]], ht_count := ht_count t + 1\<rparr>"
    have old: "old = None" and t': "t' = (if ht_count t1 > ht_length t1 then Resize st t1 else t1)"
      using pe ins by (auto simp: HT_Insert_def HT_at_def fp e Let_def t1_def)
    have m: "mset (concat (ht_list t1)) = mset (i # concat (ht_list t))"
      using mset_concat_update [OF spec(1), of "?chain @ [i]"] by (simp add: t1_def)
    have d: "distinct (concat (ht_list t1))"
      using i ht_okD(5) [OF ok] mset_eq_imp_distinct_iff [OF m] by (simp add: ht_ids_def)
    have ids: "ht_ids t1 = insert i (ht_ids t)"
      using mset_eq_setD [OF m] by (simp add: ht_ids_def)
    have len: "ht_count t1 = length (concat (ht_list t1))"
      using mset_eq_length [OF m] ht_okD(4) [OF ok] by (simp add: t1_def)
    have "\<forall>j \<in> ht_ids t. le_key (the (st j)) \<noteq> le_key e"
      using spec(5) [OF pe] by blast
    then have inj1: "inj_on (\<lambda>i. le_key (the (st i))) (ht_ids t1)"
      unfolding ids using inj e(1) by (auto simp: inj_on_def)
    have "ht_placed st ((ht_list t)[b := ?chain @ [i]])"
    proof (rule ht_placed_update [OF ht_okD(6) [OF ok]])
      fix j assume "j \<in> set (?chain @ [i])"
      then have "j = i \<or> j \<in> set ?chain" by auto
      then show "st j \<noteq> None \<and> ht_bucket (le_hash (the (st j))) (length (ht_list t)) = b"
        using ch bi e(1) by (elim disjE) (simp, blast)
    qed
    then have "ht_placed st (ht_list t1)" by (simp add: t1_def)
    then have ok1: "ht_ok st t1"
      using ht_okD(1-3) [OF ok] d len inj1 hash ids unfolding ht_ok_def by (simp add: t1_def)
    have "ht_ok st t' \<and> ht_ids t' = ht_ids t1"
    proof (cases "ht_count t1 > ht_length t1")
      case True
      have "\<forall>j \<in> ht_ids t1. st j \<noteq> None"
        using ht_placedD [OF ht_okD(6) [OF ok1]] by fastforce
      with Resize_spec [OF len _ d _ inj1] hash ids small True show ?thesis
        by (simp add: t' t1_def)
    next
      case False
      with ok1 t' show ?thesis by simp
    qed
    moreover have "HT_Lookup st t (le_key e) (Hash (le_key e) 0) = None"
      using pe by (simp add: HT_Lookup_def HT_at_def fp)
    ultimately show ?thesis using old ids by simp
  qed
qed

text \<open>The table only reads the keys and hashes of its own entries.\<close>

lemma ht_ok_cong:
  assumes ok: "ht_ok st t"
    and eq: "\<And>i e. i \<in> ht_ids t \<Longrightarrow> st i = Some e \<Longrightarrow> \<exists>e'. st' i = Some e' \<and> le_key e' = le_key e \<and> le_hash e' = le_hash e"
  shows "ht_ok st' t"
proof -
  have some: "\<exists>e. st i = Some e" if "i \<in> ht_ids t" for i
    using ht_placedD [OF ht_okD(6) [OF ok] that] by blast
  have same: "st' i \<noteq> None \<and> le_key (the (st' i)) = le_key (the (st i)) \<and> le_hash (the (st' i)) = le_hash (the (st i))"
    if "i \<in> ht_ids t" for i
    using some [OF that] eq [OF that] by fastforce
  have "ht_placed st' (ht_list t)"
    using ht_okD(6) [OF ok] same ht_chain_ids [of _ t] unfolding ht_placed_def by auto
  moreover have "inj_on (\<lambda>i. le_key (the (st' i))) (ht_ids t)"
    using ht_okD(7) [OF ok] same by (auto simp: inj_on_def)
  ultimately show ?thesis
    using ht_okD(1-5) [OF ok] ht_okD(8) [OF ok] same unfolding ht_ok_def by simp
qed

section \<open>The invariant of the cache\<close>

definition charge_of :: "('v, 'd) store \<Rightarrow> nat" where
  "charge_of st = (\<Sum>j \<in> dom st. le_charge (the (st j)))"

lemma charge_of_update:
  assumes "st i = Some e" "le_charge e' = le_charge e"
  shows "charge_of (st(i \<mapsto> e')) = charge_of st"
proof -
  have "dom (st(i \<mapsto> e')) = dom st" using assms(1) by auto
  then show ?thesis
    unfolding charge_of_def using assms by (intro sum.cong) auto
qed

lemma charge_of_delete:
  assumes "finite (dom st)" "st i = Some e"
  shows "charge_of (st(i := None)) = charge_of st - le_charge e" "le_charge e \<le> charge_of st"
proof -
  have "charge_of st = le_charge e + (\<Sum>j \<in> dom st - {i}. le_charge (the (st j)))"
    unfolding charge_of_def using assms by (subst sum.remove [of _ i]) auto
  moreover have "charge_of (st(i := None)) = (\<Sum>j \<in> dom st - {i}. le_charge (the (st j)))"
    unfolding charge_of_def by (intro sum.cong) auto
  ultimately show "charge_of (st(i := None)) = charge_of st - le_charge e" "le_charge e \<le> charge_of st"
    by simp_all
qed

lemma charge_of_new:
  assumes "finite (dom st)" "st i = None"
  shows "charge_of (st(i \<mapsto> e)) = charge_of st + le_charge e"
proof -
  have "charge_of (st(i \<mapsto> e)) = le_charge e + (\<Sum>j \<in> dom st. le_charge (the ((st(i \<mapsto> e)) j)))"
    unfolding charge_of_def using assms by (simp add: insert_absorb domIff)
  also have "(\<Sum>j \<in> dom st. le_charge (the ((st(i \<mapsto> e)) j))) = charge_of st"
    unfolding charge_of_def using assms(2) by (intro sum.cong) auto
  finally show ?thesis by (simp only: add.commute)
qed

definition lc_ids :: "('v, 'd) LRUCache \<Rightarrow> nat set" where
  "lc_ids c = ht_ids (lc_table c)"

text \<open>
  The entries in \<open>X\<close> have left the table but still carry \<open>in_cache\<close>: the state inside \<open>Insert\<close>,
  \<open>Erase\<close> and the eviction loop. Between operations \<open>X\<close> is empty. The evictable list holds the
  entries of the table that only the cache references.
\<close>

definition entry_inv :: "('v, 'd) LRUCache \<Rightarrow> nat set \<Rightarrow> nat \<Rightarrow> ('v, 'd) LRUEntry \<Rightarrow> bool" where
  "entry_inv c X i e \<longleftrightarrow>
     le_hash e = Hash (le_key e) 0 \<and> 1 \<le> le_refs e
     \<and> (le_in_cache e \<longleftrightarrow> i \<in> lc_ids c \<union> X) \<and> (i \<in> set (lc_lru c) \<longleftrightarrow> le_refs e = 1 \<and> le_in_cache e)"

definition cache_inv_but :: "('v, 'd) LRUCache \<Rightarrow> nat set \<Rightarrow> bool" where
  "cache_inv_but c X \<longleftrightarrow>
     ht_ok (lc_store c) (lc_table c) \<and> finite (dom (lc_store c)) \<and> (\<forall>i \<in> dom (lc_store c). i < lc_next c)
     \<and> distinct (lc_lru c @ lc_in_use c) \<and> set (lc_lru c) \<union> set (lc_in_use c) = dom (lc_store c)
     \<and> X \<inter> lc_ids c = {} \<and> lc_usage c = charge_of (lc_store c)
     \<and> (\<forall>i e. lc_store c i = Some e \<longrightarrow> entry_inv c X i e)"

definition cache_inv :: "('v, 'd) LRUCache \<Rightarrow> bool" where
  "cache_inv c \<longleftrightarrow> cache_inv_but c {}"

lemma cache_butD:
  assumes "cache_inv_but c X"
  shows "ht_ok (lc_store c) (lc_table c)" "finite (dom (lc_store c))"
    "lc_store c i = Some e \<Longrightarrow> i < lc_next c" "distinct (lc_lru c)" "distinct (lc_in_use c)"
    "set (lc_lru c) \<inter> set (lc_in_use c) = {}" "set (lc_lru c) \<union> set (lc_in_use c) = dom (lc_store c)"
    "X \<inter> lc_ids c = {}" "lc_usage c = charge_of (lc_store c)"
    "lc_store c i = Some e \<Longrightarrow> entry_inv c X i e"
  using assms unfolding cache_inv_but_def by (auto simp: domI)

lemma lc_ids_stored: "cache_inv_but c X \<Longrightarrow> i \<in> lc_ids c \<Longrightarrow> \<exists>e. lc_store c i = Some e"
  using ht_placedD [OF ht_okD(6) [OF cache_butD(1)]] unfolding lc_ids_def by blast

lemma NewLRUCache_inv: "cache_inv (NewLRUCache capacity)"
  using HandleTable_new_ok [of Map.empty]
  by (auto simp: cache_inv_def cache_inv_but_def NewLRUCache_def lc_ids_def charge_of_def)

text \<open>Changing one entry, and moving it between the lists.\<close>

lemma cache_inv_move:
  assumes inv: "cache_inv_but c X" and e: "lc_store c i = Some e"
    and e': "le_key e' = le_key e" "le_hash e' = le_hash e" "le_charge e' = le_charge e" "1 \<le> le_refs e'"
    and Y: "Y \<subseteq> X" "\<And>j. j \<noteq> i \<Longrightarrow> j \<in> X \<longleftrightarrow> j \<in> Y" "le_in_cache e' \<longleftrightarrow> i \<in> lc_ids c \<union> Y"
    and d: "lc_store d = (lc_store c)(i \<mapsto> e')" "lc_table d = lc_table c" "lc_next d = lc_next c" "lc_usage d = lc_usage c"
      "lc_capacity d = lc_capacity c"
    and l: "distinct (lc_lru d @ lc_in_use d)" "set (lc_lru d) \<union> set (lc_in_use d) = dom (lc_store c)"
      "\<And>j. j \<noteq> i \<Longrightarrow> j \<in> set (lc_lru d) \<longleftrightarrow> j \<in> set (lc_lru c)"
      "i \<in> set (lc_lru d) \<longleftrightarrow> le_refs e' = 1 \<and> le_in_cache e'"
  shows "cache_inv_but d Y"
proof -
  note I = cache_butD [OF inv]
  have ids: "lc_ids d = lc_ids c" by (simp add: lc_ids_def d)
  have dom: "dom (lc_store d) = dom (lc_store c)" using e by (auto simp: d)
  have "ht_ok (lc_store d) (lc_table d)"
    unfolding d by (rule ht_ok_cong [OF I(1)]) (use e e' in auto)
  moreover have "charge_of (lc_store d) = lc_usage d"
    unfolding d using charge_of_update [of "lc_store c" i e e', OF e e'(3)] I(9) by simp
  moreover have "entry_inv d Y j x" if j: "lc_store d j = Some x" for j x
  proof (cases "j = i")
    case True
    have "entry_inv c X i e" by (rule I(10) [OF e])
    with True j e' Y(3) l(4) ids show ?thesis by (simp add: d entry_inv_def)
  next
    case False
    with j have "entry_inv c X j x" using I(10) by (simp add: d)
    with False Y(2) [OF False] l(3) [OF False] ids show ?thesis by (simp add: entry_inv_def)
  qed
  moreover have "Y \<inter> lc_ids d = {}" using I(8) Y(1) ids by auto
  moreover have "\<forall>j \<in> dom (lc_store d). j < lc_next d"
    using I(3) e by (auto simp: d)
  ultimately show ?thesis
    using I(2) l(1,2) dom unfolding cache_inv_but_def by simp
qed

text \<open>Freeing an entry that no list and no table holds any more.\<close>

lemma cache_inv_free:
  assumes inv: "cache_inv_but c X" and e: "lc_store c i = Some e" and i: "i \<notin> lc_ids c" "X \<subseteq> {i}"
    and d: "lc_store d = (lc_store c)(i := None)" "lc_table d = lc_table c" "lc_next d = lc_next c"
      "lc_usage d = lc_usage c - le_charge e"
      "lc_lru d = remove1 i (lc_lru c)" "lc_in_use d = remove1 i (lc_in_use c)"
  shows "cache_inv d"
proof -
  note I = cache_butD [OF inv]
  have ids: "lc_ids d = lc_ids c" by (simp add: lc_ids_def d)
  have "ht_ok (lc_store d) (lc_table d)"
    unfolding d by (rule ht_ok_cong [OF I(1)]) (use i in \<open>auto simp: lc_ids_def\<close>)
  moreover have "charge_of (lc_store d) = lc_usage d"
    unfolding d using charge_of_delete [of "lc_store c" i e, OF I(2) e] I(9) by simp
  moreover have "entry_inv d {} j x" if j: "lc_store d j = Some x" for j x
  proof -
    have ji: "j \<noteq> i" using j by (auto simp: d split: if_splits)
    with j have "entry_inv c X j x" using I(10) by (simp add: d)
    with ji i(2) ids I(4) show ?thesis by (auto simp: entry_inv_def d)
  qed
  moreover have "distinct (lc_lru d @ lc_in_use d)"
    using I(4-6) by (auto simp: d)
  moreover have "set (lc_lru d) \<union> set (lc_in_use d) = dom (lc_store d)"
    using I(4-7) by (auto simp: d)
  moreover have "\<forall>j \<in> dom (lc_store d). j < lc_next d"
    using I(3) by (auto simp: d)
  ultimately show ?thesis
    using I(2) unfolding cache_inv_def cache_inv_but_def by (simp add: d)
qed

lemmas cache_step_defs = Cache_Ref_def Cache_Unref_def Cache_Drop_def LRU_Remove_def LRU_Append_lru_def
  LRU_Append_in_use_def FreeEntry_def lc_set_def lc_entry_def Let_def

lemma Cache_Ref_inv:
  assumes inv: "cache_inv c" and i: "i \<in> lc_ids c" and e: "lc_store c i = Some e"
  shows "cache_inv (Cache_Ref i c)"
proof -
  have but: "cache_inv_but c {}" using inv by (simp add: cache_inv_def)
  note I = cache_butD [OF but]
  have ei: "entry_inv c {} i e" by (rule I(10) [OF e])
  have dom: "i \<in> dom (lc_store c)" using e by auto
  have "cache_inv_but (Cache_Ref i c) {}"
  proof (rule cache_inv_move [OF but e, of "e\<lparr>le_refs := le_refs e + 1\<rparr>"])
    show "distinct (lc_lru (Cache_Ref i c) @ lc_in_use (Cache_Ref i c))"
      using I(4-6) by (auto simp: cache_step_defs)
    show "set (lc_lru (Cache_Ref i c)) \<union> set (lc_in_use (Cache_Ref i c)) = dom (lc_store c)"
      using I(4,5,7) dom by (auto simp: cache_step_defs)
  qed (use ei i I(4) in \<open>auto simp: cache_step_defs entry_inv_def e\<close>)
  then show ?thesis by (simp add: cache_inv_def)
qed

lemma Cache_Unref_held:
  assumes but: "cache_inv_but c X" and e: "lc_store c i = Some e" "2 \<le> le_refs e"
  shows "cache_inv_but (Cache_Unref i c) X"
proof -
  note I = cache_butD [OF but]
  have ei: "entry_inv c X i e" by (rule I(10) [OF e(1)])
  have dom: "i \<in> dom (lc_store c)" using e by auto
  show ?thesis
  proof (rule cache_inv_move [OF but e(1), of "e\<lparr>le_refs := le_refs e - 1\<rparr>"])
    show "distinct (lc_lru (Cache_Unref i c) @ lc_in_use (Cache_Unref i c))"
      using I(4-6) by (auto simp: cache_step_defs)
    show "set (lc_lru (Cache_Unref i c)) \<union> set (lc_in_use (Cache_Unref i c)) = dom (lc_store c)"
      using I(4,5,7) dom e by (auto simp: cache_step_defs)
  qed (use ei e I(4) in \<open>auto simp: cache_step_defs entry_inv_def\<close>)
qed

text \<open>An entry the table gave up: freed when only the cache referenced it, kept otherwise.\<close>

lemma Cache_Drop_inv:
  assumes but: "cache_inv_but c {i}" and e: "lc_store c i = Some e"
  shows "cache_inv (Cache_Drop i c)"
proof -
  note I = cache_butD [OF but]
  have ei: "entry_inv c {i} i e" by (rule I(10) [OF e])
  show ?thesis
  proof (cases "le_refs e = 1")
    case True
    then show ?thesis
      using I(8) e by (intro cache_inv_free [OF but e]) (auto simp: cache_step_defs)
  next
    case False
    have "cache_inv_but (Cache_Drop i c) {}"
      using False e ei I(4-8)
      by (intro cache_inv_move [OF but e, of "e\<lparr>le_in_cache := False\<rparr>"]) (auto simp: cache_step_defs entry_inv_def)
    then show ?thesis by (simp add: cache_inv_def)
  qed
qed

lemma HT_Remove_inv:
  assumes inv: "cache_inv c" and rm: "HT_Remove (lc_store c) (lc_table c) key (Hash key 0) = (r, t)"
  shows "r = HT_Lookup (lc_store c) (lc_table c) key (Hash key 0)"
    and "r = Some i \<Longrightarrow> cache_inv_but (c\<lparr>lc_table := t\<rparr>) {i} \<and> i \<in> lc_ids c
      \<and> (\<exists>e. lc_store c i = Some e \<and> le_key e = key)"
    and "r = None \<Longrightarrow> t = lc_table c" and "lc_ids (c\<lparr>lc_table := t\<rparr>) = lc_ids c - set_option r"
proof -
  have but: "cache_inv_but c {}" using inv by (simp add: cache_inv_def)
  note I = cache_butD [OF but]
  note R = HT_Remove_spec [OF I(1) rm]
  show r: "r = HT_Lookup (lc_store c) (lc_table c) key (Hash key 0)" using R by simp
  show "r = None \<Longrightarrow> t = lc_table c" using rm by (auto simp: HT_Remove_def Let_def split: if_splits)
  show ids: "lc_ids (c\<lparr>lc_table := t\<rparr>) = lc_ids c - set_option r" using R by (simp add: lc_ids_def)
  assume i: "r = Some i"
  then have "HT_Lookup (lc_store c) (lc_table c) key (Hash key 0) = Some i" using r by simp
  then have il: "i \<in> lc_ids c" and key: "le_key (the (lc_store c i)) = key"
    using HT_Lookup_iff [OF I(1)] by (auto simp: lc_ids_def)
  obtain e where e: "lc_store c i = Some e" using lc_ids_stored [OF but il] by blast
  have "entry_inv (c\<lparr>lc_table := t\<rparr>) {i} j x" if "lc_store c j = Some x" for j x
    using I(10) [OF that] ids i il by (auto simp: entry_inv_def)
  moreover have "{i} \<inter> lc_ids (c\<lparr>lc_table := t\<rparr>) = {}" using ids i by auto
  ultimately have "cache_inv_but (c\<lparr>lc_table := t\<rparr>) {i}"
    using but R unfolding cache_inv_but_def by simp
  with il e key show "cache_inv_but (c\<lparr>lc_table := t\<rparr>) {i} \<and> i \<in> lc_ids c
      \<and> (\<exists>e. lc_store c i = Some e \<and> le_key e = key)" by simp
qed

lemma Cache_Erase_inv:
  assumes inv: "cache_inv c" shows "cache_inv (Cache_Erase key c)"
proof -
  obtain r t where rm: "HT_Remove (lc_store c) (lc_table c) key (Hash key 0) = (r, t)" by fastforce
  note R = HT_Remove_inv [OF inv rm]
  show ?thesis
  proof (cases r)
    case None
    with R(3) inv show ?thesis by (simp add: Cache_Erase_def rm)
  next
    case (Some i)
    with R(2) obtain e where "cache_inv_but (c\<lparr>lc_table := t\<rparr>) {i}" "lc_store c i = Some e" by blast
    then show ?thesis
      using Cache_Drop_inv [of "c\<lparr>lc_table := t\<rparr>" i e] Some by (simp add: Cache_Erase_def rm)
  qed
qed

lemma Cache_Lookup_inv:
  assumes inv: "cache_inv c" shows "cache_inv (snd (Cache_Lookup key c))"
proof (cases "HT_Lookup (lc_store c) (lc_table c) key (Hash key 0)")
  case (Some i)
  have but: "cache_inv_but c {}" using inv by (simp add: cache_inv_def)
  have i: "i \<in> lc_ids c"
    using Some HT_Lookup_iff [OF cache_butD(1) [OF but]] by (simp add: lc_ids_def)
  from lc_ids_stored [OF but i] obtain e where "lc_store c i = Some e" by blast
  then show ?thesis
    using Cache_Ref_inv [OF inv i] Some by (simp add: Cache_Lookup_def)
qed (simp add: Cache_Lookup_def inv)

lemma Cache_Release_inv:
  "cache_inv c \<Longrightarrow> lc_store c i = Some e \<Longrightarrow> 2 \<le> le_refs e \<Longrightarrow> cache_inv (Cache_Release i c)"
  unfolding cache_inv_def Cache_Release_def by (rule Cache_Unref_held)

section \<open>Eviction\<close>

lemma Cache_Drop_last:
  assumes "lc_store c i = Some e" "le_refs e = 1"
  shows "lc_store (Cache_Drop i c) = (lc_store c)(i := None)" "lc_table (Cache_Drop i c) = lc_table c"
    "lc_lru (Cache_Drop i c) = remove1 i (lc_lru c)" "lc_in_use (Cache_Drop i c) = remove1 i (lc_in_use c)"
    "lc_capacity (Cache_Drop i c) = lc_capacity c" "lc_next (Cache_Drop i c) = lc_next c"
    "lc_usage (Cache_Drop i c) = lc_usage c - le_charge e"
    "lc_calls (Cache_Drop i c) = lc_calls c @ (case le_deleter e of None \<Rightarrow> [] | Some d \<Rightarrow> [(d, le_key e, le_value e)])"
  using assms by (auto simp: cache_step_defs split: option.splits)

lemma Cache_Drop_shared:
  assumes "lc_store c i = Some e" "le_refs e \<noteq> 1"
  shows "Cache_Drop i c = c\<lparr>lc_store := (lc_store c)(i \<mapsto> e\<lparr>le_in_cache := False\<rparr>)\<rparr>"
  using assms by (auto simp: cache_step_defs)

text \<open>One round of the eviction loop drops the head of \<open>lru_\<close>.\<close>

lemma Cache_Evict_step:
  assumes inv: "cache_inv c" and over: "lc_usage c > lc_capacity c" and lru: "lc_lru c = i # rest"
  shows "\<exists>d. Cache_Evict c = Cache_Evict d \<and> cache_inv d \<and> lc_lru d = rest \<and> lc_in_use d = lc_in_use c
    \<and> lc_store d = (lc_store c)(i := None) \<and> lc_ids d = lc_ids c - {i} \<and> lc_capacity d = lc_capacity c
    \<and> lc_next d = lc_next c"
proof -
  have but: "cache_inv_but c {}" using inv by (simp add: cache_inv_def)
  note I = cache_butD [OF but]
  have "i \<in> dom (lc_store c)" using I(7) lru by (metis UnCI list.set_intros(1))
  then obtain e where e: "lc_store c i = Some e" by auto
  have ei: "entry_inv c {} i e" by (rule I(10) [OF e])
  then have r1: "le_refs e = 1" and il: "i \<in> lc_ids c" and h: "le_hash e = Hash (le_key e) 0"
    using lru by (auto simp: entry_inv_def)
  have "HT_Lookup (lc_store c) (lc_table c) (le_key e) (Hash (le_key e) 0) = Some i"
    using HT_Lookup_iff [OF I(1)] il e by (simp add: lc_ids_def)
  moreover obtain r t where rm: "HT_Remove (lc_store c) (lc_table c) (le_key e) (Hash (le_key e) 0) = (r, t)"
    by fastforce
  note R = HT_Remove_inv [OF inv rm]
  ultimately have r: "r = Some i" using R(1) by simp
  define d where "d = Cache_Drop i (c\<lparr>lc_table := t\<rparr>)"
  have "lc_usage c > 0" using over by simp
  then have "Cache_Evict c = Cache_Evict d"
    using over lru rm r e r1 h
    by (subst Cache_Evict.simps) (simp add: d_def lc_entry_def Cache_Drop_def lc_set_def Let_def)
  moreover have "cache_inv d"
    unfolding d_def using R(2) [OF r] e by (intro Cache_Drop_inv) simp_all
  moreover have "i \<notin> set (lc_in_use c)" "i \<notin> set rest" using I(4,6) lru by auto
  moreover have "lc_ids d = lc_ids c - {i}"
    using R(4) r Cache_Drop_last(2) [of "c\<lparr>lc_table := t\<rparr>" i e] e r1 by (simp add: d_def lc_ids_def)
  ultimately show ?thesis
    using Cache_Drop_last [of "c\<lparr>lc_table := t\<rparr>" i e] e r1 lru
    by (intro exI [of _ d]) (simp add: d_def remove1_idem)
qed

definition evicted :: "('v, 'd) LRUCache \<Rightarrow> nat \<Rightarrow> ('v, 'd) LRUCache \<Rightarrow> bool" where
  "evicted c n d \<longleftrightarrow>
     lc_lru d = drop n (lc_lru c) \<and> lc_in_use d = lc_in_use c \<and> lc_store d = lc_store c |` (- set (take n (lc_lru c)))
     \<and> lc_ids d = lc_ids c - set (take n (lc_lru c)) \<and> lc_capacity d = lc_capacity c \<and> lc_next d = lc_next c"

lemma Cache_Evict_spec:
  assumes "cache_inv c"
  shows "\<exists>d n. Cache_Evict c = Some d \<and> cache_inv d \<and> evicted c n d \<and> (lc_usage d \<le> lc_capacity d \<or> lc_lru d = [])"
  using assms
proof (induction "lc_lru c" arbitrary: c)
  case Nil
  then have "Cache_Evict c = Some c" by (subst Cache_Evict.simps) simp
  with Nil show ?case by (intro exI [of _ c] exI [of _ 0]) (simp add: evicted_def restrict_map_def)
next
  case (Cons i rest)
  show ?case
  proof (cases "lc_usage c > lc_capacity c")
    case False
    then have "Cache_Evict c = Some c" by (subst Cache_Evict.simps) simp
    with Cons False show ?thesis by (intro exI [of _ c] exI [of _ 0]) (simp add: evicted_def restrict_map_def)
  next
    case True
    from Cache_Evict_step [OF Cons.prems True Cons.hyps(2) [symmetric]] obtain d where
      d: "Cache_Evict c = Cache_Evict d" "cache_inv d" "lc_lru d = rest" "lc_in_use d = lc_in_use c"
        "lc_store d = (lc_store c)(i := None)" "lc_ids d = lc_ids c - {i}" "lc_capacity d = lc_capacity c"
        "lc_next d = lc_next c"
      by blast
    from Cons.hyps(1) [OF d(3) [symmetric] d(2)] obtain d' n where
      d': "Cache_Evict d = Some d'" "cache_inv d'" "evicted d n d'" "lc_usage d' \<le> lc_capacity d' \<or> lc_lru d' = []"
      by blast
    have "evicted c (Suc n) d'"
      using d d'(3) Cons.hyps(2) [symmetric]
      by (auto simp: evicted_def restrict_map_def fun_eq_iff)
    with d d' show ?thesis by metis
  qed
qed

section \<open>Insert\<close>

lemma append_drop_commute:
  assumes "i \<noteq> j"
  shows "LRU_Append_in_use i (Cache_Drop j c) = Cache_Drop j (LRU_Append_in_use i c)"
  using assms by (auto simp: cache_step_defs remove1_append remove1_idem split: option.splits)

definition new_entry :: "bytes \<Rightarrow> 'v \<Rightarrow> nat \<Rightarrow> 'd option \<Rightarrow> ('v, 'd) LRUEntry" where
  "new_entry key v charge deleter =
     \<lparr>le_value = v, le_deleter = deleter, le_charge = charge, le_key = key,
      le_in_cache = True, le_refs = 2, le_hash = Hash key 0\<rparr>"

lemma Cache_Insert_pre:
  fixes c :: "('v, 'd) LRUCache"
  assumes inv: "cache_inv c" and room: "ht_count (lc_table c) < 2 ^ 31 - 1"
    and e: "e = new_entry key v charge deleter" and i: "i = lc_next c"
    and ins: "HT_Insert ((lc_store c)(i \<mapsto> e)) (lc_table c) i = (old, t)"
    and d: "d = c\<lparr>lc_store := (lc_store c)(i \<mapsto> e), lc_next := i + 1, lc_table := t, lc_usage := lc_usage c + charge,
      lc_in_use := lc_in_use c @ [i]\<rparr>"
  shows "old = HT_Lookup (lc_store c) (lc_table c) key (Hash key 0)" "cache_inv_but d (set_option old)"
    "lc_ids d = insert i (lc_ids c - set_option old)" "lc_store c i = None"
proof -
  have but: "cache_inv_but c {}" using inv by (simp add: cache_inv_def)
  note I = cache_butD [OF but]
  show fresh: "lc_store c i = None"
    using I(3) [of i] i by (cases "lc_store c i") auto
  then have il: "i \<notin> lc_ids c" using lc_ids_stored [OF but] by fastforce
  let ?st = "(lc_store c)(i \<mapsto> e)"
  have ok: "ht_ok ?st (lc_table c)"
    by (rule ht_ok_cong [OF I(1)]) (use il in \<open>auto simp: lc_ids_def\<close>)
  have e': "le_hash e = Hash (le_key e) 0" "le_key e = key" "le_charge e = charge" "le_refs e = 2" "le_in_cache e"
    by (simp_all add: e new_entry_def)
  have S: "old = HT_Lookup ?st (lc_table c) key (Hash key 0)" "ht_ok ?st t"
      "ht_ids t = insert i (ht_ids (lc_table c) - set_option old)"
    using HT_Insert_spec [OF ok _ e'(1) _ room ins] il e'(2) by (auto simp: lc_ids_def)
  have "HT_Lookup ?st (lc_table c) key (Hash key 0) = Some j
      \<longleftrightarrow> HT_Lookup (lc_store c) (lc_table c) key (Hash key 0) = Some j" for j
    using HT_Lookup_iff [OF ok, of key j] HT_Lookup_iff [OF I(1), of key j] il by (auto simp: lc_ids_def)
  then have "HT_Lookup ?st (lc_table c) key (Hash key 0) = HT_Lookup (lc_store c) (lc_table c) key (Hash key 0)"
    by (metis not_None_eq)
  with S(1) show old: "old = HT_Lookup (lc_store c) (lc_table c) key (Hash key 0)" by simp
  have oldi: "set_option old \<subseteq> lc_ids c"
    using HT_Lookup_iff [OF I(1), of key] by (auto simp: old lc_ids_def)
  show ids: "lc_ids d = insert i (lc_ids c - set_option old)"
    by (simp add: d lc_ids_def S(3))
  have "entry_inv d (set_option old) j x" if "lc_store d j = Some x" for j x
  proof (cases "j = i")
    case True
    moreover have "i \<notin> set (lc_lru c)" using I(7) fresh by (metis UnCI domIff)
    ultimately show ?thesis using that e' ids by (auto simp: d entry_inv_def)
  next
    case False
    with that have "entry_inv c {} j x" using I(10) by (simp add: d)
    with False ids oldi show ?thesis by (auto simp: entry_inv_def d)
  qed
  moreover have "set_option old \<inter> lc_ids d = {}" using ids oldi il by auto
  moreover have "lc_usage d = charge_of (lc_store d)"
    using charge_of_new [OF I(2) fresh, of e] I(9) e' by (simp add: d)
  moreover have "\<forall>j \<in> dom (lc_store d). j < lc_next d"
    using I(3) i by (fastforce simp: d)
  moreover have "distinct (lc_lru d @ lc_in_use d)" "set (lc_lru d) \<union> set (lc_in_use d) = dom (lc_store d)"
    using I(4-7) fresh by (auto simp: d)
  ultimately show "cache_inv_but d (set_option old)"
    using S(2) I(2) unfolding cache_inv_but_def by (simp add: d)
qed

text \<open>
  What an operation does to the other entries: none is altered, apart from its \<open>in_cache\<close> mark,
  and an entry with an outside reference stays allocated.
\<close>

definition store_step :: "('v, 'd) store \<Rightarrow> ('v, 'd) store \<Rightarrow> bool" where
  "store_step st st' \<longleftrightarrow>
     (\<forall>i e'. st' i = Some e' \<longrightarrow> (\<exists>e. st i = Some e \<and> e' = e\<lparr>le_in_cache := le_in_cache e'\<rparr>))
     \<and> (\<forall>i e. st i = Some e \<longrightarrow> 2 \<le> le_refs e \<longrightarrow> (\<exists>e'. st' i = Some e' \<and> e' = e\<lparr>le_in_cache := le_in_cache e'\<rparr>))"

lemma store_step_refl: "store_step st st"
  by (simp add: store_step_def)

lemma store_step_trans:
  assumes "store_step a b" "store_step b d" shows "store_step a d"
  unfolding store_step_def
proof (intro conjI allI impI)
  fix i e' assume "d i = Some e'"
  with assms(2) obtain e1 where e1: "b i = Some e1" "e' = e1\<lparr>le_in_cache := le_in_cache e'\<rparr>"
    unfolding store_step_def by blast
  with assms(1) obtain e where e: "a i = Some e" "e1 = e\<lparr>le_in_cache := le_in_cache e1\<rparr>"
    unfolding store_step_def by blast
  then have "e' = e\<lparr>le_in_cache := le_in_cache e'\<rparr>"
    using e1(2) by (metis LRUEntry.update_convs(5) LRUEntry.surjective)
  with e show "\<exists>e. a i = Some e \<and> e' = e\<lparr>le_in_cache := le_in_cache e'\<rparr>" by blast
next
  fix i e assume e: "a i = Some e" "2 \<le> le_refs e"
  with assms(1) obtain e1 where e1: "b i = Some e1" "e1 = e\<lparr>le_in_cache := le_in_cache e1\<rparr>"
    unfolding store_step_def by blast
  then have "le_refs e1 = le_refs e" by (metis LRUEntry.select_convs(6) LRUEntry.update_convs(5) LRUEntry.surjective)
  with e e1(1) assms(2) obtain e2 where e2: "d i = Some e2" "e2 = e1\<lparr>le_in_cache := le_in_cache e2\<rparr>"
    unfolding store_step_def by metis
  then have "e2 = e\<lparr>le_in_cache := le_in_cache e2\<rparr>"
    using e1(2) by (metis LRUEntry.update_convs(5) LRUEntry.surjective)
  with e2 show "\<exists>e'. d i = Some e' \<and> e' = e\<lparr>le_in_cache := le_in_cache e'\<rparr>" by blast
qed

lemma Cache_Drop_store_step:
  assumes "lc_store c i = Some e"
  shows "store_step (lc_store c) (lc_store (Cache_Drop i c))"
proof (cases "le_refs e = 1")
  case True
  with assms show ?thesis
    by (auto simp: store_step_def Cache_Drop_last split: if_splits)
next
  case False
  with assms show ?thesis
    by (auto simp: store_step_def Cache_Drop_shared split: if_splits)
qed

lemma Cache_Drop_fields:
  assumes "lc_store c i = Some e"
  shows "lc_table (Cache_Drop i c) = lc_table c" "lc_capacity (Cache_Drop i c) = lc_capacity c"
    "lc_next (Cache_Drop i c) = lc_next c" "lc_ids (Cache_Drop i c) = lc_ids c"
    "j \<noteq> i \<Longrightarrow> lc_store (Cache_Drop i c) j = lc_store c j"
  using assms by (cases "le_refs e = 1"; simp add: Cache_Drop_last Cache_Drop_shared lc_ids_def)+

lemma evicted_store_step:
  assumes inv: "cache_inv c" and ev: "evicted c n d"
  shows "store_step (lc_store c) (lc_store d)"
proof -
  have "le_refs e = 1" if "lc_store c i = Some e" "i \<in> set (take n (lc_lru c))" for i e
    using cache_butD(10) [of c "{}" i e] inv that set_take_subset [of n "lc_lru c"]
    by (auto simp: cache_inv_def entry_inv_def)
  with ev show ?thesis
    by (fastforce simp: evicted_def store_step_def restrict_map_def split: if_splits)
qed

lemma Cache_Insert_spec:
  fixes c :: "('v, 'd) LRUCache"
  assumes inv: "cache_inv c" and room: "ht_count (lc_table c) < 2 ^ 31 - 1" and pos: "0 < lc_capacity c" "0 < charge"
  shows "\<exists>d. Cache_Insert key v charge deleter c = Some (Some (lc_next c), d) \<and> cache_inv d
    \<and> lc_store d (lc_next c) = Some (new_entry key v charge deleter) \<and> lc_next c \<in> lc_ids d
    \<and> store_step ((lc_store c)(lc_next c \<mapsto> new_entry key v charge deleter)) (lc_store d)
    \<and> lc_ids d \<subseteq> insert (lc_next c) {i \<in> lc_ids c. le_key (the (lc_store c i)) \<noteq> key}
    \<and> (lc_usage d \<le> lc_capacity d \<or> lc_lru d = []) \<and> lc_capacity d = lc_capacity c"
proof -
  define i where "i = lc_next c"
  define e where "e = new_entry key v charge deleter"
  let ?st = "(lc_store c)(i \<mapsto> e)"
  obtain old t where ins: "HT_Insert ?st (lc_table c) i = (old, t)" by fastforce
  define b where "b = c\<lparr>lc_store := ?st, lc_next := i + 1, lc_table := t, lc_usage := lc_usage c + charge,
      lc_in_use := lc_in_use c @ [i]\<rparr>"
  note P = Cache_Insert_pre [OF inv room e_def i_def ins b_def]
  have but: "cache_inv_but c {}" using inv by (simp add: cache_inv_def)
  note I = cache_butD [OF but]
  define d where "d = (case old of None \<Rightarrow> b | Some j \<Rightarrow> Cache_Drop j b)"
  have ij: "lc_ids c \<subseteq> dom (lc_store c)" using lc_ids_stored [OF but] by blast
  have old: "j \<in> lc_ids c \<and> le_key (the (lc_store c j)) = key" if "old = Some j" for j
    using that P(1) HT_Lookup_iff [OF I(1)] by (simp add: lc_ids_def)
  have D: "cache_inv d \<and> lc_ids d = lc_ids b \<and> lc_store d i = Some e \<and> store_step ?st (lc_store d)
      \<and> lc_capacity d = lc_capacity c \<and> i \<notin> set (lc_lru d)"
  proof (cases old)
    case None
    moreover have "i \<notin> set (lc_lru c)" using I(7) P(4) by (metis UnCI domIff)
    ultimately show ?thesis
      using P(2) by (simp add: d_def cache_inv_def store_step_refl) (simp add: b_def store_step_refl)
  next
    case (Some j)
    have jc: "j \<in> lc_ids c" using old [OF Some] by simp
    then obtain x where x: "lc_store c j = Some x" using ij by blast
    then have ne: "j \<noteq> i" using P(4) by auto
    with x have bx: "lc_store b j = Some x" by (simp add: b_def)
    have dj: "d = Cache_Drop j b" by (simp add: d_def Some)
    have ci: "cache_inv d" using Cache_Drop_inv [of b j x] P(2) bx by (simp add: dj Some)
    have ei: "lc_store d i = Some e"
      using Cache_Drop_fields(5) [OF bx, of i] ne by (simp add: dj) (simp add: b_def)
    have "entry_inv d {} i e" using cache_butD(10) [of d "{}" i e] ci ei by (simp add: cache_inv_def)
    then have "i \<notin> set (lc_lru d)" by (simp add: entry_inv_def e_def new_entry_def)
    with ci ei Cache_Drop_fields [OF bx] Cache_Drop_store_step [OF bx] show ?thesis
      unfolding dj by (simp add: b_def)
  qed
  have eq: "Cache_Insert key v charge deleter c = Option.bind (Cache_Evict d) (\<lambda>c4. Some (Some i, c4))"
  proof (cases old)
    case None
    then show ?thesis
      using pos ins [unfolded e_def i_def new_entry_def]
      by (simp add: Cache_Insert_def lc_set_def LRU_Append_in_use_def d_def b_def e_def i_def new_entry_def Let_def)
  next
    case (Some j)
    have "j \<noteq> i" using old [OF Some] ij P(4) by auto
    have "LRU_Append_in_use i (Cache_Drop j (c\<lparr>lc_store := ?st, lc_next := i + 1, lc_table := t,
        lc_usage := lc_usage c + charge\<rparr>)) = Cache_Drop j b"
      using append_drop_commute [of i j "c\<lparr>lc_store := ?st, lc_next := i + 1, lc_table := t,
        lc_usage := lc_usage c + charge\<rparr>"] \<open>j \<noteq> i\<close>
      by (simp add: b_def) (simp add: LRU_Append_in_use_def)
    then show ?thesis
      using pos ins [unfolded e_def i_def new_entry_def] Some
      by (simp add: Cache_Insert_def lc_set_def d_def e_def i_def new_entry_def Let_def)
  qed
  obtain d' n where d': "Cache_Evict d = Some d'" "cache_inv d'" "evicted d n d'"
      "lc_usage d' \<le> lc_capacity d' \<or> lc_lru d' = []"
    using Cache_Evict_spec [of d] D by blast
  have it: "i \<notin> set (take n (lc_lru d))" using D set_take_subset [of n "lc_lru d"] by blast
  have "lc_store d' i = Some e" "i \<in> lc_ids d'" "lc_ids d' \<subseteq> lc_ids b" "lc_capacity d' = lc_capacity c"
    using d'(3) D it P(3) by (auto simp: evicted_def)
  moreover have "lc_ids b \<subseteq> insert i {i \<in> lc_ids c. le_key (the (lc_store c i)) \<noteq> key}"
  proof -
    have "set_option old = {j \<in> lc_ids c. le_key (the (lc_store c j)) = key}"
      unfolding P(1) using HT_Lookup_iff [OF I(1), of key] by (simp add: set_eq_iff elem_set lc_ids_def)
    then show ?thesis unfolding P(3) by auto
  qed
  moreover have "store_step ?st (lc_store d')"
    using D evicted_store_step [OF _ d'(3)] store_step_trans by blast
  ultimately show ?thesis
    using eq d' by (intro exI [of _ d']) (simp add: i_def e_def)
qed

section \<open>The contract of a read cache\<close>

text \<open>
  What the clients of a cache rely on: a hit returns the value that was inserted under the key, an
  insertion may evict other keys but changes no value, and a handle stays valid while it is held.
\<close>

locale read_cache =
  fixes inv :: "'s \<Rightarrow> bool" and abs :: "'s \<Rightarrow> bytes \<Rightarrow> 'v option" and room :: "'s \<Rightarrow> bool"
    and held :: "'s \<Rightarrow> 'h \<Rightarrow> bool"
    and look :: "bytes \<Rightarrow> 's \<Rightarrow> 'h option \<times> 's" and val :: "'s \<Rightarrow> 'h \<Rightarrow> 'v"
    and ins :: "bytes \<Rightarrow> 'v \<Rightarrow> nat \<Rightarrow> 'd option \<Rightarrow> 's \<Rightarrow> ('h option \<times> 's) option"
    and rel :: "'h \<Rightarrow> 's \<Rightarrow> 's"
  assumes look_miss: "inv s \<Longrightarrow> look k s = (None, s') \<Longrightarrow> s' = s \<and> abs s k = None"
    and look_hit: "inv s \<Longrightarrow> look k s = (Some h, s') \<Longrightarrow> inv s' \<and> abs s' = abs s \<and> abs s k = Some (val s' h) \<and> held s' h"
    and ins_ok: "inv s \<Longrightarrow> room s \<Longrightarrow> \<exists>h s'. ins k v n d s = Some (h, s') \<and> inv s' \<and> pred_option (held s') h
      \<and> pred_option (\<lambda>x. val s' x = v) h
      \<and> (\<forall>k'. abs s' k' = None \<or> abs s' k' = abs s k' \<or> k' = k \<and> abs s' k' = Some v)"
    and rel_ok: "inv s \<Longrightarrow> held s h \<Longrightarrow> inv (rel h s) \<and> abs (rel h s) = abs s"
begin

text \<open>Every cached value agrees with its source \<open>f\<close>; lookups and insertions from the source keep it so.\<close>

lemma look_coherent:
  assumes "inv s" "\<forall>k v. abs s k = Some v \<longrightarrow> f k = Some v" "look k s = (Some h, s')"
  shows "inv s'" "\<forall>k v. abs s' k = Some v \<longrightarrow> f k = Some v" "f k = Some (val s' h)" "held s' h"
  using look_hit [OF assms(1,3)] assms(2) by auto

lemma ins_coherent:
  assumes "inv s" "room s" "\<forall>k v. abs s k = Some v \<longrightarrow> f k = Some v" "f k = Some v"
  shows "\<exists>h s'. ins k v n d s = Some (h, s') \<and> inv s' \<and> pred_option (held s') h \<and> pred_option (\<lambda>x. val s' x = v) h
    \<and> (\<forall>k v. abs s' k = Some v \<longrightarrow> f k = Some v)"
proof -
  obtain h s' where "ins k v n d s = Some (h, s')" "inv s'" "pred_option (held s') h"
      "pred_option (\<lambda>x. val s' x = v) h"
      "\<forall>k'. abs s' k' = None \<or> abs s' k' = abs s k' \<or> k' = k \<and> abs s' k' = Some v"
    using ins_ok [OF assms(1,2)] by blast
  moreover from this(5) assms(3,4) have "\<forall>k v. abs s' k = Some v \<longrightarrow> f k = Some v"
    by (metis option.distinct(1))
  ultimately show ?thesis by blast
qed

end

definition cache_abs :: "('v, 'd) LRUCache \<Rightarrow> bytes \<Rightarrow> 'v option" where
  "cache_abs c key = map_option (Cache_Value c) (HT_Lookup (lc_store c) (lc_table c) key (Hash key 0))"

definition cache_held :: "('v, 'd) LRUCache \<Rightarrow> nat \<Rightarrow> bool" where
  "cache_held c i \<longleftrightarrow> (\<exists>e. lc_store c i = Some e \<and> 2 \<le> le_refs e)"

definition cache_room :: "('v, 'd) LRUCache \<Rightarrow> bool" where
  "cache_room c \<longleftrightarrow> ht_count (lc_table c) < 2 ^ 31 - 1"

lemma cache_abs_iff:
  assumes "cache_inv c"
  shows "cache_abs c key = Some v \<longleftrightarrow> (\<exists>i \<in> lc_ids c. \<exists>e. lc_store c i = Some e \<and> le_key e = key \<and> le_value e = v)"
proof -
  have but: "cache_inv_but c {}" using assms by (simp add: cache_inv_def)
  note I = cache_butD [OF but]
  have "cache_abs c key = Some v \<longleftrightarrow>
      (\<exists>i. HT_Lookup (lc_store c) (lc_table c) key (Hash key 0) = Some i \<and> Cache_Value c i = v)"
    by (auto simp: cache_abs_def)
  also have "\<dots> \<longleftrightarrow> (\<exists>i \<in> lc_ids c. le_key (lc_entry c i) = key \<and> le_value (lc_entry c i) = v)"
    using HT_Lookup_iff [OF I(1), of key] by (auto simp: Cache_Value_def lc_entry_def lc_ids_def)
  also have "\<dots> \<longleftrightarrow> (\<exists>i \<in> lc_ids c. \<exists>e. lc_store c i = Some e \<and> le_key e = key \<and> le_value e = v)"
  proof (rule bex_cong [OF refl])
    fix i assume "i \<in> lc_ids c"
    from lc_ids_stored [OF but this] obtain e where "lc_store c i = Some e" by blast
    then show "(le_key (lc_entry c i) = key \<and> le_value (lc_entry c i) = v)
        = (\<exists>e. lc_store c i = Some e \<and> le_key e = key \<and> le_value e = v)"
      by (simp add: lc_entry_def)
  qed
  finally show ?thesis .
qed

lemma cache_abs_eqI:
  assumes "cache_inv c" "cache_inv d" "lc_ids d = lc_ids c"
    and "\<And>i e. i \<in> lc_ids c \<Longrightarrow> lc_store c i = Some e \<Longrightarrow>
      \<exists>e'. lc_store d i = Some e' \<and> le_key e' = le_key e \<and> le_value e' = le_value e"
  shows "cache_abs d = cache_abs c"
proof
  fix key
  have but: "cache_inv_but c {}" using assms(1) by (simp add: cache_inv_def)
  have "cache_abs d key = Some v \<longleftrightarrow> cache_abs c key = Some v" for v
    unfolding cache_abs_iff [OF assms(1)] cache_abs_iff [OF assms(2)] assms(3)
  proof (rule bex_cong [OF refl])
    fix i assume i: "i \<in> lc_ids c"
    from lc_ids_stored [OF but i] obtain e where e: "lc_store c i = Some e" by blast
    from assms(4) [OF i e] obtain e' where "lc_store d i = Some e'" "le_key e' = le_key e" "le_value e' = le_value e"
      by blast
    with e show "(\<exists>e. lc_store d i = Some e \<and> le_key e = key \<and> le_value e = v)
        = (\<exists>e. lc_store c i = Some e \<and> le_key e = key \<and> le_value e = v)" by simp
  qed
  then show "cache_abs d key = cache_abs c key" by (metis not_None_eq)
qed

lemma Cache_Ref_fields:
  "lc_ids (Cache_Ref i c) = lc_ids c"
  "lc_store (Cache_Ref i c) = (lc_store c)(i \<mapsto> (lc_entry c i)\<lparr>le_refs := le_refs (lc_entry c i) + 1\<rparr>)"
  by (simp_all add: cache_step_defs lc_ids_def)

lemma Cache_Release_fields:
  assumes "lc_store c i = Some e" "2 \<le> le_refs e"
  shows "lc_ids (Cache_Release i c) = lc_ids c"
    "lc_store (Cache_Release i c) = (lc_store c)(i \<mapsto> e\<lparr>le_refs := le_refs e - 1\<rparr>)"
    "lc_calls (Cache_Release i c) = lc_calls c"
  using assms by (auto simp: Cache_Release_def cache_step_defs lc_ids_def)

lemma Cache_Insert_zero:
  "\<not> (0 < lc_capacity c \<and> 0 < charge) \<Longrightarrow> Cache_Insert key v charge deleter c = Some (None, c)"
  by (auto simp: Cache_Insert_def)

lemma Cache_Insert_abs:
  assumes inv: "cache_inv c" and d: "cache_inv d"
    and st: "lc_store d (lc_next c) = Some (new_entry key v charge deleter)"
      "store_step ((lc_store c)(lc_next c \<mapsto> new_entry key v charge deleter)) (lc_store d)"
      "lc_ids d \<subseteq> insert (lc_next c) {i \<in> lc_ids c. le_key (the (lc_store c i)) \<noteq> key}"
  shows "cache_abs d k = None \<or> cache_abs d k = cache_abs c k \<or> k = key \<and> cache_abs d k = Some v"
proof (cases "cache_abs d k")
  case (Some x)
  then obtain i e where i: "i \<in> lc_ids d" "lc_store d i = Some e" "le_key e = k" "le_value e = x"
    using cache_abs_iff [OF d] by blast
  show ?thesis
  proof (cases "i = lc_next c")
    case True
    with i st(1) Some show ?thesis by (auto simp: new_entry_def)
  next
    case False
    with i st(3) have ic: "i \<in> lc_ids c" by auto
    from st(2) i(2) False obtain e0 where "lc_store c i = Some e0" "e = e0\<lparr>le_in_cache := le_in_cache e\<rparr>"
      unfolding store_step_def by fastforce
    then have "lc_store c i = Some e0 \<and> le_key e0 = k \<and> le_value e0 = x"
      using i(3,4) by (metis LRUEntry.select_convs(1,4) LRUEntry.surjective LRUEntry.update_convs(5))
    with ic have "cache_abs c k = Some x"
      using cache_abs_iff [OF inv] by blast
    with Some show ?thesis by simp
  qed
qed simp

interpretation lru: read_cache cache_inv cache_abs cache_room cache_held Cache_Lookup Cache_Value Cache_Insert Cache_Release
proof (unfold_locales, goal_cases)
  case (1 s k s')
  then show ?case by (auto simp: Cache_Lookup_def cache_abs_def split: option.splits)
next
  case (2 s k h s')
  then have h: "HT_Lookup (lc_store s) (lc_table s) k (Hash k 0) = Some h" and s': "s' = Cache_Ref h s"
    by (auto simp: Cache_Lookup_def split: option.splits)
  have but: "cache_inv_but s {}" using 2 by (simp add: cache_inv_def)
  have hi: "h \<in> lc_ids s" using h HT_Lookup_iff [OF cache_butD(1) [OF but]] by (simp add: lc_ids_def)
  then obtain e where e: "lc_store s h = Some e" using lc_ids_stored [OF but] by blast
  then have "1 \<le> le_refs e" using cache_butD(10) [OF but] by (auto simp: entry_inv_def)
  have inv': "cache_inv s'" unfolding s' by (rule Cache_Ref_inv [OF 2(1) hi e])
  moreover have "cache_abs s' = cache_abs s"
    by (rule cache_abs_eqI [OF 2(1) inv']) (use e in \<open>auto simp: s' Cache_Ref_fields lc_entry_def\<close>)
  moreover have "cache_abs s k = Some (Cache_Value s' h)"
    using h e by (simp add: cache_abs_def Cache_Value_def lc_entry_def s' Cache_Ref_fields)
  moreover have "cache_held s' h"
    using e \<open>1 \<le> le_refs e\<close> by (simp add: cache_held_def s' Cache_Ref_fields lc_entry_def)
  ultimately show ?case by simp
next
  case (3 s k v n d)
  show ?case
  proof (cases "0 < lc_capacity s \<and> 0 < n")
    case False
    with 3 Cache_Insert_zero [OF False, of k v d] show ?thesis by simp
  next
    case True
    with Cache_Insert_spec [of s n k v d] 3 obtain s' where
      "Cache_Insert k v n d s = Some (Some (lc_next s), s')" "cache_inv s'"
      "lc_store s' (lc_next s) = Some (new_entry k v n d)"
      "store_step ((lc_store s)(lc_next s \<mapsto> new_entry k v n d)) (lc_store s')"
      "lc_ids s' \<subseteq> insert (lc_next s) {i \<in> lc_ids s. le_key (the (lc_store s i)) \<noteq> k}"
      by (auto simp: cache_room_def)
    with Cache_Insert_abs [OF 3(1) this(2-5)] show ?thesis
      by (auto simp: cache_held_def Cache_Value_def lc_entry_def new_entry_def)
  qed
next
  case (4 s h)
  then obtain e where e: "lc_store s h = Some e" "2 \<le> le_refs e" by (auto simp: cache_held_def)
  have "cache_inv (Cache_Release h s)" by (rule Cache_Release_inv [OF 4(1) e])
  moreover from this have "cache_abs (Cache_Release h s) = cache_abs s"
    by (rule cache_abs_eqI [OF 4(1)]) (use e Cache_Release_fields [OF e] in auto)
  ultimately show ?case by simp
qed

section \<open>An entry that is never freed\<close>

text \<open>
  A pinned entry that is erased (or overwritten) keeps the cache's own reference: when its last
  handle is released it stays in \<open>in_use_\<close> with one reference and its deleter is not called.
\<close>

lemma erased_entry_leaks:
  assumes e: "lc_store c i = Some e" "le_refs e = 2" "\<not> le_in_cache e" "i \<in> set (lc_in_use c)"
  shows "lc_store (Cache_Release i c) i = Some (e\<lparr>le_refs := 1\<rparr>)" "i \<in> set (lc_in_use (Cache_Release i c))"
    "lc_usage (Cache_Release i c) = lc_usage c" "lc_calls (Cache_Release i c) = lc_calls c"
  using assms by (auto simp: Cache_Release_def cache_step_defs)

end
