(* ===== verification/Tables.thy ===== *)
theory Tables
  imports TableBuilders TwoLevels Caches Strings
begin

text \<open>
  Reading a table (db/table.cc) and the cache of open tables (db/table_cache.cc). A file is a
  \<open>random_read\<close>, the shared block cache is an argument that is returned, and \<open>None\<close> is a call that
  does not return (a loop that does not end, or a dereferenced null pointer). What \<open>delete\<close> does to
  an iterator is its cleanup function.
\<close>

section \<open>Opening\<close>

record Table =
  tbl_options :: Options
  tbl_file :: random_read
  tbl_cache_id :: u64
  tbl_metaindex_handle :: BlockHandle
  tbl_index_block :: Block
  tbl_filter :: "FilterBlockReader option"

definition meta_read_options :: "Options \<Rightarrow> ReadOptions" where
  "meta_read_options opt = \<lparr>ro_verify_checksums = op_paranoid_checks opt, ro_fill_cache = True\<rparr>"

definition Table_ReadFilter :: "bytes \<Rightarrow> Table \<Rightarrow> Table option" where
  "Table_ReadFilter filter_handle_value t =
     (case BlockHandle_DecodeFrom filter_handle_value of
        Inl _ \<Rightarrow> Some t
      | Inr (filter_handle, _) \<Rightarrow>
          map_option (\<lambda>r. case r of
              Inl _ \<Rightarrow> t
            | Inr contents \<Rightarrow> t\<lparr>tbl_filter := Some (FilterBlockReader_new (bc_data contents))\<rparr>)
            (ReadBlock (tbl_file t) (meta_read_options (tbl_options t)) filter_handle))"

definition Table_ReadMeta :: "Footer \<Rightarrow> Table \<Rightarrow> Table option" where
  "Table_ReadMeta footer t =
     (case op_filter_policy (tbl_options t) of
        None \<Rightarrow> Some t
      | Some policy \<Rightarrow>
          Option.bind (ReadBlock (tbl_file t) (meta_read_options (tbl_options t)) (ft_metaindex_handle footer)) (\<lambda>r.
            case r of
              Inl _ \<Rightarrow> Some t
            | Inr contents \<Rightarrow>
                let ops = Block_ops BytewiseComparator; key = filter_key policy
                in Option.bind (it_Seek ops (Block_NewIterator (Block_new (bc_data contents))) key) (\<lambda>iter.
                     if it_Valid ops iter \<and> Slice_eq (it_key ops iter) key
                     then Table_ReadFilter (it_value ops iter) t else Some t)))"

text \<open>
  The result with the next identifier of the block cache, which \<open>NewId\<close> hands out when there is a
  cache.
\<close>

definition Table_Open :: "Options \<Rightarrow> random_read \<Rightarrow> u64 \<Rightarrow> u64 \<Rightarrow> ((Status + Table) \<times> u64) option" where
  "Table_Open options file file_size next_id =
     (if unat file_size < kEncodedLength
      then Some (Inl (Corruption (lit ''file is too short to be an sstable'') []), next_id)
      else Option.bind (file (unat file_size - kEncodedLength) kEncodedLength) (\<lambda>(status, footer_input, _).
        if \<not> ok status then Some (Inl status, next_id)
        else case Footer_DecodeFrom footer_input of
               Inl status \<Rightarrow> Some (Inl status, next_id)
             | Inr (footer, _) \<Rightarrow>
                 Option.bind (ReadBlock file (meta_read_options options) (ft_index_handle footer)) (\<lambda>r.
                   case r of
                     Inl status \<Rightarrow> Some (Inl status, next_id)
                   | Inr index_contents \<Rightarrow>
                       let (cache_id, next_id) = (if op_block_cache options then Cache_NewId next_id else (0, next_id));
                           t = \<lparr>tbl_options = options, tbl_file = file, tbl_cache_id = cache_id,
                                tbl_metaindex_handle = ft_metaindex_handle footer,
                                tbl_index_block = Block_new (bc_data index_contents), tbl_filter = None\<rparr>
                       in map_option (\<lambda>t. (Inr t, next_id)) (Table_ReadMeta footer t))))"

section \<open>Reading blocks through the cache\<close>

datatype cached_block_deleter = DeleteCachedBlock

type_synonym block_cache = "(Block, cached_block_deleter) LRUCache"

datatype block_cleanup = DeleteBlock Block | ReleaseCachedBlock nat

definition block_cache_key :: "Table \<Rightarrow> BlockHandle \<Rightarrow> bytes" where
  "block_cache_key t handle = EncodeFixed64 (tbl_cache_id t) @ EncodeFixed64 (bh_offset handle)"

text \<open>The block of a handle, with the cache handle that pins it, if any.\<close>

definition FindBlock ::
    "Table \<Rightarrow> ReadOptions \<Rightarrow> BlockHandle \<Rightarrow> block_cache option \<Rightarrow> ((Status + Block \<times> nat option) \<times> block_cache option) option" where
  "FindBlock t options handle block_cache =
     (case block_cache of
        Some c \<Rightarrow>
          let key = block_cache_key t handle
          in (case Cache_Lookup key c of
                (Some h, c) \<Rightarrow> Some (Inr (Cache_Value c h, Some h), Some c)
              | (None, c) \<Rightarrow>
                  Option.bind (ReadBlock (tbl_file t) options handle) (\<lambda>r.
                    case r of
                      Inl status \<Rightarrow> Some (Inl status, Some c)
                    | Inr contents \<Rightarrow>
                        let block = Block_new (bc_data contents)
                        in if bc_cachable contents \<and> ro_fill_cache options
                           then map_option (\<lambda>(h, c). (Inr (block, h), Some c))
                                  (Cache_Insert key block (blk_size block) (Some DeleteCachedBlock) c)
                           else Some (Inr (block, None), Some c)))
      | None \<Rightarrow>
          map_option (\<lambda>r. (case r of Inl status \<Rightarrow> Inl status
                            | Inr contents \<Rightarrow> Inr (Block_new (bc_data contents), None), None))
            (ReadBlock (tbl_file t) options handle))"

definition BlockReader ::
    "Table \<Rightarrow> ReadOptions \<Rightarrow> bytes \<Rightarrow> block_cache option \<Rightarrow> (BlockIterator \<times> block_cleanup option \<times> block_cache option) option" where
  "BlockReader t options index_value block_cache =
     (case BlockHandle_DecodeFrom index_value of
        Inl status \<Rightarrow> Some (Inl (NewErrorIterator status), None, block_cache)
      | Inr (handle, _) \<Rightarrow>
          map_option (\<lambda>(r, block_cache). case r of
              Inl status \<Rightarrow> (Inl (NewErrorIterator status), None, block_cache)
            | Inr (block, cache_handle) \<Rightarrow>
                (Block_NewIterator block,
                 Some (case cache_handle of None \<Rightarrow> DeleteBlock block | Some h \<Rightarrow> ReleaseCachedBlock h), block_cache))
            (FindBlock t options handle block_cache))"

text \<open>Deleting an iterator runs its cleanup.\<close>

definition block_cleanup_run :: "block_cleanup option \<Rightarrow> block_cache option \<Rightarrow> block_cache option" where
  "block_cleanup_run cl block_cache =
     (case cl of Some (ReleaseCachedBlock h) \<Rightarrow> map_option (Cache_Release h) block_cache | _ \<Rightarrow> block_cache)"

text \<open>
  The block function of a table iterator. The iterator is modelled without the shared cache: a
  coherent cache returns the same blocks (\<open>BlockReader_cached\<close>).
\<close>

definition Table_block_function :: "Table \<Rightarrow> ReadOptions \<Rightarrow> BlockIterator block_function" where
  "Table_block_function t options index_value = map_option fst (BlockReader t options index_value None)"

type_synonym TableIterator = "(BlockIterator, BlockIterator) TwoLevel"

definition Table_iter_ops :: "Table \<Rightarrow> ReadOptions \<Rightarrow> TableIterator iter_ops" where
  "Table_iter_ops t options =
     TwoLevel_ops (Block_ops (op_comparator (tbl_options t))) (Block_ops (op_comparator (tbl_options t))) (Table_block_function t options)"

definition Table_NewIterator :: "Table \<Rightarrow> TableIterator" where
  "Table_NewIterator t =
     NewTwoLevelIterator (Block_ops (op_comparator (tbl_options t))) (Block_NewIterator (tbl_index_block t))"

section \<open>Point lookups\<close>

text \<open>The callback \<open>handle_result\<close> transforms its argument.\<close>

definition Table_InternalGet ::
    "Table \<Rightarrow> ReadOptions \<Rightarrow> bytes \<Rightarrow> (bytes \<Rightarrow> bytes \<Rightarrow> 'a \<Rightarrow> 'a) \<Rightarrow> 'a \<Rightarrow> block_cache option \<Rightarrow> (Status \<times> 'a \<times> block_cache option) option" where
  "Table_InternalGet t options key handle_result arg block_cache =
     (let ops = Block_ops (op_comparator (tbl_options t));
          finish = (\<lambda>index_iter status arg c.
            Some (if ok status then it_status ops index_iter else status, arg, c))
      in Option.bind (it_Seek ops (Block_NewIterator (tbl_index_block t)) key) (\<lambda>index_iter.
           if \<not> it_Valid ops index_iter then finish index_iter OK arg block_cache
           else case BlockHandle_DecodeFrom (it_value ops index_iter) of
                  Inl status \<Rightarrow> finish index_iter status arg block_cache
                | Inr (handle, _) \<Rightarrow>
                    let may_match = (case (tbl_filter t, op_filter_policy (tbl_options t)) of
                          (Some reader, Some policy) \<Rightarrow> FilterBlock_KeyMayMatch policy reader (unat (bh_offset handle)) key
                        | _ \<Rightarrow> True)
                    in if \<not> may_match then finish index_iter OK arg block_cache
                       else Option.bind (BlockReader t options (it_value ops index_iter) block_cache) (\<lambda>(data_iter, cl, c).
                            Option.bind (it_Seek ops data_iter key) (\<lambda>data_iter.
                              let arg = (if it_Valid ops data_iter
                                         then handle_result (it_key ops data_iter) (it_value ops data_iter) arg else arg)
                              in finish index_iter (it_status ops data_iter) arg (block_cleanup_run cl c)))))"

section \<open>A written table is read back\<close>

sublocale comparator_laws \<subseteq> table:
    two_level c dm "Block_ops c" "case_sum at_empty (at_block c dm)" "Block_ops c" "case_sum at_empty (at_block c dm)"
proof (unfold_locales, goal_cases)
  case (1 a b t)
  then show ?case by (rule cmp_le_less_trans)
next
  case (2 a b t)
  then show ?case using cmp_less_trans [of a b t] by blast
qed

text \<open>The entries of the block a handle names.\<close>

definition content_of :: "written list \<Rightarrow> bytes \<Rightarrow> entries" where
  "content_of fl h =
     (case map_of (map (\<lambda>(off, bes, raw). (BlockHandle_EncodeTo (handle_of off raw) [], bes)) fl) h of
        None \<Rightarrow> [] | Some bes \<Rightarrow> bes)"

lemma BlockHandle_Encode_inj:
  assumes "BlockHandle_EncodeTo h [] = BlockHandle_EncodeTo h' []" shows "h = h'"
proof -
  have "Inr (h, []) = (Inr (h', []) :: Status + BlockHandle \<times> bytes)"
    using BlockHandle_Decode_Encode [of h "[]"] BlockHandle_Decode_Encode [of h' "[]"] assms by simp
  then show ?thesis by simp
qed

lemma handle_of_unat: "off < 2 ^ 64 \<Longrightarrow> unat (bh_offset (handle_of off raw)) = off"
    "length raw < 2 ^ 64 \<Longrightarrow> unat (bh_size (handle_of off raw)) = length raw"
  by (simp_all add: handle_of_def unat_of_nat take_bit_nat_eq_self)

lemma content_of_nth:
  assumes bl: "blocks_ok D fl" and fits: "length D < 2 ^ 64" and i: "i < length fl"
  shows "content_of fl (BlockHandle_EncodeTo (handle_of (fst (fl ! i)) (snd (snd (fl ! i)))) []) = fst (snd (fl ! i))"
proof -
  let ?f = "\<lambda>(off, bes, raw). (BlockHandle_EncodeTo (handle_of off raw) [], bes)"
  have s: "sorted_wrt (<) (map fst fl @ [length D])" using bl by (simp add: blocks_ok_def)
  then have lt: "fst w < length D" if "w \<in> set fl" for w
    using that by (auto simp: sorted_wrt_append)
  have dist: "distinct (map fst fl)" using s by (simp add: strict_sorted_iff sorted_wrt_append)
  then have "distinct fl" by (simp add: distinct_map)
  moreover have "inj_on (\<lambda>w. BlockHandle_EncodeTo (handle_of (fst w) (snd (snd w))) []) (set fl)"
  proof (rule inj_onI)
    fix v w assume v: "v \<in> set fl" and w: "w \<in> set fl"
      and e: "BlockHandle_EncodeTo (handle_of (fst v) (snd (snd v))) [] = BlockHandle_EncodeTo (handle_of (fst w) (snd (snd w))) []"
    have "bh_offset (handle_of (fst v) (snd (snd v))) = bh_offset (handle_of (fst w) (snd (snd w)))"
      by (rule arg_cong [OF BlockHandle_Encode_inj [OF e]])
    moreover have "fst v < 2 ^ 64" "fst w < 2 ^ 64"
      using lt [OF v] lt [OF w] fits by linarith+
    ultimately have "fst v = fst w" using handle_of_unat(1) by metis
    then show "v = w"
      using inj_onD [OF distinct_map [THEN iffD1, OF dist, THEN conjunct2] _ v w]
      by simp
  qed
  ultimately have "distinct (map (\<lambda>w. BlockHandle_EncodeTo (handle_of (fst w) (snd (snd w))) []) fl)"
    by (simp add: distinct_map)
  moreover have "map fst (map ?f fl) = map (\<lambda>w. BlockHandle_EncodeTo (handle_of (fst w) (snd (snd w))) []) fl"
    by (simp add: case_prod_beta)
  ultimately have d: "distinct (map fst (map ?f fl))" by (simp only:)
  have "?f (fl ! i) \<in> set (map ?f fl)" using i by simp
  then have "(fst (?f (fl ! i)), snd (?f (fl ! i))) \<in> set (map ?f fl)" by (simp only: prod.collapse)
  then have "map_of (map ?f fl) (fst (?f (fl ! i))) = Some (snd (?f (fl ! i)))"
    by (rule map_of_is_SomeI [OF d])
  then show ?thesis by (simp add: content_of_def case_prod_beta)
qed

lemma all_entries_content:
  assumes "\<And>i. i < length fl \<Longrightarrow> snd (ies ! i) = BlockHandle_EncodeTo (handle_of (fst (fl ! i)) (snd (snd (fl ! i)))) []"
    and "length ies = length fl" "blocks_ok D fl" "length D < 2 ^ 64"
  shows "all_entries (content_of fl) (drop k ies) = written_entries (drop k fl)"
proof -
  have "map (\<lambda>e. content_of fl (snd e)) ies = map (\<lambda>w. fst (snd w)) fl"
    using assms(1,2) content_of_nth [OF assms(3,4)] by (intro nth_equalityI) simp_all
  then show ?thesis
    by (simp add: all_entries_def written_entries_def drop_map [symmetric])
qed

lemma index_separated:
  assumes ix: "index_ok c dm fl [] ies" and bl: "blocks_ok D fl" "length D < 2 ^ 64"
  shows "separated c (content_of fl) ies" "all_entries (content_of fl) ies = written_entries fl"
proof -
  have len: "length ies = length fl" and snd: "\<And>i. i < length fl \<Longrightarrow>
      snd (ies ! i) = BlockHandle_EncodeTo (handle_of (fst (fl ! i)) (snd (snd (fl ! i)))) []"
    using ix by (auto simp: index_ok_def)
  note ae = all_entries_content [OF snd len bl]
  show "all_entries (content_of fl) ies = written_entries fl" using ae [of 0] by simp
  show "separated c (content_of fl) ies"
    using ix content_of_nth [OF bl] ae unfolding separated_def index_ok_def by simp
qed

text \<open>
  Where a lookup of \<open>k\<close> may find nothing although entries from \<open>k\<close> on exist: just above an entry, up to
  the separator of this entry and the next.
\<close>

definition missed :: "comparator \<Rightarrow> entries \<Rightarrow> bytes \<Rightarrow> bool" where
  "missed c es k \<longleftrightarrow> (let lb = lower_bound c es k in
     lb < length es \<longrightarrow> 0 < lb \<and> Compare c k (FindShortestSeparator c (fst (es ! (lb - 1))) (fst (es ! lb))) \<le> 0)"

text \<open>The index and the filter of an open table are those that were written to \<open>D\<close>.\<close>

definition filter_reads :: "filter_policy_ops option \<Rightarrow> bytes \<Rightarrow> written list \<Rightarrow> FilterBlockReader option \<Rightarrow> bool" where
  "filter_reads pol D fl fr \<longleftrightarrow>
     (case (pol, fr) of
        (None, None) \<Rightarrow> True
      | (Some p, Some r) \<Rightarrow> \<exists>n raw. (\<forall>w \<in> set fl. fst w \<le> n) \<and> n \<le> length D \<and> length raw < 2 ^ 32
            \<and> raw = FilterBlock_Finish p (AddBlocks p (filter_blocks fl n []) FilterBlockBuilder_new)
            \<and> r = FilterBlockReader_new raw
      | _ \<Rightarrow> False)"

definition table_of ::
    "Options \<Rightarrow> (bytes \<Rightarrow> bool) \<Rightarrow> random_read \<Rightarrow> bytes \<Rightarrow> Table \<Rightarrow> entries \<Rightarrow> written list \<Rightarrow> entries \<Rightarrow> bool" where
  "table_of opt dm read D t es fl ies \<longleftrightarrow>
     tbl_options t = opt \<and> tbl_file t = read \<and> blocks_ok D fl \<and> es = written_entries fl
     \<and> index_ok (op_comparator opt) dm fl [] ies
     \<and> (\<exists>raw. tbl_index_block t = Block_new raw \<and> block_of raw ies \<and> length raw < 2 ^ 32)
     \<and> sorted_wrt (\<lambda>a b. key_lt (op_comparator opt) (fst a) (fst b)) es \<and> (\<forall>e \<in> set es. dm (fst e))
     \<and> filter_reads (op_filter_policy opt) D fl (tbl_filter t)"

locale table_reader = rd: random_file read D inb + cmp: comparator_laws "op_comparator opt" dm
  for read :: random_read and D :: bytes and inb :: bool and opt :: Options and dm :: "bytes \<Rightarrow> bool" +
  assumes fits: "length D < 2 ^ 32"

context comparator_laws
begin

lemma block_of_at:
  assumes "block_of raw es" "length raw < 2 ^ 32" "sorted_wrt (\<lambda>a b. key_lt c (fst a) (fst b)) es" "\<forall>e \<in> set es. dm (fst e)"
  shows "case_sum at_empty (at_block c dm) (Block_NewIterator (Block_new raw)) es (length es)"
proof -
  obtain b offs rs where b: "build_inv b es offs rs" "raw = fst (BB_Finish b)" using assms(1) by (auto simp: block_of_def)
  obtain it where it: "Block_NewIterator (Block_new raw) = Inr it" "bi_at it es offs rs (length es)"
    using Finish_NewIterator [OF b(1)] assms(2) b(2) by blast
  from at_blockI [OF it(2) assms(3,4)] it(1) show ?thesis by simp
qed

lemma index_ok_sorted:
  assumes ix: "index_ok c dm fl rest ies" and ne: "\<forall>(off, bes, raw) \<in> set fl. bes \<noteq> []"
    and d: "\<forall>e \<in> set (written_entries fl). dm (fst e)"
  shows "sorted_wrt (\<lambda>a b. key_lt c (fst a) (fst b)) ies" "\<forall>e \<in> set ies. dm (fst e)"
proof -
  have len: "length ies = length fl" using ix by (simp add: index_ok_def)
  show dom: "\<forall>e \<in> set ies. dm (fst e)" using ix len by (metis (no_types, lifting) index_ok_def in_set_conv_nth)
  show "sorted_wrt (\<lambda>a b. key_lt c (fst a) (fst b)) ies"
    unfolding sorted_wrt_iff_nth_less
  proof (intro allI impI)
    fix i j assume ij: "i < j" "j < length ies"
    obtain off bes raw where j: "fl ! j = (off, bes, raw)" by (cases "fl ! j")
    have "fl ! j \<in> set fl" using ij len by simp
    with j ne obtain e where e: "e \<in> set bes" by (cases bes) fastforce+
    have "fl ! j = drop (Suc i) fl ! (j - Suc i)" using ij len by simp
    then have "fl ! j \<in> set (drop (Suc i) fl)" using ij len by (metis nth_mem length_drop diff_less_mono Suc_leI)
    then have ed: "e \<in> set (written_entries (drop (Suc i) fl))" "e \<in> set (written_entries fl)"
      using e j by (auto simp: written_entries_def dest: in_set_dropD intro!: bexI [of _ "fl ! j"])
    have "key_lt c (fst (ies ! i)) (fst e)" "Compare c (fst e) (fst (ies ! j)) \<le> 0"
      using ix ij len ed e j unfolding index_ok_def by auto
    moreover have "dm (fst (ies ! i))" "dm (fst (ies ! j))" "dm (fst e)" using dom ij d ed by auto
    ultimately show "key_lt c (fst (ies ! i)) (fst (ies ! j))" using cmp_less_le_trans by blast
  qed
qed

end

context table_reader
begin

lemma ReadBlock_at:
  assumes "stored D off raw"
  shows "ReadBlock read options (handle_of off raw) = Some (Inr \<lparr>bc_data = raw, bc_cachable = inb, bc_heap_allocated = inb\<rparr>)"
proof -
  obtain pre post where D: "D = pre @ raw @ block_trailer raw kNoCompression @ post" "length pre = off"
    using assms by (auto simp: stored_def)
  show ?thesis
    by (rule rd.ReadBlock_stored [OF D(1)]) (use D fits in \<open>simp_all add: handle_of_unat\<close>)
qed

lemma stored_short: "stored D off raw \<Longrightarrow> length raw < 2 ^ 32"
  using stored_less [of D off raw] fits by simp

lemma metaindex_seek:
  assumes "block_of raw mes" "length raw < 2 ^ 32" "length mes \<le> 1"
  shows "\<exists>it. it_Seek (Block_ops BytewiseComparator) (Block_NewIterator (Block_new raw)) key = Some it
    \<and> case_sum at_empty (at_block BytewiseComparator (\<lambda>_. True)) it mes (lower_bound BytewiseComparator mes key)"
proof -
  have "sorted_wrt (\<lambda>a b. key_lt BytewiseComparator (fst a) (fst b)) mes"
    using assms(3) by (cases mes) auto
  from bytewise.block.at_Seek [OF bytewise.block_of_at [OF assms(1,2) this]]
  show ?thesis by simp
qed

lemma ReadMeta_filter:
  assumes opts: "tbl_options t = opt" "tbl_file t = read" "tbl_filter t = None"
    and meta: "ft_metaindex_handle footer = handle_of moff mraw" "stored D moff mraw" "block_of mraw mes"
    and fo: "filter_ok (op_filter_policy opt) D fl mes"
  shows "\<exists>fr. Table_ReadMeta footer t = Some (t\<lparr>tbl_filter := fr\<rparr>) \<and> filter_reads (op_filter_policy opt) D fl fr"
proof (cases "op_filter_policy opt")
  case None
  have "t\<lparr>tbl_filter := None\<rparr> = t" using opts(3) by simp
  then show ?thesis using None opts by (intro exI [of _ None]) (simp add: Table_ReadMeta_def filter_reads_def)
next
  case (Some p)
  then obtain n off raw where f: "stored D off raw" "n \<le> length D" "\<forall>w \<in> set fl. fst w \<le> n"
      "raw = FilterBlock_Finish p (AddBlocks p (filter_blocks fl n []) FilterBlockBuilder_new)"
      "mes = [(filter_key p, BlockHandle_EncodeTo (handle_of off raw) [])]"
    using fo by (auto simp: filter_ok_def)
  obtain it where it: "it_Seek (Block_ops BytewiseComparator) (Block_NewIterator (Block_new mraw)) (filter_key p) = Some it"
      "case_sum at_empty (at_block BytewiseComparator (\<lambda>_. True)) it mes (lower_bound BytewiseComparator mes (filter_key p))"
    using metaindex_seek [OF meta(3) stored_short [OF meta(2)], of "filter_key p"] f(5) by auto
  have "\<not> Compare BytewiseComparator (filter_key p) (filter_key p) < 0" using bytewise.cmp_refl by simp
  then have lb: "lower_bound BytewiseComparator mes (filter_key p) = 0" using f(5) by (simp add: lower_bound_def)
  note at0 = it(2) [unfolded lb]
  have "it_Valid (Block_ops BytewiseComparator) it" "it_key (Block_ops BytewiseComparator) it = filter_key p"
      "it_value (Block_ops BytewiseComparator) it = BlockHandle_EncodeTo (handle_of off raw) []"
    using bytewise.block.at_Valid [OF at0] bytewise.block.at_key [OF at0] bytewise.block.at_value [OF at0] f(5) by simp_all
  then have "Table_ReadMeta footer t = Table_ReadFilter (BlockHandle_EncodeTo (handle_of off raw) []) t"
    using Some opts meta(1) it(1) ReadBlock_at [OF meta(2)] by (simp add: Table_ReadMeta_def Slice_eq_def)
  also have "\<dots> = Some (t\<lparr>tbl_filter := Some (FilterBlockReader_new raw)\<rparr>)"
    using BlockHandle_Decode_Encode [of "handle_of off raw" "[]"] opts ReadBlock_at [OF f(1)] by (simp add: Table_ReadFilter_def)
  finally show ?thesis
    using Some f(2,3,4) stored_short [OF f(1)]
    by (intro exI [of _ "Some (FilterBlockReader_new raw)"]) (auto simp: filter_reads_def)
qed

text \<open>Opening a table that was written succeeds.\<close>

lemma Open_written:
  assumes tf: "table_file opt dm D es fl (ioff, ies, iraw) (moff, mes, mraw)"
  shows "\<exists>t. Table_Open opt read (of_nat (length D)) next_id
      = Some (Inr t, if op_block_cache opt then next_id + 1 else next_id)
    \<and> table_of opt dm read D t es fl ies \<and> tbl_cache_id t = (if op_block_cache opt then next_id else 0)"
proof -
  let ?ft = "\<lparr>ft_metaindex_handle = handle_of moff mraw, ft_index_handle = handle_of ioff iraw\<rparr>"
  obtain D0 where D: "D = D0 @ Footer_EncodeTo ?ft []"
    and T: "blocks_ok D fl" "es = written_entries fl" "stored D ioff iraw" "block_of iraw ies"
      "index_ok (op_comparator opt) dm fl [] ies" "stored D moff mraw" "block_of mraw mes" "filter_ok (op_filter_policy opt) D fl mes"
      "sorted_wrt (\<lambda>a b. key_lt (op_comparator opt) (fst a) (fst b)) es" "\<forall>e \<in> set es. dm (fst e)"
    using tf unfolding table_file_def by auto
  have len: "length D = length D0 + kEncodedLength" using D by (simp add: Footer_length)
  have u: "unat (of_nat (length D) :: u64) = length D" using fits by (simp add: unat_of_nat take_bit_nat_eq_self)
  have rd: "read (length D - kEncodedLength) kEncodedLength = Some (OK, Footer_EncodeTo ?ft [], inb)"
    using rd.read_at [of "length D - kEncodedLength" kEncodedLength] fits len D Footer_length [of ?ft] by simp
  define t where "t = \<lparr>tbl_options = opt, tbl_file = read, tbl_cache_id = (if op_block_cache opt then next_id else 0),
      tbl_metaindex_handle = handle_of moff mraw, tbl_index_block = Block_new iraw, tbl_filter = None\<rparr>"
  obtain fr where fr: "Table_ReadMeta ?ft t = Some (t\<lparr>tbl_filter := fr\<rparr>)" "filter_reads (op_filter_policy opt) D fl fr"
    using ReadMeta_filter [of t ?ft, OF _ _ _ _ T(6,7,8)] by (auto simp: t_def)
  have "Table_Open opt read (of_nat (length D)) next_id
      = Some (Inr (t\<lparr>tbl_filter := fr\<rparr>), if op_block_cache opt then next_id + 1 else next_id)"
    using fr(1) rd u len Footer_Decode_Encode [of ?ft "[]"] ReadBlock_at [OF T(3)]
    by (cases "op_block_cache opt") (simp_all add: Table_Open_def ok_def OK_def Cache_NewId_def t_def)
  moreover have "table_of opt dm read D (t\<lparr>tbl_filter := fr\<rparr>) es fl ies"
    using T fr(2) stored_short [OF T(3)] by (auto simp: table_of_def t_def)
  ultimately show ?thesis by (auto simp: t_def)
qed

end

section \<open>Coherence of the block cache\<close>

text \<open>
  \<open>f\<close> is the block each cache key stands for: the cache agrees with it, and it serves the blocks of
  the table.
\<close>

definition coherent :: "(bytes \<Rightarrow> Block option) \<Rightarrow> block_cache option \<Rightarrow> bool" where
  "coherent f bc \<longleftrightarrow>
     (case bc of None \<Rightarrow> True | Some c \<Rightarrow> cache_inv c \<and> (\<forall>k v. cache_abs c k = Some v \<longrightarrow> f k = Some v))"

definition has_room :: "block_cache option \<Rightarrow> bool" where
  "has_room bc \<longleftrightarrow> (case bc of None \<Rightarrow> True | Some c \<Rightarrow> cache_room c)"

definition serves :: "(bytes \<Rightarrow> Block option) \<Rightarrow> Table \<Rightarrow> written list \<Rightarrow> bool" where
  "serves f t fl \<longleftrightarrow> (\<forall>(off, bes, raw) \<in> set fl. f (block_cache_key t (handle_of off raw)) = Some (Block_new raw))"

lemma cleanup_coherent:
  assumes "coherent f (Some c)" "cl = Some (case h of None \<Rightarrow> DeleteBlock b | Some h \<Rightarrow> ReleaseCachedBlock h)"
    "pred_option (cache_held c) h"
  shows "coherent f (block_cleanup_run cl (Some c))"
  using assms lru.rel_ok [of c] by (cases h) (simp_all add: coherent_def block_cleanup_run_def)

context table_reader
begin

lemma BlockReader_reads:
  assumes t: "table_of opt dm read D t es fl ies" and w: "(off, bes, raw) \<in> set fl"
    and c: "coherent f bc" "has_room bc" "bc \<noteq> None \<Longrightarrow> serves f t fl"
  shows "\<exists>cl bc'. BlockReader t options (BlockHandle_EncodeTo (handle_of off raw) []) bc
      = Some (Block_NewIterator (Block_new raw), cl, bc') \<and> coherent f (block_cleanup_run cl bc')"
proof -
  have st: "stored D off raw" using t w unfolding table_of_def blocks_ok_def by fast
  have fl: "tbl_file t = read" using t by (simp add: table_of_def)
  note rb = ReadBlock_at [OF st, of options]
  have dec: "BlockHandle_DecodeFrom (BlockHandle_EncodeTo (handle_of off raw) []) = Inr (handle_of off raw, [])"
    using BlockHandle_Decode_Encode [of "handle_of off raw" "[]"] by simp
  show ?thesis
  proof (cases bc)
    case None
    then show ?thesis
      using dec rb fl by (simp add: BlockReader_def FindBlock_def block_cleanup_run_def coherent_def)
  next
    case (Some c0)
    let ?k = "block_cache_key t (handle_of off raw)"
    have I: "cache_inv c0" "\<forall>k v. cache_abs c0 k = Some v \<longrightarrow> f k = Some v" and room: "cache_room c0"
      using c(1,2) Some by (simp_all add: coherent_def has_room_def)
    have fk: "f ?k = Some (Block_new raw)" using c(3) Some w unfolding serves_def by fast
    have "\<exists>h c1. FindBlock t options (handle_of off raw) bc = Some (Inr (Block_new raw, h), Some c1)
        \<and> coherent f (Some c1) \<and> pred_option (cache_held c1) h"
    proof (cases "Cache_Lookup ?k c0")
      case (Pair h c1)
      show ?thesis
      proof (cases h)
        case (Some i)
        from lru.look_coherent [OF I] Pair Some have
          "cache_inv c1" "\<forall>k v. cache_abs c1 k = Some v \<longrightarrow> f k = Some v" "f ?k = Some (Cache_Value c1 i)" "cache_held c1 i"
          by blast+
        then show ?thesis
          using Pair Some fk \<open>bc = Some c0\<close> by (simp add: FindBlock_def coherent_def)
      next
        case None
        with Pair lru.look_miss [OF I(1)] have c1: "c1 = c0" by blast
        obtain h2 c2 where ins: "Cache_Insert ?k (Block_new raw) (blk_size (Block_new raw)) (Some DeleteCachedBlock) c0 = Some (h2, c2)"
          and c2: "cache_inv c2" "pred_option (cache_held c2) h2" "\<forall>k v. cache_abs c2 k = Some v \<longrightarrow> f k = Some v"
          using lru.ins_coherent [OF I(1) room I(2) fk] by blast
        show ?thesis
        proof (cases "inb \<and> ro_fill_cache options")
          case True
          then show ?thesis
            using Pair None c1 \<open>bc = Some c0\<close> rb fl ins c2 by (simp add: FindBlock_def coherent_def)
        next
          case False
          then show ?thesis
            using Pair None c1 \<open>bc = Some c0\<close> rb fl I by (auto simp: FindBlock_def coherent_def)
        qed
      qed
    qed
    then obtain h c1 where F: "FindBlock t options (handle_of off raw) bc = Some (Inr (Block_new raw, h), Some c1)"
        "coherent f (Some c1)" "pred_option (cache_held c1) h" by blast
    then show ?thesis
      using dec cleanup_coherent [OF F(2) refl F(3), of "Block_new raw"] by (simp add: BlockReader_def)
  qed
qed

lemma table_index:
  assumes t: "table_of opt dm read D t es fl ies"
  shows "case_sum at_empty (at_block (op_comparator opt) dm) (Block_NewIterator (tbl_index_block t)) ies (length ies)"
    "separated (op_comparator opt) (content_of fl) ies" "es = all_entries (content_of fl) ies"
proof -
  obtain raw where T: "tbl_index_block t = Block_new raw" "block_of raw ies" "length raw < 2 ^ 32"
      "index_ok (op_comparator opt) dm fl [] ies" "blocks_ok D fl" "es = written_entries fl" "\<forall>e \<in> set es. dm (fst e)"
    using t by (auto simp: table_of_def)
  have ne: "\<forall>(off, bes, raw) \<in> set fl. bes \<noteq> []" using T(5) unfolding blocks_ok_def by fast
  have D: "length D < 2 ^ 64" using fits by simp
  note S = cmp.index_ok_sorted [OF T(4) ne]
  show "case_sum at_empty (at_block (op_comparator opt) dm) (Block_NewIterator (tbl_index_block t)) ies (length ies)"
    using cmp.block_of_at [OF T(2,3)] S T(1,6,7) by simp
  show "separated (op_comparator opt) (content_of fl) ies" "es = all_entries (content_of fl) ies"
    using index_separated [OF T(4,5) D] T(6) by simp_all
qed

text \<open>The block at place \<open>i\<close> of the index.\<close>

lemma table_block:
  assumes t: "table_of opt dm read D t es fl ies" and i: "i < length ies"
  obtains off bes raw where "(off, bes, raw) \<in> set fl" "snd (ies ! i) = BlockHandle_EncodeTo (handle_of off raw) []"
    "content_of fl (snd (ies ! i)) = bes" "fl ! i = (off, bes, raw)"
    "case_sum at_empty (at_block (op_comparator opt) dm) (Block_NewIterator (Block_new raw)) bes (length bes)"
proof -
  have T: "index_ok (op_comparator opt) dm fl [] ies" "blocks_ok D fl" "es = written_entries fl" "\<forall>e \<in> set es. dm (fst e)"
      "sorted_wrt (\<lambda>a b. key_lt (op_comparator opt) (fst a) (fst b)) es"
    using t by (auto simp: table_of_def)
  have len: "i < length fl" using T(1) i by (simp add: index_ok_def)
  obtain off bes raw where w: "fl ! i = (off, bes, raw)" by (cases "fl ! i")
  then have win: "(off, bes, raw) \<in> set fl" using len by (metis nth_mem)
  then have b: "stored D off raw" "block_of raw bes" using T(2) unfolding blocks_ok_def by fast+
  have h: "snd (ies ! i) = BlockHandle_EncodeTo (handle_of off raw) []" using T(1) len w by (simp add: index_ok_def)
  have "length D < 2 ^ 64" using fits by simp
  from content_of_nth [OF T(2) this len] w h have c: "content_of fl (snd (ies ! i)) = bes" by simp
  have split: "es = written_entries (take i fl) @ bes @ written_entries (drop (Suc i) fl)"
    using T(3) w len by (metis id_take_nth_drop written_entries_append written_entries_simps(2))
  have "sorted_wrt (\<lambda>a b. key_lt (op_comparator opt) (fst a) (fst b)) bes" "\<forall>e \<in> set bes. dm (fst e)"
    using T(4,5) unfolding split by (simp_all add: sorted_wrt_append)
  from that [OF win h c w cmp.block_of_at [OF b(2) stored_short [OF b(1)] this]] show thesis .
qed

text \<open>An iterator over the table is a sorted cursor over all its entries.\<close>

lemma NewIterator_at:
  assumes t: "table_of opt dm read D t es fl ies"
  shows "at_two_level (op_comparator opt) dm (Block_ops (op_comparator opt)) (case_sum at_empty (at_block (op_comparator opt) dm))
      (Block_ops (op_comparator opt)) (case_sum at_empty (at_block (op_comparator opt) dm)) (Table_block_function t options)
      (Table_NewIterator t) es (length es)"
proof -
  have opt: "tbl_options t = opt" and T: "sorted_wrt (\<lambda>a b. key_lt (op_comparator opt) (fst a) (fst b)) es" "\<forall>e \<in> set es. dm (fst e)"
    using t unfolding table_of_def by blast+
  have "tl_env (case_sum at_empty (at_block (op_comparator opt) dm)) (Table_block_function t options) (content_of fl) ies"
    unfolding tl_env_def
  proof
    fix e assume "e \<in> set ies"
    then obtain i where i: "i < length ies" "e = ies ! i" by (auto simp: in_set_conv_nth)
    from table_block [OF t i(1)] obtain off bes raw where B: "(off, bes, raw) \<in> set fl"
        "snd e = BlockHandle_EncodeTo (handle_of off raw) []" "content_of fl (snd e) = bes"
        "case_sum at_empty (at_block (op_comparator opt) dm) (Block_NewIterator (Block_new raw)) bes (length bes)"
      unfolding i(2) by metis
    have st: "stored D off raw" using t B(1) unfolding table_of_def blocks_ok_def by fast
    have "Table_block_function t options (snd e) = Some (Block_NewIterator (Block_new raw))"
      using B(2) BlockHandle_Decode_Encode [of "handle_of off raw" "[]"] ReadBlock_at [OF st, of options] t
      by (simp add: Table_block_function_def BlockReader_def FindBlock_def table_of_def)
    with B(3,4) show "\<exists>d j. Table_block_function t options (snd e) = Some d
        \<and> case_sum at_empty (at_block (op_comparator opt) dm) d (content_of fl (snd e)) j" by auto
  qed
  from cmp.table.NewTwoLevelIterator_at [OF table_index(1) [OF t] this table_index(3) [OF t] table_index(2) [OF t] T]
  show ?thesis by (simp add: Table_NewIterator_def opt)
qed

lemma table_cursor:
  assumes "table_of opt dm read D t es fl ies" "dm k"
  shows "let ops = Table_iter_ops t options; it = Table_NewIterator t; lb = lower_bound (op_comparator opt) es k in
    scan ops it = Some es \<and> rscan ops it = Some (rev es)
    \<and> (\<exists>it'. it_Seek ops it k = Some it' \<and> it_Valid ops it' = (lb < length es)
         \<and> (lb < length es \<longrightarrow> (it_key ops it', it_value ops it') = es ! lb))"
proof -
  have "tbl_options t = opt" using assms(1) by (simp add: table_of_def)
  then show ?thesis
    using cmp.table.tl.cursor_at [OF NewIterator_at [OF assms(1)] assms(2)] by (simp add: Table_iter_ops_def)
qed

text \<open>Where a key lies: in the block of the first index key that is not below it.\<close>

lemma key_in_block:
  assumes t: "table_of opt dm read D t es fl ies" and k: "dm k" and i: "i = lower_bound (op_comparator opt) ies k"
  shows "i = length ies \<Longrightarrow> lower_bound (op_comparator opt) es k = length es \<and> k \<notin> fst ` set es"
    "i < length ies \<Longrightarrow> fl ! i = (off, bes, raw) \<Longrightarrow> content_of fl (snd (ies ! i)) = bes \<Longrightarrow>
      (k \<in> fst ` set es \<longrightarrow> k \<in> fst ` set bes)
      \<and> (lower_bound (op_comparator opt) bes k < length bes \<longrightarrow>
           lower_bound (op_comparator opt) es k < length es
           \<and> es ! lower_bound (op_comparator opt) es k = bes ! lower_bound (op_comparator opt) bes k)"
proof -
  let ?c = "op_comparator opt"
  have dom: "\<forall>e \<in> set es. dm (fst e)" using t unfolding table_of_def by blast
  have T: "separated ?c (content_of fl) ies" "es = all_entries (content_of fl) ies"
    using table_index(2,3) [OF t] .
  have ixd: "dm (fst (ies ! j))" if "j < length ies" for j
    using cmp.block.at_dom [OF table_index(1) [OF t]] that by simp
  have le: "\<forall>e \<in> set (content_of fl (snd (ies ! j))). Compare ?c (fst e) (fst (ies ! j)) \<le> 0" if "j < length ies" for j
    using T(1) that by (simp add: separated_def)
  have ce: "set (content_of fl (snd (ies ! j))) \<subseteq> set es" if "j < length ies" for j
    unfolding T(2) using all_entries_split [OF that, of "content_of fl"] by auto
  have before: "\<forall>e \<in> set (all_entries (content_of fl) (take i ies)). Compare ?c (fst e) k < 0"
  proof
    fix e assume "e \<in> set (all_entries (content_of fl) (take i ies))"
    then obtain x where x: "x \<in> set (take i ies)" "e \<in> set (content_of fl (snd x))" by (auto simp: all_entries_def)
    obtain j where "j < length (take i ies)" "x = take i ies ! j" using x(1) by (metis in_set_conv_nth)
    with x(2) have j: "j < i" "j < length ies" "e \<in> set (content_of fl (snd (ies ! j)))" by simp_all
    have "Compare ?c (fst (ies ! j)) k < 0" using lower_bound_less j(1) i by blast
    then show "Compare ?c (fst e) k < 0"
      using cmp.cmp_le_less_trans [of "fst e" "fst (ies ! j)" k] le [OF j(2)] j(3) ce [OF j(2)] dom ixd [OF j(2)] k by blast
  qed
  have refl: "\<not> Compare ?c k k < 0" using cmp.cmp_refl [OF k] by simp
  { assume "i = length ies"
    then have "\<forall>e \<in> set es. Compare ?c (fst e) k < 0" using before T(2) by simp
    then show "lower_bound ?c es k = length es \<and> k \<notin> fst ` set es"
      using refl by (auto simp: lower_bound_def takeWhile_eq_all_conv [THEN iffD2]) }
  { assume il: "i < length ies" and "fl ! i = (off, bes, raw)" and c: "content_of fl (snd (ies ! i)) = bes"
    let ?A = "all_entries (content_of fl) (take i ies)" and ?B = "all_entries (content_of fl) (drop (Suc i) ies)"
    have split: "es = ?A @ bes @ ?B" using all_entries_split [OF il, of "content_of fl"] T(2) c by simp
    have "\<not> Compare ?c (fst (ies ! i)) k < 0" using lower_bound_ge il i by blast
    moreover have "\<forall>e \<in> set ?B. Compare ?c (fst (ies ! i)) (fst e) < 0" using T(1) il by (simp add: separated_def)
    ultimately have "k \<notin> fst ` set ?B" by auto
    moreover have "k \<notin> fst ` set ?A" using before refl by auto
    ultimately have mem: "k \<in> fst ` set es \<longrightarrow> k \<in> fst ` set bes" using split by auto
    have "lower_bound ?c bes k < length bes \<Longrightarrow> lower_bound ?c es k = length ?A + lower_bound ?c bes k"
      unfolding split lower_bound_skip [OF before] by (simp add: lower_bound_stop)
    then have "lower_bound ?c bes k < length bes \<Longrightarrow> lower_bound ?c es k < length es \<and> es ! lower_bound ?c es k = bes ! lower_bound ?c bes k"
      by (subst (2 3) split) (simp add: nth_append)
    with mem show "(k \<in> fst ` set es \<longrightarrow> k \<in> fst ` set bes)
      \<and> (lower_bound ?c bes k < length bes \<longrightarrow>
           lower_bound ?c es k < length es \<and> es ! lower_bound ?c es k = bes ! lower_bound ?c bes k)" by blast }
qed

text \<open>
  When the block that the index gives has no key from the target on, the target lies between two
  blocks, not above the separator of the two.
\<close>

lemma gap_missed:
  assumes t: "table_of opt dm read D t es fl ies" and k: "dm k" and i: "i = lower_bound (op_comparator opt) ies k"
    and il: "i < length ies" and w: "fl ! i = (off, bes, raw)" and all: "\<forall>e \<in> set bes. Compare (op_comparator opt) (fst e) k < 0"
  shows "missed (op_comparator opt) es k"
proof -
  let ?c = "op_comparator opt"
  have T: "index_ok ?c dm fl [] ies" "blocks_ok D fl" "es = written_entries fl" "\<forall>e \<in> set es. dm (fst e)"
    using t by (auto simp: table_of_def)
  have len: "length ies = length fl" using T(1) by (simp add: index_ok_def)
  define A B where "A = written_entries (take i fl)" and "B = written_entries (drop (Suc i) fl)"
  have split: "es = A @ bes @ B"
    using T(3) w il len unfolding A_def B_def by (metis id_take_nth_drop written_entries_append written_entries_simps(2))
  have "(off, bes, raw) \<in> set fl" using w il len by (metis nth_mem)
  then have ne: "bes \<noteq> []" using T(2) unfolding blocks_ok_def by fast
  have I: "dm (fst (ies ! j))" "separator_of ?c (fst (snd (fl ! j))) (written_entries (drop (Suc j) fl)) = fst (ies ! j)"
      "\<forall>e \<in> set (fst (snd (fl ! j))). Compare ?c (fst e) (fst (ies ! j)) \<le> 0"
      "\<forall>e \<in> set (written_entries (drop (Suc j) fl)). Compare ?c (fst (ies ! j)) (fst e) < 0" if "j < length ies" for j
    using T(1) that len unfolding index_ok_def by auto
  have before: "Compare ?c (fst e) k < 0" if "e \<in> set (A @ bes)" for e
  proof (cases "e \<in> set bes")
    case False
    with that obtain x where x: "x \<in> set (take i fl)" "e \<in> set (fst (snd x))" by (auto simp: A_def written_entries_def)
    obtain j where j: "j < i" "x = fl ! j" using x(1) il len by (auto simp: in_set_conv_nth)
    have "Compare ?c (fst (ies ! j)) k < 0" using lower_bound_less j(1) i by blast
    moreover have "Compare ?c (fst e) (fst (ies ! j)) \<le> 0" using I(3) [of j] j il x(2) by auto
    moreover have "dm (fst e)" using T(4) that split by auto
    ultimately show ?thesis using cmp.cmp_le_less_trans [of "fst e" "fst (ies ! j)" k] I(1) [of j] j il k by simp
  qed (use all in blast)
  have ge: "Compare ?c k (fst (ies ! i)) \<le> 0"
    using lower_bound_ge [of ?c ies k] il i cmp.cmp_not_less [OF I(1) [OF il] k] by simp
  have lb: "lower_bound ?c es k = length (A @ bes) + lower_bound ?c B k"
    using lower_bound_skip [of "A @ bes" ?c k B] before split by simp
  have "missed ?c es k" if B: "B = b # bs" for b bs
  proof -
    have "dm (fst b)" using T(4) split B by simp
    have "Compare ?c (fst (ies ! i)) (fst b) < 0" using I(4) [OF il] B by (simp add: B_def [symmetric])
    with ge have "Compare ?c k (fst b) < 0" using cmp.cmp_le_less_trans [OF k I(1) [OF il] \<open>dm (fst b)\<close>] by blast
    then have "\<not> Compare ?c (fst b) k < 0" using cmp.cmp_anti [OF k \<open>dm (fst b)\<close>] by simp
    then have "lower_bound ?c es k = length (A @ bes)" using lb B by (simp add: lower_bound_def)
    moreover have "es ! length (A @ bes) = b" using split B by (simp add: nth_append)
    moreover have "es ! (length (A @ bes) - 1) = last bes"
    proof -
      have "last bes = last (A @ bes)" using ne by simp
      also have "\<dots> = (A @ bes) ! (length (A @ bes) - 1)" using ne by (intro last_conv_nth) simp
      also have "\<dots> = ((A @ bes) @ B) ! (length (A @ bes) - 1)" using ne by (subst nth_append) simp
      finally show ?thesis using split by simp
    qed
    moreover have "fst (ies ! i) = FindShortestSeparator ?c (fst (last bes)) (fst b)"
      using I(2) [OF il] w B by (simp add: separator_of_def B_def [symmetric])
    ultimately show ?thesis using ge ne split B unfolding missed_def Let_def by simp
  qed
  moreover have "missed ?c es k" if "B = []"
    using lb split that by (simp add: missed_def lower_bound_def)
  ultimately show ?thesis by (cases B) blast+
qed

lemma filter_passes:
  assumes fr: "filter_reads (op_filter_policy opt) D fl (Some r)" and p: "op_filter_policy opt = Some p" "filter_policy p"
    and bl: "blocks_ok D fl" and w: "(off, bes, raw) \<in> set fl" and k: "k \<in> fst ` set bes"
  shows "FilterBlock_KeyMayMatch p r (unat (bh_offset (handle_of off raw))) k"
proof -
  obtain n fraw where F: "\<forall>w \<in> set fl. fst w \<le> n" "n \<le> length D" "length fraw < 2 ^ 32"
      "fraw = FilterBlock_Finish p (AddBlocks p (filter_blocks fl n []) FilterBlockBuilder_new)" "r = FilterBlockReader_new fraw"
    using fr p(1) by (auto simp: filter_reads_def)
  have u: "unat (of_nat m :: u64) = m" if "m \<le> length D" for m
    using that fits by (simp add: unat_of_nat take_bit_nat_eq_self)
  have small: "fst v \<le> length D" if "v \<in> set fl" for v using F(1,2) that by fastforce
  have "map fst (filter_blocks fl n []) = map fst fl @ [n]"
    using u small F(2) by (auto simp: filter_blocks_def case_prod_beta)
  moreover have "sorted_wrt (<) (map fst fl)" using bl by (simp add: blocks_ok_def sorted_wrt_append)
  then have "sorted (map fst fl)" by (rule strict_sorted_imp_sorted)
  ultimately have "sorted (map fst (filter_blocks fl n []))" using F(1) by (auto simp: sorted_append)
  moreover have "(off, map fst bes) \<in> set (filter_blocks fl n [])"
    using w u [OF small [OF w, simplified]] by (force simp: filter_blocks_def)
  moreover have "k \<in> set (map fst bes)" using k by simp
  moreover have "unat (bh_offset (handle_of off raw)) = off"
    using u [OF small [OF w, simplified]] by (simp add: handle_of_def)
  ultimately show ?thesis
    using filter_policy.FilterBlock_no_false_negative [OF p(2), of "filter_blocks fl n []" off "map fst bes" k] F(3-5) by simp
qed

text \<open>
  A point lookup hands the callback the first entry that is not below the key, or nothing when the
  key is not in the table; the cache stays coherent.
\<close>

lemma InternalGet_outcome:
  assumes t: "table_of opt dm read D t es fl ies" and k: "dm k"
    and c: "coherent f bc" "has_room bc" "bc \<noteq> None \<Longrightarrow> serves f t fl"
    and pol: "\<And>p. op_filter_policy opt = Some p \<Longrightarrow> filter_policy p"
  shows "\<exists>arg' bc'. Table_InternalGet t options k handle_result arg bc = Some (OK, arg', bc') \<and> coherent f bc'
    \<and> (let lb = lower_bound (op_comparator opt) es k
       in lb < length es \<and> arg' = handle_result (fst (es ! lb)) (snd (es ! lb)) arg \<or> arg' = arg \<and> k \<notin> fst ` set es \<and> (op_filter_policy opt = None \<longrightarrow> missed (op_comparator opt) es k))"
proof -
  let ?c = "op_comparator opt"
  have T: "tbl_options t = opt" "blocks_ok D fl" "filter_reads (op_filter_policy opt) D fl (tbl_filter t)"
    using t unfolding table_of_def by blast+
  define i where "i = lower_bound ?c ies k"
  obtain ix where ix: "it_Seek (Block_ops ?c) (Block_NewIterator (tbl_index_block t)) k = Some ix"
      "case_sum at_empty (at_block ?c dm) ix ies i"
    using cmp.block.at_Seek [OF table_index(1) [OF t] k] by (auto simp: i_def)
  have ok: "it_status (Block_ops ?c) ix = OK" using cmp.block.at_status [OF ix(2)] .
  show ?thesis
  proof (cases "i < length ies")
    case False
    then have i: "i = length ies" using lower_bound_le [of ?c ies k] by (simp add: i_def)
    have "\<not> it_Valid (Block_ops ?c) ix" using cmp.block.at_Valid [OF ix(2)] False by simp
    then have "Table_InternalGet t options k handle_result arg bc = Some (OK, arg, bc)"
      using ix(1) ok T(1) by (simp add: Table_InternalGet_def ok_def OK_def)
    then show ?thesis using c(1) key_in_block(1) [OF t k i_def i] by (auto simp: missed_def)
  next
    case True
    then have "i < length ies" .
    from table_block [OF t True] obtain off bes raw where B: "(off, bes, raw) \<in> set fl"
        "snd (ies ! i) = BlockHandle_EncodeTo (handle_of off raw) []" "content_of fl (snd (ies ! i)) = bes" "fl ! i = (off, bes, raw)"
        "case_sum at_empty (at_block ?c dm) (Block_NewIterator (Block_new raw)) bes (length bes)" .
    note K = key_in_block(2) [OF t k i_def True B(4,3)]
    have V: "it_Valid (Block_ops ?c) ix" "it_value (Block_ops ?c) ix = BlockHandle_EncodeTo (handle_of off raw) []"
      using cmp.block.at_Valid [OF ix(2)] cmp.block.at_value [OF ix(2)] True B(2) by simp_all
    have dec: "BlockHandle_DecodeFrom (BlockHandle_EncodeTo (handle_of off raw) []) = Inr (handle_of off raw, [])"
      using BlockHandle_Decode_Encode [of "handle_of off raw" "[]"] by simp
    define may where "may = (case (tbl_filter t, op_filter_policy opt) of
        (Some reader, Some policy) \<Rightarrow> FilterBlock_KeyMayMatch policy reader (unat (bh_offset (handle_of off raw))) k | _ \<Rightarrow> True)"
    show ?thesis
    proof (cases may)
      case False
      then have "Table_InternalGet t options k handle_result arg bc = Some (OK, arg, bc)"
        using ix(1) V ok T(1) dec False [unfolded may_def] by (simp add: Table_InternalGet_def ok_def OK_def Let_def)
      moreover have "k \<notin> fst ` set bes"
      proof
        assume "k \<in> fst ` set bes"
        obtain r p where "tbl_filter t = Some r" "op_filter_policy opt = Some p"
          using False by (auto simp: may_def split: option.splits)
        with filter_passes [OF _ _ pol T(2) B(1) \<open>k \<in> fst ` set bes\<close>] T(3) False show False
          by (simp add: may_def)
      qed
      moreover have "op_filter_policy opt \<noteq> None" using False by (auto simp: may_def split: option.splits)
      ultimately show ?thesis using c(1) K by auto
    next
      case True
      obtain cl bc' where R: "BlockReader t options (BlockHandle_EncodeTo (handle_of off raw) []) bc = Some (Block_NewIterator (Block_new raw), cl, bc')"
          "coherent f (block_cleanup_run cl bc')"
        using BlockReader_reads [OF t B(1) c] by blast
      obtain it where it: "it_Seek (Block_ops ?c) (Block_NewIterator (Block_new raw)) k = Some it"
          "case_sum at_empty (at_block ?c dm) it bes (lower_bound ?c bes k)"
        using cmp.block.at_Seek [OF B(5) k] by auto
      let ?l = "lower_bound ?c bes k"
      have it_ok: "it_status (Block_ops ?c) it = OK" using cmp.block.at_status [OF it(2)] .
      have get: "Table_InternalGet t options k handle_result arg bc =
          Some (OK, if it_Valid (Block_ops ?c) it then handle_result (it_key (Block_ops ?c) it) (it_value (Block_ops ?c) it) arg else arg,
                block_cleanup_run cl bc')"
        using True [unfolded may_def] ix(1) V ok T(1) dec R(1) it(1) it_ok
        by (simp add: Table_InternalGet_def ok_def OK_def Let_def)
      show ?thesis
      proof (cases "?l < length bes")
        case True
        then show ?thesis
          using get R(2) K cmp.block.at_Valid [OF it(2)] cmp.block.at_key [OF it(2)] cmp.block.at_value [OF it(2)] by auto
      next
        case False
        have "\<not> Compare ?c k k < 0" using cmp.cmp_refl [OF k] by simp
        moreover have "\<forall>e \<in> set bes. Compare ?c (fst e) k < 0"
          using False lower_bound_less [of _ ?c bes k] lower_bound_le [of ?c bes k] by (metis in_set_conv_nth le_neq_implies_less)
        ultimately have "k \<notin> fst ` set bes" "missed ?c es k"
          using gap_missed [OF t k i_def \<open>i < length ies\<close> B(4)] by auto
        then show ?thesis
          using False get R(2) K cmp.block.at_Valid [OF it(2)] by auto
      qed
    qed
  qed
qed

lemma InternalGet_correct:
  assumes "table_of opt dm read D t es fl ies" "dm k"
    and "coherent f bc" "has_room bc" "bc \<noteq> None \<Longrightarrow> serves f t fl"
    and "\<And>p. op_filter_policy opt = Some p \<Longrightarrow> filter_policy p"
  shows "\<exists>arg' bc'. Table_InternalGet t options k handle_result arg bc = Some (OK, arg', bc') \<and> coherent f bc'
    \<and> (let lb = lower_bound (op_comparator opt) es k
       in lb < length es \<and> arg' = handle_result (fst (es ! lb)) (snd (es ! lb)) arg \<or> arg' = arg \<and> k \<notin> fst ` set es)"
  using InternalGet_outcome [OF assms, of options handle_result arg] unfolding Let_def by blast

end

text \<open>On a POSIX file of less than 4 GiB, with the keys of a database.\<close>

interpretation disk_reader: table_reader "PosixRandom_Read serr disk_pread filename (take (2 ^ 32 - 1) k)"
    "take (2 ^ 32 - 1) k" True "opt\<lparr>op_comparator := InternalKeyComparator BytewiseComparator\<rparr>" "\<lambda>k. 8 \<le> length k"
  for serr filename k opt
  unfolding table_reader_def table_reader_axioms_def
  using disk.random_file_axioms bytewise.ikey.comparator_laws_axioms by simp

section \<open>The cache of open tables (db/table_cache.cc)\<close>

text \<open>
  An entry of the cache is a table with its file. \<open>new_file\<close> is \<open>Env::NewRandomAccessFile\<close>; the
  capacity is cast from \<open>int\<close> to \<open>size_t\<close>.
\<close>

datatype table_deleter = DeleteEntry

record TableCache =
  tc_dbname :: bytes
  tc_options :: Options
  tc_cache :: "(Table, table_deleter) LRUCache"

type_synonym file_opener = "bytes \<Rightarrow> Status + random_read"

definition TableCache_new :: "bytes \<Rightarrow> Options \<Rightarrow> int \<Rightarrow> TableCache" where
  "TableCache_new dbname options n =
     \<lparr>tc_dbname = dbname, tc_options = options, tc_cache = NewLRUCache (unat (of_int n :: u64))\<rparr>"

text \<open>The status, the handle, which is null when the cache refuses the entry, and the next cache id.\<close>

definition FindTable ::
    "file_opener \<Rightarrow> u64 \<Rightarrow> u64 \<Rightarrow> TableCache \<Rightarrow> u64 \<Rightarrow> (Status \<times> nat option \<times> TableCache \<times> u64) option" where
  "FindTable new_file file_number file_size tc next_id =
     (let cache_key = EncodeFixed64 file_number
      in case Cache_Lookup cache_key (tc_cache tc) of
           (Some h, c) \<Rightarrow> Some (OK, Some h, tc\<lparr>tc_cache := c\<rparr>, next_id)
         | (None, c) \<Rightarrow>
             (case new_file (TableFileName (tc_dbname tc) file_number) of
                Inl status \<Rightarrow> Some (status, None, tc\<lparr>tc_cache := c\<rparr>, next_id)
              | Inr raw_file \<Rightarrow>
                  Option.bind (Table_Open (tc_options tc) raw_file file_size next_id) (\<lambda>(r, next_id).
                    case r of
                      Inl status \<Rightarrow> Some (status, None, tc\<lparr>tc_cache := c\<rparr>, next_id)
                    | Inr raw_table \<Rightarrow>
                        map_option (\<lambda>(h, c). (OK, h, tc\<lparr>tc_cache := c\<rparr>, next_id))
                          (Cache_Insert cache_key raw_table 1 (Some DeleteEntry) c))))"

text \<open>
  \<open>NewIterator\<close> returns the table whose iterator it makes, with the handle that the iterator's
  cleanup releases. The value of a null handle is a crash.
\<close>

definition TableCache_NewIterator ::
    "file_opener \<Rightarrow> u64 \<Rightarrow> u64 \<Rightarrow> TableCache \<Rightarrow> u64
      \<Rightarrow> ((Status + Table \<times> TableIterator \<times> nat) \<times> TableCache \<times> u64) option" where
  "TableCache_NewIterator new_file file_number file_size tc next_id =
     Option.bind (FindTable new_file file_number file_size tc next_id) (\<lambda>(status, handle, tc, next_id).
       if \<not> ok status then Some (Inl (NewErrorIterator status), tc, next_id)
       else Option.bind handle (\<lambda>h.
              let t = Cache_Value (tc_cache tc) h
              in Some (Inr (t, Table_NewIterator t, h), tc, next_id)))"

definition TableCache_UnrefEntry :: "nat \<Rightarrow> TableCache \<Rightarrow> TableCache" where
  "TableCache_UnrefEntry h tc = tc\<lparr>tc_cache := Cache_Release h (tc_cache tc)\<rparr>"

definition TableCache_Get ::
    "file_opener \<Rightarrow> ReadOptions \<Rightarrow> u64 \<Rightarrow> u64 \<Rightarrow> bytes \<Rightarrow> (bytes \<Rightarrow> bytes \<Rightarrow> 'a \<Rightarrow> 'a) \<Rightarrow> 'a
      \<Rightarrow> TableCache \<Rightarrow> u64 \<Rightarrow> block_cache option \<Rightarrow> (Status \<times> 'a \<times> TableCache \<times> u64 \<times> block_cache option) option" where
  "TableCache_Get new_file options file_number file_size key handle_result arg tc next_id bc =
     Option.bind (FindTable new_file file_number file_size tc next_id) (\<lambda>(status, handle, tc, next_id).
       if ok status
       then Option.bind handle (\<lambda>h.
              Option.bind (Table_InternalGet (Cache_Value (tc_cache tc) h) options key handle_result arg bc)
                (\<lambda>(status, arg, bc). Some (status, arg, TableCache_UnrefEntry h tc, next_id, bc)))
       else Some (status, arg, tc, next_id, bc))"

definition TableCache_Evict :: "u64 \<Rightarrow> TableCache \<Rightarrow> TableCache" where
  "TableCache_Evict file_number tc = tc\<lparr>tc_cache := Cache_Erase (EncodeFixed64 file_number) (tc_cache tc)\<rparr>"

text \<open>
  The files \<open>live\<close> hold tables: \<open>rd\<close> reads the bytes \<open>D\<close>, which are a table of the entries \<open>es\<close>. What
  the cache keeps for a live number is that table, opened.
\<close>

definition live_tables ::
    "(bytes \<Rightarrow> bool) \<Rightarrow> Options \<Rightarrow> bytes \<Rightarrow> file_opener \<Rightarrow> (u64 \<Rightarrow> random_read) \<Rightarrow> (u64 \<Rightarrow> bytes) \<Rightarrow> (u64 \<Rightarrow> entries) \<Rightarrow> u64 set \<Rightarrow> bool" where
  "live_tables dm opt dbname new_file rd D es live \<longleftrightarrow>
     (\<forall>n \<in> live. new_file (TableFileName dbname n) = Inr (rd n) \<and> (\<exists>inb. table_reader (rd n) (D n) inb opt dm)
        \<and> (\<exists>fl ix mx. table_file opt dm (D n) (es n) fl ix mx))"

definition opens :: "(bytes \<Rightarrow> bool) \<Rightarrow> Options \<Rightarrow> (u64 \<Rightarrow> random_read) \<Rightarrow> (u64 \<Rightarrow> bytes) \<Rightarrow> (u64 \<Rightarrow> entries) \<Rightarrow> u64 \<Rightarrow> Table \<Rightarrow> bool" where
  "opens dm opt rd D es n t \<longleftrightarrow> (\<exists>fl ies. table_of opt dm (rd n) (D n) t (es n) fl ies)"

definition tables_ok ::
    "(bytes \<Rightarrow> bool) \<Rightarrow> (u64 \<Rightarrow> random_read) \<Rightarrow> (u64 \<Rightarrow> bytes) \<Rightarrow> (u64 \<Rightarrow> entries) \<Rightarrow> u64 set \<Rightarrow> TableCache \<Rightarrow> bool" where
  "tables_ok dm rd D es live tc \<longleftrightarrow>
     cache_inv (tc_cache tc)
     \<and> (\<forall>n \<in> live. \<forall>t. cache_abs (tc_cache tc) (EncodeFixed64 n) = Some t \<longrightarrow> opens dm (tc_options tc) rd D es n t)"

lemma EncodeFixed64_inj:
  assumes "EncodeFixed64 a = EncodeFixed64 b" shows "a = b"
proof -
  have "DecodeFixed64 (EncodeFixed64 a @ []) = DecodeFixed64 (EncodeFixed64 b @ [])"
    by (simp only: assms)
  then show ?thesis unfolding DecodeFixed64_EncodeFixed64 .
qed

lemma live_opens:
  assumes "live_tables dm opt dbname new_file rd D es live" "n \<in> live"
  shows "\<exists>t id'. Table_Open opt (rd n) (of_nat (length (D n))) next_id = Some (Inr t, id') \<and> opens dm opt rd D es n t"
proof -
  obtain inb fl ix mx where L: "table_reader (rd n) (D n) inb opt dm" "table_file opt dm (D n) (es n) fl ix mx"
    using assms unfolding live_tables_def by blast
  obtain ioff ies iraw where ix: "ix = (ioff, ies, iraw)" by (cases ix)
  obtain moff mes mraw where mx: "mx = (moff, mes, mraw)" by (cases mx)
  from table_reader.Open_written [OF L(1) L(2) [unfolded ix mx], of next_id] obtain t where
    t: "Table_Open opt (rd n) (of_nat (length (D n))) next_id = Some (Inr t, if op_block_cache opt then next_id + 1 else next_id)"
      "table_of opt dm (rd n) (D n) t (es n) fl ies" by blast
  from t(2) have "opens dm opt rd D es n t" unfolding opens_def by blast
  with t(1) show ?thesis by blast
qed

lemma tables_okD:
  assumes "tables_ok dm rd D es live tc"
  shows "cache_inv (tc_cache tc)"
    "n \<in> live \<Longrightarrow> cache_abs (tc_cache tc) (EncodeFixed64 n) = Some t \<Longrightarrow> opens dm (tc_options tc) rd D es n t"
  using assms unfolding tables_ok_def by blast+

lemma tables_okI:
  assumes "cache_inv c" "\<And>n t. n \<in> live \<Longrightarrow> cache_abs c (EncodeFixed64 n) = Some t \<Longrightarrow> opens dm (tc_options tc) rd D es n t"
  shows "tables_ok dm rd D es live (tc\<lparr>tc_cache := c\<rparr>)"
  unfolding tables_ok_def using assms by simp

lemma Cache_Insert_handle:
  assumes "0 < lc_capacity c" "0 < charge" "Cache_Insert key v charge d c = Some (h, c')"
  shows "h \<noteq> None"
proof -
  have "\<exists>m i. Cache_Insert key v charge d c = Option.bind m (\<lambda>c4. Some (Some i, c4))"
    unfolding Cache_Insert_def Let_def case_prod_beta using assms(1,2) by (simp only: simp_thms if_True) blast
  then obtain m i where "Option.bind m (\<lambda>c4. Some (Some i, c4)) = Some (h, c')" using assms(3) by auto
  then show ?thesis by (cases m) auto
qed

text \<open>The entries of a cache are counted by its table; a lookup, an insertion and a release add at most one.\<close>

lemma lc_ids_card:
  assumes "cache_inv c" shows "ht_count (lc_table c) = card (lc_ids c)" "finite (lc_ids c)"
proof -
  have "cache_inv_but c {}" using assms by (simp add: cache_inv_def)
  from cache_butD(1) [OF this] have t: "ht_ok (lc_store c) (lc_table c)" .
  have "lc_ids c = set (concat (ht_list (lc_table c)))" by (simp add: lc_ids_def ht_ids_def)
  then show "ht_count (lc_table c) = card (lc_ids c)" "finite (lc_ids c)"
    using ht_okD(4,5) [OF t] distinct_card by force+
qed

lemma cache_sizes:
  "Cache_Lookup k c = (h, c') \<Longrightarrow> lc_table c' = lc_table c \<and> lc_capacity c' = lc_capacity c"
  "lc_table (Cache_Release i c) = lc_table c" "lc_capacity (Cache_Release i c) = lc_capacity c"
  by (auto simp: Cache_Lookup_def Cache_Release_def cache_step_defs split: option.splits)

lemma Cache_Insert_sizes:
  assumes inv: "cache_inv c" and room: "cache_room c" and pos: "0 < lc_capacity c" "0 < charge"
    and ins: "Cache_Insert k v charge d c = Some (h, c')"
  shows "ht_count (lc_table c') \<le> Suc (ht_count (lc_table c))" "lc_capacity c' = lc_capacity c"
proof -
  obtain e where E: "Cache_Insert k v charge d c = Some (Some (lc_next c), e)" "cache_inv e"
      "lc_ids e \<subseteq> insert (lc_next c) {i \<in> lc_ids c. le_key (the (lc_store c i)) \<noteq> k}" "lc_capacity e = lc_capacity c"
    using Cache_Insert_spec [OF inv room [unfolded cache_room_def] pos] by blast
  have e: "c' = e" using ins E(1) by simp
  show "lc_capacity c' = lc_capacity c" using E(4) e by simp
  have "card (lc_ids e) \<le> card (insert (lc_next c) (lc_ids c))"
    using E(3) lc_ids_card(2) [OF inv] by (intro card_mono) auto
  also have "\<dots> \<le> Suc (card (lc_ids c))" by (rule card_insert_le_m1 [OF zero_less_Suc]) simp
  finally show "ht_count (lc_table c') \<le> Suc (ht_count (lc_table c))"
    using lc_ids_card(1) [OF inv] lc_ids_card(1) [OF E(2)] e by simp
qed

text \<open>Room for \<open>n\<close> more tables.\<close>

definition tables_room :: "nat \<Rightarrow> TableCache \<Rightarrow> bool" where
  "tables_room n tc \<longleftrightarrow> 0 < lc_capacity (tc_cache tc) \<and> ht_count (lc_table (tc_cache tc)) + n < 2 ^ 31"

lemma FindTable_correct:
  assumes ok: "tables_ok dm rd D es live tc" and some: "tables_room (Suc m) tc"
    and live: "live_tables dm (tc_options tc) (tc_dbname tc) new_file rd D es live" "n \<in> live"
  shows "\<exists>h c id'. FindTable new_file n (of_nat (length (D n))) tc next_id = Some (OK, Some h, tc\<lparr>tc_cache := c\<rparr>, id')
    \<and> tables_ok dm rd D es live (tc\<lparr>tc_cache := c\<rparr>) \<and> cache_held c h \<and> opens dm (tc_options tc) rd D es n (Cache_Value c h)
    \<and> tables_room m (tc\<lparr>tc_cache := c\<rparr>)"
proof -
  have room: "cache_room (tc_cache tc)" "0 < lc_capacity (tc_cache tc)"
    using some by (simp_all add: tables_room_def cache_room_def)
  note I = tables_okD [OF ok]
  obtain h c where L: "Cache_Lookup (EncodeFixed64 n) (tc_cache tc) = (h, c)" by fastforce
  show ?thesis
  proof (cases h)
    case (Some i)
    note H = lru.look_hit [OF I(1) L [unfolded Some]]
    have "tables_ok dm rd D es live (tc\<lparr>tc_cache := c\<rparr>)"
      by (rule tables_okI) (use H I(2) in simp_all)
    moreover have "opens dm (tc_options tc) rd D es n (Cache_Value c i)" using H I(2) [OF live(2)] by simp
    moreover have "FindTable new_file n (of_nat (length (D n))) tc next_id = Some (OK, Some i, tc\<lparr>tc_cache := c\<rparr>, next_id)"
      using L Some by (simp add: FindTable_def)
    moreover have "tables_room m (tc\<lparr>tc_cache := c\<rparr>)"
      using some cache_sizes(1) [OF L] by (simp add: tables_room_def)
    ultimately show ?thesis using H by blast
  next
    case None
    have c: "c = tc_cache tc" using lru.look_miss [OF I(1) L [unfolded None]] by blast
    have nf: "new_file (TableFileName (tc_dbname tc) n) = Inr (rd n)"
      using live unfolding live_tables_def by blast
    obtain t id' where t: "Table_Open (tc_options tc) (rd n) (of_nat (length (D n))) next_id = Some (Inr t, id')"
        "opens dm (tc_options tc) rd D es n t"
      using live_opens [OF live] by blast
    obtain h2 c2 where ins: "Cache_Insert (EncodeFixed64 n) t 1 (Some DeleteEntry) (tc_cache tc) = Some (h2, c2)"
      and c2: "cache_inv c2" "pred_option (cache_held c2) h2" "pred_option (\<lambda>x. Cache_Value c2 x = t) h2"
        "\<forall>k. cache_abs c2 k = None \<or> cache_abs c2 k = cache_abs (tc_cache tc) k \<or> k = EncodeFixed64 n \<and> cache_abs c2 k = Some t"
      using lru.ins_ok [OF I(1) room(1)] by blast
    obtain j where j: "h2 = Some j" using Cache_Insert_handle [OF room(2) _ ins] by auto
    have "tables_ok dm rd D es live (tc\<lparr>tc_cache := c2\<rparr>)"
    proof (rule tables_okI [OF c2(1)])
      fix m v assume m: "m \<in> live" and v: "cache_abs c2 (EncodeFixed64 m) = Some v"
      consider "cache_abs (tc_cache tc) (EncodeFixed64 m) = Some v" | "EncodeFixed64 m = EncodeFixed64 n" "v = t"
        using c2(4) [rule_format, of "EncodeFixed64 m"] v by auto
      then show "opens dm (tc_options tc) rd D es m v"
      proof cases
        case 1
        with I(2) m show ?thesis by blast
      next
        case 2
        with EncodeFixed64_inj [OF 2(1)] t(2) show ?thesis by simp
      qed
    qed
    moreover have "FindTable new_file n (of_nat (length (D n))) tc next_id = Some (OK, Some j, tc\<lparr>tc_cache := c2\<rparr>, id')"
      using L None c nf t(1) ins j by (simp add: FindTable_def)
    moreover have "cache_held c2 j" "opens dm (tc_options tc) rd D es n (Cache_Value c2 j)"
      using c2(2,3) j t(2) by simp_all
    moreover have "tables_room m (tc\<lparr>tc_cache := c2\<rparr>)"
      using some Cache_Insert_sizes [OF I(1) room _ ins] by (simp add: tables_room_def)
    ultimately show ?thesis by blast
  qed
qed

text \<open>A lookup through the table cache is a lookup in the table of the file.\<close>

lemma TableCache_Get_correct:
  assumes tc: "tables_ok dm rd D es live tc" and room: "tables_room (Suc m) tc"
    and live: "live_tables dm (tc_options tc) (tc_dbname tc) new_file rd D es live" "n \<in> live" and k: "dm k"
    and pol: "\<And>p. op_filter_policy (tc_options tc) = Some p \<Longrightarrow> filter_policy p"
  shows "\<exists>arg' tc' id' bc'. TableCache_Get new_file options n (of_nat (length (D n))) k handle_result arg tc next_id None
      = Some (OK, arg', tc', id', bc') \<and> tables_ok dm rd D es live tc' \<and> tables_room m tc'
    \<and> tc_options tc' = tc_options tc \<and> tc_dbname tc' = tc_dbname tc
    \<and> (let lb = lower_bound (op_comparator (tc_options tc)) (es n) k
       in lb < length (es n) \<and> arg' = handle_result (fst (es n ! lb)) (snd (es n ! lb)) arg \<or> arg' = arg \<and> k \<notin> fst ` set (es n)
          \<and> (op_filter_policy (tc_options tc) = None \<longrightarrow> missed (op_comparator (tc_options tc)) (es n) k))"
proof -
  obtain h c id' where F: "FindTable new_file n (of_nat (length (D n))) tc next_id = Some (OK, Some h, tc\<lparr>tc_cache := c\<rparr>, id')"
      "tables_ok dm rd D es live (tc\<lparr>tc_cache := c\<rparr>)" "cache_held c h" "opens dm (tc_options tc) rd D es n (Cache_Value c h)"
      "tables_room m (tc\<lparr>tc_cache := c\<rparr>)"
    using FindTable_correct [OF tc room live, of next_id] by blast
  obtain fl ies where T: "table_of (tc_options tc) dm (rd n) (D n) (Cache_Value c h) (es n) fl ies"
    using F(4) unfolding opens_def by blast
  obtain inb where R: "table_reader (rd n) (D n) inb (tc_options tc) dm"
    using live unfolding live_tables_def by blast
  have none: "coherent f None" "has_room None" for f by (simp_all add: coherent_def has_room_def)
  obtain arg' bc' where G: "Table_InternalGet (Cache_Value c h) options k handle_result arg None = Some (OK, arg', bc')"
    and post: "let lb = lower_bound (op_comparator (tc_options tc)) (es n) k
       in lb < length (es n) \<and> arg' = handle_result (fst (es n ! lb)) (snd (es n ! lb)) arg \<or> arg' = arg \<and> k \<notin> fst ` set (es n)
          \<and> (op_filter_policy (tc_options tc) = None \<longrightarrow> missed (op_comparator (tc_options tc)) (es n) k)"
    using table_reader.InternalGet_outcome [OF R T k none(1) [of Map.empty] none(2) _ pol, of options handle_result arg]
    by blast
  have rel: "cache_inv (Cache_Release h c)" "cache_abs (Cache_Release h c) = cache_abs c"
    using lru.rel_ok [OF tables_okD(1) [OF F(2)], of h] F(3) by simp_all
  have "tables_ok dm rd D es live (TableCache_UnrefEntry h (tc\<lparr>tc_cache := c\<rparr>))"
    unfolding TableCache_UnrefEntry_def by (rule tables_okI) (use rel tables_okD(2) [OF F(2)] in simp_all)
  moreover have "TableCache_Get new_file options n (of_nat (length (D n))) k handle_result arg tc next_id None
      = Some (OK, arg', TableCache_UnrefEntry h (tc\<lparr>tc_cache := c\<rparr>), id', bc')"
    using F(1) G by (simp add: TableCache_Get_def ok_def OK_def)
  moreover have "tables_room m (TableCache_UnrefEntry h (tc\<lparr>tc_cache := c\<rparr>))"
      "tc_options (TableCache_UnrefEntry h (tc\<lparr>tc_cache := c\<rparr>)) = tc_options tc"
      "tc_dbname (TableCache_UnrefEntry h (tc\<lparr>tc_cache := c\<rparr>)) = tc_dbname tc"
    using F(5) by (simp_all add: TableCache_UnrefEntry_def tables_room_def cache_sizes)
  ultimately show ?thesis using post by blast
qed

end
