(* ===== verification/Mergers.thy ===== *)
theory Mergers
  imports Tables "HOL-Library.Multiset"
begin

text \<open>
  The merging iterator (db/merger.cc): children that are sorted cursors, the child with the
  smallest key as the current one when moving forward and the one with the largest when moving
  back. Over children with pairwise different keys it is a sorted cursor over their merge.
\<close>

section \<open>State and operations\<close>

text \<open>\<open>current_\<close> points into \<open>children_\<close>; it is the index.\<close>

record 's MergingIterator =
  mi_children :: "'s IteratorWrapper list"
  mi_current :: "nat option"
  mi_forward :: bool

definition MergingIterator_new :: "'s iter_ops \<Rightarrow> 's list \<Rightarrow> 's MergingIterator" where
  "MergingIterator_new ops children =
     \<lparr>mi_children = map (\<lambda>s. Wrapper_new ops (Some s)) children, mi_current = None, mi_forward = True\<rparr>"

text \<open>The loop over the children: the first valid child with no smaller (or larger) key.\<close>

fun FindBest :: "(bytes \<Rightarrow> bytes \<Rightarrow> bool) \<Rightarrow> nat \<Rightarrow> 's IteratorWrapper list \<Rightarrow> (nat \<times> bytes) option \<Rightarrow> nat option" where
  "FindBest better i [] best = map_option fst best"
| "FindBest better i (child # children) best =
     FindBest better (Suc i) children
       (if w_valid child \<and> (case best of None \<Rightarrow> True | Some (_, k) \<Rightarrow> better (w_key child) k)
        then Some (i, w_key child) else best)"

definition FindSmallest :: "comparator \<Rightarrow> 's MergingIterator \<Rightarrow> 's MergingIterator" where
  "FindSmallest c s = s\<lparr>mi_current := FindBest (\<lambda>a b. Compare c a b < 0) 0 (mi_children s) None\<rparr>"

definition FindLargest :: "comparator \<Rightarrow> 's MergingIterator \<Rightarrow> 's MergingIterator" where
  "FindLargest c s = s\<lparr>mi_current := FindBest (\<lambda>a b. Compare c a b > 0) 0 (mi_children s) None\<rparr>"

text \<open>A loop that moves every child; a child operation that does not return ends it.\<close>

fun each_child :: "(nat \<Rightarrow> 'w \<Rightarrow> 'w option) \<Rightarrow> nat \<Rightarrow> 'w list \<Rightarrow> 'w list option" where
  "each_child f i [] = Some []"
| "each_child f i (w # ws) = Option.bind (f i w) (\<lambda>w'. map_option ((#) w') (each_child f (Suc i) ws))"

definition MI_children_do ::
    "(nat \<Rightarrow> 's IteratorWrapper \<Rightarrow> 's IteratorWrapper option) \<Rightarrow> 's MergingIterator \<Rightarrow> 's MergingIterator option" where
  "MI_children_do f s = map_option (\<lambda>ws. s\<lparr>mi_children := ws\<rparr>) (each_child f 0 (mi_children s))"

definition MI_key :: "'s MergingIterator \<Rightarrow> bytes" where
  "MI_key s = (case mi_current s of None \<Rightarrow> [] | Some i \<Rightarrow> w_key (mi_children s ! i))"

definition MI_value :: "'s iter_ops \<Rightarrow> 's MergingIterator \<Rightarrow> bytes" where
  "MI_value ops s = (case mi_current s of None \<Rightarrow> [] | Some i \<Rightarrow> it_value (Wrapper_ops ops) (mi_children s ! i))"

definition MI_SeekToFirst :: "comparator \<Rightarrow> 's iter_ops \<Rightarrow> 's MergingIterator \<Rightarrow> 's MergingIterator option" where
  "MI_SeekToFirst c ops s =
     map_option (\<lambda>s. FindSmallest c (s\<lparr>mi_forward := True\<rparr>)) (MI_children_do (\<lambda>_. it_SeekToFirst (Wrapper_ops ops)) s)"

definition MI_SeekToLast :: "comparator \<Rightarrow> 's iter_ops \<Rightarrow> 's MergingIterator \<Rightarrow> 's MergingIterator option" where
  "MI_SeekToLast c ops s =
     map_option (\<lambda>s. FindLargest c (s\<lparr>mi_forward := False\<rparr>)) (MI_children_do (\<lambda>_. it_SeekToLast (Wrapper_ops ops)) s)"

definition MI_Seek :: "comparator \<Rightarrow> 's iter_ops \<Rightarrow> 's MergingIterator \<Rightarrow> bytes \<Rightarrow> 's MergingIterator option" where
  "MI_Seek c ops s target =
     map_option (\<lambda>s. FindSmallest c (s\<lparr>mi_forward := True\<rparr>)) (MI_children_do (\<lambda>_ w. it_Seek (Wrapper_ops ops) w target) s)"

text \<open>Turning round: the children other than the current one are placed after (or before) its key.\<close>

definition MI_turn_forward :: "comparator \<Rightarrow> 's iter_ops \<Rightarrow> bytes \<Rightarrow> 's IteratorWrapper \<Rightarrow> 's IteratorWrapper option" where
  "MI_turn_forward c ops key w =
     Option.bind (it_Seek (Wrapper_ops ops) w key) (\<lambda>w.
       if w_valid w \<and> Compare c key (w_key w) = 0 then it_Next (Wrapper_ops ops) w else Some w)"

definition MI_turn_back :: "'s iter_ops \<Rightarrow> bytes \<Rightarrow> 's IteratorWrapper \<Rightarrow> 's IteratorWrapper option" where
  "MI_turn_back ops key w =
     Option.bind (it_Seek (Wrapper_ops ops) w key) (\<lambda>w.
       if w_valid w then it_Prev (Wrapper_ops ops) w else it_SeekToLast (Wrapper_ops ops) w)"

definition MI_current_do ::
    "('s IteratorWrapper \<Rightarrow> 's IteratorWrapper option) \<Rightarrow> 's MergingIterator \<Rightarrow> 's MergingIterator option" where
  "MI_current_do f s =
     (case mi_current s of
        None \<Rightarrow> None
      | Some i \<Rightarrow> map_option (\<lambda>w. s\<lparr>mi_children := (mi_children s)[i := w]\<rparr>) (f (mi_children s ! i)))"

definition MI_Next :: "comparator \<Rightarrow> 's iter_ops \<Rightarrow> 's MergingIterator \<Rightarrow> 's MergingIterator option" where
  "MI_Next c ops s =
     Option.bind (if \<not> mi_forward s
                  then map_option (\<lambda>s. s\<lparr>mi_forward := True\<rparr>)
                         (MI_children_do (\<lambda>i w. if Some i = mi_current s then Some w else MI_turn_forward c ops (MI_key s) w) s)
                  else Some s)
       (\<lambda>s. map_option (FindSmallest c) (MI_current_do (it_Next (Wrapper_ops ops)) s))"

definition MI_Prev :: "comparator \<Rightarrow> 's iter_ops \<Rightarrow> 's MergingIterator \<Rightarrow> 's MergingIterator option" where
  "MI_Prev c ops s =
     Option.bind (if mi_forward s
                  then map_option (\<lambda>s. s\<lparr>mi_forward := False\<rparr>)
                         (MI_children_do (\<lambda>i w. if Some i = mi_current s then Some w else MI_turn_back ops (MI_key s) w) s)
                  else Some s)
       (\<lambda>s. map_option (FindLargest c) (MI_current_do (it_Prev (Wrapper_ops ops)) s))"

text \<open>The first status of a child that is not OK.\<close>

definition MI_status :: "'s iter_ops \<Rightarrow> 's MergingIterator \<Rightarrow> Status" where
  "MI_status ops s =
     (case find (\<lambda>st. \<not> ok st) (map (it_status (Wrapper_ops ops)) (mi_children s)) of None \<Rightarrow> OK | Some st \<Rightarrow> st)"

definition Merging_ops :: "comparator \<Rightarrow> 's iter_ops \<Rightarrow> 's MergingIterator iter_ops" where
  "Merging_ops c ops = \<lparr>it_Valid = (\<lambda>s. mi_current s \<noteq> None),
     it_SeekToFirst = MI_SeekToFirst c ops, it_SeekToLast = MI_SeekToLast c ops, it_Seek = MI_Seek c ops,
     it_Next = MI_Next c ops, it_Prev = MI_Prev c ops, it_key = MI_key, it_value = MI_value ops, it_status = MI_status ops\<rparr>"

text \<open>No child gives the empty iterator, one child itself.\<close>

type_synonym 's merged = "Status + 's + 's MergingIterator"

definition NewMergingIterator :: "'s iter_ops \<Rightarrow> 's list \<Rightarrow> 's merged" where
  "NewMergingIterator ops children =
     (case children of
        [] \<Rightarrow> Inl NewEmptyIterator
      | [child] \<Rightarrow> Inr (Inl child)
      | _ \<Rightarrow> Inr (Inr (MergingIterator_new ops children)))"

definition Merged_ops :: "comparator \<Rightarrow> 's iter_ops \<Rightarrow> 's merged iter_ops" where
  "Merged_ops c ops = Dispatch EmptyIterator (Dispatch ops (Merging_ops c ops))"

section \<open>Positions in the merge\<close>

definition merge_of :: "comparator \<Rightarrow> entries \<Rightarrow> entries list \<Rightarrow> bool" where
  "merge_of c es ess \<longleftrightarrow> sorted_wrt (\<lambda>a b. Compare c (fst a) (fst b) < 0) es \<and> mset es = mset (concat ess)"

text \<open>How many entries of a child lie among the first \<open>p\<close> of the merge.\<close>

definition behind :: "entries \<Rightarrow> nat \<Rightarrow> entries \<Rightarrow> nat" where
  "behind es p xs = length (takeWhile (\<lambda>e. e \<in> set (take p es)) xs)"

lemma behindI:
  assumes "k \<le> length xs" "\<And>i. i < k \<Longrightarrow> xs ! i \<in> set (take p es)" "k < length xs \<Longrightarrow> xs ! k \<notin> set (take p es)"
  shows "behind es p xs = k"
proof -
  have "takeWhile (\<lambda>e. e \<in> set (take p es)) xs = take k xs"
    using assms by (intro takeWhile_eq_take_P_nth) auto
  then show ?thesis using assms(1) by (simp add: behind_def)
qed

lemma behind_0 [simp]: "behind es 0 xs = 0"
  by (cases xs) (simp_all add: behind_def)

lemma behind_all: "set xs \<subseteq> set es \<Longrightarrow> length es \<le> p \<Longrightarrow> behind es p xs = length xs"
  by (rule behindI) auto

lemma behind_le: "behind es p xs \<le> length xs"
  by (simp add: behind_def length_takeWhile_le)

lemma behind_nth: "behind es p xs < length xs \<Longrightarrow> xs ! behind es p xs \<notin> set (take p es)"
  unfolding behind_def by (rule nth_length_takeWhile)

lemma FindBest_keep:
  "\<forall>w \<in> set ws. w_valid w \<longrightarrow> \<not> better (w_key w) k \<Longrightarrow> FindBest better i ws (Some (x, k)) = Some x"
  by (induction ws arbitrary: i) auto

lemma FindBest_none: "\<forall>w \<in> set ws. \<not> w_valid w \<Longrightarrow> FindBest better i ws None = None"
  by (induction ws arbitrary: i) auto

lemma FindBest_find:
  assumes "j < length ws" "w_valid (ws ! j)"
    and "\<forall>i < length ws. i \<noteq> j \<longrightarrow> w_valid (ws ! i) \<longrightarrow>
      better (w_key (ws ! j)) (w_key (ws ! i)) \<and> \<not> better (w_key (ws ! i)) (w_key (ws ! j))"
    and "case best of None \<Rightarrow> True | Some (_, k) \<Rightarrow> better (w_key (ws ! j)) k"
  shows "FindBest better i ws best = Some (i + j)"
  using assms
proof (induction ws arbitrary: i j best)
  case (Cons w ws)
  show ?case
  proof (cases j)
    case 0
    have "\<forall>v \<in> set ws. w_valid v \<longrightarrow> \<not> better (w_key v) (w_key w)"
      using Cons.prems(3) 0 by (fastforce simp: in_set_conv_nth)
    then show ?thesis using Cons.prems(2,4) 0 by (auto simp: FindBest_keep split: option.splits)
  next
    case (Suc j')
    have rest: "\<forall>i < length ws. i \<noteq> j' \<longrightarrow> w_valid (ws ! i) \<longrightarrow>
        better (w_key (ws ! j')) (w_key (ws ! i)) \<and> \<not> better (w_key (ws ! i)) (w_key (ws ! j'))"
      using Cons.prems(3) Suc by (metis Suc_less_eq length_Cons nth_Cons_Suc old.nat.inject)
    have "w_valid w \<longrightarrow> better (w_key (ws ! j')) (w_key w)"
      using Cons.prems(3) Suc by fastforce
    then have "case (if w_valid w \<and> (case best of None \<Rightarrow> True | Some (_, k) \<Rightarrow> better (w_key w) k) then Some (i, w_key w) else best)
        of None \<Rightarrow> True | Some (_, k) \<Rightarrow> better (w_key (ws ! j')) k"
      using Cons.prems(4) Suc by (auto split: option.splits)
    from Cons.IH [OF _ _ rest this] Cons.prems(1,2) Suc show ?thesis by simp
  qed
qed simp

lemma each_child_all:
  assumes "\<And>j. j < length ws \<Longrightarrow> \<exists>w'. f (i + j) (ws ! j) = Some w' \<and> Q (i + j) w'"
  shows "\<exists>ws'. each_child f i ws = Some ws' \<and> length ws' = length ws \<and> (\<forall>j < length ws. Q (i + j) (ws' ! j))"
  using assms
proof (induction ws arbitrary: i)
  case (Cons w ws)
  obtain w' where w: "f i w = Some w'" "Q i w'" using Cons.prems [of 0] by auto
  have "\<exists>w'. f (Suc i + j) (ws ! j) = Some w' \<and> Q (Suc i + j) w'" if "j < length ws" for j
    using Cons.prems [of "Suc j"] that by simp
  from Cons.IH [OF this] obtain ws' where
    "each_child f (Suc i) ws = Some ws'" "length ws' = length ws" "\<forall>j < length ws. Q (Suc i + j) (ws' ! j)" by blast
  with w show ?case
    by (intro exI [of _ "w' # ws'"]) (auto simp: less_Suc_eq_0_disj)
qed simp

lemma concat_owner:
  "distinct (concat xss) \<Longrightarrow> i < length xss \<Longrightarrow> x \<in> set (xss ! i) \<Longrightarrow> j < length xss \<Longrightarrow> x \<in> set (xss ! j) \<Longrightarrow> i = j"
proof (induction xss arbitrary: i j)
  case (Cons xs xss)
  have dis: "x \<notin> set xs \<or> x \<notin> set (xss ! k)" if "k < length xss" for k
    using Cons.prems(1) nth_mem [OF that] by auto
  show ?case
    using Cons.prems Cons.IH dis by (cases i; cases j) auto
qed simp

context comparator_laws
begin

lemma merge_order:
  assumes m: "merge_of c es ess" and d: "\<forall>e \<in> set es. dm (fst e)" and qr: "q < length es" "r < length es"
  shows "Compare c (fst (es ! q)) (fst (es ! r)) < 0 \<longleftrightarrow> q < r"
proof -
  have lt: "Compare c (fst (es ! a)) (fst (es ! b)) < 0" if "a < b" "b < length es" for a b
    using m that unfolding merge_of_def by (simp add: sorted_wrt_iff_nth_less)
  have dq: "dm (fst (es ! q))" "dm (fst (es ! r))" using d qr by auto
  consider "q < r" | "q = r" | "r < q" by linarith
  then show ?thesis
  proof cases
    case 2 then show ?thesis using cmp_refl [OF dq(1)] by simp
  next
    case 3 then show ?thesis using lt [OF 3 qr(1)] cmp_anti [OF dq(2,1)] by simp
  qed (use lt qr in simp)
qed

lemma merge_child_subset: "merge_of c es ess \<Longrightarrow> xs \<in> set ess \<Longrightarrow> set xs \<subseteq> set es"
  unfolding merge_of_def by (metis UN_upper set_concat set_mset_mset)

lemma merge_sorted: "merge_of c es ess \<Longrightarrow> sorted_wrt (\<lambda>a b. Compare c (fst a) (fst b) < 0) es"
  by (simp add: merge_of_def)

lemma merge_distinct:
  assumes m: "merge_of c es ess" and d: "\<forall>e \<in> set es. dm (fst e)"
  shows "distinct es" "distinct (concat ess)"
proof -
  show "distinct es"
    unfolding distinct_conv_nth
  proof (intro allI impI)
    fix i j assume ij: "i < length es" "j < length es" "i \<noteq> j"
    then show "es ! i \<noteq> es ! j"
      using merge_order [OF m d ij(1,2)] merge_order [OF m d ij(2,1)] merge_order [OF m d ij(1,1)] by fastforce
  qed
  then show "distinct (concat ess)"
    using m unfolding merge_of_def by (metis mset_eq_imp_distinct_iff)
qed

lemma merge_owner:
  assumes m: "merge_of c es ess" and d: "\<forall>e \<in> set es. dm (fst e)" and p: "p < length es"
  obtains j where "j < length ess" "es ! p \<in> set (ess ! j)" "\<And>i. i < length ess \<Longrightarrow> es ! p \<in> set (ess ! i) \<Longrightarrow> i = j"
proof -
  have "es ! p \<in> set (concat ess)"
    using m p unfolding merge_of_def by (metis nth_mem set_mset_mset)
  then obtain xs where "xs \<in> set ess" "es ! p \<in> set xs" by auto
  then obtain j where j: "j < length ess" "es ! p \<in> set (ess ! j)" by (metis in_set_conv_nth)
  show thesis
    by (rule that [OF j]) (rule concat_owner [OF merge_distinct(2) [OF m d] _ _ j])
qed

text \<open>Stepping over \<open>es ! p\<close> moves exactly the child that holds it.\<close>

lemma behind_seek:
  assumes m: "merge_of c es ess" and d: "\<forall>e \<in> set es. dm (fst e)" and xs: "xs \<in> set ess" and t: "dm t"
  shows "behind es (lower_bound c es t) xs = lower_bound c xs t"
proof -
  have "e \<in> set (take (lower_bound c es t) es) \<longleftrightarrow> Compare c (fst e) t < 0" if "e \<in> set xs" for e
  proof
    assume "e \<in> set (take (lower_bound c es t) es)"
    then obtain i where "i < lower_bound c es t" "e = es ! i" by (auto simp: in_set_conv_nth)
    then show "Compare c (fst e) t < 0" using lower_bound_less by blast
  next
    assume less: "Compare c (fst e) t < 0"
    have "e \<in> set es" using merge_child_subset [OF m xs] that by blast
    then obtain q where q: "q < length es" "e = es ! q" by (auto simp: in_set_conv_nth)
    have "q < lower_bound c es t"
    proof (rule ccontr)
      assume nq: "\<not> q < lower_bound c es t"
      let ?l = "lower_bound c es t"
      have l: "?l < length es" "\<not> Compare c (fst (es ! ?l)) t < 0" using nq q(1) lower_bound_ge [of c es t] by auto
      have dd: "dm (fst (es ! ?l))" "dm (fst e)" using d l(1) \<open>e \<in> set es\<close> by auto
      have "Compare c (fst (es ! ?l)) (fst e) \<le> 0"
      proof (cases "?l = q")
        case True then show ?thesis using q cmp_refl [OF dd(1)] by simp
      next
        case False
        then show ?thesis using merge_order [OF m d l(1) q(1)] nq q(2) by simp
      qed
      with less l(2) cmp_le_less_trans [OF dd t] show False by blast
    qed
    then show "e \<in> set (take (lower_bound c es t) es)" using q by (auto simp: in_set_conv_nth)
  qed
  then show ?thesis unfolding behind_def lower_bound_def by (metis (no_types, lifting) takeWhile_cong)
qed

lemma merge_seek_self:
  assumes m: "merge_of c es ess" and d: "\<forall>e \<in> set es. dm (fst e)" and p: "p < length es"
  shows "lower_bound c es (fst (es ! p)) = p"
proof (rule lower_boundI)
  show "Compare c (fst (es ! j)) (fst (es ! p)) < 0" if "j < p" for j
    using merge_order [OF m d _ p] that p by simp
  show "\<not> Compare c (fst (es ! p)) (fst (es ! p)) < 0"
    using merge_order [OF m d p p] by simp
qed (use p in simp)

lemma behind_other:
  assumes "p < length es" "es ! p \<notin> set xs"
  shows "behind es (Suc p) xs = behind es p xs"
proof -
  have "e \<in> set (take (Suc p) es) \<longleftrightarrow> e \<in> set (take p es)" if "e \<in> set xs" for e
    using assms that by (auto simp: take_Suc_conv_app_nth)
  then show ?thesis unfolding behind_def by (metis (no_types, lifting) takeWhile_cong)
qed

lemma behind_owner:
  assumes m: "merge_of c es ess" and d: "\<forall>e \<in> set es. dm (fst e)" and p: "p < length es"
    and xs: "xs \<in> set ess" "es ! p \<in> set xs" and sorted: "sorted_wrt (\<lambda>a b. Compare c (fst a) (fst b) < 0) xs"
  shows "behind es p xs < length xs" "xs ! behind es p xs = es ! p" "behind es (Suc p) xs = Suc (behind es p xs)"
proof -
  note D = merge_distinct(1) [OF m d]
  have sub: "set xs \<subseteq> set es" using merge_child_subset [OF m xs(1)] .
  obtain k where k: "k < length xs" "xs ! k = es ! p" using xs(2) by (auto simp: in_set_conv_nth)
  have at: "\<exists>q < length es. xs ! i = es ! q" if "i < length xs" for i
    using that sub nth_mem by (fastforce simp: in_set_conv_nth)
  have below: "xs ! i \<in> set (take p es)" if i: "i < k" for i
  proof -
    obtain q where q: "q < length es" "xs ! i = es ! q" using at [of i] i k by auto
    have "Compare c (fst (xs ! i)) (fst (xs ! k)) < 0" using sorted_wrt_nth_less [OF sorted i k(1)] .
    then have "q < p" using merge_order [OF m d q(1) p] q(2) k(2) by simp
    then show ?thesis using q by (auto simp: in_set_conv_nth)
  qed
  have nth_take: "es ! r \<in> set (take n es) \<longleftrightarrow> r < n" if "r < length es" for r n
  proof
    assume "es ! r \<in> set (take n es)"
    then obtain i where "i < n" "i < length es" "es ! i = es ! r" by (auto simp: in_set_conv_nth)
    then show "r < n" using D that by (simp add: nth_eq_iff_index_eq)
  next
    assume "r < n" then show "es ! r \<in> set (take n es)" using that by (auto simp: in_set_conv_nth)
  qed
  have b: "behind es p xs = k"
    by (rule behindI) (use k below nth_take [OF p] in auto)
  have "behind es (Suc p) xs = Suc k"
  proof (rule behindI)
    show "xs ! i \<in> set (take (Suc p) es)" if "i < Suc k" for i
      using that below [of i] nth_take [OF p, of "Suc p"] k(2) set_take_subset_set_take [of p "Suc p" es] by (cases "i = k") auto
  next
    assume sk: "Suc k < length xs"
    obtain q where q: "q < length es" "xs ! Suc k = es ! q" using at [OF sk] by auto
    have "Compare c (fst (xs ! k)) (fst (xs ! Suc k)) < 0" using sorted_wrt_nth_less [OF sorted _ sk] by blast
    then have "p < q" using merge_order [OF m d p q(1)] q(2) k(2) by simp
    then show "xs ! Suc k \<notin> set (take (Suc p) es)" using nth_take [OF q(1)] q(2) by simp
  qed (use k in simp)
  then show "behind es p xs < length xs" "xs ! behind es p xs = es ! p" "behind es (Suc p) xs = Suc (behind es p xs)"
    using b k by simp_all
qed

end

section \<open>The merge is a sorted cursor\<close>

text \<open>
  Where each child stands: forward, at its first entry from place \<open>p\<close> of the merge on; backward, at
  its last entry up to place \<open>p\<close>, or nowhere.
\<close>

definition child_pos :: "bool \<Rightarrow> entries \<Rightarrow> nat \<Rightarrow> entries \<Rightarrow> nat" where
  "child_pos forward es p xs =
     (if forward then behind es p xs
      else if behind es (Suc p) xs = 0 then length xs else behind es (Suc p) xs - 1)"

definition children_at ::
    "'s iter_ops \<Rightarrow> ('s \<Rightarrow> entries \<Rightarrow> nat \<Rightarrow> bool) \<Rightarrow> 's IteratorWrapper list \<Rightarrow> entries list \<Rightarrow> (entries \<Rightarrow> nat) \<Rightarrow> bool" where
  "children_at ops at ws ess f \<longleftrightarrow> length ws = length ess \<and> (\<forall>j < length ess. wrapped ops at (ws ! j) (ess ! j) (f (ess ! j)))"

definition at_merging ::
    "comparator \<Rightarrow> (bytes \<Rightarrow> bool) \<Rightarrow> 's iter_ops \<Rightarrow> ('s \<Rightarrow> entries \<Rightarrow> nat \<Rightarrow> bool) \<Rightarrow> 's MergingIterator \<Rightarrow> entries \<Rightarrow> nat \<Rightarrow> bool" where
  "at_merging c dm ops at s es p \<longleftrightarrow>
     (\<exists>ess. merge_of c es ess \<and> (\<forall>e \<in> set es. dm (fst e)) \<and> p \<le> length es
        \<and> (if p < length es
           then (\<exists>j < length ess. mi_current s = Some j \<and> es ! p \<in> set (ess ! j))
                \<and> children_at ops at (mi_children s) ess (child_pos (mi_forward s) es p)
           else mi_current s = None \<and> (\<exists>f. children_at ops at (mi_children s) ess f)))"

locale merging = comparator_laws c dm + child: sorted_iterator c dm ops at
  for c :: comparator and dm :: "bytes \<Rightarrow> bool" and ops :: "'s iter_ops" and at :: "'s \<Rightarrow> entries \<Rightarrow> nat \<Rightarrow> bool"
begin

lemma ww: "sorted_iterator c dm (Wrapper_ops ops) (wrapped ops at)"
  by (rule child.wrapper_sorted)

lemma w_valid_at: "wrapped ops at w xs i \<Longrightarrow> w_valid w \<longleftrightarrow> i < length xs"
  using sorted_iterator.at_Valid [OF ww, of w xs i] by (simp add: Wrapper_ops_def)

lemma w_key_at: "wrapped ops at w xs i \<Longrightarrow> i < length xs \<Longrightarrow> w_key w = fst (xs ! i)"
  using sorted_iterator.at_key [OF ww, of w xs i] by (simp add: Wrapper_ops_def)

lemma children_move:
  assumes ch: "children_at ops at ws ess f"
    and mv: "\<And>j w xs. j < length ess \<Longrightarrow> xs = ess ! j \<Longrightarrow> wrapped ops at w xs (f xs) \<Longrightarrow> \<exists>w'. g j w = Some w' \<and> wrapped ops at w' xs (f' xs)"
  shows "\<exists>ws'. each_child g 0 ws = Some ws' \<and> children_at ops at ws' ess f'"
proof -
  have "\<exists>w'. g (0 + j) (ws ! j) = Some w' \<and> wrapped ops at w' (ess ! (0 + j)) (f' (ess ! (0 + j)))" if "j < length ws" for j
    using mv [of j "ess ! j" "ws ! j"] ch that by (simp add: children_at_def)
  from each_child_all [of ws g 0 "\<lambda>j w. wrapped ops at w (ess ! j) (f' (ess ! j))", OF this] ch show ?thesis
    by (auto simp: children_at_def)
qed

text \<open>The smallest of the first entries from \<open>p\<close> on is \<open>es ! p\<close>; the largest of the last entries up to \<open>p\<close> too.\<close>

lemma choose_forward:
  assumes m: "merge_of c es ess" and d: "\<forall>e \<in> set es. dm (fst e)" and p: "p \<le> length es"
    and ch: "children_at ops at ws ess (child_pos True es p)" and s: "mi_children s = ws"
  shows "at_merging c dm ops at (FindSmallest c (s\<lparr>mi_forward := True\<rparr>)) es p"
proof (cases "p < length es")
  case False
  have "\<not> w_valid w" if "w \<in> set ws" for w
  proof -
    have "length ws = length ess" using ch by (simp add: children_at_def)
    with that obtain j where j: "j < length ess" "w = ws ! j" by (metis in_set_conv_nth)
    then have "wrapped ops at w (ess ! j) (behind es p (ess ! j))" using ch by (simp add: children_at_def child_pos_def)
    moreover have "behind es p (ess ! j) = length (ess ! j)"
      using behind_all [OF merge_child_subset [OF m]] j(1) False by simp
    ultimately show ?thesis using w_valid_at by fastforce
  qed
  then have "FindBest (\<lambda>a b. Compare c a b < 0) 0 ws None = None" by (intro FindBest_none) blast
  then show ?thesis
    using m d p False ch s unfolding at_merging_def FindSmallest_def by auto
next
  case True
  obtain j where j: "j < length ess" "es ! p \<in> set (ess ! j)" using merge_owner [OF m d True] by metis
  have W: "wrapped ops at (ws ! i) (ess ! i) (behind es p (ess ! i))" if "i < length ess" for i
    using ch that by (simp add: children_at_def child_pos_def)
  have len: "length ws = length ess" using ch by (simp add: children_at_def)
  have srt: "sorted_wrt (\<lambda>a b. Compare c (fst a) (fst b) < 0) (ess ! i)" if "i < length ess" for i
    using sorted_iterator.at_sorted [OF ww W [OF that]] .
  note own = behind_owner [OF m d True _ j(2) srt [OF j(1)]]
  have kj: "w_valid (ws ! j)" "w_key (ws ! j) = fst (es ! p)"
    using own j(1) w_valid_at [OF W [OF j(1)]] w_key_at [OF W [OF j(1)]] by simp_all
  have oth: "Compare c (fst (es ! p)) (w_key (ws ! i)) < 0 \<and> \<not> Compare c (w_key (ws ! i)) (fst (es ! p)) < 0"
    if i: "i < length ess" "i \<noteq> j" "w_valid (ws ! i)" for i
  proof -
    have b: "behind es p (ess ! i) < length (ess ! i)" using w_valid_at [OF W [OF i(1)]] i(3) by simp
    let ?e = "ess ! i ! behind es p (ess ! i)"
    have "?e \<in> set es" using merge_child_subset [OF m, of "ess ! i"] i(1) b by auto
    then obtain q where q: "q < length es" "?e = es ! q" by (auto simp: in_set_conv_nth)
    have "\<not> q < p" using behind_nth [OF b] q by (auto simp: in_set_conv_nth)
    moreover have "q \<noteq> p"
      using concat_owner [OF merge_distinct(2) [OF m d] i(1) _ j(1,2)] b q(2) i(2) by (metis nth_mem)
    ultimately have "p < q" by simp
    then show ?thesis
      using merge_order [OF m d True q(1)] merge_order [OF m d q(1) True] w_key_at [OF W [OF i(1)] b] q(2) by simp
  qed
  have "FindBest (\<lambda>a b. Compare c a b < 0) 0 ws None = Some (0 + j)"
    by (rule FindBest_find) (use j(1) len kj oth in auto)
  then show ?thesis
    using m d p True ch s j unfolding at_merging_def FindSmallest_def by auto
qed

lemma choose_backward:
  assumes m: "merge_of c es ess" and d: "\<forall>e \<in> set es. dm (fst e)" and p: "p < length es"
    and ch: "children_at ops at ws ess (child_pos False es p)" and s: "mi_children s = ws"
  shows "at_merging c dm ops at (FindLargest c (s\<lparr>mi_forward := False\<rparr>)) es p"
proof -
  obtain j where j: "j < length ess" "es ! p \<in> set (ess ! j)" using merge_owner [OF m d p] by metis
  have W: "wrapped ops at (ws ! i) (ess ! i) (child_pos False es p (ess ! i))" if "i < length ess" for i
    using ch that by (simp add: children_at_def)
  have len: "length ws = length ess" using ch by (simp add: children_at_def)
  have srt: "sorted_wrt (\<lambda>a b. Compare c (fst a) (fst b) < 0) (ess ! i)" if "i < length ess" for i
    using sorted_iterator.at_sorted [OF ww W [OF that]] .
  note own = behind_owner [OF m d p _ j(2) srt [OF j(1)]]
  have pj: "child_pos False es p (ess ! j) = behind es p (ess ! j)" using own j(1) by (simp add: child_pos_def)
  have kj: "w_valid (ws ! j)" "w_key (ws ! j) = fst (es ! p)"
    using own j(1) w_valid_at [OF W [OF j(1)]] w_key_at [OF W [OF j(1)]] pj by simp_all
  have oth: "0 < Compare c (fst (es ! p)) (w_key (ws ! i)) \<and> \<not> 0 < Compare c (w_key (ws ! i)) (fst (es ! p))"
    if i: "i < length ess" "i \<noteq> j" "w_valid (ws ! i)" for i
  proof -
    have b: "child_pos False es p (ess ! i) < length (ess ! i)" using w_valid_at [OF W [OF i(1)]] i(3) by simp
    let ?b = "behind es (Suc p) (ess ! i)"
    have pos: "0 < ?b" "child_pos False es p (ess ! i) = ?b - 1" using b by (auto simp: child_pos_def split: if_splits)
    let ?e = "ess ! i ! (?b - 1)"
    have "?e \<in> set (takeWhile (\<lambda>e. e \<in> set (take (Suc p) es)) (ess ! i))"
      using pos(1) unfolding behind_def by (metis diff_less less_one nth_mem takeWhile_nth)
    then have "?e \<in> set (take (Suc p) es)" by (rule set_takeWhileD [THEN conjunct2])
    then obtain q where q: "q < length es" "q \<le> p" "?e = es ! q" by (auto simp: in_set_conv_nth less_Suc_eq_le)
    have "?e \<in> set (ess ! i)" using pos b by simp
    then have "q \<noteq> p"
      using concat_owner [OF merge_distinct(2) [OF m d] i(1) _ j(1,2)] q(3) i(2) by auto
    then have "q < p" using q(2) by simp
    moreover have "dm (fst (es ! p))" "dm (fst (es ! q))" using d p q(1) by auto
    ultimately show ?thesis
      using merge_order [OF m d q(1) p] merge_order [OF m d p q(1)] w_key_at [OF W [OF i(1)] b] q(3) pos(2)
        cmp_anti [of "fst (es ! q)" "fst (es ! p)"] cmp_anti [of "fst (es ! p)" "fst (es ! q)"] by simp
  qed
  have "FindBest (\<lambda>a b. 0 < Compare c a b) 0 ws None = Some (0 + j)"
    by (rule FindBest_find) (use j(1) len kj oth in auto)
  then show ?thesis
    using m d p ch s j unfolding at_merging_def FindLargest_def by auto
qed

text \<open>With every child nowhere there is no largest.\<close>

lemma choose_none:
  assumes m: "merge_of c es ess" and d: "\<forall>e \<in> set es. dm (fst e)"
    and ch: "children_at ops at ws ess length" and s: "mi_children s = ws"
  shows "at_merging c dm ops at (FindLargest c (s\<lparr>mi_forward := False\<rparr>)) es (length es)"
proof -
  have "\<not> w_valid w" if "w \<in> set ws" for w
  proof -
    have "length ws = length ess" using ch by (simp add: children_at_def)
    with that obtain j where j: "j < length ess" "w = ws ! j" by (metis in_set_conv_nth)
    then have "wrapped ops at w (ess ! j) (length (ess ! j))" using ch by (simp add: children_at_def)
    then show ?thesis using w_valid_at by fastforce
  qed
  then have "FindBest (\<lambda>a b. 0 < Compare c a b) 0 ws None = None" by (intro FindBest_none) blast
  then show ?thesis
    using m d ch s unfolding at_merging_def FindLargest_def by auto
qed

lemma at_mergingD:
  assumes "at_merging c dm ops at s es p"
  obtains ess f where "merge_of c es ess" "\<forall>e \<in> set es. dm (fst e)" "p \<le> length es" "children_at ops at (mi_children s) ess f"
    "p < length es \<Longrightarrow> f = child_pos (mi_forward s) es p"
    "p < length es \<Longrightarrow> \<exists>j < length ess. mi_current s = Some j \<and> es ! p \<in> set (ess ! j)"
    "\<not> p < length es \<Longrightarrow> mi_current s = None"
  using assms unfolding at_merging_def by (cases "p < length es") (simp, blast, simp, blast)

lemma MI_children_do_each:
  "each_child g 0 (mi_children s) = Some ws' \<Longrightarrow> MI_children_do g s = Some (s\<lparr>mi_children := ws'\<rparr>)"
  by (simp add: MI_children_do_def)

lemma MI_SeekToFirst_at:
  assumes "at_merging c dm ops at s es p"
  shows "\<exists>s'. MI_SeekToFirst c ops s = Some s' \<and> at_merging c dm ops at s' es 0"
proof -
  from assms obtain ess f where A: "merge_of c es ess" "\<forall>e \<in> set es. dm (fst e)" "children_at ops at (mi_children s) ess f"
    by (rule at_mergingD)
  obtain ws' where W: "each_child (\<lambda>_. it_SeekToFirst (Wrapper_ops ops)) 0 (mi_children s) = Some ws'"
      "children_at ops at ws' ess (child_pos True es 0)"
    using children_move [OF A(3), of "\<lambda>_. it_SeekToFirst (Wrapper_ops ops)" "child_pos True es 0"]
      sorted_iterator.at_SeekToFirst [OF ww] by (fastforce simp: child_pos_def)
  have "at_merging c dm ops at (FindSmallest c ((s\<lparr>mi_children := ws'\<rparr>)\<lparr>mi_forward := True\<rparr>)) es 0"
    by (rule choose_forward [OF A(1,2) _ W(2)]) simp_all
  then show ?thesis by (simp add: MI_SeekToFirst_def MI_children_do_each [OF W(1)])
qed

lemma MI_Seek_at:
  assumes "at_merging c dm ops at s es p" and t: "dm t"
  shows "\<exists>s'. MI_Seek c ops s t = Some s' \<and> at_merging c dm ops at s' es (lower_bound c es t)"
proof -
  from assms(1) obtain ess f where A: "merge_of c es ess" "\<forall>e \<in> set es. dm (fst e)" "children_at ops at (mi_children s) ess f"
    by (rule at_mergingD)
  have mv: "\<exists>w'. it_Seek (Wrapper_ops ops) w t = Some w' \<and> wrapped ops at w' xs (child_pos True es (lower_bound c es t) xs)"
    if "j < length ess" "xs = ess ! j" "wrapped ops at w xs (f xs)" for j w xs
    using sorted_iterator.at_Seek [OF ww that(3) t] behind_seek [OF A(1,2) _ t, of xs] that(1,2) by (simp add: child_pos_def)
  obtain ws' where W: "each_child (\<lambda>_ w. it_Seek (Wrapper_ops ops) w t) 0 (mi_children s) = Some ws'"
      "children_at ops at ws' ess (child_pos True es (lower_bound c es t))"
    using children_move [OF A(3), of "\<lambda>_ w. it_Seek (Wrapper_ops ops) w t" "child_pos True es (lower_bound c es t)"] mv by blast
  have "at_merging c dm ops at (FindSmallest c ((s\<lparr>mi_children := ws'\<rparr>)\<lparr>mi_forward := True\<rparr>)) es (lower_bound c es t)"
    by (rule choose_forward [OF A(1,2) lower_bound_le W(2)]) simp
  then show ?thesis by (simp add: MI_Seek_def MI_children_do_each [OF W(1)])
qed

lemma MI_SeekToLast_at:
  assumes "at_merging c dm ops at s es p"
  shows "\<exists>s'. MI_SeekToLast c ops s = Some s' \<and> at_merging c dm ops at s' es (length es - 1)"
proof -
  from assms obtain ess f where A: "merge_of c es ess" "\<forall>e \<in> set es. dm (fst e)" "children_at ops at (mi_children s) ess f"
    by (rule at_mergingD)
  have "\<exists>w'. it_SeekToLast (Wrapper_ops ops) w = Some w' \<and> wrapped ops at w' xs (if xs = [] then length xs else length xs - 1)"
    if "wrapped ops at w xs (f xs)" for w xs
    using sorted_iterator.at_SeekToLast [OF ww that] by (cases xs) auto
  with children_move [OF A(3), of "\<lambda>_. it_SeekToLast (Wrapper_ops ops)" "\<lambda>xs. if xs = [] then length xs else length xs - 1"]
  obtain ws' where W: "each_child (\<lambda>_. it_SeekToLast (Wrapper_ops ops)) 0 (mi_children s) = Some ws'"
      "children_at ops at ws' ess (\<lambda>xs. if xs = [] then length xs else length xs - 1)" by blast
  show ?thesis
  proof (cases "es = []")
    case True
    have "xs = []" if "xs \<in> set ess" for xs using merge_child_subset [OF A(1) that] True by simp
    then have "children_at ops at ws' ess length" using W(2) by (simp add: children_at_def)
    from choose_none [OF A(1,2) this, of "s\<lparr>mi_children := ws'\<rparr>"] True show ?thesis
      by (simp add: MI_SeekToLast_def MI_children_do_each [OF W(1)])
  next
    case False
    have "behind es (Suc (length es - 1)) xs = length xs" if "xs \<in> set ess" for xs
      using behind_all [OF merge_child_subset [OF A(1) that]] False by simp
    then have "children_at ops at ws' ess (child_pos False es (length es - 1))"
      using W(2) by (auto simp: children_at_def child_pos_def split: if_splits)
    from choose_backward [OF A(1,2) _ this, of "s\<lparr>mi_children := ws'\<rparr>"] False show ?thesis
      by (simp add: MI_SeekToLast_def MI_children_do_each [OF W(1)])
  qed
qed

text \<open>The current child, and where the others stand relative to its key.\<close>

lemma at_merging_current:
  assumes "at_merging c dm ops at s es p" and p: "p < length es"
  obtains ess j where "merge_of c es ess" "\<forall>e \<in> set es. dm (fst e)" "j < length ess" "mi_current s = Some j" "es ! p \<in> set (ess ! j)"
    "children_at ops at (mi_children s) ess (child_pos (mi_forward s) es p)"
    "behind es p (ess ! j) < length (ess ! j)" "ess ! j ! behind es p (ess ! j) = es ! p" "behind es (Suc p) (ess ! j) = Suc (behind es p (ess ! j))"
    "wrapped ops at (mi_children s ! j) (ess ! j) (behind es p (ess ! j))"
    "\<forall>i < length ess. i \<noteq> j \<longrightarrow> es ! p \<notin> set (ess ! i)"
proof -
  from assms(1) p obtain ess where A: "merge_of c es ess" "\<forall>e \<in> set es. dm (fst e)"
      "\<exists>j < length ess. mi_current s = Some j \<and> es ! p \<in> set (ess ! j)"
      "children_at ops at (mi_children s) ess (child_pos (mi_forward s) es p)"
    unfolding at_merging_def by auto
  then obtain j where j: "j < length ess" "mi_current s = Some j" "es ! p \<in> set (ess ! j)" by blast
  note ch = A(4)
  then have w: "wrapped ops at (mi_children s ! j) (ess ! j) (child_pos (mi_forward s) es p (ess ! j))"
    using j(1) by (simp add: children_at_def)
  note own = behind_owner [OF A(1,2) p _ j(3) sorted_iterator.at_sorted [OF ww w]]
  have "child_pos (mi_forward s) es p (ess ! j) = behind es p (ess ! j)"
    using own j(1) by (simp add: child_pos_def)
  moreover have "es ! p \<notin> set (ess ! i)" if "i < length ess" "i \<noteq> j" for i
    using concat_owner [OF merge_distinct(2) [OF A(1,2)] that(1) _ j(1,3)] that(2) by blast
  ultimately show thesis using that [OF A(1,2) j ch] own j(1) w by simp
qed

text \<open>The current child moves to \<open>n\<close>, the others stay.\<close>

lemma MI_current_do_at:
  assumes j: "j < length ess" "mi_current s = Some j"
    and ch: "children_at ops at (mi_children s) ess f"
    and mv: "\<exists>w'. g (mi_children s ! j) = Some w' \<and> wrapped ops at w' (ess ! j) (f' (ess ! j))"
    and oth: "\<And>i. i < length ess \<Longrightarrow> i \<noteq> j \<Longrightarrow> f' (ess ! i) = f (ess ! i)"
  shows "\<exists>ws'. MI_current_do g s = Some (s\<lparr>mi_children := ws'\<rparr>) \<and> children_at ops at ws' ess f'"
proof -
  obtain w' where w': "g (mi_children s ! j) = Some w'" "wrapped ops at w' (ess ! j) (f' (ess ! j))" using mv by blast
  have "children_at ops at ((mi_children s)[j := w']) ess f'"
    using ch w'(2) oth j(1) by (auto simp: children_at_def nth_list_update)
  then show ?thesis using w'(1) j(2) by (auto simp: MI_current_do_def)
qed

lemma turn_child:
  assumes m: "merge_of c es ess" and d: "\<forall>e \<in> set es. dm (fst e)" and p: "p < length es"
    and xs: "xs \<in> set ess" "es ! p \<notin> set xs" and w: "wrapped ops at w xs i"
  shows "\<exists>w'. MI_turn_forward c ops (fst (es ! p)) w = Some w' \<and> wrapped ops at w' xs (behind es p xs)"
    "\<exists>w'. MI_turn_back ops (fst (es ! p)) w = Some w' \<and> wrapped ops at w' xs (child_pos False es p xs)"
proof -
  have dp: "dm (fst (es ! p))" using d p by simp
  have "lower_bound c xs (fst (es ! p)) = behind es p xs"
    using behind_seek [OF m d xs(1) dp] merge_seek_self [OF m d p] by simp
  then obtain w' where w': "it_Seek (Wrapper_ops ops) w (fst (es ! p)) = Some w'" "wrapped ops at w' xs (behind es p xs)"
    using sorted_iterator.at_Seek [OF ww w dp] by auto
  note valid = w_valid_at [OF w'(2)]
  have "Compare c (fst (es ! p)) (w_key w') \<noteq> 0" if v: "w_valid w'"
  proof
    assume eq: "Compare c (fst (es ! p)) (w_key w') = 0"
    have b: "behind es p xs < length xs" using v valid by simp
    then have mem: "xs ! behind es p xs \<in> set xs" by simp
    have "xs ! behind es p xs \<in> set es" by (rule subsetD [OF merge_child_subset [OF m xs(1)] mem])
    then obtain q where q: "q < length es" "es ! q = xs ! behind es p xs" unfolding in_set_conv_nth by blast
    have c1: "Compare c (fst (es ! p)) (fst (es ! q)) = 0" using eq unfolding w_key_at [OF w'(2) b] q(2) .
    have "dm (fst (es ! q))" using d q(1) by simp
    note c2 = cmp_eq_sym [OF dp this c1]
    have "q \<noteq> p" using xs(2) mem q(2) by metis
    then show False
      using merge_order [OF m d p q(1)] merge_order [OF m d q(1) p] c1 c2 by linarith
  qed
  then show "\<exists>w'. MI_turn_forward c ops (fst (es ! p)) w = Some w' \<and> wrapped ops at w' xs (behind es p xs)"
    using w' by (auto simp: MI_turn_forward_def)
  have pos: "child_pos False es p xs = (if behind es p xs = 0 then length xs else behind es p xs - 1)"
    using behind_other [OF p xs(2)] by (simp add: child_pos_def)
  show "\<exists>w'. MI_turn_back ops (fst (es ! p)) w = Some w' \<and> wrapped ops at w' xs (child_pos False es p xs)"
  proof (cases "w_valid w'")
    case True
    then show ?thesis
      using sorted_iterator.at_Prev [OF ww w'(2)] valid w'(1) pos by (simp add: MI_turn_back_def)
  next
    case False
    then have b: "behind es p xs = length xs" using valid behind_le [of es p xs] by simp
    show ?thesis
      using sorted_iterator.at_SeekToLast [OF ww w'(2)] w'(1) False pos b by (cases xs) (simp_all add: MI_turn_back_def)
  qed
qed

text \<open>Turning round: every child but the current one.\<close>

lemma turn_children:
  assumes j: "j < length ess" "mi_current s = Some j" and ch: "children_at ops at (mi_children s) ess f"
    and cur: "wrapped ops at (mi_children s ! j) (ess ! j) (f' (ess ! j))"
    and mv: "\<And>i w. i < length ess \<Longrightarrow> i \<noteq> j \<Longrightarrow> wrapped ops at w (ess ! i) (f (ess ! i)) \<Longrightarrow>
      \<exists>w'. g w = Some w' \<and> wrapped ops at w' (ess ! i) (f' (ess ! i))"
  shows "\<exists>ws'. MI_children_do (\<lambda>i w. if Some i = mi_current s then Some w else g w) s = Some (s\<lparr>mi_children := ws'\<rparr>)
    \<and> children_at ops at ws' ess f'"
proof -
  let ?g = "\<lambda>i w. if Some i = mi_current s then Some w else g w"
  have "\<exists>w'. ?g (0 + i) (mi_children s ! i) = Some w' \<and> wrapped ops at w' (ess ! (0 + i)) (f' (ess ! (0 + i)))" if "i < length (mi_children s)" for i
    using that cur mv [of i "mi_children s ! i"] j ch by (cases "i = j") (auto simp: children_at_def)
  from each_child_all [of "mi_children s" ?g 0 "\<lambda>i w. wrapped ops at w (ess ! i) (f' (ess ! i))", OF this] ch
  obtain ws' where "each_child ?g 0 (mi_children s) = Some ws'" "children_at ops at ws' ess f'"
    by (auto simp: children_at_def)
  then show ?thesis by (auto simp: MI_children_do_def)
qed

lemma MI_Next_at:
  assumes s: "at_merging c dm ops at s es p" and p: "p < length es"
  shows "\<exists>s'. MI_Next c ops s = Some s' \<and> at_merging c dm ops at s' es (Suc p)"
proof -
  from at_merging_current [OF s p] obtain ess j where A: "merge_of c es ess" "\<forall>e \<in> set es. dm (fst e)"
    and j: "j < length ess" "mi_current s = Some j" "es ! p \<in> set (ess ! j)"
    and ch: "children_at ops at (mi_children s) ess (child_pos (mi_forward s) es p)"
    and own: "behind es p (ess ! j) < length (ess ! j)" "ess ! j ! behind es p (ess ! j) = es ! p" "behind es (Suc p) (ess ! j) = Suc (behind es p (ess ! j))"
    and w: "wrapped ops at (mi_children s ! j) (ess ! j) (behind es p (ess ! j))"
    and oth: "\<forall>i < length ess. i \<noteq> j \<longrightarrow> es ! p \<notin> set (ess ! i)" .
  have key: "MI_key s = fst (es ! p)" using w_key_at [OF w own(1)] own(2) j(2) by (simp add: MI_key_def)
  have "\<exists>ws. (if \<not> mi_forward s
      then map_option (\<lambda>s. s\<lparr>mi_forward := True\<rparr>)
             (MI_children_do (\<lambda>i w. if Some i = mi_current s then Some w else MI_turn_forward c ops (MI_key s) w) s)
      else Some s) = Some (s\<lparr>mi_children := ws, mi_forward := True\<rparr>) \<and> children_at ops at ws ess (behind es p)"
  proof (cases "mi_forward s")
    case True
    have "children_at ops at (mi_children s) ess (behind es p)" using ch True by (simp add: children_at_def child_pos_def)
    moreover have "s\<lparr>mi_children := mi_children s, mi_forward := True\<rparr> = s" using True by simp
    ultimately show ?thesis using True by (intro exI [of _ "mi_children s"]) simp
  next
    case False
    have mv: "\<exists>w'. MI_turn_forward c ops (MI_key s) v = Some w' \<and> wrapped ops at w' (ess ! i) (behind es p (ess ! i))"
      if "i < length ess" "i \<noteq> j" "wrapped ops at v (ess ! i) (child_pos (mi_forward s) es p (ess ! i))" for i v
      using turn_child(1) [OF A p _ oth [rule_format, OF that(1,2)] that(3)] that(1) key by simp
    obtain ws where "MI_children_do (\<lambda>i w. if Some i = mi_current s then Some w else MI_turn_forward c ops (MI_key s) w) s
        = Some (s\<lparr>mi_children := ws\<rparr>)" "children_at ops at ws ess (behind es p)"
      using turn_children [where f' = "behind es p" and g = "MI_turn_forward c ops (MI_key s)", OF j(1,2) ch w] mv by blast
    with False show ?thesis by auto
  qed
  then obtain ws where ws: "(if \<not> mi_forward s
      then map_option (\<lambda>s. s\<lparr>mi_forward := True\<rparr>)
             (MI_children_do (\<lambda>i w. if Some i = mi_current s then Some w else MI_turn_forward c ops (MI_key s) w) s)
      else Some s) = Some (s\<lparr>mi_children := ws, mi_forward := True\<rparr>)" "children_at ops at ws ess (behind es p)" by blast
  let ?s = "s\<lparr>mi_children := ws, mi_forward := True\<rparr>"
  have wj: "wrapped ops at (ws ! j) (ess ! j) (behind es p (ess ! j))" using ws(2) j(1) by (simp add: children_at_def)
  have "\<exists>w'. it_Next (Wrapper_ops ops) (mi_children ?s ! j) = Some w' \<and> wrapped ops at w' (ess ! j) (child_pos True es (Suc p) (ess ! j))"
    using sorted_iterator.at_Next [OF ww wj own(1)] own(3) by (simp add: child_pos_def)
  moreover have "child_pos True es (Suc p) (ess ! i) = behind es p (ess ! i)" if "i < length ess" "i \<noteq> j" for i
    using behind_other [OF p oth [rule_format, OF that]] by (simp add: child_pos_def)
  ultimately obtain ws' where m: "MI_current_do (it_Next (Wrapper_ops ops)) ?s = Some (?s\<lparr>mi_children := ws'\<rparr>)"
      "children_at ops at ws' ess (child_pos True es (Suc p))"
    using MI_current_do_at [of j ess ?s "behind es p" "it_Next (Wrapper_ops ops)" "child_pos True es (Suc p)"] j ws(2) by auto
  have "at_merging c dm ops at (FindSmallest c ((?s\<lparr>mi_children := ws'\<rparr>)\<lparr>mi_forward := True\<rparr>)) es (Suc p)"
    by (rule choose_forward [OF A _ m(2)]) (use p in simp_all)
  moreover have "(?s\<lparr>mi_children := ws'\<rparr>)\<lparr>mi_forward := True\<rparr> = ?s\<lparr>mi_children := ws'\<rparr>" by simp
  ultimately have "at_merging c dm ops at (FindSmallest c (?s\<lparr>mi_children := ws'\<rparr>)) es (Suc p)" by (simp only:)
  then show ?thesis unfolding MI_Next_def ws(1) using m(1) by simp
qed

lemma MI_Prev_at:
  assumes s: "at_merging c dm ops at s es p" and p: "p < length es"
  shows "\<exists>s'. MI_Prev c ops s = Some s' \<and> at_merging c dm ops at s' es (if p = 0 then length es else p - 1)"
proof -
  from at_merging_current [OF s p] obtain ess j where A: "merge_of c es ess" "\<forall>e \<in> set es. dm (fst e)"
    and j: "j < length ess" "mi_current s = Some j" "es ! p \<in> set (ess ! j)"
    and ch: "children_at ops at (mi_children s) ess (child_pos (mi_forward s) es p)"
    and own: "behind es p (ess ! j) < length (ess ! j)" "ess ! j ! behind es p (ess ! j) = es ! p" "behind es (Suc p) (ess ! j) = Suc (behind es p (ess ! j))"
    and w: "wrapped ops at (mi_children s ! j) (ess ! j) (behind es p (ess ! j))"
    and oth: "\<forall>i < length ess. i \<noteq> j \<longrightarrow> es ! p \<notin> set (ess ! i)" .
  have key: "MI_key s = fst (es ! p)" using w_key_at [OF w own(1)] own(2) j(2) by (simp add: MI_key_def)
  have wc: "wrapped ops at (mi_children s ! j) (ess ! j) (child_pos False es p (ess ! j))"
    using w own(3) by (simp add: child_pos_def)
  have "\<exists>ws. (if mi_forward s
      then map_option (\<lambda>s. s\<lparr>mi_forward := False\<rparr>)
             (MI_children_do (\<lambda>i w. if Some i = mi_current s then Some w else MI_turn_back ops (MI_key s) w) s)
      else Some s) = Some (s\<lparr>mi_children := ws, mi_forward := False\<rparr>) \<and> children_at ops at ws ess (child_pos False es p)"
  proof (cases "mi_forward s")
    case False
    have "children_at ops at (mi_children s) ess (child_pos False es p)" using ch False by simp
    moreover have "s\<lparr>mi_children := mi_children s, mi_forward := False\<rparr> = s" using False by simp
    ultimately show ?thesis using False by (intro exI [of _ "mi_children s"]) simp
  next
    case True
    have mv: "\<exists>w'. MI_turn_back ops (MI_key s) v = Some w' \<and> wrapped ops at w' (ess ! i) (child_pos False es p (ess ! i))"
      if "i < length ess" "i \<noteq> j" "wrapped ops at v (ess ! i) (child_pos (mi_forward s) es p (ess ! i))" for i v
      using turn_child(2) [OF A p _ oth [rule_format, OF that(1,2)] that(3)] that(1) key by simp
    obtain ws where "MI_children_do (\<lambda>i w. if Some i = mi_current s then Some w else MI_turn_back ops (MI_key s) w) s
        = Some (s\<lparr>mi_children := ws\<rparr>)" "children_at ops at ws ess (child_pos False es p)"
      using turn_children [where f' = "child_pos False es p" and g = "MI_turn_back ops (MI_key s)", OF j(1,2) ch wc] mv by blast
    with True show ?thesis by auto
  qed
  then obtain ws where ws: "(if mi_forward s
      then map_option (\<lambda>s. s\<lparr>mi_forward := False\<rparr>)
             (MI_children_do (\<lambda>i w. if Some i = mi_current s then Some w else MI_turn_back ops (MI_key s) w) s)
      else Some s) = Some (s\<lparr>mi_children := ws, mi_forward := False\<rparr>)" "children_at ops at ws ess (child_pos False es p)" by blast
  let ?s = "s\<lparr>mi_children := ws, mi_forward := False\<rparr>"
  define f' where "f' = (\<lambda>xs. if behind es p xs = 0 then length xs else behind es p xs - 1)"
  have wj: "wrapped ops at (ws ! j) (ess ! j) (behind es p (ess ! j))"
  proof -
    have "wrapped ops at (ws ! j) (ess ! j) (child_pos False es p (ess ! j))" using ws(2) j(1) by (simp add: children_at_def)
    then show ?thesis using own(3) by (simp add: child_pos_def)
  qed
  have "\<exists>w'. it_Prev (Wrapper_ops ops) (mi_children ?s ! j) = Some w' \<and> wrapped ops at w' (ess ! j) (f' (ess ! j))"
    using sorted_iterator.at_Prev [OF ww wj own(1)] by (simp add: f'_def)
  moreover have "f' (ess ! i) = child_pos False es p (ess ! i)" if "i < length ess" "i \<noteq> j" for i
    using behind_other [OF p oth [rule_format, OF that]] by (simp add: child_pos_def f'_def)
  ultimately obtain ws' where m: "MI_current_do (it_Prev (Wrapper_ops ops)) ?s = Some (?s\<lparr>mi_children := ws'\<rparr>)"
      "children_at ops at ws' ess f'"
    using MI_current_do_at [of j ess ?s "child_pos False es p" "it_Prev (Wrapper_ops ops)" f'] j ws(2) by auto
  have "at_merging c dm ops at (FindLargest c ((?s\<lparr>mi_children := ws'\<rparr>)\<lparr>mi_forward := False\<rparr>)) es (if p = 0 then length es else p - 1)"
  proof (cases "p = 0")
    case True
    then have "f' = length" by (simp add: f'_def fun_eq_iff)
    then have "children_at ops at ws' ess length" using m(2) by simp
    from choose_none [OF A this] True show ?thesis by simp
  next
    case False
    then have "f' = child_pos False es (p - 1)" by (simp add: f'_def child_pos_def fun_eq_iff)
    then have "children_at ops at ws' ess (child_pos False es (p - 1))" using m(2) by simp
    from choose_backward [OF A _ this] False p show ?thesis by simp
  qed
  moreover have "(?s\<lparr>mi_children := ws'\<rparr>)\<lparr>mi_forward := False\<rparr> = ?s\<lparr>mi_children := ws'\<rparr>" by simp
  ultimately have "at_merging c dm ops at (FindLargest c (?s\<lparr>mi_children := ws'\<rparr>)) es (if p = 0 then length es else p - 1)" by (simp only:)
  then show ?thesis unfolding MI_Prev_def ws(1) using m(1) by simp
qed

lemma merging_sorted: "sorted_iterator c dm (Merging_ops c ops) (at_merging c dm ops at)"
proof (unfold_locales, goal_cases)
  case (1 s es i)
  then show ?case by (auto simp: at_merging_def Merging_ops_def split: if_splits)
next
  case (2 s es i)
  then show ?case by (auto simp: at_merging_def)
next
  case (3 s es i)
  from at_merging_current [OF 3] obtain ess j where "mi_current s = Some j"
      "behind es i (ess ! j) < length (ess ! j)" "ess ! j ! behind es i (ess ! j) = es ! i"
      "wrapped ops at (mi_children s ! j) (ess ! j) (behind es i (ess ! j))" .
  with w_key_at [OF this(4,2)] show ?case by (simp add: Merging_ops_def MI_key_def)
next
  case (4 s es i)
  from at_merging_current [OF 4] obtain ess j where "mi_current s = Some j"
      "behind es i (ess ! j) < length (ess ! j)" "ess ! j ! behind es i (ess ! j) = es ! i"
      "wrapped ops at (mi_children s ! j) (ess ! j) (behind es i (ess ! j))" .
  with sorted_iterator.at_value [OF ww this(4,2)] show ?case by (simp add: Merging_ops_def MI_value_def)
next
  case (5 s es i)
  from 5 obtain ess f where ch: "children_at ops at (mi_children s) ess f" by (rule at_mergingD)
  have "it_status (Wrapper_ops ops) w = OK" if "w \<in> set (mi_children s)" for w
  proof -
    have "length (mi_children s) = length ess" using ch by (simp add: children_at_def)
    with that obtain j where "j < length ess" "w = mi_children s ! j" by (metis in_set_conv_nth)
    with ch sorted_iterator.at_status [OF ww] show ?thesis by (fastforce simp: children_at_def)
  qed
  then have "find (\<lambda>st. \<not> ok st) (map (it_status (Wrapper_ops ops)) (mi_children s)) = None"
    by (auto simp: find_None_iff ok_def OK_def)
  then show ?case by (simp add: Merging_ops_def MI_status_def)
next
  case (6 s es i e)
  then show ?case by (auto simp: at_merging_def)
next
  case (7 s es i)
  then show ?case by (auto simp: at_merging_def merge_of_def)
next
  case (8 s es i)
  then show ?case using MI_SeekToFirst_at by (simp add: Merging_ops_def)
next
  case (9 s es i)
  then show ?case using MI_SeekToLast_at by (simp add: Merging_ops_def)
next
  case (10 s es i t)
  then show ?case using MI_Seek_at by (simp add: Merging_ops_def)
next
  case (11 s es i)
  then show ?case using MI_Next_at by (simp add: Merging_ops_def)
next
  case (12 s es i)
  then show ?case using MI_Prev_at by (simp add: Merging_ops_def split del: if_split)
qed

end

sublocale merging \<subseteq> merge: sorted_iterator c dm "Merging_ops c ops" "at_merging c dm ops at"
  by (rule merging_sorted)

context merging
begin

lemma merge_of_one:
  assumes "merge_of c es [xs]" "sorted_wrt (\<lambda>a b. Compare c (fst a) (fst b) < 0) xs" "\<forall>e \<in> set es. dm (fst e)"
  shows "es = xs"
proof -
  have d: "\<forall>e \<in> set es. dm (fst e)" by (rule assms(3))
  have m: "merge_of c es [xs]" by (rule assms(1))
  have len: "length es = length xs" using m unfolding merge_of_def by (metis concat.simps append_Nil2 mset_eq_length)
  show ?thesis
  proof (rule nth_equalityI [OF len])
    fix p assume p: "p < length es"
    have "behind es q xs = q" if "q \<le> length es" for q
      using that
    proof (induction q)
      case (Suc q)
      then have q: "q < length es" by simp
      have "es ! q \<in> set xs"
        using m q unfolding merge_of_def by (metis concat.simps append_Nil2 nth_mem set_mset_mset)
      from behind_owner(3) [OF m d q _ this assms(2)] Suc show ?case by simp
    qed simp
    moreover have "es ! p \<in> set xs"
      using m p unfolding merge_of_def by (metis concat.simps append_Nil2 nth_mem set_mset_mset)
    ultimately show "es ! p = xs ! p" using behind_owner(2) [OF m d p _ _ assms(2)] p by simp
  qed
qed

text \<open>What \<open>NewMergingIterator\<close> returns stands at the end of the merge of its children.\<close>

lemma NewMergingIterator_at:
  assumes m: "merge_of c es ess" and d: "\<forall>e \<in> set es. dm (fst e)"
    and ch: "length children = length ess" "\<forall>j < length ess. at (children ! j) (ess ! j) (length (ess ! j))"
  shows "case_sum at_empty (case_sum at (at_merging c dm ops at)) (NewMergingIterator ops children) es (length es)"
proof (cases children)
  case Nil
  then have "es = []" using m ch(1) by (simp add: merge_of_def)
  then show ?thesis using Nil by (simp add: NewMergingIterator_def NewEmptyIterator_def at_empty_def)
next
  case (Cons a as)
  show ?thesis
  proof (cases as)
    case Nil
    then obtain xs where xs: "ess = [xs]" using ch(1) \<open>children = a # as\<close> by (cases ess) auto
    then have a: "at a xs (length xs)" using ch(2) \<open>children = a # as\<close> by simp
    have "es = xs" using merge_of_one [OF m [unfolded xs] child.at_sorted [OF a] d] .
    then show ?thesis using a Nil \<open>children = a # as\<close> by (simp add: NewMergingIterator_def)
  next
    case (Cons b bs)
    have "children_at ops at (map (\<lambda>s. Wrapper_new ops (Some s)) children) ess length"
      using ch by (simp add: children_at_def Wrapper_new_wrapped)
    then have "at_merging c dm ops at (MergingIterator_new ops children) es (length es)"
      using m d unfolding at_merging_def MergingIterator_new_def by auto
    then show ?thesis using Cons \<open>children = a # as\<close> by (simp add: NewMergingIterator_def)
  qed
qed

lemma merged_sorted: "sorted_iterator c dm (Merged_ops c ops) (case_sum at_empty (case_sum at (at_merging c dm ops at)))"
  unfolding Merged_ops_def
  by (rule Dispatch_sorted [OF empty_iter.sorted_iterator_axioms Dispatch_sorted [OF child.sorted_iterator_axioms merging_sorted]])

lemma merged_cursor:
  assumes "merge_of c es ess" "\<forall>e \<in> set es. dm (fst e)"
    and "length children = length ess" "\<forall>j < length ess. at (children ! j) (ess ! j) (length (ess ! j))" "dm t"
  defines "it \<equiv> NewMergingIterator ops children"
  shows "scan (Merged_ops c ops) it = Some es \<and> rscan (Merged_ops c ops) it = Some (rev es)
    \<and> (\<exists>s'. it_Seek (Merged_ops c ops) it t = Some s' \<and> it_Valid (Merged_ops c ops) s' = (lower_bound c es t < length es)
         \<and> (lower_bound c es t < length es \<longrightarrow> (it_key (Merged_ops c ops) s', it_value (Merged_ops c ops) s') = es ! lower_bound c es t))"
  unfolding it_def by (rule sorted_iterator.cursor_at [OF merged_sorted NewMergingIterator_at [OF assms(1-4)] assms(5)])

end

text \<open>Merging the iterators of several tables of the comparator \<open>c\<close>: a child is a table with its iterator.\<close>

definition table_child_ops :: "ReadOptions \<Rightarrow> (Table \<times> TableIterator) iter_ops" where
  "table_child_ops options = Object_ops (\<lambda>t. Table_iter_ops t options)"

definition at_table_child :: "comparator \<Rightarrow> (bytes \<Rightarrow> bool) \<Rightarrow> ReadOptions \<Rightarrow> Table \<times> TableIterator \<Rightarrow> entries \<Rightarrow> nat \<Rightarrow> bool" where
  "at_table_child c dm options =
     at_object (\<lambda>t. op_comparator (tbl_options t) = c)
       (\<lambda>t. at_two_level c dm (Block_ops c) (case_sum at_empty (at_block c dm)) (Block_ops c) (case_sum at_empty (at_block c dm))
              (Table_block_function t options))"

sublocale comparator_laws \<subseteq> table_merge: merging c dm "table_child_ops options" "at_table_child c dm options" for options
proof -
  have "sorted_iterator c dm (table_child_ops options) (at_table_child c dm options)"
    unfolding table_child_ops_def at_table_child_def
    by (rule Object_sorted) (use table.two_level_sorted in \<open>simp add: Table_iter_ops_def\<close>)
  then show "merging c dm (table_child_ops options) (at_table_child c dm options)"
    unfolding merging_def using comparator_laws_axioms by blast
qed

end
