(* ===== verification/DBIters.thy ===== *)
theory DBIters
  imports Mergers
begin

text \<open>
  The database iterator (db/db_iter.cc): an internal iterator seen through a snapshot. It shows
  for each user key the newest entry the snapshot sees, unless that is a deletion. Scans in one
  direction and seeks are right for every snapshot; a \<open>Next\<close> after the reverse direction is right
  when the snapshot sees every entry, and can repeat a key otherwise.
\<close>

section \<open>State and operations\<close>

text \<open>\<open>ClearSavedValue\<close> differs from clearing only in the capacity it gives back.\<close>

record 's DBIter =
  di_iter :: 's
  di_sequence :: SequenceNumber
  di_status :: Status
  di_saved_key :: bytes
  di_saved_value :: bytes
  di_forward :: bool
  di_valid :: bool

definition NewDBIterator :: "'s \<Rightarrow> SequenceNumber \<Rightarrow> 's DBIter" where
  "NewDBIterator internal_iter sequence =
     \<lparr>di_iter = internal_iter, di_sequence = sequence, di_status = OK, di_saved_key = [], di_saved_value = [],
      di_forward = True, di_valid = False\<rparr>"

definition DI_key :: "'s iter_ops \<Rightarrow> 's DBIter \<Rightarrow> bytes" where
  "DI_key ops s = (if di_forward s then ExtractUserKey (it_key ops (di_iter s)) else di_saved_key s)"

definition DI_value :: "'s iter_ops \<Rightarrow> 's DBIter \<Rightarrow> bytes" where
  "DI_value ops s = (if di_forward s then it_value ops (di_iter s) else di_saved_value s)"

definition DI_status :: "'s iter_ops \<Rightarrow> 's DBIter \<Rightarrow> Status" where
  "DI_status ops s = (if ok (di_status s) then it_status ops (di_iter s) else di_status s)"

definition DI_move :: "('s \<Rightarrow> 's option) \<Rightarrow> 's DBIter \<Rightarrow> 's DBIter option" where
  "DI_move f s = map_option (\<lambda>i. s\<lparr>di_iter := i\<rparr>) (f (di_iter s))"

definition ClearSavedValue :: "'s DBIter \<Rightarrow> 's DBIter" where
  "ClearSavedValue s = s\<lparr>di_saved_value := []\<rparr>"

definition ParseKey :: "'s iter_ops \<Rightarrow> 's DBIter \<Rightarrow> 's DBIter \<times> ParsedInternalKey option" where
  "ParseKey ops s =
     (case ParseInternalKey (it_key ops (di_iter s)) of
        None \<Rightarrow> (s\<lparr>di_status := Corruption (lit ''corrupted internal key in DBIter'') []\<rparr>, None)
      | Some ikey \<Rightarrow> (s, Some ikey))"

text \<open>
  One round of \<open>FindNextUserEntry\<close>: the state, \<open>skipping\<close>, and whether it returns. \<open>skip\<close> is
  always the address of \<open>saved_key_\<close>; the switch has a branch per value type that parses.
\<close>

definition FindNextStep :: "comparator \<Rightarrow> 's iter_ops \<Rightarrow> bool \<Rightarrow> 's DBIter \<Rightarrow> 's DBIter \<times> bool \<times> bool" where
  "FindNextStep c ops skipping s =
     (case ParseKey ops s of
        (s, None) \<Rightarrow> (s, skipping, False)
      | (s, Some ikey) \<Rightarrow>
          if pk_sequence ikey \<le> di_sequence s then
            (case pk_type ikey of
               kTypeDeletion \<Rightarrow> (s\<lparr>di_saved_key := pk_user_key ikey\<rparr>, True, False)
             | kTypeValue \<Rightarrow>
                 if skipping \<and> Compare c (pk_user_key ikey) (di_saved_key s) \<le> 0 then (s, skipping, False)
                 else (s\<lparr>di_valid := True, di_saved_key := []\<rparr>, skipping, True))
          else (s, skipping, False))"

partial_function (option) FindNextUserEntry :: "comparator \<Rightarrow> 's iter_ops \<Rightarrow> bool \<Rightarrow> 's DBIter \<Rightarrow> 's DBIter option" where
  "FindNextUserEntry c ops skipping s =
     (case FindNextStep c ops skipping s of
        (s, skipping, found) \<Rightarrow>
          if found then Some s
          else Option.bind (DI_move (it_Next ops) s) (\<lambda>s.
                 if it_Valid ops (di_iter s) then FindNextUserEntry c ops skipping s
                 else Some (s\<lparr>di_saved_key := [], di_valid := False\<rparr>)))"

text \<open>One round of \<open>FindPrevUserEntry\<close>: the state, \<open>value_type\<close>, and whether it breaks.\<close>

definition FindPrevStep :: "comparator \<Rightarrow> 's iter_ops \<Rightarrow> ValueType \<Rightarrow> 's DBIter \<Rightarrow> 's DBIter \<times> ValueType \<times> bool" where
  "FindPrevStep c ops value_type s =
     (case ParseKey ops s of
        (s, None) \<Rightarrow> (s, value_type, False)
      | (s, Some ikey) \<Rightarrow>
          if pk_sequence ikey \<le> di_sequence s then
            if value_type \<noteq> kTypeDeletion \<and> Compare c (pk_user_key ikey) (di_saved_key s) < 0 then (s, value_type, True)
            else (case pk_type ikey of
                    kTypeDeletion \<Rightarrow> (ClearSavedValue (s\<lparr>di_saved_key := []\<rparr>), kTypeDeletion, False)
                  | kTypeValue \<Rightarrow> (s\<lparr>di_saved_key := ExtractUserKey (it_key ops (di_iter s)),
                                       di_saved_value := it_value ops (di_iter s)\<rparr>, kTypeValue, False))
          else (s, value_type, False))"

partial_function (option) FindPrevLoop ::
    "comparator \<Rightarrow> 's iter_ops \<Rightarrow> ValueType \<Rightarrow> 's DBIter \<Rightarrow> ('s DBIter \<times> ValueType) option" where
  "FindPrevLoop c ops value_type s =
     (case FindPrevStep c ops value_type s of
        (s, value_type, found) \<Rightarrow>
          if found then Some (s, value_type)
          else Option.bind (DI_move (it_Prev ops) s) (\<lambda>s.
                 if it_Valid ops (di_iter s) then FindPrevLoop c ops value_type s
                 else Some (s, value_type)))"

definition FindPrevUserEntry :: "comparator \<Rightarrow> 's iter_ops \<Rightarrow> 's DBIter \<Rightarrow> 's DBIter option" where
  "FindPrevUserEntry c ops s =
     map_option (\<lambda>(s, value_type).
         if value_type = kTypeDeletion
         then (ClearSavedValue (s\<lparr>di_valid := False, di_saved_key := []\<rparr>))\<lparr>di_forward := True\<rparr>
         else s\<lparr>di_valid := True\<rparr>)
       (if it_Valid ops (di_iter s) then FindPrevLoop c ops kTypeDeletion s else Some (s, kTypeDeletion))"

definition DI_Next :: "comparator \<Rightarrow> 's iter_ops \<Rightarrow> 's DBIter \<Rightarrow> 's DBIter option" where
  "DI_Next c ops s =
     (let skip = (\<lambda>s. FindNextUserEntry c ops True (s\<lparr>di_saved_key := ExtractUserKey (it_key ops (di_iter s))\<rparr>))
      in if \<not> di_forward s
         then Option.bind (DI_move (if \<not> it_Valid ops (di_iter s) then it_SeekToFirst ops else it_Next ops)
                            (s\<lparr>di_forward := True\<rparr>)) (\<lambda>s.
                if \<not> it_Valid ops (di_iter s) then Some (s\<lparr>di_valid := False, di_saved_key := []\<rparr>)
                else skip s)
         else skip s)"

text \<open>The loop of \<open>Prev\<close> that leaves the entries of the current user key; \<open>None\<close> inside is its early return.\<close>

partial_function (option) PrevSkip :: "comparator \<Rightarrow> 's iter_ops \<Rightarrow> 's DBIter \<Rightarrow> ('s DBIter \<times> bool) option" where
  "PrevSkip c ops s =
     Option.bind (DI_move (it_Prev ops) s) (\<lambda>s.
       if \<not> it_Valid ops (di_iter s)
       then Some (ClearSavedValue (s\<lparr>di_valid := False, di_saved_key := []\<rparr>), True)
       else if Compare c (ExtractUserKey (it_key ops (di_iter s))) (di_saved_key s) < 0 then Some (s, False)
       else PrevSkip c ops s)"

definition DI_Prev :: "comparator \<Rightarrow> 's iter_ops \<Rightarrow> 's DBIter \<Rightarrow> 's DBIter option" where
  "DI_Prev c ops s =
     (if di_forward s
      then Option.bind (PrevSkip c ops (s\<lparr>di_saved_key := ExtractUserKey (it_key ops (di_iter s))\<rparr>)) (\<lambda>(s, returned).
             if returned then Some s else FindPrevUserEntry c ops (s\<lparr>di_forward := False\<rparr>))
      else FindPrevUserEntry c ops s)"

definition DI_Seek :: "comparator \<Rightarrow> 's iter_ops \<Rightarrow> 's DBIter \<Rightarrow> bytes \<Rightarrow> 's DBIter option" where
  "DI_Seek c ops s target =
     (let s = (ClearSavedValue (s\<lparr>di_forward := True\<rparr>))\<lparr>di_saved_key := AppendInternalKey []
                \<lparr>pk_user_key = target, pk_sequence = di_sequence s, pk_type = kValueTypeForSeek\<rparr>\<rparr>
      in Option.bind (DI_move (\<lambda>i. it_Seek ops i (di_saved_key s)) s) (\<lambda>s.
           if it_Valid ops (di_iter s) then FindNextUserEntry c ops False s else Some (s\<lparr>di_valid := False\<rparr>)))"

definition DI_SeekToFirst :: "comparator \<Rightarrow> 's iter_ops \<Rightarrow> 's DBIter \<Rightarrow> 's DBIter option" where
  "DI_SeekToFirst c ops s =
     Option.bind (DI_move (it_SeekToFirst ops) (ClearSavedValue (s\<lparr>di_forward := True\<rparr>))) (\<lambda>s.
       if it_Valid ops (di_iter s) then FindNextUserEntry c ops False s else Some (s\<lparr>di_valid := False\<rparr>))"

definition DI_SeekToLast :: "comparator \<Rightarrow> 's iter_ops \<Rightarrow> 's DBIter \<Rightarrow> 's DBIter option" where
  "DI_SeekToLast c ops s =
     Option.bind (DI_move (it_SeekToLast ops) (ClearSavedValue (s\<lparr>di_forward := False\<rparr>))) (FindPrevUserEntry c ops)"

definition DBIter_ops :: "comparator \<Rightarrow> 's iter_ops \<Rightarrow> 's DBIter iter_ops" where
  "DBIter_ops c ops = \<lparr>it_Valid = di_valid, it_SeekToFirst = DI_SeekToFirst c ops, it_SeekToLast = DI_SeekToLast c ops,
     it_Seek = DI_Seek c ops, it_Next = DI_Next c ops, it_Prev = DI_Prev c ops,
     it_key = DI_key ops, it_value = DI_value ops, it_status = DI_status ops\<rparr>"

section \<open>The view of a snapshot\<close>

definition uk :: "entries \<Rightarrow> nat \<Rightarrow> bytes" where
  "uk es i = ExtractUserKey (fst (es ! i))"

definition entry_seq :: "entries \<Rightarrow> nat \<Rightarrow> SequenceNumber" where
  "entry_seq es i = pk_sequence (the (ParseInternalKey (fst (es ! i))))"

definition entry_type :: "entries \<Rightarrow> nat \<Rightarrow> ValueType" where
  "entry_type es i = pk_type (the (ParseInternalKey (fst (es ! i))))"

text \<open>An entry is exposed when it is a value and the first one of its user key that the snapshot sees.\<close>

definition exposed :: "comparator \<Rightarrow> SequenceNumber \<Rightarrow> entries \<Rightarrow> nat \<Rightarrow> bool" where
  "exposed c snap es i \<longleftrightarrow> entry_seq es i \<le> snap \<and> entry_type es i = kTypeValue \<and>
     (\<forall>j \<in> {..<i}. entry_seq es j \<le> snap \<longrightarrow> Compare c (uk es j) (uk es i) \<noteq> 0)"

definition user_view :: "comparator \<Rightarrow> SequenceNumber \<Rightarrow> entries \<Rightarrow> entries" where
  "user_view c snap es = map (\<lambda>i. (uk es i, snd (es ! i))) (filter (exposed c snap es) [0..<length es])"

definition rank :: "comparator \<Rightarrow> SequenceNumber \<Rightarrow> entries \<Rightarrow> nat \<Rightarrow> nat" where
  "rank c snap es p = length (filter (exposed c snap es) [0..<p])"

definition well_keyed :: "entries \<Rightarrow> bool" where
  "well_keyed es \<longleftrightarrow> (\<forall>e \<in> set es. ParseInternalKey (fst e) \<noteq> None)"

lemma rank_0 [simp]: "rank c snap es 0 = 0"
  by (simp add: rank_def)

lemma rank_length: "rank c snap es (length es) = length (user_view c snap es)"
  by (simp add: rank_def user_view_def)

lemma rank_Suc: "rank c snap es (Suc p) = rank c snap es p + (if exposed c snap es p then 1 else 0)"
  by (simp add: rank_def)

lemma rank_gap: "p \<le> q \<Longrightarrow> (\<And>i. p \<le> i \<Longrightarrow> i < q \<Longrightarrow> \<not> exposed c snap es i) \<Longrightarrow> rank c snap es q = rank c snap es p"
  by (induction q rule: dec_induct) (simp_all add: rank_Suc)

lemma rank_mono: "p \<le> q \<Longrightarrow> rank c snap es p \<le> rank c snap es q"
  by (induction q rule: dec_induct) (simp_all add: rank_Suc)

lemma view_split:
  assumes "q < length es" "exposed c snap es q"
  shows "user_view c snap es = map (\<lambda>i. (uk es i, snd (es ! i))) (filter (exposed c snap es) [0..<q])
    @ (uk es q, snd (es ! q)) # map (\<lambda>i. (uk es i, snd (es ! i))) (filter (exposed c snap es) [Suc q..<length es])"
proof -
  have "[0..<length es] = [0..<q] @ q # [Suc q..<length es]"
    using assms(1) by (metis add.left_neutral less_eq_Suc_le less_imp_le_nat upt_add_eq_append upt_conv_Cons zero_le le_add_diff_inverse)
  then show ?thesis using assms(2) by (simp add: user_view_def)
qed

lemma view_nth:
  assumes "q < length es" "exposed c snap es q"
  shows "rank c snap es q < length (user_view c snap es)" "user_view c snap es ! rank c snap es q = (uk es q, snd (es ! q))"
  unfolding view_split [OF assms] by (simp_all add: rank_def nth_append)

lemma view_member:
  assumes "i < length (user_view c snap es)"
  obtains q where "q < length es" "exposed c snap es q" "rank c snap es q = i"
proof -
  let ?f = "filter (exposed c snap es) [0..<length es]"
  have "i < length ?f" using assms by (simp add: user_view_def)
  then have q: "?f ! i \<in> set ?f" by (rule nth_mem)
  let ?q = "?f ! i"
  have "?q < length es" "exposed c snap es ?q" using q by auto
  moreover have "rank c snap es ?q = i"
  proof -
    have split: "?f = filter (exposed c snap es) [0..<?q] @ ?q # filter (exposed c snap es) [Suc ?q..<length es]"
    proof -
      have "[0..<length es] = [0..<?q] @ ?q # [Suc ?q..<length es]"
        using \<open>?q < length es\<close> by (metis add.left_neutral less_eq_Suc_le less_imp_le_nat upt_add_eq_append upt_conv_Cons zero_le le_add_diff_inverse)
      then show ?thesis using \<open>exposed c snap es ?q\<close> by (metis (no_types, lifting) filter.simps(2) filter_append)
    qed
    have "rank c snap es ?q < length ?f" using arg_cong [OF split, of length] by (simp add: rank_def)
    moreover have "?f ! rank c snap es ?q = ?q"
      using split by (metis (no_types, lifting) nth_append_length rank_def)
    moreover have "distinct ?f" by simp
    ultimately show ?thesis using \<open>i < length ?f\<close> by (simp add: nth_eq_iff_index_eq)
  qed
  ultimately show thesis by (rule that)
qed

lemma ParseInternalKey_entry:
  assumes "well_keyed es" "i < length es"
  shows "ParseInternalKey (fst (es ! i)) = Some \<lparr>pk_user_key = uk es i, pk_sequence = entry_seq es i, pk_type = entry_type es i\<rparr>"
proof -
  obtain p where p: "ParseInternalKey (fst (es ! i)) = Some p"
    using assms unfolding well_keyed_def by fastforce
  then show ?thesis
    using ParseInternalKey_SomeD(2) [OF p] by (simp add: uk_def entry_seq_def entry_type_def)
qed

section \<open>Searching forward\<close>

text \<open>The greatest entry before \<open>q\<close> that the snapshot sees is \<open>p\<close>; \<open>length es\<close> when there is none.\<close>

definition seen_before :: "SequenceNumber \<Rightarrow> entries \<Rightarrow> nat \<Rightarrow> nat \<Rightarrow> bool" where
  "seen_before snap es q p \<longleftrightarrow>
     (p < q \<and> entry_seq es p \<le> snap \<and> (\<forall>j. p < j \<and> j < q \<longrightarrow> \<not> entry_seq es j \<le> snap)) \<or>
     (p = length es \<and> (\<forall>j < q. \<not> entry_seq es j \<le> snap))"

locale db_iterator = user_comparator c + internal: sorted_iterator "InternalKeyComparator c" "\<lambda>k. 8 \<le> length k" ops at
  for c :: comparator and ops :: "'s iter_ops" and at :: "'s \<Rightarrow> entries \<Rightarrow> nat \<Rightarrow> bool"
begin

lemma keys_ascend:
  assumes "at i es p" "a \<le> b" "b < length es"
  shows "Compare c (uk es a) (uk es b) \<le> 0"
proof (cases "a = b")
  case False
  have "Compare (InternalKeyComparator c) (fst (es ! a)) (fst (es ! b)) < 0"
    using internal.at_sorted [OF assms(1)] assms(2,3) False by (simp add: sorted_wrt_iff_nth_less)
  then show ?thesis by (auto simp: InternalKey_Compare_less uk_def)
qed (simp add: cmp_refl)

lemma same_key_between:
  assumes "at i es p" "a \<le> m" "m \<le> b" "b < length es" "Compare c (uk es a) (uk es b) = 0"
  shows "Compare c (uk es m) (uk es b) = 0"
proof -
  have "Compare c (uk es b) (uk es a) \<le> 0" using cmp_eq_sym assms(5) by fastforce
  moreover have "Compare c (uk es a) (uk es m) \<le> 0" "Compare c (uk es m) (uk es b) \<le> 0"
    using keys_ascend [OF assms(1)] assms(2-4) by auto
  ultimately have "Compare c (uk es b) (uk es m) \<le> 0" using cmp_trans by blast
  with \<open>Compare c (uk es m) (uk es b) \<le> 0\<close> show ?thesis using cmp_anti [of "uk es m" "uk es b"] by simp
qed

text \<open>What \<open>skipping\<close> and \<open>saved_key_\<close> stand for at position \<open>p\<close>: the keys seen before.\<close>

definition skips :: "bool \<Rightarrow> bytes \<Rightarrow> SequenceNumber \<Rightarrow> entries \<Rightarrow> nat \<Rightarrow> bool" where
  "skips skipping saved snap es p \<longleftrightarrow>
     (\<forall>r. p \<le> r \<and> r < length es \<and> entry_seq es r \<le> snap \<longrightarrow>
        (skipping \<and> Compare c (uk es r) saved \<le> 0 \<longleftrightarrow>
         (\<exists>j < p. entry_seq es j \<le> snap \<and> Compare c (uk es j) (uk es r) = 0)))"

lemma skips_seen:
  assumes "at i es p" "q < length es" "entry_seq es q \<le> snap"
  shows "skips True (uk es q) snap es (Suc q)"
proof -
  have "Compare c (uk es r) (uk es q) \<le> 0 \<longleftrightarrow> (\<exists>j < Suc q. entry_seq es j \<le> snap \<and> Compare c (uk es j) (uk es r) = 0)"
    if r: "Suc q \<le> r" "r < length es" for r
  proof
    assume "Compare c (uk es r) (uk es q) \<le> 0"
    moreover have "Compare c (uk es q) (uk es r) \<le> 0" using keys_ascend [OF assms(1), of q r] r by simp
    ultimately have "Compare c (uk es q) (uk es r) = 0" using cmp_anti [of "uk es q" "uk es r"] by simp
    with assms(3) show "\<exists>j < Suc q. entry_seq es j \<le> snap \<and> Compare c (uk es j) (uk es r) = 0" by blast
  next
    assume "\<exists>j < Suc q. entry_seq es j \<le> snap \<and> Compare c (uk es j) (uk es r) = 0"
    then obtain j where "j \<le> q" "Compare c (uk es j) (uk es r) = 0" by (auto simp: less_Suc_eq_le)
    then have "Compare c (uk es q) (uk es r) = 0" using same_key_between [OF assms(1), of j q r] r by simp
    then show "Compare c (uk es r) (uk es q) \<le> 0" using cmp_eq_sym by fastforce
  qed
  then show ?thesis by (simp add: skips_def)
qed

lemma skips_unseen:
  "skips skipping saved snap es p \<Longrightarrow> \<not> entry_seq es p \<le> snap \<Longrightarrow> skips skipping saved snap es (Suc p)"
  unfolding skips_def by (metis Suc_leD less_Suc_eq)

lemma skips_skipped:
  assumes "skips True saved snap es p" "Compare c (uk es p) saved \<le> 0"
  shows "skips True saved snap es (Suc p)"
  unfolding skips_def
proof (intro allI impI, elim conjE)
  fix r assume r: "Suc p \<le> r" "r < length es" "entry_seq es r \<le> snap"
  have "Compare c (uk es r) saved \<le> 0" if "Compare c (uk es p) (uk es r) = 0"
    using that assms(2) cmp_eq_sym cmp_trans by (metis (no_types, lifting) TrueI order_refl)
  moreover have "Compare c (uk es r) saved \<le> 0 \<longleftrightarrow> (\<exists>j < p. entry_seq es j \<le> snap \<and> Compare c (uk es j) (uk es r) = 0)"
    using assms(1) r unfolding skips_def by auto
  ultimately show "True \<and> Compare c (uk es r) saved \<le> 0 \<longleftrightarrow>
      (\<exists>j < Suc p. entry_seq es j \<le> snap \<and> Compare c (uk es j) (uk es r) = 0)"
    by (auto simp: less_Suc_eq)
qed

lemma exposed_iff:
  assumes "skips skipping saved snap es p" "p < length es" "entry_seq es p \<le> snap"
  shows "exposed c snap es p \<longleftrightarrow> entry_type es p = kTypeValue \<and> \<not> (skipping \<and> Compare c (uk es p) saved \<le> 0)"
  using assms unfolding skips_def exposed_def by auto

lemma ParseKey_at:
  assumes "at (di_iter s) es p" "p < length es" "well_keyed es"
  shows "ParseKey ops s = (s, Some \<lparr>pk_user_key = uk es p, pk_sequence = entry_seq es p, pk_type = entry_type es p\<rparr>)"
  using ParseInternalKey_entry [OF assms(3,2)] internal.at_key [OF assms(1,2)] by (simp add: ParseKey_def)

text \<open>A round either returns at an exposed entry or passes one that is not.\<close>

lemma FindNextStep_at:
  assumes "at (di_iter s) es p" "p < length es" "well_keyed es" "skips skipping (di_saved_key s) (di_sequence s) es p"
  shows "if exposed c (di_sequence s) es p
    then FindNextStep c ops skipping s = (s\<lparr>di_valid := True, di_saved_key := []\<rparr>, skipping, True)
    else \<exists>k sk. FindNextStep c ops skipping s = (s\<lparr>di_saved_key := k\<rparr>, sk, False) \<and> skips sk k (di_sequence s) es (Suc p)"
proof (cases "entry_seq es p \<le> di_sequence s")
  case False
  then have "\<not> exposed c (di_sequence s) es p" by (simp add: exposed_def)
  moreover have "FindNextStep c ops skipping s = (s\<lparr>di_saved_key := di_saved_key s\<rparr>, skipping, False)"
    using ParseKey_at [OF assms(1-3)] False by (simp add: FindNextStep_def)
  ultimately show ?thesis using skips_unseen [OF assms(4) False] by (auto intro!: exI [of _ "di_saved_key s"])
next
  case True
  note e = exposed_iff [OF assms(4,2) True]
  show ?thesis
  proof (cases "entry_type es p")
    case kTypeDeletion
    then have "FindNextStep c ops skipping s = (s\<lparr>di_saved_key := uk es p\<rparr>, True, False)"
      using ParseKey_at [OF assms(1-3)] True by (simp add: FindNextStep_def)
    then show ?thesis using e kTypeDeletion skips_seen [OF assms(1,2) True] by auto
  next
    case kTypeValue
    show ?thesis
    proof (cases "skipping \<and> Compare c (uk es p) (di_saved_key s) \<le> 0")
      case sk: True
      then have "FindNextStep c ops skipping s = (s\<lparr>di_saved_key := di_saved_key s\<rparr>, True, False)"
        using ParseKey_at [OF assms(1-3)] True kTypeValue by (simp add: FindNextStep_def)
      moreover have "skips True (di_saved_key s) (di_sequence s) es (Suc p)"
        using skips_skipped assms(4) sk by simp
      ultimately show ?thesis using e sk by (auto intro!: exI [of _ "di_saved_key s"])
    next
      case False
      then have "FindNextStep c ops skipping s = (s\<lparr>di_valid := True, di_saved_key := []\<rparr>, skipping, True)"
        using ParseKey_at [OF assms(1-3)] True kTypeValue by (auto simp: FindNextStep_def)
      then show ?thesis using e kTypeValue False by simp
    qed
  qed
qed

text \<open>The members a search keeps.\<close>

definition same_but :: "'s DBIter \<Rightarrow> 's DBIter \<Rightarrow> bool" where
  "same_but s s' \<longleftrightarrow> di_sequence s' = di_sequence s \<and> di_status s' = di_status s"

definition found_forward :: "'s DBIter \<Rightarrow> entries \<Rightarrow> nat \<Rightarrow> 's DBIter \<Rightarrow> bool" where
  "found_forward s es p s' \<longleftrightarrow> same_but s s' \<and> di_forward s' \<and> (\<exists>q. at (di_iter s') es q \<and>
     (if di_valid s' then p \<le> q \<and> q < length es \<and> exposed c (di_sequence s) es q \<and> (\<forall>i. p \<le> i \<and> i < q \<longrightarrow> \<not> exposed c (di_sequence s) es i)
      else \<forall>i. p \<le> i \<and> i < length es \<longrightarrow> \<not> exposed c (di_sequence s) es i))"

lemma DI_move_Next:
  assumes "at (di_iter s) es p" "p < length es"
  obtains i where "DI_move (it_Next ops) s = Some (s\<lparr>di_iter := i\<rparr>)" "at i es (Suc p)"
  using internal.at_Next [OF assms] that by (auto simp: DI_move_def)

lemma found_forward_here:
  assumes "at (di_iter s) es p" "p < length es" "exposed c (di_sequence s) es p" "di_forward s"
  shows "found_forward s es p (s\<lparr>di_valid := True, di_saved_key := k\<rparr>)"
  unfolding found_forward_def using assms by (auto simp: same_but_def intro!: exI [of _ p])

lemma found_forward_none:
  assumes "at (di_iter s) es q" "di_forward s" "\<And>i. p \<le> i \<Longrightarrow> i < length es \<Longrightarrow> \<not> exposed c (di_sequence s) es i"
  shows "found_forward s es p (s\<lparr>di_saved_key := k, di_valid := False\<rparr>)"
  unfolding found_forward_def using assms by (auto simp: same_but_def intro!: exI [of _ q])

lemma found_forward_next:
  assumes "found_forward s' es (Suc p) s''" "same_but s s'" "\<not> exposed c (di_sequence s) es p"
  shows "found_forward s es p s''"
proof -
  have "p \<le> i \<Longrightarrow> p = i \<or> Suc p \<le> i" for i by linarith
  with assms show ?thesis
    unfolding found_forward_def same_but_def by (auto split: if_splits) (metis Suc_leD)+
qed

lemma FindNextUserEntry_at:
  assumes "at (di_iter s) es p" "p < length es" "well_keyed es" "skips skipping (di_saved_key s) (di_sequence s) es p" "di_forward s"
  shows "\<exists>s'. FindNextUserEntry c ops skipping s = Some s' \<and> found_forward s es p s'"
  using assms
proof (induction "length es - p" arbitrary: s p skipping rule: less_induct)
  case less
  note step = FindNextStep_at [OF less.prems(1-4)]
  show ?case
  proof (cases "exposed c (di_sequence s) es p")
    case True
    with step have "FindNextUserEntry c ops skipping s = Some (s\<lparr>di_valid := True, di_saved_key := []\<rparr>)"
      by (simp add: FindNextUserEntry.simps [of _ _ _ s])
    then show ?thesis using found_forward_here [OF less.prems(1,2) True less.prems(5)] by simp
  next
    case False
    then obtain k sk where k: "FindNextStep c ops skipping s = (s\<lparr>di_saved_key := k\<rparr>, sk, False)"
        "skips sk k (di_sequence s) es (Suc p)"
      using step by auto
    have "at (di_iter (s\<lparr>di_saved_key := k\<rparr>)) es p" using less.prems(1) by simp
    then obtain i where i: "DI_move (it_Next ops) (s\<lparr>di_saved_key := k\<rparr>) = Some (s\<lparr>di_saved_key := k\<rparr>\<lparr>di_iter := i\<rparr>)"
        "at i es (Suc p)"
      using less.prems(2) by (rule DI_move_Next)
    let ?s = "s\<lparr>di_saved_key := k\<rparr>\<lparr>di_iter := i\<rparr>"
    have unfold: "FindNextUserEntry c ops skipping s = (if it_Valid ops (di_iter ?s) then FindNextUserEntry c ops sk ?s
        else Some (?s\<lparr>di_saved_key := [], di_valid := False\<rparr>))"
      by (subst FindNextUserEntry.simps) (simp only: k(1) prod.case if_False i(1) bind.bind_lunit simp_thms)
    have same: "same_but s ?s" by (simp add: same_but_def)
    show ?thesis
    proof (cases "Suc p < length es")
      case True
      have "\<exists>s'. FindNextUserEntry c ops sk ?s = Some s' \<and> found_forward ?s es (Suc p) s'"
        using less.hyps [of "Suc p" ?s sk] True less.prems i(2) k(2) by simp
      then obtain s' where "FindNextUserEntry c ops sk ?s = Some s'" "found_forward ?s es (Suc p) s'" by blast
      with unfold found_forward_next [OF _ same False] internal.at_Valid [OF i(2)] True show ?thesis by auto
    next
      case fin: False
      have "found_forward ?s es (Suc p) (?s\<lparr>di_saved_key := [], di_valid := False\<rparr>)"
        by (rule found_forward_none) (use i(2) less.prems(5) fin in auto)
      with unfold found_forward_next [OF _ same False] internal.at_Valid [OF i(2)] fin show ?thesis by auto
    qed
  qed
qed

text \<open>
  Searching backwards. Between two rounds, at the entries up to \<open>j\<close>, \<open>value_type\<close> and the saved
  entry stand for the lowest entry above \<open>j\<close> that the snapshot sees.
\<close>

definition hidden :: "SequenceNumber \<Rightarrow> entries \<Rightarrow> nat \<Rightarrow> nat \<Rightarrow> bool" where
  "hidden snap es a b \<longleftrightarrow> (\<forall>i. a \<le> i \<and> i < b \<longrightarrow> \<not> exposed c snap es i)"

definition saved_at :: "'s DBIter \<Rightarrow> entries \<Rightarrow> nat \<Rightarrow> bool" where
  "saved_at s es m \<longleftrightarrow> di_saved_key s = uk es m \<and> di_saved_value s = snd (es ! m)"

definition pending :: "'s DBIter \<Rightarrow> ValueType \<Rightarrow> entries \<Rightarrow> nat \<Rightarrow> nat \<Rightarrow> bool" where
  "pending s value_type es j hi \<longleftrightarrow>
     (if value_type = kTypeDeletion then hidden (di_sequence s) es j hi
      else \<exists>m. j \<le> m \<and> m < hi \<and> entry_seq es m \<le> di_sequence s \<and> entry_type es m = kTypeValue \<and> saved_at s es m
             \<and> (\<forall>i. j \<le> i \<and> i < m \<longrightarrow> \<not> entry_seq es i \<le> di_sequence s) \<and> hidden (di_sequence s) es (Suc m) hi)"

definition found_back :: "'s DBIter \<Rightarrow> entries \<Rightarrow> nat \<Rightarrow> 's DBIter \<times> ValueType \<Rightarrow> bool" where
  "found_back s es hi r \<longleftrightarrow> same_but s (fst r) \<and> di_forward (fst r) = di_forward s \<and>
     (if snd r = kTypeDeletion then hidden (di_sequence s) es 0 hi \<and> (\<exists>p. at (di_iter (fst r)) es p)
      else \<exists>m p. m < hi \<and> exposed c (di_sequence s) es m \<and> hidden (di_sequence s) es (Suc m) hi \<and> saved_at (fst r) es m
             \<and> at (di_iter (fst r)) es p \<and> seen_before (di_sequence s) es m p)"

lemma hidden_Suc: "\<not> exposed c snap es j \<Longrightarrow> hidden snap es (Suc j) hi \<Longrightarrow> hidden snap es j hi"
  unfolding hidden_def by (metis Suc_leI le_neq_implies_less)

lemma pending_iter [simp]: "pending (s\<lparr>di_iter := i\<rparr>) = pending s"
  by (simp add: pending_def saved_at_def fun_eq_iff)

lemma unseen_hidden: "\<forall>i. a \<le> i \<and> i < b \<longrightarrow> \<not> entry_seq es i \<le> snap \<Longrightarrow> hidden snap es a b"
  by (simp add: hidden_def exposed_def)

text \<open>The pending entry \<open>m\<close> stays pending over an entry the snapshot does not see.\<close>

lemma pending_unseen:
  assumes "pending s vt es (Suc j) hi" "\<not> entry_seq es j \<le> di_sequence s"
  shows "pending s vt es j hi"
proof -
  have le: "j \<le> i \<longleftrightarrow> i = j \<or> Suc j \<le> i" for i by linarith
  show ?thesis
    using assms hidden_Suc [of "di_sequence s" es j hi]
    unfolding pending_def by (auto simp: le exposed_def split: if_splits)
qed

lemma pending_exposed:
  assumes "pending s kTypeValue es (Suc j) hi" "at i es p" "hi \<le> length es"
    and "entry_seq es j \<le> di_sequence s" "Compare c (uk es j) (di_saved_key s) < 0"
  obtains m where "m < hi" "exposed c (di_sequence s) es m" "hidden (di_sequence s) es (Suc m) hi" "saved_at s es m"
    "seen_before (di_sequence s) es m j"
proof -
  obtain m where m: "Suc j \<le> m" "m < hi" "entry_seq es m \<le> di_sequence s" "entry_type es m = kTypeValue" "saved_at s es m"
      "\<forall>i. Suc j \<le> i \<and> i < m \<longrightarrow> \<not> entry_seq es i \<le> di_sequence s" "hidden (di_sequence s) es (Suc m) hi"
    using assms(1) by (auto simp: pending_def)
  have "Compare c (uk es i') (uk es m) \<noteq> 0" if "i' < m" "entry_seq es i' \<le> di_sequence s" for i'
  proof
    assume eq: "Compare c (uk es i') (uk es m) = 0"
    have "i' \<le> j" using that m(6) by (meson not_less_eq_eq)
    then have "Compare c (uk es j) (uk es m) = 0"
      using same_key_between [OF assms(2) _ _ _ eq, of j] m(1,2) assms(3) by simp
    with assms(5) m(5) show False by (simp add: saved_at_def)
  qed
  then have "exposed c (di_sequence s) es m" using m(3,4) by (auto simp: exposed_def)
  moreover have "seen_before (di_sequence s) es m j"
    using m(1,6) assms(4) by (auto simp: seen_before_def)
  ultimately show thesis using that m(2,5,7) by blast
qed

text \<open>What passing a seen entry \<open>j\<close> shows: nothing above it is exposed.\<close>

lemma pending_covered:
  assumes "pending s vt es (Suc j) hi" "at i es p" "hi \<le> length es" "entry_seq es j \<le> di_sequence s"
    and "vt = kTypeDeletion \<or> \<not> Compare c (uk es j) (di_saved_key s) < 0"
  shows "hidden (di_sequence s) es (Suc j) hi"
proof (cases vt)
  case kTypeDeletion
  then show ?thesis using assms(1) by (simp add: pending_def)
next
  case kTypeValue
  then obtain m where m: "Suc j \<le> m" "m < hi" "saved_at s es m"
      "\<forall>i. Suc j \<le> i \<and> i < m \<longrightarrow> \<not> entry_seq es i \<le> di_sequence s" "hidden (di_sequence s) es (Suc m) hi"
    using assms(1) by (auto simp: pending_def)
  have "Compare c (uk es j) (uk es m) \<le> 0" using keys_ascend [OF assms(2), of j m] m(1,2) assms(3) by simp
  then have "Compare c (uk es j) (uk es m) = 0" using assms(5) kTypeValue m(3) by (auto simp: saved_at_def)
  then have "\<not> exposed c (di_sequence s) es m" using m(1) assms(4) by (auto simp: exposed_def)
  moreover have "i < m \<or> i = m \<or> Suc m \<le> i" for i by linarith
  ultimately show ?thesis
    using m(4,5) unfolding hidden_def by (metis exposed_def)
qed

lemma FindPrevStep_at:
  assumes "at (di_iter s) es j" "j < length es" "well_keyed es" "hi \<le> length es" "j < hi" "pending s vt es (Suc j) hi"
  shows "(FindPrevStep c ops vt s = (s, vt, True) \<and> vt \<noteq> kTypeDeletion \<and> found_back s es hi (s, vt)) \<or>
    (\<exists>k v vt'. FindPrevStep c ops vt s = (s\<lparr>di_saved_key := k, di_saved_value := v\<rparr>, vt', False)
       \<and> pending (s\<lparr>di_saved_key := k, di_saved_value := v\<rparr>) vt' es j hi)"
proof (cases "entry_seq es j \<le> di_sequence s")
  case False
  then have "FindPrevStep c ops vt s = (s\<lparr>di_saved_key := di_saved_key s, di_saved_value := di_saved_value s\<rparr>, vt, False)"
    using ParseKey_at [OF assms(1-3)] by (simp add: FindPrevStep_def)
  moreover have "pending (s\<lparr>di_saved_key := di_saved_key s, di_saved_value := di_saved_value s\<rparr>) vt es j hi"
    using pending_unseen [OF assms(6) False] by simp
  ultimately show ?thesis by blast
next
  case seen: True
  show ?thesis
  proof (cases "vt \<noteq> kTypeDeletion \<and> Compare c (uk es j) (di_saved_key s) < 0")
    case True
    then have vt: "vt = kTypeValue" by (cases vt) auto
    obtain m where "m < hi" "exposed c (di_sequence s) es m" "hidden (di_sequence s) es (Suc m) hi" "saved_at s es m"
        "seen_before (di_sequence s) es m j"
      using pending_exposed [OF assms(6) [unfolded vt] assms(1,4) seen] True by blast
    then have "found_back s es hi (s, vt)"
      using assms(1) vt by (auto simp: found_back_def same_but_def)
    moreover have "FindPrevStep c ops vt s = (s, vt, True)"
      using ParseKey_at [OF assms(1-3)] seen True by (simp add: FindPrevStep_def)
    ultimately show ?thesis using vt by simp
  next
    case False
    then have no: "vt = kTypeDeletion \<or> \<not> Compare c (uk es j) (di_saved_key s) < 0" by auto
    note cov = pending_covered [OF assms(6,1,4) seen no]
    show ?thesis
    proof (cases "entry_type es j")
      case kTypeDeletion
      then have "FindPrevStep c ops vt s = (s\<lparr>di_saved_key := [], di_saved_value := []\<rparr>, kTypeDeletion, False)"
        using ParseKey_at [OF assms(1-3)] seen False by (auto simp: FindPrevStep_def ClearSavedValue_def)
      moreover have "pending (s\<lparr>di_saved_key := [], di_saved_value := []\<rparr>) kTypeDeletion es j hi"
        using hidden_Suc [OF _ cov] kTypeDeletion by (simp add: pending_def exposed_def)
      ultimately show ?thesis by blast
    next
      case kTypeValue
      let ?s = "s\<lparr>di_saved_key := uk es j, di_saved_value := snd (es ! j)\<rparr>"
      have "FindPrevStep c ops vt s = (?s, kTypeValue, False)"
        using ParseKey_at [OF assms(1-3)] internal.at_key [OF assms(1,2)] internal.at_value [OF assms(1,2)] seen False kTypeValue
        by (auto simp: FindPrevStep_def uk_def)
      moreover have "pending ?s kTypeValue es j hi"
        using cov seen kTypeValue assms(5) by (auto simp: pending_def saved_at_def intro!: exI [of _ j])
      ultimately show ?thesis by blast
    qed
  qed
qed

text \<open>When the entries are used up, the pending one is exposed.\<close>

lemma pending_end:
  assumes "pending s vt es 0 hi" "at (di_iter s) es (length es)"
  shows "found_back s es hi (s, vt)"
proof (cases vt)
  case kTypeDeletion
  then show ?thesis using assms by (auto simp: found_back_def pending_def same_but_def)
next
  case kTypeValue
  then obtain m where m: "m < hi" "entry_seq es m \<le> di_sequence s" "entry_type es m = kTypeValue" "saved_at s es m"
      "\<forall>i. i < m \<longrightarrow> \<not> entry_seq es i \<le> di_sequence s" "hidden (di_sequence s) es (Suc m) hi"
    using assms(1) by (auto simp: pending_def)
  then have "exposed c (di_sequence s) es m" "seen_before (di_sequence s) es m (length es)"
    by (auto simp: exposed_def seen_before_def)
  with m(1,4,6) assms(2) kTypeValue show ?thesis by (auto simp: found_back_def same_but_def)
qed

lemma DI_move_Prev:
  assumes "at (di_iter s) es p" "p < length es"
  obtains i where "DI_move (it_Prev ops) s = Some (s\<lparr>di_iter := i\<rparr>)" "at i es (if p = 0 then length es else p - 1)"
  using internal.at_Prev [OF assms] that by (auto simp: DI_move_def)

lemma found_back_same:
  "found_back s' es hi r \<Longrightarrow> same_but s s' \<Longrightarrow> di_forward s' = di_forward s \<Longrightarrow> found_back s es hi r"
  by (auto simp: found_back_def same_but_def)

lemma FindPrevLoop_at:
  assumes "at (di_iter s) es j" "j < length es" "well_keyed es" "hi \<le> length es" "j < hi" "pending s vt es (Suc j) hi"
  shows "\<exists>r. FindPrevLoop c ops vt s = Some r \<and> found_back s es hi r"
  using assms
proof (induction j arbitrary: s vt)
  case 0
  from FindPrevStep_at [OF 0] show ?case
  proof (elim disjE exE conjE)
    assume "FindPrevStep c ops vt s = (s, vt, True)" "found_back s es hi (s, vt)"
    then show ?thesis by (simp add: FindPrevLoop.simps [of _ _ _ s])
  next
    fix k v vt'
    let ?s = "s\<lparr>di_saved_key := k, di_saved_value := v\<rparr>"
    assume st: "FindPrevStep c ops vt s = (?s, vt', False)" and pe: "pending ?s vt' es 0 hi"
    have "at (di_iter ?s) es 0" using 0(1) by simp
    then obtain i where i: "DI_move (it_Prev ops) ?s = Some (?s\<lparr>di_iter := i\<rparr>)" "at i es (length es)"
      using 0(2) DI_move_Prev [of ?s es 0] by auto
    have "\<not> it_Valid ops i" using internal.at_Valid [OF i(2)] by simp
    then have "FindPrevLoop c ops vt s = Some (?s\<lparr>di_iter := i\<rparr>, vt')"
      by (subst FindPrevLoop.simps) (simp add: st i(1))
    moreover have "found_back (?s\<lparr>di_iter := i\<rparr>) es hi (?s\<lparr>di_iter := i\<rparr>, vt')"
      by (rule pending_end) (use i(2) in \<open>simp_all only: pending_iter pe, simp\<close>)
    ultimately show ?thesis using found_back_same [of "?s\<lparr>di_iter := i\<rparr>" es hi _ s] by (simp add: same_but_def)
  qed
next
  case (Suc j)
  from FindPrevStep_at [OF Suc.prems] show ?case
  proof (elim disjE exE conjE)
    assume "FindPrevStep c ops vt s = (s, vt, True)" "found_back s es hi (s, vt)"
    then show ?thesis by (simp add: FindPrevLoop.simps [of _ _ _ s])
  next
    fix k v vt'
    let ?s = "s\<lparr>di_saved_key := k, di_saved_value := v\<rparr>"
    assume st: "FindPrevStep c ops vt s = (?s, vt', False)" and pe: "pending ?s vt' es (Suc j) hi"
    have "at (di_iter ?s) es (Suc j)" using Suc.prems(1) by simp
    then obtain i where i: "DI_move (it_Prev ops) ?s = Some (?s\<lparr>di_iter := i\<rparr>)" "at i es j"
      using Suc.prems(2) DI_move_Prev [of ?s es "Suc j"] by auto
    have v: "it_Valid ops i" using internal.at_Valid [OF i(2)] Suc.prems(2) by simp
    have "FindPrevLoop c ops vt s = FindPrevLoop c ops vt' (?s\<lparr>di_iter := i\<rparr>)"
      by (subst FindPrevLoop.simps) (simp add: st i(1) v)
    moreover have "\<exists>r. FindPrevLoop c ops vt' (?s\<lparr>di_iter := i\<rparr>) = Some r \<and> found_back (?s\<lparr>di_iter := i\<rparr>) es hi r"
      by (rule Suc.IH) (simp_all only: pending_iter pe, use i(2) Suc.prems in simp_all)
    ultimately show ?thesis using found_back_same [of "?s\<lparr>di_iter := i\<rparr>" es hi _ s] by (auto simp: same_but_def)
  qed
qed

section \<open>Positions in the view\<close>

definition sound :: "'s DBIter \<Rightarrow> entries \<Rightarrow> bool" where
  "sound s es \<longleftrightarrow> well_keyed es \<and> di_status s = OK \<and> di_sequence s \<le> kMaxSequenceNumber"

definition db_pos :: "'s DBIter \<Rightarrow> entries \<Rightarrow> nat \<Rightarrow> bool" where
  "db_pos s es i \<longleftrightarrow> sound s es \<and> (\<exists>p. at (di_iter s) es p \<and>
     (if di_valid s
      then \<exists>q < length es. exposed c (di_sequence s) es q \<and> i = rank c (di_sequence s) es q
             \<and> (if di_forward s then p = q else saved_at s es q \<and> seen_before (di_sequence s) es q p)
      else i = length (user_view c (di_sequence s) es)))"

lemma sound_same: "sound s es \<Longrightarrow> same_but s s' \<Longrightarrow> sound s' es"
  by (simp add: sound_def same_but_def)

lemma rank_hidden: "a \<le> b \<Longrightarrow> hidden (di_sequence s) es a b \<Longrightarrow> rank c (di_sequence s) es b = rank c (di_sequence s) es a"
  by (rule rank_gap) (auto simp: hidden_def)

lemma found_forward_pos:
  assumes f: "found_forward s es p s'" and "p \<le> length es" "sound s es"
  shows "db_pos s' es (rank c (di_sequence s) es p) \<and> same_but s s' \<and> di_forward s'"
proof -
  have same: "same_but s s'" "di_forward s'" "di_sequence s' = di_sequence s"
    using f by (auto simp: found_forward_def same_but_def)
  obtain q where q: "at (di_iter s') es q" and
    r: "if di_valid s' then p \<le> q \<and> q < length es \<and> exposed c (di_sequence s) es q \<and> (\<forall>i. p \<le> i \<and> i < q \<longrightarrow> \<not> exposed c (di_sequence s) es i)
      else \<forall>i. p \<le> i \<and> i < length es \<longrightarrow> \<not> exposed c (di_sequence s) es i"
    using f unfolding found_forward_def by blast
  have "db_pos s' es (rank c (di_sequence s) es p)"
  proof (cases "di_valid s'")
    case True
    then have "rank c (di_sequence s) es q = rank c (di_sequence s) es p" by (intro rank_gap) (use r in auto)
    with True r q same sound_same [OF assms(3) same(1)] show ?thesis unfolding db_pos_def by auto
  next
    case False
    then have "rank c (di_sequence s) es (length es) = rank c (di_sequence s) es p" by (intro rank_gap) (use r assms(2) in auto)
    with False q same sound_same [OF assms(3) same(1)] show ?thesis unfolding db_pos_def by (auto simp: rank_length)
  qed
  with same show ?thesis by simp
qed

text \<open>The outcome of \<open>FindPrevUserEntry\<close> over the entries before \<open>hi\<close>.\<close>

definition before :: "SequenceNumber \<Rightarrow> entries \<Rightarrow> nat \<Rightarrow> nat" where
  "before snap es hi = (if rank c snap es hi = 0 then length (user_view c snap es) else rank c snap es hi - 1)"

lemma FindPrevUserEntry_at:
  assumes "at (di_iter s) es p" "sound s es" "\<not> di_forward s"
  defines "hi \<equiv> if p < length es then Suc p else 0"
  shows "\<exists>s'. FindPrevUserEntry c ops s = Some s' \<and> db_pos s' es (before (di_sequence s) es hi) \<and> same_but s s'
    \<and> (di_valid s' \<longrightarrow> \<not> di_forward s')"
proof -
  have val: "it_Valid ops (di_iter s) \<longleftrightarrow> p < length es" by (rule internal.at_Valid [OF assms(1)])
  have "\<exists>r. (if it_Valid ops (di_iter s) then FindPrevLoop c ops kTypeDeletion s else Some (s, kTypeDeletion)) = Some r \<and> found_back s es hi r"
  proof (cases "p < length es")
    case True
    have "pending s kTypeDeletion es (Suc p) hi" using True by (auto simp: pending_def hidden_def hi_def)
    then show ?thesis
      using FindPrevLoop_at [OF assms(1) True] assms(2) True val by (auto simp: hi_def sound_def)
  next
    case False
    then show ?thesis
      using val assms(1) by (auto simp: found_back_def hi_def hidden_def same_but_def)
  qed
  then obtain s1 vt where r: "(if it_Valid ops (di_iter s) then FindPrevLoop c ops kTypeDeletion s else Some (s, kTypeDeletion)) = Some (s1, vt)"
      "found_back s es hi (s1, vt)" by auto
  have seq: "di_sequence s1 = di_sequence s" "same_but s s1" "di_forward s1 = di_forward s"
    using r(2) by (auto simp: found_back_def same_but_def)
  have snd1: "sound s1 es" using sound_same [OF assms(2) seq(2)] .
  show ?thesis
  proof (cases vt)
    case kTypeDeletion
    let ?s = "(ClearSavedValue (s1\<lparr>di_valid := False, di_saved_key := []\<rparr>))\<lparr>di_forward := True\<rparr>"
    from r(2) kTypeDeletion obtain p' where h: "hidden (di_sequence s) es 0 hi" "at (di_iter s1) es p'"
      by (auto simp: found_back_def)
    have "rank c (di_sequence s) es hi = 0" using rank_hidden [OF _ h(1)] by simp
    then have "db_pos ?s es (before (di_sequence s) es hi)"
      using h(2) snd1 seq(1) by (auto simp: db_pos_def sound_def ClearSavedValue_def before_def)
    moreover have "FindPrevUserEntry c ops s = Some ?s" using r(1) kTypeDeletion by (simp add: FindPrevUserEntry_def)
    ultimately show ?thesis using seq by (simp add: same_but_def ClearSavedValue_def)
  next
    case kTypeValue
    let ?s = "s1\<lparr>di_valid := True\<rparr>"
    from r(2) kTypeValue obtain m p' where m: "m < hi" "exposed c (di_sequence s) es m" "hidden (di_sequence s) es (Suc m) hi"
        "saved_at s1 es m" "at (di_iter s1) es p'" "seen_before (di_sequence s) es m p'"
      by (auto simp: found_back_def)
    have "rank c (di_sequence s) es hi = Suc (rank c (di_sequence s) es m)"
      using rank_hidden [OF _ m(3)] m(1,2) by (simp add: rank_Suc)
    moreover have "m < length es" using m(1) by (simp add: hi_def split: if_splits)
    ultimately have "db_pos ?s es (before (di_sequence s) es hi)"
      using m snd1 seq assms(3) by (auto simp: db_pos_def sound_def before_def saved_at_def)
    moreover have "FindPrevUserEntry c ops s = Some ?s" using r(1) kTypeValue by (simp add: FindPrevUserEntry_def)
    ultimately show ?thesis using seq assms(3) by (simp add: same_but_def)
  qed
qed

text \<open>Leaving the entries of the current user key backwards.\<close>

lemma PrevSkip_at:
  assumes "at (di_iter s) es p" "p < length es" "di_saved_key s = uk es p" 
  shows "\<exists>s' r. PrevSkip c ops s = Some (s', r) \<and> same_but s s' \<and> di_forward s' = di_forward s \<and>
    (if r then \<not> di_valid s' \<and> (\<exists>p'. at (di_iter s') es p') \<and> (\<forall>i < p. Compare c (uk es i) (uk es p) = 0)
     else \<exists>p'. p' < p \<and> at (di_iter s') es p' \<and> (\<forall>i. p' < i \<and> i < p \<longrightarrow> Compare c (uk es i) (uk es p) = 0))"
proof -
  have "\<exists>s' r. PrevSkip c ops s = Some (s', r) \<and> same_but s s' \<and> di_forward s' = di_forward s \<and>
    (if r then \<not> di_valid s' \<and> (\<exists>p'. at (di_iter s') es p') \<and> (\<forall>i < a. Compare c (uk es i) (uk es p) = 0)
     else \<exists>p'. p' < a \<and> at (di_iter s') es p' \<and> (\<forall>i. p' < i \<and> i < a \<longrightarrow> Compare c (uk es i) (uk es p) = 0))"
    if "at (di_iter s) es a" "a \<le> p" "di_saved_key s = uk es p" for a s
    using that
  proof (induction a arbitrary: s)
    case 0
    have lt: "0 < length es" using assms(2) by linarith
    obtain i where i: "DI_move (it_Prev ops) s = Some (s\<lparr>di_iter := i\<rparr>)" "at i es (length es)"
      using DI_move_Prev [OF 0(1) lt] by auto
    have "\<not> it_Valid ops i" using internal.at_Valid [OF i(2)] by simp
    then have "PrevSkip c ops s = Some (ClearSavedValue (s\<lparr>di_iter := i\<rparr>\<lparr>di_valid := False, di_saved_key := []\<rparr>), True)"
      by (subst PrevSkip.simps) (simp add: i(1))
    moreover have "\<exists>p'. at i es p'" using i(2) by blast
    ultimately show ?case
      by (intro exI conjI) (assumption, simp_all add: same_but_def ClearSavedValue_def)
  next
    case (Suc a)
    have lt: "Suc a < length es" using assms(2) Suc.prems(2) by simp
    obtain i where i: "DI_move (it_Prev ops) s = Some (s\<lparr>di_iter := i\<rparr>)" "at i es a"
      using DI_move_Prev [OF Suc.prems(1) lt] by auto
    have v: "it_Valid ops i" "it_key ops i = fst (es ! a)" using internal.at_Valid [OF i(2)] internal.at_key [OF i(2)] lt by auto
    let ?s = "s\<lparr>di_iter := i\<rparr>"
    have unfold: "PrevSkip c ops s = (if Compare c (uk es a) (uk es p) < 0 then Some (?s, False) else PrevSkip c ops ?s)"
      by (subst PrevSkip.simps) (simp add: i(1) v Suc.prems(3) uk_def)
    show ?case
    proof (cases "Compare c (uk es a) (uk es p) < 0")
      case True
      then have "PrevSkip c ops s = Some (?s, False)" using unfold by simp
      moreover have "\<exists>p'. p' < Suc a \<and> at i es p' \<and> (\<forall>i. p' < i \<and> i < Suc a \<longrightarrow> Compare c (uk es i) (uk es p) = 0)"
        using i(2) by (intro exI [of _ a]) simp
      ultimately show ?thesis
        by (intro exI conjI) (assumption, simp_all add: same_but_def)
    next
      case False
      have "Compare c (uk es a) (uk es p) \<le> 0" using keys_ascend [OF assms(1), of a p] Suc.prems(2) assms(2) by simp
      with False have eq: "Compare c (uk es a) (uk es p) = 0" by simp
      obtain s' r where s': "PrevSkip c ops ?s = Some (s', r)" "same_but ?s s'" "di_forward s' = di_forward ?s"
          "if r then \<not> di_valid s' \<and> (\<exists>p'. at (di_iter s') es p') \<and> (\<forall>i < a. Compare c (uk es i) (uk es p) = 0)
           else \<exists>p'. p' < a \<and> at (di_iter s') es p' \<and> (\<forall>i. p' < i \<and> i < a \<longrightarrow> Compare c (uk es i) (uk es p) = 0)"
        using Suc.IH [of ?s] i(2) Suc.prems(2,3) by auto
      have "if r then \<not> di_valid s' \<and> (\<exists>p'. at (di_iter s') es p') \<and> (\<forall>i < Suc a. Compare c (uk es i) (uk es p) = 0)
         else \<exists>p'. p' < Suc a \<and> at (di_iter s') es p' \<and> (\<forall>i. p' < i \<and> i < Suc a \<longrightarrow> Compare c (uk es i) (uk es p) = 0)"
        using s'(4) eq by (cases r) (auto simp: less_Suc_eq)
      moreover have "PrevSkip c ops s = Some (s', r)" using unfold False s'(1) by simp
      moreover have "same_but s s'" "di_forward s' = di_forward s" using s'(2,3) by (simp_all add: same_but_def)
      ultimately show ?thesis by blast
    qed
  qed
  from this [OF assms(1) order_refl assms(3)] show ?thesis .
qed

section \<open>The operations\<close>

lemma DI_SeekToFirst_at:
  assumes "db_pos s es i"
  shows "\<exists>s'. DI_SeekToFirst c ops s = Some s' \<and> db_pos s' es 0 \<and> same_but s s' \<and> di_forward s'"
proof -
  from assms obtain p where p: "at (di_iter s) es p" "sound s es" by (auto simp: db_pos_def)
  obtain j where j: "it_SeekToFirst ops (di_iter s) = Some j" "at j es 0" using internal.at_SeekToFirst [OF p(1)] by blast
  let ?s = "(ClearSavedValue (s\<lparr>di_forward := True\<rparr>))\<lparr>di_iter := j\<rparr>"
  have m: "DI_move (it_SeekToFirst ops) (ClearSavedValue (s\<lparr>di_forward := True\<rparr>)) = Some ?s"
    using j(1) by (simp add: DI_move_def ClearSavedValue_def)
  have same: "same_but s ?s" "di_forward ?s" by (simp_all add: same_but_def ClearSavedValue_def)
  note snd' = sound_same [OF p(2) same(1)]
  show ?thesis
  proof (cases "es = []")
    case True
    then have "\<not> it_Valid ops j" using internal.at_Valid [OF j(2)] by simp
    then have "DI_SeekToFirst c ops s = Some (?s\<lparr>di_valid := False\<rparr>)" by (simp add: DI_SeekToFirst_def m)
    moreover have "db_pos (?s\<lparr>di_valid := False\<rparr>) es 0"
      using snd' j(2) True by (auto simp: db_pos_def sound_def user_view_def)
    ultimately show ?thesis by (simp add: same_but_def ClearSavedValue_def)
  next
    case False
    have "skips False (di_saved_key ?s) (di_sequence ?s) es 0" by (simp add: skips_def)
    moreover have "well_keyed es" using p(2) by (simp add: sound_def)
    ultimately obtain s' where s': "FindNextUserEntry c ops False ?s = Some s'" "found_forward ?s es 0 s'"
      using FindNextUserEntry_at [of ?s es 0 False] j(2) False same(2) by auto
    have v: "it_Valid ops j" using internal.at_Valid [OF j(2)] False by simp
    have "DI_SeekToFirst c ops s = Some s'" by (simp add: DI_SeekToFirst_def m v s'(1))
    with found_forward_pos [OF s'(2) _ snd'] same show ?thesis by (auto simp: same_but_def)
  qed
qed

lemma DI_SeekToLast_at:
  assumes "db_pos s es i"
  shows "\<exists>s'. DI_SeekToLast c ops s = Some s' \<and> db_pos s' es (length (user_view c (di_sequence s) es) - 1) \<and> same_but s s'
    \<and> (di_valid s' \<longrightarrow> \<not> di_forward s')"
proof -
  from assms obtain p where p: "at (di_iter s) es p" "sound s es" by (auto simp: db_pos_def)
  obtain j where j: "it_SeekToLast ops (di_iter s) = Some j" "at j es (length es - 1)" using internal.at_SeekToLast [OF p(1)] by blast
  let ?s = "(ClearSavedValue (s\<lparr>di_forward := False\<rparr>))\<lparr>di_iter := j\<rparr>"
  have m: "DI_move (it_SeekToLast ops) (ClearSavedValue (s\<lparr>di_forward := False\<rparr>)) = Some ?s"
    using j(1) by (simp add: DI_move_def ClearSavedValue_def)
  have same: "same_but s ?s" "\<not> di_forward ?s" by (simp_all add: same_but_def ClearSavedValue_def)
  have "\<exists>s'. FindPrevUserEntry c ops ?s = Some s' \<and>
      db_pos s' es (before (di_sequence ?s) es (if length es - 1 < length es then Suc (length es - 1) else 0)) \<and> same_but ?s s' \<and> (di_valid s' \<longrightarrow> \<not> di_forward s')"
    using FindPrevUserEntry_at [of ?s es "length es - 1"] j(2) sound_same [OF p(2) same(1)] same(2) by simp
  moreover have "(if length es - 1 < length es then Suc (length es - 1) else 0) = length es" by (cases es) auto
  ultimately obtain s' where s': "FindPrevUserEntry c ops ?s = Some s'" "db_pos s' es (before (di_sequence ?s) es (length es))" "same_but ?s s'"
      "di_valid s' \<longrightarrow> \<not> di_forward s'"
    by auto
  moreover have "before (di_sequence ?s) es (length es) = length (user_view c (di_sequence s) es) - 1"
    using same(1) by (auto simp: before_def rank_length same_but_def)
  moreover have "DI_SeekToLast c ops s = Some s'" by (simp add: DI_SeekToLast_def m s'(1))
  ultimately show ?thesis using same(1) by (auto simp: same_but_def)
qed

lemma seek_unseen:
  assumes "well_keyed es" "r < length es" "entry_seq es r \<le> snap" "snap \<le> kMaxSequenceNumber"
  shows "InternalKey_Compare c (fst (es ! r)) (InternalKey_new t snap kValueTypeForSeek) < 0 \<longleftrightarrow> Compare c (uk es r) t < 0"
proof -
  note P = ParseInternalKey_entry [OF assms(1,2)]
  note k = ParseInternalKey_SomeD [OF P]
  have "\<not> PackSequenceAndType snap kValueTypeForSeek < tag_of (fst (es ! r))"
    using k(4,5) assms(3,4) by (simp add: tag_less_iff kValueTypeForSeek_def)
  then show ?thesis by (auto simp: InternalKey_Compare_less uk_def)
qed

lemma DI_Seek_at:
  assumes "db_pos s es i"
  shows "\<exists>s'. DI_Seek c ops s t = Some s' \<and> db_pos s' es (lower_bound c (user_view c (di_sequence s) es) t) \<and> same_but s s' \<and> di_forward s'"
proof -
  from assms obtain p where p: "at (di_iter s) es p" and snd0: "sound s es" by (auto simp: db_pos_def)
  let ?snap = "di_sequence s"
  let ?k = "InternalKey_new t ?snap kValueTypeForSeek"
  have snap: "?snap \<le> kMaxSequenceNumber" and wk: "well_keyed es" using snd0 by (simp_all add: sound_def)
  let ?lb = "lower_bound (InternalKeyComparator c) es ?k"
  obtain j where j: "it_Seek ops (di_iter s) ?k = Some j" "at j es ?lb"
    using internal.at_Seek [OF p, of ?k] by auto
  let ?b = "(ClearSavedValue (s\<lparr>di_forward := True\<rparr>))\<lparr>di_saved_key := ?k\<rparr>"
  let ?s = "?b\<lparr>di_iter := j\<rparr>"
  have m: "DI_move (\<lambda>i. it_Seek ops i ?k) ?b = Some ?s"
    using j(1) by (simp add: DI_move_def ClearSavedValue_def)
  have S: "DI_Seek c ops s t = (if it_Valid ops j then FindNextUserEntry c ops False ?s else Some (?s\<lparr>di_valid := False\<rparr>))"
    using m by (simp add: DI_Seek_def Let_def InternalKey_new_def)
  have same: "same_but s ?s" "di_forward ?s" by (simp_all add: same_but_def ClearSavedValue_def)
  note snd' = sound_same [OF snd0 same(1)]
  have lo: "Compare c (uk es r) t < 0" if "r < ?lb" "entry_seq es r \<le> ?snap" for r
    using lower_bound_less [OF that(1)] seek_unseen [OF wk _ that(2) snap, of t] that(1) lower_bound_le [of "InternalKeyComparator c" es ?k] by simp
  have hi: "\<not> Compare c (uk es r) t < 0" if "?lb \<le> r" "r < length es" for r
  proof -
    have "\<not> Compare (InternalKeyComparator c) (fst (es ! ?lb)) ?k < 0" using lower_bound_ge that by (metis le_less_trans)
    then have "\<not> Compare c (uk es ?lb) t < 0" by (auto simp: InternalKey_Compare_less uk_def)
    moreover have "Compare c (uk es ?lb) (uk es r) \<le> 0" using keys_ascend [OF p that] .
    ultimately show ?thesis using cmp_le_less_trans by blast
  qed
  have view: "rank c ?snap es ?lb = lower_bound c (user_view c ?snap es) t"
  proof (rule lower_boundI [symmetric])
    show "rank c ?snap es ?lb \<le> length (user_view c ?snap es)"
      using rank_mono [OF lower_bound_le [of "InternalKeyComparator c" es ?k], of c ?snap es] by (simp add: rank_length)
  next
    fix a assume a: "a < rank c ?snap es ?lb"
    then have "a < length (user_view c ?snap es)"
      using rank_mono [OF lower_bound_le [of "InternalKeyComparator c" es ?k], of c ?snap es] by (simp add: rank_length)
    then obtain q where q: "q < length es" "exposed c ?snap es q" "rank c ?snap es q = a" by (rule view_member)
    have "q < ?lb" using a q(3) rank_mono [of ?lb q c ?snap es] by (meson leD leI)
    then show "Compare c (fst (user_view c ?snap es ! a)) t < 0"
      using lo [of q] view_nth(2) [OF q(1,2)] q(2,3) by (simp add: exposed_def)
  next
    assume "rank c ?snap es ?lb < length (user_view c ?snap es)"
    then obtain q where q: "q < length es" "exposed c ?snap es q" "rank c ?snap es q = rank c ?snap es ?lb" by (rule view_member)
    have "?lb \<le> q" using q(2,3) rank_mono [of "Suc q" ?lb c ?snap es] by (simp add: rank_Suc) (meson not_less_eq_eq)
    then show "\<not> Compare c (fst (user_view c ?snap es ! rank c ?snap es ?lb)) t < 0"
      using hi [OF _ q(1)] view_nth(2) [OF q(1,2)] q(3) by simp
  qed
  show ?thesis
  proof (cases "?lb < length es")
    case False
    then have lb: "?lb = length es" using lower_bound_le [of "InternalKeyComparator c" es ?k] by simp
    then have "\<not> it_Valid ops j" using internal.at_Valid [OF j(2)] by simp
    then have "DI_Seek c ops s t = Some (?s\<lparr>di_valid := False\<rparr>)" using S by simp
    moreover have "db_pos (?s\<lparr>di_valid := False\<rparr>) es (rank c ?snap es ?lb)"
      using snd' j(2) lb by (auto simp: db_pos_def sound_def rank_length ClearSavedValue_def)
    ultimately show ?thesis using view by (simp add: same_but_def ClearSavedValue_def)
  next
    case True
    have "skips False (di_saved_key ?s) (di_sequence ?s) es ?lb"
      unfolding skips_def
    proof (intro allI impI, elim conjE)
      fix r assume r: "?lb \<le> r" "r < length es" "entry_seq es r \<le> di_sequence ?s"
      have "Compare c (uk es q) (uk es r) \<noteq> 0" if "q < ?lb" "entry_seq es q \<le> di_sequence ?s" for q
      proof
        assume "Compare c (uk es q) (uk es r) = 0"
        then have "Compare c (uk es r) (uk es q) \<le> 0" using cmp_eq_sym by fastforce
        moreover have "Compare c (uk es q) t < 0" using lo that by (simp add: ClearSavedValue_def)
        ultimately show False using hi [OF r(1,2)] cmp_le_less_trans by blast
      qed
      then show "(False \<and> Compare c (uk es r) (di_saved_key ?s) \<le> 0) =
          (\<exists>j < ?lb. entry_seq es j \<le> di_sequence ?s \<and> Compare c (uk es j) (uk es r) = 0)" by blast
    qed
    then obtain s' where s': "FindNextUserEntry c ops False ?s = Some s'" "found_forward ?s es ?lb s'"
      using FindNextUserEntry_at [of ?s es ?lb False] j(2) True same(2) wk by auto
    have "DI_Seek c ops s t = Some s'" using S internal.at_Valid [OF j(2)] True s'(1) by simp
    with found_forward_pos [OF s'(2) _ snd'] same view True show ?thesis by (auto simp: same_but_def ClearSavedValue_def)
  qed
qed

lemma db_pos_valid:
  assumes "db_pos s es i"
  shows "di_valid s \<longleftrightarrow> i < length (user_view c (di_sequence s) es)" "i \<le> length (user_view c (di_sequence s) es)"
proof -
  have "q < length es \<Longrightarrow> exposed c (di_sequence s) es q \<Longrightarrow> i = rank c (di_sequence s) es q
      \<Longrightarrow> i < length (user_view c (di_sequence s) es)" for q
    using view_nth(1) by blast
  then have "(di_valid s \<and> i < length (user_view c (di_sequence s) es)) \<or> (\<not> di_valid s \<and> i = length (user_view c (di_sequence s) es))"
    using assms unfolding db_pos_def by (cases "di_valid s"; simp only: if_True if_False simp_thms; blast)
  then show "di_valid s \<longleftrightarrow> i < length (user_view c (di_sequence s) es)" "i \<le> length (user_view c (di_sequence s) es)"
    by auto
qed

lemma db_pos_current:
  assumes "db_pos s es i" "i < length (user_view c (di_sequence s) es)"
  obtains p q where "at (di_iter s) es p" "q < length es" "exposed c (di_sequence s) es q" "i = rank c (di_sequence s) es q"
    "if di_forward s then p = q else saved_at s es q \<and> seen_before (di_sequence s) es q p"
  using assms(1) db_pos_valid(1) [OF assms(1)] assms(2) that unfolding db_pos_def by auto

lemma db_pos_entry:
  assumes "db_pos s es i" "i < length (user_view c (di_sequence s) es)"
  shows "DI_key ops s = fst (user_view c (di_sequence s) es ! i)" "DI_value ops s = snd (user_view c (di_sequence s) es ! i)"
proof -
  from db_pos_current [OF assms] obtain p q where q: "at (di_iter s) es p" "q < length es" "exposed c (di_sequence s) es q"
      "i = rank c (di_sequence s) es q" "if di_forward s then p = q else saved_at s es q \<and> seen_before (di_sequence s) es q p" .
  show "DI_key ops s = fst (user_view c (di_sequence s) es ! i)" "DI_value ops s = snd (user_view c (di_sequence s) es ! i)"
    using view_nth(2) [OF q(2,3)] q internal.at_key [of "di_iter s" es q] internal.at_value [of "di_iter s" es q]
    by (auto simp: DI_key_def DI_value_def saved_at_def uk_def split: if_splits)
qed

text \<open>\<open>Next\<close> from the entry \<open>q\<close> the internal iterator stands at.\<close>

lemma skip_from:
  assumes "at (di_iter s) es q" "q < length es" "exposed c (di_sequence s) es q" "sound s es" "di_forward s"
  shows "\<exists>s'. FindNextUserEntry c ops True (s\<lparr>di_saved_key := ExtractUserKey (it_key ops (di_iter s))\<rparr>) = Some s'
    \<and> db_pos s' es (Suc (rank c (di_sequence s) es q)) \<and> same_but s s' \<and> di_forward s'"
proof -
  let ?s = "s\<lparr>di_saved_key := ExtractUserKey (it_key ops (di_iter s))\<rparr>"
  have key: "ExtractUserKey (it_key ops (di_iter s)) = uk es q" using internal.at_key [OF assms(1,2)] by (simp add: uk_def)
  have wk: "well_keyed es" using assms(4) by (simp add: sound_def)
  have ex: "entry_seq es q \<le> di_sequence s" "entry_type es q = kTypeValue" using assms(3) by (simp_all add: exposed_def)
  have "at (di_iter ?s) es q" using assms(1) by simp
  from ParseKey_at [OF this assms(2) wk] ex key have st: "FindNextStep c ops True ?s = (?s, True, False)"
    by (simp add: FindNextStep_def cmp_refl)
  from \<open>at (di_iter ?s) es q\<close> assms(2) obtain j where j: "DI_move (it_Next ops) ?s = Some (?s\<lparr>di_iter := j\<rparr>)" "at j es (Suc q)"
    by (rule DI_move_Next)
  let ?t = "?s\<lparr>di_iter := j\<rparr>"
  have unfold: "FindNextUserEntry c ops True ?s = (if it_Valid ops (di_iter ?t) then FindNextUserEntry c ops True ?t
      else Some (?t\<lparr>di_saved_key := [], di_valid := False\<rparr>))"
    by (subst FindNextUserEntry.simps) (simp only: st prod.case if_False j(1) bind.bind_lunit simp_thms)
  have same: "same_but s ?t" by (simp add: same_but_def)
  have "\<exists>s'. FindNextUserEntry c ops True ?s = Some s' \<and> found_forward ?t es (Suc q) s'"
  proof (cases "Suc q < length es")
    case True
    have "skips True (di_saved_key ?t) (di_sequence ?t) es (Suc q)"
      using skips_seen [OF assms(1,2) ex(1)] key by simp
    then show ?thesis
      using FindNextUserEntry_at [of ?t es "Suc q" True] True j(2) wk assms(5) unfold internal.at_Valid [OF j(2)] by auto
  next
    case False
    have "found_forward ?t es (Suc q) (?t\<lparr>di_saved_key := [], di_valid := False\<rparr>)"
      by (rule found_forward_none) (use False j(2) assms(5) in auto)
    then show ?thesis using unfold False internal.at_Valid [OF j(2)] by auto
  qed
  then obtain s' where s': "FindNextUserEntry c ops True ?s = Some s'" "found_forward ?t es (Suc q) s'" by blast
  have "rank c (di_sequence s) es (Suc q) = Suc (rank c (di_sequence s) es q)" using assms(3) by (simp add: rank_Suc)
  with found_forward_pos [OF s'(2) _ sound_same [OF assms(4) same]] s'(1) same assms(2) show ?thesis
    by (auto simp: same_but_def)
qed

lemma DI_Next_forward:
  assumes "db_pos s es i" "i < length (user_view c (di_sequence s) es)" "di_forward s"
  shows "\<exists>s'. DI_Next c ops s = Some s' \<and> db_pos s' es (Suc i) \<and> same_but s s' \<and> di_forward s'"
proof -
  from db_pos_current [OF assms(1,2)] assms(3) obtain q where q: "at (di_iter s) es q" "q < length es"
      "exposed c (di_sequence s) es q" "i = rank c (di_sequence s) es q" by auto
  have "sound s es" using assms(1) by (simp add: db_pos_def)
  with skip_from [OF q(1-3) _ assms(3)] q(4) show ?thesis using assms(3) by (simp add: DI_Next_def Let_def)
qed

text \<open>Turning forward needs that no entry between the two positions is hidden from the snapshot.\<close>

definition all_seen :: "'s DBIter \<Rightarrow> entries \<Rightarrow> bool" where
  "all_seen s es \<longleftrightarrow> (\<forall>j < length es. entry_seq es j \<le> di_sequence s)"

lemma DI_Next_turning:
  assumes "db_pos s es i" "i < length (user_view c (di_sequence s) es)" "\<not> di_forward s" "all_seen s es"
  shows "\<exists>s'. DI_Next c ops s = Some s' \<and> db_pos s' es (Suc i) \<and> same_but s s' \<and> di_forward s'"
proof -
  from db_pos_current [OF assms(1,2)] obtain p q where q: "at (di_iter s) es p" "q < length es"
      "exposed c (di_sequence s) es q" "i = rank c (di_sequence s) es q"
      "if di_forward s then p = q else saved_at s es q \<and> seen_before (di_sequence s) es q p" .
  note q = q(1-4) q(5) [unfolded if_not_P [OF assms(3)], THEN conjunct2]
  have snd0: "sound s es" using assms(1) by (simp add: db_pos_def)
  have p: "p < length es \<and> q = Suc p \<or> p = length es \<and> q = 0"
    using q(2,5) assms(4) unfolding seen_before_def all_seen_def
    by (metis Suc_lessI lessI less_trans less_zeroE linorder_neqE_nat nat_neq_iff not_less_zero)
  have "\<exists>j. (if \<not> it_Valid ops (di_iter s) then it_SeekToFirst ops else it_Next ops) (di_iter s) = Some j \<and> at j es q"
    using p internal.at_Valid [OF q(1)] internal.at_SeekToFirst [OF q(1)] internal.at_Next [OF q(1)] by auto
  then obtain j where j: "(if \<not> it_Valid ops (di_iter s) then it_SeekToFirst ops else it_Next ops) (di_iter s) = Some j" "at j es q"
    by blast
  let ?s = "s\<lparr>di_forward := True\<rparr>\<lparr>di_iter := j\<rparr>"
  have m: "DI_move (if \<not> it_Valid ops (di_iter (s\<lparr>di_forward := True\<rparr>)) then it_SeekToFirst ops else it_Next ops) (s\<lparr>di_forward := True\<rparr>) = Some ?s"
    using j(1) by (simp add: DI_move_def split del: if_split)
  have same: "same_but s ?s" by (simp add: same_but_def)
  have "it_Valid ops j" using internal.at_Valid [OF j(2)] q(2) by simp
  then have "DI_Next c ops s = FindNextUserEntry c ops True (?s\<lparr>di_saved_key := ExtractUserKey (it_key ops (di_iter ?s))\<rparr>)"
    using assms(3) m by (simp add: DI_Next_def Let_def split del: if_split)
  moreover have "\<exists>s'. FindNextUserEntry c ops True (?s\<lparr>di_saved_key := ExtractUserKey (it_key ops (di_iter ?s))\<rparr>) = Some s'
      \<and> db_pos s' es (Suc (rank c (di_sequence ?s) es q)) \<and> same_but ?s s' \<and> di_forward s'"
    by (rule skip_from) (use j(2) q(2,3) sound_same [OF snd0 same] in simp_all)
  ultimately show ?thesis using q(4) by (auto simp: same_but_def)
qed

lemma DI_Prev_at:
  assumes "db_pos s es i" "i < length (user_view c (di_sequence s) es)"
  shows "\<exists>s'. DI_Prev c ops s = Some s' \<and> db_pos s' es (if i = 0 then length (user_view c (di_sequence s) es) else i - 1) \<and> same_but s s'"
proof -
  from db_pos_current [OF assms] obtain p q where q: "at (di_iter s) es p" "q < length es" "exposed c (di_sequence s) es q"
      "i = rank c (di_sequence s) es q" "if di_forward s then p = q else saved_at s es q \<and> seen_before (di_sequence s) es q p" .
  have snd0: "sound s es" using assms(1) by (simp add: db_pos_def)
  have hid: "before (di_sequence s) es hi = (if i = 0 then length (user_view c (di_sequence s) es) else i - 1)"
    if "hi \<le> q" "hidden (di_sequence s) es hi q" for hi
    using rank_hidden [OF that] q(4) by (simp add: before_def)
  have same_key: "hidden (di_sequence s) es a q" if "\<forall>r. a \<le> r \<and> r < q \<longrightarrow> Compare c (uk es r) (uk es q) = 0" for a
    using that q(3) unfolding hidden_def exposed_def by fastforce
  show ?thesis
  proof (cases "di_forward s")
    case False
    then have sb: "seen_before (di_sequence s) es q p" using q(5) by simp
    let ?hi = "if p < length es then Suc p else 0"
    have "?hi \<le> q \<and> hidden (di_sequence s) es ?hi q"
      using sb q(2) by (auto simp: seen_before_def hidden_def exposed_def)
    with FindPrevUserEntry_at [OF q(1) snd0 False] hid [of ?hi] False show ?thesis by (auto simp: DI_Prev_def)
  next
    case True
    then have at: "at (di_iter s) es q" using q(1,5) by simp
    let ?s = "s\<lparr>di_saved_key := ExtractUserKey (it_key ops (di_iter s))\<rparr>"
    have "di_saved_key ?s = uk es q" using internal.at_key [OF at q(2)] by (simp add: uk_def)
    then obtain s1 r where r: "PrevSkip c ops ?s = Some (s1, r)" "same_but ?s s1" "di_forward s1 = di_forward ?s"
        "if r then \<not> di_valid s1 \<and> (\<exists>p'. at (di_iter s1) es p') \<and> (\<forall>i < q. Compare c (uk es i) (uk es q) = 0)
         else \<exists>p'. p' < q \<and> at (di_iter s1) es p' \<and> (\<forall>i. p' < i \<and> i < q \<longrightarrow> Compare c (uk es i) (uk es q) = 0)"
      using PrevSkip_at [of ?s es q] at q(2) by auto
    have same: "same_but s s1" using r(2) by (simp add: same_but_def)
    note snd1 = sound_same [OF snd0 same]
    show ?thesis
    proof (cases r)
      case ret: True
      then have "hidden (di_sequence s) es 0 q" by (intro same_key) (use r(4) in simp)
      then have "i = 0" using rank_hidden [of 0 q s es] q(4) by simp
      moreover have "db_pos s1 es (length (user_view c (di_sequence s1) es))"
        using ret r(4) snd1 by (auto simp: db_pos_def)
      moreover have "DI_Prev c ops s = Some s1" using True r(1) ret by (simp add: DI_Prev_def)
      ultimately show ?thesis using same by (simp add: same_but_def)
    next
      case False
      then obtain p' where p': "p' < q" "at (di_iter s1) es p'" "\<forall>i. p' < i \<and> i < q \<longrightarrow> Compare c (uk es i) (uk es q) = 0"
        using r(4) by auto
      let ?t = "s1\<lparr>di_forward := False\<rparr>"
      have st: "same_but s ?t" using same by (simp add: same_but_def)
      have "\<exists>s'. FindPrevUserEntry c ops ?t = Some s' \<and> db_pos s' es (before (di_sequence ?t) es (if p' < length es then Suc p' else 0)) \<and> same_but ?t s'"
        using FindPrevUserEntry_at [of ?t es p'] p'(2) sound_same [OF snd0 st] by auto
      moreover have "before (di_sequence ?t) es (if p' < length es then Suc p' else 0) = (if i = 0 then length (user_view c (di_sequence s) es) else i - 1)"
      proof -
        have "hidden (di_sequence s) es (Suc p') q" by (intro same_key) (use p'(3) in auto)
        with hid [of "Suc p'"] p'(1) q(2) st show ?thesis by (simp add: same_but_def)
      qed
      moreover have "DI_Prev c ops s = FindPrevUserEntry c ops ?t" using True r(1) False by (simp add: DI_Prev_def)
      ultimately show ?thesis using st by (auto simp: same_but_def)
    qed
  qed
qed

lemma view_sorted:
  assumes "at i es p"
  shows "sorted_wrt (\<lambda>a b. Compare c (fst a) (fst b) < 0) (user_view c snap es)"
proof -
  have lt: "Compare c (uk es a) (uk es b) < 0" if "exposed c snap es a" "exposed c snap es b" "a < b" "b < length es" for a b
    using keys_ascend [OF assms, of a b] that unfolding exposed_def by fastforce
  have "sorted_wrt (\<lambda>a b. a < b) (filter (exposed c snap es) [0..<length es])"
    by (rule sorted_wrt_filter) simp
  then show ?thesis
    unfolding user_view_def sorted_wrt_map
    by (rule sorted_wrt_mono_rel [rotated]) (auto intro: lt)
qed

section \<open>The contract\<close>

lemma NewDBIterator_at:
  assumes "at it es p" "well_keyed es" "snap \<le> kMaxSequenceNumber"
  shows "db_pos (NewDBIterator it snap) es (length (user_view c snap es))"
  using assms by (auto simp: db_pos_def sound_def NewDBIterator_def)

lemma DBIter_ops_simps:
  "it_Valid (DBIter_ops c ops) = di_valid" "it_SeekToFirst (DBIter_ops c ops) = DI_SeekToFirst c ops"
  "it_SeekToLast (DBIter_ops c ops) = DI_SeekToLast c ops" "it_Seek (DBIter_ops c ops) = DI_Seek c ops"
  "it_Next (DBIter_ops c ops) = DI_Next c ops" "it_Prev (DBIter_ops c ops) = DI_Prev c ops"
  "it_key (DBIter_ops c ops) = DI_key ops" "it_value (DBIter_ops c ops) = DI_value ops" "it_status (DBIter_ops c ops) = DI_status ops"
  by (simp_all add: DBIter_ops_def)

text \<open>For any snapshot: a scan that only moves forward, a scan that only moves back, and seeks.\<close>

lemma db_scan_from:
  "db_pos s es i \<Longrightarrow> di_forward s \<Longrightarrow> scan_from (DBIter_ops c ops) s = Some (drop i (user_view c (di_sequence s) es))"
proof (induction "length (user_view c (di_sequence s) es) - i" arbitrary: s i)
  case 0
  then show ?case using db_pos_valid [OF 0(2)] by (simp add: scan_from.simps [of _ s] DBIter_ops_simps)
next
  case (Suc n)
  let ?v = "user_view c (di_sequence s) es"
  from Suc.hyps(2) have i: "i < length ?v" by simp
  then obtain s' where s': "DI_Next c ops s = Some s'" "db_pos s' es (Suc i)" "same_but s s'" "di_forward s'"
    using DI_Next_forward [OF Suc.prems(1) _ Suc.prems(2)] by blast
  have seq: "di_sequence s' = di_sequence s" using s'(3) by (simp add: same_but_def)
  have "scan_from (DBIter_ops c ops) s' = Some (drop (Suc i) ?v)"
    using Suc.hyps(1) [of s' "Suc i"] Suc.hyps(2) s'(2,4) seq by simp
  moreover have "(DI_key ops s, DI_value ops s) = ?v ! i" using db_pos_entry [OF Suc.prems(1) i] by simp
  ultimately show ?case
    using db_pos_valid(1) [OF Suc.prems(1)] i s'(1)
    by (simp add: scan_from.simps [of _ s] DBIter_ops_simps Cons_nth_drop_Suc [symmetric])
qed

lemma db_rscan_from:
  "db_pos s es i \<Longrightarrow> i < length (user_view c (di_sequence s) es) \<Longrightarrow>
     rscan_from (DBIter_ops c ops) s = Some (rev (take (Suc i) (user_view c (di_sequence s) es)))"
proof (induction i arbitrary: s)
  case 0
  let ?v = "user_view c (di_sequence s) es"
  obtain s' where s': "DI_Prev c ops s = Some s'" "db_pos s' es (length ?v)" "same_but s s'" using DI_Prev_at [OF 0] by auto
  have "\<not> di_valid s'" using db_pos_valid(1) [OF s'(2)] s'(3) by (simp add: same_but_def)
  then have "rscan_from (DBIter_ops c ops) s' = Some []" by (simp add: rscan_from.simps [of _ s'] DBIter_ops_simps)
  moreover have "(DI_key ops s, DI_value ops s) = ?v ! 0" using db_pos_entry [OF 0] by simp
  ultimately show ?case
    using db_pos_valid(1) [OF 0(1)] 0(2) s'(1)
    by (simp add: rscan_from.simps [of _ s] DBIter_ops_simps take_Suc_conv_app_nth)
next
  case (Suc i)
  let ?v = "user_view c (di_sequence s) es"
  obtain s' where s': "DI_Prev c ops s = Some s'" "db_pos s' es i" "same_but s s'" using DI_Prev_at [OF Suc.prems] by auto
  have "rscan_from (DBIter_ops c ops) s' = Some (rev (take (Suc i) ?v))"
    using Suc.IH [OF s'(2)] Suc.prems(2) s'(3) by (simp add: same_but_def)
  moreover have "(DI_key ops s, DI_value ops s) = ?v ! Suc i" using db_pos_entry [OF Suc.prems] by simp
  ultimately show ?case
    using db_pos_valid(1) [OF Suc.prems(1)] Suc.prems(2) s'(1)
    by (simp add: rscan_from.simps [of _ s] DBIter_ops_simps take_Suc_conv_app_nth [of "Suc i"])
qed

lemma snapshot_scan:
  assumes "at it es p" "well_keyed es" "snap \<le> kMaxSequenceNumber"
  defines "v \<equiv> user_view c snap es" and "m \<equiv> DBIter_ops c ops"
  shows "scan m (NewDBIterator it snap) = Some v \<and> rscan m (NewDBIterator it snap) = Some (rev v) \<and>
    (\<exists>s. it_Seek m (NewDBIterator it snap) t = Some s \<and> it_Valid m s = (lower_bound c v t < length v) \<and> scan_from m s = Some (drop (lower_bound c v t) v))"
proof (intro conjI)
  let ?n = "NewDBIterator it snap"
  have seq: "di_sequence ?n = snap" by (simp add: NewDBIterator_def)
  note P = NewDBIterator_at [OF assms(1-3)]
  obtain s where s: "DI_SeekToFirst c ops ?n = Some s" "db_pos s es 0" "same_but ?n s" "di_forward s"
    using DI_SeekToFirst_at [OF P] by blast
  then show "scan m ?n = Some v"
    using db_scan_from [OF s(2,4)] seq by (simp add: scan_def m_def DBIter_ops_simps v_def same_but_def)
  obtain s where s: "DI_SeekToLast c ops ?n = Some s" "db_pos s es (length v - 1)" "same_but ?n s"
    using DI_SeekToLast_at [OF P] seq by (auto simp: v_def)
  show "rscan m ?n = Some (rev v)"
  proof (cases "v = []")
    case True
    then have "\<not> di_valid s" using db_pos_valid(1) [OF s(2)] s(3) seq by (simp add: v_def same_but_def)
    then show ?thesis using s(1) True by (simp add: rscan_def m_def DBIter_ops_simps rscan_from.simps [of _ s])
  next
    case False
    then have "length v - 1 < length (user_view c (di_sequence s) es)" using s(3) seq by (simp add: v_def same_but_def)
    from db_rscan_from [OF s(2) this] False s seq show ?thesis
      by (simp add: rscan_def m_def DBIter_ops_simps v_def same_but_def)
  qed
  obtain s where s: "DI_Seek c ops ?n t = Some s" "db_pos s es (lower_bound c v t)" "same_but ?n s" "di_forward s"
    using DI_Seek_at [OF P] seq by (auto simp: v_def)
  then show "\<exists>s. it_Seek m ?n t = Some s \<and> it_Valid m s = (lower_bound c v t < length v) \<and> scan_from m s = Some (drop (lower_bound c v t) v)"
    using db_scan_from [OF s(2,4)] db_pos_valid(1) [OF s(2)] seq by (auto simp: m_def DBIter_ops_simps v_def same_but_def)
qed

text \<open>Where the snapshot sees every entry, all moves are right.\<close>

definition at_db :: "'s DBIter \<Rightarrow> entries \<Rightarrow> nat \<Rightarrow> bool" where
  "at_db s v i \<longleftrightarrow> (\<exists>es. db_pos s es i \<and> all_seen s es \<and> v = user_view c (di_sequence s) es)"

lemma at_dbI: "db_pos s' es i \<Longrightarrow> same_but s s' \<Longrightarrow> all_seen s es \<Longrightarrow> at_db s' (user_view c (di_sequence s) es) i"
  unfolding at_db_def all_seen_def same_but_def by metis

lemma db_sorted: "sorted_iterator c (\<lambda>_. True) (DBIter_ops c ops) at_db"
proof (unfold_locales, goal_cases)
  case (1 s v i) then show ?case using db_pos_valid(1) by (auto simp: at_db_def DBIter_ops_simps)
next
  case (2 s v i) then show ?case using db_pos_valid(2) by (auto simp: at_db_def)
next
  case (3 s v i) then show ?case using db_pos_entry(1) by (auto simp: at_db_def DBIter_ops_simps)
next
  case (4 s v i) then show ?case using db_pos_entry(2) by (auto simp: at_db_def DBIter_ops_simps)
next
  case (5 s v i)
  then obtain es p where "at (di_iter s) es p" "di_status s = OK" by (auto simp: at_db_def db_pos_def sound_def)
  then show ?case using internal.at_status by (simp add: DBIter_ops_simps DI_status_def ok_def)
next
  case (6 s v i e) then show ?case by simp
next
  case (7 s v i) then show ?case using view_sorted by (auto simp: at_db_def db_pos_def)
next
  case (8 s v i)
  then obtain es where "db_pos s es i" "all_seen s es" "v = user_view c (di_sequence s) es" by (auto simp: at_db_def)
  then show ?case using DI_SeekToFirst_at [of s es i] at_dbI by (fastforce simp: DBIter_ops_simps)
next
  case (9 s v i)
  then obtain es where "db_pos s es i" "all_seen s es" "v = user_view c (di_sequence s) es" by (auto simp: at_db_def)
  then show ?case using DI_SeekToLast_at [of s es i] at_dbI by (fastforce simp: DBIter_ops_simps)
next
  case (10 s v i t)
  then obtain es where "db_pos s es i" "all_seen s es" "v = user_view c (di_sequence s) es" by (auto simp: at_db_def)
  then show ?case using DI_Seek_at [of s es i t] at_dbI by (fastforce simp: DBIter_ops_simps)
next
  case (11 s v i)
  then obtain es where "db_pos s es i" "all_seen s es" "v = user_view c (di_sequence s) es" "i < length v" by (auto simp: at_db_def)
  then show ?case using DI_Next_forward [of s es i] DI_Next_turning [of s es i] at_dbI
    by (cases "di_forward s") (fastforce simp: DBIter_ops_simps)+
next
  case (12 s v i)
  then obtain es where "db_pos s es i" "all_seen s es" "v = user_view c (di_sequence s) es" "i < length v" by (auto simp: at_db_def)
  then show ?case using DI_Prev_at [of s es i] at_dbI by (fastforce simp: DBIter_ops_simps simp del: if_split)
qed

end

sublocale db_iterator \<subseteq> db: sorted_iterator c "\<lambda>_. True" "DBIter_ops c ops" at_db
  by (rule db_sorted)

section \<open>A Next that repeats a key\<close>

context db_iterator
begin

text \<open>
  After a reverse move the internal iterator stands before the entries of the current user key.
  When the entry after it is one of a smaller user key that the snapshot does not see, \<open>Next\<close> takes
  that key for the current one and stops at the same position again.
\<close>

lemma DI_Next_repeats:
  assumes "db_pos s es i" "di_valid s" "\<not> di_forward s"
    and "\<And>p q. q < length es \<Longrightarrow> exposed c (di_sequence s) es q \<Longrightarrow> i = rank c (di_sequence s) es q \<Longrightarrow> seen_before (di_sequence s) es q p \<Longrightarrow>
      (if p < length es then Suc p else 0) < q \<and> Compare c (uk es (if p < length es then Suc p else 0)) (uk es q) < 0"
  shows "\<exists>s'. DI_Next c ops s = Some s' \<and> db_pos s' es i \<and> same_but s s'"
proof -
  have i: "i < length (user_view c (di_sequence s) es)" using db_pos_valid(1) [OF assms(1)] assms(2) by simp
  from db_pos_current [OF assms(1) i] obtain p q where q: "at (di_iter s) es p" "q < length es"
      "exposed c (di_sequence s) es q" "i = rank c (di_sequence s) es q"
      "if di_forward s then p = q else saved_at s es q \<and> seen_before (di_sequence s) es q p" .
  note q = q(1-4) q(5) [unfolded if_not_P [OF assms(3)], THEN conjunct2]
  have snd0: "sound s es" using assms(1) by (simp add: db_pos_def)
  let ?p = "if p < length es then Suc p else 0"
  have lt: "?p < q" "Compare c (uk es ?p) (uk es q) < 0" using assms(4) [OF q(2-5)] by auto
  have unseen: "\<not> entry_seq es r \<le> di_sequence s" if "?p \<le> r" "r < q" for r
    using q(2,5) that by (auto simp: seen_before_def split: if_splits)
  have "\<exists>j. (if \<not> it_Valid ops (di_iter s) then it_SeekToFirst ops else it_Next ops) (di_iter s) = Some j \<and> at j es ?p"
    using internal.at_Valid [OF q(1)] internal.at_SeekToFirst [OF q(1)] internal.at_Next [OF q(1)] by auto
  then obtain j where j: "(if \<not> it_Valid ops (di_iter s) then it_SeekToFirst ops else it_Next ops) (di_iter s) = Some j" "at j es ?p"
    by blast
  let ?s = "s\<lparr>di_forward := True\<rparr>\<lparr>di_iter := j\<rparr>"
  have m: "DI_move (if \<not> it_Valid ops (di_iter (s\<lparr>di_forward := True\<rparr>)) then it_SeekToFirst ops else it_Next ops) (s\<lparr>di_forward := True\<rparr>) = Some ?s"
    using j(1) by (simp add: DI_move_def split del: if_split)
  have pl: "?p < length es" using lt(1) q(2) by linarith
  have jv: "it_Valid ops j" "it_key ops j = fst (es ! ?p)" using internal.at_Valid [OF j(2)] internal.at_key [OF j(2) pl] pl by blast+
  let ?t = "?s\<lparr>di_saved_key := uk es ?p\<rparr>"
  have "DI_Next c ops s = FindNextUserEntry c ops True ?t"
    using assms(3) m jv by (simp add: DI_Next_def Let_def uk_def split del: if_split)
  moreover have "skips True (di_saved_key ?t) (di_sequence ?t) es ?p"
    unfolding skips_def
  proof (intro allI impI, elim conjE)
    fix r assume r: "?p \<le> r" "r < length es" "entry_seq es r \<le> di_sequence ?t"
    have "entry_seq es r \<le> di_sequence s" using r(3) by simp
    then have "q \<le> r" using unseen [OF r(1)] by (meson not_less)
    then have less: "Compare c (uk es ?p) (uk es r) < 0" using lt(2) keys_ascend [OF q(1) _ r(2)] cmp_less_le_trans by blast
    then have "\<not> Compare c (uk es r) (uk es ?p) \<le> 0" using cmp_anti [of "uk es ?p" "uk es r"] by simp
    moreover have "Compare c (uk es k) (uk es r) \<noteq> 0" if "k < ?p" for k
      using same_key_between [OF q(1) _ r(1,2), of k] that less by fastforce
    ultimately show "(True \<and> Compare c (uk es r) (di_saved_key ?t) \<le> 0) =
        (\<exists>j < ?p. entry_seq es j \<le> di_sequence ?t \<and> Compare c (uk es j) (uk es r) = 0)" by (simp split del: if_split)
  qed
  ultimately obtain s' where s': "DI_Next c ops s = Some s'" "found_forward ?t es ?p s'"
    using FindNextUserEntry_at [of ?t es ?p True] j(2) pl snd0 by (auto simp: sound_def split del: if_split)
  have same: "same_but s ?t" by (simp add: same_but_def)
  have "rank c (di_sequence s) es q = rank c (di_sequence s) es ?p"
    by (rule rank_gap) (use lt(1) unseen in \<open>auto simp: exposed_def split del: if_split\<close>)
  with found_forward_pos [OF s'(2) _ sound_same [OF snd0 same]] pl q(4) s'(1) same show ?thesis
    by (auto simp: same_but_def split del: if_split)
qed

end

section \<open>Providers\<close>

text \<open>Any block, and the merge of any tables, over internal keys is a source for the database iterator.\<close>

sublocale user_comparator \<subseteq> db_block: db_iterator c "Block_ops (InternalKeyComparator c)"
    "case_sum at_empty (at_block (InternalKeyComparator c) (\<lambda>k. 8 \<le> length k))"
  unfolding db_iterator_def using user_comparator_axioms ikey.block.sorted_iterator_axioms by blast

sublocale user_comparator \<subseteq> db_tables: db_iterator c "Merged_ops (InternalKeyComparator c) (table_child_ops options)"
    "case_sum at_empty (case_sum (at_table_child (InternalKeyComparator c) (\<lambda>k. 8 \<le> length k) options)
       (at_merging (InternalKeyComparator c) (\<lambda>k. 8 \<le> length k) (table_child_ops options)
          (at_table_child (InternalKeyComparator c) (\<lambda>k. 8 \<le> length k) options)))" for options
  unfolding db_iterator_def using user_comparator_axioms ikey.table_merge.merged_sorted by blast

interpretation bytewise_db: db_iterator BytewiseComparator "Block_ops (InternalKeyComparator BytewiseComparator)"
    "case_sum at_empty (at_block (InternalKeyComparator BytewiseComparator) (\<lambda>k. 8 \<le> length k))"
  by (rule bytewise.db_block.db_iterator_axioms)

end
