(* ===== verification/VersionEdits.thy ===== *)
theory VersionEdits
  imports DBFormat Statuses "HOL-Library.Product_Lexorder" "HOL-Library.Monad_Syntax"
begin

text \<open>
  Version edits (db/version_edit.h, db/version_edit.cc): the change of one version into the next,
  and the tagged encoding that the MANIFEST holds. Decoding inverts encoding, and every input is
  either decoded or reported as corrupt.
\<close>

section \<open>Data\<close>

definition kNumLevels :: int where
  "kNumLevels = 7"

text \<open>The reference count of a file belongs to the memory management and is left out.\<close>

record FileMetaData =
  fm_allowed_seeks :: int
  fm_number :: u64
  fm_file_size :: u64
  fm_smallest :: InternalKey
  fm_largest :: InternalKey

definition FileMetaData_new :: FileMetaData where
  "FileMetaData_new = \<lparr>fm_allowed_seeks = 2 ^ 30, fm_number = 0, fm_file_size = 0, fm_smallest = [], fm_largest = []\<rparr>"

text \<open>\<open>deleted_files_\<close> is an ordered set: an ascending list.\<close>

record VersionEdit =
  ve_comparator :: bytes
  ve_log_number :: u64
  ve_next_file_number :: u64
  ve_last_sequence :: SequenceNumber
  ve_has_comparator :: bool
  ve_has_log_number :: bool
  ve_has_next_file_number :: bool
  ve_has_last_sequence :: bool
  ve_deleted_files :: "(int \<times> u64) list"
  ve_new_files :: "(int \<times> FileMetaData) list"
  ve_compact_pointers :: "(int \<times> InternalKey) list"

definition VE_Clear :: VersionEdit where
  "VE_Clear = \<lparr>ve_comparator = [], ve_log_number = 0, ve_next_file_number = 0, ve_last_sequence = 0,
     ve_has_comparator = False, ve_has_log_number = False, ve_has_next_file_number = False, ve_has_last_sequence = False,
     ve_deleted_files = [], ve_new_files = [], ve_compact_pointers = []\<rparr>"

definition SetComparatorName :: "VersionEdit \<Rightarrow> bytes \<Rightarrow> VersionEdit" where
  "SetComparatorName e name = e\<lparr>ve_has_comparator := True, ve_comparator := name\<rparr>"

definition SetLogNumber :: "VersionEdit \<Rightarrow> u64 \<Rightarrow> VersionEdit" where
  "SetLogNumber e number = e\<lparr>ve_has_log_number := True, ve_log_number := number\<rparr>"

definition SetNextFile :: "VersionEdit \<Rightarrow> u64 \<Rightarrow> VersionEdit" where
  "SetNextFile e number = e\<lparr>ve_has_next_file_number := True, ve_next_file_number := number\<rparr>"

definition SetLastSequence :: "VersionEdit \<Rightarrow> SequenceNumber \<Rightarrow> VersionEdit" where
  "SetLastSequence e sequence = e\<lparr>ve_has_last_sequence := True, ve_last_sequence := sequence\<rparr>"

definition SetCompactPointer :: "VersionEdit \<Rightarrow> int \<Rightarrow> InternalKey \<Rightarrow> VersionEdit" where
  "SetCompactPointer e level key = e\<lparr>ve_compact_pointers := ve_compact_pointers e @ [(level, key)]\<rparr>"

definition VE_AddFileMeta :: "VersionEdit \<Rightarrow> int \<Rightarrow> FileMetaData \<Rightarrow> VersionEdit" where
  "VE_AddFileMeta e level file = e\<lparr>ve_new_files := ve_new_files e @ [(level, file)]\<rparr>"

definition VE_AddFile :: "VersionEdit \<Rightarrow> int \<Rightarrow> u64 \<Rightarrow> u64 \<Rightarrow> InternalKey \<Rightarrow> InternalKey \<Rightarrow> VersionEdit" where
  "VE_AddFile e level file_number file_size smallest largest =
     VE_AddFileMeta e level (FileMetaData_new\<lparr>fm_number := file_number, fm_file_size := file_size,
       fm_smallest := smallest, fm_largest := largest\<rparr>)"

definition VE_RemoveFile :: "VersionEdit \<Rightarrow> int \<Rightarrow> u64 \<Rightarrow> VersionEdit" where
  "VE_RemoveFile e level file_number = e\<lparr>ve_deleted_files := insort_insert (level, file_number) (ve_deleted_files e)\<rparr>"

section \<open>Encoding\<close>

definition kComparator :: u32 where "kComparator = 1"
definition kLogNumber :: u32 where "kLogNumber = 2"
definition kNextFileNumber :: u32 where "kNextFileNumber = 3"
definition kLastSequence :: u32 where "kLastSequence = 4"
definition kCompactPointer :: u32 where "kCompactPointer = 5"
definition kDeletedFile :: u32 where "kDeletedFile = 6"
definition kNewFile :: u32 where "kNewFile = 7"

lemmas tag_defs = kComparator_def kLogNumber_def kNextFileNumber_def kLastSequence_def kCompactPointer_def
  kDeletedFile_def kNewFile_def

definition VE_EncodeTo :: "VersionEdit \<Rightarrow> bytes \<Rightarrow> bytes" where
  "VE_EncodeTo e dst =
     (let dst = (if ve_has_comparator e then PutLengthPrefixedSlice (PutVarint32 dst kComparator) (ve_comparator e) else dst);
          dst = (if ve_has_log_number e then PutVarint64 (PutVarint32 dst kLogNumber) (ve_log_number e) else dst);
          dst = (if ve_has_next_file_number e then PutVarint64 (PutVarint32 dst kNextFileNumber) (ve_next_file_number e) else dst);
          dst = (if ve_has_last_sequence e then PutVarint64 (PutVarint32 dst kLastSequence) (ve_last_sequence e) else dst);
          dst = foldl (\<lambda>dst (level, key).
                  PutLengthPrefixedSlice (PutVarint32 (PutVarint32 dst kCompactPointer) (of_int level)) (InternalKey_Encode key))
                  dst (ve_compact_pointers e);
          dst = foldl (\<lambda>dst (level, number). PutVarint64 (PutVarint32 (PutVarint32 dst kDeletedFile) (of_int level)) number)
                  dst (ve_deleted_files e)
      in foldl (\<lambda>dst (level, file).
             let dst = PutVarint32 (PutVarint32 dst kNewFile) (of_int level);
                 dst = PutVarint64 (PutVarint64 dst (fm_number file)) (fm_file_size file)
             in PutLengthPrefixedSlice (PutLengthPrefixedSlice dst (InternalKey_Encode (fm_smallest file))) (InternalKey_Encode (fm_largest file)))
           dst (ve_new_files e))"

section \<open>Decoding\<close>

definition GetLevel :: "bytes \<Rightarrow> (int \<times> bytes) option" where
  "GetLevel input =
     (case GetVarint32 input of
        None \<Rightarrow> None
      | Some (value, input) \<Rightarrow> if value \<ge> of_int kNumLevels then None else Some (uint value, input))"

definition GetInternalKey :: "bytes \<Rightarrow> (InternalKey \<times> bytes) option" where
  "GetInternalKey input =
     (case GetLengthPrefixedSlice input of
        None \<Rightarrow> None
      | Some (encoded, input) \<Rightarrow>
          (case ParseInternalKey encoded of
             None \<Rightarrow> None
           | Some parsed \<Rightarrow> (case InternalKey_DecodeFrom encoded of (key, decoded) \<Rightarrow> if decoded then Some (key, input) else None)))"

definition InvalidVersionEdit :: "bytes \<Rightarrow> Status" where
  "InvalidVersionEdit message = Corruption (lit ''VersionEdit'') message"

definition or_invalid :: "bytes \<Rightarrow> 'a option \<Rightarrow> Status + 'a" where
  "or_invalid message r = (case r of None \<Rightarrow> Inl (InvalidVersionEdit message) | Some x \<Rightarrow> Inr x)"

text \<open>One round of the loop: the tag and the field behind it.\<close>

definition DecodeField :: "VersionEdit \<Rightarrow> bytes \<Rightarrow> Status + VersionEdit \<times> bytes" where
  "DecodeField e input =
     (case GetVarint32 input of
        None \<Rightarrow> Inl (InvalidVersionEdit (lit ''missing tag''))
      | Some (tag, input) \<Rightarrow>
          if tag = kComparator then
            or_invalid (lit ''bad comparator'') (do { (name, input) \<leftarrow> GetLengthPrefixedSlice input; Some (SetComparatorName e name, input) })
          else if tag = kLogNumber then
            or_invalid (lit ''bad log number'') (do { (number, input) \<leftarrow> GetVarint64 input; Some (SetLogNumber e number, input) })
          else if tag = kNextFileNumber then
            or_invalid (lit ''bad next file number'') (do { (number, input) \<leftarrow> GetVarint64 input; Some (SetNextFile e number, input) })
          else if tag = kLastSequence then
            or_invalid (lit ''bad last sequence'') (do { (sequence, input) \<leftarrow> GetVarint64 input; Some (SetLastSequence e sequence, input) })
          else if tag = kCompactPointer then
            or_invalid (lit ''bad compact pointer'') (do { (level, input) \<leftarrow> GetLevel input; (key, input) \<leftarrow> GetInternalKey input;
              Some (SetCompactPointer e level key, input) })
          else if tag = kDeletedFile then
            or_invalid (lit ''bad deleted file'') (do { (level, input) \<leftarrow> GetLevel input; (file_number, input) \<leftarrow> GetVarint64 input;
              Some (VE_RemoveFile e level file_number, input) })
          else if tag = kNewFile then
            or_invalid (lit ''bad new file'') (do { (level, input) \<leftarrow> GetLevel input; (file_number, input) \<leftarrow> GetVarint64 input;
              (file_size, input) \<leftarrow> GetVarint64 input; (smallest, input) \<leftarrow> GetInternalKey input; (largest, input) \<leftarrow> GetInternalKey input;
              Some (VE_AddFile e level file_number file_size smallest largest, input) })
          else Inl (InvalidVersionEdit (lit ''unknown tag'')))"

lemma GetLevel_shorter: "GetLevel p = Some (v, rest) \<Longrightarrow> length rest < length p"
  by (auto simp: GetLevel_def dest: GetVarint32_shorter split: option.splits if_splits)

lemma GetInternalKey_shorter: "GetInternalKey p = Some (v, rest) \<Longrightarrow> length rest < length p"
  by (auto simp: GetInternalKey_def dest: GetLengthPrefixedSlice_shorter split: option.splits prod.splits if_splits)

lemmas get_shorter = GetVarint32_shorter GetVarint64_shorter GetLengthPrefixedSlice_shorter GetLevel_shorter GetInternalKey_shorter

lemma or_invalid_Inr: "or_invalid m r = Inr x \<longleftrightarrow> r = Some x"
  by (simp add: or_invalid_def split: option.splits)

lemma DecodeField_shorter: "DecodeField e input = Inr (e', input') \<Longrightarrow> length input' < length input"
  unfolding DecodeField_def
  by (auto simp: or_invalid_Inr bind_eq_Some_conv split: option.splits if_splits dest!: get_shorter)

function DecodeLoop :: "VersionEdit \<Rightarrow> bytes \<Rightarrow> Status \<times> VersionEdit" where
  "DecodeLoop e input =
     (if input = [] then (OK, e)
      else case DecodeField e input of
             Inl s \<Rightarrow> (s, e)
           | Inr r \<Rightarrow> DecodeLoop (fst r) (snd r))"
  by pat_completeness auto
termination
  by (relation "measure (\<lambda>(e, input). length input)") (auto dest: DecodeField_shorter)

declare DecodeLoop.simps [simp del]

definition VE_DecodeFrom :: "bytes \<Rightarrow> Status \<times> VersionEdit" where
  "VE_DecodeFrom src = DecodeLoop VE_Clear src"

section \<open>The round trip\<close>

text \<open>An edit as the fields it writes, each with its bytes and its effect.\<close>

datatype edit_field = Comparator bytes | LogNumber u64 | NextFile u64 | LastSequence u64
  | CompactPointer int InternalKey | DeletedFile int u64 | NewFile int FileMetaData

fun field_bytes :: "edit_field \<Rightarrow> bytes" where
  "field_bytes (Comparator name) = EncodeVarint32 kComparator @ PutLengthPrefixedSlice [] name"
| "field_bytes (LogNumber n) = EncodeVarint32 kLogNumber @ EncodeVarint64 n"
| "field_bytes (NextFile n) = EncodeVarint32 kNextFileNumber @ EncodeVarint64 n"
| "field_bytes (LastSequence n) = EncodeVarint32 kLastSequence @ EncodeVarint64 n"
| "field_bytes (CompactPointer level key) = EncodeVarint32 kCompactPointer @ EncodeVarint32 (of_int level) @ PutLengthPrefixedSlice [] key"
| "field_bytes (DeletedFile level n) = EncodeVarint32 kDeletedFile @ EncodeVarint32 (of_int level) @ EncodeVarint64 n"
| "field_bytes (NewFile level f) = EncodeVarint32 kNewFile @ EncodeVarint32 (of_int level) @ EncodeVarint64 (fm_number f)
     @ EncodeVarint64 (fm_file_size f) @ PutLengthPrefixedSlice [] (fm_smallest f) @ PutLengthPrefixedSlice [] (fm_largest f)"

fun apply_field :: "edit_field \<Rightarrow> VersionEdit \<Rightarrow> VersionEdit" where
  "apply_field (Comparator name) e = SetComparatorName e name"
| "apply_field (LogNumber n) e = SetLogNumber e n"
| "apply_field (NextFile n) e = SetNextFile e n"
| "apply_field (LastSequence n) e = SetLastSequence e n"
| "apply_field (CompactPointer level key) e = SetCompactPointer e level key"
| "apply_field (DeletedFile level n) e = VE_RemoveFile e level n"
| "apply_field (NewFile level f) e = VE_AddFile e level (fm_number f) (fm_file_size f) (fm_smallest f) (fm_largest f)"

definition key_ok :: "InternalKey \<Rightarrow> bool" where
  "key_ok key \<longleftrightarrow> ParseInternalKey key \<noteq> None \<and> length key < 2 ^ 32"

definition level_ok :: "int \<Rightarrow> bool" where
  "level_ok level \<longleftrightarrow> 0 \<le> level \<and> level < kNumLevels"

fun field_ok :: "edit_field \<Rightarrow> bool" where
  "field_ok (Comparator name) = (length name < 2 ^ 32)"
| "field_ok (CompactPointer level key) = (level_ok level \<and> key_ok key)"
| "field_ok (DeletedFile level n) = level_ok level"
| "field_ok (NewFile level f) = (level_ok level \<and> key_ok (fm_smallest f) \<and> key_ok (fm_largest f))"
| "field_ok _ = True"

lemma level_word: "level_ok level \<Longrightarrow> uint (of_int level :: u32) = level \<and> (of_int level :: u32) < of_int kNumLevels"
proof -
  assume "level_ok level"
  then have "level = 0 \<or> level = 1 \<or> level = 2 \<or> level = 3 \<or> level = 4 \<or> level = 5 \<or> level = 6"
    by (auto simp: level_ok_def kNumLevels_def)
  then show ?thesis by (auto simp: kNumLevels_def)
qed

lemma GetLevel_put: "level_ok level \<Longrightarrow> GetLevel (EncodeVarint32 (of_int level) @ rest) = Some (level, rest)"
  using level_word [of level] by (simp add: GetLevel_def not_le)

lemma GetInternalKey_put: "key_ok key \<Longrightarrow> GetInternalKey (PutLengthPrefixedSlice [] key @ rest) = Some (key, rest)"
  by (auto simp: GetInternalKey_def key_ok_def GetLengthPrefixedSlice_Put InternalKey_DecodeFrom_def ParseInternalKey_def
      split: option.splits)

lemma DecodeField_put: "field_ok f \<Longrightarrow> DecodeField e (field_bytes f @ rest) = Inr (apply_field f e, rest)"
  by (cases f) (simp_all add: DecodeField_def tag_defs or_invalid_Inr GetLengthPrefixedSlice_Put GetLevel_put GetInternalKey_put)

lemma field_bytes_nonempty: "field_bytes f \<noteq> []"
  by (cases f) (simp_all add: EncodeVarint32.simps [of kComparator] EncodeVarint32.simps [of kLogNumber]
      EncodeVarint32.simps [of kNextFileNumber] EncodeVarint32.simps [of kLastSequence] EncodeVarint32.simps [of kCompactPointer]
      EncodeVarint32.simps [of kDeletedFile] EncodeVarint32.simps [of kNewFile])

lemma DecodeLoop_fields:
  "\<forall>f \<in> set fs. field_ok f \<Longrightarrow> DecodeLoop e (concat (map field_bytes fs)) = (OK, fold apply_field fs e)"
proof (induction fs arbitrary: e)
  case (Cons f fs)
  then show ?case
    using DecodeField_put [of f e "concat (map field_bytes fs)"] field_bytes_nonempty [of f]
    by (subst DecodeLoop.simps) simp
qed (simp add: DecodeLoop.simps)

definition edit_fields :: "VersionEdit \<Rightarrow> edit_field list" where
  "edit_fields e = (if ve_has_comparator e then [Comparator (ve_comparator e)] else [])
     @ (if ve_has_log_number e then [LogNumber (ve_log_number e)] else [])
     @ (if ve_has_next_file_number e then [NextFile (ve_next_file_number e)] else [])
     @ (if ve_has_last_sequence e then [LastSequence (ve_last_sequence e)] else [])
     @ map (\<lambda>(l, k). CompactPointer l k) (ve_compact_pointers e)
     @ map (\<lambda>(l, n). DeletedFile l n) (ve_deleted_files e)
     @ map (\<lambda>(l, f). NewFile l f) (ve_new_files e)"

lemma foldl_bytes: "(\<And>d x. g d x = d @ h x) \<Longrightarrow> foldl g d xs = d @ concat (map h xs)"
  by (induction xs arbitrary: d) auto

lemma EncodeTo_fields: "VE_EncodeTo e dst = dst @ concat (map field_bytes (edit_fields e))"
proof -
  have cp: "foldl (\<lambda>dst (level, key).
      PutLengthPrefixedSlice (PutVarint32 (PutVarint32 dst kCompactPointer) (of_int level)) (InternalKey_Encode key)) d xs
      = d @ concat (map (field_bytes \<circ> (\<lambda>(l, k). CompactPointer l k)) xs)" for d xs
    by (rule foldl_bytes)
      (simp add: PutVarint32_def InternalKey_Encode_def PutLengthPrefixedSlice_append [of "_ @ _"] split: prod.splits)
  have df: "foldl (\<lambda>dst (level, number). PutVarint64 (PutVarint32 (PutVarint32 dst kDeletedFile) (of_int level)) number) d xs
      = d @ concat (map (field_bytes \<circ> (\<lambda>(l, n). DeletedFile l n)) xs)" for d xs
    by (rule foldl_bytes) (simp add: PutVarint32_def PutVarint64_def split: prod.splits)
  have nf: "foldl (\<lambda>dst (level, file).
             let dst = PutVarint32 (PutVarint32 dst kNewFile) (of_int level);
                 dst = PutVarint64 (PutVarint64 dst (fm_number file)) (fm_file_size file)
             in PutLengthPrefixedSlice (PutLengthPrefixedSlice dst (InternalKey_Encode (fm_smallest file))) (InternalKey_Encode (fm_largest file))) d xs
      = d @ concat (map (field_bytes \<circ> (\<lambda>(l, f). NewFile l f)) xs)" for d xs
    by (rule foldl_bytes)
      (simp add: PutVarint32_def PutVarint64_def InternalKey_Encode_def Let_def PutLengthPrefixedSlice_append [of "_ @ _"] split: prod.splits)
  show ?thesis
    unfolding VE_EncodeTo_def Let_def cp df nf [unfolded Let_def] edit_fields_def
    by (simp add: PutVarint32_def PutVarint64_def PutLengthPrefixedSlice_append [of "_ @ _"])
qed

text \<open>What the setters and the decoder produce: unset numbers are zero and levels and keys are well-formed.\<close>

definition edit_ok :: "VersionEdit \<Rightarrow> bool" where
  "edit_ok e \<longleftrightarrow> (\<forall>f \<in> set (edit_fields e). field_ok f) \<and> sorted (ve_deleted_files e) \<and> distinct (ve_deleted_files e)
     \<and> (\<forall>(l, f) \<in> set (ve_new_files e). fm_allowed_seeks f = 2 ^ 30)
     \<and> (\<not> ve_has_comparator e \<longrightarrow> ve_comparator e = []) \<and> (\<not> ve_has_log_number e \<longrightarrow> ve_log_number e = 0)
     \<and> (\<not> ve_has_next_file_number e \<longrightarrow> ve_next_file_number e = 0) \<and> (\<not> ve_has_last_sequence e \<longrightarrow> ve_last_sequence e = 0)"

lemma insort_insert_last: "sorted (xs @ [x]) \<Longrightarrow> distinct (xs @ [x]) \<Longrightarrow> insort_insert x xs = xs @ [x]"
  for x :: "'a::linorder"
proof -
  assume s: "sorted (xs @ [x])" and d: "distinct (xs @ [x])"
  have "\<forall>y \<in> set xs. y < x" using s d by (auto simp: sorted_append order_less_le)
  then have "insort x xs = xs @ [x]" by (induction xs) auto
  with d show ?thesis by (simp add: insort_insert_key_def)
qed

lemma fold_deleted:
  "sorted (ds @ xs) \<Longrightarrow> distinct (ds @ xs) \<Longrightarrow> ve_deleted_files e = ds \<Longrightarrow>
     fold apply_field (map (\<lambda>(l, n). DeletedFile l n) xs) e = e\<lparr>ve_deleted_files := ds @ xs\<rparr>"
proof (induction xs arbitrary: ds e)
  case (Cons x xs)
  obtain l n where x: "x = (l, n)" by (cases x)
  have "insort_insert x ds = ds @ [x]"
    by (rule insort_insert_last) (use Cons.prems(1,2) in \<open>auto simp: sorted_append\<close>)
  moreover have "fold apply_field (map (\<lambda>(l, n). DeletedFile l n) xs) (VE_RemoveFile e l n)
      = (VE_RemoveFile e l n)\<lparr>ve_deleted_files := (ds @ [x]) @ xs\<rparr>"
    by (rule Cons.IH) (use Cons.prems calculation in \<open>simp_all add: VE_RemoveFile_def x\<close>)
  ultimately show ?case by (simp add: x VE_RemoveFile_def)
qed simp

lemma fold_compact:
  "fold apply_field (map (\<lambda>(l, k). CompactPointer l k) xs) e = e\<lparr>ve_compact_pointers := ve_compact_pointers e @ xs\<rparr>"
  by (induction xs arbitrary: e) (auto simp: SetCompactPointer_def)

lemma fold_new:
  "\<forall>(l, f) \<in> set xs. fm_allowed_seeks f = 2 ^ 30 \<Longrightarrow>
     fold apply_field (map (\<lambda>(l, f). NewFile l f) xs) e = e\<lparr>ve_new_files := ve_new_files e @ xs\<rparr>"
  by (induction xs arbitrary: e) (auto simp: VE_AddFile_def VE_AddFileMeta_def FileMetaData_new_def)

lemma fold_edit_fields: "edit_ok e \<Longrightarrow> fold apply_field (edit_fields e) VE_Clear = e"
proof -
  assume ok: "edit_ok e"
  let ?e = "VE_Clear\<lparr>ve_has_comparator := ve_has_comparator e, ve_comparator := ve_comparator e,
      ve_has_log_number := ve_has_log_number e, ve_log_number := ve_log_number e,
      ve_has_next_file_number := ve_has_next_file_number e, ve_next_file_number := ve_next_file_number e,
      ve_has_last_sequence := ve_has_last_sequence e, ve_last_sequence := ve_last_sequence e,
      ve_compact_pointers := ve_compact_pointers e\<rparr>"
  have "fold apply_field (edit_fields e) VE_Clear =
      fold apply_field (map (\<lambda>(l, f). NewFile l f) (ve_new_files e))
        (fold apply_field (map (\<lambda>(l, n). DeletedFile l n) (ve_deleted_files e)) ?e)"
    using ok by (simp add: edit_fields_def edit_ok_def fold_compact SetComparatorName_def SetLogNumber_def SetNextFile_def
        SetLastSequence_def VE_Clear_def)
  also have "\<dots> = ?e\<lparr>ve_deleted_files := ve_deleted_files e\<rparr>\<lparr>ve_new_files := ve_new_files e\<rparr>"
    using ok fold_deleted [of "[]" "ve_deleted_files e" ?e] by (simp add: edit_ok_def fold_new VE_Clear_def)
  also have "\<dots> = e" by (simp add: VE_Clear_def)
  finally show ?thesis .
qed

lemma Decode_Encode: "edit_ok e \<Longrightarrow> VE_DecodeFrom (VE_EncodeTo e []) = (OK, e)"
  using DecodeLoop_fields [of "edit_fields e" VE_Clear] fold_edit_fields [of e]
  by (simp add: VE_DecodeFrom_def EncodeTo_fields edit_ok_def)

section \<open>Every input is decoded or rejected\<close>

lemma GetLengthPrefixedSlice_bound: "GetLengthPrefixedSlice p = Some (v, rest) \<Longrightarrow> length v < 2 ^ 32"
proof -
  assume "GetLengthPrefixedSlice p = Some (v, rest)"
  then obtain len where "length v = unat (len :: u32)"
    by (auto simp: GetLengthPrefixedSlice_def split: option.splits if_splits)
  with unsigned_less [of len, where ?'a = nat] show ?thesis by simp
qed

lemma GetLevel_bound: "GetLevel p = Some (level, rest) \<Longrightarrow> level_ok level"
proof -
  assume "GetLevel p = Some (level, rest)"
  then obtain v :: u32 where "\<not> of_int kNumLevels \<le> v" "level = uint v"
    by (auto simp: GetLevel_def split: option.splits if_splits)
  then show ?thesis by (simp add: level_ok_def kNumLevels_def word_le_def)
qed

lemma GetInternalKey_bound: "GetInternalKey p = Some (key, rest) \<Longrightarrow> key_ok key"
  by (auto simp: GetInternalKey_def InternalKey_DecodeFrom_def key_ok_def dest: GetLengthPrefixedSlice_bound
      split: option.splits if_splits)

lemma DecodeField_applies:
  assumes "DecodeField e input = Inr (e', input')"
  shows "\<exists>f. field_ok f \<and> e' = apply_field f e"
proof -
  consider name rest where "GetLengthPrefixedSlice rest = Some (name, input')" "e' = SetComparatorName e name"
    | n where "e' = SetLogNumber e n" | n where "e' = SetNextFile e n" | n where "e' = SetLastSequence e n"
    | l k a b where "GetLevel a = Some (l, b)" "GetInternalKey b = Some (k, input')" "e' = SetCompactPointer e l k"
    | l n a b where "GetLevel a = Some (l, b)" "e' = VE_RemoveFile e l n"
    | l n sz s t a b d d' where "GetLevel a = Some (l, b)" "GetInternalKey d = Some (s, d')" "GetInternalKey d' = Some (t, input')"
        "e' = VE_AddFile e l n sz s t"
    using assms unfolding DecodeField_def
    by (auto simp: or_invalid_Inr bind_eq_Some_conv split: option.splits if_splits)
  then show ?thesis
  proof cases
    case (1 name rest)
    with GetLengthPrefixedSlice_bound [OF 1(1)] show ?thesis by (intro exI [of _ "Comparator name"]) simp
  next
    case (2 n) then show ?thesis by (intro exI [of _ "LogNumber n"]) simp
  next
    case (3 n) then show ?thesis by (intro exI [of _ "NextFile n"]) simp
  next
    case (4 n) then show ?thesis by (intro exI [of _ "LastSequence n"]) simp
  next
    case (5 l k a b) then show ?thesis by (intro exI [of _ "CompactPointer l k"]) (simp add: GetLevel_bound GetInternalKey_bound)
  next
    case (6 l n a b) then show ?thesis by (intro exI [of _ "DeletedFile l n"]) (simp add: GetLevel_bound)
  next
    case (7 l n sz s t a b d d')
    then show ?thesis
      by (intro exI [of _ "NewFile l (FileMetaData_new\<lparr>fm_number := n, fm_file_size := sz, fm_smallest := s, fm_largest := t\<rparr>)"])
        (simp add: GetLevel_bound GetInternalKey_bound)
  qed
qed

lemma edit_ok_apply:
  assumes "edit_ok e" "field_ok f"
  shows "edit_ok (apply_field f e)"
proof (cases f)
  case (DeletedFile l n)
  have "set (insort_insert (l, n) xs) = insert (l, n) (set xs)" for xs by (rule set_insort_insert)
  with assms DeletedFile show ?thesis
    by (auto simp: edit_ok_def edit_fields_def VE_RemoveFile_def sorted_insort_insert distinct_insort_insert)
qed (use assms in \<open>auto simp: edit_ok_def edit_fields_def SetComparatorName_def SetLogNumber_def SetNextFile_def
    SetLastSequence_def SetCompactPointer_def VE_AddFile_def VE_AddFileMeta_def FileMetaData_new_def\<close>)

lemma DecodeField_error: "DecodeField e input = Inl s \<Longrightarrow> \<exists>msg. s = Corruption (lit ''VersionEdit'') msg"
  unfolding DecodeField_def
  by (auto simp: or_invalid_def InvalidVersionEdit_def split: option.splits if_splits)

lemma DecodeLoop_total:
  "edit_ok e \<Longrightarrow> edit_ok (snd (DecodeLoop e input)) \<and>
     (fst (DecodeLoop e input) = OK \<or> (\<exists>msg. fst (DecodeLoop e input) = Corruption (lit ''VersionEdit'') msg))"
proof (induction e input rule: DecodeLoop.induct)
  case (1 e input)
  show ?case
  proof (cases "input = []")
    case False
    show ?thesis
    proof (cases "DecodeField e input")
      case (Inl s)
      with False 1 DecodeField_error [OF Inl] show ?thesis by (simp add: DecodeLoop.simps [of e])
    next
      case (Inr r)
      obtain e' input' where r: "r = (e', input')" by (cases r)
      have "edit_ok e'" using DecodeField_applies [of e input e' input'] Inr r edit_ok_apply [OF 1(2)] by auto
      with 1(1) [OF False Inr] False Inr r show ?thesis by (simp add: DecodeLoop.simps [of e input])
    qed
  qed (use 1 in \<open>simp add: DecodeLoop.simps [of e]\<close>)
qed

lemma Decode_total:
  "edit_ok (snd (VE_DecodeFrom src)) \<and>
     (fst (VE_DecodeFrom src) = OK \<or> (\<exists>msg. fst (VE_DecodeFrom src) = Corruption (lit ''VersionEdit'') msg))"
  unfolding VE_DecodeFrom_def by (rule DecodeLoop_total) (simp add: edit_ok_def edit_fields_def VE_Clear_def)

end
