(* ===== verification/Versions.thy ===== *)
theory Versions
  imports Complex_Main VersionEdits TableBuilders
begin

text \<open>
  Versions (the first half of db/version_set.cc): the table files of the database by level, the
  search for the files of a key, the overlap of key ranges, and the plan of one compaction. A file
  is the value of its metadata, without the reference count. \<open>c\<close> is the user comparator; internal
  keys are compared with \<open>InternalKey_Compare c\<close>.
\<close>

section \<open>Helpers\<close>

datatype SaverState = kNotFoundState | kFoundState | kDeletedState | kCorruptState

record Saver =
  sv_state :: SaverState
  sv_user_key :: bytes
  sv_value :: bytes

definition SaveValue :: "comparator \<Rightarrow> bytes \<Rightarrow> bytes \<Rightarrow> Saver \<Rightarrow> Saver" where
  "SaveValue c internal_key v saver =
     (case ParseInternalKey internal_key of
        None \<Rightarrow> saver\<lparr>sv_state := kCorruptState\<rparr>
      | Some parsed_key \<Rightarrow>
          if Compare c (pk_user_key parsed_key) (sv_user_key saver) \<noteq> 0 then saver
          else (case pk_type parsed_key of
                  kTypeValue \<Rightarrow> saver\<lparr>sv_state := kFoundState, sv_value := v\<rparr>
                | kTypeDeletion \<Rightarrow> saver\<lparr>sv_state := kDeletedState\<rparr>))"

definition kL0CompactionTrigger :: int where
  "kL0CompactionTrigger = 4"

text \<open>Sizes are added as mathematical integers; the total of a level is far below \<open>2 ^ 63\<close>.\<close>

definition TotalFileSize :: "FileMetaData list \<Rightarrow> int" where
  "TotalFileSize files = foldl (\<lambda>total file. total + sint (fm_file_size file)) 0 files"

text \<open>The thresholds are whole numbers that a double holds exactly; scores are their exact quotients.\<close>

fun MaxBytesLoop :: "nat \<Rightarrow> rat \<Rightarrow> rat" where
  "MaxBytesLoop 0 r = r"
| "MaxBytesLoop (Suc n) r = MaxBytesLoop n (r * 10)"

definition MaxBytesForLevel :: "int \<Rightarrow> rat" where
  "MaxBytesForLevel level = MaxBytesLoop (nat (level - 1)) (10 * 1048576)"

definition ExpandedCompactionByteSizeLimit :: "Options \<Rightarrow> int" where
  "ExpandedCompactionByteSizeLimit options = 25 * int (op_max_file_size options)"

definition MaxGrandParentOverlapBytes :: "Options \<Rightarrow> int" where
  "MaxGrandParentOverlapBytes options = 10 * int (op_max_file_size options)"

definition MaxFileSizeForLevel :: "Options \<Rightarrow> int \<Rightarrow> u64" where
  "MaxFileSizeForLevel options level = of_nat (op_max_file_size options)"

definition FindLargestKey :: "comparator \<Rightarrow> FileMetaData list \<Rightarrow> InternalKey option" where
  "FindLargestKey c files =
     (case files of
        [] \<Rightarrow> None
      | file # rest \<Rightarrow> Some (foldl (\<lambda>largest_key file.
           if InternalKey_Compare c (fm_largest file) largest_key > 0 then fm_largest file else largest_key) (fm_largest file) rest))"

definition FindSmallestBoundaryFile :: "comparator \<Rightarrow> FileMetaData list \<Rightarrow> InternalKey \<Rightarrow> FileMetaData option" where
  "FindSmallestBoundaryFile c level_files largest_key =
     foldl (\<lambda>best file.
        if InternalKey_Compare c (fm_smallest file) largest_key > 0
           \<and> Compare c (InternalKey_user_key (fm_smallest file)) (InternalKey_user_key largest_key) = 0
        then (case best of
                None \<Rightarrow> Some file
              | Some b \<Rightarrow> if InternalKey_Compare c (fm_smallest file) (fm_smallest b) < 0 then Some file else best)
        else best) None level_files"

partial_function (option) AddBoundaryLoop ::
    "comparator \<Rightarrow> FileMetaData list \<Rightarrow> InternalKey \<Rightarrow> FileMetaData list \<Rightarrow> FileMetaData list option" where
  "AddBoundaryLoop c level_files largest_key files =
     (case FindSmallestBoundaryFile c level_files largest_key of
        None \<Rightarrow> Some files
      | Some boundary_file \<Rightarrow> AddBoundaryLoop c level_files (fm_largest boundary_file) (files @ [boundary_file]))"

definition AddBoundaryInputs :: "comparator \<Rightarrow> FileMetaData list \<Rightarrow> FileMetaData list \<Rightarrow> FileMetaData list option" where
  "AddBoundaryInputs c level_files compaction_files =
     (case FindLargestKey c compaction_files of
        None \<Rightarrow> Some compaction_files
      | Some largest_key \<Rightarrow> AddBoundaryLoop c level_files largest_key compaction_files)"

section \<open>Version\<close>

text \<open>
  \<open>files_\<close> is an array over the levels 0 to 6. The members that link the list of versions and count
  references are in the version set.
\<close>

record Version =
  v_files :: "int \<Rightarrow> FileMetaData list"
  v_file_to_compact :: "FileMetaData option"
  v_file_to_compact_level :: int
  v_compaction_score :: rat
  v_compaction_level :: int

definition Version_new :: Version where
  "Version_new = \<lparr>v_files = (\<lambda>_. []), v_file_to_compact = None, v_file_to_compact_level = -1,
     v_compaction_score = 0, v_compaction_level = -1\<rparr>"

definition NumFiles :: "Version \<Rightarrow> int \<Rightarrow> nat" where
  "NumFiles v level = length (v_files v level)"

definition Version_RemoveFile :: "Version \<Rightarrow> int \<Rightarrow> u64 \<Rightarrow> Version" where
  "Version_RemoveFile v level file_number =
     v\<lparr>v_files := (v_files v)(level := filter (\<lambda>file. fm_number file \<noteq> file_number) (v_files v level))\<rparr>"

definition Version_AddFile :: "Version \<Rightarrow> int \<Rightarrow> FileMetaData \<Rightarrow> Version" where
  "Version_AddFile v level file =
     (let v = Version_RemoveFile v level (fm_number file)
      in v\<lparr>v_files := (v_files v)(level := v_files v level @ [file])\<rparr>)"

text \<open>\<open>std::sort\<close> by the smallest key; files with equal smallest keys stay in their order.\<close>

fun insert_file :: "comparator \<Rightarrow> FileMetaData \<Rightarrow> FileMetaData list \<Rightarrow> FileMetaData list" where
  "insert_file c file [] = [file]"
| "insert_file c file (f # fs) =
     (if InternalKey_Compare c (fm_smallest f) (fm_smallest file) < 0 then f # insert_file c file fs else file # f # fs)"

definition sort_files :: "comparator \<Rightarrow> FileMetaData list \<Rightarrow> FileMetaData list" where
  "sort_files c files = foldr (insert_file c) files []"

definition levels :: "int list" where
  "levels = [0..kNumLevels - 1]"

definition SortFiles :: "comparator \<Rightarrow> Version \<Rightarrow> Version" where
  "SortFiles c v = v\<lparr>v_files := (\<lambda>level. if level \<in> set levels then sort_files c (v_files v level) else v_files v level)\<rparr>"

definition before_begin :: "comparator \<Rightarrow> bytes option \<Rightarrow> bytes \<Rightarrow> bool" where
  "before_begin c user_begin key = (case user_begin of None \<Rightarrow> False | Some b \<Rightarrow> Compare c key b < 0)"

definition after_end :: "comparator \<Rightarrow> bytes option \<Rightarrow> bytes \<Rightarrow> bool" where
  "after_end c user_end key = (case user_end of None \<Rightarrow> False | Some e \<Rightarrow> Compare c key e > 0)"

text \<open>The loop; at level 0 a file that sticks out of the range widens it and restarts the search.\<close>

partial_function (option) OverlapLoop ::
    "comparator \<Rightarrow> bool \<Rightarrow> FileMetaData list \<Rightarrow> nat \<Rightarrow> bytes option \<Rightarrow> bytes option \<Rightarrow> FileMetaData list \<Rightarrow> FileMetaData list option" where
  "OverlapLoop c level0 files index user_begin user_end inputs =
     (if index < length files
      then let file = files ! index;
               file_start = InternalKey_user_key (fm_smallest file);
               file_limit = InternalKey_user_key (fm_largest file)
           in if before_begin c user_begin file_limit \<or> after_end c user_end file_start
              then OverlapLoop c level0 files (Suc index) user_begin user_end inputs
              else if level0 \<and> before_begin c user_begin file_start
              then OverlapLoop c level0 files 0 (Some file_start) user_end []
              else if level0 \<and> after_end c user_end file_limit
              then OverlapLoop c level0 files 0 user_begin (Some file_limit) []
              else OverlapLoop c level0 files (Suc index) user_begin user_end (inputs @ [file])
      else Some inputs)"

definition GetOverlappingInputs ::
    "comparator \<Rightarrow> Version \<Rightarrow> int \<Rightarrow> InternalKey option \<Rightarrow> InternalKey option \<Rightarrow> FileMetaData list option" where
  "GetOverlappingInputs c v level begin_key end_key =
     OverlapLoop c (level = 0) (v_files v level) 0 (map_option InternalKey_user_key begin_key) (map_option InternalKey_user_key end_key) []"

function FindFileLoop :: "comparator \<Rightarrow> FileMetaData list \<Rightarrow> bytes \<Rightarrow> nat \<Rightarrow> nat \<Rightarrow> nat" where
  "FindFileLoop c files user_key left right =
     (if left < right
      then let middle = left + (right - left) div 2
           in if Compare c (InternalKey_user_key (fm_largest (files ! middle))) user_key < 0
              then FindFileLoop c files user_key (middle + 1) right
              else FindFileLoop c files user_key left middle
      else left)"
  by pat_completeness auto
termination
  by (relation "measure (\<lambda>(c, files, key, l, r). r - l)") auto

declare FindFileLoop.simps [simp del]

definition FindFileInLevel :: "comparator \<Rightarrow> Version \<Rightarrow> int \<Rightarrow> bytes \<Rightarrow> FileMetaData option" where
  "FindFileInLevel c v level user_key =
     (let files = v_files v level;
          left = FindFileLoop c files user_key 0 (length files)
      in if left \<ge> length files then None
         else let file = files ! left
              in if Compare c user_key (InternalKey_user_key (fm_smallest file)) < 0 then None else Some file)"

definition FileMayContainUserkey :: "comparator \<Rightarrow> FileMetaData \<Rightarrow> bytes \<Rightarrow> bool" where
  "FileMayContainUserkey c file user_key =
     (if Compare c user_key (InternalKey_user_key (fm_smallest file)) < 0 then False
      else if Compare c user_key (InternalKey_user_key (fm_largest file)) > 0 then False
      else True)"

section \<open>Version::Get\<close>

record GetStats =
  gs_seek_file :: "FileMetaData option"
  gs_seek_file_level :: int

text \<open>
  \<open>tget number size key saver w\<close> is \<open>table_cache_->Get\<close> with \<open>SaveValue\<close> on the saver, over the
  state \<open>w\<close> of the table cache. A read keeps the file read last; from the second read on
  the first file is charged for the seek.
\<close>

type_synonym 'w table_get = "u64 \<Rightarrow> u64 \<Rightarrow> bytes \<Rightarrow> Saver \<Rightarrow> 'w \<Rightarrow> (Status \<times> Saver \<times> 'w) option"

definition charge_seek :: "(FileMetaData \<times> int) option \<Rightarrow> GetStats \<Rightarrow> GetStats" where
  "charge_seek last_read stats =
     (case (gs_seek_file stats, last_read) of
        (None, Some (file, level)) \<Rightarrow> \<lparr>gs_seek_file = Some file, gs_seek_file_level = level\<rparr>
      | _ \<Rightarrow> stats)"

text \<open>The two loops of \<open>Get\<close> have the same body; they run here over the files in the order they are read.\<close>

fun GetLoop ::
    "'w table_get \<Rightarrow> LookupKey \<Rightarrow> (FileMetaData \<times> int) list \<Rightarrow> (FileMetaData \<times> int) option \<Rightarrow> GetStats \<Rightarrow> Saver \<Rightarrow> 'w
      \<Rightarrow> (Status \<times> bytes \<times> GetStats \<times> 'w) option" where
  "GetLoop tget key [] last_read stats saver w = Some (NotFound (LookupKey_user_key key) [], sv_value saver, stats, w)"
| "GetLoop tget key ((file, level) # files) last_read stats saver w =
     (let stats = charge_seek last_read stats
      in Option.bind (tget (fm_number file) (fm_file_size file) (LookupKey_internal_key key) (saver\<lparr>sv_state := kNotFoundState\<rparr>) w)
           (\<lambda>(status, saver, w).
             if \<not> ok status then Some (status, sv_value saver, stats, w)
             else case sv_state saver of
                    kFoundState \<Rightarrow> Some (OK, sv_value saver, stats, w)
                  | kDeletedState \<Rightarrow> Some (NotFound (LookupKey_user_key key) [], sv_value saver, stats, w)
                  | kCorruptState \<Rightarrow> Some (Corruption (lit ''corrupted key for'') (LookupKey_user_key key), sv_value saver, stats, w)
                  | kNotFoundState \<Rightarrow> GetLoop tget key files (Some (file, level)) stats saver w))"

definition NewestFileFirst :: "FileMetaData list \<Rightarrow> FileMetaData list" where
  "NewestFileFirst files = sort_key (\<lambda>file. - uint (fm_number file)) files"

definition Get_files :: "comparator \<Rightarrow> Version \<Rightarrow> bytes \<Rightarrow> (FileMetaData \<times> int) list" where
  "Get_files c v user_key =
     map (\<lambda>file. (file, 0)) (NewestFileFirst (filter (\<lambda>file. FileMayContainUserkey c file user_key) (v_files v 0)))
     @ List.map_filter (\<lambda>level. map_option (\<lambda>file. (file, level)) (FindFileInLevel c v level user_key)) [1..kNumLevels - 1]"

definition Version_Get ::
    "comparator \<Rightarrow> 'w table_get option \<Rightarrow> Version \<Rightarrow> LookupKey \<Rightarrow> bytes \<Rightarrow> 'w \<Rightarrow> (Status \<times> bytes \<times> GetStats \<times> 'w) option" where
  "Version_Get c table_cache v key val w =
     (let stats = \<lparr>gs_seek_file = None, gs_seek_file_level = -1\<rparr>
      in case table_cache of
           None \<Rightarrow> Some (NotFound (LookupKey_user_key key) [], val, stats, w)
         | Some tget \<Rightarrow> GetLoop tget key (Get_files c v (LookupKey_user_key key)) None stats
             \<lparr>sv_state = kNotFoundState, sv_user_key = LookupKey_user_key key, sv_value = val\<rparr> w)"

text \<open>\<open>tnew number size w\<close> is \<open>table_cache_->NewIterator\<close>.\<close>

fun NewIterators :: "(u64 \<Rightarrow> u64 \<Rightarrow> 'w \<Rightarrow> ('i \<times> 'w) option) \<Rightarrow> FileMetaData list \<Rightarrow> 'i list \<Rightarrow> 'w \<Rightarrow> ('i list \<times> 'w) option" where
  "NewIterators tnew [] iters w = Some (iters, w)"
| "NewIterators tnew (file # files) iters w =
     Option.bind (tnew (fm_number file) (fm_file_size file) w) (\<lambda>(it, w). NewIterators tnew files (iters @ [it]) w)"

definition AddIterators ::
    "(u64 \<Rightarrow> u64 \<Rightarrow> 'w \<Rightarrow> ('i \<times> 'w) option) option \<Rightarrow> Version \<Rightarrow> 'i list \<Rightarrow> 'w \<Rightarrow> ('i list \<times> 'w) option" where
  "AddIterators table_cache v iters w =
     (case table_cache of
        None \<Rightarrow> Some (iters, w)
      | Some tnew \<Rightarrow> NewIterators tnew (concat (map (v_files v) levels)) iters w)"

text \<open>The file is an object that other versions may share: its new value is returned beside the version.\<close>

definition UpdateStats :: "Version \<Rightarrow> GetStats \<Rightarrow> bool \<times> FileMetaData option \<times> Version" where
  "UpdateStats v stats =
     (case gs_seek_file stats of
        None \<Rightarrow> (False, None, v)
      | Some file \<Rightarrow>
          let file = file\<lparr>fm_allowed_seeks := fm_allowed_seeks file - 1\<rparr>
          in if fm_allowed_seeks file \<le> 0 \<and> v_file_to_compact v = None
             then (True, Some file, v\<lparr>v_file_to_compact := Some file, v_file_to_compact_level := gs_seek_file_level stats\<rparr>)
             else (False, Some file, v))"

definition level_score :: "Version \<Rightarrow> int \<Rightarrow> rat" where
  "level_score v level =
     (if level = 0 then of_nat (length (v_files v 0)) / of_int kL0CompactionTrigger
      else of_int (TotalFileSize (v_files v level)) / MaxBytesForLevel level)"

definition Finalize :: "Version \<Rightarrow> Version" where
  "Finalize v =
     (let (best_level, best_score) = foldl (\<lambda>(best_level, best_score) level.
            let score = level_score v level
            in if score > best_score then (level, score) else (best_level, best_score)) (-1, -1) levels
      in v\<lparr>v_compaction_level := best_level, v_compaction_score := best_score\<rparr>)"

section \<open>Compaction\<close>

text \<open>\<open>cp_inputs which\<close> for \<open>which\<close> 0 and 1.\<close>

record Compaction =
  cp_level :: int
  cp_max_output_file_size :: u64
  cp_input_version :: "Version option"
  cp_edit :: VersionEdit
  cp_inputs0 :: "FileMetaData list"
  cp_inputs1 :: "FileMetaData list"
  cp_grandparents :: "FileMetaData list"
  cp_grandparent_index :: nat
  cp_seen_key :: bool
  cp_overlapped_bytes :: int
  cp_level_ptrs :: "int \<Rightarrow> nat"

definition Compaction_new :: "Options \<Rightarrow> int \<Rightarrow> Compaction" where
  "Compaction_new options level =
     \<lparr>cp_level = level, cp_max_output_file_size = MaxFileSizeForLevel options level, cp_input_version = None, cp_edit = VE_Clear,
      cp_inputs0 = [], cp_inputs1 = [], cp_grandparents = [], cp_grandparent_index = 0, cp_seen_key = False,
      cp_overlapped_bytes = 0, cp_level_ptrs = (\<lambda>_. 0)\<rparr>"

definition IsTrivialMove :: "Options \<Rightarrow> Compaction \<Rightarrow> bool" where
  "IsTrivialMove options cp \<longleftrightarrow>
     length (cp_inputs0 cp) = 1 \<and> length (cp_inputs1 cp) = 0 \<and> TotalFileSize (cp_grandparents cp) \<le> MaxGrandParentOverlapBytes options"

definition AddInputDeletions :: "Compaction \<Rightarrow> VersionEdit \<Rightarrow> VersionEdit" where
  "AddInputDeletions cp edit =
     (let edit = foldl (\<lambda>edit file. VE_RemoveFile edit (cp_level cp) (fm_number file)) edit (cp_inputs0 cp)
      in foldl (\<lambda>edit file. VE_RemoveFile edit (cp_level cp + 1) (fm_number file)) edit (cp_inputs1 cp))"

text \<open>The search in one level, from \<open>level_ptrs_\<close> on: the new pointer and whether the key is in range of a file.\<close>

fun BaseLevelLoop :: "comparator \<Rightarrow> bytes \<Rightarrow> FileMetaData list \<Rightarrow> nat \<Rightarrow> nat \<times> bool" where
  "BaseLevelLoop c user_key [] p = (p, False)"
| "BaseLevelLoop c user_key (file # files) p =
     (if Compare c user_key (InternalKey_user_key (fm_largest file)) \<le> 0
      then (p, Compare c user_key (InternalKey_user_key (fm_smallest file)) \<ge> 0)
      else BaseLevelLoop c user_key files (Suc p))"

fun BaseLevels :: "comparator \<Rightarrow> Version \<Rightarrow> bytes \<Rightarrow> int list \<Rightarrow> (int \<Rightarrow> nat) \<Rightarrow> bool \<times> (int \<Rightarrow> nat)" where
  "BaseLevels c v user_key [] ptrs = (True, ptrs)"
| "BaseLevels c v user_key (level # ls) ptrs =
     (case BaseLevelLoop c user_key (drop (ptrs level) (v_files v level)) (ptrs level) of
        (p, found) \<Rightarrow> if found then (False, ptrs(level := p)) else BaseLevels c v user_key ls (ptrs(level := p)))"

definition IsBaseLevelForKey :: "comparator \<Rightarrow> Compaction \<Rightarrow> bytes \<Rightarrow> bool \<times> Compaction" where
  "IsBaseLevelForKey c cp user_key =
     (case cp_input_version cp of
        None \<Rightarrow> (True, cp)
      | Some v \<Rightarrow> (case BaseLevels c v user_key [cp_level cp + 2..kNumLevels - 1] (cp_level_ptrs cp) of
                     (b, ptrs) \<Rightarrow> (b, cp\<lparr>cp_level_ptrs := ptrs\<rparr>)))"

fun StopBeforeLoop :: "comparator \<Rightarrow> bytes \<Rightarrow> bool \<Rightarrow> FileMetaData list \<Rightarrow> nat \<Rightarrow> int \<Rightarrow> nat \<times> int" where
  "StopBeforeLoop c internal_key seen_key [] index overlapped = (index, overlapped)"
| "StopBeforeLoop c internal_key seen_key (file # files) index overlapped =
     (if InternalKey_Compare c internal_key (InternalKey_Encode (fm_largest file)) > 0
      then StopBeforeLoop c internal_key seen_key files (Suc index)
             (if seen_key then overlapped + sint (fm_file_size file) else overlapped)
      else (index, overlapped))"

definition ShouldStopBefore :: "comparator \<Rightarrow> Options \<Rightarrow> Compaction \<Rightarrow> bytes \<Rightarrow> bool \<times> Compaction" where
  "ShouldStopBefore c options cp internal_key =
     (let (index, overlapped) = StopBeforeLoop c internal_key (cp_seen_key cp)
            (drop (cp_grandparent_index cp) (cp_grandparents cp)) (cp_grandparent_index cp) (cp_overlapped_bytes cp);
          cp = cp\<lparr>cp_grandparent_index := index, cp_overlapped_bytes := overlapped, cp_seen_key := True\<rparr>
      in if cp_overlapped_bytes cp > MaxGrandParentOverlapBytes options
         then (True, cp\<lparr>cp_overlapped_bytes := 0\<rparr>)
         else (False, cp))"

section \<open>Overlapping files\<close>

abbreviation start_of :: "FileMetaData \<Rightarrow> bytes" where
  "start_of file \<equiv> InternalKey_user_key (fm_smallest file)"

abbreviation limit_of :: "FileMetaData \<Rightarrow> bytes" where
  "limit_of file \<equiv> InternalKey_user_key (fm_largest file)"

definition overlaps :: "comparator \<Rightarrow> bytes option \<Rightarrow> bytes option \<Rightarrow> FileMetaData \<Rightarrow> bool" where
  "overlaps c b e file \<longleftrightarrow> \<not> before_begin c b (limit_of file) \<and> \<not> after_end c e (start_of file)"

definition inside :: "comparator \<Rightarrow> bytes option \<Rightarrow> bytes option \<Rightarrow> FileMetaData \<Rightarrow> bool" where
  "inside c b e file \<longleftrightarrow> \<not> before_begin c b (start_of file) \<and> \<not> after_end c e (limit_of file)"

text \<open>How many files stick out of the range on either side.\<close>

definition sticking_out :: "comparator \<Rightarrow> FileMetaData list \<Rightarrow> bytes option \<Rightarrow> bytes option \<Rightarrow> nat" where
  "sticking_out c files b e =
     length (filter (\<lambda>f. before_begin c b (start_of f)) files) + length (filter (\<lambda>f. after_end c e (limit_of f)) files)"

text \<open>The widened range \<open>b'\<close>, \<open>e'\<close> covers the range \<open>b\<close>, \<open>e\<close>.\<close>

definition widens :: "comparator \<Rightarrow> bytes option \<Rightarrow> bytes option \<Rightarrow> bytes option \<Rightarrow> bytes option \<Rightarrow> bool" where
  "widens c b e b' e' \<longleftrightarrow>
     (case (b, b') of (None, None) \<Rightarrow> True | (Some x, Some y) \<Rightarrow> Compare c y x \<le> 0 | _ \<Rightarrow> False) \<and>
     (case (e, e') of (None, None) \<Rightarrow> True | (Some x, Some y) \<Rightarrow> Compare c x y \<le> 0 | _ \<Rightarrow> False)"

lemma OverlapLoop_plain:
  "inputs = filter (overlaps c b e) (take i files) \<Longrightarrow>
     OverlapLoop c False files i b e inputs = Some (filter (overlaps c b e) files)"
proof (induction "length files - i" arbitrary: i inputs)
  case 0
  then show ?case by (subst OverlapLoop.simps) simp
next
  case (Suc n)
  from Suc.hyps(2) have i: "i < length files" by simp
  have "filter (overlaps c b e) (take (Suc i) files) = inputs @ (if overlaps c b e (files ! i) then [files ! i] else [])"
    using Suc.prems by (simp add: take_Suc_conv_app_nth [OF i])
  then have "OverlapLoop c False files (Suc i) b e (inputs @ (if overlaps c b e (files ! i) then [files ! i] else []))
      = Some (filter (overlaps c b e) files)"
    using Suc.hyps(2) by (intro Suc.hyps(1)) simp_all
  moreover have "OverlapLoop c False files i b e inputs =
      OverlapLoop c False files (Suc i) b e (inputs @ (if overlaps c b e (files ! i) then [files ! i] else []))"
    using i by (subst OverlapLoop.simps) (simp add: Let_def overlaps_def)
  ultimately show ?case by simp
qed

context user_comparator
begin

lemma before_begin_refl: "\<not> before_begin c (Some x) x"
  by (simp add: before_begin_def cmp_refl)

lemma filter_shrinks:
  assumes "\<And>x. x \<in> set xs \<Longrightarrow> P x \<Longrightarrow> Q x" "y \<in> set xs" "Q y" "\<not> P y"
  shows "length (filter P xs) < length (filter Q xs)"
  using assms
proof (induction xs)
  case (Cons a xs)
  have le: "length (filter P xs) \<le> length (filter Q xs)"
    using Cons.prems(1) by (induction xs) (auto intro: le_SucI)
  show ?case
  proof (cases "y \<in> set xs")
    case True
    with Cons.IH Cons.prems have "length (filter P xs) < length (filter Q xs)" by auto
    with Cons.prems(1) show ?thesis by auto
  next
    case False
    with Cons.prems le show ?thesis by auto
  qed
qed simp

lemma widens_refl: "widens c b e b e"
  by (simp add: widens_def cmp_refl split: option.splits)

lemma widens_trans: "widens c b e b1 e1 \<Longrightarrow> widens c b1 e1 b2 e2 \<Longrightarrow> widens c b e b2 e2"
  unfolding widens_def by (auto split: option.splits intro: cmp_trans)

lemma widen_begin:
  assumes "before_begin c b s" shows "widens c b e (Some s) e"
    and "f \<in> set files \<Longrightarrow> start_of f = s \<Longrightarrow> sticking_out c files (Some s) e < sticking_out c files b e"
proof -
  obtain x where x: "b = Some x" "Compare c s x < 0" using assms by (auto simp: before_begin_def split: option.splits)
  then show "widens c b e (Some s) e" by (auto simp: widens_def cmp_refl split: option.splits)
  assume f: "f \<in> set files" "start_of f = s"
  have "length (filter (\<lambda>f. before_begin c (Some s) (start_of f)) files) < length (filter (\<lambda>f. before_begin c b (start_of f)) files)"
  proof (rule filter_shrinks [OF _ f(1)])
    fix g assume "before_begin c (Some s) (start_of g)"
    then have "Compare c (start_of g) s < 0" by (simp add: before_begin_def)
    then show "before_begin c b (start_of g)" using x cmp_less_trans [of "start_of g" s x] by (simp add: before_begin_def)
  qed (use assms f before_begin_refl in simp_all)
  then show "sticking_out c files (Some s) e < sticking_out c files b e" by (simp add: sticking_out_def)
qed

lemma widen_end:
  assumes "after_end c e l" shows "widens c b e b (Some l)"
    and "f \<in> set files \<Longrightarrow> limit_of f = l \<Longrightarrow> sticking_out c files b (Some l) < sticking_out c files b e"
proof -
  obtain x where x: "e = Some x" "Compare c l x > 0" using assms by (auto simp: after_end_def split: option.splits)
  then have xl: "Compare c x l < 0" using cmp_anti [of x l] by simp
  then show "widens c b e b (Some l)" using x by (auto simp: widens_def cmp_refl split: option.splits)
  assume f: "f \<in> set files" "limit_of f = l"
  have "length (filter (\<lambda>f. after_end c (Some l) (limit_of f)) files) < length (filter (\<lambda>f. after_end c e (limit_of f)) files)"
  proof (rule filter_shrinks [OF _ f(1)])
    fix g assume "after_end c (Some l) (limit_of g)"
    then have "Compare c l (limit_of g) < 0" using cmp_anti [of l "limit_of g"] by (simp add: after_end_def)
    then have "Compare c x (limit_of g) < 0" using xl cmp_less_trans [of x l "limit_of g"] by simp
    then show "after_end c e (limit_of g)" using x cmp_anti [of x "limit_of g"] by (simp add: after_end_def)
  qed (use assms f in \<open>simp_all add: after_end_def cmp_refl\<close>)
  then show "sticking_out c files b (Some l) < sticking_out c files b e" by (simp add: sticking_out_def)
qed

text \<open>
  At level 0 the search ends, in the files that overlap a widened range, and all of them lie
  inside that range.
\<close>

lemma OverlapLoop_level0:
  assumes "inputs = filter (overlaps c b e) (take i files)" "\<forall>f \<in> set inputs. inside c b e f"
  shows "\<exists>b' e'. widens c b e b' e' \<and> OverlapLoop c True files i b e inputs = Some (filter (overlaps c b' e') files)
    \<and> (\<forall>f \<in> set files. overlaps c b' e' f \<longrightarrow> inside c b' e' f)"
  using assms
proof (induction "(sticking_out c files b e, length files - i)" arbitrary: i b e inputs
    rule: wf_induct_rule [OF wf_lex_prod [OF wf_less_than wf_less_than]])
  case 1
  show ?case
  proof (cases "i < length files")
    case False
    then have "inputs = filter (overlaps c b e) files" using "1.prems"(1) by simp
    with False "1.prems"(2) show ?thesis
      by (intro exI [of _ b] exI [of _ e]) (subst OverlapLoop.simps, auto simp: widens_refl)
  next
    case True
    let ?f = "files ! i"
    have mem: "?f \<in> set files" using True by simp
    have take: "filter (overlaps c b e) (take (Suc i) files) = inputs @ (if overlaps c b e ?f then [?f] else [])"
      using "1.prems"(1) by (simp add: take_Suc_conv_app_nth [OF True])
    have step: "OverlapLoop c True files i b e inputs =
       (if \<not> overlaps c b e ?f then OverlapLoop c True files (Suc i) b e inputs
        else if before_begin c b (start_of ?f) then OverlapLoop c True files 0 (Some (start_of ?f)) e []
        else if after_end c e (limit_of ?f) then OverlapLoop c True files 0 b (Some (limit_of ?f)) []
        else OverlapLoop c True files (Suc i) b e (inputs @ [?f]))"
      using True by (subst OverlapLoop.simps) (simp add: Let_def overlaps_def)
    consider "\<not> overlaps c b e ?f" | "overlaps c b e ?f" "before_begin c b (start_of ?f)"
      | "overlaps c b e ?f" "\<not> before_begin c b (start_of ?f)" "after_end c e (limit_of ?f)"
      | "overlaps c b e ?f" "inside c b e ?f"
      by (auto simp: inside_def)
    then show ?thesis
    proof cases
      case 1
      have "\<exists>b' e'. widens c b e b' e' \<and> OverlapLoop c True files (Suc i) b e inputs = Some (filter (overlaps c b' e') files)
          \<and> (\<forall>f \<in> set files. overlaps c b' e' f \<longrightarrow> inside c b' e' f)"
        by (rule "1.hyps") (use 1 True take "1.prems"(2) in auto)
      with step 1 show ?thesis by simp
    next
      case 2
      note w = widen_begin [OF 2(2), where e = e]
      have "\<exists>b' e'. widens c (Some (start_of ?f)) e b' e' \<and> OverlapLoop c True files 0 (Some (start_of ?f)) e [] = Some (filter (overlaps c b' e') files)
          \<and> (\<forall>f \<in> set files. overlaps c b' e' f \<longrightarrow> inside c b' e' f)"
        by (rule "1.hyps") (use w(2) [OF mem refl] in auto)
      with step 2 widens_trans [OF w(1)] show ?thesis by auto
    next
      case 3
      note w = widen_end [OF 3(3), where b = b]
      have "\<exists>b' e'. widens c b (Some (limit_of ?f)) b' e' \<and> OverlapLoop c True files 0 b (Some (limit_of ?f)) [] = Some (filter (overlaps c b' e') files)
          \<and> (\<forall>f \<in> set files. overlaps c b' e' f \<longrightarrow> inside c b' e' f)"
        by (rule "1.hyps") (use w(2) [OF mem refl] in auto)
      with step 3 widens_trans [OF w(1)] show ?thesis by auto
    next
      case 4
      have "\<exists>b' e'. widens c b e b' e' \<and> OverlapLoop c True files (Suc i) b e (inputs @ [?f]) = Some (filter (overlaps c b' e') files)
          \<and> (\<forall>f \<in> set files. overlaps c b' e' f \<longrightarrow> inside c b' e' f)"
        by (rule "1.hyps") (use 4 True take "1.prems"(2) in auto)
      with step 4 show ?thesis by (simp add: inside_def)
    qed
  qed
qed

lemma GetOverlappingInputs_level0:
  "\<exists>b' e'. widens c (map_option InternalKey_user_key b) (map_option InternalKey_user_key e) b' e'
    \<and> GetOverlappingInputs c v 0 b e = Some (filter (overlaps c b' e') (v_files v 0))
    \<and> (\<forall>f \<in> set (v_files v 0). overlaps c b' e' f \<longrightarrow> inside c b' e' f)"
  unfolding GetOverlappingInputs_def by simp (rule OverlapLoop_level0; simp)

lemma GetOverlappingInputs_plain:
  "level \<noteq> 0 \<Longrightarrow> GetOverlappingInputs c v level b e =
     Some (filter (overlaps c (map_option InternalKey_user_key b) (map_option InternalKey_user_key e)) (v_files v level))"
  unfolding GetOverlappingInputs_def by (simp add: OverlapLoop_plain)

text \<open>So a level-0 file that is left out is disjoint from every one that is taken.\<close>

lemma inside_disjoint:
  assumes "inside c b e f" "\<not> overlaps c b e g"
  shows "Compare c (limit_of g) (start_of f) < 0 \<or> Compare c (limit_of f) (start_of g) < 0"
proof -
  consider x where "b = Some x" "Compare c (limit_of g) x < 0" | x where "e = Some x" "Compare c (start_of g) x > 0"
    using assms(2) by (auto simp: overlaps_def before_begin_def after_end_def split: option.splits)
  then show ?thesis
  proof cases
    case (1 x)
    then have "\<not> Compare c (start_of f) x < 0" using assms(1) by (simp add: inside_def before_begin_def)
    then have "Compare c x (start_of f) \<le> 0" using cmp_not_less [of "start_of f" x] by simp
    with 1(2) show ?thesis using cmp_less_le_trans by blast
  next
    case (2 x)
    then have "Compare c (limit_of f) x \<le> 0" using assms(1) by (simp add: inside_def after_end_def)
    moreover have "Compare c x (start_of g) < 0" using 2(2) cmp_anti [of x "start_of g"] by simp
    ultimately show ?thesis using cmp_le_less_trans by blast
  qed
qed

end

section \<open>Boundary files\<close>

definition boundary :: "comparator \<Rightarrow> InternalKey \<Rightarrow> FileMetaData \<Rightarrow> bool" where
  "boundary c key file \<longleftrightarrow> InternalKey_Compare c (fm_smallest file) key > 0
     \<and> Compare c (start_of file) (InternalKey_user_key key) = 0"

lemma FindSmallestBoundaryFile_cases:
  "case FindSmallestBoundaryFile c files key of None \<Rightarrow> \<forall>f \<in> set files. \<not> boundary c key f
     | Some b \<Rightarrow> b \<in> set files \<and> boundary c key b"
proof -
  let ?step = "\<lambda>best file.
        if InternalKey_Compare c (fm_smallest file) key > 0
           \<and> Compare c (InternalKey_user_key (fm_smallest file)) (InternalKey_user_key key) = 0
        then (case best of
                None \<Rightarrow> Some file
              | Some b \<Rightarrow> if InternalKey_Compare c (fm_smallest file) (fm_smallest b) < 0 then Some file else best)
        else best"
  have "case foldl ?step best files of None \<Rightarrow> best = None \<and> (\<forall>f \<in> set files. \<not> boundary c key f)
     | Some b \<Rightarrow> best = Some b \<or> b \<in> set files \<and> boundary c key b" for best
  proof (induction files arbitrary: best)
    case (Cons f fs)
    let ?b = "?step best f"
    from Cons.IH [of ?b] show ?case
      by (auto simp: boundary_def split: option.splits if_splits)
  qed (simp split: option.split)
  from this [of None] show ?thesis
    unfolding FindSmallestBoundaryFile_def by (auto split: option.splits)
qed

context user_comparator
begin

lemma ik_less_trans: "InternalKey_Compare c a b < 0 \<Longrightarrow> InternalKey_Compare c b d \<le> 0 \<Longrightarrow> InternalKey_Compare c a d < 0"
proof -
  assume ab: "InternalKey_Compare c a b < 0" and bd: "InternalKey_Compare c b d \<le> 0"
  have "\<not> InternalKey_Compare c d a \<le> 0"
  proof
    assume "InternalKey_Compare c d a \<le> 0"
    with bd have "InternalKey_Compare c b a \<le> 0" by (rule InternalKey_order_trans)
    with ab InternalKey_Compare_anti [of a b] show False by simp
  qed
  then show ?thesis using InternalKey_Compare_anti [of a d] by simp
qed

lemma ik_pos: "0 < InternalKey_Compare c a b \<longleftrightarrow> InternalKey_Compare c b a < 0"
  using InternalKey_Compare_anti [of b a] by simp

text \<open>
  The loop that adds boundary files ends when every file of the level has its keys in order; no
  file of the level is then left that starts behind the last one with the same user key.
\<close>

lemma AddBoundaryLoop_ends:
  assumes "\<forall>f \<in> set level_files. InternalKey_Compare c (fm_smallest f) (fm_largest f) \<le> 0"
  shows "\<exists>key' added. AddBoundaryLoop c level_files key files = Some (files @ added) \<and> set added \<subseteq> set level_files
    \<and> (\<forall>f \<in> set level_files. \<not> boundary c key' f)
    \<and> InternalKey_Compare c key key' \<le> 0 \<and> (\<forall>f \<in> set added. InternalKey_Compare c (fm_largest f) key' \<le> 0)
    \<and> (key' = key \<and> added = [] \<or> key' \<in> fm_largest ` set added)"
proof (induction "length (filter (\<lambda>f. InternalKey_Compare c (fm_smallest f) key > 0) level_files)" arbitrary: key files
    rule: less_induct)
  case less
  show ?case
  proof (cases "FindSmallestBoundaryFile c level_files key")
    case None
    with FindSmallestBoundaryFile_cases [where c = c and files = level_files and key = key] show ?thesis
      by (intro exI [of _ key] exI [of _ "[]"]) (subst AddBoundaryLoop.simps, simp add: InternalKey_Compare_refl)
  next
    case (Some b)
    with FindSmallestBoundaryFile_cases [where c = c and files = level_files and key = key] have b: "b \<in> set level_files" "boundary c key b" by auto
    have gt: "InternalKey_Compare c key (fm_smallest b) < 0" using b(2) by (simp add: boundary_def ik_pos)
    have le: "InternalKey_Compare c (fm_smallest b) (fm_largest b) \<le> 0" using assms b(1) by blast
    have up: "InternalKey_Compare c key (fm_largest b) < 0" by (rule ik_less_trans [OF gt le])
    have "length (filter (\<lambda>f. InternalKey_Compare c (fm_smallest f) (fm_largest b) > 0) level_files)
        < length (filter (\<lambda>f. InternalKey_Compare c (fm_smallest f) key > 0) level_files)"
    proof (rule filter_shrinks [OF _ b(1)])
      fix f assume "InternalKey_Compare c (fm_smallest f) (fm_largest b) > 0"
      then have "InternalKey_Compare c (fm_largest b) (fm_smallest f) < 0" by (simp add: ik_pos)
      with up ik_less_trans [of key "fm_largest b" "fm_smallest f"] show "InternalKey_Compare c (fm_smallest f) key > 0"
        by (simp add: ik_pos)
    qed (use gt le in \<open>simp_all add: ik_pos\<close>, simp add: not_less [symmetric] ik_pos [symmetric])
    from less.hyps [OF this, where files = "files @ [b]"] obtain key' added where
      "AddBoundaryLoop c level_files (fm_largest b) (files @ [b]) = Some ((files @ [b]) @ added)" "set added \<subseteq> set level_files"
      "\<forall>f \<in> set level_files. \<not> boundary c key' f" "InternalKey_Compare c (fm_largest b) key' \<le> 0"
      "\<forall>f \<in> set added. InternalKey_Compare c (fm_largest f) key' \<le> 0"
      "key' = fm_largest b \<and> added = [] \<or> key' \<in> fm_largest ` set added" by blast
    moreover have "InternalKey_Compare c key key' \<le> 0"
      using ik_less_trans [OF up calculation(4)] by simp
    ultimately show ?thesis
      using b(1) Some by (intro exI [of _ key'] exI [of _ "b # added"]) (subst AddBoundaryLoop.simps, auto)
  qed
qed

lemma FindLargestKey_max:
  assumes "FindLargestKey c files = Some k"
  shows "k \<in> fm_largest ` set files" "f \<in> set files \<Longrightarrow> InternalKey_Compare c (fm_largest f) k \<le> 0"
proof -
  obtain g gs where files: "files = g # gs" using assms by (cases files) (auto simp: FindLargestKey_def)
  let ?step = "\<lambda>largest_key file. if InternalKey_Compare c (fm_largest file) largest_key > 0 then fm_largest file else largest_key"
  have "foldl ?step k0 gs \<in> insert k0 (fm_largest ` set gs) \<and> InternalKey_Compare c k0 (foldl ?step k0 gs) \<le> 0
     \<and> (\<forall>f \<in> set gs. InternalKey_Compare c (fm_largest f) (foldl ?step k0 gs) \<le> 0)" for k0
  proof (induction gs arbitrary: k0)
    case (Cons f fs)
    let ?k = "?step k0 f"
    have le: "InternalKey_Compare c k0 ?k \<le> 0" "InternalKey_Compare c (fm_largest f) ?k \<le> 0"
      using ik_pos [of "fm_largest f" k0] by (auto simp: InternalKey_Compare_refl)
    define K where "K = ?k"
    define r where "r = foldl ?step K fs"
    have K: "InternalKey_Compare c k0 K \<le> 0" "InternalKey_Compare c (fm_largest f) K \<le> 0" "K \<in> {k0, fm_largest f}"
      using le by (simp_all add: K_def)
    have r: "r \<in> insert K (fm_largest ` set fs)" "InternalKey_Compare c K r \<le> 0" "\<forall>f \<in> set fs. InternalKey_Compare c (fm_largest f) r \<le> 0"
      using Cons.IH [of ?k] unfolding K_def [symmetric] r_def [symmetric] by blast+
    have "InternalKey_Compare c k0 r \<le> 0" "InternalKey_Compare c (fm_largest f) r \<le> 0"
      using InternalKey_order_trans [OF K(1) r(2)] InternalKey_order_trans [OF K(2) r(2)] .
    then have "r \<in> insert k0 (fm_largest ` set (f # fs)) \<and> InternalKey_Compare c k0 r \<le> 0
        \<and> (\<forall>g \<in> set (f # fs). InternalKey_Compare c (fm_largest g) r \<le> 0)"
      using K(3) r(1,3) by auto
    then have goal: "r \<in> insert k0 (fm_largest ` set (f # fs)) \<and> InternalKey_Compare c k0 r \<le> 0
        \<and> (\<forall>f \<in> set (f # fs). InternalKey_Compare c (fm_largest f) r \<le> 0)" .
    moreover have "foldl ?step k0 (f # fs) = r" by (simp add: r_def K_def)
    ultimately have "foldl ?step k0 (f # fs) = r" by blast
    show ?case unfolding \<open>foldl ?step k0 (f # fs) = r\<close> by (rule goal)
  qed (simp add: InternalKey_Compare_refl)
  note run = this [of "fm_largest g"]
  have k: "k = foldl ?step (fm_largest g) gs" using assms by (simp add: files FindLargestKey_def)
  show "k \<in> fm_largest ` set files" "f \<in> set files \<Longrightarrow> InternalKey_Compare c (fm_largest f) k \<le> 0"
    using run unfolding k files by auto
qed

lemma AddBoundaryInputs_closed:
  assumes "\<forall>f \<in> set level_files. InternalKey_Compare c (fm_smallest f) (fm_largest f) \<le> 0" "files \<noteq> []"
  shows "\<exists>added key. AddBoundaryInputs c level_files files = Some (files @ added) \<and> set added \<subseteq> set level_files
    \<and> key \<in> fm_largest ` set (files @ added) \<and> (\<forall>f \<in> set (files @ added). InternalKey_Compare c (fm_largest f) key \<le> 0)
    \<and> (\<forall>f \<in> set level_files. \<not> boundary c key f)"
proof -
  obtain k where k: "FindLargestKey c files = Some k" using assms(2) by (cases files) (auto simp: FindLargestKey_def)
  note M = FindLargestKey_max [OF k]
  from AddBoundaryLoop_ends [OF assms(1), of k files] obtain key' added where
    A: "AddBoundaryLoop c level_files k files = Some (files @ added)" "set added \<subseteq> set level_files"
      "\<forall>f \<in> set level_files. \<not> boundary c key' f" "InternalKey_Compare c k key' \<le> 0"
      "\<forall>f \<in> set added. InternalKey_Compare c (fm_largest f) key' \<le> 0" "key' = k \<and> added = [] \<or> key' \<in> fm_largest ` set added" by blast
  have "\<forall>f \<in> set (files @ added). InternalKey_Compare c (fm_largest f) key' \<le> 0"
    using A(5) InternalKey_order_trans [OF M(2) A(4)] by auto
  moreover have "key' \<in> fm_largest ` set (files @ added)" using A(6) M(1) by auto
  ultimately show ?thesis using A(1,2,3) k by (auto simp: AddBoundaryInputs_def)
qed

lemma AddBoundaryInputs_largest:
  assumes "\<forall>f \<in> set level_files. InternalKey_Compare c (fm_smallest f) (fm_largest f) \<le> 0" "files \<noteq> []"
  shows "\<exists>added key. AddBoundaryInputs c level_files files = Some (files @ added) \<and> set added \<subseteq> set level_files
    \<and> FindLargestKey c (files @ added) = Some key \<and> (\<forall>f \<in> set level_files. \<not> boundary c key f)"
proof -
  from AddBoundaryInputs_closed [OF assms] obtain added key where
    A: "AddBoundaryInputs c level_files files = Some (files @ added)" "set added \<subseteq> set level_files"
      "key \<in> fm_largest ` set (files @ added)" "\<forall>f \<in> set (files @ added). InternalKey_Compare c (fm_largest f) key \<le> 0"
      "\<forall>f \<in> set level_files. \<not> boundary c key f" by blast
  obtain k where k: "FindLargestKey c (files @ added) = Some k"
    using assms(2) by (cases files) (auto simp: FindLargestKey_def)
  note M = FindLargestKey_max [OF k]
  have le: "InternalKey_Compare c k key \<le> 0" "InternalKey_Compare c key k \<le> 0" using A(3,4) M by auto
  then have "InternalKey_Compare c key k = 0" using InternalKey_Compare_anti [of key k] InternalKey_Compare_anti [of k key] by linarith
  then have eq: "Compare c (InternalKey_user_key key) (InternalKey_user_key k) = 0"
    by (simp add: InternalKey_Compare_zero InternalKey_user_key_def InternalKey_Encode_def)
  have "\<not> boundary c k f" if f: "f \<in> set level_files" for f
  proof
    assume "boundary c k f"
    then have b: "InternalKey_Compare c k (fm_smallest f) < 0" "Compare c (start_of f) (InternalKey_user_key k) = 0"
      by (simp_all add: boundary_def ik_pos)
    have "InternalKey_Compare c key (fm_smallest f) < 0"
      using le(2) b(1) InternalKey_order_trans [of "fm_smallest f" key k] InternalKey_Compare_anti [of k "fm_smallest f"]
        InternalKey_Compare_anti [of key "fm_smallest f"] by linarith
    moreover have "Compare c (start_of f) (InternalKey_user_key key) = 0"
      using b(2) eq cmp_trans [of "start_of f" "InternalKey_user_key k" "InternalKey_user_key key"]
        cmp_trans [of "InternalKey_user_key key" "InternalKey_user_key k" "start_of f"]
        cmp_eq_sym [of "InternalKey_user_key key" "InternalKey_user_key k"] cmp_eq_sym [of "start_of f" "InternalKey_user_key k"]
        cmp_anti [of "start_of f" "InternalKey_user_key key"] by force
    ultimately show False using A(5) f by (simp add: boundary_def ik_pos)
  qed
  with A(1,2) k show ?thesis by blast
qed

lemma overlaps_widens:
  assumes "widens c b e b' e'" "overlaps c b e f" shows "overlaps c b' e' f"
proof -
  have "\<not> Compare c (limit_of f) y < 0" if "\<not> Compare c (limit_of f) x < 0" "Compare c y x \<le> 0" for x y
    using that cmp_less_le_trans by blast
  moreover have "\<not> Compare c (start_of f) y > 0" if "\<not> Compare c (start_of f) x > 0" "Compare c x y \<le> 0" for x y
    using that cmp_trans [of "start_of f" x y] by simp
  ultimately show ?thesis using assms
    unfolding overlaps_def widens_def before_begin_def after_end_def by (simp split: option.splits)
qed

section \<open>Searching a level\<close>

text \<open>The files of a level above 0: in order, with no user key in two of them.\<close>

definition level_sorted :: "FileMetaData list \<Rightarrow> bool" where
  "level_sorted files \<longleftrightarrow> (\<forall>f \<in> set files. Compare c (start_of f) (limit_of f) \<le> 0)
     \<and> sorted_wrt (\<lambda>f g. Compare c (limit_of f) (start_of g) < 0) files"

definition in_range :: "bytes \<Rightarrow> FileMetaData \<Rightarrow> bool" where
  "in_range key f \<longleftrightarrow> Compare c (start_of f) key \<le> 0 \<and> Compare c key (limit_of f) \<le> 0"

lemma FileMayContainUserkey_iff: "FileMayContainUserkey c f key \<longleftrightarrow> in_range key f"
  using cmp_not_less [of key "start_of f"] by (auto simp: FileMayContainUserkey_def in_range_def)

lemma level_limits:
  assumes "level_sorted files" "i < j" "j < length files"
  shows "Compare c (limit_of (files ! i)) (start_of (files ! j)) < 0" "Compare c (limit_of (files ! i)) (limit_of (files ! j)) < 0"
proof -
  show 1: "Compare c (limit_of (files ! i)) (start_of (files ! j)) < 0"
    using assms by (auto simp: level_sorted_def sorted_wrt_iff_nth_less)
  have "Compare c (start_of (files ! j)) (limit_of (files ! j)) \<le> 0" using assms by (simp add: level_sorted_def)
  with 1 show "Compare c (limit_of (files ! i)) (limit_of (files ! j)) < 0" using cmp_less_le_trans by blast
qed

lemma FindFileLoop_bound:
  assumes "level_sorted files" "l \<le> r" "r \<le> length files"
    and "\<forall>i < l. Compare c (limit_of (files ! i)) key < 0" "\<forall>i. r \<le> i \<and> i < length files \<longrightarrow> \<not> Compare c (limit_of (files ! i)) key < 0"
  shows "FindFileLoop c files key l r \<le> length files
    \<and> (\<forall>i < FindFileLoop c files key l r. Compare c (limit_of (files ! i)) key < 0)
    \<and> (\<forall>i. FindFileLoop c files key l r \<le> i \<and> i < length files \<longrightarrow> \<not> Compare c (limit_of (files ! i)) key < 0)"
  using assms(2-)
proof (induction "r - l" arbitrary: l r rule: less_induct)
  case less
  show ?case
  proof (cases "l < r")
    case False
    with less.prems show ?thesis by (subst (1 2 3) FindFileLoop.simps) auto
  next
    case True
    let ?m = "l + (r - l) div 2"
    have m: "l \<le> ?m" "?m < r" using True by auto
    show ?thesis
    proof (cases "Compare c (limit_of (files ! ?m)) key < 0")
      case lt: True
      have "\<forall>i < Suc ?m. Compare c (limit_of (files ! i)) key < 0"
      proof (intro allI impI)
        fix i assume "i < Suc ?m"
        then consider "i = ?m" | "i < ?m" by linarith
        then show "Compare c (limit_of (files ! i)) key < 0"
        proof cases
          case 2
          have "Compare c (limit_of (files ! i)) (limit_of (files ! ?m)) < 0"
            by (rule level_limits [OF assms(1) 2]) (use m less.prems in simp)
          with lt cmp_less_trans show ?thesis by blast
        qed (use lt in simp)
      qed
      with less.hyps [of r "Suc ?m"] m less.prems have "FindFileLoop c files key (Suc ?m) r \<le> length files
          \<and> (\<forall>i < FindFileLoop c files key (Suc ?m) r. Compare c (limit_of (files ! i)) key < 0)
          \<and> (\<forall>i. FindFileLoop c files key (Suc ?m) r \<le> i \<and> i < length files \<longrightarrow> \<not> Compare c (limit_of (files ! i)) key < 0)" by simp
      moreover have "FindFileLoop c files key l r = FindFileLoop c files key (Suc ?m) r"
        using True lt by (subst FindFileLoop.simps) (simp add: Let_def)
      ultimately show ?thesis by simp
    next
      case ge: False
      have "\<forall>i. ?m \<le> i \<and> i < length files \<longrightarrow> \<not> Compare c (limit_of (files ! i)) key < 0"
      proof (intro allI impI)
        fix i assume i: "?m \<le> i \<and> i < length files"
        show "\<not> Compare c (limit_of (files ! i)) key < 0"
        proof (cases "i = ?m")
          case False
          have "Compare c (limit_of (files ! ?m)) (limit_of (files ! i)) < 0"
            by (rule level_limits [OF assms(1)]) (use i False in auto)
          with ge cmp_less_trans show ?thesis by blast
        qed (use ge in simp)
      qed
      with less.hyps [of ?m l] m less.prems have "FindFileLoop c files key l ?m \<le> length files
          \<and> (\<forall>i < FindFileLoop c files key l ?m. Compare c (limit_of (files ! i)) key < 0)
          \<and> (\<forall>i. FindFileLoop c files key l ?m \<le> i \<and> i < length files \<longrightarrow> \<not> Compare c (limit_of (files ! i)) key < 0)" by simp
      moreover have "FindFileLoop c files key l r = FindFileLoop c files key l ?m"
        using True ge by (subst FindFileLoop.simps) (simp add: Let_def)
      ultimately show ?thesis by simp
    qed
  qed
qed

text \<open>So the search of a level finds the one file whose range holds the key, if there is one.\<close>

lemma level_unique:
  assumes "level_sorted files" "f \<in> set files" "g \<in> set files" "in_range key f" "in_range key g"
  shows "f = g"
proof -
  have no: "\<not> i < j" if ij: "j < length files" "in_range key (files ! i)" "in_range key (files ! j)" for i j
  proof
    assume "i < j"
    then have "Compare c (limit_of (files ! i)) (start_of (files ! j)) < 0" using level_limits(1) [OF assms(1) _ ij(1)] by blast
    moreover have "Compare c (start_of (files ! j)) key \<le> 0" "Compare c key (limit_of (files ! i)) \<le> 0" using ij by (auto simp: in_range_def)
    ultimately have "Compare c key (start_of (files ! j)) < 0" using cmp_le_less_trans by blast
    with \<open>Compare c (start_of (files ! j)) key \<le> 0\<close> show False using cmp_not_less [of key "start_of (files ! j)"] by simp
  qed
  from assms(2,3) obtain i j where ij: "i < length files" "j < length files" "f = files ! i" "g = files ! j"
    unfolding in_set_conv_nth by blast
  have "\<not> i < j" using assms(4,5) ij by (intro no) simp_all
  moreover have "\<not> j < i" using assms(4,5) ij by (intro no) simp_all
  ultimately have "i = j" by linarith
  with ij show ?thesis by simp
qed

lemma FindFileInLevel_alt:
  "FindFileInLevel c v level key =
     (let fs = v_files v level; n = FindFileLoop c fs key 0 (length fs)
      in if n < length fs \<and> \<not> Compare c key (start_of (fs ! n)) < 0 then Some (fs ! n) else None)"
  unfolding FindFileInLevel_def Let_def by simp

lemma FindFileInLevel_found:
  assumes "level_sorted (v_files v level)"
  shows "FindFileInLevel c v level key = find (in_range key) (v_files v level)"
proof -
  define fs where "fs = v_files v level"
  define n where "n = FindFileLoop c fs key 0 (length fs)"
  have sorted: "level_sorted fs" using assms by (simp add: fs_def)
  have "n \<le> length fs \<and> (\<forall>i < n. Compare c (limit_of (fs ! i)) key < 0)
      \<and> (\<forall>i. n \<le> i \<and> i < length fs \<longrightarrow> \<not> Compare c (limit_of (fs ! i)) key < 0)"
    unfolding n_def by (rule FindFileLoop_bound [OF sorted]) simp_all
  then have L: "n \<le> length fs" "\<And>i. i < n \<Longrightarrow> Compare c (limit_of (fs ! i)) key < 0"
      "n < length fs \<Longrightarrow> Compare c key (limit_of (fs ! n)) \<le> 0"
    using cmp_not_less by blast+
  have out: "\<not> in_range key (fs ! i)" if "i < n" for i
    using L(2) [OF that] cmp_anti [of "limit_of (fs ! i)" key] by (simp add: in_range_def)
  have alt: "FindFileInLevel c v level key = (if n < length fs \<and> \<not> Compare c key (start_of (fs ! n)) < 0 then Some (fs ! n) else None)"
    unfolding FindFileInLevel_alt Let_def n_def fs_def ..
  show ?thesis
  proof (cases "n < length fs \<and> \<not> Compare c key (start_of (fs ! n)) < 0")
    case True
    then have "in_range key (fs ! n)" using L(3) cmp_not_less [of key "start_of (fs ! n)"] by (simp add: in_range_def)
    with True out have "\<exists>i < length fs. in_range key (fs ! i) \<and> fs ! n = fs ! i \<and> (\<forall>j < i. \<not> in_range key (fs ! j))" by blast
    then have "find (in_range key) fs = Some (fs ! n)" by (rule find_Some_iff [THEN iffD2])
    moreover have "FindFileInLevel c v level key = Some (fs ! n)" using True unfolding alt by simp
    ultimately show ?thesis by (simp only: fs_def)
  next
    case False
    have none: "\<not> in_range key (fs ! i)" if i: "i < length fs" for i
    proof (cases "i < n")
      case False
      then have n: "n < length fs" and "n = i \<or> n < i" using i by auto
      have lt: "Compare c key (start_of (fs ! n)) < 0" using n \<open>\<not> (n < length fs \<and> \<not> Compare c key (start_of (fs ! n)) < 0)\<close> by blast
      have "Compare c key (start_of (fs ! i)) < 0" using \<open>n = i \<or> n < i\<close>
      proof
        assume "n < i"
        have "Compare c (limit_of (fs ! n)) (start_of (fs ! i)) < 0" by (rule level_limits(1) [OF sorted \<open>n < i\<close> i])
        with L(3) [OF n] show ?thesis using cmp_le_less_trans by blast
      qed (use lt in simp)
      then show ?thesis using cmp_not_less [of key "start_of (fs ! i)"] by (simp add: in_range_def)
    qed (rule out)
    have "find (in_range key) fs = None" unfolding find_None_iff
    proof
      assume "\<exists>x. x \<in> set fs \<and> in_range key x"
      then obtain i where "i < length fs" "in_range key (fs ! i)" by (auto simp: in_set_conv_nth)
      with none show False by blast
    qed
    moreover have "FindFileInLevel c v level key = None" using False unfolding alt by (simp only: if_False)
    ultimately show ?thesis by (simp only: fs_def)
  qed
qed

end

end
