(* ===== verification/VersionReads.thy ===== *)
theory VersionReads
  imports Complex_Main Versions Tables DBIters
begin

text \<open>
  Reads of a version through its tables (\<open>Version::Get\<close>, db/version_set.cc): what a lookup finds in one
  table, the contract of a source of tables, which the table cache meets, and the result of a read
  as the newest entry of the whole version that a snapshot sees.
\<close>

section \<open>One table\<close>

abbreviation key_of :: "bytes \<times> bytes \<Rightarrow> bytes" where
  "key_of e \<equiv> ExtractUserKey (fst e)"

definition seq_of :: "bytes \<times> bytes \<Rightarrow> SequenceNumber" where
  "seq_of e = pk_sequence (the (ParseInternalKey (fst e)))"

definition type_of :: "bytes \<times> bytes \<Rightarrow> ValueType" where
  "type_of e = pk_type (the (ParseInternalKey (fst e)))"

text \<open>The snapshot sees the entry as a version of the user key.\<close>

definition sees :: "comparator \<Rightarrow> bytes \<Rightarrow> SequenceNumber \<Rightarrow> bytes \<times> bytes \<Rightarrow> bool" where
  "sees c u snap e \<longleftrightarrow> Compare c (key_of e) u = 0 \<and> seq_of e \<le> snap"

definition table_entries :: "comparator \<Rightarrow> entries \<Rightarrow> bool" where
  "table_entries c es \<longleftrightarrow> well_keyed es \<and> sorted_wrt (\<lambda>a b. InternalKey_Compare c (fst a) (fst b) < 0) es"

lemma parsed_entry:
  assumes "ParseInternalKey (fst e) \<noteq> None"
  shows "ParseInternalKey (fst e) = Some \<lparr>pk_user_key = key_of e, pk_sequence = seq_of e, pk_type = type_of e\<rparr>"
    "tag_of (fst e) = PackSequenceAndType (seq_of e) (type_of e)" "seq_of e \<le> kMaxSequenceNumber"
proof -
  obtain p where p: "ParseInternalKey (fst e) = Some p" using assms by auto
  then show "ParseInternalKey (fst e) = Some \<lparr>pk_user_key = key_of e, pk_sequence = seq_of e, pk_type = type_of e\<rparr>"
    "tag_of (fst e) = PackSequenceAndType (seq_of e) (type_of e)" "seq_of e \<le> kMaxSequenceNumber"
    using ParseInternalKey_SomeD [OF p] by (simp_all add: seq_of_def type_of_def)
qed

lemma SaveValue_entry:
  fixes saver :: Saver
  assumes "ParseInternalKey (fst e) \<noteq> None"
  shows "SaveValue c (fst e) v saver =
    (if Compare c (key_of e) (sv_user_key saver) \<noteq> 0 then saver
     else case type_of e of kTypeValue \<Rightarrow> saver\<lparr>sv_state := kFoundState, sv_value := v\<rparr>
        | kTypeDeletion \<Rightarrow> saver\<lparr>sv_state := kDeletedState\<rparr>)"
  using parsed_entry(1) [OF assms] by (simp add: SaveValue_def)

context user_comparator
begin

lemma same_user_key: "Compare c a u = 0 \<Longrightarrow> Compare c b u = 0 \<Longrightarrow> Compare c a b = 0"
  using cmp_trans [of a u b] cmp_trans [of b u a] cmp_eq_sym [of a u] cmp_eq_sym [of b u] cmp_anti [of a b] by auto

lemma below_lookup:
  assumes "ParseInternalKey (fst e) \<noteq> None" "snap \<le> kMaxSequenceNumber"
  shows "InternalKey_Compare c (fst e) (InternalKey_new u snap kValueTypeForSeek) < 0 \<longleftrightarrow>
    Compare c (key_of e) u < 0 \<or> Compare c (key_of e) u = 0 \<and> snap < seq_of e"
  using parsed_entry(2,3) [OF assms(1)] assms(2)
  by (auto simp: InternalKey_Compare_less tag_less_iff kValueTypeForSeek_def)

text \<open>The first entry from the lookup key on is the newest one the snapshot sees, if it has the user key.\<close>

lemma first_seen:
  assumes es: "table_entries c es" and snap: "snap \<le> kMaxSequenceNumber"
    and lb: "lb = lower_bound (InternalKeyComparator c) es (InternalKey_new u snap kValueTypeForSeek)"
  shows "find (sees c u snap) es = (if lb < length es \<and> Compare c (key_of (es ! lb)) u = 0 then Some (es ! lb) else None)"
proof -
  let ?k = "InternalKey_new u snap kValueTypeForSeek"
  have parse: "ParseInternalKey (fst (es ! i)) \<noteq> None" if "i < length es" for i
    using es that by (auto simp: table_entries_def well_keyed_def)
  have below: "\<not> sees c u snap (es ! i)" if "i < lb" "i < length es" for i
  proof -
    have "InternalKey_Compare c (fst (es ! i)) ?k < 0"
      using lower_bound_less [of i "InternalKeyComparator c" es ?k] that(1) lb by simp
    with below_lookup [OF parse [OF that(2)] snap] show ?thesis by (auto simp: sees_def)
  qed
  have le: "lb \<le> length es" using lower_bound_le lb by blast
  show ?thesis
  proof (cases "lb < length es \<and> Compare c (key_of (es ! lb)) u = 0")
    case True
    have "\<not> InternalKey_Compare c (fst (es ! lb)) ?k < 0"
      using lower_bound_ge [of "InternalKeyComparator c" es ?k] True lb by simp
    with below_lookup [OF parse snap, of lb u] True have "sees c u snap (es ! lb)" by (auto simp: sees_def)
    with True below have "\<exists>i < length es. sees c u snap (es ! i) \<and> es ! lb = es ! i \<and> (\<forall>j < i. \<not> sees c u snap (es ! j))"
      using le by (intro exI [of _ lb]) auto
    then have "find (sees c u snap) es = Some (es ! lb)" by (rule find_Some_iff [THEN iffD2])
    with True show ?thesis by simp
  next
    case False
    have "\<not> sees c u snap (es ! i)" if i: "i < length es" for i
    proof (cases "i < lb")
      case ge: False
      then have lbl: "lb < length es" and ne: "Compare c (key_of (es ! lb)) u \<noteq> 0" using i False by auto
      have "\<not> InternalKey_Compare c (fst (es ! lb)) ?k < 0"
        using lower_bound_ge [of "InternalKeyComparator c" es ?k] lbl lb by simp
      with below_lookup [OF parse [OF lbl] snap, of u] ne have gt: "Compare c (key_of (es ! lb)) u > 0" by force
      then have lt: "Compare c u (key_of (es ! lb)) < 0" using cmp_anti [of u "key_of (es ! lb)"] by simp
      have "Compare c (key_of (es ! lb)) (key_of (es ! i)) \<le> 0"
      proof (cases "i = lb")
        case False
        then have "InternalKey_Compare c (fst (es ! lb)) (fst (es ! i)) < 0"
          using es ge i by (auto simp: table_entries_def sorted_wrt_iff_nth_less)
        then show ?thesis by (auto simp: InternalKey_Compare_less)
      qed (simp add: cmp_refl)
      with lt have "Compare c u (key_of (es ! i)) < 0" using cmp_less_le_trans by blast
      then have "Compare c (key_of (es ! i)) u \<noteq> 0" using cmp_anti [of u "key_of (es ! i)"] by auto
      then show ?thesis by (simp add: sees_def)
    qed (use below i in blast)
    then have "\<forall>e \<in> set es. \<not> sees c u snap e" by (simp add: all_set_conv_all_nth)
    then have "find (sees c u snap) es = None" by (simp add: find_None_iff)
    with False show ?thesis by simp
  qed
qed

text \<open>A lookup that a table misses at the end of a block misses no entry of the user key.\<close>

lemma missed_unseen:
  assumes es: "table_entries c es" and snap: "snap \<le> kMaxSequenceNumber"
    and m: "missed (InternalKeyComparator c) es (InternalKey_new u snap kValueTypeForSeek)"
  shows "find (sees c u snap) es = None"
proof -
  let ?k = "InternalKey_new u snap kValueTypeForSeek"
  define lb where "lb = lower_bound (InternalKeyComparator c) es ?k"
  have "\<not> (lb < length es \<and> Compare c (key_of (es ! lb)) u = 0)"
  proof
    assume a: "lb < length es \<and> Compare c (key_of (es ! lb)) u = 0"
    let ?a = "fst (es ! (lb - 1))" and ?b = "fst (es ! lb)"
    have M: "0 < lb" "InternalKey_Compare c ?k (InternalKey_FindShortestSeparator c ?a ?b) \<le> 0"
      using m a unfolding missed_def Let_def lb_def [symmetric] by auto
    have low: "InternalKey_Compare c ?a ?k < 0"
      using lower_bound_less [of "lb - 1" "InternalKeyComparator c" es ?k] M(1) lb_def by simp
    from InternalKey_sep_cases [of ?a ?b] show False
    proof
      assume "InternalKey_FindShortestSeparator c ?a ?b = ?a"
      with M(2) low InternalKey_Compare_anti [of ?a ?k] show False by simp
    next
      assume "\<exists>tmp w. InternalKey_FindShortestSeparator c ?a ?b = PutFixed64 tmp w
        \<and> tmp = FindShortestSeparator c (ExtractUserKey ?a) (ExtractUserKey ?b) \<and> Compare c (ExtractUserKey ?a) tmp < 0"
      then obtain tmp w where t: "InternalKey_FindShortestSeparator c ?a ?b = PutFixed64 tmp w"
          "tmp = FindShortestSeparator c (ExtractUserKey ?a) (ExtractUserKey ?b)" "Compare c (ExtractUserKey ?a) tmp < 0" by blast
      have "Compare c (ExtractUserKey ?a) (ExtractUserKey ?b) < 0"
        using sep_noop [OF TrueI TrueI, of "ExtractUserKey ?a" "ExtractUserKey ?b"] t(2,3) by force
      then have "Compare c tmp (ExtractUserKey ?b) < 0" using sep_less t(2) by blast
      moreover have "Compare c u tmp \<le> 0" using M(2) unfolding t(1) by (auto simp: InternalKey_Compare_le)
      ultimately have "Compare c u (ExtractUserKey ?b) < 0" using cmp_le_less_trans by blast
      with a cmp_anti [of u "ExtractUserKey ?b"] show False by auto
    qed
  qed
  with first_seen [OF es snap lb_def] show ?thesis by (simp only: if_False)
qed

end

section \<open>Sources of tables\<close>

text \<open>
  What a read relies on: for a table file \<open>f\<close> of \<open>live\<close> that holds the entries \<open>content f\<close>, the lookup
  hands the saver the newest version of the user key that the snapshot sees, and nothing when there
  is none; the state \<open>w\<close> has room for the table that the lookup opens.
\<close>

definition saved :: "comparator \<Rightarrow> (bytes \<times> bytes) option \<Rightarrow> Saver \<Rightarrow> Saver" where
  "saved c hit saver = (case hit of None \<Rightarrow> saver | Some e \<Rightarrow> SaveValue c (fst e) (snd e) saver)"

definition outcome :: "bytes \<Rightarrow> (bytes \<times> bytes) option \<Rightarrow> bytes \<Rightarrow> Status \<times> bytes" where
  "outcome u hit val = (case hit of None \<Rightarrow> (NotFound u [], val)
     | Some e \<Rightarrow> (case type_of e of kTypeValue \<Rightarrow> (OK, snd e) | kTypeDeletion \<Rightarrow> (NotFound u [], val)))"

locale table_source = user_comparator c for c :: comparator +
  fixes tget :: "'w table_get" and ready :: "nat \<Rightarrow> 'w \<Rightarrow> bool"
    and content :: "FileMetaData \<Rightarrow> entries" and live :: "FileMetaData set"
  assumes get: "file \<in> live \<Longrightarrow> table_entries c (content file) \<Longrightarrow> snap \<le> kMaxSequenceNumber \<Longrightarrow> sv_user_key (saver :: Saver) = u \<Longrightarrow> ready (Suc n) w \<Longrightarrow>
      \<exists>w'. tget (fm_number file) (fm_file_size file) (InternalKey_new u snap kValueTypeForSeek) saver w
             = Some (OK, saved c (find (sees c u snap) (content file)) saver, w') \<and> ready n w'"
begin

text \<open>The loop over the files returns the first version that it finds.\<close>

lemma GetLoop_first:
  assumes "\<forall>(file, level) \<in> set files. file \<in> live \<and> table_entries c (content file)"
    and "snap \<le> kMaxSequenceNumber" "sv_user_key saver = u" "ready (length files + n) w"
  shows "\<exists>st val stats' w'. GetLoop tget (LookupKey_new u snap) files last_read stats saver w = Some (st, val, stats', w')
    \<and> (st, val) = outcome u (find (sees c u snap) (concat (map (content \<circ> fst) files))) (sv_value saver)
    \<and> (\<exists>m \<ge> n. ready m w')"
  using assms
proof (induction files arbitrary: last_read stats saver w)
  case Nil
  then show ?case by (auto simp: outcome_def LookupKey_parts)
next
  case (Cons fl files)
  obtain f lev where fl: "fl = (f, lev)" by (cases fl)
  let ?s = "saver\<lparr>sv_state := kNotFoundState\<rparr>"
  define hit where "hit = find (sees c u snap) (content f)"
  have F: "f \<in> live" "table_entries c (content f)" using Cons.prems(1) fl by auto
  obtain w1 where w1: "tget (fm_number f) (fm_file_size f) (InternalKey_new u snap kValueTypeForSeek) ?s w = Some (OK, saved c hit ?s, w1)"
      "ready (length files + n) w1"
    using get [OF F Cons.prems(2), of ?s u "length files + n" w] Cons.prems(3,4) by (auto simp: hit_def)
  have run: "GetLoop tget (LookupKey_new u snap) (fl # files) last_read stats saver w =
      (case sv_state (saved c hit ?s) of
         kFoundState \<Rightarrow> Some (OK, sv_value (saved c hit ?s), charge_seek last_read stats, w1)
       | kDeletedState \<Rightarrow> Some (NotFound u [], sv_value (saved c hit ?s), charge_seek last_read stats, w1)
       | kCorruptState \<Rightarrow> Some (Corruption (lit ''corrupted key for'') u, sv_value (saved c hit ?s), charge_seek last_read stats, w1)
       | kNotFoundState \<Rightarrow> GetLoop tget (LookupKey_new u snap) files (Some (f, lev)) (charge_seek last_read stats) (saved c hit ?s) w1)"
    using w1(1) by (simp add: fl LookupKey_parts Let_def ok_def OK_def split: SaverState.split)
  have concat: "find (sees c u snap) (concat (map (content \<circ> fst) (fl # files))) =
      (case hit of None \<Rightarrow> find (sees c u snap) (concat (map (content \<circ> fst) files)) | Some e \<Rightarrow> Some e)"
    by (simp add: fl find_append hit_def)
  show ?case
  proof (cases hit)
    case None
    have "\<exists>st val stats' w'. GetLoop tget (LookupKey_new u snap) files (Some (f, lev)) (charge_seek last_read stats) ?s w1 = Some (st, val, stats', w')
      \<and> (st, val) = outcome u (find (sees c u snap) (concat (map (content \<circ> fst) files))) (sv_value ?s) \<and> (\<exists>m \<ge> n. ready m w')"
      by (rule Cons.IH) (use Cons.prems w1(2) in auto)
    moreover have "GetLoop tget (LookupKey_new u snap) (fl # files) last_read stats saver w =
        GetLoop tget (LookupKey_new u snap) files (Some (f, lev)) (charge_seek last_read stats) ?s w1"
      using run None by (simp add: saved_def)
    ultimately show ?thesis unfolding concat None option.case by simp
  next
    case (Some e)
    then have e: "e \<in> set (content f)" "sees c u snap e" unfolding hit_def by (auto simp: find_Some_iff)
    have "ParseInternalKey (fst e) \<noteq> None" using F(2) e(1) by (auto simp: table_entries_def well_keyed_def)
    from SaveValue_entry [OF this, of c "snd e" ?s] e(2) Cons.prems(3)
    have s: "saved c hit ?s = (case type_of e of kTypeValue \<Rightarrow> ?s\<lparr>sv_state := kFoundState, sv_value := snd e\<rparr>
        | kTypeDeletion \<Rightarrow> ?s\<lparr>sv_state := kDeletedState\<rparr>)"
      by (simp add: saved_def Some sees_def)
    have room: "\<exists>m \<ge> n. ready m w1" using w1(2) by (intro exI [of _ "length files + n"]) simp
    show ?thesis
    proof (cases "type_of e")
      case kTypeValue
      then have "sv_state (saved c hit ?s) = kFoundState" "sv_value (saved c hit ?s) = snd e" by (simp_all add: s)
      then have "GetLoop tget (LookupKey_new u snap) (fl # files) last_read stats saver w = Some (OK, snd e, charge_seek last_read stats, w1)"
        using run by simp
      with room show ?thesis unfolding concat Some option.case outcome_def kTypeValue ValueType.case by blast
    next
      case kTypeDeletion
      then have "sv_state (saved c hit ?s) = kDeletedState" "sv_value (saved c hit ?s) = sv_value saver" by (simp_all add: s)
      then have "GetLoop tget (LookupKey_new u snap) (fl # files) last_read stats saver w
          = Some (NotFound u [], sv_value saver, charge_seek last_read stats, w1)"
        using run by simp
      with room show ?thesis unfolding concat Some option.case outcome_def kTypeDeletion ValueType.case by blast
    qed
  qed
qed

end

section \<open>The whole version\<close>

text \<open>The files of a version in the order in which a read looks at them.\<close>

definition read_order :: "Version \<Rightarrow> FileMetaData list" where
  "read_order v = NewestFileFirst (v_files v 0) @ concat (map (v_files v) [1..kNumLevels - 1])"

definition version_entries :: "(FileMetaData \<Rightarrow> entries) \<Rightarrow> Version \<Rightarrow> entries" where
  "version_entries content v = concat (map content (read_order v))"

text \<open>
  Every file holds a table with user keys in its range; the levels above 0 are sorted; when a file
  read later has a newer version of a key than a file read before, then that version is also in
  a file read not later than the latter. (The replay of a log that was flushed before stores
  versions a second time, in newer files.)
\<close>

definition newer_first :: "comparator \<Rightarrow> entries list \<Rightarrow> bool" where
  "newer_first c ess \<longleftrightarrow> (\<forall>j < length ess. \<forall>i < j. \<forall>e \<in> set (ess ! i). \<forall>e' \<in> set (ess ! j).
     Compare c (key_of e) (key_of e') = 0 \<and> seq_of e < seq_of e' \<longrightarrow> (\<exists>i' \<le> i. e' \<in> set (ess ! i')))"

definition version_ok :: "comparator \<Rightarrow> (FileMetaData \<Rightarrow> entries) \<Rightarrow> Version \<Rightarrow> bool" where
  "version_ok c content v \<longleftrightarrow>
     (\<forall>f \<in> set (read_order v). table_entries c (content f) \<and> (\<forall>e \<in> set (content f). FileMayContainUserkey c f (key_of e)))
     \<and> (\<forall>level \<in> {1..<kNumLevels}. (\<forall>f \<in> set (v_files v level). Compare c (start_of f) (limit_of f) \<le> 0)
          \<and> sorted_wrt (\<lambda>f g. Compare c (limit_of f) (start_of g) < 0) (v_files v level))
     \<and> newer_first c (map content (read_order v))"

text \<open>What the snapshot sees of a key in a version: its newest entry not above the snapshot.\<close>

definition newest_seen :: "comparator \<Rightarrow> bytes \<Rightarrow> SequenceNumber \<Rightarrow> entries \<Rightarrow> (bytes \<times> bytes) option \<Rightarrow> bool" where
  "newest_seen c u snap es hit \<longleftrightarrow>
     (case hit of None \<Rightarrow> \<forall>e \<in> set es. \<not> sees c u snap e
      | Some e \<Rightarrow> e \<in> set es \<and> sees c u snap e \<and> (\<forall>e' \<in> set es. sees c u snap e' \<longrightarrow> seq_of e' \<le> seq_of e))"

lemma filter_single:
  assumes "x \<in> set xs" "P x" "\<And>y. y \<in> set xs \<Longrightarrow> P y \<Longrightarrow> y = x" "distinct xs"
  shows "filter P xs = [x]"
  using assms
proof (induction xs)
  case (Cons a xs)
  show ?case
  proof (cases "a = x")
    case True
    then have "filter P xs = []" using Cons.prems(3,4) by (auto simp: filter_empty_conv)
    with True Cons.prems(2) show ?thesis by simp
  next
    case False
    then have "\<not> P a" using Cons.prems(3) [of a] by auto
    moreover have "filter P xs = [x]" by (rule Cons.IH) (use Cons.prems False in auto)
    ultimately show ?thesis by simp
  qed
qed simp

context user_comparator
begin

lemma level_distinct: "level_sorted files \<Longrightarrow> distinct files"
proof -
  assume s: "level_sorted files"
  have "files ! i \<noteq> files ! j" if "i < j" "j < length files" for i j
    using level_limits(2) [OF s that] cmp_refl [of "limit_of (files ! i)"] by auto
  then show ?thesis unfolding distinct_conv_nth by (intro allI impI) (metis linorder_neqE_nat)
qed

lemma level_filter:
  assumes "level_sorted files"
  shows "filter (in_range u) files = (case find (in_range u) files of None \<Rightarrow> [] | Some f \<Rightarrow> [f])"
proof (cases "find (in_range u) files")
  case None
  then have "\<forall>f \<in> set files. \<not> in_range u f" by (auto simp: find_None_iff)
  with None show ?thesis by (simp add: filter_empty_conv)
next
  case (Some f)
  then have f: "f \<in> set files" "in_range u f" by (auto simp: find_Some_iff)
  have "filter (in_range u) files = [f]"
    by (rule filter_single [where P = "in_range u", OF f]) (use f level_unique [OF assms] level_distinct [OF assms] in blast)+
  with Some show ?thesis by simp
qed

text \<open>The files that a read looks at are those whose range holds the key.\<close>

lemma Get_files_filter:
  assumes "\<forall>level \<in> {1..<kNumLevels}. level_sorted (v_files v level)"
  shows "map fst (Get_files c v u) = filter (in_range u) (read_order v)"
proof -
  have "map fst (List.map_filter (\<lambda>level. map_option (\<lambda>f. (f, level)) (FindFileInLevel c v level u)) ls)
      = filter (in_range u) (concat (map (v_files v) ls))" if "set ls \<subseteq> {1..<kNumLevels}" for ls
    using that
  proof (induction ls)
    case (Cons l ls)
    then have "level_sorted (v_files v l)" using assms by auto
    from FindFileInLevel_found [OF this, of u] level_filter [OF this, of u] Cons show ?case
      by (simp add: List.map_filter_simps split: option.split)
  qed simp
  moreover have "set [1..kNumLevels - 1] \<subseteq> {1..<kNumLevels}" by auto
  ultimately have "map fst (List.map_filter (\<lambda>level. map_option (\<lambda>f. (f, level)) (FindFileInLevel c v level u)) [1..kNumLevels - 1])
      = filter (in_range u) (concat (map (v_files v) [1..kNumLevels - 1]))" by blast
  then show ?thesis
    by (simp add: Get_files_def read_order_def NewestFileFirst_def filter_sort FileMayContainUserkey_iff comp_def)
qed

lemma find_concat_filter:
  assumes "\<And>x e. x \<in> set xs \<Longrightarrow> e \<in> set (g x) \<Longrightarrow> P e \<Longrightarrow> Q x"
  shows "find P (concat (map g (filter Q xs))) = find P (concat (map g xs))"
  using assms
proof (induction xs)
  case (Cons x xs)
  then have IH: "find P (concat (map g (filter Q xs))) = find P (concat (map g xs))" by simp
  show ?case
  proof (cases "Q x")
    case False
    then have "find P (g x) = None" using Cons.prems [of x] by (auto simp: find_None_iff)
    with False IH show ?thesis by (simp add: find_append)
  qed (simp add: find_append IH split: option.split)
qed simp

text \<open>The first entry that a read meets is the newest one.\<close>

lemma first_is_newest:
  assumes "newer_first c ess" "\<forall>es \<in> set ess. table_entries c es"
  shows "newest_seen c u snap (concat ess) (find (sees c u snap) (concat ess))"
proof (cases "find (sees c u snap) (concat ess)")
  case None
  then have "\<forall>e \<in> set (concat ess). \<not> sees c u snap e" by (simp only: find_None_iff) blast
  with None show ?thesis by (simp only: newest_seen_def option.case)
next
  case (Some e)
  then have e: "e \<in> set (concat ess)" "sees c u snap e" using find_SomeD by fastforce+
  obtain i where i: "i < length ess" "find (sees c u snap) (ess ! i) = Some e" "\<And>i'. i' < i \<Longrightarrow> \<forall>e \<in> set (ess ! i'). \<not> sees c u snap e"
    using Some
  proof (induction ess arbitrary: thesis)
    case (Cons es ess)
    show ?case
    proof (cases "find (sees c u snap) es")
      case None
      then have n: "find (sees c u snap) (concat ess) = Some e" using Cons.prems(2) by (simp add: find_append)
      obtain i where "i < length ess" "find (sees c u snap) (ess ! i) = Some e" "\<And>i'. i' < i \<Longrightarrow> \<forall>e \<in> set (ess ! i'). \<not> sees c u snap e"
        using Cons.IH [OF _ n] by blast
      then show ?thesis
        using None by (intro Cons.prems(1) [of "Suc i"]) (auto simp: find_None_iff less_Suc_eq_0_disj)
    next
      case (Some x)
      then show ?thesis using Cons.prems(2) by (intro Cons.prems(1) [of 0]) (auto simp: find_append)
    qed
  qed simp
  have own: "seq_of e' \<le> seq_of e" if e': "e' \<in> set (ess ! i)" "sees c u snap e'" for e'
  proof -
    have T: "table_entries c (ess ! i)" using assms(2) i(1) by simp
    obtain a where a: "a < length (ess ! i)" "ess ! i ! a = e" "\<And>j. j < a \<Longrightarrow> \<not> sees c u snap (ess ! i ! j)"
      using i(2) unfolding find_Some_iff by blast
    obtain b where b: "b < length (ess ! i)" "ess ! i ! b = e'" using e'(1) by (auto simp: in_set_conv_nth)
    have "a \<le> b" using a(3) [of b] b(2) e'(2) by (meson not_le)
    show ?thesis
    proof (cases "a = b")
      case False
      then have "InternalKey_Compare c (fst e) (fst e') < 0"
        using T \<open>a \<le> b\<close> a b by (auto simp: table_entries_def sorted_wrt_iff_nth_less)
      moreover have "Compare c (key_of e) (key_of e') = 0"
        using e(2) e'(2) same_user_key by (auto simp: sees_def)
      ultimately have "tag_of (fst e') < tag_of (fst e)" by (auto simp: InternalKey_Compare_less)
      moreover have "ParseInternalKey (fst x) \<noteq> None" if "x \<in> set (ess ! i)" for x
        using T that by (auto simp: table_entries_def well_keyed_def)
      then have "ParseInternalKey (fst e) \<noteq> None" "ParseInternalKey (fst e') \<noteq> None"
        using e'(1) a(1,2) nth_mem by blast+
      ultimately show ?thesis
        using parsed_entry(2,3) [of e] parsed_entry(2,3) [of e'] by (auto simp: tag_less_iff)
    qed (use a b in simp)
  qed
  have "seq_of e' \<le> seq_of e" if e': "e' \<in> set (concat ess)" "sees c u snap e'" for e'
  proof (rule ccontr)
    assume "\<not> seq_of e' \<le> seq_of e"
    then have lt: "seq_of e < seq_of e'" by simp
    obtain j where j: "j < length ess" "e' \<in> set (ess ! j)"
    proof -
      obtain es where "es \<in> set ess" "e' \<in> set es" using e'(1) by auto
      with that show thesis by (auto simp: in_set_conv_nth [of es])
    qed
    have k: "Compare c (key_of e) (key_of e') = 0" using e(2) e'(2) same_user_key by (auto simp: sees_def)
    have ei: "e \<in> set (ess ! i)" using i(2) by (auto simp: find_Some_iff)
    consider "j < i" | "j = i" | "i < j" by linarith
    then obtain i' where "i' \<le> i" "e' \<in> set (ess ! i')"
    proof cases
      case 1
      show thesis by (rule that [of j]) (use 1 j in simp_all)
    next
      case 2
      show thesis by (rule that [of j]) (use 2 j in simp_all)
    next
      case 3
      with assms(1) j ei k lt that show thesis unfolding newer_first_def by blast
    qed
    then show False using i(3) [of i'] own [of e'] e'(2) lt by (cases "i' = i") auto
  qed
  with e show ?thesis by (simp add: newest_seen_def Some)
qed

end

section \<open>Reading a version\<close>

lemma version_okD:
  assumes "version_ok c content v"
  shows "f \<in> set (read_order v) \<Longrightarrow> table_entries c (content f)"
    "f \<in> set (read_order v) \<Longrightarrow> e \<in> set (content f) \<Longrightarrow> FileMayContainUserkey c f (key_of e)"
    "newer_first c (map content (read_order v))"
  using assms by (auto simp: version_ok_def)

context user_comparator
begin

lemma in_range_cong: "Compare c k u = 0 \<Longrightarrow> in_range k f \<Longrightarrow> in_range u f"
  unfolding in_range_def using cmp_trans [of "start_of f" k u] cmp_trans [of u k "limit_of f"] cmp_eq_sym [of k u] by auto

lemma version_levels: "version_ok c content v \<Longrightarrow> \<forall>level \<in> {1..<kNumLevels}. level_sorted (v_files v level)"
  by (simp add: version_ok_def level_sorted_def)

lemma read_all:
  assumes "version_ok c content v"
  shows "find (sees c u snap) (concat (map content (filter (in_range u) (read_order v)))) = find (sees c u snap) (version_entries content v)"
  unfolding version_entries_def
proof (rule find_concat_filter)
  fix f e assume "f \<in> set (read_order v)" "e \<in> set (content f)" "sees c u snap e"
  with version_okD(2) [OF assms] show "in_range u f"
    using in_range_cong [of "key_of e" u f] by (auto simp: sees_def FileMayContainUserkey_iff)
qed

end

context table_source
begin

text \<open>A read of a version returns what its newest visible entry says, and never fails.\<close>

lemma Version_Get_newest:
  assumes ok: "version_ok c content v" and live: "set (read_order v) \<subseteq> live" and snap: "snap \<le> kMaxSequenceNumber"
    and room: "ready (length (read_order v)) w"
  shows "\<exists>hit st val' stats w'. Version_Get c (Some tget) v (LookupKey_new u snap) val w = Some (st, val', stats, w')
    \<and> newest_seen c u snap (version_entries content v) hit \<and> (st, val') = outcome u hit val \<and> (\<exists>n. ready n w')"
proof -
  let ?saver = "\<lparr>sv_state = kNotFoundState, sv_user_key = u, sv_value = val\<rparr>"
  have order: "map fst (Get_files c v u) = filter (in_range u) (read_order v)" by (rule Get_files_filter [OF version_levels [OF ok]])
  define n where "n = length (read_order v) - length (Get_files c v u)"
  have "length (Get_files c v u) \<le> length (read_order v)"
    using arg_cong [OF order, of length] length_filter_le [of "in_range u" "read_order v"] by simp
  then have n: "ready (length (Get_files c v u) + n) w" using room by (simp add: n_def)
  have files: "\<forall>(file, level) \<in> set (Get_files c v u). file \<in> live \<and> table_entries c (content file)"
  proof (intro ballI, clarify)
    fix f lev assume "(f, lev) \<in> set (Get_files c v u)"
    then have "f \<in> set (map fst (Get_files c v u))" by force
    then have "f \<in> set (read_order v)" unfolding order by simp
    then show "f \<in> live \<and> table_entries c (content f)" using live version_okD(1) [OF ok] by blast
  qed
  have "map (content \<circ> fst) (Get_files c v u) = map content (filter (in_range u) (read_order v))"
    by (simp only: order [symmetric] map_map)
  then have hit: "find (sees c u snap) (concat (map (content \<circ> fst) (Get_files c v u))) = find (sees c u snap) (version_entries content v)"
    using read_all [OF ok] by simp
  have "newest_seen c u snap (version_entries content v) (find (sees c u snap) (version_entries content v))"
    unfolding version_entries_def by (rule first_is_newest) (use version_okD(1,3) [OF ok] in auto)
  moreover have "sv_user_key ?saver = u" by simp
  note GetLoop_first [OF files snap this n, of None "\<lparr>gs_seek_file = None, gs_seek_file_level = -1\<rparr>"]
  ultimately show ?thesis
    unfolding hit by (fastforce simp: Version_Get_def LookupKey_parts)
qed

end

section \<open>The table cache as a source\<close>

text \<open>The call of \<open>table_cache_->Get\<close>, with \<open>SaveValue\<close> as the callback and no block cache.\<close>

definition cached_get :: "comparator \<Rightarrow> file_opener \<Rightarrow> ReadOptions \<Rightarrow> (TableCache \<times> u64) table_get" where
  "cached_get c new_file options number n key saver w =
     (case w of (tc, nid) \<Rightarrow>
        Option.bind (TableCache_Get new_file options number n key (SaveValue c) saver tc nid None)
          (\<lambda>(status, saver, tc, nid, bc). Some (status, saver, (tc, nid))))"

definition cache_ready ::
    "Options \<Rightarrow> bytes \<Rightarrow> file_opener \<Rightarrow> (u64 \<Rightarrow> random_read) \<Rightarrow> (u64 \<Rightarrow> bytes) \<Rightarrow> (u64 \<Rightarrow> entries) \<Rightarrow> u64 set \<Rightarrow> nat \<Rightarrow> TableCache \<times> u64 \<Rightarrow> bool" where
  "cache_ready opt dbname new_file rd D es live n w \<longleftrightarrow>
     (case w of (tc, nid) \<Rightarrow> tc_options tc = opt \<and> tc_dbname tc = dbname \<and> tables_room n tc
        \<and> tables_ok (\<lambda>k. 8 \<le> length k) rd D es live tc
        \<and> live_tables (\<lambda>k. 8 \<le> length k) opt dbname new_file rd D es live)"

definition live_files :: "(u64 \<Rightarrow> bytes) \<Rightarrow> u64 set \<Rightarrow> FileMetaData set" where
  "live_files D live = {f. fm_number f \<in> live \<and> fm_file_size f = of_nat (length (D (fm_number f)))}"

lemma cached_source:
  assumes c: "user_comparator c" and opt: "op_comparator opt = InternalKeyComparator c" "op_filter_policy opt = None"
  shows "table_source c (cached_get c new_file options) (cache_ready opt dbname new_file rd D es live)
    (\<lambda>f. es (fm_number f)) (live_files D live)"
proof (intro table_source.intro c table_source_axioms.intro)
  fix f snap and saver :: Saver and u n w
  assume f: "f \<in> live_files D live" and e: "table_entries c (es (fm_number f))" and snap: "snap \<le> kMaxSequenceNumber"
    and u: "sv_user_key saver = u" and r: "cache_ready opt dbname new_file rd D es live (Suc n) w"
  let ?n = "fm_number f" and ?k = "InternalKey_new u snap kValueTypeForSeek"
  obtain tc nid where w: "w = (tc, nid)" by (cases w)
  have R: "tc_options tc = opt" "tc_dbname tc = dbname" "tables_room (Suc n) tc" "tables_ok (\<lambda>k. 8 \<le> length k) rd D es live tc"
      "live_tables (\<lambda>k. 8 \<le> length k) opt dbname new_file rd D es live"
    using r by (auto simp: cache_ready_def w)
  have F: "?n \<in> live" "fm_file_size f = of_nat (length (D ?n))" using f by (simp_all add: live_files_def)
  have k: "8 \<le> length ?k" by simp
  from TableCache_Get_correct [OF R(4,3) _ F(1) k, unfolded R(1,2), OF R(5), of options "SaveValue c" saver nid] opt(2)
  obtain saver' tc' nid' bc' where G: "TableCache_Get new_file options ?n (fm_file_size f) ?k (SaveValue c) saver tc nid None = Some (OK, saver', tc', nid', bc')"
      "tables_ok (\<lambda>k. 8 \<le> length k) rd D es live tc'" "tables_room n tc'" "tc_options tc' = opt" "tc_dbname tc' = dbname"
    and post: "let lb = lower_bound (InternalKeyComparator c) (es ?n) ?k in
        lb < length (es ?n) \<and> saver' = SaveValue c (fst (es ?n ! lb)) (snd (es ?n ! lb)) saver
        \<or> saver' = saver \<and> missed (InternalKeyComparator c) (es ?n) ?k"
    unfolding opt F(2) Let_def by auto
  define lb where "lb = lower_bound (InternalKeyComparator c) (es ?n) ?k"
  have hit: "find (sees c u snap) (es ?n) = (if lb < length (es ?n) \<and> Compare c (key_of (es ?n ! lb)) u = 0 then Some (es ?n ! lb) else None)"
    by (rule user_comparator.first_seen [OF c e snap lb_def])
  have "saver' = saved c (find (sees c u snap) (es ?n)) saver"
  proof -
    from post consider (found) "lb < length (es ?n)" "saver' = SaveValue c (fst (es ?n ! lb)) (snd (es ?n ! lb)) saver"
      | (none) "saver' = saver" "missed (InternalKeyComparator c) (es ?n) ?k"
      unfolding Let_def lb_def [symmetric] by blast
    then show ?thesis
    proof cases
      case found
      then have "ParseInternalKey (fst (es ?n ! lb)) \<noteq> None" using e by (auto simp: table_entries_def well_keyed_def)
      from SaveValue_entry [OF this] found u show ?thesis by (simp add: hit saved_def)
    next
      case none
      with user_comparator.missed_unseen [OF c e snap] show ?thesis by (simp add: saved_def)
    qed
  qed
  moreover have "cached_get c new_file options ?n (fm_file_size f) ?k saver w = Some (OK, saver', (tc', nid'))"
    using G(1) by (simp add: cached_get_def w)
  moreover have "cache_ready opt dbname new_file rd D es live n (tc', nid')"
    using G R(5) by (simp add: cache_ready_def)
  ultimately show "\<exists>w'. cached_get c new_file options ?n (fm_file_size f) ?k saver w = Some (OK, saved c (find (sees c u snap) (es ?n)) saver, w')
      \<and> cache_ready opt dbname new_file rd D es live n w'" by blast
qed

interpretation cached: table_source BytewiseComparator "cached_get BytewiseComparator new_file options"
    "cache_ready (opt\<lparr>op_comparator := InternalKeyComparator BytewiseComparator, op_filter_policy := None\<rparr>) dbname new_file rd D es live"
    "\<lambda>f. es (fm_number f)" "live_files D live"
  for new_file options opt dbname rd D es live
  by (rule cached_source [OF bytewise.user_comparator_axioms]) simp_all

end
