(* ===== verification/Envs.thy ===== *)
theory Envs
  imports Logs Strings Formats "HOL-Library.AList"
begin

text \<open>
  The environment as the database uses it (include/lindb/env.h): the virtual functions of \<open>Env\<close> and of
  the files it opens as one record, over a state \<open>'e\<close> of the file system, open writable files \<open>'h\<close>
  and open sequential files \<open>'s\<close>. Whole-file helpers (util/env.cc), \<open>SetCurrentFile\<close>
  (db/filename.cc), the file-system calls of \<open>PosixEnv\<close>, the contract of a file system and a file
  system kept in memory that can run out of space.
\<close>

section \<open>Env\<close>

text \<open>
  The operations of a writable file act on the file and on the state of the environment together;
  \<open>ev_Delete\<close> is its destructor.
\<close>

record ('h, 's, 'e) env_ops =
  ev_NewSequentialFile :: "bytes \<Rightarrow> 'e \<Rightarrow> (Status + 's) \<times> 'e"
  ev_NewRandomAccessFile :: "bytes \<Rightarrow> 'e \<Rightarrow> Status + random_read"
  ev_NewWritableFile :: "bytes \<Rightarrow> 'e \<Rightarrow> (Status + 'h) \<times> 'e"
  ev_FileExists :: "bytes \<Rightarrow> 'e \<Rightarrow> bool"
  ev_GetChildren :: "bytes \<Rightarrow> 'e \<Rightarrow> Status \<times> bytes list"
  ev_RemoveFile :: "bytes \<Rightarrow> 'e \<Rightarrow> Status \<times> 'e"
  ev_CreateDir :: "bytes \<Rightarrow> 'e \<Rightarrow> Status \<times> 'e"
  ev_RenameFile :: "bytes \<Rightarrow> bytes \<Rightarrow> 'e \<Rightarrow> Status \<times> 'e"
  ev_file :: "('h \<times> 'e) writable_ops"
  ev_Delete :: "'h \<Rightarrow> 'e \<Rightarrow> 'e"
  ev_read :: "'s sequential_read"

definition WriteToFile :: "('h, 's, 'e) env_ops \<Rightarrow> bytes \<Rightarrow> bytes \<Rightarrow> bool \<Rightarrow> 'e \<Rightarrow> (Status \<times> 'e) option" where
  "WriteToFile env data fname should_sync e =
     (case ev_NewWritableFile env fname e of
        (Inl status, e) \<Rightarrow> Some (status, e)
      | (Inr h, e) \<Rightarrow>
          do { (status, (h, e), remove) \<leftarrow> DoWriteStringToFile (ev_file env) (OK, (h, e)) data should_sync;
               let e = ev_Delete env h e;
               Some (status, if remove then snd (ev_RemoveFile env fname e) else e) })"

definition WriteStringToFile :: "('h, 's, 'e) env_ops \<Rightarrow> bytes \<Rightarrow> bytes \<Rightarrow> 'e \<Rightarrow> (Status \<times> 'e) option" where
  "WriteStringToFile env data fname e = WriteToFile env data fname False e"

definition WriteStringToFileSync :: "('h, 's, 'e) env_ops \<Rightarrow> bytes \<Rightarrow> bytes \<Rightarrow> 'e \<Rightarrow> (Status \<times> 'e) option" where
  "WriteStringToFileSync env data fname e = WriteToFile env data fname True e"

definition ReadFileToString :: "('h, 's, 'e) env_ops \<Rightarrow> bytes \<Rightarrow> 'e \<Rightarrow> (Status \<times> bytes \<times> 'e) option" where
  "ReadFileToString env fname e =
     (case ev_NewSequentialFile env fname e of
        (Inl status, e) \<Rightarrow> Some (status, [], e)
      | (Inr s, e) \<Rightarrow> map_option (\<lambda>(status, data, s). (status, data, e)) (ReadFileLoop (ev_read env) [] s))"

definition SetCurrentFile :: "('h, 's, 'e) env_ops \<Rightarrow> bytes \<Rightarrow> u64 \<Rightarrow> 'e \<Rightarrow> (Status \<times> 'e) option" where
  "SetCurrentFile env dbname descriptor_number e =
     (let manifest = DescriptorFileName dbname descriptor_number;
          contents = drop (length dbname + 1) manifest;
          current = contents @ [10];
          tmp = TempFileName dbname descriptor_number
      in do { (status, e) \<leftarrow> WriteStringToFileSync env current tmp e;
              let (status, e) = (if ok status then ev_RenameFile env tmp (CurrentFileName dbname) e else (status, e));
              Some (status, if \<not> ok status then snd (ev_RemoveFile env tmp e) else e) })"

section \<open>The file system of PosixEnv\<close>

text \<open>
  The system calls, over a state \<open>'o\<close> of the operating system: \<open>open\<close> by its mode, \<open>readdir\<close> as the names it
  returns in turn and the error number left at the end, \<open>stat\<close> as the error number or \<open>st_size\<close>.
\<close>

datatype open_mode = O_read | O_trunc | O_append

record 'o fs_calls =
  sys_open :: "bytes \<Rightarrow> open_mode \<Rightarrow> 'o \<Rightarrow> sysret \<times> 'o"
  sys_access :: "bytes \<Rightarrow> 'o \<Rightarrow> bool"
  sys_opendir :: "bytes \<Rightarrow> 'o \<Rightarrow> sysret"
  sys_readdir :: "bytes \<Rightarrow> 'o \<Rightarrow> bytes list \<times> nat"
  sys_unlink :: "bytes \<Rightarrow> 'o \<Rightarrow> sysret \<times> 'o"
  sys_mkdir :: "bytes \<Rightarrow> 'o \<Rightarrow> sysret \<times> 'o"
  sys_rmdir :: "bytes \<Rightarrow> 'o \<Rightarrow> sysret \<times> 'o"
  sys_rename :: "bytes \<Rightarrow> bytes \<Rightarrow> 'o \<Rightarrow> sysret \<times> 'o"
  sys_stat :: "bytes \<Rightarrow> 'o \<Rightarrow> nat + int"
  fs_strerror :: "nat \<Rightarrow> bytes"

text \<open>An open file is its name with its descriptor.\<close>

definition Posix_open :: "'o fs_calls \<Rightarrow> open_mode \<Rightarrow> bytes \<Rightarrow> 'o \<Rightarrow> (Status + bytes \<times> nat) \<times> 'o" where
  "Posix_open sys mode fname k =
     (case sys_open sys fname mode k of
        (SysErr e, k) \<Rightarrow> (Inl (PosixError (fs_strerror sys) fname e), k)
      | (SysOk fd, k) \<Rightarrow> (Inr (fname, fd), k))"

definition Posix_NewSequentialFile :: "'o fs_calls \<Rightarrow> bytes \<Rightarrow> 'o \<Rightarrow> (Status + bytes \<times> nat) \<times> 'o" where
  "Posix_NewSequentialFile sys = Posix_open sys O_read"

definition Posix_NewRandomAccessFile :: "'o fs_calls \<Rightarrow> bytes \<Rightarrow> 'o \<Rightarrow> (Status + bytes \<times> nat) \<times> 'o" where
  "Posix_NewRandomAccessFile sys = Posix_open sys O_read"

definition Posix_NewWritableFile :: "'o fs_calls \<Rightarrow> bytes \<Rightarrow> 'o \<Rightarrow> (Status + bytes \<times> nat) \<times> 'o" where
  "Posix_NewWritableFile sys = Posix_open sys O_trunc"

definition Posix_NewAppendableFile :: "'o fs_calls \<Rightarrow> bytes \<Rightarrow> 'o \<Rightarrow> (Status + bytes \<times> nat) \<times> 'o" where
  "Posix_NewAppendableFile sys = Posix_open sys O_append"

definition Posix_FileExists :: "'o fs_calls \<Rightarrow> bytes \<Rightarrow> 'o \<Rightarrow> bool" where
  "Posix_FileExists sys fname k = sys_access sys fname k"

definition Posix_GetChildren :: "'o fs_calls \<Rightarrow> bytes \<Rightarrow> 'o \<Rightarrow> Status \<times> bytes list" where
  "Posix_GetChildren sys dir k =
     (case sys_opendir sys dir k of
        SysErr e \<Rightarrow> (PosixError (fs_strerror sys) dir e, [])
      | SysOk d \<Rightarrow>
          (let (names, saved_errno) = sys_readdir sys dir k
           in (if saved_errno \<noteq> 0 then PosixError (fs_strerror sys) dir saved_errno else OK, names)))"

definition posix_status :: "'o fs_calls \<Rightarrow> bytes \<Rightarrow> sysret \<times> 'o \<Rightarrow> Status \<times> 'o" where
  "posix_status sys context_name r =
     (case r of (SysErr e, k) \<Rightarrow> (PosixError (fs_strerror sys) context_name e, k) | (SysOk n, k) \<Rightarrow> (OK, k))"

definition Posix_RemoveFile :: "'o fs_calls \<Rightarrow> bytes \<Rightarrow> 'o \<Rightarrow> Status \<times> 'o" where
  "Posix_RemoveFile sys fname k = posix_status sys fname (sys_unlink sys fname k)"

definition Posix_CreateDir :: "'o fs_calls \<Rightarrow> bytes \<Rightarrow> 'o \<Rightarrow> Status \<times> 'o" where
  "Posix_CreateDir sys dirname k = posix_status sys dirname (sys_mkdir sys dirname k)"

definition Posix_RemoveDir :: "'o fs_calls \<Rightarrow> bytes \<Rightarrow> 'o \<Rightarrow> Status \<times> 'o" where
  "Posix_RemoveDir sys dirname k = posix_status sys dirname (sys_rmdir sys dirname k)"

definition EINVAL :: nat where
  "EINVAL = 22"

definition Posix_GetFileSize :: "'o fs_calls \<Rightarrow> bytes \<Rightarrow> 'o \<Rightarrow> Status \<times> u64" where
  "Posix_GetFileSize sys fname k =
     (case sys_stat sys fname k of
        Inl e \<Rightarrow> (PosixError (fs_strerror sys) fname e, 0)
      | Inr st_size \<Rightarrow> if st_size < 0 then (PosixError (fs_strerror sys) fname EINVAL, 0) else (OK, of_int st_size))"

definition Posix_RenameFile :: "'o fs_calls \<Rightarrow> bytes \<Rightarrow> bytes \<Rightarrow> 'o \<Rightarrow> Status \<times> 'o" where
  "Posix_RenameFile sys src target k = posix_status sys src (sys_rename sys src target k)"

text \<open>
  The background work of an environment: \<open>Schedule\<close> appends an item and starts the thread once; a step of the
  thread waits for an item, takes the first one and runs it.
\<close>

record 'w background =
  bg_started :: bool
  bg_queue :: "'w list"

definition Posix_Schedule :: "'w \<Rightarrow> 'w background \<Rightarrow> 'w background" where
  "Posix_Schedule item b = b\<lparr>bg_started := True, bg_queue := bg_queue b @ [item]\<rparr>"

definition BackgroundThread_take :: "'w background \<Rightarrow> ('w \<times> 'w background) option" where
  "BackgroundThread_take b =
     (if \<not> bg_started b then None
      else case bg_queue b of [] \<Rightarrow> None | item # rest \<Rightarrow> Some (item, b\<lparr>bg_queue := rest\<rparr>))"

section \<open>Logs on files\<close>

lemma bind_SomeE: "Option.bind x f = Some y \<Longrightarrow> (\<And>z. x = Some z \<Longrightarrow> f z = Some y \<Longrightarrow> R) \<Longrightarrow> R"
  by (cases x) auto

text \<open>A log writer kept beside the environment: \<open>AddRecord\<close> with the file and the state put together.\<close>

definition LogAdd :: "('h, 's, 'e) env_ops \<Rightarrow> bytes \<Rightarrow> 'h LogWriter \<Rightarrow> 'e \<Rightarrow> (Status \<times> 'h LogWriter \<times> 'e) option" where
  "LogAdd env data w e =
     map_option (\<lambda>(status, w'). (status, \<lparr>block_offset = block_offset w', dest = fst (dest w')\<rparr>, snd (dest w')))
       (AddRecord (ev_file env) data \<lparr>block_offset = block_offset w, dest = (dest w, e)\<rparr>)"

definition LogSync :: "('h, 's, 'e) env_ops \<Rightarrow> 'h LogWriter \<Rightarrow> 'e \<Rightarrow> (Status \<times> 'h LogWriter \<times> 'e) option" where
  "LogSync env w e = map_option (\<lambda>(status, (h, e)). (status, w\<lparr>dest := h\<rparr>, e)) (wf_Sync (ev_file env) (dest w, e))"

context writable_file
begin

text \<open>A record that was added with status OK was emitted completely.\<close>

lemma EmitPhysicalRecord_ok:
  assumes "EmitPhysicalRecord ops type data w = Some (s, w')" "ok s"
  shows "contents (dest w') = contents (dest w) @ physical type data" "block_offset w' = block_offset w + 7 + length data"
proof -
  from assms obtain s1 f1 s2 f2 s3 f3 where
    E: "wf_Append ops (record_header type data) (dest w) = Some (s1, f1)"
      "(if ok s1 then wf_Append ops data f1 else Some (s1, f1)) = Some (s2, f2)"
      "(if ok s2 then wf_Flush ops f2 else Some (s2, f2)) = Some (s3, f3)"
      "s = s3" "w' = w\<lparr>block_offset := block_offset w + (log_kHeaderSize + length data), dest := f3\<rparr>"
    unfolding EmitPhysicalRecord_def by (auto simp: bind_eq_Some_conv)
  have o: "ok s2" "ok s1" using assms(2) E(2-4) by (auto split: if_splits)
  then have "wf_Append ops data f1 = Some (s2, f2)" "wf_Flush ops f2 = Some (s3, f3)" using E(2,3) by simp_all
  from append_ok [OF E(1) o(2)] append_ok [OF this(1) o(1)] flush_ok [OF this(2)] assms(2) E(4,5)
  show "contents (dest w') = contents (dest w) @ physical type data" "block_offset w' = block_offset w + 7 + length data"
    by (simp_all add: physical_def log_kHeaderSize_def)
qed

lemma SwitchBlock_ok:
  assumes "SwitchBlock ops w = Some (s, w')" "ok s"
  shows "contents (dest w') = contents (dest w) @ padding (block_offset w)" "block_offset w' = start_offset (block_offset w)"
  using assms append_ok [of "replicate (log_kBlockSize - block_offset w) 0" "dest w"]
  by (auto simp: SwitchBlock_def Let_def padding_def start_offset_def bind_eq_Some_conv split: if_splits)

lemma AddRecordLoop_ok:
  "AddRecordLoop ops is_begin data w = Some (s, w') \<Longrightarrow> ok s \<Longrightarrow>
     contents (dest w') = contents (dest w) @ emitted (block_offset w) is_begin data \<and>
     block_offset w' = offset_after (block_offset w) data"
proof (induction "block_offset w" is_begin data arbitrary: w w' rule: emitted.induct)
  case (1 is_begin data)
  let ?off = "block_offset w"
  from 1(2) obtain s1 w1 where w1: "SwitchBlock ops w = Some (s1, w1)"
    by (subst (asm) AddRecordLoop.simps) (auto simp: bind_eq_Some_conv)
  have ok1: "ok s1" using 1(2,3) w1 by (subst (asm) AddRecordLoop.simps) (auto split: if_splits)
  note W1 = SwitchBlock_ok [OF w1 ok1]
  have r: "log_kBlockSize - block_offset w1 - log_kHeaderSize = room ?off"
    by (simp add: W1(2) room_def)
  let ?n = "if length data < room ?off then length data else room ?off"
  have n: "take ?n data = take (room ?off) data" "drop ?n data = drop (room ?off) data"
      "length data = ?n \<longleftrightarrow> length data \<le> room ?off" "drop (room ?off) data = [] \<longleftrightarrow> length data \<le> room ?off"
    by auto
  let ?E = "EmitPhysicalRecord ops (fragment_type is_begin (length data \<le> room ?off)) (take (room ?off) data) w1"
  have unf: "AddRecordLoop ops is_begin data w = Option.bind ?E (\<lambda>(s2, w2).
      if \<not> ok s2 then Some (s2, w2)
      else if drop (room ?off) data \<noteq> [] then AddRecordLoop ops False (drop (room ?off) data) w2 else Some (OK, w2))"
    unfolding AddRecordLoop.simps [of ops is_begin data w] w1 Option.bind.bind_lunit case_prod_conv Let_def r n
    using ok1 by simp
  from 1(2) obtain s2 w2 where w2: "?E = Some (s2, w2)" unfolding unf by (auto simp: bind_eq_Some_conv)
  have ok2: "ok s2" using 1(2,3) w2 unfolding unf by (auto split: if_splits)
  note W2 = EmitPhysicalRecord_ok [OF w2 ok2]
  have off2: "block_offset w2 = next_offset ?off data"
    by (simp add: W2(2) W1(2) next_offset_def log_kHeaderSize_def min.commute)
  have run: "(if drop (room ?off) data \<noteq> [] then AddRecordLoop ops False (drop (room ?off) data) w2 else Some (OK, w2)) = Some (s, w')"
    using 1(2) w2 ok2 unfolding unf by simp
  show ?case
  proof (cases "length data \<le> room ?off")
    case True
    then show ?thesis
      using run W2(1) W1(1) off2 by (simp add: emitted.simps [of ?off] offset_after.simps [of ?off])
  next
    case False
    then have "AddRecordLoop ops False (drop (room ?off) data) w2 = Some (s, w')" using run by simp
    from 1(1) [OF False off2 [symmetric] this 1(3)] show ?thesis
      using False W2(1) W1(1) off2 by (simp add: emitted.simps [of ?off] offset_after.simps [of ?off])
  qed
qed

lemma AddRecord_ok:
  "AddRecord ops data w = Some (s, w') \<Longrightarrow> ok s \<Longrightarrow>
     contents (dest w') = contents (dest w) @ emitted (block_offset w) True data \<and> block_offset w' = offset_after (block_offset w) data"
  unfolding AddRecord_def by (rule AddRecordLoop_ok)

end

text \<open>What the operations of the file preserve, a run of the writer preserves, whether it succeeds or not.\<close>

lemma EmitPhysicalRecord_invariant:
  assumes "\<And>bs f s f'. wf_Append ops bs f = Some (s, f') \<Longrightarrow> I f \<Longrightarrow> I f'" "\<And>f s f'. wf_Flush ops f = Some (s, f') \<Longrightarrow> I f \<Longrightarrow> I f'"
    and "EmitPhysicalRecord ops type data w = Some (s, w')" "I (dest w)"
  shows "I (dest w')"
proof -
  from assms(3) obtain s1 f1 s2 f2 f3 where
    E: "wf_Append ops (record_header type data) (dest w) = Some (s1, f1)"
      "(if ok s1 then wf_Append ops data f1 else Some (s1, f1)) = Some (s2, f2)"
      "(if ok s2 then wf_Flush ops f2 else Some (s2, f2)) = Some (s, f3)" "dest w' = f3"
    unfolding EmitPhysicalRecord_def by (auto simp: bind_eq_Some_conv)
  have "I f1" by (rule assms(1) [OF E(1) assms(4)])
  then have "I f2" using E(2) assms(1) [of data f1 s2 f2] by (cases "ok s1") simp_all
  then show "I (dest w')" using E(3,4) assms(2) [of f2 s f3] by (cases "ok s2") simp_all
qed

lemma SwitchBlock_invariant:
  assumes "\<And>bs f s f'. wf_Append ops bs f = Some (s, f') \<Longrightarrow> I f \<Longrightarrow> I f'"
    and "SwitchBlock ops w = Some (s, w')" "I (dest w)"
  shows "I (dest w')"
  using assms(2,3) unfolding SwitchBlock_def by (auto simp: Let_def bind_eq_Some_conv split: if_splits intro: assms(1))

lemma AddRecordLoop_invariant:
  assumes "\<And>bs f s f'. wf_Append ops bs f = Some (s, f') \<Longrightarrow> I f \<Longrightarrow> I f'" "\<And>f s f'. wf_Flush ops f = Some (s, f') \<Longrightarrow> I f \<Longrightarrow> I f'"
    and "AddRecordLoop ops is_begin data w = Some (s, w')" "I (dest w)"
  shows "I (dest w')"
proof -
  let ?P = "\<lambda>ops' is_begin data w (s :: Status, w'). ops' = ops \<longrightarrow> I (dest w) \<longrightarrow> I (dest w')"
  have "?P ops is_begin data w (s, w')"
  proof (rule AddRecordLoop.raw_induct [where P = ?P, OF _ assms(3)])
    fix rec ops' is_begin data w r
    assume IH: "\<And>ops' is_begin data w r. rec ops' is_begin data w = Some r \<Longrightarrow> ?P ops' is_begin data w r"
      and step: "Option.bind (SwitchBlock ops' w) (\<lambda>(s1, w1).
          if \<not> ok s1 then Some (s1, w1)
          else let avail = log_kBlockSize - block_offset w1 - log_kHeaderSize;
                   fragment_length = (if length data < avail then length data else avail);
                   is_end = (length data = fragment_length)
               in Option.bind (EmitPhysicalRecord ops' (fragment_type is_begin is_end) (take fragment_length data) w1) (\<lambda>(s2, w2).
                    if \<not> ok s2 then Some (s2, w2)
                    else let left = drop fragment_length data in if left \<noteq> [] then rec ops' False left w2 else Some (OK, w2))) = Some r"
    obtain s w' where r: "r = (s, w')" by fastforce
    have "I (dest w')" if o: "ops' = ops" and w: "I (dest w)"
    proof -
      from step obtain s1 w1 where w1: "SwitchBlock ops w = Some (s1, w1)" by (cases "SwitchBlock ops w") (auto simp: o)
      have I1: "I (dest w1)" by (rule SwitchBlock_invariant [where I = I, OF assms(1) w1 w])
      show ?thesis
      proof (cases "ok s1")
        case False
        then show ?thesis using step I1 w1 by (simp add: o r)
      next
        case True
        define n where "n = (if length data < log_kBlockSize - block_offset w1 - log_kHeaderSize then length data else log_kBlockSize - block_offset w1 - log_kHeaderSize)"
        define fin where "fin \<longleftrightarrow> length data = n"
        have st: "Option.bind (EmitPhysicalRecord ops (fragment_type is_begin fin) (take n data) w1) (\<lambda>(s2, w2).
            if \<not> ok s2 then Some (s2, w2) else if drop n data \<noteq> [] then rec ops False (drop n data) w2 else Some (OK, w2)) = Some r"
          using step True w1 unfolding o Let_def n_def fin_def by simp
        then obtain s2 w2 where w2: "EmitPhysicalRecord ops (fragment_type is_begin fin) (take n data) w1 = Some (s2, w2)"
          by (cases "EmitPhysicalRecord ops (fragment_type is_begin fin) (take n data) w1") auto
        have I2: "I (dest w2)" by (rule EmitPhysicalRecord_invariant [where I = I, OF assms(1,2) w2 I1])
        have run: "(if \<not> ok s2 then Some (s2, w2) else if drop n data \<noteq> [] then rec ops False (drop n data) w2 else Some (OK, w2)) = Some r"
          using st w2 by simp
        show ?thesis
        proof (cases "ok s2 \<and> drop n data \<noteq> []")
          case True
          with run have "rec ops False (drop n data) w2 = Some r" by simp
          from IH [OF this] I2 show ?thesis by (simp add: r)
        next
          case False
          with run have "r = (if ok s2 then OK else s2, w2)" by (cases "ok s2") simp_all
          with I2 show ?thesis by (simp add: r)
        qed
      qed
    qed
    then show "?P ops' is_begin data w r" by (simp add: r)
  qed
  with assms(4) show ?thesis by simp
qed

section \<open>The contract of a file system\<close>

text \<open>
  \<open>files e\<close> is what the file system holds; an open writable file \<open>h\<close> has the name \<open>name h\<close>, and \<open>held h e\<close> is
  what the file will hold once \<open>h\<close> is synced. What succeeds has its effect; what fails may leave
  anything behind in the file concerned. Nothing has an effect on another file.
\<close>

definition frame :: "('e \<Rightarrow> bytes \<Rightarrow> bytes option) \<Rightarrow> ('h \<Rightarrow> bytes) \<Rightarrow> ('h \<Rightarrow> 'e \<Rightarrow> bytes) \<Rightarrow> bytes set \<Rightarrow> 'e \<Rightarrow> 'e \<Rightarrow> bool" where
  "frame files name held ns e e' \<longleftrightarrow> (\<forall>n. n \<notin> ns \<longrightarrow> files e' n = files e n) \<and> (\<forall>h. name h \<notin> ns \<longrightarrow> held h e' = held h e)"

locale file_system =
  fixes env :: "('h, 's, 'e) env_ops" and files :: "'e \<Rightarrow> bytes \<Rightarrow> bytes option"
    and name :: "'h \<Rightarrow> bytes" and held :: "'h \<Rightarrow> 'e \<Rightarrow> bytes" and remaining :: "'s \<Rightarrow> bytes"
  assumes new_writable: "ev_NewWritableFile env n e = (Inr h, e') \<Longrightarrow>
      files e' n = Some [] \<and> name h = n \<and> held h e' = [] \<and> frame files name held {n} e e'"
    and new_fails: "ev_NewWritableFile env n e = (Inl st, e') \<Longrightarrow> \<not> ok st \<and> frame files name held {n} e e'"
    and append: "wf_Append (ev_file env) bs (h, e) = Some (st, (h', e')) \<Longrightarrow>
      name h' = name h \<and> (files e' (name h) = None \<longleftrightarrow> files e (name h) = None) \<and> frame files name held {name h} e e'
      \<and> (ok st \<longrightarrow> held h' e' = held h e @ bs)"
    and flush: "wf_Flush (ev_file env) (h, e) = Some (st, (h', e')) \<Longrightarrow>
      name h' = name h \<and> (files e' (name h) = None \<longleftrightarrow> files e (name h) = None) \<and> frame files name held {name h} e e'
      \<and> (ok st \<longrightarrow> held h' e' = held h e)"
    and sync: "wf_Sync (ev_file env) (h, e) = Some (st, (h', e')) \<Longrightarrow>
      name h' = name h \<and> (files e' (name h) = None \<longleftrightarrow> files e (name h) = None) \<and> frame files name held {name h} e e'
      \<and> (ok st \<longrightarrow> held h' e' = held h e \<and> (files e (name h) \<noteq> None \<longrightarrow> files e' (name h) = Some (held h e)))"
    and close: "wf_Close (ev_file env) (h, e) = Some (st, (h', e')) \<Longrightarrow>
      name h' = name h \<and> (files e' (name h) = None \<longleftrightarrow> files e (name h) = None) \<and> frame files name held {name h} e e'
      \<and> (ok st \<longrightarrow> held h' e' = held h e \<and> (files e (name h) \<noteq> None \<longrightarrow> files e' (name h) = Some (held h e)))"
    and delete: "frame files name held {name h} e (ev_Delete env h e)"
      "files e (name h) = Some (held h e) \<Longrightarrow> files (ev_Delete env h e) (name h) = files e (name h)"
    and remove: "ev_RemoveFile env n e = (st, e') \<Longrightarrow> frame files name held {n} e e' \<and> (ok st \<longrightarrow> files e' n = None)"
    and rename: "ev_RenameFile env n m e = (st, e') \<Longrightarrow> frame files name held {n, m} e e'
      \<and> (ok st \<longrightarrow> files e' m = files e n \<and> (n \<noteq> m \<longrightarrow> files e' n = None))"
    and sequential: "files e n = Some d \<Longrightarrow> \<exists>sf. ev_NewSequentialFile env n e = (Inr sf, e) \<and> remaining sf = d"
    and read: "\<exists>sf'. ev_read env k sf = Some (OK, take k (remaining sf), sf') \<and> remaining sf' = drop k (remaining sf)"
begin

abbreviation same_but :: "bytes set \<Rightarrow> 'e \<Rightarrow> 'e \<Rightarrow> bool" where
  "same_but \<equiv> frame files name held"

lemma same_but_refl: "same_but ns e e"
  by (simp add: frame_def)

lemma same_but_trans: "same_but ns e e1 \<Longrightarrow> same_but ms e1 e2 \<Longrightarrow> same_but (ns \<union> ms) e e2"
  by (simp add: frame_def)

lemma same_but_mono: "same_but ns e e' \<Longrightarrow> ns \<subseteq> ms \<Longrightarrow> same_but ms e e'"
  by (auto simp: frame_def)

lemma same_but_via: "same_but ns e e1 \<Longrightarrow> same_but ms e1 e2 \<Longrightarrow> ns \<subseteq> us \<Longrightarrow> ms \<subseteq> us \<Longrightarrow> same_but us e e2"
  by (rule same_but_mono [OF same_but_trans [of ns e e1 ms e2]]) simp_all

lemma writable: "writable_file (ev_file env) (\<lambda>(h, e). held h e)"
proof unfold_locales
  fix bs f s f' assume "wf_Append (ev_file env) bs f = Some (s, f')" "ok s"
  then show "(case f' of (h, e) \<Rightarrow> held h e) = (case f of (h, e) \<Rightarrow> held h e) @ bs"
    using append [of bs "fst f" "snd f" s "fst f'" "snd f'"] by (simp add: case_prod_beta)
next
  fix f s f' assume "wf_Flush (ev_file env) f = Some (s, f')" "ok s"
  then show "(case f' of (h, e) \<Rightarrow> held h e) = (case f of (h, e) \<Rightarrow> held h e)"
    using flush [of "fst f" "snd f" s "fst f'" "snd f'"] by (simp add: case_prod_beta)
qed

lemma reads: "sequential_file (ev_read env) remaining"
  by unfold_locales (rule read)

lemma ReadFileToString_ok: "files e n = Some d \<Longrightarrow> ReadFileToString env n e = Some (OK, d, e)"
  using sequential [of e n d] sequential_file.ReadFileLoop_all [OF reads, of "[]"] by (fastforce simp: ReadFileToString_def)

text \<open>A file that was written as a whole holds its data.\<close>

lemma WriteToFile_effect:
  assumes "WriteToFile env data fname should_sync e = Some (st, e')"
  shows "same_but {fname} e e' \<and> (ok st \<longrightarrow> files e' fname = Some data)"
proof -
  obtain r e0 where new: "ev_NewWritableFile env fname e = (r, e0)" by fastforce
  show ?thesis
  proof (cases r)
    case (Inl s)
    have "WriteToFile env data fname should_sync e = Some (s, e0)" using new Inl by (simp add: WriteToFile_def)
    then show ?thesis using assms new_fails [OF new [unfolded Inl]] by simp
  next
    case (Inr h)
    note N = new_writable [OF new [unfolded Inr]]
    have "\<exists>s1 f1 s2 f2 s3 h3 e3. wf_Append (ev_file env) data (h, e0) = Some (s1, f1)
        \<and> (if ok s1 \<and> should_sync then wf_Sync (ev_file env) f1 else Some (s1, f1)) = Some (s2, f2)
        \<and> (if ok s2 then wf_Close (ev_file env) f2 else Some (s2, f2)) = Some (s3, (h3, e3))
        \<and> st = s3 \<and> e' = (if \<not> ok s3 then snd (ev_RemoveFile env fname (ev_Delete env h3 e3)) else ev_Delete env h3 e3)"
    proof -
      from assms new Inr obtain st' h3 e3 rm where
        D: "DoWriteStringToFile (ev_file env) (OK, (h, e0)) data should_sync = Some (st', (h3, e3), rm)"
          "(st, e') = (st', if rm then snd (ev_RemoveFile env fname (ev_Delete env h3 e3)) else ev_Delete env h3 e3)"
        unfolding WriteToFile_def by (auto simp: bind_eq_Some_conv Let_def)
      from D(1) obtain s1 f1 s2 f2 s3 f3 where
        E: "wf_Append (ev_file env) data (h, e0) = Some (s1, f1)"
          "(if ok s1 \<and> should_sync then wf_Sync (ev_file env) f1 else Some (s1, f1)) = Some (s2, f2)"
          "(if ok s2 then wf_Close (ev_file env) f2 else Some (s2, f2)) = Some (s3, f3)"
          "(st', (h3, e3), rm) = (s3, f3, \<not> ok s3)"
        unfolding DoWriteStringToFile_def by (auto simp: bind_eq_Some_conv ok_def OK_def)
      then show ?thesis using D(2) by blast
    qed
    then obtain s1 f1 s2 f2 s3 h3 e3 where
      W: "wf_Append (ev_file env) data (h, e0) = Some (s1, f1)"
        "(if ok s1 \<and> should_sync then wf_Sync (ev_file env) f1 else Some (s1, f1)) = Some (s2, f2)"
        "(if ok s2 then wf_Close (ev_file env) f2 else Some (s2, f2)) = Some (s3, (h3, e3))"
        "st = s3" "e' = (if \<not> ok s3 then snd (ev_RemoveFile env fname (ev_Delete env h3 e3)) else ev_Delete env h3 e3)" by blast
    obtain h1 e1 where f1: "f1 = (h1, e1)" by fastforce
    obtain h2 e2 where f2: "f2 = (h2, e2)" by fastforce
    have A: "name h1 = fname" "files e1 fname \<noteq> None" "same_but {fname} e e1" "ok s1 \<longrightarrow> held h1 e1 = data"
      using append [OF W(1) [unfolded f1]] N same_but_via [of "{fname}" e e0 "{fname}" e1 "{fname}"] by simp_all
    have B: "name h2 = fname" "files e2 fname \<noteq> None" "same_but {fname} e e2" "ok s2 \<longrightarrow> ok s1 \<and> held h2 e2 = data"
    proof -
      consider "ok s1 \<and> should_sync" "wf_Sync (ev_file env) (h1, e1) = Some (s2, (h2, e2))" | "s2 = s1" "h2 = h1" "e2 = e1"
        using W(2) by (auto simp: f1 f2 split: if_splits)
      then have "name h2 = fname \<and> files e2 fname \<noteq> None \<and> same_but {fname} e e2 \<and> (ok s2 \<longrightarrow> ok s1 \<and> held h2 e2 = data)"
      proof cases
        case 1
        with sync [OF 1(2)] A same_but_via [of "{fname}" e e1 "{fname}" e2 "{fname}"] show ?thesis by simp
      qed (use A in simp)
      then show "name h2 = fname" "files e2 fname \<noteq> None" "same_but {fname} e e2" "ok s2 \<longrightarrow> ok s1 \<and> held h2 e2 = data" by blast+
    qed
    have C: "name h3 = fname \<and> same_but {fname} e e3 \<and> (ok s3 \<longrightarrow> held h3 e3 = data \<and> files e3 fname = Some (held h3 e3))"
    proof -
      consider "ok s2" "wf_Close (ev_file env) (h2, e2) = Some (s3, (h3, e3))" | "\<not> ok s2" "s3 = s2" "h3 = h2" "e3 = e2"
        using W(3) by (auto simp: f2 split: if_splits)
      then show ?thesis
      proof cases
        case 1
        with close [OF 1(2)] B same_but_via [of "{fname}" e e2 "{fname}" e3 "{fname}"] show ?thesis by simp
      qed (use B in simp)
    qed
    let ?e4 = "ev_Delete env h3 e3"
    have D: "same_but {fname} e ?e4" "ok s3 \<longrightarrow> files ?e4 fname = Some data"
      using C delete(1) [of h3 e3] delete(2) [of e3 h3] same_but_via [of "{fname}" e e3 "{fname}" ?e4 "{fname}"] by simp_all
    show ?thesis
    proof (cases "ok s3")
      case True
      with D W(4,5) show ?thesis by simp
    next
      case False
      obtain s5 e5 where r: "ev_RemoveFile env fname ?e4 = (s5, e5)" by fastforce
      from remove [OF r] D False W(4,5) same_but_via [of "{fname}" e ?e4 "{fname}" e5 "{fname}"] show ?thesis by (simp add: r)
    qed
  qed
qed

text \<open>\<open>SetCurrentFile\<close> touches the temporary file and CURRENT only; when it succeeds CURRENT names the MANIFEST.\<close>

lemma SetCurrentFile_effect:
  assumes "SetCurrentFile env dbname number e = Some (st, e')" "TempFileName dbname number \<noteq> CurrentFileName dbname"
  shows "same_but {TempFileName dbname number, CurrentFileName dbname} e e'
    \<and> (ok st \<longrightarrow> files e' (CurrentFileName dbname) = Some (drop (length dbname + 1) (DescriptorFileName dbname number) @ [10]))"
proof -
  let ?c = "drop (length dbname + 1) (DescriptorFileName dbname number) @ [10]" and ?tmp = "TempFileName dbname number"
  let ?ns = "{?tmp, CurrentFileName dbname}"
  from assms(1) obtain s1 e1 where W1: "WriteStringToFileSync env ?c ?tmp e = Some (s1, e1)"
    unfolding SetCurrentFile_def Let_def by (auto simp: bind_eq_Some_conv)
  obtain s2 e2 where W2: "(if ok s1 then ev_RenameFile env ?tmp (CurrentFileName dbname) e1 else (s1, e1)) = (s2, e2)" by fastforce
  have r: "(st, e') = (s2, if \<not> ok s2 then snd (ev_RemoveFile env ?tmp e2) else e2)"
    using assms(1) W1 W2 unfolding SetCurrentFile_def Let_def by (cases "ok st") auto
  note A = WriteToFile_effect [OF W1 [unfolded WriteStringToFileSync_def]]
  have B: "same_but ?ns e e2 \<and> (ok s2 \<longrightarrow> files e2 (CurrentFileName dbname) = Some ?c)"
  proof (cases "ok s1")
    case True
    with W2 have "ev_RenameFile env ?tmp (CurrentFileName dbname) e1 = (s2, e2)" by simp
    from rename [OF this] A True assms(2) same_but_via [of "{?tmp}" e e1 ?ns e2 ?ns] show ?thesis by auto
  next
    case False
    with W2 A same_but_mono [of "{?tmp}" e e1 ?ns] show ?thesis by auto
  qed
  show ?thesis
  proof (cases "ok s2")
    case False
    obtain s3 e3 where rm: "ev_RemoveFile env ?tmp e2 = (s3, e3)" by fastforce
    from remove [OF rm] B same_but_trans [of ?ns e e2 "{?tmp}" e3] r False show ?thesis by (auto simp: rm insert_absorb)
  qed (use B r in simp)
qed

text \<open>A record added to a log file.\<close>

lemma LogAdd_effect:
  assumes "LogAdd env data w e = Some (st, w', e')"
  shows "name (dest w') = name (dest w) \<and> same_but {name (dest w)} e e'
    \<and> (files e' (name (dest w)) = None \<longleftrightarrow> files e (name (dest w)) = None)
    \<and> (ok st \<longrightarrow> held (dest w') e' = held (dest w) e @ emitted (block_offset w) True data \<and> block_offset w' = offset_after (block_offset w) data)"
proof -
  from assms obtain v where v: "AddRecord (ev_file env) data \<lparr>block_offset = block_offset w, dest = (dest w, e)\<rparr> = Some (st, v)"
      "w' = \<lparr>block_offset = block_offset v, dest = fst (dest v)\<rparr>" "e' = snd (dest v)"
    unfolding LogAdd_def by (cases "AddRecord (ev_file env) data \<lparr>block_offset = block_offset w, dest = (dest w, e)\<rparr>") auto
  define I where "I f \<longleftrightarrow> name (fst f) = name (dest w) \<and> same_but {name (dest w)} e (snd f)
      \<and> (files (snd f) (name (dest w)) = None \<longleftrightarrow> files e (name (dest w)) = None)" for f
  have step: "I f'" if "I f" "name (fst f') = name (fst f)" "files (snd f') (name (fst f)) = None \<longleftrightarrow> files (snd f) (name (fst f)) = None"
      "same_but {name (fst f)} (snd f) (snd f')" for f f'
    using that same_but_via [of "{name (dest w)}" e "snd f" "{name (dest w)}" "snd f'" "{name (dest w)}"] by (simp add: I_def)
  have "I (dest v)"
  proof (rule AddRecordLoop_invariant [OF _ _ v(1) [unfolded AddRecord_def]])
    fix bs f s f' assume "wf_Append (ev_file env) bs f = Some (s, f')" "I f"
    then have "wf_Append (ev_file env) bs (fst f, snd f) = Some (s, (fst f', snd f'))" by simp
    from append [OF this] show "I f'" by (intro step [OF \<open>I f\<close>]) blast+
  next
    fix f s f' assume "wf_Flush (ev_file env) f = Some (s, f')" "I f"
    then have "wf_Flush (ev_file env) (fst f, snd f) = Some (s, (fst f', snd f'))" by simp
    from flush [OF this] show "I f'" by (intro step [OF \<open>I f\<close>]) blast+
  qed (simp add: I_def same_but_refl)
  moreover have "ok st \<Longrightarrow> held (dest w') e' = held (dest w) e @ emitted (block_offset w) True data \<and> block_offset w' = offset_after (block_offset w) data"
    using writable_file.AddRecord_ok [OF writable v(1)] by (simp add: v(2,3) case_prod_beta)
  ultimately show ?thesis by (simp add: I_def v(2,3))
qed

lemma LogSync_effect:
  assumes "LogSync env w e = Some (st, w', e')"
  shows "name (dest w') = name (dest w) \<and> same_but {name (dest w)} e e' \<and> block_offset w' = block_offset w
    \<and> (files e' (name (dest w)) = None \<longleftrightarrow> files e (name (dest w)) = None)
    \<and> (ok st \<longrightarrow> held (dest w') e' = held (dest w) e \<and> (files e (name (dest w)) \<noteq> None \<longrightarrow> files e' (name (dest w)) = Some (held (dest w) e)))"
proof -
  from assms obtain h where "wf_Sync (ev_file env) (dest w, e) = Some (st, (h, e'))" "w' = w\<lparr>dest := h\<rparr>"
    by (auto simp: LogSync_def)
  with sync [OF this(1)] show ?thesis by simp
qed

end

section \<open>A file system in memory\<close>

text \<open>
  Files by name, and the number of bytes that can still be written; a write that does not fit fails with IOError
  and writes nothing.
\<close>

record mem_fs =
  mf_files :: "(bytes \<times> bytes) list"
  mf_space :: nat

definition mem_append :: "bytes \<Rightarrow> bytes \<times> mem_fs \<Rightarrow> (Status \<times> bytes \<times> mem_fs) option" where
  "mem_append data hf =
     (case hf of (n, e) \<Rightarrow>
        case map_of (mf_files e) n of
          None \<Rightarrow> Some (NotFound n [], (n, e))
        | Some d \<Rightarrow> if length data \<le> mf_space e
                    then Some (OK, (n, e\<lparr>mf_files := AList.update n (d @ data) (mf_files e), mf_space := mf_space e - length data\<rparr>))
                    else Some (IOError n (lit ''no space left''), (n, e)))"

definition mem_ok :: "bytes \<times> mem_fs \<Rightarrow> (Status \<times> bytes \<times> mem_fs) option" where
  "mem_ok hf = Some (OK, hf)"

definition mem_env :: "(bytes, bytes, mem_fs) env_ops" where
  "mem_env = \<lparr>
     ev_NewSequentialFile = (\<lambda>n e. (case map_of (mf_files e) n of None \<Rightarrow> Inl (NotFound n []) | Some d \<Rightarrow> Inr d, e)),
     ev_NewRandomAccessFile = (\<lambda>n e. case map_of (mf_files e) n of None \<Rightarrow> Inl (NotFound n [])
        | Some d \<Rightarrow> Inr (PosixRandom_Read (\<lambda>_. []) disk_pread n d)),
     ev_NewWritableFile = (\<lambda>n e. (Inr n, e\<lparr>mf_files := AList.update n [] (mf_files e)\<rparr>)),
     ev_FileExists = (\<lambda>n e. map_of (mf_files e) n \<noteq> None),
     ev_GetChildren = (\<lambda>dir e. (OK, map (drop (length dir + 1)) (filter (\<lambda>n. take (length dir + 1) n = dir @ lit ''/'') (map fst (mf_files e))))),
     ev_RemoveFile = (\<lambda>n e. if map_of (mf_files e) n = None then (NotFound n [], e) else (OK, e\<lparr>mf_files := AList.delete n (mf_files e)\<rparr>)),
     ev_CreateDir = (\<lambda>n e. (OK, e)),
     ev_RenameFile = (\<lambda>a b e. case map_of (mf_files e) a of None \<Rightarrow> (NotFound a [], e)
        | Some d \<Rightarrow> (OK, e\<lparr>mf_files := AList.update b d (AList.delete a (mf_files e))\<rparr>)),
     ev_file = \<lparr>wf_Append = mem_append, wf_Flush = mem_ok, wf_Sync = mem_ok, wf_Close = mem_ok\<rparr>,
     ev_Delete = (\<lambda>h e. e),
     ev_read = (\<lambda>m d. Some (OK, take m d, drop m d))\<rparr>"

interpretation mem: file_system mem_env "\<lambda>e. map_of (mf_files e)" "\<lambda>h. h" "\<lambda>h e. case map_of (mf_files e) h of None \<Rightarrow> [] | Some d \<Rightarrow> d" "\<lambda>d. d"
proof (unfold_locales, goal_cases)
  case (3 bs h e st h' e')
  then show ?case
    by (auto simp: mem_env_def mem_append_def update_conv' ok_def IOError_def NotFound_def NewStatus_def frame_def split: if_splits option.splits)
next
  case (9 n e st e')
  then show ?case by (auto simp: mem_env_def delete_conv' ok_def NotFound_def NewStatus_def frame_def split: if_splits)
next
  case (10 n m e st e')
  then show ?case
    by (auto simp: mem_env_def update_conv' delete_conv' ok_def NotFound_def NewStatus_def frame_def split: option.splits)
qed (auto simp: mem_env_def mem_ok_def update_conv' frame_def)

end
