(* ===== verification/VersionSets.thy ===== *)
theory VersionSets
  imports Complex_Main VersionReads Envs
begin

text \<open>
  The version set (the second half of db/version_set.cc): the list of live versions with their
  reference counts, the builder that applies an edit, the MANIFEST with its log of edits, recovery,
  and the choice of the files of a compaction. \<open>c\<close> is the user comparator.
\<close>

section \<open>State\<close>

text \<open>
  A version in the list of versions is named by a number; \<open>vs_descriptor\<close> is the writer of the MANIFEST
  with its file. A compaction's pointers are encoded keys, empty when unset.
\<close>

record VersionNode =
  vn_refs :: int
  vn_version :: Version

record 'h VersionSet =
  vs_dbname :: bytes
  vs_options :: Options
  vs_next_file_number :: u64
  vs_log_number :: u64
  vs_last_sequence :: SequenceNumber
  vs_manifest_file_number :: u64
  vs_descriptor :: "'h LogWriter option"
  vs_versions :: "(nat \<times> VersionNode) list"
  vs_next_version :: nat
  vs_current :: "nat option"
  vs_compact_pointer :: "int \<Rightarrow> bytes"

definition vs_node :: "'h VersionSet \<Rightarrow> nat \<Rightarrow> VersionNode" where
  "vs_node vs i = the (map_of (vs_versions vs) i)"

definition vs_set :: "nat \<Rightarrow> VersionNode \<Rightarrow> 'h VersionSet \<Rightarrow> 'h VersionSet" where
  "vs_set i node vs = vs\<lparr>vs_versions := map (\<lambda>(j, n). (j, if j = i then node else n)) (vs_versions vs)\<rparr>"

definition current_version :: "'h VersionSet \<Rightarrow> Version" where
  "current_version vs = vn_version (vs_node vs (the (vs_current vs)))"

section \<open>Live versions\<close>

definition VS_Ref :: "nat \<Rightarrow> 'h VersionSet \<Rightarrow> 'h VersionSet" where
  "VS_Ref i vs = vs_set i ((vs_node vs i)\<lparr>vn_refs := vn_refs (vs_node vs i) + 1\<rparr>) vs"

text \<open>A version without references leaves the list.\<close>

definition VS_Unref :: "nat \<Rightarrow> 'h VersionSet \<Rightarrow> 'h VersionSet" where
  "VS_Unref i vs =
     (let refs = vn_refs (vs_node vs i) - 1
      in if refs = 0 then vs\<lparr>vs_versions := filter (\<lambda>(j, n). j \<noteq> i) (vs_versions vs)\<rparr>
         else vs_set i ((vs_node vs i)\<lparr>vn_refs := refs\<rparr>) vs)"

definition AppendVersion :: "Version \<Rightarrow> 'h VersionSet \<Rightarrow> 'h VersionSet" where
  "AppendVersion version vs =
     (let vs = (case vs_current vs of None \<Rightarrow> vs | Some i \<Rightarrow> VS_Unref i vs);
          i = vs_next_version vs
      in vs\<lparr>vs_current := Some i, vs_next_version := i + 1,
            vs_versions := vs_versions vs @ [(i, \<lparr>vn_refs = 1, vn_version = version\<rparr>)]\<rparr>)"

definition VS_Finalize_current :: "'h VersionSet \<Rightarrow> 'h VersionSet" where
  "VS_Finalize_current vs =
     (let i = the (vs_current vs); node = vs_node vs i
      in vs_set i (node\<lparr>vn_version := Finalize (vn_version node)\<rparr>) vs)"

definition VersionSet_new :: "bytes \<Rightarrow> Options \<Rightarrow> 'h VersionSet" where
  "VersionSet_new dbname options =
     VS_Finalize_current (AppendVersion Version_new
       \<lparr>vs_dbname = dbname, vs_options = options, vs_next_file_number = 2, vs_log_number = 0, vs_last_sequence = 0,
        vs_manifest_file_number = 0, vs_descriptor = None, vs_versions = [], vs_next_version = 0, vs_current = None,
        vs_compact_pointer = (\<lambda>_. [])\<rparr>)"

definition NewFileNumber :: "'h VersionSet \<Rightarrow> u64 \<times> 'h VersionSet" where
  "NewFileNumber vs = (vs_next_file_number vs, vs\<lparr>vs_next_file_number := vs_next_file_number vs + 1\<rparr>)"

definition MarkFileNumberUsed :: "u64 \<Rightarrow> 'h VersionSet \<Rightarrow> 'h VersionSet" where
  "MarkFileNumberUsed number vs =
     (if vs_next_file_number vs \<le> number then vs\<lparr>vs_next_file_number := number + 1\<rparr> else vs)"

definition NumLevelBytes :: "'h VersionSet \<Rightarrow> int \<Rightarrow> int" where
  "NumLevelBytes vs level = TotalFileSize (v_files (current_version vs) level)"

definition NeedsCompaction :: "'h VersionSet \<Rightarrow> bool" where
  "NeedsCompaction vs \<longleftrightarrow>
     v_compaction_score (current_version vs) \<ge> 1 \<or> v_file_to_compact (current_version vs) \<noteq> None"

definition AddLiveFiles :: "'h VersionSet \<Rightarrow> u64 list \<Rightarrow> u64 list" where
  "AddLiveFiles vs live =
     foldl (\<lambda>live (i, node). foldl (\<lambda>live level. foldl (\<lambda>live file. insort_insert (fm_number file) live) live (v_files (vn_version node) level))
       live levels) live (vs_versions vs)"

section \<open>The builder\<close>

text \<open>\<open>deleted_files_\<close> is an ordered set of level and file number.\<close>

record Builder =
  bd_base :: nat
  bd_deleted_files :: "(int \<times> u64) list"
  bd_added_files :: "int \<Rightarrow> FileMetaData list"

definition Builder_new :: "nat \<Rightarrow> Builder" where
  "Builder_new base = \<lparr>bd_base = base, bd_deleted_files = [], bd_added_files = (\<lambda>_. [])\<rparr>"

definition allowed_seeks :: "u64 \<Rightarrow> int" where
  "allowed_seeks file_size =
     (let n = sint (ucast (file_size div 16384) :: 32 word) in if n < 100 then 100 else n)"

definition Builder_add :: "Builder \<Rightarrow> int \<times> FileMetaData \<Rightarrow> Builder" where
  "Builder_add b new_file =
     (case new_file of (level, file) \<Rightarrow>
        let file' = file\<lparr>fm_allowed_seeks := allowed_seeks (fm_file_size file)\<rparr>
        in b\<lparr>bd_deleted_files := filter (\<lambda>d. d \<noteq> (level, fm_number file)) (bd_deleted_files b),
             bd_added_files := (bd_added_files b)(level := bd_added_files b level @ [file'])\<rparr>)"

definition Builder_Apply :: "VersionEdit \<Rightarrow> Builder \<times> 'h VersionSet \<Rightarrow> Builder \<times> 'h VersionSet" where
  "Builder_Apply edit bv =
     (case bv of (b, vs) \<Rightarrow>
        let vs = foldl (\<lambda>vs (level, key). vs\<lparr>vs_compact_pointer := (vs_compact_pointer vs)(level := InternalKey_Encode key)\<rparr>)
              vs (ve_compact_pointers edit);
            b = b\<lparr>bd_deleted_files := foldl (\<lambda>ds d. insort_insert d ds) (bd_deleted_files b) (ve_deleted_files edit)\<rparr>
        in (foldl Builder_add b (ve_new_files edit), vs))"

definition IsDeleted :: "Builder \<Rightarrow> int \<Rightarrow> u64 \<Rightarrow> bool" where
  "IsDeleted b level file_number \<longleftrightarrow> (level, file_number) \<in> set (bd_deleted_files b)"

definition MaybeAddFile :: "Builder \<Rightarrow> int \<Rightarrow> FileMetaData \<Rightarrow> Version \<Rightarrow> Version" where
  "MaybeAddFile b level file version =
     (if IsDeleted b level (fm_number file) then version else Version_AddFile version level file)"

fun SaveLoop :: "comparator \<Rightarrow> Builder \<Rightarrow> int \<Rightarrow> FileMetaData list \<Rightarrow> FileMetaData list \<Rightarrow> Version \<Rightarrow> Version" where
  "SaveLoop c b level [] [] version = version"
| "SaveLoop c b level (f # base_files) [] version = SaveLoop c b level base_files [] (MaybeAddFile b level f version)"
| "SaveLoop c b level [] (g # added) version = SaveLoop c b level [] added (MaybeAddFile b level g version)"
| "SaveLoop c b level (f # base_files) (g # added) version =
     (if InternalKey_Compare c (fm_smallest f) (fm_smallest g) < 0
      then SaveLoop c b level base_files (g # added) (MaybeAddFile b level f version)
      else SaveLoop c b level (f # base_files) added (MaybeAddFile b level g version))"

definition SaveTo :: "comparator \<Rightarrow> Builder \<Rightarrow> Version \<Rightarrow> Version \<Rightarrow> Version" where
  "SaveTo c b base version =
     foldl (\<lambda>version level. SaveLoop c b level (v_files base level) (sort_files c (bd_added_files b level)) version) version levels"

section \<open>Applying an edit\<close>

definition CheckComparatorName :: "comparator \<Rightarrow> VersionEdit \<Rightarrow> Status" where
  "CheckComparatorName c edit =
     (if \<not> ve_has_comparator edit then OK
      else if ve_comparator edit = Name (InternalKeyComparator c) then OK
      else InvalidArgument (lit ''VersionSet comparator mismatch'') (ve_comparator edit))"

definition ApplyMetadata :: "VersionEdit \<Rightarrow> 'h VersionSet \<Rightarrow> 'h VersionSet" where
  "ApplyMetadata edit vs =
     (let vs = (if ve_has_log_number edit then vs\<lparr>vs_log_number := ve_log_number edit\<rparr> else vs);
          vs = (if ve_has_next_file_number edit \<and> vs_next_file_number vs < ve_next_file_number edit
                then vs\<lparr>vs_next_file_number := ve_next_file_number edit\<rparr> else vs)
      in if ve_has_last_sequence edit \<and> vs_last_sequence vs < ve_last_sequence edit
         then vs\<lparr>vs_last_sequence := ve_last_sequence edit\<rparr> else vs)"

text \<open>The builder holds a reference to its base until the end.\<close>

definition ApplyVersionEdit :: "comparator \<Rightarrow> VersionEdit \<Rightarrow> 'h VersionSet \<Rightarrow> Status \<times> 'h VersionSet" where
  "ApplyVersionEdit c edit vs =
     (let status = CheckComparatorName c edit
      in if \<not> ok status then (status, vs)
         else let base = the (vs_current vs);
                  (b, vs) = Builder_Apply edit (Builder_new base, VS_Ref base vs);
                  next = Finalize (SaveTo c b (vn_version (vs_node vs base)) Version_new);
                  vs = ApplyMetadata edit vs;
                  vs = foldl (\<lambda>vs (level, file). MarkFileNumberUsed (fm_number file) vs) vs (ve_new_files edit);
                  vs = AppendVersion next vs
              in (OK, VS_Unref base vs))"

section \<open>The MANIFEST\<close>

definition SnapshotEdit :: "comparator \<Rightarrow> 'h VersionSet \<Rightarrow> VersionEdit" where
  "SnapshotEdit c vs =
     (let edit = SetLastSequence (SetComparatorName VE_Clear (Name (InternalKeyComparator c))) (vs_last_sequence vs);
          edit = foldl (\<lambda>edit level. if vs_compact_pointer vs level \<noteq> []
                   then SetCompactPointer edit level (fst (InternalKey_DecodeFrom (vs_compact_pointer vs level))) else edit) edit levels
      in foldl (\<lambda>edit level. foldl (\<lambda>edit file. VE_AddFile edit level (fm_number file) (fm_file_size file) (fm_smallest file) (fm_largest file))
           edit (v_files (current_version vs) level)) edit levels)"

definition WriteSnapshot ::
    "comparator \<Rightarrow> ('h, 's, 'e) env_ops \<Rightarrow> 'h VersionSet \<Rightarrow> 'h LogWriter \<Rightarrow> 'e \<Rightarrow> (Status \<times> 'h LogWriter \<times> 'e) option" where
  "WriteSnapshot c env vs writer e = LogAdd env (VE_EncodeTo (SnapshotEdit c vs) []) writer e"

text \<open>The status, and whether the MANIFEST was created.\<close>

definition OpenManifest ::
    "comparator \<Rightarrow> ('h, 's, 'e) env_ops \<Rightarrow> 'h VersionSet \<Rightarrow> 'e \<Rightarrow> ((Status \<times> bool) \<times> 'h VersionSet \<times> 'e) option" where
  "OpenManifest c env vs e =
     (let vs = (if vs_manifest_file_number vs = 0
                then (case NewFileNumber vs of (n, vs) \<Rightarrow> vs\<lparr>vs_manifest_file_number := n\<rparr>) else vs);
          manifest_name = DescriptorFileName (vs_dbname vs) (vs_manifest_file_number vs)
      in case ev_NewWritableFile env manifest_name e of
           (Inl status, e) \<Rightarrow> Some ((status, False), vs, e)
         | (Inr file, e) \<Rightarrow>
             do { (status, writer, e) \<leftarrow> WriteSnapshot c env vs (LogWriter_new file 0) e;
                  Some ((status, ok status), vs\<lparr>vs_descriptor := Some writer\<rparr>, e) })"

definition FillEdit :: "comparator \<Rightarrow> 'h VersionSet \<Rightarrow> VersionEdit \<Rightarrow> VersionEdit" where
  "FillEdit c vs edit =
     (let edit = (if \<not> ve_has_comparator edit then SetComparatorName edit (Name (InternalKeyComparator c)) else edit);
          edit = (if \<not> ve_has_log_number edit then SetLogNumber edit (vs_log_number vs) else edit);
          edit = (if \<not> ve_has_next_file_number edit then SetNextFile edit (vs_next_file_number vs) else edit)
      in if \<not> ve_has_last_sequence edit then SetLastSequence edit (vs_last_sequence vs) else edit)"

text \<open>A null descriptor would be a crash.\<close>

definition on_descriptor ::
    "('h LogWriter \<Rightarrow> 'e \<Rightarrow> (Status \<times> 'h LogWriter \<times> 'e) option) \<Rightarrow> 'h VersionSet \<Rightarrow> 'e \<Rightarrow> (Status \<times> 'h VersionSet \<times> 'e) option" where
  "on_descriptor f vs e =
     do { writer \<leftarrow> vs_descriptor vs;
          (status, writer, e) \<leftarrow> f writer e;
          Some (status, vs\<lparr>vs_descriptor := Some writer\<rparr>, e) }"

text \<open>The edit is also changed in place; no caller looks at it afterwards.\<close>

definition LogAndApply ::
    "comparator \<Rightarrow> ('h, 's, 'e) env_ops \<Rightarrow> VersionEdit \<Rightarrow> 'h VersionSet \<Rightarrow> 'e \<Rightarrow> (Status \<times> 'h VersionSet \<times> 'e) option" where
  "LogAndApply c env edit vs e =
     (if \<not> ok (CheckComparatorName c edit) then Some (CheckComparatorName c edit, vs, e)
      else do {
        ((status, created_manifest), vs, e) \<leftarrow>
          (if vs_descriptor vs = None then OpenManifest c env vs e else Some ((OK, False), vs, e));
        let edit = (if ok status then FillEdit c vs edit else edit);
        let record = (if ok status then VE_EncodeTo edit [] else []);
        (status, vs, e) \<leftarrow> (if ok status then on_descriptor (LogAdd env record) vs e else Some (status, vs, e));
        (status, vs, e) \<leftarrow> (if ok status then on_descriptor (LogSync env) vs e else Some (status, vs, e));
        (status, e) \<leftarrow> (if ok status \<and> created_manifest then SetCurrentFile env (vs_dbname vs) (vs_manifest_file_number vs) e
                       else Some (status, e));
        let (status, vs) = (if ok status then ApplyVersionEdit c edit vs else (status, vs));
        Some (if \<not> ok status \<and> created_manifest
              then (status, vs\<lparr>vs_descriptor := None\<rparr>,
                    snd (ev_RemoveFile env (DescriptorFileName (vs_dbname vs) (vs_manifest_file_number vs))
                      (case vs_descriptor vs of None \<Rightarrow> e | Some writer \<Rightarrow> ev_Delete env (dest writer) e)))
              else (status, vs, e)) })"

section \<open>Recovery\<close>

text \<open>The loop over the records of the MANIFEST: the status, the status of the reader, and the version set.\<close>

partial_function (option) RecoverLoop ::
    "comparator \<Rightarrow> 's sequential_read \<Rightarrow> 's LogReader \<Rightarrow> 'h VersionSet \<Rightarrow> (Status \<times> Status \<times> 'h VersionSet) option" where
  "RecoverLoop c read reader vs =
     do { ((found, record, read_status), reader) \<leftarrow> ReadRecord read reader;
          if \<not> found then Some (OK, read_status, vs)
          else let (status, edit) = VE_DecodeFrom record
               in if \<not> ok status then Some (status, read_status, vs)
                  else let (status, vs) = ApplyVersionEdit c edit vs
                       in if \<not> ok status then Some (status, read_status, vs)
                          else RecoverLoop c read reader vs }"

text \<open>Before the replay every version is released, and an empty one becomes current.\<close>

definition ResetVersions :: "'h VersionSet \<Rightarrow> 'h VersionSet" where
  "ResetVersions vs =
     (let vs = VS_Finalize_current (AppendVersion Version_new (vs\<lparr>vs_current := None, vs_versions := []\<rparr>))
      in vs\<lparr>vs_next_file_number := 2, vs_log_number := 0, vs_last_sequence := 0,
            vs_compact_pointer := (\<lambda>level. if level \<in> set levels then [] else vs_compact_pointer vs level)\<rparr>)"

definition Recover :: "comparator \<Rightarrow> ('h, 's, 'e) env_ops \<Rightarrow> 'h VersionSet \<Rightarrow> 'e \<Rightarrow> (Status \<times> 'h VersionSet \<times> 'e) option" where
  "Recover c env vs e =
     do { (status, current, e) \<leftarrow> ReadFileToString env (CurrentFileName (vs_dbname vs)) e;
          if \<not> ok status then Some (status, vs, e)
          else let current = (if current \<noteq> [] \<and> last current = 10 then butlast current else current)
               in if current = [] then Some (Corruption (lit ''CURRENT file is empty'') [], vs, e)
                  else case ParseFileName current of
                         Some (manifest_number, kDescriptorFile) \<Rightarrow>
                           (case ev_NewSequentialFile env (vs_dbname vs @ lit ''/'' @ current) e of
                              (Inl status, e) \<Rightarrow> Some (status, vs, e)
                            | (Inr file, e) \<Rightarrow>
                                do { (status, read_status, vs) \<leftarrow> RecoverLoop c (ev_read env) (LogReader_new file True) (ResetVersions vs);
                                     let status = (if ok status \<and> \<not> ok read_status then read_status else status);
                                     Some (status, if ok status then vs\<lparr>vs_manifest_file_number := manifest_number\<rparr> else vs, e) })
                       | _ \<Rightarrow> Some (Corruption (lit ''CURRENT points to invalid MANIFEST'') current, vs, e) }"

section \<open>Choosing a compaction\<close>

text \<open>An empty list of inputs would be a crash.\<close>

definition GetRange :: "comparator \<Rightarrow> FileMetaData list \<Rightarrow> (InternalKey \<times> InternalKey) option" where
  "GetRange c inputs =
     (case inputs of
        [] \<Rightarrow> None
      | f # rest \<Rightarrow> Some (foldl (\<lambda>(smallest, largest) file.
          (if InternalKey_Compare c (fm_smallest file) smallest < 0 then fm_smallest file else smallest,
           if InternalKey_Compare c (fm_largest file) largest > 0 then fm_largest file else largest))
          (fm_smallest f, fm_largest f) rest))"

definition GetRange2 :: "comparator \<Rightarrow> FileMetaData list \<Rightarrow> FileMetaData list \<Rightarrow> (InternalKey \<times> InternalKey) option" where
  "GetRange2 c inputs1 inputs2 = GetRange c (inputs1 @ inputs2)"

text \<open>The inputs and the ranges after the attempt to take more files of the level.\<close>

definition ExpandInputs ::
    "comparator \<Rightarrow> Options \<Rightarrow> Version \<Rightarrow> int \<Rightarrow> FileMetaData list \<times> FileMetaData list \<Rightarrow> InternalKey \<Rightarrow> InternalKey \<times> InternalKey
      \<Rightarrow> ((FileMetaData list \<times> FileMetaData list) \<times> InternalKey \<times> InternalKey \<times> InternalKey) option" where
  "ExpandInputs c options v level inputs largest all_range =
     (let (inputs0, inputs1) = inputs; (all_start, all_limit) = all_range
      in if inputs1 = [] then Some (inputs, largest, all_range)
         else do {
           expanded0 \<leftarrow> GetOverlappingInputs c v level (Some all_start) (Some all_limit);
           expanded0 \<leftarrow> AddBoundaryInputs c (v_files v level) expanded0;
           if length expanded0 > length inputs0 \<and> TotalFileSize inputs1 + TotalFileSize expanded0 < ExpandedCompactionByteSizeLimit options
           then do {
             (new_start, new_limit) \<leftarrow> GetRange c expanded0;
             expanded1 \<leftarrow> GetOverlappingInputs c v (level + 1) (Some new_start) (Some new_limit);
             expanded1 \<leftarrow> AddBoundaryInputs c (v_files v (level + 1)) expanded1;
             if length expanded1 = length inputs1
             then do { all_range \<leftarrow> GetRange2 c expanded0 expanded1; Some ((expanded0, expanded1), new_limit, all_range) }
             else Some (inputs, largest, all_range) }
           else Some (inputs, largest, all_range) })"

definition SetupOtherInputs :: "comparator \<Rightarrow> Compaction \<Rightarrow> 'h VersionSet \<Rightarrow> (Compaction \<times> 'h VersionSet) option" where
  "SetupOtherInputs c cp vs =
     do { v \<leftarrow> cp_input_version cp;
          let level = cp_level cp;
          inputs0 \<leftarrow> AddBoundaryInputs c (v_files v level) (cp_inputs0 cp);
          (smallest, largest) \<leftarrow> GetRange c inputs0;
          inputs1 \<leftarrow> GetOverlappingInputs c v (level + 1) (Some smallest) (Some largest);
          inputs1 \<leftarrow> AddBoundaryInputs c (v_files v (level + 1)) inputs1;
          all_range \<leftarrow> GetRange2 c inputs0 inputs1;
          ((inputs0, inputs1), largest, all_start, all_limit) \<leftarrow> ExpandInputs c (vs_options vs) v level (inputs0, inputs1) largest all_range;
          grandparents \<leftarrow> (if level + 2 < kNumLevels then GetOverlappingInputs c v (level + 2) (Some all_start) (Some all_limit)
                          else Some (cp_grandparents cp));
          Some (cp\<lparr>cp_inputs0 := inputs0, cp_inputs1 := inputs1, cp_grandparents := grandparents,
                   cp_edit := SetCompactPointer (cp_edit cp) level largest\<rparr>,
                vs\<lparr>vs_compact_pointer := (vs_compact_pointer vs)(level := InternalKey_Encode largest)\<rparr>) }"

text \<open>The compaction takes a reference to the current version; it is returned with that version's number.\<close>

definition start_compaction ::
    "comparator \<Rightarrow> Compaction \<Rightarrow> 'h VersionSet \<Rightarrow> ((nat \<times> Compaction) option \<times> 'h VersionSet) option" where
  "start_compaction c cp vs =
     (let i = the (vs_current vs); vs = VS_Ref i vs
      in map_option (\<lambda>(cp, vs). (Some (i, cp), vs)) (SetupOtherInputs c (cp\<lparr>cp_input_version := Some (current_version vs)\<rparr>) vs))"

definition size_input :: "comparator \<Rightarrow> bytes \<Rightarrow> FileMetaData list \<Rightarrow> FileMetaData" where
  "size_input c pointer files =
     (case find (\<lambda>file. pointer = [] \<or> InternalKey_Compare c (InternalKey_Encode (fm_largest file)) pointer > 0) files of
        Some file \<Rightarrow> file
      | None \<Rightarrow> hd files)"

definition PickCompaction :: "comparator \<Rightarrow> 'h VersionSet \<Rightarrow> ((nat \<times> Compaction) option \<times> 'h VersionSet) option" where
  "PickCompaction c vs =
     (let v = current_version vs;
          picked = (if v_compaction_score v \<ge> 1
                    then let level = v_compaction_level v
                         in if level < 0 \<or> level + 1 \<ge> kNumLevels \<or> v_files v level = [] then None
                            else Some (level, size_input c (vs_compact_pointer vs level) (v_files v level))
                    else case v_file_to_compact v of
                           Some file \<Rightarrow> let level = v_file_to_compact_level v
                                       in if level < 0 \<or> level + 1 \<ge> kNumLevels then None else Some (level, file)
                         | None \<Rightarrow> None)
      in case picked of
           None \<Rightarrow> Some (None, vs)
         | Some (level, file) \<Rightarrow>
             let cp = (Compaction_new (vs_options vs) level)\<lparr>cp_inputs0 := [file]\<rparr>
             in if level = 0
                then do { (smallest, largest) \<leftarrow> GetRange c (cp_inputs0 cp);
                          inputs \<leftarrow> GetOverlappingInputs c v 0 (Some smallest) (Some largest);
                          if inputs = [] then Some (None, vs)
                          else start_compaction c (cp\<lparr>cp_inputs0 := inputs\<rparr>) vs }
                else start_compaction c cp vs)"

text \<open>At a level above 0 the inputs end with the file that brings their size to the limit.\<close>

fun limit_inputs :: "u64 \<Rightarrow> u64 \<Rightarrow> FileMetaData list \<Rightarrow> FileMetaData list" where
  "limit_inputs limit acc [] = []"
| "limit_inputs limit acc (file # files) =
     (let acc = acc + fm_file_size file
      in if acc \<ge> limit then [file] else file # limit_inputs limit acc files)"

definition VS_CompactRange ::
    "comparator \<Rightarrow> int \<Rightarrow> InternalKey option \<Rightarrow> InternalKey option \<Rightarrow> 'h VersionSet \<Rightarrow> ((nat \<times> Compaction) option \<times> 'h VersionSet) option" where
  "VS_CompactRange c level begin_key end_key vs =
     do { inputs \<leftarrow> GetOverlappingInputs c (current_version vs) level begin_key end_key;
          if inputs = [] then Some (None, vs)
          else let inputs = (if level > 0 then limit_inputs (MaxFileSizeForLevel (vs_options vs) level) 0 inputs else inputs)
               in start_compaction c ((Compaction_new (vs_options vs) level)\<lparr>cp_inputs0 := inputs\<rparr>) vs }"

text \<open>The children are in the order of the inputs; without a table cache the iterator only has an error.\<close>

definition MakeInputIterator ::
    "'i iter_ops \<Rightarrow> (u64 \<Rightarrow> u64 \<Rightarrow> 'w \<Rightarrow> ('i \<times> 'w) option) option \<Rightarrow> Compaction \<Rightarrow> 'w \<Rightarrow> ('i merged \<times> 'w) option" where
  "MakeInputIterator ops table_cache cp w =
     (case table_cache of
        None \<Rightarrow> Some (Inl (NewErrorIterator (InvalidArgument (lit ''VersionSet::MakeInputIterator requires table cache'') [])), w)
      | Some tnew \<Rightarrow> map_option (\<lambda>(children, w). (NewMergingIterator ops children, w)) (NewIterators tnew (cp_inputs0 cp @ cp_inputs1 cp) [] w))"

definition ReleaseInputs :: "nat \<times> Compaction \<Rightarrow> 'h VersionSet \<Rightarrow> (nat \<times> Compaction) \<times> 'h VersionSet" where
  "ReleaseInputs icp vs =
     (case icp of (i, cp) \<Rightarrow>
        if cp_input_version cp = None then ((i, cp), vs) else ((i, cp\<lparr>cp_input_version := None\<rparr>), VS_Unref i vs))"

end
