(* ===== verification/DBImpls.thy ===== *)
theory DBImpls
  imports Complex_Main VersionSets BuildTables WriteBatches DBIters
begin

text \<open>
  The database (db/db_impl.cc): its state, writes, reads, snapshots, recovery from the logs, the flush
  of a memtable, removal of obsolete files, the background calls and the compaction. Every operation
  returns \<open>None\<close> where the code would crash or not return.
\<close>

section \<open>State\<close>

text \<open>
  A snapshot is its sequence number; \<open>snapshots_\<close> is an ordered multiset and \<open>pending_outputs_\<close> an ordered
  set. A null \<open>log_\<close> and a null \<open>log_file_\<close> go together. \<open>db_next_id\<close> is the counter of the table readers'
  cache ids; \<open>db_work\<close> is the background queue of the environment.
\<close>

datatype work = BGWork

record ('h, 'e) DBImpl =
  db_options :: Options
  db_dbname :: bytes
  db_last_sequence :: SequenceNumber
  db_snapshots :: "SequenceNumber list"
  db_pending_outputs :: "u64 list"
  db_log :: "'h LogWriter option"
  db_table_options :: Options
  db_table_cache :: TableCache
  db_next_id :: u64
  db_versions :: "'h VersionSet"
  db_mem :: MemTable
  db_imm :: "MemTable option"
  db_logfile_number :: u64
  db_bg_error :: Status
  db_shutting_down :: bool
  db_scheduled :: bool
  db_running :: bool
  db_work :: "work background"
  db_env :: 'e

type_synonym fresh = "region list \<Rightarrow> nat \<Rightarrow> nat"

definition MakeTableOptions :: "Options \<Rightarrow> Options" where
  "MakeTableOptions options = options\<lparr>op_comparator := InternalKeyComparator (op_comparator options)\<rparr>"

definition TableCacheEntries :: "int \<Rightarrow> int" where
  "TableCacheEntries max_open_files = (let reserved_files = 10 in if max_open_files > reserved_files then max_open_files - reserved_files else 1)"

definition IsDotOrDotDot :: "bytes \<Rightarrow> bool" where
  "IsDotOrDotDot filename \<longleftrightarrow> filename = lit ''.'' \<or> filename = lit ''..''"

abbreviation db_comparator :: "('h, 'e) DBImpl \<Rightarrow> comparator" where
  "db_comparator db \<equiv> op_comparator (db_options db)"

definition DBImpl_new :: "fresh \<Rightarrow> Options \<Rightarrow> bytes \<Rightarrow> 'e \<Rightarrow> ('h, 'e) DBImpl" where
  "DBImpl_new fresh options dbname e =
     \<lparr>db_options = options, db_dbname = dbname, db_last_sequence = 0, db_snapshots = [], db_pending_outputs = [], db_log = None,
      db_table_options = MakeTableOptions options,
      db_table_cache = TableCache_new dbname (MakeTableOptions options) (TableCacheEntries (op_max_open_files options)),
      db_next_id = 0, db_versions = VersionSet_new dbname (MakeTableOptions options), db_mem = MemTable_new fresh, db_imm = None,
      db_logfile_number = 1, db_bg_error = OK, db_shutting_down = False, db_scheduled = False, db_running = False,
      db_work = \<lparr>bg_started = False, bg_queue = []\<rparr>, db_env = e\<rparr>"

text \<open>An operation of the version set that works on the environment.\<close>

definition db_versions_do ::
    "('h VersionSet \<Rightarrow> 'e \<Rightarrow> (Status \<times> 'h VersionSet \<times> 'e) option) \<Rightarrow> ('h, 'e) DBImpl \<Rightarrow> (Status \<times> ('h, 'e) DBImpl) option" where
  "db_versions_do f db =
     map_option (\<lambda>(status, vs, e). (status, db\<lparr>db_versions := vs, db_env := e\<rparr>)) (f (db_versions db) (db_env db))"

definition db_RemoveFile :: "('h, 's, 'e) env_ops \<Rightarrow> bytes \<Rightarrow> ('h, 'e) DBImpl \<Rightarrow> Status \<times> ('h, 'e) DBImpl" where
  "db_RemoveFile env fname db = (case ev_RemoveFile env fname (db_env db) of (status, e) \<Rightarrow> (status, db\<lparr>db_env := e\<rparr>))"

definition db_NewFileNumber :: "('h, 'e) DBImpl \<Rightarrow> u64 \<times> ('h, 'e) DBImpl" where
  "db_NewFileNumber db = (case NewFileNumber (db_versions db) of (n, vs) \<Rightarrow> (n, db\<lparr>db_versions := vs\<rparr>))"

section \<open>Flushing a memtable\<close>

text \<open>Creates the directory when it is missing, as \<open>InitWAL\<close> and \<open>Open\<close> begin.\<close>

definition db_CreateDir :: "('h, 's, 'e) env_ops \<Rightarrow> ('h, 'e) DBImpl \<Rightarrow> Status \<times> ('h, 'e) DBImpl" where
  "db_CreateDir env db =
     (if ev_FileExists env (db_dbname db) (db_env db) then (OK, db)
      else case ev_CreateDir env (db_dbname db) (db_env db) of (status, e) \<Rightarrow> (status, db\<lparr>db_env := e\<rparr>))"

definition InitWAL :: "('h, 's, 'e) env_ops \<Rightarrow> ('h, 'e) DBImpl \<Rightarrow> Status \<times> ('h, 'e) DBImpl" where
  "InitWAL env db =
     (case db_CreateDir env db of (status, db) \<Rightarrow>
        if \<not> ok status then (status, db)
        else case ev_NewWritableFile env (LogFileName (db_dbname db) (db_logfile_number db)) (db_env db) of
               (Inl status, e) \<Rightarrow> (status, db\<lparr>db_env := e\<rparr>)
             | (Inr file, e) \<Rightarrow> (OK, db\<lparr>db_log := Some (LogWriter_new file 0), db_env := e\<rparr>))"

text \<open>What \<open>FlushMemTable\<close> and \<open>Open\<close> record of the logs.\<close>

definition LogEdit :: "('h, 'e) DBImpl \<Rightarrow> VersionEdit" where
  "LogEdit db = SetLastSequence (SetLogNumber VE_Clear (db_logfile_number db)) (db_last_sequence db)"

definition FlushMemTable :: "('h, 's, 'e) env_ops \<Rightarrow> ('h, 'e) DBImpl \<Rightarrow> (Status \<times> ('h, 'e) DBImpl) option" where
  "FlushMemTable env db =
     (case db_imm db of
        None \<Rightarrow> Some (OK, db)
      | Some imm \<Rightarrow>
          let (number, db) = db_NewFileNumber db; c = db_comparator db
          in do { (status, meta, e) \<leftarrow> BuildTable (MemTable_ops c) env (db_table_options db) (db_dbname db) (MemTable_NewIterator imm)
                    (FileMetaData_new\<lparr>fm_number := number\<rparr>) (db_env db);
                  let db = db\<lparr>db_env := e\<rparr>;
                  if \<not> ok status then Some (status, db)
                  else if fm_file_size meta > 0
                  then let edit = VE_AddFile (LogEdit db) 0 (fm_number meta) (fm_file_size meta) (fm_smallest meta) (fm_largest meta)
                       in do { (status, db) \<leftarrow> db_versions_do (LogAndApply c env edit) db;
                               if \<not> ok status
                               then Some (status, snd (db_RemoveFile env (TableFileName (db_dbname db) (fm_number meta)) db))
                               else Some (OK, db\<lparr>db_imm := None\<rparr>) }
                  else Some (OK, db\<lparr>db_imm := None\<rparr>) })"

definition freeze_mem :: "fresh \<Rightarrow> ('h, 'e) DBImpl \<Rightarrow> ('h, 'e) DBImpl" where
  "freeze_mem fresh db = db\<lparr>db_imm := Some (db_mem db), db_mem := MemTable_new fresh\<rparr>"

definition MakeRoomForWrite :: "fresh \<Rightarrow> ('h, 's, 'e) env_ops \<Rightarrow> ('h, 'e) DBImpl \<Rightarrow> (Status \<times> ('h, 'e) DBImpl) option" where
  "MakeRoomForWrite fresh env db =
     (if db_imm db \<noteq> None then FlushMemTable env db
      else if ApproximateMemoryUsage (db_mem db) \<le> op_write_buffer_size (db_options db) then Some (OK, db)
      else FlushMemTable env (freeze_mem fresh db))"

definition CompactMemTable :: "fresh \<Rightarrow> ('h, 's, 'e) env_ops \<Rightarrow> ('h, 'e) DBImpl \<Rightarrow> (Status \<times> ('h, 'e) DBImpl) option" where
  "CompactMemTable fresh env db =
     (if db_imm db \<noteq> None then FlushMemTable env db
      else if MemTable_Empty (db_mem db) then Some (OK, db)
      else FlushMemTable env (freeze_mem fresh db))"

section \<open>Background state\<close>

definition RecordBackgroundError :: "Status \<Rightarrow> ('h, 'e) DBImpl \<Rightarrow> ('h, 'e) DBImpl" where
  "RecordBackgroundError status db =
     (if ok status then db else if ok (db_bg_error db) then db\<lparr>db_bg_error := status\<rparr> else db)"

definition MaybeScheduleCompaction :: "('h, 'e) DBImpl \<Rightarrow> ('h, 'e) DBImpl" where
  "MaybeScheduleCompaction db =
     (if db_scheduled db then db
      else if db_shutting_down db then db
      else if \<not> ok (db_bg_error db) then db
      else if db_imm db = None \<and> \<not> NeedsCompaction (db_versions db) then db
      else db\<lparr>db_scheduled := True, db_work := Posix_Schedule BGWork (db_work db)\<rparr>)"

section \<open>Writes\<close>

definition DB_Write ::
    "fresh \<Rightarrow> ('h, 's, 'e) env_ops \<Rightarrow> bool \<Rightarrow> WriteBatch option \<Rightarrow> ('h, 'e) DBImpl \<Rightarrow> (Status \<times> WriteBatch option \<times> ('h, 'e) DBImpl) option" where
  "DB_Write fresh env sync updates db =
     (case updates of
        None \<Rightarrow> Some (InvalidArgument (lit ''DBImpl::Write updates is null'') [], None, db)
      | Some batch \<Rightarrow>
          let count = WB_Count batch
          in if count = 0 then Some (OK, Some batch, db)
             else do {
               (status, db) \<leftarrow> MakeRoomForWrite fresh env db;
               if \<not> ok status then Some (status, Some batch, db)
               else do {
                 let batch = WB_SetSequence (db_last_sequence db + 1) batch;
                 writer \<leftarrow> db_log db;
                 (status, writer, e) \<leftarrow> LogAdd env (WB_Contents batch) writer (db_env db);
                 let db = db\<lparr>db_log := Some writer, db_env := e\<rparr>;
                 if \<not> ok status then Some (status, Some batch, db)
                 else do {
                   (status, writer, e) \<leftarrow> (if sync then LogSync env writer (db_env db) else Some (OK, writer, db_env db));
                   let db = db\<lparr>db_log := Some writer, db_env := e\<rparr>;
                   if \<not> ok status then Some (status, Some batch, db)
                   else do {
                     (status, mem) \<leftarrow> WB_InsertInto fresh (db_comparator db) batch (db_mem db);
                     let db = db\<lparr>db_mem := mem\<rparr>;
                     Some (status, Some batch,
                           if ok status then MaybeScheduleCompaction (db\<lparr>db_last_sequence := db_last_sequence db + of_int count\<rparr>)
                           else db) } } } })"

definition DB_Put ::
    "fresh \<Rightarrow> ('h, 's, 'e) env_ops \<Rightarrow> bool \<Rightarrow> bytes \<Rightarrow> bytes \<Rightarrow> ('h, 'e) DBImpl \<Rightarrow> (Status \<times> ('h, 'e) DBImpl) option" where
  "DB_Put fresh env sync key value db =
     map_option (\<lambda>(status, batch, db). (status, db)) (DB_Write fresh env sync (Some (WB_Put key value WB_Clear)) db)"

definition DB_Delete ::
    "fresh \<Rightarrow> ('h, 's, 'e) env_ops \<Rightarrow> bool \<Rightarrow> bytes \<Rightarrow> ('h, 'e) DBImpl \<Rightarrow> (Status \<times> ('h, 'e) DBImpl) option" where
  "DB_Delete fresh env sync key db =
     map_option (\<lambda>(status, batch, db). (status, db)) (DB_Write fresh env sync (Some (WB_Delete key WB_Clear)) db)"

definition NewSequence :: "('h, 'e) DBImpl \<Rightarrow> SequenceNumber \<times> ('h, 'e) DBImpl" where
  "NewSequence db = (db_last_sequence db + 1, db\<lparr>db_last_sequence := db_last_sequence db + 1\<rparr>)"

section \<open>Reads and snapshots\<close>

definition GetSnapshotSequence :: "SequenceNumber option \<Rightarrow> ('h, 'e) DBImpl \<Rightarrow> SequenceNumber" where
  "GetSnapshotSequence snapshot db = (case snapshot of None \<Rightarrow> db_last_sequence db | Some sequence \<Rightarrow> sequence)"

definition GetSnapshot :: "('h, 'e) DBImpl \<Rightarrow> SequenceNumber \<times> ('h, 'e) DBImpl" where
  "GetSnapshot db = (db_last_sequence db, db\<lparr>db_snapshots := insort (db_last_sequence db) (db_snapshots db)\<rparr>)"

definition ReleaseSnapshot :: "SequenceNumber option \<Rightarrow> ('h, 'e) DBImpl \<Rightarrow> ('h, 'e) DBImpl" where
  "ReleaseSnapshot snapshot db =
     (case snapshot of None \<Rightarrow> db | Some sequence \<Rightarrow> db\<lparr>db_snapshots := remove1 sequence (db_snapshots db)\<rparr>)"

definition SmallestSnapshot :: "('h, 'e) DBImpl \<Rightarrow> SequenceNumber" where
  "SmallestSnapshot db = (if db_snapshots db = [] then db_last_sequence db else hd (db_snapshots db))"

definition db_opener :: "('h, 's, 'e) env_ops \<Rightarrow> ('h, 'e) DBImpl \<Rightarrow> file_opener" where
  "db_opener env db fname = ev_NewRandomAccessFile env fname (db_env db)"

text \<open>A null pointer for the value is \<open>None\<close>; otherwise the string's contents, and what it holds afterwards.\<close>

definition DB_Get ::
    "('h, 's, 'e) env_ops \<Rightarrow> ReadOptions \<Rightarrow> SequenceNumber option \<Rightarrow> bytes \<Rightarrow> bytes option \<Rightarrow> ('h, 'e) DBImpl
      \<Rightarrow> (Status \<times> bytes option \<times> ('h, 'e) DBImpl) option" where
  "DB_Get env options snapshot key value db =
     (case value of
        None \<Rightarrow> Some (InvalidArgument (lit ''DBImpl::Get value is null'') [], None, db)
      | Some val \<Rightarrow>
          let c = db_comparator db; lookup_key = LookupKey_new key (GetSnapshotSequence snapshot db)
          in do {
            (found, val, status) \<leftarrow> MemTable_Get c (db_mem db) lookup_key val;
            if found then Some (status, Some val, db)
            else do {
              (found, val, status) \<leftarrow> (case db_imm db of None \<Rightarrow> Some (False, val, status) | Some imm \<Rightarrow> MemTable_Get c imm lookup_key val);
              if found then Some (status, Some val, db)
              else do {
                (status, val, stats, tc, next_id) \<leftarrow> Version_Get c (Some (cached_get c (db_opener env db) options))
                  (current_version (db_versions db)) lookup_key val (db_table_cache db, db_next_id db);
                Some (status, Some (if ok status then val else []), db\<lparr>db_table_cache := tc, db_next_id := next_id\<rparr>) } } })"

text \<open>
  The iterators below a database iterator: of a memtable, of a table, or an error. An iterator of a
  memtable carries the memtable as it was; later inserts have sequence numbers its snapshot does not see.
\<close>

type_synonym child = "(MemTable \<times> nat option) + Status + Table \<times> TableIterator"

definition child_ops :: "comparator \<Rightarrow> ReadOptions \<Rightarrow> child iter_ops" where
  "child_ops c options = Dispatch (MemTable_ops c) (Dispatch EmptyIterator (Object_ops (\<lambda>t. Table_iter_ops t options)))"

text \<open>\<open>table_cache_->NewIterator\<close>; the handles that the cleanups of the iterators release are collected.\<close>

definition table_child :: "file_opener \<Rightarrow> u64 \<Rightarrow> u64 \<Rightarrow> TableCache \<times> u64 \<times> nat list \<Rightarrow> (child \<times> TableCache \<times> u64 \<times> nat list) option" where
  "table_child new_file number file_size w =
     (case w of (tc, next_id, handles) \<Rightarrow>
        map_option (\<lambda>(r, tc, next_id).
            case r of Inl status \<Rightarrow> (Inr (Inl status), tc, next_id, handles)
            | Inr (t, it, h) \<Rightarrow> (Inr (Inr (t, it)), tc, next_id, handles @ [h]))
          (TableCache_NewIterator new_file number file_size tc next_id))"

definition release_handles :: "nat list \<Rightarrow> ('h, 'e) DBImpl \<Rightarrow> ('h, 'e) DBImpl" where
  "release_handles handles db = db\<lparr>db_table_cache := fold TableCache_UnrefEntry handles (db_table_cache db)\<rparr>"

text \<open>The iterator is returned with the number of the version it holds and its handles.\<close>

definition DB_NewIterator ::
    "('h, 's, 'e) env_ops \<Rightarrow> ReadOptions \<Rightarrow> SequenceNumber option \<Rightarrow> ('h, 'e) DBImpl
      \<Rightarrow> ((child merged DBIter \<times> nat \<times> nat list) \<times> ('h, 'e) DBImpl) option" where
  "DB_NewIterator env options snapshot db =
     (let sequence = GetSnapshotSequence snapshot db;
          children = Inl (MemTable_NewIterator (db_mem db)) # (case db_imm db of None \<Rightarrow> [] | Some imm \<Rightarrow> [Inl (MemTable_NewIterator imm)]);
          i = the (vs_current (db_versions db));
          db = db\<lparr>db_versions := VS_Ref i (db_versions db)\<rparr>
      in do { (children, tc, next_id, handles) \<leftarrow> AddIterators (Some (table_child (db_opener env db))) (current_version (db_versions db))
                children (db_table_cache db, db_next_id db, []);
              Some ((NewDBIterator (NewMergingIterator (child_ops (db_comparator db) options) children) sequence, i, handles),
                    db\<lparr>db_table_cache := tc, db_next_id := next_id\<rparr>) })"

definition UnrefVersion :: "nat \<Rightarrow> ('h, 'e) DBImpl \<Rightarrow> ('h, 'e) DBImpl" where
  "UnrefVersion i db = db\<lparr>db_versions := VS_Unref i (db_versions db)\<rparr>"

section \<open>Recovery\<close>

text \<open>The loop over the records of a log; what it returns is the result of the function.\<close>

partial_function (option) RecoverLogLoop ::
    "fresh \<Rightarrow> ('h, 's, 'e) env_ops \<Rightarrow> bytes \<Rightarrow> 's LogReader \<Rightarrow> ('h, 'e) DBImpl \<Rightarrow> (Status \<times> ('h, 'e) DBImpl) option" where
  "RecoverLogLoop fresh env log_name reader db =
     do { ((found, record, read_status), reader) \<leftarrow> ReadRecord (ev_read env) reader;
          if \<not> found then Some (if \<not> ok read_status then read_status else OK, db)
          else if length record < 12 then Some (Corruption (lit ''short WriteBatch record in WAL'') log_name, db)
          else
            let batch = WB_SetContents record WB_Clear; count = WB_Count batch
            in if count < 0 then Some (Corruption (lit ''negative WriteBatch count in WAL'') log_name, db)
               else if count = 0 then RecoverLogLoop fresh env log_name reader db
               else
                 let batch_sequence = WB_Sequence batch; count_as_sequence = (of_int count :: u64)
                 in if batch_sequence > kMaxSequenceNumber - count_as_sequence + 1
                    then Some (Corruption (lit ''WriteBatch sequence overflow in WAL'') log_name, db)
                    else do {
                      (status, mem) \<leftarrow> WB_InsertInto fresh (db_comparator db) batch (db_mem db);
                      let db = db\<lparr>db_mem := mem\<rparr>;
                      if \<not> ok status then Some (status, db)
                      else do {
                        let batch_last_sequence = batch_sequence + count_as_sequence - 1;
                        let db = (if db_last_sequence db < batch_last_sequence then db\<lparr>db_last_sequence := batch_last_sequence\<rparr> else db);
                        (status, db) \<leftarrow> (if ApproximateMemoryUsage (db_mem db) > op_write_buffer_size (db_options db)
                                       then FlushMemTable env (freeze_mem fresh db) else Some (OK, db));
                        if \<not> ok status then Some (status, db) else RecoverLogLoop fresh env log_name reader db } } }"

definition RecoverLogFile ::
    "fresh \<Rightarrow> ('h, 's, 'e) env_ops \<Rightarrow> u64 \<Rightarrow> ('h, 'e) DBImpl \<Rightarrow> (Status \<times> ('h, 'e) DBImpl) option" where
  "RecoverLogFile fresh env log_number db =
     (let log_name = LogFileName (db_dbname db) log_number
      in case ev_NewSequentialFile env log_name (db_env db) of
           (Inl status, e) \<Rightarrow> Some (status, db\<lparr>db_env := e\<rparr>)
         | (Inr file, e) \<Rightarrow> RecoverLogLoop fresh env log_name (LogReader_new file True) (db\<lparr>db_env := e\<rparr>))"

fun RecoverLogs ::
    "fresh \<Rightarrow> ('h, 's, 'e) env_ops \<Rightarrow> u64 list \<Rightarrow> ('h, 'e) DBImpl \<Rightarrow> (Status \<times> ('h, 'e) DBImpl) option" where
  "RecoverLogs fresh env [] db = Some (OK, db)"
| "RecoverLogs fresh env (log_number # log_numbers) db =
     do { (status, db) \<leftarrow> RecoverLogFile fresh env log_number (db\<lparr>db_logfile_number := log_number\<rparr>);
          if \<not> ok status then Some (status, db) else RecoverLogs fresh env log_numbers db }"

text \<open>The name of the MANIFEST that CURRENT holds, without its newline.\<close>

definition strip_newline :: "bytes \<Rightarrow> bytes" where
  "strip_newline current = (if current \<noteq> [] \<and> last current = 10 then butlast current else current)"

definition KeepFile :: "u64 list \<Rightarrow> u64 \<Rightarrow> ('h, 'e) DBImpl \<Rightarrow> u64 \<Rightarrow> FileType \<Rightarrow> bool" where
  "KeepFile live current_manifest_number db number type =
     (case type of
        kTableFile \<Rightarrow> number \<in> set live
      | kDescriptorFile \<Rightarrow> number = current_manifest_number
      | kLogFile \<Rightarrow> current_manifest_number = 0 \<or> vs_log_number (db_versions db) = 0
          \<or> number \<ge> vs_log_number (db_versions db) \<or> number = db_logfile_number db
      | kTempFile \<Rightarrow> False
      | kCurrentFile \<Rightarrow> True | kDBLockFile \<Rightarrow> True | kInfoLogFile \<Rightarrow> True)"

fun RemoveFiles ::
    "('h, 's, 'e) env_ops \<Rightarrow> u64 list \<Rightarrow> u64 \<Rightarrow> bytes list \<Rightarrow> ('h, 'e) DBImpl \<Rightarrow> Status \<times> ('h, 'e) DBImpl" where
  "RemoveFiles env live manifest [] db = (OK, db)"
| "RemoveFiles env live manifest (filename # filenames) db =
     (if IsDotOrDotDot filename then RemoveFiles env live manifest filenames db
      else case ParseFileName filename of
             None \<Rightarrow> RemoveFiles env live manifest filenames db
           | Some (number, type) \<Rightarrow>
               if KeepFile live manifest db number type then RemoveFiles env live manifest filenames db
               else let path = db_dbname db @ lit ''/'' @ filename
                    in if ev_FileExists env path (db_env db)
                       then (case db_RemoveFile env path db of (status, db) \<Rightarrow>
                               if \<not> ok status then (status, db) else RemoveFiles env live manifest filenames db)
                       else RemoveFiles env live manifest filenames db)"

definition RemoveObsoleteFiles :: "('h, 's, 'e) env_ops \<Rightarrow> ('h, 'e) DBImpl \<Rightarrow> (Status \<times> ('h, 'e) DBImpl) option" where
  "RemoveObsoleteFiles env db =
     (case ev_GetChildren env (db_dbname db) (db_env db) of (status, filenames) \<Rightarrow>
        if \<not> ok status then Some (status, db)
        else
          let live = foldl (\<lambda>live n. insort_insert n live) (AddLiveFiles (db_versions db) []) (db_pending_outputs db)
          in if ev_FileExists env (CurrentFileName (db_dbname db)) (db_env db)
             then do { (status, current, e) \<leftarrow> ReadFileToString env (CurrentFileName (db_dbname db)) (db_env db);
                       let db = db\<lparr>db_env := e\<rparr>;
                       if \<not> ok status then Some (status, db)
                       else case ParseFileName (strip_newline current) of
                              Some (manifest, kDescriptorFile) \<Rightarrow> Some (RemoveFiles env live manifest filenames db)
                            | _ \<Rightarrow> Some (Corruption (lit ''CURRENT points to invalid MANIFEST'') (strip_newline current), db) }
             else Some (RemoveFiles env live 0 filenames db))"

text \<open>The logs to replay, among the names in the directory; every number found is marked as used.\<close>

definition NoteFile :: "bool \<Rightarrow> u64 list \<times> ('h, 'e) DBImpl \<Rightarrow> bytes \<Rightarrow> u64 list \<times> ('h, 'e) DBImpl" where
  "NoteFile has_current acc filename =
     (case acc of (log_numbers, db) \<Rightarrow>
        if IsDotOrDotDot filename then (log_numbers, db)
        else case ParseFileName filename of
               None \<Rightarrow> (log_numbers, db)
             | Some (number, type) \<Rightarrow>
                 let db = (if number > 0 then db\<lparr>db_versions := MarkFileNumberUsed number (db_versions db)\<rparr> else db)
                 in if type = kLogFile \<and> (\<not> has_current \<or> number \<ge> vs_log_number (db_versions db))
                    then (log_numbers @ [number], db) else (log_numbers, db))"

text \<open>The end of \<open>Open\<close>, once the logs are replayed.\<close>

definition OpenNewLog :: "('h, 's, 'e) env_ops \<Rightarrow> bool \<Rightarrow> bool \<Rightarrow> ('h, 'e) DBImpl \<Rightarrow> (Status \<times> ('h, 'e) DBImpl) option" where
  "OpenNewLog env has_current replayed_logs db =
     (let db = (if has_current \<or> replayed_logs
                then (case db_NewFileNumber db of (n, db) \<Rightarrow> db\<lparr>db_logfile_number := n\<rparr>) else db\<lparr>db_logfile_number := 1\<rparr>)
      in case InitWAL env db of (status, db) \<Rightarrow>
           if \<not> ok status then Some (status, db)
           else do {
             (status, db) \<leftarrow> (if replayed_logs then db_versions_do (LogAndApply (db_comparator db) env (LogEdit db)) db else Some (OK, db));
             if \<not> ok status then Some (status, db)
             else do { (status, db) \<leftarrow> RemoveObsoleteFiles env db;
                       Some (status, if ok status then MaybeScheduleCompaction db else db) } })"

definition DBImpl_Open :: "fresh \<Rightarrow> ('h, 's, 'e) env_ops \<Rightarrow> ('h, 'e) DBImpl \<Rightarrow> (Status \<times> ('h, 'e) DBImpl) option" where
  "DBImpl_Open fresh env db =
     (case db_CreateDir env db of (status, db) \<Rightarrow>
        if \<not> ok status then Some (status, db)
        else case ev_GetChildren env (db_dbname db) (db_env db) of (status, filenames) \<Rightarrow>
          if \<not> ok status then Some (status, db)
          else do {
            let has_current = ev_FileExists env (CurrentFileName (db_dbname db)) (db_env db);
            (status, db) \<leftarrow> (if has_current then db_versions_do (Recover (db_comparator db) env) db else Some (OK, db));
            if \<not> ok status then Some (status, db)
            else do {
              let db = (if has_current then db\<lparr>db_last_sequence := vs_last_sequence (db_versions db)\<rparr> else db);
              let (log_numbers, db) = foldl (NoteFile has_current) ([], db) filenames;
              (status, db) \<leftarrow> RecoverLogs fresh env (sort log_numbers) db;
              if \<not> ok status then Some (status, db)
              else do {
                (status, db) \<leftarrow> (if log_numbers \<noteq> [] \<and> \<not> MemTable_Empty (db_mem db)
                               then FlushMemTable env (freeze_mem fresh db) else Some (OK, db));
                if \<not> ok status then Some (status, db) else OpenNewLog env has_current (log_numbers \<noteq> []) db } } })"

section \<open>Compaction\<close>

record Output =
  out_number :: u64
  out_file_size :: u64
  out_smallest :: InternalKey
  out_largest :: InternalKey

text \<open>
  \<open>cs_version\<close> is the number of the version that the compaction holds. The output file is the file of
  the builder: between the operations the two are null together.
\<close>

record 'h CompactionState =
  cs_version :: nat
  cs_compaction :: Compaction
  cs_smallest_snapshot :: SequenceNumber
  cs_outputs :: "Output list"
  cs_builder :: "'h TableBuilder option"
  cs_total_bytes :: u64

definition CompactionState_new :: "nat \<times> Compaction \<Rightarrow> 'h CompactionState" where
  "CompactionState_new icp =
     \<lparr>cs_version = fst icp, cs_compaction = snd icp, cs_smallest_snapshot = 0, cs_outputs = [], cs_builder = None, cs_total_bytes = 0\<rparr>"

definition cs_set_output :: "(Output \<Rightarrow> Output) \<Rightarrow> 'h CompactionState \<Rightarrow> 'h CompactionState" where
  "cs_set_output f cs = cs\<lparr>cs_outputs := butlast (cs_outputs cs) @ [f (last (cs_outputs cs))]\<rparr>"

text \<open>A builder kept beside the environment: its operations act on the file and the state together.\<close>

definition tb_map :: "('f \<Rightarrow> 'g) \<Rightarrow> 'f TableBuilder \<Rightarrow> 'g TableBuilder" where
  "tb_map f r = \<lparr>tb_options = tb_options r, tb_file = f (tb_file r), tb_offset = tb_offset r, tb_status = tb_status r,
     tb_data_block = tb_data_block r, tb_index_block = tb_index_block r, tb_last_key = tb_last_key r,
     tb_num_entries = tb_num_entries r, tb_closed = tb_closed r, tb_pending_index_entry = tb_pending_index_entry r,
     tb_pending_handle = tb_pending_handle r, tb_filter_block = tb_filter_block r\<rparr>"

definition on_builder ::
    "(('h \<times> 'e) TableBuilder \<Rightarrow> (Status \<times> ('h \<times> 'e) TableBuilder) option) \<Rightarrow> 'h TableBuilder \<Rightarrow> 'e \<Rightarrow> (Status \<times> 'h TableBuilder \<times> 'e) option" where
  "on_builder f r e =
     map_option (\<lambda>(status, r). (status, tb_map fst r, snd (tb_file r))) (f (tb_map (\<lambda>h. (h, e)) r))"

definition OpenCompactionOutputFile ::
    "('h, 's, 'e) env_ops \<Rightarrow> 'h CompactionState \<Rightarrow> ('h, 'e) DBImpl \<Rightarrow> Status \<times> 'h CompactionState \<times> ('h, 'e) DBImpl" where
  "OpenCompactionOutputFile env cs db =
     (let (file_number, db) = db_NewFileNumber db;
          db = db\<lparr>db_pending_outputs := insort_insert file_number (db_pending_outputs db)\<rparr>;
          cs = cs\<lparr>cs_outputs := cs_outputs cs @ [\<lparr>out_number = file_number, out_file_size = 0, out_smallest = [], out_largest = []\<rparr>]\<rparr>
      in case ev_NewWritableFile env (TableFileName (db_dbname db) file_number) (db_env db) of
           (Inl status, e) \<Rightarrow>
             (status, cs\<lparr>cs_outputs := butlast (cs_outputs cs)\<rparr>,
              db\<lparr>db_env := e, db_pending_outputs := remove1 file_number (db_pending_outputs db)\<rparr>)
         | (Inr outfile, e) \<Rightarrow>
             (OK, cs\<lparr>cs_builder := Some (TableBuilder_new (db_table_options db) outfile)\<rparr>, db\<lparr>db_env := e\<rparr>))"

text \<open>The new file is opened once through the table cache.\<close>

definition VerifyOutput :: "('h, 's, 'e) env_ops \<Rightarrow> u64 \<Rightarrow> u64 \<Rightarrow> ('h, 'e) DBImpl \<Rightarrow> (Status \<times> ('h, 'e) DBImpl) option" where
  "VerifyOutput env number file_size db =
     (let ops = child_ops (db_comparator db) \<lparr>ro_verify_checksums = False, ro_fill_cache = True\<rparr>
      in do { (iter, tc, next_id, handles) \<leftarrow> table_child (db_opener env db) number file_size (db_table_cache db, db_next_id db, []);
              iter \<leftarrow> it_SeekToFirst ops iter;
              Some (it_status ops iter, release_handles handles (db\<lparr>db_table_cache := tc, db_next_id := next_id\<rparr>)) })"

definition FinishCompactionOutputFile ::
    "('h, 's, 'e) env_ops \<Rightarrow> Status \<Rightarrow> 'h CompactionState \<Rightarrow> ('h, 'e) DBImpl \<Rightarrow> (Status \<times> 'h CompactionState \<times> ('h, 'e) DBImpl) option" where
  "FinishCompactionOutputFile env input_status cs db =
     do { builder \<leftarrow> cs_builder cs;
          let output_number = out_number (last (cs_outputs cs));
          let entry_count = TB_NumEntries builder;
          (status, builder, e) \<leftarrow> (if ok input_status then on_builder (TB_Finish (ev_file env)) builder (db_env db)
                                 else Some (input_status, TB_Abandon builder, db_env db));
          let file_size = TB_FileSize builder;
          let cs = cs_set_output (\<lambda>output. output\<lparr>out_file_size := file_size\<rparr>) cs;
          let cs = cs\<lparr>cs_total_bytes := cs_total_bytes cs + file_size, cs_builder := None\<rparr>;
          (status, h, e) \<leftarrow> (if ok status then wf_Sync (ev_file env) (tb_file builder, e) else Some (status, tb_file builder, e));
          (close_status, h, e) \<leftarrow> wf_Close (ev_file env) (h, e);
          let status = (if ok status then close_status else status);
          let db = db\<lparr>db_env := ev_Delete env h e\<rparr>;
          (status, db) \<leftarrow> (if ok status \<and> entry_count > 0 then VerifyOutput env output_number file_size db else Some (status, db));
          Some (if \<not> ok status
                then (status, cs, snd (db_RemoveFile env (TableFileName (db_dbname db) output_number)
                       (db\<lparr>db_pending_outputs := remove1 output_number (db_pending_outputs db)\<rparr>)))
                else (status, cs, db)) }"

definition InstallCompactionResults ::
    "('h, 's, 'e) env_ops \<Rightarrow> 'h CompactionState \<Rightarrow> ('h, 'e) DBImpl \<Rightarrow> (Status \<times> 'h CompactionState \<times> ('h, 'e) DBImpl) option" where
  "InstallCompactionResults env cs db =
     (let cp = cs_compaction cs;
          edit = AddInputDeletions cp (cp_edit cp);
          edit = foldl (\<lambda>edit output. if out_file_size output = 0 then edit
                   else VE_AddFile edit (cp_level cp + 1) (out_number output) (out_file_size output) (out_smallest output) (out_largest output))
                 edit (cs_outputs cs)
      in map_option (\<lambda>(status, db). (status, cs\<lparr>cs_compaction := cp\<lparr>cp_edit := edit\<rparr>\<rparr>, db))
           (db_versions_do (LogAndApply (db_comparator db) env edit) db))"

text \<open>
  Whether an entry is dropped. The state is \<open>current_user_key\<close>, \<open>None\<close> when there is none, and
  \<open>last_sequence_for_key\<close>; the pointers of the compaction move with the search in the levels below.
\<close>

type_synonym key_state = "bytes option \<times> SequenceNumber"

definition DropEntry ::
    "comparator \<Rightarrow> SequenceNumber \<Rightarrow> bytes \<Rightarrow> key_state \<times> Compaction \<Rightarrow> bool \<times> key_state \<times> Compaction" where
  "DropEntry c smallest_snapshot key s =
     (case s of ((current_user_key, last_sequence_for_key), cp) \<Rightarrow>
        case ParseInternalKey key of
          None \<Rightarrow> (False, (None, kMaxSequenceNumber), cp)
        | Some parsed_key \<Rightarrow>
            let fresh_key = (case current_user_key of None \<Rightarrow> True | Some k \<Rightarrow> Compare c (pk_user_key parsed_key) k \<noteq> 0);
                current_user_key = (if fresh_key then Some (pk_user_key parsed_key) else current_user_key);
                last_sequence_for_key = (if fresh_key then kMaxSequenceNumber else last_sequence_for_key);
                (drop, cp) = (if last_sequence_for_key \<le> smallest_snapshot then (True, cp)
                              else if pk_type parsed_key = kTypeDeletion \<and> pk_sequence parsed_key \<le> smallest_snapshot
                              then IsBaseLevelForKey c cp (pk_user_key parsed_key)
                              else (False, cp))
            in (drop, (current_user_key, pk_sequence parsed_key), cp))"

text \<open>One round of the loop; the status tells whether it breaks.\<close>

definition AddOutputEntry ::
    "('h, 's, 'e) env_ops \<Rightarrow> bytes \<Rightarrow> bytes \<Rightarrow> 'h CompactionState \<Rightarrow> ('h, 'e) DBImpl \<Rightarrow> ('h CompactionState \<times> ('h, 'e) DBImpl) option" where
  "AddOutputEntry env key value cs db =
     do { builder \<leftarrow> cs_builder cs;
          let cs = (if TB_NumEntries builder = 0
                    then cs_set_output (\<lambda>output. output\<lparr>out_smallest := fst (InternalKey_DecodeFrom key)\<rparr>) cs else cs);
          let cs = cs_set_output (\<lambda>output. output\<lparr>out_largest := fst (InternalKey_DecodeFrom key)\<rparr>) cs;
          (status, builder, e) \<leftarrow> on_builder (\<lambda>r. map_option (Pair OK) (TB_Add (ev_file env) key value r)) builder (db_env db);
          Some (cs\<lparr>cs_builder := Some builder\<rparr>, db\<lparr>db_env := e\<rparr>) }"

definition CompactionStep ::
    "('h, 's, 'e) env_ops \<Rightarrow> Status \<Rightarrow> bytes \<Rightarrow> bytes \<Rightarrow> key_state \<Rightarrow> 'h CompactionState \<Rightarrow> ('h, 'e) DBImpl
      \<Rightarrow> (Status \<times> key_state \<times> 'h CompactionState \<times> ('h, 'e) DBImpl) option" where
  "CompactionStep env input_status key value ks cs db =
     (let c = db_comparator db; (stop, cp) = ShouldStopBefore c (db_table_options db) (cs_compaction cs) key; cs = cs\<lparr>cs_compaction := cp\<rparr>
      in do {
        (status, cs, db) \<leftarrow> (if stop \<and> cs_builder cs \<noteq> None then FinishCompactionOutputFile env input_status cs db else Some (OK, cs, db));
        if \<not> ok status then Some (status, ks, cs, db)
        else
          let (drop, ks, cp) = DropEntry c (cs_smallest_snapshot cs) key (ks, cs_compaction cs); cs = cs\<lparr>cs_compaction := cp\<rparr>
          in if drop then Some (OK, ks, cs, db)
             else
               let (status, cs, db) = (if cs_builder cs = None then OpenCompactionOutputFile env cs db else (OK, cs, db))
               in if \<not> ok status then Some (status, ks, cs, db)
                  else do {
                    (cs, db) \<leftarrow> AddOutputEntry env key value cs db;
                    builder \<leftarrow> cs_builder cs;
                    (status, cs, db) \<leftarrow> (if TB_FileSize builder \<ge> cp_max_output_file_size (cs_compaction cs)
                                       then FinishCompactionOutputFile env input_status cs db else Some (OK, cs, db));
                    Some (status, ks, cs, db) } })"

partial_function (option) CompactionLoop ::
    "'i iter_ops \<Rightarrow> ('h, 's, 'e) env_ops \<Rightarrow> 'i \<Rightarrow> key_state \<Rightarrow> 'h CompactionState \<Rightarrow> ('h, 'e) DBImpl
      \<Rightarrow> (Status \<times> 'i \<times> 'h CompactionState \<times> ('h, 'e) DBImpl) option" where
  "CompactionLoop ops env input ks cs db =
     (if \<not> it_Valid ops input then Some (OK, input, cs, db)
      else do { (status, ks, cs, db) \<leftarrow> CompactionStep env (it_status ops input) (it_key ops input) (it_value ops input) ks cs db;
                if \<not> ok status then Some (status, input, cs, db)
                else do { input \<leftarrow> it_Next ops input; CompactionLoop ops env input ks cs db } })"

text \<open>The inputs are read through the table cache, past a block cache.\<close>

definition DoCompactionWork ::
    "('h, 's, 'e) env_ops \<Rightarrow> 'h CompactionState \<Rightarrow> ('h, 'e) DBImpl \<Rightarrow> (Status \<times> 'h CompactionState \<times> ('h, 'e) DBImpl) option" where
  "DoCompactionWork env cs db =
     (let c = db_comparator db;
          options = \<lparr>ro_verify_checksums = op_paranoid_checks (db_table_options db), ro_fill_cache = False\<rparr>;
          ops = Merged_ops (InternalKeyComparator c) (child_ops c options);
          cs = cs\<lparr>cs_smallest_snapshot := SmallestSnapshot db\<rparr>
      in do {
        (input, tc, next_id, handles) \<leftarrow> MakeInputIterator (child_ops c options) (Some (table_child (db_opener env db))) (cs_compaction cs)
          (db_table_cache db, db_next_id db, []);
        let db = db\<lparr>db_table_cache := tc, db_next_id := next_id\<rparr>;
        input \<leftarrow> it_SeekToFirst ops input;
        (status, input, cs, db) \<leftarrow> CompactionLoop ops env input (None, kMaxSequenceNumber) cs db;
        (status, cs, db) \<leftarrow> (if ok status \<and> cs_builder cs \<noteq> None then FinishCompactionOutputFile env (it_status ops input) cs db
                           else Some (status, cs, db));
        let status = (if ok status then it_status ops input else status);
        (status, cs, db) \<leftarrow> (if ok status then InstallCompactionResults env cs db else Some (status, cs, db));
        (status, cs, db) \<leftarrow>
          (if ok status
           then (case ReleaseInputs (cs_version cs, cs_compaction cs) (db_versions db) of
                   ((i, cp), vs) \<Rightarrow> map_option (\<lambda>(status, db). (status, cs\<lparr>cs_compaction := cp\<rparr>, db)) (RemoveObsoleteFiles env (db\<lparr>db_versions := vs\<rparr>)))
           else Some (status, cs, db));
        Some (status, cs, release_handles handles db) })"

definition CleanupCompaction :: "('h, 's, 'e) env_ops \<Rightarrow> 'h CompactionState \<Rightarrow> ('h, 'e) DBImpl \<Rightarrow> ('h, 'e) DBImpl option" where
  "CleanupCompaction env cs db =
     do { e \<leftarrow> (case cs_builder cs of
                  None \<Rightarrow> Some (db_env db)
                | Some builder \<Rightarrow> map_option (\<lambda>(status, h, e). ev_Delete env h e) (wf_Close (ev_file env) (tb_file (TB_Abandon builder), db_env db)));
          Some (foldl (\<lambda>db output.
                  let db = db\<lparr>db_pending_outputs := remove1 (out_number output) (db_pending_outputs db)\<rparr>
                  in if out_file_size output = 0 then snd (db_RemoveFile env (TableFileName (db_dbname db) (out_number output)) db) else db)
                (db\<lparr>db_env := e\<rparr>) (cs_outputs cs)) }"

definition RunCompaction ::
    "('h, 's, 'e) env_ops \<Rightarrow> nat \<times> Compaction \<Rightarrow> ('h, 'e) DBImpl \<Rightarrow> (Status \<times> (nat \<times> Compaction) \<times> ('h, 'e) DBImpl) option" where
  "RunCompaction env icp db =
     (case icp of (i, cp) \<Rightarrow>
        if IsTrivialMove (db_table_options db) cp
        then let file = hd (cp_inputs0 cp);
                 edit = VE_RemoveFile (cp_edit cp) (cp_level cp) (fm_number file);
                 edit = VE_AddFile edit (cp_level cp + 1) (fm_number file) (fm_file_size file) (fm_smallest file) (fm_largest file);
                 cp = cp\<lparr>cp_edit := edit\<rparr>
             in do { (status, db) \<leftarrow> db_versions_do (LogAndApply (db_comparator db) env edit) db;
                     if ok status
                     then (case ReleaseInputs (i, cp) (db_versions db) of (icp, vs) \<Rightarrow>
                             map_option (\<lambda>(status, db). (status, icp, db)) (RemoveObsoleteFiles env (db\<lparr>db_versions := vs\<rparr>)))
                     else Some (status, (i, cp), db) }
        else do { (status, cs, db) \<leftarrow> DoCompactionWork env (CompactionState_new (i, cp)) db;
                  db \<leftarrow> CleanupCompaction env cs db;
                  db \<leftarrow> (if \<not> ok status then map_option snd (RemoveObsoleteFiles env db) else Some db);
                  Some (status, (i, cs_compaction cs), db) })"

text \<open>The destructor of a compaction releases its version.\<close>

definition Compaction_delete :: "nat \<times> Compaction \<Rightarrow> ('h, 'e) DBImpl \<Rightarrow> ('h, 'e) DBImpl" where
  "Compaction_delete icp db = db\<lparr>db_versions := snd (ReleaseInputs icp (db_versions db))\<rparr>"

definition run_picked ::
    "('h, 's, 'e) env_ops \<Rightarrow> nat \<times> Compaction \<Rightarrow> ('h, 'e) DBImpl \<Rightarrow> (Status \<times> ('h, 'e) DBImpl) option" where
  "run_picked env icp db = map_option (\<lambda>(status, icp, db). (status, Compaction_delete icp db)) (RunCompaction env icp db)"

section \<open>The background calls\<close>

definition BackgroundCompaction :: "fresh \<Rightarrow> ('h, 's, 'e) env_ops \<Rightarrow> ('h, 'e) DBImpl \<Rightarrow> (Status \<times> ('h, 'e) DBImpl) option" where
  "BackgroundCompaction fresh env db =
     (if db_imm db \<noteq> None then CompactMemTable fresh env db
      else do { (compaction, vs) \<leftarrow> PickCompaction (db_comparator db) (db_versions db);
                let db = db\<lparr>db_versions := vs\<rparr>;
                case compaction of None \<Rightarrow> Some (OK, db) | Some icp \<Rightarrow> run_picked env icp db })"

definition BackgroundCall :: "fresh \<Rightarrow> ('h, 's, 'e) env_ops \<Rightarrow> ('h, 'e) DBImpl \<Rightarrow> ('h, 'e) DBImpl option" where
  "BackgroundCall fresh env db =
     (let db = db\<lparr>db_running := True\<rparr>; should_run = (\<not> db_shutting_down db \<and> ok (db_bg_error db))
      in do { (status, db) \<leftarrow> (if should_run then BackgroundCompaction fresh env db else Some (OK, db));
              let db = RecordBackgroundError status db;
              Some (MaybeScheduleCompaction (db\<lparr>db_running := False, db_scheduled := False\<rparr>)) })"

text \<open>A step of the environment's background thread.\<close>

definition background_step :: "fresh \<Rightarrow> ('h, 's, 'e) env_ops \<Rightarrow> ('h, 'e) DBImpl \<Rightarrow> ('h, 'e) DBImpl option" where
  "background_step fresh env db =
     (case BackgroundThread_take (db_work db) of
        None \<Rightarrow> None
      | Some (BGWork, b) \<Rightarrow> BackgroundCall fresh env (db\<lparr>db_work := b\<rparr>))"

partial_function (option) CompactRangeLoop ::
    "('h, 's, 'e) env_ops \<Rightarrow> int \<Rightarrow> InternalKey option \<Rightarrow> InternalKey option \<Rightarrow> ('h, 'e) DBImpl \<Rightarrow> (Status \<times> ('h, 'e) DBImpl) option" where
  "CompactRangeLoop env level begin_key end_key db =
     do { (compaction, vs) \<leftarrow> VS_CompactRange (db_comparator db) level begin_key end_key (db_versions db);
          let db = db\<lparr>db_versions := vs\<rparr>;
          case compaction of
            None \<Rightarrow> Some (OK, db)
          | Some icp \<Rightarrow> do { (status, db) \<leftarrow> run_picked env icp db;
                            if ok status then CompactRangeLoop env level begin_key end_key db else Some (status, db) } }"

definition TEST_CompactRange ::
    "('h, 's, 'e) env_ops \<Rightarrow> int \<Rightarrow> bytes option \<Rightarrow> bytes option \<Rightarrow> ('h, 'e) DBImpl \<Rightarrow> (Status \<times> ('h, 'e) DBImpl) option" where
  "TEST_CompactRange env level begin_key end_key db =
     (if level < 0 \<or> level + 1 \<ge> kNumLevels then Some (InvalidArgument (lit ''TEST_CompactRange level out of range'') [], db)
      else map_option (\<lambda>(status, db). (status, RecordBackgroundError status db))
             (CompactRangeLoop env level (map_option (\<lambda>k. InternalKey_new k kMaxSequenceNumber kValueTypeForSeek) begin_key)
               (map_option (\<lambda>k. InternalKey_new k 0 kTypeDeletion) end_key) db))"

section \<open>Opening and closing\<close>

definition VersionSet_delete :: "('h, 's, 'e) env_ops \<Rightarrow> 'h VersionSet \<Rightarrow> 'e \<Rightarrow> 'e option" where
  "VersionSet_delete env vs e =
     (case vs_descriptor vs of
        None \<Rightarrow> Some e
      | Some writer \<Rightarrow> map_option (\<lambda>(status, h, e). ev_Delete env h e) (wf_Close (ev_file env) (dest writer, e)))"

text \<open>The destructor waits while background work is scheduled or running; then the state of the environment is left.\<close>

definition DBImpl_delete :: "('h, 's, 'e) env_ops \<Rightarrow> ('h, 'e) DBImpl \<Rightarrow> 'e option" where
  "DBImpl_delete env db =
     (if db_running db \<or> db_scheduled db then None
      else do { e \<leftarrow> (case db_log db of
                        None \<Rightarrow> Some (db_env db)
                      | Some writer \<Rightarrow> map_option (\<lambda>(status, h, e). ev_Delete env h e) (wf_Close (ev_file env) (dest writer, db_env db)));
                VersionSet_delete env (db_versions db) e })"

definition DB_Open ::
    "fresh \<Rightarrow> ('h, 's, 'e) env_ops \<Rightarrow> Options \<Rightarrow> bytes \<Rightarrow> 'e \<Rightarrow> (Status \<times> (('h, 'e) DBImpl + 'e)) option" where
  "DB_Open fresh env options dbname e =
     do { (status, db) \<leftarrow> DBImpl_Open fresh env (DBImpl_new fresh options dbname e);
          if \<not> ok status then map_option (\<lambda>e. (status, Inr e)) (DBImpl_delete env db) else Some (status, Inl db) }"

end
