(* ===== verification/Compactions.thy ===== *)
theory Compactions
  imports DBImpls
begin

text \<open>
  What a compaction keeps (the loop of \<open>DoCompactionWork\<close>, db/db_impl.cc, with \<open>IsBaseLevelForKey\<close>,
  db/version_set.cc). The search of the deeper levels with its moving pointers is exact when the
  keys ascend, and the entries that are dropped change no read at a snapshot that is still held.
\<close>

section \<open>The deeper levels\<close>

text \<open>The files before the pointers end below the key.\<close>

definition ptrs_behind :: "comparator \<Rightarrow> Version \<Rightarrow> bytes \<Rightarrow> (int \<Rightarrow> nat) \<Rightarrow> bool" where
  "ptrs_behind c v key ptrs \<longleftrightarrow>
     (\<forall>level. ptrs level \<le> length (v_files v level) \<and> (\<forall>i < ptrs level. Compare c (limit_of (v_files v level ! i)) key < 0))"

definition at_base :: "comparator \<Rightarrow> Version \<Rightarrow> int list \<Rightarrow> bytes \<Rightarrow> bool" where
  "at_base c v ls key \<longleftrightarrow> (\<forall>level \<in> set ls. \<forall>f \<in> set (v_files v level). \<not> FileMayContainUserkey c f key)"

lemma ptrs_behind_start: "ptrs_behind c v key (\<lambda>_. 0)"
  by (simp add: ptrs_behind_def)

context user_comparator
begin

lemma ptrs_behind_later: "ptrs_behind c v key ptrs \<Longrightarrow> Compare c key key' \<le> 0 \<Longrightarrow> ptrs_behind c v key' ptrs"
  unfolding ptrs_behind_def using cmp_less_le_trans by blast

lemma BaseLevelLoop_exact:
  assumes "level_sorted files" "p \<le> length files" "\<forall>i < p. Compare c (limit_of (files ! i)) key < 0"
  shows "\<exists>p'. BaseLevelLoop c key (drop p files) p = (p', \<exists>f \<in> set files. in_range key f)
    \<and> p' \<le> length files \<and> (\<forall>i < p'. Compare c (limit_of (files ! i)) key < 0)"
  using assms(2,3)
proof (induction "length files - p" arbitrary: p)
  case 0
  then have p: "p = length files" by simp
  have "\<not> in_range key f" if f: "f \<in> set files" for f
  proof -
    obtain i where "i < length files" "f = files ! i" using f by (metis in_set_conv_nth)
    with 0(3) p have "Compare c (limit_of f) key < 0" by simp
    then show ?thesis using cmp_not_less [of "limit_of f" key] by (auto simp: in_range_def)
  qed
  with 0 p show ?case by auto
next
  case (Suc n)
  let ?f = "files ! p"
  have p: "p < length files" and d: "drop p files = ?f # drop (Suc p) files"
    using Suc.hyps(2) by (simp_all add: Cons_nth_drop_Suc)
  show ?case
  proof (cases "Compare c key (limit_of ?f) \<le> 0")
    case True
    have "(\<exists>f \<in> set files. in_range key f) \<longleftrightarrow> in_range key ?f"
    proof
      assume "\<exists>f \<in> set files. in_range key f"
      then obtain i where i: "i < length files" "in_range key (files ! i)" by (auto simp: in_set_conv_nth)
      have "\<not> i < p" using Suc.prems(2) i(2) cmp_not_less [of "limit_of (files ! i)" key] by (auto simp: in_range_def)
      moreover have "\<not> p < i"
      proof
        assume "p < i"
        from level_limits(1) [OF assms(1) this i(1)] True have "Compare c key (start_of (files ! i)) < 0"
          using cmp_le_less_trans by blast
        then show False using i(2) cmp_not_less [of key "start_of (files ! i)"] by (auto simp: in_range_def)
      qed
      ultimately have "i = p" by simp
      with i(2) show "in_range key ?f" by simp
    qed (use p in auto)
    moreover have "in_range key ?f \<longleftrightarrow> Compare c key (start_of ?f) \<ge> 0"
      using True cmp_not_less [of key "start_of ?f"] by (auto simp: in_range_def)
    ultimately show ?thesis using True p Suc.prems by (simp add: d)
  next
    case False
    then have "Compare c (limit_of ?f) key < 0" using cmp_not_less [of "limit_of ?f" key] cmp_anti [of "limit_of ?f" key] by auto
    with Suc.prems(2) have "\<forall>i < Suc p. Compare c (limit_of (files ! i)) key < 0" by (auto simp: less_Suc_eq)
    moreover have "n = length files - Suc p" "Suc p \<le> length files" using Suc.hyps(2) by auto
    ultimately show ?thesis using Suc.hyps(1) [of "Suc p"] False by (simp add: d)
  qed
qed

lemma BaseLevels_exact:
  assumes "\<forall>level \<in> set ls. level_sorted (v_files v level)" "ptrs_behind c v key ptrs"
  shows "\<exists>ptrs'. BaseLevels c v key ls ptrs = (at_base c v ls key, ptrs') \<and> ptrs_behind c v key ptrs'"
  using assms
proof (induction ls arbitrary: ptrs)
  case (Cons level ls)
  let ?files = "v_files v level"
  have s: "level_sorted ?files" and b: "ptrs level \<le> length ?files" "\<forall>i < ptrs level. Compare c (limit_of (?files ! i)) key < 0"
    using Cons.prems by (auto simp: ptrs_behind_def)
  obtain p' where p': "BaseLevelLoop c key (drop (ptrs level) ?files) (ptrs level) = (p', \<exists>f \<in> set ?files. in_range key f)"
      "p' \<le> length ?files" "\<forall>i < p'. Compare c (limit_of (?files ! i)) key < 0"
    using BaseLevelLoop_exact [OF s b] by blast
  have b': "ptrs_behind c v key (ptrs(level := p'))" using Cons.prems(2) p'(2,3) by (simp add: ptrs_behind_def)
  obtain ptrs' where IH: "BaseLevels c v key ls (ptrs(level := p')) = (at_base c v ls key, ptrs')" "ptrs_behind c v key ptrs'"
    using Cons.IH [OF _ b'] Cons.prems(1) by (metis list.set_intros(2))
  show ?case
  proof (cases "\<exists>f \<in> set ?files. in_range key f")
    case True
    then have "\<not> at_base c v (level # ls) key" by (auto simp: at_base_def FileMayContainUserkey_iff)
    with True p'(1) b' show ?thesis by simp
  next
    case False
    then have "at_base c v (level # ls) key = at_base c v ls key" by (auto simp: at_base_def FileMayContainUserkey_iff)
    with False p'(1) IH show ?thesis by simp
  qed
qed (simp add: at_base_def)

end

text \<open>The levels below the output level.\<close>

definition deeper :: "Compaction \<Rightarrow> int list" where
  "deeper cp = [cp_level cp + 2..kNumLevels - 1]"

text \<open>A compaction that holds version \<open>v\<close> with pointers that are behind \<open>key\<close>.\<close>

definition searching :: "comparator \<Rightarrow> Version \<Rightarrow> int \<Rightarrow> bytes \<Rightarrow> Compaction \<Rightarrow> bool" where
  "searching c v level key cp \<longleftrightarrow> cp_input_version cp = Some v \<and> cp_level cp = level \<and> ptrs_behind c v key (cp_level_ptrs cp)"

fun base_answers :: "comparator \<Rightarrow> Compaction \<Rightarrow> bytes list \<Rightarrow> bool list" where
  "base_answers c cp [] = []"
| "base_answers c cp (key # keys) = (case IsBaseLevelForKey c cp key of (b, cp) \<Rightarrow> b # base_answers c cp keys)"

context user_comparator
begin

lemma IsBaseLevelForKey_exact:
  assumes "\<forall>level \<in> set (deeper cp). level_sorted (v_files v level)" "searching c v level key cp"
  shows "\<exists>cp'. IsBaseLevelForKey c cp key = (at_base c v (deeper cp) key, cp') \<and> searching c v level key cp'"
proof -
  have v: "cp_input_version cp = Some v" "cp_level cp = level" "ptrs_behind c v key (cp_level_ptrs cp)"
    using assms(2) by (auto simp: searching_def)
  obtain ptrs' where "BaseLevels c v key (deeper cp) (cp_level_ptrs cp) = (at_base c v (deeper cp) key, ptrs')" "ptrs_behind c v key ptrs'"
    using BaseLevels_exact [OF assms(1) v(3)] by blast
  with v show ?thesis by (simp add: IsBaseLevelForKey_def searching_def deeper_def)
qed

lemma base_answers_exact:
  assumes "\<forall>level \<in> {cp_level cp + 2..<kNumLevels}. level_sorted (v_files v level)" "cp_input_version cp = Some v"
    "sorted_wrt (\<lambda>a b. Compare c a b \<le> 0) keys" "\<forall>key \<in> set keys. ptrs_behind c v key (cp_level_ptrs cp)"
  shows "base_answers c cp keys = map (at_base c v (deeper cp)) keys"
  using assms
proof (induction keys arbitrary: cp)
  case (Cons key keys)
  have s: "\<forall>level \<in> set (deeper cp). level_sorted (v_files v level)" using Cons.prems(1) by (auto simp: deeper_def)
  have b: "searching c v (cp_level cp) key cp" using Cons.prems by (simp add: searching_def)
  obtain cp' where cp': "IsBaseLevelForKey c cp key = (at_base c v (deeper cp) key, cp')" "searching c v (cp_level cp) key cp'"
    using IsBaseLevelForKey_exact [OF s b] by blast
  have "base_answers c cp' keys = map (at_base c v (deeper cp')) keys"
    by (rule Cons.IH) (use Cons.prems cp'(2) ptrs_behind_later [of v key] in \<open>auto simp: searching_def\<close>)
  moreover have "deeper cp' = deeper cp" using cp'(2) by (simp add: deeper_def searching_def)
  ultimately show ?case using cp'(1) by simp
qed simp

end

section \<open>The entries that are kept\<close>

text \<open>The rounds of the loop as far as they decide about entries: what goes to the output.\<close>

fun kept_entries :: "comparator \<Rightarrow> Options \<Rightarrow> SequenceNumber \<Rightarrow> key_state \<Rightarrow> Compaction \<Rightarrow> entries \<Rightarrow> entries" where
  "kept_entries c options smallest ks cp [] = []"
| "kept_entries c options smallest ks cp (e # es) =
     (let (stop, cp) = ShouldStopBefore c options cp (fst e); (drop, ks, cp) = DropEntry c smallest (fst e) (ks, cp)
      in (if drop then [] else [e]) @ kept_entries c options smallest ks cp es)"

definition in_order :: "comparator \<Rightarrow> entries \<Rightarrow> bool" where
  "in_order c es \<longleftrightarrow> well_keyed es \<and> sorted_wrt (\<lambda>a b. InternalKey_Compare c (fst a) (fst b) \<le> 0) es"

lemma kept_Cons:
  "kept_entries c options smallest ks cp (e # es) =
     (let d = DropEntry c smallest (fst e) (ks, snd (ShouldStopBefore c options cp (fst e)))
      in (if fst d then [] else [e]) @ kept_entries c options smallest (fst (snd d)) (snd (snd d)) es)"
  by (simp add: case_prod_beta Let_def)

lemma searching_stop: "searching c v level key (snd (ShouldStopBefore c options cp k)) = searching c v level key cp"
  by (simp add: ShouldStopBefore_def searching_def Let_def split: prod.split)

lemma deeper_stop: "deeper (snd (ShouldStopBefore c options cp k)) = deeper cp"
  by (simp add: ShouldStopBefore_def deeper_def Let_def split: prod.split)

lemma kept_subset: "set (kept_entries c options smallest ks cp es) \<subseteq> set es"
  by (induction es arbitrary: ks cp) (auto simp: Let_def split: prod.splits if_splits)

definition same_key :: "comparator \<Rightarrow> key_state \<Rightarrow> bytes \<Rightarrow> bool" where
  "same_key c ks key \<longleftrightarrow> (\<exists>k. fst ks = Some k \<and> Compare c key k = 0)"

context user_comparator
begin

lemma in_order_Cons:
  assumes "in_order c (e # es)"
  shows "ParseInternalKey (fst e) \<noteq> None" "in_order c es" "\<forall>e' \<in> set es. Compare c (key_of e) (key_of e') \<le> 0"
    "\<forall>e' \<in> set es. Compare c (key_of e) (key_of e') = 0 \<longrightarrow> seq_of e' \<le> seq_of e"
proof -
  show p: "ParseInternalKey (fst e) \<noteq> None" "in_order c es" using assms by (auto simp: in_order_def well_keyed_def)
  have le: "InternalKey_Compare c (fst e) (fst e') \<le> 0" "ParseInternalKey (fst e') \<noteq> None" if "e' \<in> set es" for e'
    using assms that by (auto simp: in_order_def well_keyed_def)
  show "\<forall>e' \<in> set es. Compare c (key_of e) (key_of e') \<le> 0"
    using le by (fastforce simp: InternalKey_Compare_le)
  show "\<forall>e' \<in> set es. Compare c (key_of e) (key_of e') = 0 \<longrightarrow> seq_of e' \<le> seq_of e"
  proof (intro ballI impI)
    fix e' assume e': "e' \<in> set es" "Compare c (key_of e) (key_of e') = 0"
    then have "\<not> tag_of (fst e) < tag_of (fst e')"
      using le(1) [OF e'(1)] by (auto simp: InternalKey_Compare_le)
    then show "seq_of e' \<le> seq_of e"
      using parsed_entry(2,3) [OF p(1)] parsed_entry(2,3) [OF le(2) [OF e'(1)]] by (auto simp: tag_less_iff)
  qed
qed

text \<open>When an entry is dropped, and the state after it.\<close>

lemma DropEntry_cases:
  assumes "ParseInternalKey (fst e) \<noteq> None" "smallest < kMaxSequenceNumber"
    and "\<forall>level \<in> set (deeper cp). level_sorted (v_files v level)" "searching c v level (key_of e) cp"
  obtains ks' cp' where
    "DropEntry c smallest (fst e) (ks, cp) =
       (same_key c ks (key_of e) \<and> snd ks \<le> smallest
        \<or> type_of e = kTypeDeletion \<and> seq_of e \<le> smallest \<and> at_base c v (deeper cp) (key_of e), ks', cp')"
    "same_key c ks' (key_of e)" "snd ks' = seq_of e" "searching c v level (key_of e) cp'" "deeper cp' = deeper cp"
    "\<exists>k. fst ks' = Some k \<and> Compare c k (key_of e) = 0"
proof -
  obtain cur last where ks: "ks = (cur, last)" by (cases ks)
  obtain cp' where B: "IsBaseLevelForKey c cp (key_of e) = (at_base c v (deeper cp) (key_of e), cp')" "searching c v level (key_of e) cp'"
    using IsBaseLevelForKey_exact [OF assms(3,4)] by blast
  have d: "deeper cp' = deeper cp" using B(2) assms(4) by (simp add: searching_def deeper_def)
  let ?old = "same_key c ks (key_of e)"
  define k' where "k' = (if ?old then cur else Some (key_of e))"
  define cp'' where "cp'' = (if \<not> (?old \<and> last \<le> smallest) \<and> type_of e = kTypeDeletion \<and> seq_of e \<le> smallest then cp' else cp)"
  have "DropEntry c smallest (fst e) (ks, cp) =
       (same_key c ks (key_of e) \<and> snd ks \<le> smallest
        \<or> type_of e = kTypeDeletion \<and> seq_of e \<le> smallest \<and> at_base c v (deeper cp) (key_of e), (k', seq_of e), cp'')"
  proof (cases ?old)
    case True
    then obtain k where "cur = Some k" "Compare c (key_of e) k = 0" by (auto simp: same_key_def ks)
    with True parsed_entry(1) [OF assms(1)] show ?thesis
      by (auto simp: DropEntry_def ks k'_def cp''_def B(1))
  next
    case False
    then have "cur = None \<or> (\<exists>k. cur = Some k \<and> Compare c (key_of e) k \<noteq> 0)" by (auto simp: same_key_def ks)
    with False parsed_entry(1) [OF assms(1)] assms(2) show ?thesis
      by (auto simp: DropEntry_def ks k'_def cp''_def B(1))
  qed
  moreover have k': "same_key c (k', seq_of e) (key_of e)" by (auto simp: same_key_def k'_def ks cmp_refl)
  moreover have "\<exists>k. k' = Some k \<and> Compare c k (key_of e) = 0"
    using k' cmp_eq_sym by (auto simp: same_key_def)
  moreover have "searching c v level (key_of e) cp''" "deeper cp'' = deeper cp" using B(2) assms(4) d by (simp_all add: cp''_def)
  ultimately show thesis using that [of "(k', seq_of e)" cp''] by simp
qed

text \<open>Once an entry of the key that every snapshot sees has been passed, no other entry of the key is kept.\<close>

lemma kept_rest:
  assumes "in_order c es" "smallest < kMaxSequenceNumber"
    and "\<forall>level \<in> set (deeper cp). level_sorted (v_files v level)" "\<forall>e \<in> set es. searching c v level (key_of e) cp"
    and "\<exists>k. fst ks = Some k \<and> Compare c k u = 0" "snd ks \<le> smallest"
    and "\<forall>e \<in> set es. Compare c u (key_of e) \<le> 0 \<and> (Compare c u (key_of e) = 0 \<longrightarrow> seq_of e \<le> smallest)"
  shows "\<forall>e \<in> set (kept_entries c options smallest ks cp es). Compare c (key_of e) u \<noteq> 0"
  using assms
proof (induction es arbitrary: ks cp)
  case (Cons e es)
  note O = in_order_Cons [OF Cons.prems(1)]
  let ?cp = "snd (ShouldStopBefore c options cp (fst e))"
  have s: "searching c v level (key_of e) ?cp" "\<forall>level \<in> set (deeper ?cp). level_sorted (v_files v level)"
    using Cons.prems(3,4) by (simp_all add: searching_stop deeper_stop)
  from DropEntry_cases [OF O(1) Cons.prems(2) s(2,1), of ks] obtain ks' cp' where
    D: "DropEntry c smallest (fst e) (ks, ?cp) =
         (same_key c ks (key_of e) \<and> snd ks \<le> smallest
          \<or> type_of e = kTypeDeletion \<and> seq_of e \<le> smallest \<and> at_base c v (deeper ?cp) (key_of e), ks', cp')"
    and ks': "snd ks' = seq_of e" "searching c v level (key_of e) cp'" "deeper cp' = deeper ?cp"
      "\<exists>k. fst ks' = Some k \<and> Compare c k (key_of e) = 0" by blast
  have E: "kept_entries c options smallest ks cp (e # es)
      = (if fst (DropEntry c smallest (fst e) (ks, ?cp)) then [] else [e]) @ kept_entries c options smallest ks' cp' es"
    by (simp only: kept_Cons D Let_def fst_conv snd_conv)
  have u: "Compare c u (key_of e) \<le> 0" "Compare c u (key_of e) = 0 \<Longrightarrow> seq_of e \<le> smallest" using Cons.prems(7) by auto
  show ?case
  proof (cases "Compare c u (key_of e) = 0")
    case True
    then have eu: "Compare c (key_of e) u = 0" using cmp_eq_sym by blast
    obtain k where k: "fst ks = Some k" "Compare c k u = 0" using Cons.prems(5) by blast
    have "Compare c (key_of e) k = 0" using same_user_key [OF eu k(2)] .
    then have "same_key c ks (key_of e)" using k(1) by (simp add: same_key_def)
    then have drop: "fst (DropEntry c smallest (fst e) (ks, ?cp))" using Cons.prems(6) by (simp add: D)
    have "\<forall>e \<in> set es. searching c v level (key_of e) cp'"
      using ks'(2) O(3) ptrs_behind_later [of v "key_of e"] by (auto simp: searching_def)
    moreover have "\<exists>k. fst ks' = Some k \<and> Compare c k u = 0"
      using ks'(4) True same_user_key cmp_eq_sym by blast
    ultimately have "\<forall>e \<in> set (kept_entries c options smallest ks' cp' es). Compare c (key_of e) u \<noteq> 0"
      using Cons.IH [of cp' ks'] O(2) Cons.prems(2,7) s(2) ks'(1,3) u(2) [OF True] by simp
    with drop show ?thesis unfolding E by simp
  next
    case False
    have "Compare c (key_of e') u \<noteq> 0" if "e' \<in> set (e # es)" for e'
    proof -
      have "Compare c (key_of e) (key_of e') \<le> 0" using that O(3) cmp_refl by auto
      then have "Compare c u (key_of e') < 0" using False u(1) cmp_less_le_trans [of u "key_of e" "key_of e'"] by simp
      then show ?thesis using cmp_eq_sym [of "key_of e'" u] by fastforce
    qed
    then show ?thesis using kept_subset [of c options smallest ks cp "e # es"] by blast
  qed
qed simp

text \<open>The first visible entry of a key is kept, unless it is a deletion and no deeper level has the key.\<close>

lemma kept_first_seen:
  assumes "in_order c es" "smallest < kMaxSequenceNumber" "smallest \<le> snap"
    and "\<forall>level \<in> set (deeper cp). level_sorted (v_files v level)" "\<forall>e \<in> set es. searching c v level (key_of e) cp"
    and "\<not> (\<exists>k. fst ks = Some k \<and> Compare c k u = 0 \<and> snd ks \<le> smallest)"
  shows "let hit = find (sees c u snap) es; hit' = find (sees c u snap) (kept_entries c options smallest ks cp es)
    in hit' = hit \<or> hit' = None \<and> (\<exists>e. hit = Some e \<and> type_of e = kTypeDeletion) \<and> at_base c v (deeper cp) u"
  using assms
proof (induction es arbitrary: ks cp)
  case (Cons e es)
  note O = in_order_Cons [OF Cons.prems(1)]
  let ?cp = "snd (ShouldStopBefore c options cp (fst e))"
  have s: "searching c v level (key_of e) ?cp" "\<forall>level \<in> set (deeper ?cp). level_sorted (v_files v level)"
    using Cons.prems(4,5) by (simp_all add: searching_stop deeper_stop)
  from DropEntry_cases [OF O(1) Cons.prems(2) s(2,1), of ks] obtain ks' cp' where
    D: "DropEntry c smallest (fst e) (ks, ?cp) =
         (same_key c ks (key_of e) \<and> snd ks \<le> smallest
          \<or> type_of e = kTypeDeletion \<and> seq_of e \<le> smallest \<and> at_base c v (deeper ?cp) (key_of e), ks', cp')"
    and ks': "snd ks' = seq_of e" "searching c v level (key_of e) cp'" "deeper cp' = deeper ?cp"
      "\<exists>k. fst ks' = Some k \<and> Compare c k (key_of e) = 0" by blast
  let ?drop = "fst (DropEntry c smallest (fst e) (ks, ?cp))" and ?rest = "kept_entries c options smallest ks' cp' es"
  have E: "kept_entries c options smallest ks cp (e # es) = (if ?drop then [] else [e]) @ ?rest"
    by (simp only: kept_Cons D Let_def fst_conv snd_conv)
  have later: "\<forall>e \<in> set es. searching c v level (key_of e) cp'"
    using ks'(2) O(3) ptrs_behind_later [of v "key_of e"] by (auto simp: searching_def)
  have sorted': "\<forall>level \<in> set (deeper cp'). level_sorted (v_files v level)" using s(2) ks'(3) by simp
  have deep: "deeper cp' = deeper cp" using ks'(3) by (simp add: deeper_stop)
  show ?case
  proof (cases "sees c u snap e")
    case True
    then have eu: "Compare c (key_of e) u = 0" by (simp add: sees_def)
    show ?thesis
    proof (cases ?drop)
      case True
      have "\<not> (same_key c ks (key_of e) \<and> snd ks \<le> smallest)"
      proof
        assume "same_key c ks (key_of e) \<and> snd ks \<le> smallest"
        then obtain k where k: "fst ks = Some k" "Compare c (key_of e) k = 0" "snd ks \<le> smallest" by (auto simp: same_key_def)
        have "Compare c k u = 0" by (rule same_user_key [of k "key_of e" u]) (use k(2) eu cmp_eq_sym in blast)+
        with k Cons.prems(6) show False by blast
      qed
      then have d: "type_of e = kTypeDeletion" "seq_of e \<le> smallest" "at_base c v (deeper cp) (key_of e)"
        using True by (auto simp: D deeper_stop)
      have base: "at_base c v (deeper cp) u"
        using d(3) in_range_cong [of u "key_of e"] eu cmp_eq_sym by (auto simp: at_base_def FileMayContainUserkey_iff)
      have "\<forall>e \<in> set ?rest. Compare c (key_of e) u \<noteq> 0"
      proof (rule kept_rest [OF O(2) Cons.prems(2) sorted' later])
        show "\<exists>k. fst ks' = Some k \<and> Compare c k u = 0" using ks'(4) eu same_user_key cmp_eq_sym by blast
        show "snd ks' \<le> smallest" using ks'(1) d(2) by simp
        show "\<forall>e \<in> set es. Compare c u (key_of e) \<le> 0 \<and> (Compare c u (key_of e) = 0 \<longrightarrow> seq_of e \<le> smallest)"
        proof (intro ballI conjI impI)
          fix e' assume e': "e' \<in> set es"
          have ue: "Compare c u (key_of e) = 0" using eu cmp_eq_sym by blast
          show "Compare c u (key_of e') \<le> 0" using O(3) e' ue cmp_trans [of u "key_of e" "key_of e'"] by simp
          assume "Compare c u (key_of e') = 0"
          then have "Compare c (key_of e) (key_of e') = 0" using same_user_key eu cmp_eq_sym by blast
          then show "seq_of e' \<le> smallest" using O(4) e' d(2) by fastforce
        qed
      qed
      then have "find (sees c u snap) ?rest = None" by (auto simp: find_None_iff sees_def)
      moreover have "kept_entries c options smallest ks cp (e # es) = ?rest" by (simp only: E True if_True append_Nil)
      ultimately show ?thesis using \<open>sees c u snap e\<close> d(1) base by (simp only: Let_def find.simps if_True) blast
    next
      case False
      then have "kept_entries c options smallest ks cp (e # es) = e # ?rest" by (simp only: E if_False append_Cons append_Nil)
      with \<open>sees c u snap e\<close> show ?thesis by (simp only: Let_def find.simps if_True) blast
    qed
  next
    case False
    have "\<not> (\<exists>k. fst ks' = Some k \<and> Compare c k u = 0 \<and> snd ks' \<le> smallest)"
    proof
      assume "\<exists>k. fst ks' = Some k \<and> Compare c k u = 0 \<and> snd ks' \<le> smallest"
      then obtain k where "fst ks' = Some k" "Compare c k u = 0" "seq_of e \<le> smallest" using ks'(1) by auto
      then have "Compare c (key_of e) u = 0" using ks'(4) cmp_eq_sym same_user_key by (metis option.inject)
      with False \<open>seq_of e \<le> smallest\<close> Cons.prems(3) show False by (simp add: sees_def)
    qed
    from Cons.IH [OF O(2) Cons.prems(2,3) sorted' later this, unfolded deep]
    have "let hit = find (sees c u snap) es; hit' = find (sees c u snap) ?rest
      in hit' = hit \<or> hit' = None \<and> (\<exists>e. hit = Some e \<and> type_of e = kTypeDeletion) \<and> at_base c v (deeper cp) u" .
    moreover have "find (sees c u snap) (kept_entries c options smallest ks cp (e # es)) = find (sees c u snap) ?rest"
      using False by (simp only: E find_append) (simp split: option.split)
    moreover have "find (sees c u snap) (e # es) = find (sees c u snap) es" using False by simp
    ultimately show ?thesis by (simp only:)
  qed
qed simp

text \<open>A whole compaction: what a read finds between newer entries and those of the deeper levels.\<close>

lemma kept_reads:
  assumes es: "in_order c es" and smallest: "smallest < kMaxSequenceNumber" "smallest \<le> snap"
    and cp: "cp_input_version cp = Some v" "cp_level_ptrs cp = (\<lambda>_. 0)" "\<forall>level \<in> set (deeper cp). level_sorted (v_files v level)"
    and deep: "\<forall>e \<in> set deep. \<exists>level \<in> set (deeper cp). \<exists>f \<in> set (v_files v level). FileMayContainUserkey c f (key_of e)"
  shows "outcome u (find (sees c u snap) (newer @ kept_entries c options smallest (None, kMaxSequenceNumber) cp es @ deep)) val
    = outcome u (find (sees c u snap) (newer @ es @ deep)) val"
proof -
  let ?kept = "kept_entries c options smallest (None, kMaxSequenceNumber) cp es"
  have "\<forall>e \<in> set es. searching c v (cp_level cp) (key_of e) cp" using cp(1,2) by (simp add: searching_def ptrs_behind_def)
  from kept_first_seen [OF es smallest cp(3) this, of "(None, kMaxSequenceNumber)" u options]
  consider (same) "find (sees c u snap) ?kept = find (sees c u snap) es"
    | (gone) e where "find (sees c u snap) ?kept = None" "find (sees c u snap) es = Some e" "type_of e = kTypeDeletion" "at_base c v (deeper cp) u"
    unfolding Let_def by force
  then show ?thesis
  proof cases
    case same
    then have "find (sees c u snap) (?kept @ deep) = find (sees c u snap) (es @ deep)" by (simp only: find_append)
    then show ?thesis by (simp only: find_append [of _ newer])
  next
    case gone
    have "\<not> sees c u snap e" if e: "e \<in> set deep" for e
    proof
      assume "sees c u snap e"
      then have eu: "Compare c (key_of e) u = 0" by (simp add: sees_def)
      obtain level f where "level \<in> set (deeper cp)" "f \<in> set (v_files v level)" "FileMayContainUserkey c f (key_of e)"
        using deep e by blast
      then show False using gone(4) in_range_cong [OF eu] by (auto simp: at_base_def FileMayContainUserkey_iff)
    qed
    then have "find (sees c u snap) deep = None" by (auto simp: find_None_iff)
    have K: "find (sees c u snap) (?kept @ deep) = None" using gone(1) \<open>find (sees c u snap) deep = None\<close> by (simp only: find_append option.case)
    have E: "find (sees c u snap) (es @ deep) = Some e" using gone(2) by (simp only: find_append option.case)
    show ?thesis
    proof (cases "find (sees c u snap) newer")
      case None
      then have "find (sees c u snap) (newer @ ?kept @ deep) = None" "find (sees c u snap) (newer @ es @ deep) = Some e"
        by (simp_all only: find_append [of _ newer] option.case K E)
      with gone(3) show ?thesis by (simp add: outcome_def)
    qed (simp only: find_append [of _ newer] option.case)
  qed
qed

end

section \<open>The rounds of the loop\<close>

lemma SmallestSnapshot_least:
  assumes "sorted (db_snapshots db)" "\<forall>s \<in> set (db_snapshots db). s \<le> db_last_sequence db"
    and "snap \<in> insert (db_last_sequence db) (set (db_snapshots db))"
  shows "SmallestSnapshot db \<le> snap"
  using assms by (cases "db_snapshots db") (auto simp: SmallestSnapshot_def)

section \<open>What operations leave alone\<close>

text \<open>The fields that flushes, reads, compactions and recovery of files do not change.\<close>

definition calm :: "('h, 'e) DBImpl \<Rightarrow> ('h, 'e) DBImpl \<Rightarrow> bool" where
  "calm db db' \<longleftrightarrow> db_options db' = db_options db \<and> db_last_sequence db' = db_last_sequence db \<and> db_snapshots db' = db_snapshots db
     \<and> db_bg_error db' = db_bg_error db \<and> db_shutting_down db' = db_shutting_down db \<and> db_scheduled db' = db_scheduled db
     \<and> db_running db' = db_running db \<and> db_work db' = db_work db"

lemma calm_refl [intro, simp]: "calm db db"
  by (simp add: calm_def)

lemma calm_trans: "calm db db1 \<Longrightarrow> calm db1 db2 \<Longrightarrow> calm db db2"
  by (simp add: calm_def)

definition keeps_plan :: "('h CompactionState \<times> ('h, 'e) DBImpl) \<Rightarrow> ('h CompactionState \<times> ('h, 'e) DBImpl) \<Rightarrow> bool" where
  "keeps_plan s s' \<longleftrightarrow> cs_compaction (fst s') = cs_compaction (fst s) \<and> cs_smallest_snapshot (fst s') = cs_smallest_snapshot (fst s)
     \<and> calm (snd s) (snd s') \<and> db_table_options (snd s') = db_table_options (snd s)"

lemma keeps_plan_refl: "keeps_plan s s"
  by (simp add: keeps_plan_def)

lemma VerifyOutput_plan:
  assumes "VerifyOutput env n sz db = Some (status, db')"
  shows "calm db db' \<and> db_table_options db' = db_table_options db"
  using assms by (auto simp: VerifyOutput_def release_handles_def calm_def Let_def bind_eq_Some_conv)

lemma db_RemoveFile_calm: "calm db (snd (db_RemoveFile env n db)) \<and> db_mem (snd (db_RemoveFile env n db)) = db_mem db \<and> db_table_options (snd (db_RemoveFile env n db)) = db_table_options db"
  by (simp add: db_RemoveFile_def calm_def split: prod.split)

lemma maybe_verify: "(if b then VerifyOutput env n sz db else Some (status, db)) = Some (status', db') \<Longrightarrow>
  calm db db' \<and> db_table_options db' = db_table_options db"
  by (cases b) (auto dest: VerifyOutput_plan)

lemma Finish_plan:
  assumes "FinishCompactionOutputFile env st cs db = Some (status, cs', db')"
  shows "keeps_plan (cs, db) (cs', db')"
  using assms unfolding FinishCompactionOutputFile_def Let_def keeps_plan_def
  by (elim bind_SomeE) (clarsimp split del: if_split, elim bind_SomeE, clarsimp split del: if_split, elim bind_SomeE, clarsimp split del: if_split, elim bind_SomeE, clarsimp split del: if_split,
   drule maybe_verify, force simp: db_RemoveFile_def calm_def cs_set_output_def split: if_splits prod.splits)

lemma Open_plan:
  assumes "OpenCompactionOutputFile env cs db = (status, cs', db')"
  shows "keeps_plan (cs, db) (cs', db')"
  using assms by (auto simp: OpenCompactionOutputFile_def keeps_plan_def calm_def db_NewFileNumber_def Let_def split: prod.splits sum.splits)

lemma AddOutputEntry_plan:
  assumes "AddOutputEntry env key value cs db = Some (cs', db')"
  shows "keeps_plan (cs, db) (cs', db')"
  using assms by (auto simp: AddOutputEntry_def keeps_plan_def calm_def cs_set_output_def Let_def bind_eq_Some_conv split: if_splits)

text \<open>A round that does not break moves the plan and the key state as \<open>kept_entries\<close> does.\<close>

lemma CompactionStep_decides:
  assumes "CompactionStep env st key value ks cs db = Some (status, ks', cs', db')"
  defines "d \<equiv> DropEntry (db_comparator db) (cs_smallest_snapshot cs) key
      (ks, snd (ShouldStopBefore (db_comparator db) (db_table_options db) (cs_compaction cs) key))"
  shows "(ok status \<longrightarrow> ks' = fst (snd d) \<and> cs_compaction cs' = snd (snd d)) \<and> cs_smallest_snapshot cs' = cs_smallest_snapshot cs
    \<and> calm db db' \<and> db_table_options db' = db_table_options db"
proof -
  obtain stop cp where S: "ShouldStopBefore (db_comparator db) (db_table_options db) (cs_compaction cs) key = (stop, cp)" by fastforce
  let ?cs = "cs\<lparr>cs_compaction := cp\<rparr>"
  obtain status1 cs1 db1 where 1: "(if stop \<and> cs_builder ?cs \<noteq> None then FinishCompactionOutputFile env st ?cs db else Some (OK, ?cs, db)) = Some (status1, cs1, db1)"
    and step: "(if \<not> ok status1 then Some (status1, ks, cs1, db1)
        else let (drop, ks, cp) = DropEntry (db_comparator db) (cs_smallest_snapshot cs1) key (ks, cs_compaction cs1); cs = cs1\<lparr>cs_compaction := cp\<rparr>
          in if drop then Some (OK, ks, cs, db1)
             else let (status, cs, db) = (if cs_builder cs = None then OpenCompactionOutputFile env cs db1 else (OK, cs, db1))
               in if \<not> ok status then Some (status, ks, cs, db)
                  else do {
                    (cs, db) \<leftarrow> AddOutputEntry env key value cs db;
                    builder \<leftarrow> cs_builder cs;
                    (status, cs, db) \<leftarrow> (if TB_FileSize builder \<ge> cp_max_output_file_size (cs_compaction cs)
                                       then FinishCompactionOutputFile env st cs db else Some (OK, cs, db));
                    Some (status, ks, cs, db) }) = Some (status, ks', cs', db')"
    using assms(1) unfolding CompactionStep_def Let_def S prod.case by (elim bind_SomeE) (simp only: split_paired_all prod.case)
  have p1: "keeps_plan (?cs, db) (cs1, db1)"
    using 1 Finish_plan keeps_plan_refl by (auto split: if_splits)
  then have cs1: "cs_compaction cs1 = cp" "cs_smallest_snapshot cs1 = cs_smallest_snapshot cs"
      "calm db db1" "db_options db1 = db_options db" "db_table_options db1 = db_table_options db" by (simp_all add: keeps_plan_def calm_def)
  obtain drop ks2 cp2 where D: "DropEntry (db_comparator db) (cs_smallest_snapshot cs) key (ks, cp) = (drop, ks2, cp2)" by (metis prod_cases3)
  let ?cs1 = "cs1\<lparr>cs_compaction := cp2\<rparr>"
  have d: "d = (drop, ks2, cp2)" by (simp add: d_def S D)
  have "(ok status \<longrightarrow> ks' = ks2 \<and> cs_compaction cs' = cp2) \<and> cs_smallest_snapshot cs' = cs_smallest_snapshot cs1
      \<and> calm db1 db' \<and> db_table_options db' = db_table_options db1"
  proof (cases "\<not> ok status1")
    case True
    with step show ?thesis by auto
  next
    case False
    show ?thesis
    proof (cases drop)
      case True
      with False step show ?thesis by (auto simp: cs1 D)
    next
      case nodrop: False
      obtain status2 cs2 db2 where 2: "(if cs_builder ?cs1 = None then OpenCompactionOutputFile env ?cs1 db1 else (OK, ?cs1, db1)) = (status2, cs2, db2)"
        by (metis prod_cases3)
      have p2: "keeps_plan (?cs1, db1) (cs2, db2)" using 2 Open_plan keeps_plan_refl by (auto split: if_splits)
      show ?thesis
      proof (cases "ok status2")
        case bad: False
        with False nodrop step 2 p2 show ?thesis by (auto simp: cs1 D Let_def keeps_plan_def)
      next
        case True
        with False nodrop step 2 have step2: "do { (cs, db) \<leftarrow> AddOutputEntry env key value cs2 db2;
              builder \<leftarrow> cs_builder cs;
              (status, cs, db) \<leftarrow> (if TB_FileSize builder \<ge> cp_max_output_file_size (cs_compaction cs)
                                 then FinishCompactionOutputFile env st cs db else Some (OK, cs, db));
              Some (status, ks2, cs, db) } = Some (status, ks', cs', db')"
          by (simp add: cs1 D Let_def split del: if_split)
        obtain cs3 db3 where add: "AddOutputEntry env key value cs2 db2 = Some (cs3, db3)"
          using step2 by (cases "AddOutputEntry env key value cs2 db2") auto
        obtain builder where b: "cs_builder cs3 = Some builder" using step2 by (cases "cs_builder cs3") (simp_all add: add)
        have 3: "ks' = ks2" "(if TB_FileSize builder \<ge> cp_max_output_file_size (cs_compaction cs3)
               then FinishCompactionOutputFile env st cs3 db3 else Some (OK, cs3, db3)) = Some (status, cs', db')"
          using step2 by (auto simp: add b bind_eq_Some_conv split del: if_split)
        have "keeps_plan (cs3, db3) (cs', db')" using 3(2) Finish_plan keeps_plan_refl by (auto split: if_splits)
        with 3(1) AddOutputEntry_plan [OF add] p2 show ?thesis by (simp add: keeps_plan_def calm_def)
      qed
    qed
  qed
  with cs1 show ?thesis by (simp add: d keeps_plan_def calm_def)
qed

end
