(* ===== verification/DBWrites.thy ===== *)
theory DBWrites
  imports Compactions
begin

text \<open>
  Writes and background work of the database (db/db_impl.cc): a batch that was written is read back
  at once, whether or not the write flushed the memtable, and background calls are scheduled when
  there is work, at most one at a time, and drain when the database closes.
\<close>

section \<open>Flushes\<close>

lemma db_versions_do_calm: "db_versions_do f db = Some (status, db') \<Longrightarrow> calm db db' \<and> db_mem db' = db_mem db"
  by (auto simp: db_versions_do_def calm_def)

lemma db_NewFileNumber_calm: "db_NewFileNumber db = (n, db') \<Longrightarrow> calm db db' \<and> db_mem db' = db_mem db \<and> db_imm db' = db_imm db"
  by (auto simp: db_NewFileNumber_def calm_def split: prod.splits)

lemma FlushMemTable_calm:
  assumes "FlushMemTable env db = Some (status, db')"
  shows "calm db db' \<and> db_mem db' = db_mem db"
proof (cases "db_imm db")
  case None
  with assms show ?thesis by (simp add: FlushMemTable_def)
next
  case (Some imm)
  obtain n db1 where 1: "db_NewFileNumber db = (n, db1)" by fastforce
  note F = assms [unfolded FlushMemTable_def Some option.case 1 Let_def prod.case]
  obtain status2 meta e where B: "BuildTable (MemTable_ops (db_comparator db1)) env (db_table_options db1) (db_dbname db1) (MemTable_NewIterator imm)
      (FileMetaData_new\<lparr>fm_number := n\<rparr>) (db_env db1) = Some (status2, meta, e)"
    using F by (elim bind_SomeE) auto
  let ?db = "db1\<lparr>db_env := e\<rparr>"
  have c: "calm db ?db" "db_mem ?db = db_mem db" using db_NewFileNumber_calm [OF 1] by (simp_all add: calm_def)
  show ?thesis
  proof (cases "ok status2 \<and> fm_file_size meta > 0")
    case False
    with F B c show ?thesis by (auto simp: calm_def split: if_splits)
  next
    case True
    with F B obtain status3 db3 where 3: "db_versions_do (LogAndApply (db_comparator db1) env
          (VE_AddFile (LogEdit ?db) 0 (fm_number meta) (fm_file_size meta) (fm_smallest meta) (fm_largest meta))) ?db = Some (status3, db3)"
      and r: "(if \<not> ok status3 then Some (status3, snd (db_RemoveFile env (TableFileName (db_dbname db3) (fm_number meta)) db3))
           else Some (OK, db3\<lparr>db_imm := None\<rparr>)) = Some (status, db')"
      by (auto elim!: bind_SomeE split del: if_split)
    from db_versions_do_calm [OF 3] c have c3: "calm db db3" "db_mem db3 = db_mem db" by (auto intro: calm_trans)
    show ?thesis
      using r c3 db_RemoveFile_calm [of db3 env] by (auto simp: calm_def split: if_splits)
  qed
qed

lemma freeze_mem_calm: "calm db (freeze_mem fresh db) \<and> db_mem (freeze_mem fresh db) = MemTable_new fresh"
  by (simp add: freeze_mem_def calm_def)

lemma MakeRoomForWrite_calm:
  assumes "MakeRoomForWrite fresh env db = Some (status, db')"
  shows "calm db db' \<and> (db_mem db' = db_mem db \<or> db_mem db' = MemTable_new fresh)"
proof (cases "db_imm db \<noteq> None")
  case True
  with assms show ?thesis using FlushMemTable_calm by (fastforce simp: MakeRoomForWrite_def)
next
  case imm: False
  show ?thesis
  proof (cases "ApproximateMemoryUsage (db_mem db) \<le> op_write_buffer_size (db_options db)")
    case True
    with imm assms show ?thesis by (simp add: MakeRoomForWrite_def)
  next
    case False
    with imm assms have "FlushMemTable env (freeze_mem fresh db) = Some (status, db')" by (simp add: MakeRoomForWrite_def)
    from FlushMemTable_calm [OF this] freeze_mem_calm [of db fresh] show ?thesis by (auto intro: calm_trans)
  qed
qed

section \<open>A batch is read back\<close>

definition mem_holds :: "comparator \<Rightarrow> ('h, 'e) DBImpl \<Rightarrow> bool" where
  "mem_holds c db \<longleftrightarrow> (\<exists>ids es. mem_inv c (db_mem db) ids es \<and> (\<forall>e \<in> set es. me_seq e \<le> db_last_sequence db))"

lemma mem_holds_new: "db_mem db = MemTable_new fresh \<Longrightarrow> mem_holds c db"
  unfolding mem_holds_def by (rule exI [of _ "[]"], rule exI [of _ "[]"]) (simp add: mem_inv_new)

lemma MaybeScheduleCompaction_fields:
  "db_mem (MaybeScheduleCompaction db) = db_mem db" "db_last_sequence (MaybeScheduleCompaction db) = db_last_sequence db"
  "db_options (MaybeScheduleCompaction db) = db_options db"
  by (simp_all add: MaybeScheduleCompaction_def)

lemma batch_facts:
  assumes "length ops < 2 ^ 31"
  shows "WB_Count (fold apply_op ops WB_Clear) = int (length ops)" "WB_SetSequence seq (fold apply_op ops WB_Clear) = batch_of seq ops"
  using assms by (simp_all add: build_batch batch_of_def sint_count)

section \<open>What a batch leaves of a key\<close>

fun op_key :: "WriteOp \<Rightarrow> bytes" where
  "op_key (PutOp k v) = k"
| "op_key (DeleteOp k) = k"

definition last_op :: "comparator \<Rightarrow> bytes \<Rightarrow> WriteOp list \<Rightarrow> WriteOp option" where
  "last_op c u ops = find (\<lambda>op. Compare c (op_key op) u = 0) (rev ops)"

definition op_entry :: "SequenceNumber \<Rightarrow> WriteOp \<Rightarrow> MemEntry" where
  "op_entry seq op = (case op of
       PutOp k v \<Rightarrow> \<lparr>me_key = k, me_seq = seq, me_type = kTypeValue, me_value = v\<rparr>
     | DeleteOp k \<Rightarrow> \<lparr>me_key = k, me_seq = seq, me_type = kTypeDeletion, me_value = []\<rparr>)"

lemma op_entries_Cons: "op_entries seq (op # ops) = op_entry seq op # op_entries (seq + 1) ops"
  by (cases op) (simp_all add: op_entry_def)

lemma op_entry_fields: "me_seq (op_entry seq op) = seq" "me_key (op_entry seq op) = op_key op"
  by (cases op; simp add: op_entry_def)+

lemma newest_last_op:
  assumes "unat seq + length ops \<le> unat snap + 1" "unat snap < 2 ^ 56"
  shows "case last_op c u ops of None \<Rightarrow> newest c u snap (op_entries seq ops) = None
    | Some op \<Rightarrow> \<exists>s. newest c u snap (op_entries seq ops) = Some (op_entry s op)"
  using assms(1)
proof (induction ops arbitrary: seq)
  case (Cons op ops)
  note u1 = Cons.prems
  have s1: "unat (seq + 1) = unat seq + 1" using u1 assms(2) by (simp add: unat_word_ariths)
  have IH: "case last_op c u ops of None \<Rightarrow> newest c u snap (op_entries (seq + 1) ops) = None
    | Some op \<Rightarrow> \<exists>s. newest c u snap (op_entries (seq + 1) ops) = Some (op_entry s op)"
    by (rule Cons.IH) (use u1 s1 in simp)
  have v: "visible c u snap (op_entry seq op) \<longleftrightarrow> Compare c (op_key op) u = 0"
    using u1 by (simp add: visible_def op_entry_fields word_le_nat_alt)
  have l: "last_op c u (op # ops) = (case last_op c u ops of None \<Rightarrow> if Compare c (op_key op) u = 0 then Some op else None | Some x \<Rightarrow> Some x)"
    by (simp add: last_op_def find_append split: option.split)
  show ?case
  proof (cases "last_op c u ops")
    case None
    with IH show ?thesis by (auto simp: l v op_entries_Cons)
  next
    case (Some x)
    with IH obtain s where n: "newest c u snap (op_entries (seq + 1) ops) = Some (op_entry s x)" by auto
    have "op_entry s x \<in> set (op_entries (seq + 1) ops)" using newest_SomeD [OF n] by blast
    then have "unat (seq + 1) \<le> unat s \<and> unat s < unat (seq + 1) + length ops"
      using op_entries_seq [of "op_entry s x" "seq + 1" ops] u1 s1 assms(2) by (simp add: op_entry_fields)
    then have "seq < s" "s \<le> kMaxSequenceNumber" "seq \<le> kMaxSequenceNumber"
      using s1 u1 assms(2) by (simp_all add: word_less_nat_alt kMaxSequenceNumber_unat)
    then have "\<not> tag_of (me_ikey (op_entry s x)) < tag_of (me_ikey (op_entry seq op))"
      by (auto simp: me_ikey_def op_entry_fields tag_less_iff)
    with n Some show ?thesis by (auto simp: l op_entries_Cons)
  qed
qed (simp add: last_op_def)

section \<open>A write on a device with room\<close>

lemma LogAdd_succeeds:
  assumes "reliable_file (ev_file env) contents"
  shows "\<exists>w' e'. LogAdd env data w e = Some (OK, w', e')"
  using reliable_file.AddRecord_exact [OF assms, of data "\<lparr>block_offset = block_offset w, dest = (dest w, e)\<rparr>"]
  by (auto simp: LogAdd_def)

context user_comparator
begin

lemma insert_batch:
  assumes old: "mem_inv c m ids0 es0" "\<forall>e \<in> set es0. me_seq e \<le> last_seq"
    and ops: "\<forall>x \<in> set ops. op_bounded x" "ops \<noteq> []" "length ops < 2 ^ 31" "unat last_seq + length ops < 2 ^ 56"
  shows "\<exists>m' ids' es'. WB_InsertInto fresh c (batch_of (last_seq + 1) ops) m = Some (OK, m')
    \<and> mem_inv c m' ids' es' \<and> mset es' = mset es0 + mset (op_entries (last_seq + 1) ops)"
proof -
  have u1: "unat (last_seq + 1) = unat last_seq + 1" using ops(4) by (simp add: unat_word_ariths)
  then have bound: "unat (last_seq + 1) + length ops \<le> 2 ^ 56" using ops(4) by simp
  have later: "InternalKey_Compare c (me_ikey e) (me_ikey e') \<noteq> 0" if "e \<in> set es0" "e' \<in> set (op_entries (last_seq + 1) ops)" for e e'
  proof (rule InternalKey_Compare_seq_neq)
    have s: "unat (me_seq e) \<le> unat last_seq" using old(2) that(1) by (simp add: word_le_nat_alt)
    have s': "unat last_seq < unat (me_seq e')" "unat (me_seq e') < 2 ^ 56" using op_entries_seq [OF that(2) bound] bound u1 by linarith+
    show "me_seq e \<le> kMaxSequenceNumber" using s ops(4) by (simp add: kMaxSequenceNumber_unat)
    show "me_seq e' \<le> kMaxSequenceNumber" using s' by (simp add: kMaxSequenceNumber_unat)
    show "me_seq e \<noteq> me_seq e'" using s s' by auto
  qed
  obtain m' ids' es' where A: "MemTable_AddAll fresh c (op_entries (last_seq + 1) ops) m = Some m'" "mem_inv c m' ids' es'"
      "mset es' = mset es0 + mset (op_entries (last_seq + 1) ops)"
    using MemTable_AddAll_spec [OF old(1) op_entries_sized [OF ops(1) bound] op_entries_distinct [OF bound], of fresh] later by blast
  moreover have "WB_InsertInto fresh c (batch_of (last_seq + 1) ops) m = Some (OK, m')"
    using WB_InsertInto_batch [of ops fresh c "last_seq + 1" m] op_bounded_sized ops(1,3) A(1) by simp
  ultimately show ?thesis by blast
qed

lemma DB_Write_effect:
  assumes holds: "mem_holds c db" and c: "db_comparator db = c"
    and ops: "\<forall>x \<in> set ops. op_bounded x" "ops \<noteq> []" "length ops < 2 ^ 31" "unat (db_last_sequence db) + length ops < 2 ^ 56"
    and W: "DB_Write fresh env sync (Some (fold apply_op ops WB_Clear)) db = Some (status, b, db')" "ok status"
  shows "\<exists>ids es old. mem_inv c (db_mem db') ids es \<and> mset es = mset (old @ op_entries (db_last_sequence db + 1) ops)
    \<and> (\<forall>e \<in> set old. me_seq e \<le> db_last_sequence db)
    \<and> db_last_sequence db' = db_last_sequence db + of_nat (length ops) \<and> db_comparator db' = c"
proof -
  let ?last = "db_last_sequence db" and ?batch = "fold apply_op ops WB_Clear"
  have n: "WB_Count ?batch = int (length ops)" "int (length ops) \<noteq> 0" using batch_facts(1) [OF ops(3)] ops(2) by simp_all
  note W' = W(1) [unfolded DB_Write_def option.case n(1) Let_def if_not_P [OF n(2)]]
  obtain status1 db1 where 1: "MakeRoomForWrite fresh env db = Some (status1, db1)" using W' by (elim bind_SomeE) auto
  have ok1: "ok status1" using W' W(2) by (auto simp: 1 split: if_splits)
  from MakeRoomForWrite_calm [OF 1] have c1: "calm db db1" and m1: "db_mem db1 = db_mem db \<or> db_mem db1 = MemTable_new fresh" by simp_all
  have l1: "db_last_sequence db1 = ?last" "db_comparator db1 = c" using c1 c by (simp_all add: calm_def)
  note R = 1 ok1 l1 batch_facts(2) [OF ops(3)]
  obtain writer where 2: "db_log db1 = Some writer" using W' by (cases "db_log db1") (simp_all add: R)
  obtain status3 writer3 e3 where 3: "LogAdd env (WB_Contents (batch_of (?last + 1) ops)) writer (db_env db1) = Some (status3, writer3, e3)"
    using W' by (cases "LogAdd env (WB_Contents (batch_of (?last + 1) ops)) writer (db_env db1)") (auto simp: R 2)
  have ok3: "ok status3" using W' W(2) by (cases "ok status3") (auto simp: R 2 3)
  obtain status4 writer4 e4 where 4: "(if sync then LogSync env writer3 e3 else Some (OK, writer3, e3)) = Some (status4, writer4, e4)"
    using W' by (cases "if sync then LogSync env writer3 e3 else Some (OK, writer3, e3)") (auto simp: R 2 3 ok3 cong: if_cong split del: if_split)
  have ok4: "ok status4" using W' W(2) by (cases "ok status4") (auto simp: R 2 3 4 ok3 cong: if_cong split del: if_split)
  obtain ids0 es0 where old: "mem_inv c (db_mem db1) ids0 es0" "\<forall>e \<in> set es0. me_seq e \<le> ?last"
    using m1 holds mem_holds_new [of db1 fresh c] l1(1) by (auto simp: mem_holds_def)
  from insert_batch [OF old ops] obtain m' ids' es' where I: "WB_InsertInto fresh c (batch_of (?last + 1) ops) (db_mem db1) = Some (OK, m')"
    and A: "mem_inv c m' ids' es'" "mset es' = mset es0 + mset (op_entries (?last + 1) ops)" by blast
  have "db' = MaybeScheduleCompaction (db1\<lparr>db_log := Some writer4, db_env := e4, db_mem := m', db_last_sequence := ?last + of_int (int (length ops))\<rparr>)"
    using W' by (simp add: R 2 3 4 ok3 ok4 I cong: if_cong split del: if_split)
  then have "db_mem db' = m'" "db_last_sequence db' = ?last + of_nat (length ops)" "db_comparator db' = c"
    using l1 by (simp_all add: MaybeScheduleCompaction_fields)
  with A old(2) show ?thesis
    by (intro exI [of _ ids'] exI [of _ es'] exI [of _ es0]) simp
qed

lemma newest_append:
  assumes "newest c u snap es = Some e" "\<forall>a \<in> set old. tag_of (me_ikey a) < tag_of (me_ikey e)"
  shows "newest c u snap (old @ es) = Some e"
  using assms(2) by (induction old) (use assms(1) in auto)

lemma DB_Get_newest:
  assumes "mem_inv c (db_mem db) ids es" "mset es = mset xs" "db_comparator db = c" "length u + 8 < 2 ^ 32"
    and "GetSnapshotSequence snapshot db \<le> kMaxSequenceNumber" "newest c u (GetSnapshotSequence snapshot db) xs = Some e"
  shows "DB_Get env options snapshot u (Some val) db =
    Some (case me_type e of kTypeValue \<Rightarrow> (OK, Some (me_value e), db) | kTypeDeletion \<Rightarrow> (NotFound u [], Some [], db))"
  using MemTable_Get_newest [OF assms(1,4,5,2), of val] newest_SomeD [OF assms(6)]
  by (simp add: visible_def DB_Get_def assms(3,6) get_result_def Let_def split: ValueType.split)

lemma DB_Write_mem_holds:
  assumes holds: "mem_holds c db" and c: "db_comparator db = c"
    and ops: "\<forall>x \<in> set ops. op_bounded x" "ops \<noteq> []" "length ops < 2 ^ 31" "unat (db_last_sequence db) + length ops < 2 ^ 56"
    and W: "DB_Write fresh env sync (Some (fold apply_op ops WB_Clear)) db = Some (status, b, db')" "ok status"
  shows "mem_holds c db'"
proof -
  let ?last = "db_last_sequence db" and ?new = "op_entries (db_last_sequence db + 1) ops"
  from DB_Write_effect [OF holds c ops W] obtain ids es old where
    m: "mem_inv c (db_mem db') ids es" "mset es = mset (old @ ?new)" "\<forall>e \<in> set old. me_seq e \<le> ?last"
    and last': "db_last_sequence db' = ?last + of_nat (length ops)" "db_comparator db' = c" by blast
  have u1: "unat (?last + 1) = unat ?last + 1" using ops(4) by (simp add: unat_word_ariths)
  have l': "unat (db_last_sequence db') = unat ?last + length ops"
    using ops(4) by (simp add: last' unat_word_ariths unat_of_nat)
  have new: "unat ?last < unat (me_seq x) \<and> unat (me_seq x) \<le> unat (db_last_sequence db')" if x: "x \<in> set ?new" for x
    using op_entries_seq [OF x] u1 l' ops(4) by fastforce
  have set: "set es = set old \<union> set ?new" using m(2) by (metis set_mset_mset set_append)
  have "me_seq x \<le> db_last_sequence db'" if x: "x \<in> set es" for x
  proof (cases "x \<in> set ?new")
    case True
    with new show ?thesis by (simp add: word_le_nat_alt)
  next
    case False
    with x set m(3) have "unat (me_seq x) \<le> unat ?last" by (auto simp: word_le_nat_alt)
    then show ?thesis by (simp add: word_le_nat_alt l')
  qed
  then show ?thesis using m(1) by (auto simp: mem_holds_def)
qed

lemma write_then_read:
  assumes holds: "mem_holds c db" and c: "db_comparator db = c"
    and ops: "\<forall>x \<in> set ops. op_bounded x" "ops \<noteq> []" "length ops < 2 ^ 31" "unat (db_last_sequence db) + length ops < 2 ^ 56"
    and W: "DB_Write fresh env sync (Some (fold apply_op ops WB_Clear)) db = Some (status, b, db')" "ok status"
    and u: "length u + 8 < 2 ^ 32" and e: "newest c u (db_last_sequence db') (op_entries (db_last_sequence db + 1) ops) = Some e"
  shows "mem_holds c db' \<and> DB_Get env' options None u (Some val) db' =
    Some (case me_type e of kTypeValue \<Rightarrow> (OK, Some (me_value e), db') | kTypeDeletion \<Rightarrow> (NotFound u [], Some [], db'))"
proof -
  let ?last = "db_last_sequence db" and ?new = "op_entries (db_last_sequence db + 1) ops"
  from DB_Write_effect [OF holds c ops W] obtain ids es old where
    m: "mem_inv c (db_mem db') ids es" "mset es = mset (old @ ?new)" "\<forall>e \<in> set old. me_seq e \<le> ?last"
    and last': "db_last_sequence db' = ?last + of_nat (length ops)" "db_comparator db' = c" by blast
  have u1: "unat (?last + 1) = unat ?last + 1" using ops(4) by (simp add: unat_word_ariths)
  have l': "unat (db_last_sequence db') = unat ?last + length ops"
    using ops(4) by (simp add: last' unat_word_ariths unat_of_nat)
  have new: "unat ?last < unat (me_seq x) \<and> unat (me_seq x) \<le> unat (db_last_sequence db')" if x: "x \<in> set ?new" for x
    using op_entries_seq [OF x] u1 l' ops(4) by fastforce
  note H = DB_Write_mem_holds [OF holds c ops W]
  have e': "e \<in> set ?new" using newest_SomeD [OF e] by blast
  have "tag_of (me_ikey a) < tag_of (me_ikey e)" if a: "a \<in> set old" for a
  proof -
    have s: "unat (me_seq a) \<le> unat ?last" using m(3) a by (simp add: word_le_nat_alt)
    have "me_seq a < me_seq e" using s new [OF e'] by (simp add: word_less_nat_alt)
    moreover have "me_seq a \<le> kMaxSequenceNumber" "me_seq e \<le> kMaxSequenceNumber"
      using s new [OF e'] l' ops(4) by (simp_all add: kMaxSequenceNumber_unat)
    ultimately show ?thesis by (simp add: me_ikey_def tag_less_iff)
  qed
  then have N: "newest c u (db_last_sequence db') (old @ ?new) = Some e" using newest_append [OF e] by blast
  have s: "GetSnapshotSequence None db' = db_last_sequence db'" by (simp add: GetSnapshotSequence_def)
  have "db_last_sequence db' \<le> kMaxSequenceNumber" using l' ops(4) by (simp add: kMaxSequenceNumber_unat)
  from DB_Get_newest [OF m(1,2) last'(2) u, of None e env' options val, unfolded s, OF this N] H show ?thesis by blast
qed

lemma written_batch_read:
  assumes holds: "mem_holds c db" and c: "db_comparator db = c"
    and ops: "\<forall>x \<in> set ops. op_bounded x" "length ops < 2 ^ 31" "unat (db_last_sequence db) + length ops < 2 ^ 56"
    and W: "DB_Write fresh env sync (Some (fold apply_op ops WB_Clear)) db = Some (status, b, db')" "ok status"
    and u: "length u + 8 < 2 ^ 32" and op: "last_op c u ops = Some op"
  shows "mem_holds c db' \<and> db_comparator db' = c \<and> DB_Get env' options None u (Some val) db' =
    Some (case op of PutOp k v \<Rightarrow> (OK, Some v, db') | DeleteOp k \<Rightarrow> (NotFound u [], Some [], db'))"
proof -
  let ?last = "db_last_sequence db"
  have ne: "ops \<noteq> []" using op by (auto simp: last_op_def)
  have last': "db_last_sequence db' = ?last + of_nat (length ops)" and c': "db_comparator db' = c"
    using DB_Write_effect [OF holds c ops(1) ne ops(2,3) W] by blast+
  have "unat (?last + 1) + length ops \<le> unat (db_last_sequence db') + 1" "unat (db_last_sequence db') < 2 ^ 56"
    using ops(3) by (simp_all add: last' unat_word_ariths unat_of_nat)
  from newest_last_op [OF this, of c u] op obtain s where
    n: "newest c u (db_last_sequence db') (op_entries (?last + 1) ops) = Some (op_entry s op)" by auto
  from write_then_read [OF holds c ops(1) ne ops(2,3) W u n, of env' options val] c' show ?thesis
    by (cases op) (simp_all add: op_entry_def)
qed

lemma DB_Write_succeeds:
  assumes f: "reliable_file (ev_file env) contents" "sync \<Longrightarrow> \<forall>f. \<exists>f'. wf_Sync (ev_file env) f = Some (OK, f')" and holds: "mem_holds c db" and c: "db_comparator db = c"
    and room: "db_imm db = None" "ApproximateMemoryUsage (db_mem db) \<le> op_write_buffer_size (db_options db)" "db_log db = Some writer"
    and ops: "\<forall>x \<in> set ops. op_bounded x" "ops \<noteq> []" "length ops < 2 ^ 31" "unat (db_last_sequence db) + length ops < 2 ^ 56"
  shows "\<exists>b m l e. DB_Write fresh env sync (Some (fold apply_op ops WB_Clear)) db = Some (OK, b,
    MaybeScheduleCompaction (db\<lparr>db_log := l, db_env := e, db_mem := m, db_last_sequence := db_last_sequence db + of_nat (length ops)\<rparr>))"
proof -
  let ?last = "db_last_sequence db"
  have n: "WB_Count (fold apply_op ops WB_Clear) = int (length ops)" "int (length ops) \<noteq> 0" using batch_facts(1) [OF ops(3)] ops(2) by simp_all
  obtain w' e' where 3: "LogAdd env (WB_Contents (batch_of (?last + 1) ops)) writer (db_env db) = Some (OK, w', e')"
    using LogAdd_succeeds [OF f(1)] by blast
  have "\<exists>w e. (if sync then LogSync env w' e' else Some (OK, w', e')) = Some (OK, w, e)"
  proof (cases sync)
    case True
    with f(2) obtain h e where "wf_Sync (ev_file env) (dest w', e') = Some (OK, (h, e))" by (metis surj_pair)
    with True show ?thesis by (simp add: LogSync_def)
  qed simp
  then obtain w2 e2 where 4: "(if sync then LogSync env w' e' else Some (OK, w', e')) = Some (OK, w2, e2)" by blast
  obtain ids0 es0 where old: "mem_inv c (db_mem db) ids0 es0" "\<forall>e \<in> set es0. me_seq e \<le> ?last"
    using holds by (auto simp: mem_holds_def)
  from insert_batch [OF old ops] obtain m' ids' es' where
    "WB_InsertInto fresh c (batch_of (?last + 1) ops) (db_mem db) = Some (OK, m')" by blast
  with n 3 4 room show ?thesis
    by (simp add: DB_Write_def MakeRoomForWrite_def c batch_facts(2) [OF ops(3)] cong: if_cong split del: if_split) blast
qed

end

text \<open>
  The file system in memory, on a device that is never full. A handle holds what was written through it; as with
  POSIX, writing to a file that was removed succeeds and brings nothing back.
\<close>

definition put_file :: "bytes \<times> bytes \<Rightarrow> mem_fs \<Rightarrow> mem_fs" where
  "put_file h e = (if map_of (mf_files e) (fst h) = None then e else e\<lparr>mf_files := AList.update (fst h) (snd h) (mf_files e)\<rparr>)"

definition ample_env :: "(bytes \<times> bytes, bytes, mem_fs) env_ops" where
  "ample_env = \<lparr>
     ev_NewSequentialFile = ev_NewSequentialFile mem_env, ev_NewRandomAccessFile = ev_NewRandomAccessFile mem_env,
     ev_NewWritableFile = (\<lambda>n e. (Inr (n, []), e\<lparr>mf_files := AList.update n [] (mf_files e)\<rparr>)),
     ev_FileExists = ev_FileExists mem_env, ev_GetChildren = ev_GetChildren mem_env, ev_RemoveFile = ev_RemoveFile mem_env,
     ev_CreateDir = ev_CreateDir mem_env, ev_RenameFile = ev_RenameFile mem_env,
     ev_file = \<lparr>wf_Append = (\<lambda>data (h, e). Some (OK, ((fst h, snd h @ data), put_file (fst h, snd h @ data) e))),
       wf_Flush = (\<lambda>he. Some (OK, he)), wf_Sync = (\<lambda>(h, e). Some (OK, (h, put_file h e))), wf_Close = (\<lambda>(h, e). Some (OK, (h, put_file h e)))\<rparr>,
     ev_Delete = (\<lambda>h e. e), ev_read = ev_read mem_env\<rparr>"

interpretation ample: reliable_file "ev_file ample_env" "\<lambda>he. snd (fst he)"
  by unfold_locales (auto simp: ample_env_def)

interpretation ample_fs: file_system ample_env "\<lambda>e. map_of (mf_files e)" fst "\<lambda>h e. snd h" "\<lambda>d. d"
proof (unfold_locales, goal_cases)
  case (9 n e st e')
  then show ?case by (auto simp: ample_env_def mem_env_def delete_conv' ok_def NotFound_def NewStatus_def frame_def split: if_splits)
next
  case (10 n m e st e')
  then show ?case
    by (auto simp: ample_env_def mem_env_def update_conv' delete_conv' ok_def NotFound_def NewStatus_def frame_def split: option.splits)
qed (auto simp: ample_env_def mem_env_def put_file_def update_conv' frame_def)

section \<open>Compactions leave the schedule alone\<close>

lemma RemoveFiles_calm: "RemoveFiles env live manifest names db = (status, db') \<Longrightarrow> calm db db'"
proof (induction names arbitrary: db)
  case (Cons n names)
  have step: "calm db db'" if r: "db_RemoveFile env path db = (status1, db1)"
      and "(if \<not> ok status1 then (status1, db1) else RemoveFiles env live manifest names db1) = (status, db')" for path status1 db1
  proof -
    have "calm db db1" using db_RemoveFile_calm [of db env path] r by simp
    moreover have "db' = db1 \<or> calm db1 db'" using that(2) Cons.IH [of db1] by (auto split: if_splits)
    ultimately show ?thesis using calm_trans by blast
  qed
  show ?case
    using Cons.prems Cons.IH [of db] step
    by (auto simp: Let_def split: if_splits option.splits prod.splits)
qed simp

lemma RemoveObsoleteFiles_calm:
  assumes "RemoveObsoleteFiles env db = Some (status, db')"
  shows "calm db db'"
  using assms unfolding RemoveObsoleteFiles_def Let_def
  by (auto split: prod.splits if_splits option.splits FileType.splits elim!: bind_SomeE dest!: RemoveFiles_calm simp: calm_def)

lemma CompactionStep_calm:
  assumes "CompactionStep env st key value ks cs db = Some (status, ks', cs', db')"
  shows "calm db db' \<and> cs_smallest_snapshot cs' = cs_smallest_snapshot cs"
  using CompactionStep_decides [OF assms] by simp

lemma CompactionLoop_calm:
  assumes "CompactionLoop ops env input ks cs db = Some (status, input', cs', db')"
  shows "calm db db' \<and> cs_smallest_snapshot cs' = cs_smallest_snapshot cs"
proof -
  have "calm db (snd (snd (snd r))) \<and> cs_smallest_snapshot (fst (snd (snd r))) = cs_smallest_snapshot cs"
    if "CompactionLoop ops env input ks cs db = Some r" for r
  proof (induct rule: CompactionLoop.raw_induct
      [where P = "\<lambda>ops env input ks cs db r. calm db (snd (snd (snd r))) \<and> cs_smallest_snapshot (fst (snd (snd r))) = cs_smallest_snapshot cs", OF _ that])
    case (1 rec ops env input ks cs db r)
    show ?case
    proof (cases "it_Valid ops input")
      case False
      with 1(2) show ?thesis by auto
    next
      case True
      with 1(2) obtain status1 ks1 cs1 db1 where
        step: "CompactionStep env (it_status ops input) (it_key ops input) (it_value ops input) ks cs db = Some (status1, ks1, cs1, db1)"
        and rest: "(if \<not> ok status1 then Some (status1, input, cs1, db1) else Option.bind (it_Next ops input) (\<lambda>input. rec ops env input ks1 cs1 db1)) = Some r"
        by (auto elim!: bind_SomeE split del: if_split)
      have c: "calm db db1 \<and> cs_smallest_snapshot cs1 = cs_smallest_snapshot cs" by (rule CompactionStep_calm [OF step])
      show ?thesis
      proof (cases "ok status1")
        case False
        with rest c show ?thesis by auto
      next
        case True
        with rest obtain input1 where "rec ops env input1 ks1 cs1 db1 = Some r" by (auto elim!: bind_SomeE)
        from 1(1) [OF this] c show ?thesis using calm_trans by auto
      qed
    qed
  qed
  from this [OF assms] show ?thesis by simp
qed

lemma release_handles_calm: "calm db (release_handles hs db)"
  by (simp add: release_handles_def calm_def)

lemma calm_versions: "calm db (db\<lparr>db_versions := vs\<rparr>)" "calm db (db\<lparr>db_env := e\<rparr>)" "calm db (db\<lparr>db_table_cache := tc, db_next_id := n\<rparr>)"
  by (simp_all add: calm_def)

lemma InstallCompactionResults_calm:
  "InstallCompactionResults env cs db = Some (status, cs', db') \<Longrightarrow> calm db db'"
  by (auto simp: InstallCompactionResults_def Let_def dest: db_versions_do_calm)

lemma DoCompactionWork_calm:
  assumes "DoCompactionWork env cs db = Some (status, cs', db')"
  shows "calm db db'"
proof -
  define c where "c = db_comparator db"
  define opt where "opt = \<lparr>ro_verify_checksums = op_paranoid_checks (db_table_options db), ro_fill_cache = False\<rparr>"
  define ops where "ops = Merged_ops (InternalKeyComparator c) (child_ops c opt)"
  define cs0 where "cs0 = cs\<lparr>cs_smallest_snapshot := SmallestSnapshot db\<rparr>"
  note W = assms [unfolded DoCompactionWork_def Let_def, folded c_def, folded opt_def, folded ops_def, folded cs0_def]
  from W obtain input0 tc next_id handles input where
    1: "MakeInputIterator (child_ops c opt) (Some (table_child (db_opener env db))) (cs_compaction cs0)
          (db_table_cache db, db_next_id db, []) = Some (input0, tc, next_id, handles)" "it_SeekToFirst ops input0 = Some input"
    by (auto elim!: bind_SomeE split del: if_split)
  let ?db1 = "db\<lparr>db_table_cache := tc, db_next_id := next_id\<rparr>"
  from W obtain status2 input2 cs2 db2 where
    2: "CompactionLoop ops env input (None, kMaxSequenceNumber) cs0 ?db1 = Some (status2, input2, cs2, db2)"
    by (auto simp: 1 elim!: bind_SomeE split del: if_split)
  from W obtain status3 cs3 db3 status4 cs4 db4 status5 cs5 db5 where
    3: "(if ok status2 \<and> cs_builder cs2 \<noteq> None then FinishCompactionOutputFile env (it_status ops input2) cs2 db2
         else Some (status2, cs2, db2)) = Some (status3, cs3, db3)"
    and 4: "(if ok (if ok status3 then it_status ops input2 else status3) then InstallCompactionResults env cs3 db3
         else Some (if ok status3 then it_status ops input2 else status3, cs3, db3)) = Some (status4, cs4, db4)"
    and 5: "(if ok status4 then (case ReleaseInputs (cs_version cs4, cs_compaction cs4) (db_versions db4) of
            ((i, cp), vs) \<Rightarrow> map_option (\<lambda>(status, db). (status, cs4\<lparr>cs_compaction := cp\<rparr>, db)) (RemoveObsoleteFiles env (db4\<lparr>db_versions := vs\<rparr>)))
         else Some (status4, cs4, db4)) = Some (status5, cs5, db5)" "db' = release_handles handles db5"
    by (auto simp: 1 2 elim!: bind_SomeE split del: if_split)
  have A: "calm db db2" using calm_trans [OF calm_versions(3)] CompactionLoop_calm [OF 2] by blast
  have B: "calm db2 db3" using 3 Finish_plan by (fastforce simp: keeps_plan_def split: if_splits)
  have C: "calm db3 db4" using 4 InstallCompactionResults_calm by (fastforce split: if_splits)
  have D: "calm db4 db5"
    using 5(1) RemoveObsoleteFiles_calm calm_trans [OF calm_versions(1)] by (fastforce split: if_splits prod.splits)
  show ?thesis unfolding 5(2)
    by (rule calm_trans [OF calm_trans [OF calm_trans [OF calm_trans [OF A B] C] D] release_handles_calm])
qed

lemma CleanupCompaction_calm:
  assumes "CleanupCompaction env cs db = Some db'"
  shows "calm db db'"
proof -
  have F: "calm d (foldl (\<lambda>db output.
                  let db = db\<lparr>db_pending_outputs := remove1 (out_number output) (db_pending_outputs db)\<rparr>
                  in if out_file_size output = 0 then snd (db_RemoveFile env (TableFileName (db_dbname db) (out_number output)) db) else db) d os)" for d os
  proof (induction os arbitrary: d)
    case (Cons x os)
    let ?d = "d\<lparr>db_pending_outputs := remove1 (out_number x) (db_pending_outputs d)\<rparr>"
    have "calm d (let db = ?d in if out_file_size x = 0 then snd (db_RemoveFile env (TableFileName (db_dbname db) (out_number x)) db) else db)"
      by (simp add: db_RemoveFile_def calm_def Let_def split: prod.split)
    from calm_trans [OF this Cons.IH] show ?case by simp
  qed simp
  from assms obtain e where "db' = foldl (\<lambda>db output.
                  let db = db\<lparr>db_pending_outputs := remove1 (out_number output) (db_pending_outputs db)\<rparr>
                  in if out_file_size output = 0 then snd (db_RemoveFile env (TableFileName (db_dbname db) (out_number output)) db) else db)
                (db\<lparr>db_env := e\<rparr>) (cs_outputs cs)"
    unfolding CleanupCompaction_def by (auto elim!: bind_SomeE)
  then show ?thesis using calm_trans [OF calm_versions(2) F] by simp
qed

lemma run_picked_calm:
  assumes "run_picked env icp db = Some (status, db')"
  shows "calm db db'"
proof -
  obtain i cp where icp: "icp = (i, cp)" by fastforce
  from assms obtain icp1 db1 where R: "RunCompaction env (i, cp) db = Some (status, icp1, db1)" and db': "db' = Compaction_delete icp1 db1"
    by (auto simp: run_picked_def icp)
  have "calm db db1"
  proof (cases "IsTrivialMove (db_table_options db) cp")
    case True
    let ?file = "hd (cp_inputs0 cp)"
    let ?edit = "VE_AddFile (VE_RemoveFile (cp_edit cp) (cp_level cp) (fm_number ?file)) (cp_level cp + 1) (fm_number ?file) (fm_file_size ?file)
      (fm_smallest ?file) (fm_largest ?file)"
    note R' = R [unfolded RunCompaction_def prod.case if_P [OF True] Let_def]
    from R' obtain status2 db2 where 2: "db_versions_do (LogAndApply (db_comparator db) env ?edit) db = Some (status2, db2)"
      by (auto elim!: bind_SomeE split del: if_split)
    have c2: "calm db db2" using db_versions_do_calm [OF 2] by simp
    show ?thesis
    proof (cases "ok status2")
      case False
      with R' 2 c2 show ?thesis by auto
    next
      case True
      with R' 2 obtain vs status3 where "RemoveObsoleteFiles env (db2\<lparr>db_versions := vs\<rparr>) = Some (status3, db1)"
        by (auto split: prod.splits)
      from RemoveObsoleteFiles_calm [OF this] show ?thesis using c2 calm_trans calm_versions(1) by blast
    qed
  next
    case False
    note R' = R [unfolded RunCompaction_def prod.case if_not_P [OF False] Let_def]
    from R' obtain status2 cs2 db2 where 2: "DoCompactionWork env (CompactionState_new (i, cp)) db = Some (status2, cs2, db2)"
      by (auto elim!: bind_SomeE split del: if_split)
    from R' obtain db3 where 3: "CleanupCompaction env cs2 db2 = Some db3"
      by (auto simp: 2 elim!: bind_SomeE split del: if_split)
    have "db1 = db3 \<or> (\<exists>s. RemoveObsoleteFiles env db3 = Some (s, db1))"
      using R' by (auto simp: 2 3 split: if_splits elim!: bind_SomeE)
    then show ?thesis
      using DoCompactionWork_calm [OF 2] CleanupCompaction_calm [OF 3] RemoveObsoleteFiles_calm calm_trans by blast
  qed
  then show ?thesis unfolding db' Compaction_delete_def using calm_versions(1) calm_trans by blast
qed

lemma CompactMemTable_calm:
  assumes "CompactMemTable fresh env db = Some (status, db')"
  shows "calm db db'"
proof -
  consider "FlushMemTable env db = Some (status, db')" | "db' = db" | "FlushMemTable env (freeze_mem fresh db) = Some (status, db')"
    using assms by (auto simp: CompactMemTable_def split: if_splits)
  then show ?thesis
  proof cases
    case 3
    from FlushMemTable_calm [OF this] freeze_mem_calm [of db fresh] show ?thesis using calm_trans by blast
  qed (use FlushMemTable_calm in auto)
qed

lemma BackgroundCompaction_calm:
  assumes "BackgroundCompaction fresh env db = Some (status, db')"
  shows "calm db db'"
proof (cases "db_imm db = None")
  case False
  with assms show ?thesis using CompactMemTable_calm by (auto simp: BackgroundCompaction_def)
next
  case True
  with assms obtain cp vs where "PickCompaction (db_comparator db) (db_versions db) = Some (cp, vs)"
      "case cp of None \<Rightarrow> db' = db\<lparr>db_versions := vs\<rparr> | Some icp \<Rightarrow> run_picked env icp (db\<lparr>db_versions := vs\<rparr>) = Some (status, db')"
    by (auto simp: BackgroundCompaction_def Let_def elim!: bind_SomeE split: option.splits)
  then show ?thesis
    by (cases cp) (auto intro: calm_versions(1) calm_trans [OF calm_versions(1) run_picked_calm])
qed

lemma CompactRangeLoop_calm:
  assumes "CompactRangeLoop env level b e db = Some (status, db')"
  shows "calm db db'"
proof -
  have "calm db (snd r)" if "CompactRangeLoop env level b e db = Some r" for r
  proof (induct rule: CompactRangeLoop.raw_induct [where P = "\<lambda>env level b e db r. calm db (snd r)", OF _ that])
    case (1 rec env level b e db r)
    from 1(2) obtain cp vs where v: "VS_CompactRange (db_comparator db) level b e (db_versions db) = Some (cp, vs)"
      and r: "(case cp of None \<Rightarrow> Some (OK, db\<lparr>db_versions := vs\<rparr>)
            | Some icp \<Rightarrow> Option.bind (run_picked env icp (db\<lparr>db_versions := vs\<rparr>)) (\<lambda>(status, db).
                if ok status then rec env level b e db else Some (status, db))) = Some r"
      by (auto simp: Let_def elim!: bind_SomeE)
    show ?case
    proof (cases cp)
      case None
      with r show ?thesis using calm_versions(1) by auto
    next
      case (Some icp)
      with r obtain status1 db1 where p: "run_picked env icp (db\<lparr>db_versions := vs\<rparr>) = Some (status1, db1)"
        and r1: "(if ok status1 then rec env level b e db1 else Some (status1, db1)) = Some r"
        by (auto elim!: bind_SomeE split del: if_split)
      have c: "calm db db1" by (rule calm_trans [OF calm_versions(1) run_picked_calm [OF p]])
      show ?thesis
      proof (cases "ok status1")
        case True
        with r1 have "rec env level b e db1 = Some r" by simp
        from calm_trans [OF c 1(1) [OF this]] show ?thesis .
      next
        case False
        with r1 c show ?thesis by auto
      qed
    qed
  qed
  from this [OF assms] show ?thesis by simp
qed

section \<open>The schedule\<close>

definition sched :: "('h, 'e) DBImpl \<Rightarrow> bool \<times> bool \<times> work background" where
  "sched db = (db_running db, db_scheduled db, db_work db)"

lemma sched_simps [simp]: "sched (db\<lparr>db_log := l\<rparr>) = sched db" "sched (db\<lparr>db_env := e\<rparr>) = sched db" "sched (db\<lparr>db_mem := m\<rparr>) = sched db"
  "sched (db\<lparr>db_last_sequence := s\<rparr>) = sched db" "sched (db\<lparr>db_snapshots := ss\<rparr>) = sched db" "sched (db\<lparr>db_imm := imm\<rparr>) = sched db"
  "sched (db\<lparr>db_bg_error := err\<rparr>) = sched db" "sched (db\<lparr>db_versions := vs\<rparr>) = sched db" "sched (db\<lparr>db_logfile_number := n\<rparr>) = sched db"
  "sched (db\<lparr>db_table_cache := tc\<rparr>) = sched db" "sched (db\<lparr>db_next_id := n\<rparr>) = sched db" "sched (db\<lparr>db_shutting_down := b\<rparr>) = sched db"
  by (simp_all add: sched_def)

lemma calm_sched: "calm db db' \<Longrightarrow> sched db' = sched db"
  by (simp add: calm_def sched_def)

lemma sched_calls:
  "FlushMemTable env db = Some (status, db') \<Longrightarrow> sched db' = sched db"
  "MakeRoomForWrite fresh env db = Some (status, db') \<Longrightarrow> sched db' = sched db"
  "db_versions_do f db = Some (status, db') \<Longrightarrow> sched db' = sched db"
  "db_NewFileNumber db = (n, db') \<Longrightarrow> sched db' = sched db"
  "RemoveObsoleteFiles env db = Some (status, db') \<Longrightarrow> sched db' = sched db"
  by (blast intro: calm_sched dest: FlushMemTable_calm MakeRoomForWrite_calm db_versions_do_calm db_NewFileNumber_calm RemoveObsoleteFiles_calm)+

lemma sched_freeze [simp]: "sched (freeze_mem fresh db) = sched db"
  by (simp add: freeze_mem_def)

lemma db_CreateDir_sched: "db_CreateDir env db = (status, db') \<Longrightarrow> sched db' = sched db"
  by (auto simp: db_CreateDir_def split: if_splits prod.splits)

lemma InitWAL_sched: "InitWAL env db = (status, db') \<Longrightarrow> sched db' = sched db"
  by (auto simp: InitWAL_def db_CreateDir_sched split: if_splits prod.splits sum.splits)

lemma RecoverLogLoop_sched:
  assumes "RecoverLogLoop fresh env log_name reader db = Some (status, db')"
  shows "sched db' = sched db"
proof -
  have "sched (snd r) = sched db" if "RecoverLogLoop fresh env log_name reader db = Some r" for r
  proof (induct rule: RecoverLogLoop.raw_induct [where P = "\<lambda>fresh env log_name reader db r. sched (snd r) = sched db", OF _ that])
    case (1 rec fresh env log_name reader db r)
    from 1(2) show ?case
      by (auto simp: Let_def sched_calls(1) elim!: bind_SomeE dest!: 1(1) split: if_splits)
  qed
  from this [OF assms] show ?thesis by simp
qed

lemma RecoverLogs_sched: "RecoverLogs fresh env log_numbers db = Some (status, db') \<Longrightarrow> sched db' = sched db"
proof (induction log_numbers arbitrary: db)
  case (Cons log_number log_numbers)
  from Cons.prems obtain status1 db1 where
    r: "RecoverLogFile fresh env log_number (db\<lparr>db_logfile_number := log_number\<rparr>) = Some (status1, db1)"
      "if ok status1 then RecoverLogs fresh env log_numbers db1 = Some (status, db') else db' = db1"
    by (auto elim!: bind_SomeE split: if_splits)
  have "sched db1 = sched db"
    using r(1) by (auto simp: RecoverLogFile_def Let_def RecoverLogLoop_sched split: sum.splits prod.splits)
  with r(2) Cons.IH show ?case by (auto split: if_splits)
qed simp

lemma NoteFiles_sched: "foldl (NoteFile has_current) (ns, db) names = (ns', db') \<Longrightarrow> sched db' = sched db"
proof (induction names arbitrary: ns db)
  case (Cons name names)
  obtain ns1 db1 where n: "NoteFile has_current (ns, db) name = (ns1, db1)" by fastforce
  have "sched db1 = sched db" using n by (auto simp: NoteFile_def Let_def split: if_splits option.splits prod.splits)
  with Cons n show ?case by simp
qed simp

text \<open>Between operations no call runs, and the queue holds one call exactly when one is scheduled.\<close>

definition sched_ok :: "('h, 'e) DBImpl \<Rightarrow> bool" where
  "sched_ok db \<longleftrightarrow> (case sched db of (running, scheduled, b) \<Rightarrow> \<not> running \<and> bg_queue b = (if scheduled then [BGWork] else [])
     \<and> (scheduled \<longrightarrow> bg_started b))"

lemma sched_ok_cong: "sched db' = sched db \<Longrightarrow> sched_ok db \<Longrightarrow> sched_ok db'"
  by (simp add: sched_ok_def)

lemma Maybe_sched: "sched_ok db \<Longrightarrow> sched_ok (MaybeScheduleCompaction db)"
  by (simp add: MaybeScheduleCompaction_def sched_ok_def sched_def Posix_Schedule_def)

lemma Maybe_schedules: "db_imm (MaybeScheduleCompaction db) \<noteq> None \<or> NeedsCompaction (db_versions (MaybeScheduleCompaction db)) \<Longrightarrow>
    ok (db_bg_error (MaybeScheduleCompaction db)) \<Longrightarrow> \<not> db_shutting_down (MaybeScheduleCompaction db) \<Longrightarrow>
    db_scheduled (MaybeScheduleCompaction db)"
  by (auto simp: MaybeScheduleCompaction_def split: if_splits)

lemma OpenNewLog_sched_ok: "OpenNewLog env b1 b2 db = Some (status, db') \<Longrightarrow> sched_ok db \<Longrightarrow> sched_ok db'"
  by (auto simp: OpenNewLog_def Let_def elim!: bind_SomeE split: if_splits prod.splits intro!: Maybe_sched
        dest!: InitWAL_sched sched_calls(3-5); simp add: sched_ok_def)

lemma DBImpl_Open_sched_ok:
  assumes "DBImpl_Open fresh env db = Some (status, db')" "sched_ok db"
  shows "sched_ok db'"
proof -
  obtain status0 db0 where c: "db_CreateDir env db = (status0, db0)" by fastforce
  note s0 = db_CreateDir_sched [OF c]
  have "sched db' = sched db \<or> (\<exists>b1 b2 db1. sched db1 = sched db \<and> OpenNewLog env b1 b2 db1 = Some (status, db'))"
    using assms(1) s0 unfolding DBImpl_Open_def Let_def c
    by (auto elim!: bind_SomeE split: if_splits prod.splits dest!: sched_calls(1,3) RecoverLogs_sched NoteFiles_sched)
  with OpenNewLog_sched_ok assms(2) sched_ok_cong show ?thesis by metis
qed

text \<open>A write, successful or not, ends in one of its early returns or with the call of \<open>MaybeScheduleCompaction\<close>.\<close>

lemma DB_Write_sched_ok:
  assumes "DB_Write fresh env sync updates db = Some (status, b, db')" "sched_ok db"
  shows "sched_ok db'"
proof (cases updates)
  case None
  with assms show ?thesis by (simp add: DB_Write_def)
next
  case (Some batch)
  with assms show ?thesis unfolding DB_Write_def Let_def
    by (auto elim!: bind_SomeE split: if_splits intro!: Maybe_sched dest!: sched_calls(2); simp add: sched_ok_def)
qed

section \<open>Runs of a database\<close>

text \<open>
  One call of the interface, or one step of the background thread. Every one of them holds the mutex
  from its beginning to its end.
\<close>

inductive db_step :: "fresh \<Rightarrow> ('h, 's, 'e) env_ops \<Rightarrow> ('h, 'e) DBImpl \<Rightarrow> ('h, 'e) DBImpl \<Rightarrow> bool" for fresh env where
  step_open: "DBImpl_Open fresh env db = Some (status, db') \<Longrightarrow> db_step fresh env db db'"
| step_write: "DB_Write fresh env sync updates db = Some (status, batch, db') \<Longrightarrow> db_step fresh env db db'"
| step_get: "DB_Get env options snapshot key value db = Some (status, value', db') \<Longrightarrow> db_step fresh env db db'"
| step_iterator: "DB_NewIterator env options snapshot db = Some (iterator, db') \<Longrightarrow> db_step fresh env db db'"
| step_iterator_deleted: "db_step fresh env db (release_handles handles (UnrefVersion i db))"
| step_snapshot: "GetSnapshot db = (sequence, db') \<Longrightarrow> db_step fresh env db db'"
| step_release: "db_step fresh env db (ReleaseSnapshot snapshot db)"
| step_flush: "CompactMemTable fresh env db = Some (status, db') \<Longrightarrow> db_step fresh env db db'"
| step_compact_range: "TEST_CompactRange env level begin_key end_key db = Some (status, db') \<Longrightarrow> db_step fresh env db db'"
| step_background: "background_step fresh env db = Some db' \<Longrightarrow> db_step fresh env db db'"
| step_shut_down: "db_step fresh env db (db\<lparr>db_shutting_down := True\<rparr>)"

lemma DB_Get_sched: "DB_Get env options snapshot key value db = Some (status, value', db') \<Longrightarrow> sched db' = sched db"
  by (cases "value") (auto simp: DB_Get_def Let_def elim!: bind_SomeE split: if_splits option.splits)

lemma DB_NewIterator_sched: "DB_NewIterator env options snapshot db = Some (iterator, db') \<Longrightarrow> sched db' = sched db"
  by (auto simp: DB_NewIterator_def Let_def elim!: bind_SomeE)

lemma TEST_CompactRange_sched: "TEST_CompactRange env level b e db = Some (status, db') \<Longrightarrow> sched db' = sched db"
  by (auto simp: TEST_CompactRange_def RecordBackgroundError_def dest!: CompactRangeLoop_calm calm_sched split: if_splits)

text \<open>A background call runs when the queue's only call has been taken; it ends with deciding whether another is needed.\<close>

lemma BackgroundCall_ends:
  assumes "BackgroundCall fresh env db = Some db'"
  shows "\<exists>db1. db' = MaybeScheduleCompaction (db1\<lparr>db_running := False, db_scheduled := False\<rparr>)
    \<and> sched db1 = (True, db_scheduled db, db_work db) \<and> db_shutting_down db1 = db_shutting_down db"
proof -
  let ?db = "db\<lparr>db_running := True\<rparr>"
  obtain status1 db1 where r: "(if \<not> db_shutting_down ?db \<and> ok (db_bg_error ?db) then BackgroundCompaction fresh env ?db else Some (OK, ?db)) = Some (status1, db1)"
    and db': "db' = MaybeScheduleCompaction ((RecordBackgroundError status1 db1)\<lparr>db_running := False, db_scheduled := False\<rparr>)"
    using assms unfolding BackgroundCall_def Let_def by (elim bind_SomeE) (auto split del: if_split)
  have c: "calm ?db db1" using r BackgroundCompaction_calm by (auto split: if_splits)
  then have "sched (RecordBackgroundError status1 db1) = (True, db_scheduled db, db_work db)"
    by (simp add: RecordBackgroundError_def calm_def sched_def)
  moreover have "db_shutting_down (RecordBackgroundError status1 db1) = db_shutting_down db"
    using c by (simp add: RecordBackgroundError_def calm_def)
  ultimately show ?thesis using db' by blast
qed

lemma background_step_ends:
  assumes "background_step fresh env db = Some db'" "sched_ok db"
  shows "\<exists>db1. db' = MaybeScheduleCompaction db1 \<and> sched_ok db1 \<and> \<not> db_scheduled db1 \<and> db_shutting_down db1 = db_shutting_down db"
proof -
  obtain b where b: "BackgroundThread_take (db_work db) = Some (BGWork, b)" "BackgroundCall fresh env (db\<lparr>db_work := b\<rparr>) = Some db'"
    using assms(1) by (auto simp: background_step_def split: option.splits work.splits)
  have q: "bg_queue b = []"
    using b(1) assms(2) by (auto simp: BackgroundThread_take_def sched_ok_def sched_def split: list.splits if_splits)
  from BackgroundCall_ends [OF b(2)] obtain db1 where
    "db' = MaybeScheduleCompaction (db1\<lparr>db_running := False, db_scheduled := False\<rparr>)" "db_work db1 = b" "db_shutting_down db1 = db_shutting_down db"
    by (auto simp: sched_def)
  with q show ?thesis by (intro exI [of _ "db1\<lparr>db_running := False, db_scheduled := False\<rparr>"]) (simp add: sched_ok_def sched_def)
qed

lemma db_step_sched_ok: "db_step fresh env db db' \<Longrightarrow> sched_ok db \<Longrightarrow> sched_ok db'"
proof (induction rule: db_step.induct)
  case (step_background db db')
  with background_step_ends Maybe_sched show ?case by blast
next
  case (step_iterator_deleted db handles i)
  then show ?case by (simp add: release_handles_def UnrefVersion_def sched_ok_def)
next
  case (step_release db snapshot)
  then show ?case by (cases snapshot) (simp_all add: ReleaseSnapshot_def sched_ok_def)
next
  case (step_snapshot db sequence db')
  then show ?case by (auto simp: GetSnapshot_def sched_ok_def)
next
  case (step_shut_down db)
  then show ?case by (simp add: sched_ok_def)
qed (fact DBImpl_Open_sched_ok DB_Write_sched_ok sched_ok_cong [OF DB_Get_sched] sched_ok_cong [OF DB_NewIterator_sched]
    sched_ok_cong [OF calm_sched [OF CompactMemTable_calm]] sched_ok_cong [OF TEST_CompactRange_sched])+

lemma db_run_sched_ok: "(db_step fresh env)\<^sup>*\<^sup>* db0 db \<Longrightarrow> sched_ok db0 \<Longrightarrow> sched_ok db"
  by (induction rule: rtranclp_induct) (auto intro: db_step_sched_ok)

text \<open>With the shutdown flag set a background call does no work, and schedules none.\<close>

lemma shut_down_drains:
  assumes "sched_ok db" "db_scheduled db" "db_shutting_down db"
  shows "\<exists>db'. background_step fresh env db = Some db' \<and> \<not> db_scheduled db' \<and> \<not> db_running db' \<and> bg_queue (db_work db') = []"
proof -
  have "bg_queue (db_work db) = [BGWork]" "bg_started (db_work db)" using assms by (simp_all add: sched_ok_def sched_def)
  then show ?thesis
    using assms(3) by (simp add: background_step_def BackgroundThread_take_def BackgroundCall_def RecordBackgroundError_def ok_def OK_def MaybeScheduleCompaction_def)
qed

end
