(* ===== verification/Recoveries.thy ===== *)
theory Recoveries
  imports DBWrites
begin

text \<open>
  Recovery from the write-ahead log (db/db_impl.cc): synced writes leave their batches in the log one
  after the other, and replaying the log into an empty memtable makes the same memtable again.
\<close>

section \<open>A memtable only grows\<close>

lemma MemTable_new_usage: "ApproximateMemoryUsage (MemTable_new fresh) = kBlockSize + 8"
  by (simp add: MemTable_new_def SkipList_new_def ApproximateMemoryUsage_def MemoryUsage_def NewNode_def Let_def AllocateAligned_def
      AllocateFallback_def AllocateNewBlock_def Arena_new_def kBlockSize_def kMaxHeight_def sizeof_Node_def split: prod.splits)

lemma Allocate_usage: "Allocate fresh n a = (p, a') \<Longrightarrow> memory_usage a \<le> memory_usage a'"
    "AllocateAligned fresh n a = (p, a') \<Longrightarrow> memory_usage a \<le> memory_usage a'"
  by (auto simp: Allocate_def AllocateAligned_def AllocateFallback_def AllocateNewBlock_def Let_def split: prod.splits if_splits)

lemma Insert_usage:
  assumes "Insert cmp fresh key s = Some s'"
  shows "memory_usage (arena s) \<le> memory_usage (arena s')"
  using assms
  by (auto simp: Insert_def NewNode_def RandomHeight_def Let_def dest: Allocate_usage(2) split: option.splits prod.splits if_splits)

lemma MemTable_Add_usage: "MemTable_Add fresh c seq type key v m = Some m' \<Longrightarrow> ApproximateMemoryUsage m \<le> ApproximateMemoryUsage m'"
  by (auto simp: MemTable_Add_def ApproximateMemoryUsage_def MemoryUsage_def Let_def dest!: Insert_usage Allocate_usage(1) split: prod.splits)

lemma MemTable_AddAll_usage: "MemTable_AddAll fresh c es m = Some m' \<Longrightarrow> ApproximateMemoryUsage m \<le> ApproximateMemoryUsage m'"
  by (induction es arbitrary: m) (fastforce dest: MemTable_Add_usage split: option.splits)+

lemma WB_InsertInto_usage:
  assumes "WB_InsertInto fresh c (batch_of seq ops) m = Some (st, m')" "\<forall>x \<in> set ops. op_bounded x" "length ops < 2 ^ 31"
  shows "ApproximateMemoryUsage m \<le> ApproximateMemoryUsage m'"
  using assms WB_InsertInto_batch [of ops fresh c seq m] op_bounded_sized MemTable_AddAll_usage by fastforce

text \<open>An entry that fits a block with its overhead adds at most two blocks.\<close>

lemma Allocate_usage_le: "Allocate fresh n a = (p, a') \<Longrightarrow> n \<le> kBlockSize \<Longrightarrow> memory_usage a' \<le> memory_usage a + (kBlockSize + 8)"
    "AllocateAligned fresh n a = (p, a') \<Longrightarrow> n \<le> kBlockSize \<Longrightarrow> memory_usage a' \<le> memory_usage a + (kBlockSize + 8)"
  by (auto simp: Allocate_def AllocateAligned_def AllocateFallback_def AllocateNewBlock_def Let_def split: prod.splits if_splits)

lemma Insert_usage_le:
  assumes "Insert cmp fresh key s = Some s'"
  shows "memory_usage (arena s') \<le> memory_usage (arena s) + (kBlockSize + 8)"
proof -
  obtain height s1 where h: "RandomHeight s = (height, s1)" by fastforce
  note b = RandomHeight_bounds [OF h]
  obtain p a where a: "AllocateAligned fresh (sizeof_Node + 8 * (height - 1)) (arena s) = (p, a)" by fastforce
  have "arena s1 = arena s" by (subst b(3)) simp
  then have "arena s' = a" using assms a by (auto simp: Insert_def NewNode_def h Let_def split: option.splits prod.splits if_splits)
  moreover have "sizeof_Node + 8 * (height - 1) \<le> kBlockSize" using b(2) by (simp add: sizeof_Node_def kMaxHeight_def kBlockSize_def)
  ultimately show ?thesis using Allocate_usage_le(2) [OF a] by simp
qed

lemma VarintLength_le: "VarintLength v \<le> 10"
  by (simp add: VarintLength_EncodeVarint64 length_EncodeVarint64)

lemma MemTable_Add_usage_le:
  assumes "MemTable_Add fresh c seq type key v m = Some m'" "length key + length v + 28 \<le> kBlockSize"
  shows "ApproximateMemoryUsage m' \<le> ApproximateMemoryUsage m + 2 * (kBlockSize + 8)"
proof -
  let ?n = "VarintLength (of_nat (length key + 8)) + (length key + 8) + VarintLength (of_nat (length v)) + length v"
  obtain p a where a: "Allocate fresh ?n (arena m) = (p, a)" by fastforce
  have "?n \<le> kBlockSize"
    using assms(2) VarintLength_le [of "of_nat (length key + 8)"] VarintLength_le [of "of_nat (length v)"] by linarith
  from Allocate_usage_le(1) [OF a this] assms(1) a show ?thesis
    by (fastforce simp: MemTable_Add_def ApproximateMemoryUsage_def MemoryUsage_def Let_def dest: Insert_usage_le)
qed

lemma MemTable_AddAll_usage_le:
  assumes "MemTable_AddAll fresh c es m = Some m'" "\<forall>e \<in> set es. length (me_key e) + length (me_value e) + 28 \<le> kBlockSize"
  shows "ApproximateMemoryUsage m' \<le> ApproximateMemoryUsage m + length es * (2 * (kBlockSize + 8))"
  using assms
proof (induction es arbitrary: m)
  case (Cons e es)
  then obtain m1 where m1: "MemTable_Add fresh c (me_seq e) (me_type e) (me_key e) (me_value e) m = Some m1" "MemTable_AddAll fresh c es m1 = Some m'"
    by (auto split: option.splits)
  from MemTable_Add_usage_le [OF m1(1)] Cons.IH [OF m1(2)] Cons.prems(2) show ?case by (fastforce simp: algebra_simps)
qed simp

section \<open>Runs of writes\<close>

lemma op_entries_append: "op_entries seq (ops @ ops') = op_entries seq ops @ op_entries (seq + of_nat (length ops)) ops'"
  by (induction ops arbitrary: seq) (simp_all add: op_entries_Cons ac_simps)

text \<open>Synced writes, one after the other; \<open>None\<close> when one of them fails.\<close>

fun synced_writes :: "fresh \<Rightarrow> ('h, 's, 'e) env_ops \<Rightarrow> WriteOp list list \<Rightarrow> ('h, 'e) DBImpl \<Rightarrow> ('h, 'e) DBImpl option" where
  "synced_writes fresh env [] db = Some db"
| "synced_writes fresh env (ops # opss) db =
     do { (status, b, db) \<leftarrow> DB_Write fresh env True (Some (fold apply_op ops WB_Clear)) db;
          if ok status then synced_writes fresh env opss db else None }"

text \<open>The batches as they are logged: each with the next sequence number.\<close>

fun log_batches :: "SequenceNumber \<Rightarrow> WriteOp list list \<Rightarrow> bytes list" where
  "log_batches seq [] = []"
| "log_batches seq (ops # opss) = batch_of seq ops # log_batches (seq + of_nat (length ops)) opss"

fun insert_all :: "fresh \<Rightarrow> comparator \<Rightarrow> bytes list \<Rightarrow> MemTable \<Rightarrow> MemTable option" where
  "insert_all fresh c [] m = Some m"
| "insert_all fresh c (b # bs) m = do { (status, m) \<leftarrow> WB_InsertInto fresh c b m; if ok status then insert_all fresh c bs m else None }"

abbreviation loggable :: "WriteOp list \<Rightarrow> bool" where
  "loggable ops \<equiv> (\<forall>x \<in> set ops. op_bounded x) \<and> ops \<noteq> [] \<and> length ops < 2 ^ 31"

lemma insert_all_usage:
  assumes "insert_all fresh c (log_batches seq opss) m = Some m'" "\<forall>ops \<in> set opss. loggable ops"
  shows "ApproximateMemoryUsage m \<le> ApproximateMemoryUsage m'"
  using assms
proof (induction opss arbitrary: seq m)
  case (Cons ops opss)
  from Cons.prems(1) obtain st m1 where m1: "WB_InsertInto fresh c (batch_of seq ops) m = Some (st, m1)"
      "insert_all fresh c (log_batches (seq + of_nat (length ops)) opss) m1 = Some m'"
    by (auto elim!: bind_SomeE split: if_splits)
  with WB_InsertInto_usage [OF m1(1)] Cons.IH [OF m1(2)] Cons.prems(2) show ?case by (meson list.set_intros order_trans)
qed simp

text \<open>Twice a block for every operation.\<close>

definition op_cost :: "WriteOp \<Rightarrow> nat" where
  "op_cost op = (case op of PutOp k v \<Rightarrow> length k + length v | DeleteOp k \<Rightarrow> length k)"

lemma op_entries_cost:
  "e \<in> set (op_entries seq ops) \<Longrightarrow> \<forall>op \<in> set ops. op_cost op \<le> n \<Longrightarrow> length (me_key e) + length (me_value e) \<le> n"
  by (induction seq ops rule: op_entries.induct) (auto simp: op_cost_def)

lemma length_op_entries: "length (op_entries seq ops) = length ops"
  by (induction seq ops rule: op_entries.induct) auto

lemma insert_all_usage_le:
  assumes "insert_all fresh c (log_batches seq opss) m = Some m'" "\<forall>ops \<in> set opss. loggable ops"
    and "\<forall>op \<in> set (concat opss). op_cost op + 28 \<le> kBlockSize"
  shows "ApproximateMemoryUsage m' \<le> ApproximateMemoryUsage m + length (concat opss) * (2 * (kBlockSize + 8))"
  using assms
proof (induction opss arbitrary: seq m)
  case (Cons ops opss)
  from Cons.prems(1) obtain st m1 where m1: "WB_InsertInto fresh c (batch_of seq ops) m = Some (st, m1)"
      "insert_all fresh c (log_batches (seq + of_nat (length ops)) opss) m1 = Some m'"
    by (auto elim!: bind_SomeE split: if_splits)
  have "MemTable_AddAll fresh c (op_entries seq ops) m = Some m1"
    using m1(1) Cons.prems(2) WB_InsertInto_batch [of ops fresh c seq m] op_bounded_sized
    by (cases "MemTable_AddAll fresh c (op_entries seq ops) m") auto
  moreover have "length (me_key e) + length (me_value e) + 28 \<le> kBlockSize" if "e \<in> set (op_entries seq ops)" for e
    using op_entries_cost [OF that, of "kBlockSize - 28"] Cons.prems(3) by (fastforce simp: kBlockSize_def)
  ultimately have "ApproximateMemoryUsage m1 \<le> ApproximateMemoryUsage m + length ops * (2 * (kBlockSize + 8))"
    using MemTable_AddAll_usage_le [of fresh c "op_entries seq ops" m m1] by (simp add: length_op_entries)
  with Cons.IH [OF m1(2)] Cons.prems(2,3) show ?case by (fastforce simp: algebra_simps)
qed simp

text \<open>The steps of a synced write that leaves the memtable where it is.\<close>

lemma DB_Write_synced:
  assumes W: "DB_Write fresh env True (Some (fold apply_op ops WB_Clear)) db = Some (status, b, db')" "ok status"
    and ops: "loggable ops" and c: "db_comparator db = c"
    and room: "db_imm db = None" "ApproximateMemoryUsage (db_mem db) \<le> op_write_buffer_size (db_options db)"
  obtains writer st1 w1 e1 st2 w2 e2 st3 m where "db_log db = Some writer"
    "LogAdd env (batch_of (db_last_sequence db + 1) ops) writer (db_env db) = Some (st1, w1, e1)" "ok st1"
    "LogSync env w1 e1 = Some (st2, w2, e2)" "ok st2"
    "WB_InsertInto fresh c (batch_of (db_last_sequence db + 1) ops) (db_mem db) = Some (st3, m)" "ok st3"
    "db_log db' = Some w2" "db_env db' = e2" "db_mem db' = m" "db_imm db' = None" "db_options db' = db_options db"
    "db_last_sequence db' = db_last_sequence db + of_nat (length ops)"
proof -
  let ?last = "db_last_sequence db"
  have n: "WB_Count (fold apply_op ops WB_Clear) = int (length ops)" "int (length ops) \<noteq> 0" using batch_facts(1) [of ops] ops by simp_all
  have b: "WB_SetSequence seq (fold apply_op ops WB_Clear) = batch_of seq ops" for seq using batch_facts(2) ops by blast
  have R: "MakeRoomForWrite fresh env db = Some (OK, db)" using room by (simp add: MakeRoomForWrite_def)
  note W' = W(1) [unfolded DB_Write_def option.case n(1) Let_def if_not_P [OF n(2)] R b WB_Contents_def, simplified]
  from W' obtain writer where 2: "db_log db = Some writer" by (auto elim!: bind_SomeE)
  from W' 2 W(2) obtain st1 w1 e1 where 3: "LogAdd env (batch_of (?last + 1) ops) writer (db_env db) = Some (st1, w1, e1)" "ok st1"
    by (auto elim!: bind_SomeE split: if_splits)
  from W' 2 3 W(2) obtain st2 w2 e2 where 4: "LogSync env w1 e1 = Some (st2, w2, e2)" "ok st2"
    by (auto elim!: bind_SomeE split: if_splits)
  from W' 2 3 4 W(2) obtain m where 5: "WB_InsertInto fresh c (batch_of (?last + 1) ops) (db_mem db) = Some (status, m)"
      "db' = MaybeScheduleCompaction (db\<lparr>db_log := Some w2, db_env := e2, db_mem := m, db_last_sequence := ?last + of_int (int (length ops))\<rparr>)"
    by (auto simp: c elim!: bind_SomeE)
  from that [OF 2 3 4 5(1) W(2)] show thesis using room(1) by (simp add: 5(2) MaybeScheduleCompaction_def)
qed

section \<open>The log holds the batches\<close>

context file_system
begin

lemma synced_writes_log:
  assumes "synced_writes fresh env opss db = Some db'" "\<forall>ops \<in> set opss. loggable ops" "db_comparator db = c" "db_imm db = None"
    and "db_log db = Some w" "files (db_env db) (name (dest w)) = Some (held (dest w) (db_env db))"
    and "insert_all fresh c (log_batches (db_last_sequence db + 1) opss) (db_mem db) = Some m"
    and "ApproximateMemoryUsage m \<le> op_write_buffer_size (db_options db)"
  shows "files (db_env db') (name (dest w)) = Some (held (dest w) (db_env db) @ emitted_all (block_offset w) (log_batches (db_last_sequence db + 1) opss))
    \<and> db_mem db' = m \<and> db_imm db' = None \<and> db_options db' = db_options db
    \<and> db_last_sequence db' = db_last_sequence db + of_nat (length (concat opss))"
  using assms
proof (induction opss arbitrary: db w)
  case (Cons ops opss)
  let ?last = "db_last_sequence db"
  have ops: "loggable ops" using Cons.prems(2) by simp
  from Cons.prems(1) obtain status b db1 where W: "DB_Write fresh env True (Some (fold apply_op ops WB_Clear)) db = Some (status, b, db1)" "ok status"
    and run: "synced_writes fresh env opss db1 = Some db'"
    by (auto elim!: bind_SomeE split: if_splits)
  have "ApproximateMemoryUsage (db_mem db) \<le> op_write_buffer_size (db_options db)"
    using insert_all_usage [OF Cons.prems(7,2)] Cons.prems(8) by linarith
  then obtain w0 st1 w1 e1 st2 w2 e2 st3 m1 where w0: "db_log db = Some w0"
    and l0: "LogAdd env (batch_of (?last + 1) ops) w0 (db_env db) = Some (st1, w1, e1)" "ok st1"
      "LogSync env w1 e1 = Some (st2, w2, e2)" "ok st2"
    and i: "WB_InsertInto fresh c (batch_of (?last + 1) ops) (db_mem db) = Some (st3, m1)" "ok st3"
    and db1: "db_log db1 = Some w2" "db_env db1 = e2" "db_mem db1 = m1" "db_imm db1 = None" "db_options db1 = db_options db"
      "db_last_sequence db1 = ?last + of_nat (length ops)"
    by (rule DB_Write_synced [OF W ops Cons.prems(3,4)])
  have "w0 = w" using w0 Cons.prems(5) by simp
  note l = l0 [unfolded this]
  note A = LogAdd_effect [OF l(1)] LogSync_effect [OF l(3)]
  have n2: "name (dest w2) = name (dest w)" "block_offset w2 = offset_after (block_offset w) (batch_of (?last + 1) ops)"
    and h2: "held (dest w2) e2 = held (dest w) (db_env db) @ emitted (block_offset w) True (batch_of (?last + 1) ops)"
    and f2: "files e2 (name (dest w)) = Some (held (dest w2) e2)"
    using A l(2,4) Cons.prems(6) by auto
  have seq: "db_last_sequence db1 + 1 = ?last + 1 + of_nat (length ops)" by (simp add: db1(6))
  have "insert_all fresh c (log_batches (db_last_sequence db1 + 1) opss) (db_mem db1) = Some m"
    using Cons.prems(7) i by (simp add: db1(3) seq)
  from Cons.IH [OF run _ _ db1(4,1) _ this] Cons.prems(2,3,8) f2 n2(1) show ?case
    by (simp add: db1 seq [unfolded db1] n2 h2)
qed simp

end

section \<open>Replaying the log\<close>

lemma batch_of_fields:
  "length ops < 2 ^ 31 \<Longrightarrow> WB_Count (batch_of seq ops) = int (length ops)" "WB_Sequence (batch_of seq ops) = seq" "\<not> length (batch_of seq ops) < 12"
  by (simp_all add: batch_of_def sint_count)

lemma log_batch_in_range:
  assumes "unat (seq :: u64) + n < 2 ^ 56" "0 < n"
  shows "\<not> seq > kMaxSequenceNumber - of_nat n + 1" "unat (seq + of_nat n - 1) = unat seq + n - 1"
proof -
  have n: "unat (of_nat n :: u64) = n" using assms(1) by (simp add: unat_of_nat take_bit_nat_eq_self)
  have "unat (kMaxSequenceNumber - of_nat n) = 2 ^ 56 - 1 - n"
    using assms n by (simp add: unat_sub_if' kMaxSequenceNumber_def)
  then have "unat (kMaxSequenceNumber - of_nat n + 1) = 2 ^ 56 - n"
    using assms by (simp add: unat_word_ariths)
  with assms show "\<not> seq > kMaxSequenceNumber - of_nat n + 1" by (simp add: word_less_nat_alt)
  have "unat (seq + of_nat n) = unat seq + n" using assms n by (simp add: unat_word_ariths)
  then show "unat (seq + of_nat n - 1) = unat seq + n - 1" using assms by (simp add: unat_sub_if')
qed

lemma RecoverLogLoop_replays:
  assumes "sequential_file (ev_read env) remaining"
    and "reader_at remaining off (emitted_all off (log_batches seq opss)) r" "off \<le> log_kBlockSize"
    and "\<forall>ops \<in> set opss. loggable ops" "db_comparator db = c"
    and "insert_all fresh c (log_batches seq opss) (db_mem db) = Some m" "ApproximateMemoryUsage m \<le> op_write_buffer_size (db_options db)"
    and "unat seq + length (concat opss) < 2 ^ 56" "db_last_sequence db = seq - 1" "0 < seq"
  shows "RecoverLogLoop fresh env log_name r db
    = Some (OK, db\<lparr>db_mem := m, db_last_sequence := db_last_sequence db + of_nat (length (concat opss))\<rparr>)"
  using assms(2-)
proof (induction opss arbitrary: seq off r db)
  case Nil
  then obtain r' where "ReadRecord (ev_read env) r = Some ((False, [], OK), r')"
    using sequential_file.ReadRecord_end [OF assms(1)] by fastforce
  with Nil show ?case by (simp add: RecoverLogLoop.simps [of fresh env log_name r])
next
  case (Cons ops opss)
  let ?b = "batch_of seq ops" and ?n = "length ops"
  have ops: "loggable ops" "0 < ?n" using Cons.prems(3) by simp_all
  obtain r' where r': "ReadRecord (ev_read env) r = Some ((True, ?b, OK), r')"
      "reader_at remaining (offset_after off ?b) (emitted_all (offset_after off ?b) (log_batches (seq + of_nat ?n) opss)) r'"
    using sequential_file.ReadRecord_emitted [OF assms(1), of off ?b _ r] Cons.prems(1,2) by auto
  from Cons.prems(5) obtain st m1 where i: "WB_InsertInto fresh c ?b (db_mem db) = Some (st, m1)" "ok st"
    and rest: "insert_all fresh c (log_batches (seq + of_nat ?n) opss) m1 = Some m"
    by (auto elim!: bind_SomeE split: if_splits)
  have "ApproximateMemoryUsage m1 \<le> ApproximateMemoryUsage m" using insert_all_usage [OF rest] Cons.prems(3) by simp
  then have room: "\<not> ApproximateMemoryUsage m1 > op_write_buffer_size (db_options db)" using Cons.prems(6) by linarith
  have bound: "unat seq + ?n < 2 ^ 56" using Cons.prems(7) by simp
  note range = log_batch_in_range [OF bound ops(2)]
  have "0 < unat seq" "unat (db_last_sequence db) = unat seq - 1"
    using Cons.prems(8,9) unat_sub_if' [of seq 1] by (simp_all add: word_less_nat_alt)
  then have later: "db_last_sequence db < seq + of_nat ?n - 1"
    unfolding word_less_nat_alt range(2) using ops(2) by linarith
  let ?db1 = "db\<lparr>db_mem := m1, db_last_sequence := seq + of_nat ?n - 1\<rparr>"
  have "RecoverLogLoop fresh env log_name r db = RecoverLogLoop fresh env log_name r' ?db1"
    using ops i Cons.prems(4)
    by (simp add: RecoverLogLoop.simps [of fresh env log_name r] r'(1) WB_SetContents_def batch_of_fields Let_def later room range(1))
  also have "\<dots> = Some (OK, ?db1\<lparr>db_mem := m, db_last_sequence := db_last_sequence ?db1 + of_nat (length (concat opss))\<rparr>)"
  proof (rule Cons.IH [OF r'(2)])
    have "unat (seq + of_nat ?n) = unat seq + ?n" using bound by (simp add: unat_word_ariths unat_of_nat)
    with Cons.prems(7) ops(2) show "unat (seq + of_nat ?n) + length (concat opss) < 2 ^ 56" "0 < seq + of_nat ?n"
      by (simp_all add: word_less_nat_alt)
  qed (use Cons.prems rest in \<open>simp_all add: offset_after_le\<close>)
  finally show ?case using Cons.prems(8) by (simp add: algebra_simps)
qed

section \<open>Recovery rebuilds the memtable\<close>

context user_comparator
begin

lemma insert_all_exists:
  assumes "mem_inv c m ids es" "\<forall>e \<in> set es. me_seq e \<le> last_seq" "\<forall>ops \<in> set opss. loggable ops"
    and "unat last_seq + length (concat opss) < 2 ^ 56"
  shows "\<exists>m' ids' es'. insert_all fresh c (log_batches (last_seq + 1) opss) m = Some m' \<and> mem_inv c m' ids' es'
    \<and> mset es' = mset es + mset (op_entries (last_seq + 1) (concat opss))"
  using assms
proof (induction opss arbitrary: m ids es last_seq)
  case (Cons ops opss)
  let ?seq = "last_seq + of_nat (length ops)"
  have ops: "\<forall>x \<in> set ops. op_bounded x" "ops \<noteq> []" "length ops < 2 ^ 31" "unat last_seq + length ops < 2 ^ 56"
    using Cons.prems(3,4) by simp_all
  from insert_batch [OF Cons.prems(1,2) ops, of fresh] obtain m1 ids1 es1 where
    m1: "WB_InsertInto fresh c (batch_of (last_seq + 1) ops) m = Some (OK, m1)" "mem_inv c m1 ids1 es1"
      "mset es1 = mset es + mset (op_entries (last_seq + 1) ops)" by blast
  have u: "unat ?seq = unat last_seq + length ops" "unat (last_seq + 1) = unat last_seq + 1"
    using ops(4) by (simp_all add: unat_word_ariths unat_of_nat)
  have "me_seq e \<le> ?seq" if "e \<in> set es1" for e
  proof -
    have "e \<in> set es \<or> e \<in> set (op_entries (last_seq + 1) ops)" using that m1(3) by (metis Un_iff set_mset_mset set_mset_union)
    then have "unat (me_seq e) \<le> unat last_seq \<or> unat (me_seq e) \<le> unat last_seq + length ops"
      using Cons.prems(2) op_entries_seq [of e "last_seq + 1" ops] u(2) ops(4) by (fastforce simp: word_le_nat_alt)
    then show ?thesis using u(1) by (auto simp: word_le_nat_alt)
  qed
  with Cons.IH [OF m1(2), of ?seq] Cons.prems(3,4) u(1) obtain m' ids' es' where
    "insert_all fresh c (log_batches (?seq + 1) opss) m1 = Some m'" "mem_inv c m' ids' es'"
    "mset es' = mset es1 + mset (op_entries (?seq + 1) (concat opss))" by auto
  moreover have "last_seq + 1 + of_nat (length ops) = ?seq + 1" by simp
  ultimately show ?case using m1(1,3) by (simp add: ok_def OK_def op_entries_append ac_simps) blast
qed auto

text \<open>On a device that never fails, writes that fit the memtable all succeed.\<close>

lemma synced_writes_succeed:
  assumes f: "reliable_file (ev_file env) contents" "\<forall>f. \<exists>f'. wf_Sync (ev_file env) f = Some (OK, f')"
    and db: "mem_holds c db" "db_comparator db = c" "db_imm db = None" "db_log db = Some writer"
    and opss: "\<forall>ops \<in> set opss. loggable ops" "unat (db_last_sequence db) + length (concat opss) < 2 ^ 56"
    and m: "insert_all fresh c (log_batches (db_last_sequence db + 1) opss) (db_mem db) = Some m"
      "ApproximateMemoryUsage m \<le> op_write_buffer_size (db_options db)"
  shows "\<exists>db'. synced_writes fresh env opss db = Some db'"
  using db opss m
proof (induction opss arbitrary: db writer)
  case (Cons ops opss)
  let ?last = "db_last_sequence db"
  have ops: "\<forall>x \<in> set ops. op_bounded x" "ops \<noteq> []" "length ops < 2 ^ 31" "unat ?last + length ops < 2 ^ 56" "loggable ops"
    using Cons.prems(5,6) by simp_all
  have room: "ApproximateMemoryUsage (db_mem db) \<le> op_write_buffer_size (db_options db)"
    using insert_all_usage [OF Cons.prems(7,5)] Cons.prems(8) by linarith
  from DB_Write_succeeds [where sync = True, OF f(1) _ Cons.prems(1,2,3) room Cons.prems(4) ops(1-4), of fresh] f(2) obtain b db1 where
    W: "DB_Write fresh env True (Some (fold apply_op ops WB_Clear)) db = Some (OK, b, db1)" by blast
  have ok: "ok OK" by (simp add: ok_def OK_def)
  from DB_Write_synced [OF W ok ops(5) Cons.prems(2,3) room] obtain w2 st3 m1 where
    i: "WB_InsertInto fresh c (batch_of (?last + 1) ops) (db_mem db) = Some (st3, m1)" "ok st3"
    and db1: "db_log db1 = Some w2" "db_mem db1 = m1" "db_imm db1 = None" "db_options db1 = db_options db"
      "db_last_sequence db1 = ?last + of_nat (length ops)" by metis
  have seq: "db_last_sequence db1 + 1 = ?last + 1 + of_nat (length ops)" "unat (db_last_sequence db1) = unat ?last + length ops"
    using ops(4) by (simp_all add: db1(5) unat_word_ariths unat_of_nat)
  have "\<exists>db'. synced_writes fresh env opss db1 = Some db'"
  proof (rule Cons.IH)
    show "mem_holds c db1" by (rule DB_Write_mem_holds [OF Cons.prems(1,2) ops(1-4) W ok])
    show "insert_all fresh c (log_batches (db_last_sequence db1 + 1) opss) (db_mem db1) = Some m"
      using Cons.prems(7) i by (simp add: seq db1(2))
  qed (use Cons.prems db1 seq in simp_all)
  then show ?case using W ok by simp
qed simp

text \<open>
  Acknowledged writes survive a crash: a database that starts with the log's durable contents has the
  same memtable and the same last sequence number after replaying it.
\<close>

lemma synced_writes_recovered:
  assumes fs: "file_system env files name held remaining"
    and db: "db_comparator db = c" "db_imm db = None" "db_mem db = MemTable_new fresh"
      "db_log db = Some (LogWriter_new h 0)" "held h (db_env db) = []" "files (db_env db) (name h) = Some []"
    and opss: "\<forall>ops \<in> set opss. loggable ops" "unat (db_last_sequence db) + length (concat opss) + 1 < 2 ^ 56"
    and run: "synced_writes fresh env opss db = Some db'"
    and m: "insert_all fresh c (log_batches (db_last_sequence db + 1) opss) (MemTable_new fresh) = Some m"
      "ApproximateMemoryUsage m \<le> op_write_buffer_size (db_options db)"
    and db2: "db_options db2 = db_options db" "db_mem db2 = MemTable_new fresh" "db_last_sequence db2 = db_last_sequence db"
      "LogFileName (db_dbname db2) n = name h" "files (db_env db2) (name h) = files (db_env db') (name h)"
  shows "db_mem db' = m \<and> db_last_sequence db' = db_last_sequence db + of_nat (length (concat opss))
    \<and> RecoverLogFile fresh env n db2 = Some (OK, db2\<lparr>db_mem := db_mem db', db_last_sequence := db_last_sequence db'\<rparr>)"
proof -
  let ?last = "db_last_sequence db"
  have w: "name (dest (LogWriter_new h 0)) = name h" "held (dest (LogWriter_new h 0)) (db_env db) = []" "block_offset (LogWriter_new h 0) = 0"
    by (simp_all add: LogWriter_new_def db(5))
  have L: "files (db_env db') (name h) = Some (emitted_all 0 (log_batches (?last + 1) opss)) \<and> db_mem db' = m
      \<and> db_last_sequence db' = ?last + of_nat (length (concat opss))"
    using file_system.synced_writes_log [OF fs run opss(1) db(1,2,4) _ _ m(2)] m(1) db(3,6) w by simp
  then obtain sf where sf: "ev_NewSequentialFile env (name h) (db_env db2) = (Inr sf, db_env db2)"
      "remaining sf = emitted_all 0 (log_batches (?last + 1) opss)"
    using file_system.sequential [OF fs, of "db_env db2" "name h"] db2(5) by auto
  have rd: "sequential_file (ev_read env) remaining"
    using file_system.read [OF fs] by unfold_locales blast
  have at: "reader_at remaining 0 (emitted_all 0 (log_batches (?last + 1) opss)) (LogReader_new sf True)"
    using sequential_file.reader_at_new [OF rd, of sf True] sf(2) by simp
  have u: "unat (?last + 1) = unat ?last + 1" using opss(2) by (simp add: unat_word_ariths)
  have "RecoverLogLoop fresh env (name h) (LogReader_new sf True) db2
      = Some (OK, db2\<lparr>db_mem := m, db_last_sequence := db_last_sequence db2 + of_nat (length (concat opss))\<rparr>)"
    by (rule RecoverLogLoop_replays [OF rd at _ opss(1)])
      (use db(1) db2(1-3) m u opss(2) in \<open>simp_all add: word_less_nat_alt\<close>)
  with L sf(1) db2(3,4) show ?thesis by (simp add: RecoverLogFile_def)
qed

lemma recovered_reads:
  assumes m: "insert_all fresh c (log_batches (last_seq + 1) opss) (MemTable_new fresh) = Some m"
    and opss: "\<forall>ops \<in> set opss. loggable ops" "unat last_seq + length (concat opss) < 2 ^ 56"
    and db: "db_mem db = m" "db_comparator db = c" "db_last_sequence db = last_seq + of_nat (length (concat opss))"
    and u: "length u + 8 < 2 ^ 32" and op: "last_op c u (concat opss) = Some op"
  shows "DB_Get env options None u (Some val) db
    = Some (case op of PutOp k v \<Rightarrow> (OK, Some v, db) | DeleteOp k \<Rightarrow> (NotFound u [], Some [], db))"
proof -
  have "mem_inv c (MemTable_new fresh) [] []" by (rule mem_inv_new)
  from insert_all_exists [OF this _ opss, of fresh] m obtain ids es where
    i: "mem_inv c m ids es" "mset es = mset (op_entries (last_seq + 1) (concat opss))" by auto
  have b: "unat (last_seq + 1) + length (concat opss) \<le> unat (db_last_sequence db) + 1" "unat (db_last_sequence db) < 2 ^ 56"
    using opss(2) by (simp_all add: db(3) unat_word_ariths unat_of_nat)
  from newest_last_op [OF b, of c u] op obtain s where
    n: "newest c u (db_last_sequence db) (op_entries (last_seq + 1) (concat opss)) = Some (op_entry s op)" by auto
  have g: "GetSnapshotSequence None db = db_last_sequence db" by (simp add: GetSnapshotSequence_def)
  have "db_last_sequence db \<le> kMaxSequenceNumber" using b(2) by (simp add: kMaxSequenceNumber_unat)
  from DB_Get_newest [OF i(1) [folded db(1)] i(2) db(2) u, of None, unfolded g, OF this n] show ?thesis
    by (cases op) (simp_all add: op_entry_def)
qed

end

end
