(* ===== verification/Manifests.thy ===== *)
theory Manifests
  imports Recoveries
begin

text \<open>
  The MANIFEST (db/version_set.cc): applying an edit depends on the current version and the numbers of
  the version set only, so a replay of the edits that were logged gives the same state again.
\<close>

section \<open>What an edit does\<close>

definition same_edits :: "Builder \<Rightarrow> Builder \<Rightarrow> bool" where
  "same_edits b b' \<longleftrightarrow> bd_deleted_files b = bd_deleted_files b' \<and> bd_added_files b = bd_added_files b'"

lemma SaveLoop_same: "same_edits b b' \<Longrightarrow> SaveLoop c b level fs gs v = SaveLoop c b' level fs gs v"
  by (induction c b level fs gs v rule: SaveLoop.induct) (simp_all add: same_edits_def MaybeAddFile_def IsDeleted_def)

lemma SaveTo_same:
  assumes "same_edits b b'"
  shows "SaveTo c b base v = SaveTo c b' base v"
proof -
  have "bd_added_files b = bd_added_files b'" using assms by (simp add: same_edits_def)
  then show ?thesis by (simp only: SaveTo_def SaveLoop_same [OF assms])
qed

lemma Builder_add_same1: "same_edits b b' \<Longrightarrow> same_edits (Builder_add b f) (Builder_add b' f)"
  by (cases f) (simp add: same_edits_def Builder_add_def Let_def)

lemma Builder_add_same: "same_edits b b' \<Longrightarrow> same_edits (foldl Builder_add b fs) (foldl Builder_add b' fs)"
proof (induction fs arbitrary: b b')
  case (Cons f fs)
  from Cons.IH [OF Builder_add_same1 [OF Cons.prems]] show ?case by simp
qed simp

text \<open>The version after an edit, and the compaction pointers and numbers after it.\<close>

definition edit_builder :: "nat \<Rightarrow> VersionEdit \<Rightarrow> Builder" where
  "edit_builder i edit =
     foldl Builder_add ((Builder_new i)\<lparr>bd_deleted_files := foldl (\<lambda>ds d. insort_insert d ds) [] (ve_deleted_files edit)\<rparr>) (ve_new_files edit)"

lemma edit_builder_same: "same_edits (edit_builder i edit) (edit_builder 0 edit)"
  unfolding edit_builder_def by (rule Builder_add_same) (simp add: same_edits_def Builder_new_def)

definition edited_version :: "comparator \<Rightarrow> VersionEdit \<Rightarrow> Version \<Rightarrow> Version" where
  "edited_version c edit v = Finalize (SaveTo c (edit_builder 0 edit) v Version_new)"

definition edited_pointers :: "VersionEdit \<Rightarrow> (int \<Rightarrow> bytes) \<Rightarrow> int \<Rightarrow> bytes" where
  "edited_pointers edit p = foldl (\<lambda>p (level, key). p(level := InternalKey_Encode key)) p (ve_compact_pointers edit)"

definition mark_used :: "u64 \<Rightarrow> u64 \<Rightarrow> u64" where
  "mark_used next number = (if next \<le> number then number + 1 else next)"

definition edited_next_file :: "VersionEdit \<Rightarrow> u64 \<Rightarrow> u64" where
  "edited_next_file edit next = foldl (\<lambda>next (level, file). mark_used next (fm_number file))
     (if ve_has_next_file_number edit \<and> next < ve_next_file_number edit then ve_next_file_number edit else next) (ve_new_files edit)"

definition edited_last_sequence :: "VersionEdit \<Rightarrow> SequenceNumber \<Rightarrow> SequenceNumber" where
  "edited_last_sequence edit s = (if ve_has_last_sequence edit \<and> s < ve_last_sequence edit then ve_last_sequence edit else s)"

text \<open>The current version is in the list, and new versions get new numbers.\<close>

definition versions_ok :: "'h VersionSet \<Rightarrow> bool" where
  "versions_ok vs \<longleftrightarrow> (\<exists>i. vs_current vs = Some i \<and> i \<in> fst ` set (vs_versions vs)) \<and> (\<forall>j \<in> fst ` set (vs_versions vs). j < vs_next_version vs)"

definition numbers :: "'h VersionSet \<Rightarrow> bytes \<times> Options \<times> u64 \<times> u64 \<times> SequenceNumber \<times> u64 \<times> 'h LogWriter option \<times> (int \<Rightarrow> bytes)" where
  "numbers vs = (vs_dbname vs, vs_options vs, vs_next_file_number vs, vs_log_number vs, vs_last_sequence vs, vs_manifest_file_number vs,
     vs_descriptor vs, vs_compact_pointer vs)"

definition listed :: "'h VersionSet \<Rightarrow> (nat \<times> VersionNode) list \<times> nat \<times> nat option" where
  "listed vs = (vs_versions vs, vs_next_version vs, vs_current vs)"

lemma vs_set_keys [simp]: "fst ` set (vs_versions (vs_set i n vs)) = fst ` set (vs_versions vs)"
  by (force simp: vs_set_def)

lemma vs_set_fields [simp]: "numbers (vs_set i n vs) = numbers vs" "vs_current (vs_set i n vs) = vs_current vs"
    "vs_next_version (vs_set i n vs) = vs_next_version vs"
  by (simp_all add: vs_set_def numbers_def)

lemma map_of_vs_set: "map_of (vs_versions (vs_set i n vs)) j = (if j = i then map_option (\<lambda>_. n) (map_of (vs_versions vs) i) else map_of (vs_versions vs) j)"
proof -
  have "map_of (map (\<lambda>(j, m). (j, if j = i then n else m)) xs) j = (if j = i then map_option (\<lambda>_. n) (map_of xs i) else map_of xs j)" for xs
    by (induction xs) auto
  then show ?thesis by (simp add: vs_set_def)
qed

lemma versions_ok_node: "versions_ok vs \<Longrightarrow> \<exists>i node. vs_current vs = Some i \<and> map_of (vs_versions vs) i = Some node \<and> current_version vs = vn_version node"
  by (auto simp: versions_ok_def current_version_def vs_node_def dom_map_of_conv_image_fst [symmetric])

lemma VS_Ref_facts: "numbers (VS_Ref i vs) = numbers vs" "vs_current (VS_Ref i vs) = vs_current vs" "versions_ok (VS_Ref i vs) = versions_ok vs"
  by (simp_all add: VS_Ref_def versions_ok_def)

lemma VS_Ref_version:
  assumes "versions_ok vs"
  shows "vn_version (vs_node (VS_Ref (the (vs_current vs)) vs) (the (vs_current vs))) = vn_version (vs_node vs (the (vs_current vs)))"
  using versions_ok_node [OF assms] by (auto simp: VS_Ref_def vs_node_def map_of_vs_set)

lemma AppendVersion_facts:
  assumes "versions_ok vs"
  shows "numbers (AppendVersion v vs) = numbers vs" "versions_ok (AppendVersion v vs)" "current_version (AppendVersion v vs) = v"
    "vs_current (AppendVersion v vs) \<noteq> vs_current vs"
proof -
  obtain i where i: "vs_current vs = Some i" "i < vs_next_version vs" "\<forall>j \<in> fst ` set (vs_versions vs). j < vs_next_version vs"
    using assms by (auto simp: versions_ok_def)
  let ?vs = "VS_Unref i vs"
  have u: "numbers ?vs = numbers vs" "vs_next_version ?vs = vs_next_version vs" "fst ` set (vs_versions ?vs) \<subseteq> fst ` set (vs_versions vs)"
    by (auto simp: VS_Unref_def Let_def numbers_def vs_set_def split: if_splits intro: rev_image_eqI)
  have a: "AppendVersion v vs = ?vs\<lparr>vs_current := Some (vs_next_version vs), vs_next_version := vs_next_version vs + 1,
      vs_versions := vs_versions ?vs @ [(vs_next_version vs, \<lparr>vn_refs = 1, vn_version = v\<rparr>)]\<rparr>"
    by (simp add: AppendVersion_def i(1) u(2) Let_def)
  have new: "vs_next_version vs \<notin> fst ` set (vs_versions ?vs)" using u(3) i(3) by blast
  show "numbers (AppendVersion v vs) = numbers vs" using u(1) by (simp add: a numbers_def)
  show "versions_ok (AppendVersion v vs)" using u(3) i(3) by (fastforce simp: a versions_ok_def)
  have "map_of (vs_versions ?vs) (vs_next_version vs) = None" using new by (simp add: map_of_eq_None_iff)
  then show "current_version (AppendVersion v vs) = v" by (simp add: a current_version_def vs_node_def map_add_def)
  show "vs_current (AppendVersion v vs) \<noteq> vs_current vs" using i(1,2) by (simp add: a)
qed

lemma VS_Unref_facts:
  assumes "versions_ok vs" "vs_current vs \<noteq> Some i"
  shows "numbers (VS_Unref i vs) = numbers vs" "versions_ok (VS_Unref i vs)" "current_version (VS_Unref i vs) = current_version vs"
proof -
  show "numbers (VS_Unref i vs) = numbers vs" by (simp add: VS_Unref_def Let_def numbers_def vs_set_def)
  show "versions_ok (VS_Unref i vs)"
  proof (cases "vn_refs (vs_node vs i) - 1 = 0")
    case True
    then have "VS_Unref i vs = vs\<lparr>vs_versions := filter (\<lambda>(j, n). j \<noteq> i) (vs_versions vs)\<rparr>" by (simp add: VS_Unref_def)
    with assms show ?thesis by (auto simp: versions_ok_def image_iff)
  qed (use assms in \<open>simp add: VS_Unref_def Let_def versions_ok_def\<close>)
  have "map_of (filter (\<lambda>(j, n). j \<noteq> i) xs) k = map_of xs k" if "k \<noteq> i" for xs :: "(nat \<times> VersionNode) list" and k
    using that by (induction xs) auto
  with assms show "current_version (VS_Unref i vs) = current_version vs"
    by (auto simp: VS_Unref_def Let_def current_version_def vs_node_def map_of_vs_set versions_ok_def)
qed

lemma Builder_Apply_facts:
  "Builder_Apply edit (Builder_new i, vs) = (edit_builder i edit, vs\<lparr>vs_compact_pointer := edited_pointers edit (vs_compact_pointer vs)\<rparr>)"
proof -
  have "foldl (\<lambda>vs (level, key). vs\<lparr>vs_compact_pointer := (vs_compact_pointer vs)(level := InternalKey_Encode key)\<rparr>) vs ps
      = vs\<lparr>vs_compact_pointer := foldl (\<lambda>p (level, key). p(level := InternalKey_Encode key)) (vs_compact_pointer vs) ps\<rparr>" for vs :: "'a VersionSet" and ps
    by (induction ps arbitrary: vs) auto
  then show ?thesis
    by (simp add: Builder_Apply_def edited_pointers_def edit_builder_def Builder_new_def Let_def)
qed

text \<open>The effect of an edit that is accepted.\<close>

lemma mark_files:
  "foldl (\<lambda>vs (level, file). MarkFileNumberUsed (fm_number file) vs) vs fs
    = vs\<lparr>vs_next_file_number := foldl (\<lambda>next (level, file). mark_used next (fm_number file)) (vs_next_file_number vs) fs\<rparr>"
  by (induction fs arbitrary: vs) (auto simp: MarkFileNumberUsed_def mark_used_def)

lemma ApplyVersionEdit_effect:
  assumes "versions_ok vs" "ApplyVersionEdit c edit vs = (status, vs')" "ok status"
  shows "status = OK" "ok (CheckComparatorName c edit)" "versions_ok vs'"
    and "current_version vs' = edited_version c edit (current_version vs)"
    and "numbers vs' = (vs_dbname vs, vs_options vs, edited_next_file edit (vs_next_file_number vs),
      if ve_has_log_number edit then ve_log_number edit else vs_log_number vs, edited_last_sequence edit (vs_last_sequence vs),
      vs_manifest_file_number vs, vs_descriptor vs, edited_pointers edit (vs_compact_pointer vs))"
proof -
  show chk: "ok (CheckComparatorName c edit)" using assms(2,3) by (auto simp: ApplyVersionEdit_def Let_def split: if_splits)
  let ?i = "the (vs_current vs)"
  let ?v = "Finalize (SaveTo c (edit_builder ?i edit) (vn_version (vs_node vs ?i)) Version_new)"
  define vs1 where "vs1 = (VS_Ref ?i vs)\<lparr>vs_compact_pointer := edited_pointers edit (vs_compact_pointer (VS_Ref ?i vs))\<rparr>"
  define vs2 where "vs2 = foldl (\<lambda>vs (level, file). MarkFileNumberUsed (fm_number file) vs) (ApplyMetadata edit vs1) (ve_new_files edit)"
  have r: "status = OK" "vs' = VS_Unref ?i (AppendVersion ?v vs2)"
    using assms(2) chk VS_Ref_version [OF assms(1)]
    by (simp_all add: ApplyVersionEdit_def Let_def Builder_Apply_facts vs1_def vs2_def vs_node_def)
  show "status = OK" by (fact r(1))
  have n2: "numbers vs2 = (vs_dbname vs, vs_options vs, edited_next_file edit (vs_next_file_number vs),
      if ve_has_log_number edit then ve_log_number edit else vs_log_number vs, edited_last_sequence edit (vs_last_sequence vs),
      vs_manifest_file_number vs, vs_descriptor vs, edited_pointers edit (vs_compact_pointer vs))"
    using VS_Ref_facts(1) [of ?i vs]
    by (simp add: vs2_def vs1_def mark_files numbers_def ApplyMetadata_def Let_def edited_next_file_def edited_last_sequence_def)
  have l2: "vs_current vs2 = vs_current vs" "versions_ok vs2"
    using VS_Ref_facts(2,3) [of ?i vs] assms(1)
    by (simp_all add: vs2_def vs1_def mark_files versions_ok_def ApplyMetadata_def Let_def)
  note A = AppendVersion_facts [OF l2(2), of ?v]
  have "vs_current (AppendVersion ?v vs2) \<noteq> Some ?i"
    using A(4) l2(1) assms(1) by (auto simp: versions_ok_def)
  note U = VS_Unref_facts [OF A(2) this]
  show "versions_ok vs'" "numbers vs' = (vs_dbname vs, vs_options vs, edited_next_file edit (vs_next_file_number vs),
      if ve_has_log_number edit then ve_log_number edit else vs_log_number vs, edited_last_sequence edit (vs_last_sequence vs),
      vs_manifest_file_number vs, vs_descriptor vs, edited_pointers edit (vs_compact_pointer vs))"
    using U A n2 by (simp_all add: r(2))
  show "current_version vs' = edited_version c edit (current_version vs)"
    using U(3) A(3) SaveTo_same [OF edit_builder_same [of ?i edit], of c "current_version vs" Version_new]
    by (simp add: r(2) edited_version_def current_version_def [of vs])
qed

lemma ApplyVersionEdit_ok: "ok (CheckComparatorName c edit) \<Longrightarrow> \<exists>vs'. ApplyVersionEdit c edit vs = (OK, vs')"
  by (simp add: ApplyVersionEdit_def Let_def split: prod.splits)

section \<open>The same state\<close>

text \<open>
  A version set that was recovered agrees with the one that wrote the MANIFEST, but that the latter may have
  taken new file numbers since.
\<close>

definition recovers :: "'h VersionSet \<Rightarrow> 'h VersionSet \<Rightarrow> bool" where
  "recovers vs vr \<longleftrightarrow> versions_ok vs \<and> versions_ok vr \<and> current_version vr = current_version vs \<and> vs_log_number vr = vs_log_number vs
     \<and> vs_last_sequence vr = vs_last_sequence vs \<and> vs_compact_pointer vr = vs_compact_pointer vs
     \<and> vs_next_file_number vr \<le> vs_next_file_number vs"

lemma edited_next_file_recovers:
  assumes "next' \<le> next" "ve_has_next_file_number edit" "ve_next_file_number edit = next"
  shows "edited_next_file edit next' = edited_next_file edit next"
  using assms by (auto simp: edited_next_file_def)

text \<open>Both apply an edit that was filled in by \<open>LogAndApply\<close>: they agree afterwards on the next file number as well.\<close>

lemma recovers_edit:
  assumes "recovers vs vr" "ApplyVersionEdit c edit vs = (status, vs')" "ok status"
    and "ve_has_next_file_number edit" "ve_next_file_number edit = vs_next_file_number vs"
  shows "\<exists>vr'. ApplyVersionEdit c edit vr = (OK, vr') \<and> recovers vs' vr' \<and> vs_next_file_number vr' = vs_next_file_number vs'
    \<and> vs_dbname vr' = vs_dbname vr \<and> vs_manifest_file_number vr' = vs_manifest_file_number vr"
proof -
  have v: "versions_ok vs" "versions_ok vr" using assms(1) by (simp_all add: recovers_def)
  note E = ApplyVersionEdit_effect [OF v(1) assms(2,3)]
  obtain vr' where r: "ApplyVersionEdit c edit vr = (OK, vr')" using ApplyVersionEdit_ok [OF E(2)] by blast
  have ok: "ok OK" by (simp add: ok_def OK_def)
  note R = ApplyVersionEdit_effect [OF v(2) r ok]
  have "edited_next_file edit (vs_next_file_number vr) = edited_next_file edit (vs_next_file_number vs)"
    using assms(1,4,5) by (intro edited_next_file_recovers) (simp_all add: recovers_def)
  with E(3-5) R(3-5) assms(1) r show ?thesis by (intro exI [of _ vr']) (simp add: recovers_def numbers_def)
qed

text \<open>Replaying edits.\<close>

fun apply_all :: "comparator \<Rightarrow> VersionEdit list \<Rightarrow> 'h VersionSet \<Rightarrow> 'h VersionSet option" where
  "apply_all c [] vs = Some vs"
| "apply_all c (edit # edits) vs = (case ApplyVersionEdit c edit vs of (status, vs) \<Rightarrow> if ok status then apply_all c edits vs else None)"

lemma apply_all_append: "apply_all c (edits @ edits') vs = Option.bind (apply_all c edits vs) (apply_all c edits')"
  by (induction edits arbitrary: vs) (auto split: prod.splits)

definition records :: "VersionEdit list \<Rightarrow> bytes list" where
  "records edits = map (\<lambda>edit. VE_EncodeTo edit []) edits"

lemma RecoverLoop_replays:
  assumes "sequential_file read remaining" "reader_at remaining off (emitted_all off (records edits)) r" "off \<le> log_kBlockSize"
    and "\<forall>edit \<in> set edits. edit_ok edit" "apply_all c edits vs = Some vs'"
  shows "RecoverLoop c read r vs = Some (OK, OK, vs')"
  using assms(2-)
proof (induction edits arbitrary: off r vs)
  case Nil
  then obtain r' where "ReadRecord read r = Some ((False, [], OK), r')"
    using sequential_file.ReadRecord_end [OF assms(1)] by (fastforce simp: records_def)
  with Nil show ?case by (simp add: RecoverLoop.simps [of c read r])
next
  case (Cons edit edits)
  let ?b = "VE_EncodeTo edit []"
  obtain r' where r': "ReadRecord read r = Some ((True, ?b, OK), r')"
      "reader_at remaining (offset_after off ?b) (emitted_all (offset_after off ?b) (records edits)) r'"
    using sequential_file.ReadRecord_emitted [OF assms(1), of off ?b _ r] Cons.prems(1,2) by (auto simp: records_def)
  obtain st vs1 where a: "ApplyVersionEdit c edit vs = (st, vs1)" by fastforce
  with Cons.prems(4) have st: "ok st" "apply_all c edits vs1 = Some vs'" by (auto split: if_splits)
  have d: "VE_DecodeFrom ?b = (OK, edit)" using Cons.prems(3) by (simp add: Decode_Encode)
  have "RecoverLoop c read r vs = RecoverLoop c read r' vs1"
    by (simp add: RecoverLoop.simps [of c read r] r'(1) d a st(1) Let_def)
  also have "\<dots> = Some (OK, OK, vs')"
    using Cons.IH [OF r'(2) _ _ st(2)] Cons.prems(3) by (simp add: offset_after_le)
  finally show ?case .
qed

section \<open>The edits in the MANIFEST\<close>

text \<open>The steps of \<open>LogAndApply\<close> when it returns OK.\<close>

lemma LogAndApply_steps:
  assumes "LogAndApply c env edit vs e = Some (status, vs', e')" "ok status"
  obtains st0 created vs0 e0 w st1 w1 e1 st2 w2 e2 st3 where
    "(if vs_descriptor vs = None then OpenManifest c env vs e else Some ((OK, False), vs, e)) = Some ((st0, created), vs0, e0)" "ok st0"
    "vs_descriptor vs0 = Some w" "LogAdd env (VE_EncodeTo (FillEdit c vs0 edit) []) w e0 = Some (st1, w1, e1)" "ok st1"
    "LogSync env w1 e1 = Some (st2, w2, e2)" "ok st2"
    "if created then SetCurrentFile env (vs_dbname vs0) (vs_manifest_file_number vs0) e2 = Some (st3, e') \<and> ok st3 else e' = e2"
    "ApplyVersionEdit c (FillEdit c vs0 edit) (vs0\<lparr>vs_descriptor := Some w2\<rparr>) = (status, vs')"
proof -
  have chk: "ok (CheckComparatorName c edit)" using assms by (auto simp: LogAndApply_def split: if_splits)
  then have "\<not> \<not> ok (CheckComparatorName c edit)" by simp
  note L = assms(1) [unfolded LogAndApply_def if_not_P [OF this] Let_def]
  obtain st0 created vs0 e0 where 0: "(if vs_descriptor vs = None then OpenManifest c env vs e else Some ((OK, False), vs, e)) = Some ((st0, created), vs0, e0)"
    using L by (elim bind_SomeE) auto
  have ok0: "ok st0" using L assms(2) by (auto simp: 0 split: if_splits prod.splits)
  obtain w where w: "vs_descriptor vs0 = Some w" using L by (cases "vs_descriptor vs0") (auto simp: 0 ok0 on_descriptor_def)
  obtain st1 w1 e1 where 1: "LogAdd env (VE_EncodeTo (FillEdit c vs0 edit) []) w e0 = Some (st1, w1, e1)"
    using L by (cases "LogAdd env (VE_EncodeTo (FillEdit c vs0 edit) []) w e0") (auto simp: 0 ok0 on_descriptor_def w)
  have ok1: "ok st1" using L assms(2) by (auto simp: 0 ok0 on_descriptor_def w 1 split: if_splits)
  obtain st2 w2 e2 where 2: "LogSync env w1 e1 = Some (st2, w2, e2)"
    using L by (cases "LogSync env w1 e1") (auto simp: 0 ok0 on_descriptor_def w 1 ok1)
  have ok2: "ok st2" using L assms(2) by (auto simp: 0 ok0 on_descriptor_def w 1 ok1 2 split: if_splits)
  obtain st3 e3 where 3: "(if created then SetCurrentFile env (vs_dbname vs0) (vs_manifest_file_number vs0) e2 else Some (st2, e2)) = Some (st3, e3)"
    using L by (cases "if created then SetCurrentFile env (vs_dbname vs0) (vs_manifest_file_number vs0) e2 else Some (st2, e2)")
      (auto simp: 0 ok0 on_descriptor_def w 1 ok1 2 ok2 split: if_splits)
  have ok3: "ok st3" using L assms(2) ok2 3 by (auto simp: 0 ok0 on_descriptor_def w 1 ok1 2 split: if_splits)
  have "ApplyVersionEdit c (FillEdit c vs0 edit) (vs0\<lparr>vs_descriptor := Some w2\<rparr>) = (status, vs') \<and> e' = e3"
    using L assms(2) ok3 3 ok2 by (auto simp: 0 ok0 on_descriptor_def w 1 ok1 2 split: if_splits prod.splits)
  with that [OF 0 ok0 w 1 ok1 2 ok2, of st3] 3 ok3 show thesis by (auto split: if_splits)
qed

lemma OpenManifest_steps:
  assumes "OpenManifest c env vs e = Some ((status, created), vs0, e0)" "ok status" "vs_descriptor vs = None" "vs_descriptor vs0 \<noteq> None"
  obtains vs1 h e1 w st where "created" "vs0 = vs1\<lparr>vs_descriptor := Some w\<rparr>"
    "vs1 = (if vs_manifest_file_number vs = 0 then vs\<lparr>vs_next_file_number := vs_next_file_number vs + 1,
        vs_manifest_file_number := vs_next_file_number vs\<rparr> else vs)"
    "ev_NewWritableFile env (DescriptorFileName (vs_dbname vs1) (vs_manifest_file_number vs1)) e = (Inr h, e1)"
    "LogAdd env (VE_EncodeTo (SnapshotEdit c vs1) []) (LogWriter_new h 0) e1 = Some (st, w, e0)" "ok st"
proof -
  define vs1 where "vs1 = (if vs_manifest_file_number vs = 0 then (case NewFileNumber vs of (n, vs) \<Rightarrow> vs\<lparr>vs_manifest_file_number := n\<rparr>) else vs)"
  have "vs1 = (if vs_manifest_file_number vs = 0 then vs\<lparr>vs_next_file_number := vs_next_file_number vs + 1,
        vs_manifest_file_number := vs_next_file_number vs\<rparr> else vs)"
    by (simp add: vs1_def NewFileNumber_def)
  moreover have "vs_descriptor vs1 = None" using assms(3) by (simp add: vs1_def NewFileNumber_def)
  moreover note assms(1) [unfolded OpenManifest_def Let_def, folded vs1_def]
  ultimately show thesis using assms(2,4) that
    by (auto simp: WriteSnapshot_def elim!: bind_SomeE split: sum.splits prod.splits)
qed

lemma edit_ok_fill:
  assumes "edit_ok edit" "length (Name (InternalKeyComparator c)) < 2 ^ 32"
  shows "edit_ok (FillEdit c vs edit)"
  using assms
  by (auto simp: FillEdit_def Let_def edit_ok_def edit_fields_def SetComparatorName_def SetLogNumber_def SetNextFile_def SetLastSequence_def)

lemma FillEdit_facts:
  assumes "\<not> ve_has_next_file_number edit"
  shows "ve_has_next_file_number (FillEdit c vs edit)" "ve_next_file_number (FillEdit c vs edit) = vs_next_file_number vs"
  using assms by (simp_all add: FillEdit_def Let_def SetComparatorName_def SetLogNumber_def SetNextFile_def SetLastSequence_def)

text \<open>
  The MANIFEST holds edits whose replay from \<open>vr0\<close> recovers the version set, and CURRENT names it; \<open>exact\<close>
  when no file number was taken since.
\<close>

definition manifest_holds ::
    "comparator \<Rightarrow> ('e \<Rightarrow> bytes \<Rightarrow> bytes option) \<Rightarrow> ('h \<Rightarrow> bytes) \<Rightarrow> ('h \<Rightarrow> 'e \<Rightarrow> bytes) \<Rightarrow> 'h VersionSet \<Rightarrow> bool \<Rightarrow> 'h VersionSet \<Rightarrow> 'e \<Rightarrow> bool" where
  "manifest_holds c files name held vr0 exact vs e \<longleftrightarrow>
     (\<exists>edits w vr. vs_descriptor vs = Some w \<and> name (dest w) = DescriptorFileName (vs_dbname vs) (vs_manifest_file_number vs)
        \<and> held (dest w) e = emitted_all 0 (records edits) \<and> files e (name (dest w)) = Some (emitted_all 0 (records edits))
        \<and> block_offset w = foldl offset_after 0 (records edits)
        \<and> files e (CurrentFileName (vs_dbname vs)) = Some (base_name (vs_dbname vs) (name (dest w)) @ [10])
        \<and> (\<forall>edit \<in> set edits. edit_ok edit) \<and> apply_all c edits vr0 = Some vr \<and> recovers vs vr
        \<and> (exact \<longrightarrow> vs_next_file_number vr = vs_next_file_number vs))"

lemma emitted_all_snoc: "emitted_all off (rs @ [r]) = emitted_all off rs @ emitted (foldl offset_after off rs) True r"
  by (induction rs arbitrary: off) simp_all

lemma names_apart: "DescriptorFileName db n \<noteq> CurrentFileName db" "DescriptorFileName db n \<noteq> TempFileName db m" "TempFileName db m \<noteq> CurrentFileName db"
  using ParseFileName_fixed(1) [of db] ParseFileName_Descriptor [of db n] ParseFileName_Mask(3) [of db m] by (metis FileType.distinct option.inject prod.inject)+

lemma Finalize_files: "v_files (Finalize v) = v_files v"
  by (simp add: Finalize_def Let_def split: prod.splits)

lemma foldl_keep: "foldl (\<lambda>x y. x) a xs = a"
  by (induction xs) simp_all

lemma SaveTo_empty: "SaveTo c (Builder_new i\<lparr>bd_deleted_files := ds\<rparr>) (Finalize Version_new) v = v"
proof -
  have "foldl (\<lambda>v level. SaveLoop c b level [] [] v) v ls = v" for b ls by (induction ls arbitrary: v) simp_all
  then show ?thesis by (simp add: SaveTo_def Finalize_files Version_new_def Builder_new_def sort_files_def)
qed

context file_system
begin

lemma manifest_holds_edit:
  assumes "manifest_holds c files name held vr0 exact vs e" "LogAndApply c env edit vs e = Some (status, vs', e')" "ok status"
    and "edit_ok edit" "\<not> ve_has_next_file_number edit" "length (Name (InternalKeyComparator c)) < 2 ^ 32"
  shows "manifest_holds c files name held vr0 True vs' e' \<and> vs_dbname vs' = vs_dbname vs"
proof -
  let ?m = "DescriptorFileName (vs_dbname vs) (vs_manifest_file_number vs)"
  obtain edits w vr where M: "vs_descriptor vs = Some w" "name (dest w) = ?m" "held (dest w) e = emitted_all 0 (records edits)"
      "files e ?m = Some (emitted_all 0 (records edits))" "block_offset w = foldl offset_after 0 (records edits)"
      "files e (CurrentFileName (vs_dbname vs)) = Some (base_name (vs_dbname vs) ?m @ [10])"
    and R: "\<forall>edit \<in> set edits. edit_ok edit" "apply_all c edits vr0 = Some vr" "recovers vs vr"
    using assms(1) unfolding manifest_holds_def by auto
  let ?edit = "FillEdit c vs edit"
  obtain st1 w1 e1 st2 w2 where L: "LogAdd env (VE_EncodeTo ?edit []) w e = Some (st1, w1, e1)" "ok st1"
      "LogSync env w1 e1 = Some (st2, w2, e')" "ok st2"
    and A: "ApplyVersionEdit c ?edit (vs\<lparr>vs_descriptor := Some w2\<rparr>) = (status, vs')"
    by (rule LogAndApply_steps [OF assms(2,3)]) (auto simp: M(1))
  note E = LogAdd_effect [OF L(1)] LogSync_effect [OF L(3)]
  have "recovers (vs\<lparr>vs_descriptor := Some w2\<rparr>) vr" using R(3) by (simp add: recovers_def versions_ok_def current_version_def vs_node_def)
  from recovers_edit [OF this A assms(3) FillEdit_facts(1) [OF assms(5)]] FillEdit_facts(2) [OF assms(5), of c vs] obtain vr' where
    r: "ApplyVersionEdit c ?edit vr = (OK, vr')" "recovers vs' vr'" "vs_next_file_number vr' = vs_next_file_number vs'" by auto
  have n: "vs_dbname vs' = vs_dbname vs" "vs_manifest_file_number vs' = vs_manifest_file_number vs" "vs_descriptor vs' = Some w2"
    using ApplyVersionEdit_effect(5) [OF _ A assms(3)] R(3) by (simp_all add: recovers_def versions_ok_def numbers_def)
  have ok: "ok OK" by (simp add: ok_def OK_def)
  let ?edits = "edits @ [?edit]"
  have "name (dest w2) = ?m \<and> held (dest w2) e' = emitted_all 0 (records ?edits) \<and> files e' ?m = Some (emitted_all 0 (records ?edits))
      \<and> block_offset w2 = foldl offset_after 0 (records ?edits)
      \<and> files e' (CurrentFileName (vs_dbname vs)) = Some (base_name (vs_dbname vs) ?m @ [10])"
    using E L(2,4) M names_apart(1) [of "vs_dbname vs" "vs_manifest_file_number vs"]
    by (auto simp: records_def emitted_all_snoc frame_def)
  moreover have "apply_all c ?edits vr0 = Some vr'" using R(2) r(1) ok by (simp add: apply_all_append)
  moreover have "\<forall>edit \<in> set ?edits. edit_ok edit" using R(1) edit_ok_fill [OF assms(4,6)] by simp
  ultimately show ?thesis unfolding manifest_holds_def using n r(2,3)
    by (intro conjI [OF _ n(1)] exI [of _ ?edits] exI [of _ w2] exI [of _ vr']) simp
qed

lemma manifest_holds_first:
  assumes "recovers vs vr0" "LogAndApply c env edit vs e = Some (status, vs', e')" "ok status"
    and "edit_ok edit" "\<not> ve_has_next_file_number edit" "length (Name (InternalKeyComparator c)) < 2 ^ 32"
    and "current_version vs = Finalize Version_new" "vs_last_sequence vs = 0" "vs_compact_pointer vs = (\<lambda>_. [])"
    and "vs_descriptor vs = None" "vs_manifest_file_number vs = 0" "vs_next_file_number vs \<le> vs_next_file_number vs + 1"
  shows "manifest_holds c files name held vr0 True vs' e' \<and> vs_dbname vs' = vs_dbname vs"
proof -
  obtain st0 created vs0 e0 w st1 w1 e1 st2 w2 e2 st3 where
    O: "OpenManifest c env vs e = Some ((st0, created), vs0, e0)" "ok st0" "vs_descriptor vs0 = Some w"
    and L: "LogAdd env (VE_EncodeTo (FillEdit c vs0 edit) []) w e0 = Some (st1, w1, e1)" "ok st1"
      "LogSync env w1 e1 = Some (st2, w2, e2)" "ok st2"
    and C: "if created then SetCurrentFile env (vs_dbname vs0) (vs_manifest_file_number vs0) e2 = Some (st3, e') \<and> ok st3 else e' = e2"
    and A: "ApplyVersionEdit c (FillEdit c vs0 edit) (vs0\<lparr>vs_descriptor := Some w2\<rparr>) = (status, vs')"
    by (rule LogAndApply_steps [OF assms(2,3)]) (simp add: assms(10))
  have d0: "vs_descriptor vs0 \<noteq> None" using O(3) by simp
  obtain vs1 h eh w0 st where cr: "created" and vs0: "vs0 = vs1\<lparr>vs_descriptor := Some w0\<rparr>"
    and vs1: "vs1 = vs\<lparr>vs_next_file_number := vs_next_file_number vs + 1, vs_manifest_file_number := vs_next_file_number vs\<rparr>"
    and N: "ev_NewWritableFile env (DescriptorFileName (vs_dbname vs1) (vs_manifest_file_number vs1)) e = (Inr h, eh)"
    and S: "LogAdd env (VE_EncodeTo (SnapshotEdit c vs1) []) (LogWriter_new h 0) eh = Some (st, w0, e0)" "ok st"
    by (rule OpenManifest_steps [OF O(1,2) assms(10) d0]) (use assms(11) in auto)
  have w: "w0 = w" using O(3) vs0 by simp
  let ?m = "DescriptorFileName (vs_dbname vs) (vs_next_file_number vs)" and ?snap = "SnapshotEdit c vs1" and ?edit = "FillEdit c vs0 edit"
  let ?edits = "[?snap, ?edit]"
  have cv: "current_version vs1 = Finalize Version_new" using assms(7) by (simp add: vs1 current_version_def vs_node_def)
  have snap: "?snap = SetLastSequence (SetComparatorName VE_Clear (Name (InternalKeyComparator c))) 0"
    using assms(8,9) cv by (simp add: SnapshotEdit_def vs1 Let_def levels_def Finalize_files foldl_keep) (simp add: Version_new_def foldl_keep)
  have ok: "ok OK" by (simp add: ok_def OK_def)
  have "edit_ok ?snap"
    using assms(6) by (simp add: snap edit_ok_def edit_fields_def SetLastSequence_def SetComparatorName_def VE_Clear_def)
  then have ok_edits: "\<forall>edit \<in> set ?edits. edit_ok edit" using edit_ok_fill [OF assms(4,6)] by simp
  have vr0: "versions_ok vs" "versions_ok vr0" using assms(1) by (simp_all add: recovers_def)
  obtain vr1 where r1: "ApplyVersionEdit c ?snap vr0 = (OK, vr1)"
    using ApplyVersionEdit_ok [of c ?snap vr0]
    by (auto simp: snap CheckComparatorName_def SetLastSequence_def SetComparatorName_def ok)
  note E1 = ApplyVersionEdit_effect [OF vr0(2) r1 ok]
  have "edited_version c ?snap (Finalize Version_new) = Finalize Version_new"
    by (simp add: snap edited_version_def edit_builder_def SetLastSequence_def SetComparatorName_def VE_Clear_def SaveTo_empty)
  then have c1: "current_version vr1 = current_version vs" using E1(4) assms(1,7) by (simp add: recovers_def)
  have n1: "vs_next_file_number vr1 = vs_next_file_number vr0" "vs_log_number vr1 = vs_log_number vr0" "vs_last_sequence vr1 = vs_last_sequence vr0"
      "vs_compact_pointer vr1 = vs_compact_pointer vr0"
    using E1(5) unfolding snap
    by (simp_all add: numbers_def SetLastSequence_def SetComparatorName_def VE_Clear_def edited_next_file_def edited_last_sequence_def edited_pointers_def)
  have "recovers vs vr1" using assms(1) E1(3) c1 n1 by (simp add: recovers_def)
  then have "recovers (vs0\<lparr>vs_descriptor := Some w2\<rparr>) vr1"
    using assms(12) by (auto simp: recovers_def vs0 vs1 versions_ok_def current_version_def vs_node_def)
  from recovers_edit [OF this A assms(3) FillEdit_facts(1) [OF assms(5)]] FillEdit_facts(2) [OF assms(5), of c vs0] obtain vr' where
    r: "ApplyVersionEdit c ?edit vr1 = (OK, vr')" "recovers vs' vr'" "vs_next_file_number vr' = vs_next_file_number vs'" by auto
  have "versions_ok (vs0\<lparr>vs_descriptor := Some w2\<rparr>)" using vr0(1) by (simp add: vs0 vs1 versions_ok_def)
  then have n: "vs_dbname vs' = vs_dbname vs" "vs_manifest_file_number vs' = vs_next_file_number vs" "vs_descriptor vs' = Some w2"
    using ApplyVersionEdit_effect(5) [OF _ A assms(3)] by (simp_all add: numbers_def vs0 vs1)
  have F1: "name h = ?m" "held h eh = []" "files eh ?m = Some []" using new_writable [OF N] by (simp_all add: vs1)
  note F2 = LogAdd_effect [OF S(1)]
  have G: "name (dest w) = ?m" "held (dest w) e0 = emitted 0 True (VE_EncodeTo ?snap [])" "block_offset w = offset_after 0 (VE_EncodeTo ?snap [])"
      "files e0 ?m \<noteq> None"
    using F1 F2 S(2) by (simp_all add: w LogWriter_new_def)
  note F3 = LogAdd_effect [OF L(1)] LogSync_effect [OF L(3)]
  have H: "name (dest w2) = ?m" "held (dest w2) e2 = emitted_all 0 (records ?edits)" "files e2 ?m = Some (emitted_all 0 (records ?edits))"
      "block_offset w2 = foldl offset_after 0 (records ?edits)"
    using F3 G L(2,4) by (auto simp: records_def)
  have "SetCurrentFile env (vs_dbname vs) (vs_next_file_number vs) e2 = Some (st3, e')" "ok st3"
    using C cr by (simp_all add: vs0 vs1)
  note cf = SetCurrentFile_effect [OF this(1) names_apart(3)] this(2)
  have "held (dest w2) e' = held (dest w2) e2" "files e' ?m = files e2 ?m" "files e' (CurrentFileName (vs_dbname vs)) = Some (base_name (vs_dbname vs) ?m @ [10])"
    using cf H(1) names_apart(1,2) [of "vs_dbname vs" "vs_next_file_number vs"] by (simp_all add: frame_def base_name_def)
  moreover have "apply_all c ?edits vr0 = Some vr'" using r1 r(1) ok by simp
  ultimately show ?thesis unfolding manifest_holds_def using n r(2,3) H ok_edits
    by (intro conjI [OF _ n(1)] exI [of _ ?edits] exI [of _ w2] exI [of _ vr']) simp
qed

text \<open>Recovery reads CURRENT and replays the MANIFEST that it names.\<close>

lemma manifest_recovered:
  assumes "manifest_holds c files name held (ResetVersions vs2) exact vs e" "vs_dbname vs2 = vs_dbname vs"
    and "files e2 (CurrentFileName (vs_dbname vs)) = files e (CurrentFileName (vs_dbname vs))"
    and "files e2 (DescriptorFileName (vs_dbname vs) (vs_manifest_file_number vs)) = files e (DescriptorFileName (vs_dbname vs) (vs_manifest_file_number vs))"
  shows "\<exists>vr. Recover c env vs2 e2 = Some (OK, vr, e2) \<and> recovers vs vr \<and> vs_manifest_file_number vr = vs_manifest_file_number vs
    \<and> (exact \<longrightarrow> vs_next_file_number vr = vs_next_file_number vs)"
proof -
  let ?m = "DescriptorFileName (vs_dbname vs) (vs_manifest_file_number vs)"
  obtain edits vr where M: "files e ?m = Some (emitted_all 0 (records edits))"
      "files e (CurrentFileName (vs_dbname vs)) = Some (base_name (vs_dbname vs) ?m @ [10])"
    and R: "\<forall>edit \<in> set edits. edit_ok edit" "apply_all c edits (ResetVersions vs2) = Some vr" "recovers vs vr"
      "exact \<longrightarrow> vs_next_file_number vr = vs_next_file_number vs"
    using assms(1) unfolding manifest_holds_def by auto
  have cur: "ReadFileToString env (CurrentFileName (vs_dbname vs)) e2 = Some (OK, base_name (vs_dbname vs) ?m @ [10], e2)"
    using ReadFileToString_ok M(2) assms(2,3) by simp
  have b: "base_name (vs_dbname vs) ?m \<noteq> []" "vs_dbname vs @ lit ''/'' @ base_name (vs_dbname vs) ?m = ?m"
    by (simp_all add: base_name_def DescriptorFileName_def lit_def)
  obtain sf where sf: "ev_NewSequentialFile env ?m e2 = (Inr sf, e2)" "remaining sf = emitted_all 0 (records edits)"
    using sequential [of e2 ?m] M(1) assms(4) by auto
  have "reader_at remaining 0 (emitted_all 0 (records edits)) (LogReader_new sf True)"
    using sequential_file.reader_at_new [OF reads, of sf True] sf(2) by simp
  from RecoverLoop_replays [OF reads this _ R(1,2)]
  have "RecoverLoop c (ev_read env) (LogReader_new sf True) (ResetVersions vs2) = Some (OK, OK, vr)" by simp
  then have "Recover c env vs2 e2 = Some (OK, vr\<lparr>vs_manifest_file_number := vs_manifest_file_number vs\<rparr>, e2)"
    using b sf(1) by (simp add: Recover_def assms(2) cur ParseFileName_Descriptor Let_def)
  moreover have "recovers vs (vr\<lparr>vs_manifest_file_number := vs_manifest_file_number vs\<rparr>)"
    using R(3) by (simp add: recovers_def versions_ok_def current_version_def vs_node_def)
  ultimately show ?thesis using R(4) by (intro exI [of _ "vr\<lparr>vs_manifest_file_number := vs_manifest_file_number vs\<rparr>"]) simp
qed

end

section \<open>Runs of edits\<close>

abbreviation take_numbers :: "nat \<Rightarrow> 'h VersionSet \<Rightarrow> 'h VersionSet" where
  "take_numbers k vs \<equiv> ((\<lambda>vs. snd (NewFileNumber vs)) ^^ k) vs"

text \<open>Before each edit some file numbers are taken; \<open>None\<close> when an edit fails or the numbers wrap around.\<close>

fun log_edits :: "comparator \<Rightarrow> ('h, 's, 'e) env_ops \<Rightarrow> (nat \<times> VersionEdit) list \<Rightarrow> 'h VersionSet \<Rightarrow> 'e \<Rightarrow> ('h VersionSet \<times> 'e) option" where
  "log_edits c env [] vs e = Some (vs, e)"
| "log_edits c env ((k, edit) # edits) vs e =
     (if unat (vs_next_file_number vs) + k + 1 < 2 ^ 64
      then do { (status, vs, e) \<leftarrow> LogAndApply c env edit (take_numbers k vs) e; if ok status then log_edits c env edits vs e else None }
      else None)"

lemma take_numbers_eq: "take_numbers k vs = vs\<lparr>vs_next_file_number := vs_next_file_number vs + of_nat k\<rparr>"
  by (induction k) (simp_all add: NewFileNumber_def ac_simps)

lemma take_numbers_facts: "versions_ok (take_numbers k vs) = versions_ok vs" "current_version (take_numbers k vs) = current_version vs"
    "vs_dbname (take_numbers k vs) = vs_dbname vs" "vs_log_number (take_numbers k vs) = vs_log_number vs"
    "vs_last_sequence (take_numbers k vs) = vs_last_sequence vs" "vs_compact_pointer (take_numbers k vs) = vs_compact_pointer vs"
    "vs_descriptor (take_numbers k vs) = vs_descriptor vs" "vs_manifest_file_number (take_numbers k vs) = vs_manifest_file_number vs"
    "vs_next_file_number (take_numbers k vs) = vs_next_file_number vs + of_nat k"
  by (simp_all add: take_numbers_eq versions_ok_def current_version_def vs_node_def)

lemma next_file_le:
  assumes "unat (n :: u64) + k + 1 < 2 ^ 64"
  shows "n \<le> n + of_nat k" "n + of_nat k \<le> n + of_nat k + 1"
  using assms by (simp_all add: word_le_nat_alt unat_word_ariths unat_of_nat)

lemma manifest_holds_take:
  assumes "manifest_holds c files name held vr0 exact vs e" "unat (vs_next_file_number vs) + k + 1 < 2 ^ 64"
  shows "manifest_holds c files name held vr0 False (take_numbers k vs) e"
proof -
  have "recovers (take_numbers k vs) vr" if "recovers vs vr" for vr
    using that next_file_le(1) [OF assms(2)] by (auto simp: recovers_def take_numbers_facts)
  with assms(1) show ?thesis by (auto simp: manifest_holds_def take_numbers_eq)
qed

lemma log_edits_holds:
  assumes "file_system env files name held remaining" "length (Name (InternalKeyComparator c)) < 2 ^ 32"
    and "\<forall>(k, edit) \<in> set edits. edit_ok edit \<and> \<not> ve_has_next_file_number edit"
    and "manifest_holds c files name held vr0 True vs e" "log_edits c env edits vs e = Some (vs', e')"
  shows "manifest_holds c files name held vr0 True vs' e' \<and> vs_dbname vs' = vs_dbname vs"
  using assms(3-)
proof (induction edits arbitrary: vs e)
  case (Cons x edits)
  obtain k edit where x: "x = (k, edit)" by fastforce
  with Cons.prems(3) obtain status vs1 e1 where L: "unat (vs_next_file_number vs) + k + 1 < 2 ^ 64"
      "LogAndApply c env edit (take_numbers k vs) e = Some (status, vs1, e1)" "ok status" "log_edits c env edits vs1 e1 = Some (vs', e')"
    by (auto elim!: bind_SomeE split: if_splits)
  have "manifest_holds c files name held vr0 True vs1 e1 \<and> vs_dbname vs1 = vs_dbname (take_numbers k vs)"
    by (rule file_system.manifest_holds_edit [OF assms(1) manifest_holds_take [OF Cons.prems(2) L(1)] L(2,3) _ _ assms(2)])
      (use Cons.prems(1) x in auto)
  then show ?case using Cons.IH [OF _ _ L(4)] Cons.prems(1) by (simp add: take_numbers_eq)
qed simp

lemma VersionSet_new_facts:
  "versions_ok (VersionSet_new db options)" "current_version (VersionSet_new db options) = Finalize Version_new"
  "vs_dbname (VersionSet_new db options) = db" "vs_next_file_number (VersionSet_new db options) = 2"
  "vs_log_number (VersionSet_new db options) = 0" "vs_last_sequence (VersionSet_new db options) = 0"
  "vs_manifest_file_number (VersionSet_new db options) = 0" "vs_descriptor (VersionSet_new db options) = None"
  "vs_compact_pointer (VersionSet_new db options) = (\<lambda>_. [])"
  by (simp_all add: VersionSet_new_def AppendVersion_def VS_Finalize_current_def vs_set_def vs_node_def versions_ok_def current_version_def numbers_def Let_def)

lemma ResetVersions_facts:
  "versions_ok (ResetVersions vs)" "current_version (ResetVersions vs) = Finalize Version_new"
  "vs_next_file_number (ResetVersions vs) = 2" "vs_log_number (ResetVersions vs) = 0" "vs_last_sequence (ResetVersions vs) = 0"
  "vs_compact_pointer vs = (\<lambda>_. []) \<Longrightarrow> vs_compact_pointer (ResetVersions vs) = (\<lambda>_. [])"
  by (auto simp: ResetVersions_def AppendVersion_def VS_Finalize_current_def vs_set_def vs_node_def versions_ok_def current_version_def Let_def)

text \<open>From a new version set: what a later recovery returns.\<close>

lemma logged_edits_recovered:
  fixes env :: "('h, 's, 'e) env_ops"
  assumes fs: "file_system env files name held remaining" and c: "length (Name (InternalKeyComparator c)) < 2 ^ 32"
    and edits: "\<forall>(k, edit) \<in> set edits. edit_ok edit \<and> \<not> ve_has_next_file_number edit" "edits \<noteq> []"
    and run: "log_edits c env edits (VersionSet_new db options) e = Some (vs, e1)"
    and e2: "files e2 (CurrentFileName db) = files e1 (CurrentFileName db)"
      "files e2 (DescriptorFileName db (vs_manifest_file_number vs)) = files e1 (DescriptorFileName db (vs_manifest_file_number vs))"
  shows "\<exists>vr. Recover c env (VersionSet_new db options') e2 = Some (OK, vr, e2) \<and> recovers vs vr
    \<and> vs_manifest_file_number vr = vs_manifest_file_number vs \<and> vs_next_file_number vr = vs_next_file_number vs"
proof -
  let ?vs = "VersionSet_new db options :: 'h VersionSet" and ?vr0 = "ResetVersions (VersionSet_new db options') :: 'h VersionSet"
  obtain k edit rest where x: "edits = (k, edit) # rest" using edits(2) by (metis neq_Nil_conv surj_pair)
  obtain status vs1 e3 where L: "unat (vs_next_file_number ?vs) + k + 1 < 2 ^ 64"
      "LogAndApply c env edit (take_numbers k ?vs) e = Some (status, vs1, e3)" "ok status" "log_edits c env rest vs1 e3 = Some (vs, e1)"
    using run x by (auto elim!: bind_SomeE split: if_splits)
  have "recovers (take_numbers k ?vs) ?vr0"
    using VersionSet_new_facts(1) ResetVersions_facts(1) [of "VersionSet_new db options' :: 'h VersionSet"] next_file_le(1) [OF L(1)]
    by (simp add: recovers_def VersionSet_new_facts ResetVersions_facts take_numbers_facts)
  from file_system.manifest_holds_first [OF fs this L(2,3) _ _ c] edits(1) x next_file_le(2) [OF L(1)]
  have "manifest_holds c files name held ?vr0 True vs1 e3 \<and> vs_dbname vs1 = db"
    by (simp add: take_numbers_facts VersionSet_new_facts)
  with log_edits_holds [OF fs c _ _ L(4)] edits(1) x
  have M: "manifest_holds c files name held ?vr0 True vs e1" "vs_dbname vs = db" by auto
  have "vs_dbname (VersionSet_new db options' :: 'h VersionSet) = vs_dbname vs"
    using M(2) by (simp add: VersionSet_new_facts)
  from file_system.manifest_recovered [OF fs M(1) this] e2 M(2) show ?thesis by auto
qed

lemma LogAndApply_next_file:
  assumes "versions_ok vs" "LogAndApply c env edit vs e = Some (status, vs', e')" "ok status" "\<not> ve_has_next_file_number edit"
  shows "\<exists>n \<in> {vs_next_file_number vs, vs_next_file_number vs + 1}.
    vs_next_file_number vs' = foldl (\<lambda>next (level, file). mark_used next (fm_number file)) n (ve_new_files edit)"
proof -
  obtain st0 created vs0 e0 w w2 where
    O: "(if vs_descriptor vs = None then OpenManifest c env vs e else Some ((OK, False), vs, e)) = Some ((st0, created), vs0, e0)" "ok st0"
      "vs_descriptor vs0 = Some w"
    and A: "ApplyVersionEdit c (FillEdit c vs0 edit) (vs0\<lparr>vs_descriptor := Some w2\<rparr>) = (status, vs')"
    by (rule LogAndApply_steps [OF assms(2,3)]) blast
  have "versions_ok vs0 \<and> vs_next_file_number vs0 \<in> {vs_next_file_number vs, vs_next_file_number vs + 1}"
  proof (cases "vs_descriptor vs")
    case None
    then have o: "OpenManifest c env vs e = Some ((st0, created), vs0, e0)" using O(1) by simp
    have "vs_descriptor vs0 \<noteq> None" using O(3) by simp
    then show ?thesis by (rule OpenManifest_steps [OF o O(2) None]) (use assms(1) in \<open>auto simp: versions_ok_def\<close>)
  qed (use O(1) assms(1) in auto)
  moreover from this have "versions_ok (vs0\<lparr>vs_descriptor := Some w2\<rparr>)" by (simp add: versions_ok_def)
  note ApplyVersionEdit_effect(5) [OF this A assms(3)]
  moreover have "ve_new_files (FillEdit c vs0 edit) = ve_new_files edit"
    by (simp add: FillEdit_def Let_def SetComparatorName_def SetLogNumber_def SetNextFile_def SetLastSequence_def)
  ultimately show ?thesis using FillEdit_facts [OF assms(4), of c vs0] by (auto simp: numbers_def edited_next_file_def)
qed

section \<open>A device with room\<close>

lemma ample_SetCurrentFile: "\<exists>e'. SetCurrentFile ample_env db n e = Some (OK, e')"
  by (simp add: SetCurrentFile_def WriteStringToFileSync_def WriteToFile_def DoWriteStringToFile_def ample_env_def mem_env_def put_file_def
      update_conv' Let_def)

lemma ample_LogAdd: "\<exists>w' e'. LogAdd ample_env data w e = Some (OK, w', e')"
  by (rule LogAdd_succeeds [OF ample.reliable_file_axioms])

lemma ample_LogSync: "\<exists>w' e'. LogSync ample_env w e = Some (OK, w', e')"
  by (simp add: LogSync_def ample_env_def)

lemma ample_LogAndApply:
  assumes "ok (CheckComparatorName c edit)"
  shows "\<exists>vs' e'. LogAndApply c ample_env edit vs e = Some (OK, vs', e')"
proof -
  have ok: "ok OK" by (simp add: ok_def OK_def)
  have chk: "ok (CheckComparatorName c (FillEdit c vs0 edit))" for vs0
    using assms ok by (auto simp: FillEdit_def Let_def CheckComparatorName_def InvalidArgument_def NewStatus_def ok_def SetComparatorName_def SetLogNumber_def SetNextFile_def SetLastSequence_def split: if_splits)
  have tail: "\<exists>vs' e'. (do {
        (status, vs, e) \<leftarrow> on_descriptor (LogAdd ample_env (VE_EncodeTo (FillEdit c vs0 edit) [])) vs0 e0;
        (status, vs, e) \<leftarrow> (if ok status then on_descriptor (LogSync ample_env) vs e else Some (status, vs, e));
        (status, e) \<leftarrow> (if ok status \<and> created then SetCurrentFile ample_env (vs_dbname vs) (vs_manifest_file_number vs) e else Some (status, e));
        let (status, vs) = (if ok status then ApplyVersionEdit c (FillEdit c vs0 edit) vs else (status, vs));
        Some (if \<not> ok status \<and> created
              then (status, vs\<lparr>vs_descriptor := None\<rparr>,
                    snd (ev_RemoveFile ample_env (DescriptorFileName (vs_dbname vs) (vs_manifest_file_number vs))
                      (case vs_descriptor vs of None \<Rightarrow> e | Some writer \<Rightarrow> ev_Delete ample_env (dest writer) e)))
              else (status, vs, e)) }) = Some (OK, vs', e')"
    if "vs_descriptor vs0 = Some w" for vs0 w e0 created
  proof -
    obtain w1 e1 where 1: "LogAdd ample_env (VE_EncodeTo (FillEdit c vs0 edit) []) w e0 = Some (OK, w1, e1)" using ample_LogAdd by blast
    obtain w2 e2 where 2: "LogSync ample_env w1 e1 = Some (OK, w2, e2)" using ample_LogSync by blast
    obtain e3 where 3: "SetCurrentFile ample_env (vs_dbname vs0) (vs_manifest_file_number vs0) e2 = Some (OK, e3)"
      using ample_SetCurrentFile by blast
    obtain vs' where 4: "ApplyVersionEdit c (FillEdit c vs0 edit) (vs0\<lparr>vs_descriptor := Some w2\<rparr>) = (OK, vs')"
      using ApplyVersionEdit_ok [OF chk] by blast
    show ?thesis by (cases created) (simp_all add: on_descriptor_def that 1 2 3 4 ok Let_def)
  qed
  show ?thesis
  proof (cases "vs_descriptor vs")
    case (Some w)
    from tail [OF this, of e False] Some show ?thesis by (simp add: LogAndApply_def assms ok Let_def cong: if_cong)
  next
    case None
    define vs1 where "vs1 = (if vs_manifest_file_number vs = 0 then (case NewFileNumber vs of (n, vs) \<Rightarrow> vs\<lparr>vs_manifest_file_number := n\<rparr>) else vs)"
    obtain h e1 where N: "ev_NewWritableFile ample_env (DescriptorFileName (vs_dbname vs1) (vs_manifest_file_number vs1)) e = (Inr h, e1)"
      by (simp add: ample_env_def)
    obtain w e2 where S: "LogAdd ample_env (VE_EncodeTo (SnapshotEdit c vs1) []) (LogWriter_new h 0) e1 = Some (OK, w, e2)" using ample_LogAdd by blast
    have O: "OpenManifest c ample_env vs e = Some ((OK, True), vs1\<lparr>vs_descriptor := Some w\<rparr>, e2)"
      unfolding OpenManifest_def Let_def vs1_def [symmetric] by (simp add: N S WriteSnapshot_def ok)
    from tail [of "vs1\<lparr>vs_descriptor := Some w\<rparr>" w e2 True] None show ?thesis by (simp add: LogAndApply_def assms O ok Let_def cong: if_cong)
  qed
qed

end
