(* ===== verification/Builders.thy ===== *)
theory Builders
  imports Manifests
begin

text \<open>
  The builder of a version (db/version_set.cc): merging the sorted files of the base with the sorted new
  files keeps every level sorted and its file numbers distinct, and leaves out exactly the deleted files.
\<close>

section \<open>Merging\<close>

fun merge_files :: "comparator \<Rightarrow> FileMetaData list \<Rightarrow> FileMetaData list \<Rightarrow> FileMetaData list" where
  "merge_files c [] gs = gs"
| "merge_files c fs [] = fs"
| "merge_files c (f # fs) (g # gs) =
     (if InternalKey_Compare c (fm_smallest f) (fm_smallest g) < 0 then f # merge_files c fs (g # gs) else g # merge_files c (f # fs) gs)"

lemma merge_files_Nil [simp]: "merge_files c fs [] = fs"
  by (cases fs) simp_all

lemma mset_merge_files: "mset (merge_files c fs gs) = mset fs + mset gs"
  by (induction c fs gs rule: merge_files.induct) auto

lemma set_merge_files: "set (merge_files c fs gs) = set fs \<union> set gs"
  by (metis mset_merge_files set_mset_mset set_mset_union)

lemma SaveLoop_merge: "SaveLoop c b level fs gs v = foldl (\<lambda>v f. MaybeAddFile b level f v) v (merge_files c fs gs)"
  by (induction c b level fs gs v rule: SaveLoop.induct) simp_all

lemma mset_insert_file: "mset (insert_file c f fs) = mset (f # fs)"
  by (induction c f fs rule: insert_file.induct) auto

lemma mset_sort_files: "mset (sort_files c fs) = mset fs"
  unfolding sort_files_def by (induction fs) (simp_all add: mset_insert_file)

lemma set_sort_files: "set (sort_files c fs) = set fs"
  by (metis mset_sort_files set_mset_mset)

abbreviation key_sorted :: "comparator \<Rightarrow> FileMetaData list \<Rightarrow> bool" where
  "key_sorted c \<equiv> sorted_wrt (\<lambda>f g. InternalKey_Compare c (fm_smallest f) (fm_smallest g) \<le> 0)"

context user_comparator
begin

lemma not_less_le: "\<not> InternalKey_Compare c a b < 0 \<longleftrightarrow> InternalKey_Compare c b a \<le> 0"
  using InternalKey_Compare_anti [of a b] by linarith

lemma insert_file_sorted: "key_sorted c fs \<Longrightarrow> key_sorted c (insert_file c f fs)"
proof (induction fs)
  case (Cons g fs)
  have set: "set (insert_file c f fs) = insert f (set fs)" by (metis mset_insert_file set_mset_mset set_simps(2))
  show ?case
  proof (cases "InternalKey_Compare c (fm_smallest g) (fm_smallest f) < 0")
    case True
    with Cons set show ?thesis by auto
  next
    case False
    then have "InternalKey_Compare c (fm_smallest f) (fm_smallest g) \<le> 0" by (simp add: not_less_le)
    with False Cons.prems show ?thesis using InternalKey_order_trans by fastforce
  qed
qed simp

lemma sort_files_sorted: "key_sorted c (sort_files c fs)"
  unfolding sort_files_def by (induction fs) (simp_all add: insert_file_sorted)

end

lemma merge_files_sorted: "user_comparator c \<Longrightarrow> key_sorted c fs \<Longrightarrow> key_sorted c gs \<Longrightarrow> key_sorted c (merge_files c fs gs)"
proof (induction c fs gs rule: merge_files.induct)
  case (3 c f fs g gs)
  note tr = user_comparator.InternalKey_order_trans [OF 3(3)]
  show ?case
  proof (cases "InternalKey_Compare c (fm_smallest f) (fm_smallest g) < 0")
    case True
    then have le: "InternalKey_Compare c (fm_smallest f) (fm_smallest g) \<le> 0" by simp
    have "InternalKey_Compare c (fm_smallest f) (fm_smallest x) \<le> 0" if "x \<in> set fs \<union> insert g (set gs)" for x
      using that le 3(4,5) tr [OF le, of "fm_smallest x"] by auto
    with True 3 show ?thesis by (simp add: set_merge_files)
  next
    case False
    then have le: "InternalKey_Compare c (fm_smallest g) (fm_smallest f) \<le> 0" by (simp add: user_comparator.not_less_le [OF 3(3)])
    have "InternalKey_Compare c (fm_smallest g) (fm_smallest x) \<le> 0" if "x \<in> insert f (set fs) \<union> set gs" for x
      using that le 3(4,5) tr [OF le, of "fm_smallest x"] by auto
    with False 3 show ?thesis by (simp add: set_merge_files)
  qed
qed simp_all

section \<open>Adding files to a level\<close>

definition add_unique :: "FileMetaData list \<Rightarrow> FileMetaData \<Rightarrow> FileMetaData list" where
  "add_unique fs f = filter (\<lambda>g. fm_number g \<noteq> fm_number f) fs @ [f]"

lemma Version_AddFile_files: "v_files (Version_AddFile v level f) = (v_files v)(level := add_unique (v_files v level) f)"
  by (simp add: Version_AddFile_def Version_RemoveFile_def add_unique_def Let_def)

lemma add_unique_facts:
  "distinct (map fm_number fs) \<Longrightarrow> distinct (map fm_number (add_unique fs f))"
  "set (add_unique fs f) \<subseteq> insert f (set fs)"
  "sorted_wrt P (fs @ f # gs) \<Longrightarrow> sorted_wrt P (add_unique fs f @ gs)"
  "distinct (map fm_number (fs @ f # gs)) \<Longrightarrow> add_unique fs f = fs @ [f]"
  by (auto simp: add_unique_def distinct_map_filter sorted_wrt_append sorted_wrt_filter intro!: filter_True) (metis imageI)

lemma add_uniques:
  "distinct (map fm_number fs) \<Longrightarrow> distinct (map fm_number (foldl add_unique fs gs))"
  "set (foldl add_unique fs gs) \<subseteq> set fs \<union> set gs"
  "sorted_wrt P (fs @ gs) \<Longrightarrow> sorted_wrt P (foldl add_unique fs gs)"
  "distinct (map fm_number (fs @ gs)) \<Longrightarrow> foldl add_unique fs gs = fs @ gs"
proof (induction gs arbitrary: fs)
  case (Cons g gs)
  { case 1 then show ?case using Cons.IH(1) add_unique_facts(1) by simp }
  { case 2 show ?case using Cons.IH(2) [of "add_unique fs g"] add_unique_facts(2) [of fs g] by auto }
  { case 3 then show ?case using Cons.IH(3) add_unique_facts(3) by simp }
  { case 4 then show ?case using Cons.IH(4) [of "fs @ [g]"] add_unique_facts(4) [of fs g gs] by simp }
qed simp_all

lemma MaybeAddFiles:
  "v_files (foldl (\<lambda>v f. MaybeAddFile b level f v) v fs)
    = (v_files v)(level := foldl add_unique (v_files v level) (filter (\<lambda>f. \<not> IsDeleted b level (fm_number f)) fs))"
  by (induction fs arbitrary: v) (simp_all add: MaybeAddFile_def Version_AddFile_files)

text \<open>The files of a level after an edit.\<close>

definition saved_level :: "comparator \<Rightarrow> Builder \<Rightarrow> Version \<Rightarrow> int \<Rightarrow> FileMetaData list" where
  "saved_level c b base level =
     filter (\<lambda>f. \<not> IsDeleted b level (fm_number f)) (merge_files c (v_files base level) (sort_files c (bd_added_files b level)))"

lemma SaveTo_files:
  "v_files (SaveTo c b base v) level = (if level \<in> set levels then foldl add_unique (v_files v level) (saved_level c b base level) else v_files v level)"
proof -
  have "v_files (foldl (\<lambda>v level. SaveLoop c b level (v_files base level) (sort_files c (bd_added_files b level)) v) v ls) level
      = (if level \<in> set ls then foldl add_unique (v_files v level) (saved_level c b base level) else v_files v level)"
    if "distinct ls" for ls
    using that by (induction ls arbitrary: v) (auto simp: SaveLoop_merge MaybeAddFiles saved_level_def)
  from this [of levels] show ?thesis by (simp add: SaveTo_def levels_def)
qed

text \<open>The builder of one edit.\<close>

lemma edit_builder_files:
  "set (bd_deleted_files (edit_builder i edit)) = set (ve_deleted_files edit) - (\<lambda>(l, f). (l, fm_number f)) ` set (ve_new_files edit)"
  "bd_added_files (edit_builder i edit) level
    = map (\<lambda>(l, f). f\<lparr>fm_allowed_seeks := allowed_seeks (fm_file_size f)\<rparr>) (filter (\<lambda>(l, f). l = level) (ve_new_files edit))"
proof -
  have d: "set (foldl (\<lambda>ds d. insort_insert d ds) ds es) = set ds \<union> set es" for ds es :: "(int \<times> u64) list"
    by (induction es arbitrary: ds) (auto simp: set_insort_insert)
  have "set (bd_deleted_files (foldl Builder_add b fs)) = set (bd_deleted_files b) - (\<lambda>(l, f). (l, fm_number f)) ` set fs" for b fs
    by (induction fs arbitrary: b) (auto simp: Builder_add_def Let_def)
  then show "set (bd_deleted_files (edit_builder i edit)) = set (ve_deleted_files edit) - (\<lambda>(l, f). (l, fm_number f)) ` set (ve_new_files edit)"
    by (simp add: edit_builder_def d)
  have "bd_added_files (foldl Builder_add b fs) level
      = bd_added_files b level @ map (\<lambda>(l, f). f\<lparr>fm_allowed_seeks := allowed_seeks (fm_file_size f)\<rparr>) (filter (\<lambda>(l, f). l = level) fs)" for b fs
    by (induction fs arbitrary: b) (auto simp: Builder_add_def Let_def)
  then show "bd_added_files (edit_builder i edit) level
    = map (\<lambda>(l, f). f\<lparr>fm_allowed_seeks := allowed_seeks (fm_file_size f)\<rparr>) (filter (\<lambda>(l, f). l = level) (ve_new_files edit))"
    by (simp add: edit_builder_def Builder_new_def)
qed

section \<open>Well-formed versions\<close>

definition version_typed :: "comparator \<Rightarrow> Version \<Rightarrow> bool" where
  "version_typed c v \<longleftrightarrow> (\<forall>level. key_sorted c (v_files v level) \<and> distinct (map fm_number (v_files v level))
     \<and> (\<forall>f \<in> set (v_files v level). level \<in> set levels \<and> key_ok (fm_smallest f) \<and> key_ok (fm_largest f)))"

lemma version_typed_new: "version_typed c (Finalize Version_new)"
  by (simp add: version_typed_def Finalize_files Version_new_def)

lemma edited_version_files:
  "v_files (edited_version c edit v) level = (if level \<in> set levels then foldl add_unique [] (saved_level c (edit_builder 0 edit) v level) else [])"
  by (simp add: edited_version_def Finalize_files SaveTo_files Version_new_def)

lemma edited_version_typed:
  assumes "user_comparator c" "version_typed c v" "edit_ok edit"
  shows "version_typed c (edited_version c edit v)"
proof -
  let ?b = "edit_builder 0 edit"
  have new: "key_ok (fm_smallest f) \<and> key_ok (fm_largest f)" if f: "f \<in> set (bd_added_files ?b level)" for f level
  proof -
    obtain g where "(level, g) \<in> set (ve_new_files edit)" "fm_smallest f = fm_smallest g" "fm_largest f = fm_largest g"
      using f by (auto simp: edit_builder_files)
    moreover from this(1) have "NewFile level g \<in> set (edit_fields edit)" by (force simp: edit_fields_def)
    ultimately show ?thesis using assms(3) by (auto simp: edit_ok_def)
  qed
  have "key_sorted c (v_files (edited_version c edit v) level) \<and> distinct (map fm_number (v_files (edited_version c edit v) level))
      \<and> (\<forall>f \<in> set (v_files (edited_version c edit v) level). level \<in> set levels \<and> key_ok (fm_smallest f) \<and> key_ok (fm_largest f))" for level
  proof (cases "level \<in> set levels")
    case True
    let ?fs = "saved_level c ?b v level"
    have "key_sorted c (v_files v level)" using assms(2) by (simp add: version_typed_def)
    from merge_files_sorted [OF assms(1) this user_comparator.sort_files_sorted [OF assms(1)]]
    have "key_sorted c ([] @ ?fs)" by (simp add: saved_level_def sorted_wrt_filter)
    from add_uniques(3) [OF this] add_uniques(1) [of "[]" ?fs]
    have "key_sorted c (foldl add_unique [] ?fs)" "distinct (map fm_number (foldl add_unique [] ?fs))" by simp_all
    moreover have "key_ok (fm_smallest f) \<and> key_ok (fm_largest f)" if f: "f \<in> set (foldl add_unique [] ?fs)" for f
    proof -
      have "f \<in> set ?fs" using f add_uniques(2) [of "[]" ?fs] by auto
      then have "f \<in> set (v_files v level) \<or> f \<in> set (bd_added_files ?b level)" by (auto simp: saved_level_def set_merge_files set_sort_files)
      with new assms(2) show ?thesis by (auto simp: version_typed_def)
    qed
    ultimately show ?thesis using True by (simp add: edited_version_files)
  qed (simp add: edited_version_files)
  then show ?thesis by (simp add: version_typed_def)
qed

text \<open>The loop over the MANIFEST, whatever bytes it holds: the decoder only accepts well-formed edits.\<close>

lemma ApplyVersionEdit_typed:
  assumes "user_comparator c" "edit_ok edit" "versions_ok vs" "version_typed c (current_version vs)" "ApplyVersionEdit c edit vs = (status, vs')"
  shows "versions_ok vs' \<and> version_typed c (current_version vs')"
proof (cases "ok (CheckComparatorName c edit)")
  case True
  then have "ok status" using assms(5) ApplyVersionEdit_ok [OF True, of vs] by (auto simp: ok_def OK_def)
  from ApplyVersionEdit_effect [OF assms(3,5) this] edited_version_typed [OF assms(1,4,2)] show ?thesis by simp
next
  case False
  with assms(3-5) show ?thesis by (simp add: ApplyVersionEdit_def)
qed

lemma RecoverLoop_typed:
  assumes "user_comparator c" "RecoverLoop c read reader vs = Some (status, read_status, vs')" "versions_ok vs" "version_typed c (current_version vs)"
  shows "versions_ok vs' \<and> version_typed c (current_version vs')"
proof -
  let ?T = "\<lambda>c vs. versions_ok vs \<and> version_typed c (current_version vs)"
  have "user_comparator c \<longrightarrow> ?T c vs \<longrightarrow> ?T c (snd (snd r))" if "RecoverLoop c read reader vs = Some r" for r
  proof (induct rule: RecoverLoop.raw_induct [where P = "\<lambda>c read reader vs r. user_comparator c \<longrightarrow> ?T c vs \<longrightarrow> ?T c (snd (snd r))", OF _ that])
    case (1 rec c read reader vs r)
    from 1(2) obtain found rcd read_status reader1 where R: "(if \<not> found then Some (OK, read_status, vs)
          else let (status, edit) = VE_DecodeFrom rcd
               in if \<not> ok status then Some (status, read_status, vs)
                  else let (status, vs) = ApplyVersionEdit c edit vs
                       in if \<not> ok status then Some (status, read_status, vs) else rec c read reader1 vs) = Some r"
      by (auto elim!: bind_SomeE split del: if_split)
    obtain st edit where d: "VE_DecodeFrom rcd = (st, edit)" by fastforce
    have e: "edit_ok edit" using Decode_total [of rcd] by (simp add: d)
    obtain st1 vs1 where a: "ApplyVersionEdit c edit vs = (st1, vs1)" by fastforce
    show ?case
    proof (intro impI)
      assume c: "user_comparator c" and T: "?T c vs"
      have T1: "?T c vs1" using ApplyVersionEdit_typed [OF c e _ _ a] T by blast
      show "?T c (snd (snd r))"
      proof (cases "found \<and> ok st \<and> ok st1")
        case True
        with R have "rec c read reader1 vs1 = Some r" by (simp add: d a)
        from 1(1) [OF this] c T1 show ?thesis by blast
      next
        case False
        with R have "r = (OK, read_status, vs) \<or> r = (st, read_status, vs) \<or> r = (st1, read_status, vs1)"
          by (auto simp: d a split: if_splits)
        with T T1 show ?thesis by auto
      qed
    qed
  qed
  from this [OF assms(2)] assms(1,3,4) show ?thesis by simp
qed

definition set_typed :: "comparator \<Rightarrow> 'h VersionSet \<Rightarrow> bool" where
  "set_typed c vs \<longleftrightarrow> versions_ok vs \<and> version_typed c (current_version vs)"

lemma set_typed_simps [simp]: "set_typed c (vs\<lparr>vs_descriptor := w\<rparr>) = set_typed c vs" "set_typed c (vs\<lparr>vs_manifest_file_number := n\<rparr>) = set_typed c vs"
    "set_typed c (vs\<lparr>vs_next_file_number := n\<rparr>) = set_typed c vs"
  by (simp_all add: set_typed_def versions_ok_def current_version_def vs_node_def)

lemma set_typed_new: "set_typed c (VersionSet_new db options)" "set_typed c (ResetVersions vs)"
  by (simp_all add: set_typed_def VersionSet_new_facts ResetVersions_facts version_typed_new)

lemma Recover_typed:
  assumes "user_comparator c" "Recover c env vs e = Some (status, vs', e')" "set_typed c vs"
  shows "set_typed c vs'"
proof -
  have "set_typed c vr" if "RecoverLoop c (ev_read env) reader (ResetVersions vs) = Some (st, rst, vr)" for reader st rst vr
    using RecoverLoop_typed [OF assms(1) that] set_typed_new(2) [of c vs] by (simp add: set_typed_def)
  then show ?thesis
    using assms(2,3) unfolding Recover_def Let_def
    by (auto elim!: bind_SomeE split: if_splits option.splits prod.splits FileType.splits sum.splits)
qed

lemma OpenManifest_typed: "OpenManifest c env vs e = Some (r, vs', e') \<Longrightarrow> set_typed c' vs' = set_typed c' vs"
  by (auto simp: OpenManifest_def Let_def NewFileNumber_def elim!: bind_SomeE split: sum.splits prod.splits if_splits)

lemma on_descriptor_typed: "on_descriptor f vs e = Some (st, vs', e') \<Longrightarrow> set_typed c vs' = set_typed c vs"
  by (auto simp: on_descriptor_def elim!: bind_SomeE)

lemma LogAndApply_typed:
  fixes vs :: "'a VersionSet"
  assumes "user_comparator c" "edit_ok edit" "length (Name (InternalKeyComparator c)) < 2 ^ 32"
    and "set_typed c vs" "LogAndApply c env edit vs e = Some (status, vs', e')"
  shows "set_typed c vs'"
proof -
  have A: "set_typed c vs2" if "ApplyVersionEdit c (FillEdit c vs0 edit) vs1 = (st, vs2)" "set_typed c vs1" for vs0 vs1 vs2 :: "'a VersionSet" and st
    using ApplyVersionEdit_typed [OF assms(1) edit_ok_fill [OF assms(2,3)] _ _ that(1)] that(2) by (simp add: set_typed_def)
  show ?thesis
    using assms(4,5) unfolding LogAndApply_def Let_def
    by (auto elim!: bind_SomeE split: if_splits prod.splits dest!: OpenManifest_typed [where c' = c] on_descriptor_typed [where c = c]) (use A in blast)+
qed

text \<open>With distinct numbers the files of a level are exactly those of the base and of the edit that are not deleted.\<close>

lemma edited_version_exact:
  assumes "level \<in> set levels" "distinct (map fm_number (v_files v level @ bd_added_files (edit_builder 0 edit) level))"
  shows "mset (v_files (edited_version c edit v) level)
    = filter_mset (\<lambda>f. \<not> IsDeleted (edit_builder 0 edit) level (fm_number f)) (mset (v_files v level) + mset (bd_added_files (edit_builder 0 edit) level))"
proof -
  let ?b = "edit_builder 0 edit"
  let ?fs = "saved_level c ?b v level"
  have m: "mset ?fs = filter_mset (\<lambda>f. \<not> IsDeleted ?b level (fm_number f)) (mset (v_files v level) + mset (bd_added_files ?b level))"
    by (simp add: saved_level_def mset_merge_files mset_sort_files)
  have "mset (map fm_number (merge_files c (v_files v level) (sort_files c (bd_added_files ?b level))))
      = mset (map fm_number (v_files v level @ bd_added_files ?b level))"
    by (simp add: mset_merge_files mset_sort_files)
  from mset_eq_imp_distinct_iff [OF this] assms(2) have "distinct (map fm_number ?fs)"
    by (simp add: saved_level_def distinct_map_filter)
  with add_uniques(4) [of "[]" ?fs] m assms(1) show ?thesis by (simp add: edited_version_files)
qed

lemma ApplyVersionEdit_exact:
  assumes "versions_ok vs" "ApplyVersionEdit c edit vs = (status, vs')" "ok status" "level \<in> set levels"
    and "distinct (map fm_number (v_files (current_version vs) level @ map snd (filter (\<lambda>(l, f). l = level) (ve_new_files edit))))"
  shows "mset (v_files (current_version vs') level)
    = mset (filter (\<lambda>f. (level, fm_number f) \<notin> set (ve_deleted_files edit) - (\<lambda>(l, f). (l, fm_number f)) ` set (ve_new_files edit)) (v_files (current_version vs) level))
      + mset (map (\<lambda>(l, f). f\<lparr>fm_allowed_seeks := allowed_seeks (fm_file_size f)\<rparr>) (filter (\<lambda>(l, f). l = level) (ve_new_files edit)))"
proof -
  let ?b = "edit_builder 0 edit" and ?new = "map (\<lambda>(l, f). f\<lparr>fm_allowed_seeks := allowed_seeks (fm_file_size f)\<rparr>) (filter (\<lambda>(l, f). l = level) (ve_new_files edit))"
  have a: "bd_added_files ?b level = ?new" by (rule edit_builder_files(2))
  have n: "map fm_number ?new = map fm_number (map snd (filter (\<lambda>(l, f). l = level) (ve_new_files edit)))" by auto
  have d: "IsDeleted ?b level n \<longleftrightarrow> (level, n) \<in> set (ve_deleted_files edit) - (\<lambda>(l, f). (l, fm_number f)) ` set (ve_new_files edit)" for n
    by (simp add: IsDeleted_def edit_builder_files(1))
  have "distinct (map fm_number (v_files (current_version vs) level @ bd_added_files ?b level))"
    using assms(5) by (simp only: a map_append n)
  from edited_version_exact [OF assms(4) this, of c] ApplyVersionEdit_effect(4) [OF assms(1-3)]
  have "mset (v_files (current_version vs') level) = filter_mset (\<lambda>f. \<not> IsDeleted ?b level (fm_number f)) (mset (v_files (current_version vs) level) + mset ?new)"
    by (simp add: a)
  moreover have "filter_mset (\<lambda>f. \<not> IsDeleted ?b level (fm_number f)) (mset ?new) = mset ?new"
    by (force simp: d filter_mset_eq_conv)
  ultimately show ?thesis by (simp add: d)
qed

section \<open>Reachable version sets\<close>

text \<open>
  The operations of a version set, whatever they return; between them the file system may change in any way. A
  client only gives back references that it took.
\<close>

inductive vs_step :: "comparator \<Rightarrow> ('h, 's, 'e) env_ops \<Rightarrow> 'h VersionSet \<times> 'e \<Rightarrow> 'h VersionSet \<times> 'e \<Rightarrow> bool" for c env where
  step_recover: "Recover c env vs e = Some (status, vs', e') \<Longrightarrow> vs_step c env (vs, e) (vs', e')"
| step_edit: "edit_ok edit \<Longrightarrow> LogAndApply c env edit vs e = Some (status, vs', e') \<Longrightarrow> vs_step c env (vs, e) (vs', e')"
| step_number: "vs_step c env (vs, e) (snd (NewFileNumber vs), e)"
| step_mark: "vs_step c env (vs, e) (MarkFileNumberUsed number vs, e)"
| step_ref: "vs_step c env (vs, e) (VS_Ref i vs, e)"
| step_unref: "vs_current vs \<noteq> Some i \<or> vn_refs (vs_node vs i) > 1 \<Longrightarrow> vs_step c env (vs, e) (VS_Unref i vs, e)"
| step_world: "vs_step c env (vs, e) (vs, e')"

lemma VS_Ref_typed:
  assumes "set_typed c vs"
  shows "set_typed c (VS_Ref i vs)"
proof -
  have "versions_ok vs" using assms by (simp add: set_typed_def)
  then have "current_version (VS_Ref i vs) = current_version vs"
    using versions_ok_node [of vs] by (auto simp: current_version_def vs_node_def VS_Ref_def map_of_vs_set)
  with assms show ?thesis by (simp add: set_typed_def VS_Ref_facts(3))
qed

lemma VS_Unref_typed: "set_typed c vs \<Longrightarrow> vs_current vs \<noteq> Some i \<or> vn_refs (vs_node vs i) > 1 \<Longrightarrow> set_typed c (VS_Unref i vs)"
proof (cases "vs_current vs = Some i")
  case True
  assume a: "set_typed c vs" "vs_current vs \<noteq> Some i \<or> vn_refs (vs_node vs i) > 1"
  then have "VS_Unref i vs = vs_set i ((vs_node vs i)\<lparr>vn_refs := vn_refs (vs_node vs i) - 1\<rparr>) vs" using True by (simp add: VS_Unref_def Let_def)
  then show ?thesis using a(1) True versions_ok_node [of vs]
    by (auto simp: set_typed_def versions_ok_def current_version_def vs_node_def map_of_vs_set)
qed (simp add: set_typed_def VS_Unref_facts)

lemma vs_step_typed:
  assumes "user_comparator c" "length (Name (InternalKeyComparator c)) < 2 ^ 32"
  shows "vs_step c env s s' \<Longrightarrow> set_typed c (fst s) \<Longrightarrow> set_typed c (fst s')"
proof (induction rule: vs_step.induct)
  case step_recover
  then show ?case using Recover_typed [OF assms(1)] by simp
next
  case step_edit
  then show ?case using LogAndApply_typed [OF assms(1) _ assms(2)] by simp
qed (simp_all add: NewFileNumber_def MarkFileNumberUsed_def VS_Ref_typed VS_Unref_typed)

lemma vs_run_typed:
  assumes "user_comparator c" "length (Name (InternalKeyComparator c)) < 2 ^ 32" "(vs_step c env)\<^sup>*\<^sup>* s s'" "set_typed c (fst s)"
  shows "set_typed c (fst s')"
  using assms(3,4) by (induction rule: rtranclp_induct) (auto intro: vs_step_typed [OF assms(1,2)])

end
