(* ===== verification/Obsoletes.thy ===== *)
theory Obsoletes
  imports Builders
begin

text \<open>
  Removal of obsolete files (db/db_impl.cc): whatever names the directory lists, no file that a live version,
  a pending output, the recovery or CURRENT needs is removed.
\<close>

text \<open>The names that must stay.\<close>

definition needed_names :: "u64 set \<Rightarrow> u64 \<Rightarrow> ('h, 'e) DBImpl \<Rightarrow> bytes set" where
  "needed_names live manifest db =
     {TableFileName (db_dbname db) n | n. n \<in> live}
     \<union> {LogFileName (db_dbname db) n | n. vs_log_number (db_versions db) \<le> n \<or> n = db_logfile_number db}
     \<union> {DescriptorFileName (db_dbname db) manifest, CurrentFileName (db_dbname db), LockFileName (db_dbname db),
        InfoLogFileName (db_dbname db), OldInfoLogFileName (db_dbname db)}"

text \<open>What may go: a table that no version holds, temporary files, older MANIFESTs, and the logs before the current ones.\<close>

definition is_obsolete :: "u64 set \<Rightarrow> u64 \<Rightarrow> ('h, 'e) DBImpl \<Rightarrow> u64 \<Rightarrow> FileType \<Rightarrow> bool" where
  "is_obsolete live manifest db n type \<longleftrightarrow>
     type = kTableFile \<and> n \<notin> live \<or> type = kTempFile \<or> type = kDescriptorFile \<and> n \<noteq> manifest
     \<or> type = kLogFile \<and> manifest \<noteq> 0 \<and> vs_log_number (db_versions db) \<noteq> 0 \<and> n < vs_log_number (db_versions db) \<and> n \<noteq> db_logfile_number db"

lemma obsolete_not_kept: "is_obsolete (set live) manifest db n type \<Longrightarrow> \<not> KeepFile live manifest db n type"
  by (auto simp: is_obsolete_def KeepFile_def)

lemma dots_not_parsed: "ParseFileName filename = Some r \<Longrightarrow> \<not> IsDotOrDotDot filename"
  by (auto simp: IsDotOrDotDot_def ParseFileName_def ConsumeDecimalNumber_def SliceEquals_def SliceStartsWith_def lit_def)

lemma base_name_path: "base_name db (db @ lit ''/'' @ filename) = filename"
  by (simp add: base_name_def lit_def)

lemma needed_kept:
  assumes "db_dbname db @ lit ''/'' @ filename \<in> needed_names (set live) manifest db" "ParseFileName filename = Some (number, type)"
  shows "KeepFile live manifest db number type"
proof -
  let ?d = "db_dbname db"
  have f: "base_name ?d p = filename" if "?d @ lit ''/'' @ filename = p" for p using base_name_path [of ?d filename] that by simp
  from assms(1) consider (table) n where "?d @ lit ''/'' @ filename = TableFileName ?d n" "n \<in> set live"
    | (wal) n where "?d @ lit ''/'' @ filename = LogFileName ?d n" "vs_log_number (db_versions db) \<le> n \<or> n = db_logfile_number db"
    | (manifest) "?d @ lit ''/'' @ filename = DescriptorFileName ?d manifest"
    | (current) "?d @ lit ''/'' @ filename = CurrentFileName ?d" | (lock) "?d @ lit ''/'' @ filename = LockFileName ?d"
    | (info) "?d @ lit ''/'' @ filename = InfoLogFileName ?d" | (old) "?d @ lit ''/'' @ filename = OldInfoLogFileName ?d"
    unfolding needed_names_def by blast
  then show ?thesis
  proof cases
    case (table n)
    have "(number, type) = (n, kTableFile)" using ParseFileName_Mask(2) [of ?d n] assms(2) unfolding f [OF table(1)] by simp
    then show ?thesis using table(2) by (simp add: KeepFile_def)
  next
    case (wal n)
    have "(number, type) = (n, kLogFile)" using ParseFileName_Mask(1) [of ?d n] assms(2) unfolding f [OF wal(1)] by simp
    then show ?thesis using wal(2) by (auto simp: KeepFile_def)
  next
    case manifest
    have "(number, type) = (manifest, kDescriptorFile)" using ParseFileName_Descriptor [of ?d manifest] assms(2) unfolding f [OF manifest] by simp
    then show ?thesis by (simp add: KeepFile_def)
  next
    case current
    have "type = kCurrentFile" using ParseFileName_fixed(1) [of ?d] assms(2) unfolding f [OF current] by simp
    then show ?thesis by (simp add: KeepFile_def)
  next
    case lock
    have "type = kDBLockFile" using ParseFileName_fixed(2) [of ?d] assms(2) unfolding f [OF lock] by simp
    then show ?thesis by (simp add: KeepFile_def)
  next
    case info
    have "type = kInfoLogFile" using ParseFileName_fixed(3) [of ?d] assms(2) unfolding f [OF info] by simp
    then show ?thesis by (simp add: KeepFile_def)
  next
    case old
    have "type = kInfoLogFile" using ParseFileName_fixed(4) [of ?d] assms(2) unfolding f [OF old] by simp
    then show ?thesis by (simp add: KeepFile_def)
  qed
qed

lemma foldl_insort_insert: "set (foldl (\<lambda>xs x. insort_insert x xs) xs ys) = set xs \<union> set ys" for xs ys :: "'a::linorder list"
  by (induction ys arbitrary: xs) (auto simp: set_insort_insert)

lemma AddLiveFiles_set:
  "set (AddLiveFiles vs live) = set live \<union> (\<Union>(i, node) \<in> set (vs_versions vs). \<Union>level \<in> set levels. fm_number ` set (v_files (vn_version node) level))"
proof -
  have 1: "set (foldl (\<lambda>live file. insort_insert (fm_number file) live) live fs) = set live \<union> fm_number ` set fs" for live and fs :: "FileMetaData list"
    by (induction fs arbitrary: live) (auto simp: set_insort_insert)
  have 2: "set (foldl (\<lambda>live level. foldl (\<lambda>live file. insort_insert (fm_number file) live) live (v level)) live ls)
      = set live \<union> (\<Union>level \<in> set ls. fm_number ` set (v level))" for live ls and v :: "int \<Rightarrow> FileMetaData list"
    by (induction ls arbitrary: live) (auto simp: 1)
  have "set (foldl (\<lambda>live (i, node). foldl (\<lambda>live level. foldl (\<lambda>live file. insort_insert (fm_number file) live) live (v_files (vn_version node) level))
       live levels) live ns) = set live \<union> (\<Union>(i, node) \<in> set ns. \<Union>level \<in> set levels. fm_number ` set (v_files (vn_version node) level))"
    for live and ns :: "(nat \<times> VersionNode) list"
    by (induction ns arbitrary: live) (auto simp: 2)
  then show ?thesis by (simp add: AddLiveFiles_def)
qed


lemma RemoveFiles_cases:
  assumes "RemoveFiles env live manifest (filename # names) db = (status, db')"
  obtains "RemoveFiles env live manifest names db = (status, db')"
      "\<And>number type. ParseFileName filename = Some (number, type) \<Longrightarrow> \<not> IsDotOrDotDot filename \<Longrightarrow> \<not> KeepFile live manifest db number type
        \<Longrightarrow> \<not> ev_FileExists env (db_dbname db @ lit ''/'' @ filename) (db_env db)"
  | (removed) number type st e1 where "ParseFileName filename = Some (number, type)" "\<not> KeepFile live manifest db number type"
      "ev_RemoveFile env (db_dbname db @ lit ''/'' @ filename) (db_env db) = (st, e1)"
      "if ok st then RemoveFiles env live manifest names (db\<lparr>db_env := e1\<rparr>) = (status, db') else (status, db') = (st, db\<lparr>db_env := e1\<rparr>)"
  using assms by (auto simp: Let_def db_RemoveFile_def split: if_splits option.splits prod.splits)

lemma KeepFile_env: "KeepFile live manifest (db\<lparr>db_env := e\<rparr>) = KeepFile live manifest db"
  by (intro ext) (simp add: KeepFile_def cong: FileType.case_cong)

context file_system
begin

lemma RemoveFiles_spares:
  assumes "RemoveFiles env live manifest names db = (status, db')" "p \<in> needed_names (set live) manifest db"
  shows "files (db_env db') p = files (db_env db) p"
  using assms
proof (induction names arbitrary: db)
  case (Cons filename names)
  from Cons.prems(1) show ?case
  proof (cases rule: RemoveFiles_cases)
    case 1
    from Cons.IH [OF 1(1) Cons.prems(2)] show ?thesis .
  next
    case (removed number type st e1)
    have "p \<noteq> db_dbname db @ lit ''/'' @ filename" using needed_kept [OF _ removed(1)] removed(2) Cons.prems(2) by blast
    then have same: "files e1 p = files (db_env db) p" using remove [OF removed(3)] by (auto simp: frame_def)
    have n: "p \<in> needed_names (set live) manifest (db\<lparr>db_env := e1\<rparr>)" using Cons.prems(2) by (simp add: needed_names_def)
    show ?thesis
    proof (cases "ok st")
      case True
      with removed(4) have "RemoveFiles env live manifest names (db\<lparr>db_env := e1\<rparr>) = (status, db')" by simp
      from Cons.IH [OF this n] same show ?thesis by simp
    next
      case False
      with removed(4) same show ?thesis by simp
    qed
  qed
qed simp

lemma RemoveFiles_absent:
  assumes "RemoveFiles env live manifest names db = (status, db')" "ok status" "files (db_env db) p = None"
  shows "files (db_env db') p = None"
  using assms
proof (induction names arbitrary: db)
  case (Cons filename names)
  from Cons.prems(1) show ?case
  proof (cases rule: RemoveFiles_cases)
    case 1
    from Cons.IH [OF 1(1) Cons.prems(2,3)] show ?thesis .
  next
    case (removed number type st e1)
    with Cons.prems(2) have st: "ok st" "RemoveFiles env live manifest names (db\<lparr>db_env := e1\<rparr>) = (status, db')" by (auto split: if_splits)
    have "files e1 p = None" using remove [OF removed(3)] st(1) Cons.prems(3)
      by (cases "p = db_dbname db @ lit ''/'' @ filename") (auto simp: frame_def)
    with Cons.IH [OF st(2) Cons.prems(2)] show ?thesis by simp
  qed
qed simp

lemma RemoveFiles_removes:
  assumes exists: "\<And>n e. ev_FileExists env n e \<longleftrightarrow> files e n \<noteq> None"
  shows "RemoveFiles env live manifest names db = (status, db') \<Longrightarrow> ok status \<Longrightarrow> filename \<in> set names \<Longrightarrow> \<not> IsDotOrDotDot filename
    \<Longrightarrow> ParseFileName filename = Some (number, type) \<Longrightarrow> \<not> KeepFile live manifest db number type
    \<Longrightarrow> files (db_env db') (db_dbname db @ lit ''/'' @ filename) = None"
proof (induction names arbitrary: db)
  case (Cons f names)
  let ?p = "db_dbname db @ lit ''/'' @ filename"
  from Cons.prems(1) show ?case
  proof (cases rule: RemoveFiles_cases)
    case 1
    show ?thesis
    proof (cases "f = filename")
      case True
      with 1(2) Cons.prems(4-6) have "files (db_env db) ?p = None" by (simp add: exists)
      from RemoveFiles_absent [OF 1(1) Cons.prems(2) this] show ?thesis .
    next
      case False
      with Cons.prems(3) have "filename \<in> set names" by simp
      from Cons.IH [OF 1(1) Cons.prems(2) this Cons.prems(4-6)] show ?thesis .
    qed
  next
    case (removed m t st e1)
    with Cons.prems(2) have st: "ok st" "RemoveFiles env live manifest names (db\<lparr>db_env := e1\<rparr>) = (status, db')" by (auto split: if_splits)
    show ?thesis
    proof (cases "f = filename")
      case True
      with remove [OF removed(3)] st(1) have "files (db_env (db\<lparr>db_env := e1\<rparr>)) ?p = None" by simp
      from RemoveFiles_absent [OF st(2) Cons.prems(2) this] show ?thesis .
    next
      case False
      with Cons.prems(3) have "filename \<in> set names" by simp
      from Cons.IH [OF st(2) Cons.prems(2) this Cons.prems(4,5)] Cons.prems(6) show ?thesis by (simp add: KeepFile_env)
    qed
  qed
qed simp

text \<open>The call as a whole, when CURRENT names a MANIFEST: it goes through the names that the directory lists.\<close>

lemma RemoveObsoleteFiles_run:
  assumes exists: "\<And>n e. ev_FileExists env n e \<longleftrightarrow> files e n \<noteq> None"
    and current: "files (db_env db) (CurrentFileName (db_dbname db)) = Some (base_name (db_dbname db) (DescriptorFileName (db_dbname db) manifest) @ [10])"
    and listed: "ev_GetChildren env (db_dbname db) (db_env db) = (st, names)" "ok st"
  obtains live where "RemoveObsoleteFiles env db = Some (RemoveFiles env live manifest names db)"
    "set live = set (db_pending_outputs db)
      \<union> (\<Union>(i, node) \<in> set (vs_versions (db_versions db)). \<Union>level \<in> set levels. fm_number ` set (v_files (vn_version node) level))"
proof
  let ?live = "foldl (\<lambda>live n. insort_insert n live) (AddLiveFiles (db_versions db) []) (db_pending_outputs db)"
  have ok: "ok OK" by (simp add: ok_def OK_def)
  have "ev_FileExists env (CurrentFileName (db_dbname db)) (db_env db)" by (simp add: exists current)
  then show "RemoveObsoleteFiles env db = Some (RemoveFiles env ?live manifest names db)"
    by (simp add: RemoveObsoleteFiles_def listed ok ReadFileToString_ok [OF current] strip_newline_def ParseFileName_Descriptor)
  show "set ?live = set (db_pending_outputs db)
      \<union> (\<Union>(i, node) \<in> set (vs_versions (db_versions db)). \<Union>level \<in> set levels. fm_number ` set (v_files (vn_version node) level))"
    by (simp add: foldl_insort_insert AddLiveFiles_set Un_commute)
qed

end

end
