(* ===== verification/Spec2Isabelle.thy ===== *)
theory Spec2Isabelle
  imports Logs WriteBatches Strings DBIters Obsoletes
begin

text \<open>
  Lin-DB is a log-structured key-value store. A write is a batch that is appended to the
  write-ahead log and inserted into the memtable; a full memtable becomes a sorted table file; a
  read looks into the memtable and the tables through iterators; versions record which tables are
  live. The theories follow the files under \<open>src/\<close>:

  Encodings: \<open>Prelude\<close> (bytes, words, lists shared by all), \<open>Coding\<close> (util/coding.cc), \<open>Hashes\<close>
  (util/hash.cc, crc32c.cc, random.cc), \<open>Comparators\<close> (util/comparator.cc and the interface
  \<open>comparator_laws\<close>), \<open>Statuses\<close> (util/status.cc), \<open>Strings\<close> (util/logging.cc, db/filename.cc),
  \<open>DBFormat\<close> (db/dbformat.cc). Lemmas: round trips, bounds, the order on internal keys.

  Memory: \<open>Arenas\<close> (util/arena.cc), \<open>SkipLists\<close> (db/skiplist.cc), \<open>MemTables\<close> (db/memtable.cc),
  \<open>WriteBatches\<close> (db/write_batch.cc), \<open>Caches\<close> (util/cache.cc). Pointers are addresses into an
  explicit store. Lemmas: the structural invariants, kept by every operation, and the refinement of
  a set of keys, a multi-version map and a bounded map.

  Files: \<open>Files\<close> (util/env.cc: the POSIX calls are parameters, \<open>reliable_file\<close>,
  \<open>sequential_file\<close> and \<open>random_file\<close> the interfaces their users rely on), \<open>Logs\<close>
  (db/log_writer.cc, log_reader.cc), \<open>Filters\<close> (util/bloom.cc, db/filter_block.cc), \<open>Blocks\<close>
  (db/block.cc, block_builder.cc), \<open>Formats\<close> (db/format.cc), \<open>TableBuilders\<close>
  (db/table_builder.cc), \<open>Tables\<close> (db/table.cc, table_cache.cc). Lemmas: what was written is read
  back, damage is reported, a torn log gives a prefix.

  Cursors: \<open>Iterators\<close> (the protocol; \<open>sorted_iterator\<close> is the contract), \<open>TwoLevels\<close>
  (db/two_level_iterator.cc), \<open>Mergers\<close> (db/merger.cc), \<open>DBIters\<close> (db/db_iter.cc). An iterator is a
  state with a record of operations; every one is shown to keep the contract, given that the
  iterators below it do. The database iterator keeps it where the snapshot sees every entry.

  The environment: \<open>Envs\<close> (include/lindb/env.h, util/env.cc, db/filename.cc) has the virtual functions of
  an \<open>Env\<close> and of the files it opens as one record over a state, the whole-file helpers, the file-system
  calls of the POSIX environment, its background queue, \<open>SetCurrentFile\<close> and log writers on its files.
  The contract \<open>file_system\<close> says that what succeeds has its effect, that what fails may leave anything in
  the file concerned, and that no other file changes; a disk in memory that runs out of space meets it.

  The tree of tables: \<open>VersionEdits\<close> (db/version_edit.cc), \<open>Versions\<close>, \<open>VersionReads\<close> and \<open>VersionSets\<close>
  (db/version_set.cc: a version's files and reads, the plan of a compaction, live versions, the
  builder, the MANIFEST and recovery). The contract \<open>table_source\<close> is what a read needs of a cache of
  tables; the table cache meets it. Lemmas: an edit decodes to itself, a read finds the newest
  visible entry, the files of a range are closed under overlap, the loops end.
  \<open>Manifests\<close> shows that replaying the edits that \<open>LogAndApply\<close> logged, from CURRENT and the MANIFEST, gives the
  version and the counters back; \<open>Builders\<close> that the builder's merge is exact as a multiset of files and
  that, over the step relation \<open>vs_step\<close> of all operations, the current version stays well formed.

  The database: \<open>BuildTables\<close> (db/builder.cc) writes a table from an iterator; \<open>DBImpls\<close> (db/db_impl.cc) has
  the state of the database with the write path, reads, snapshots, recovery, obsolete files, the
  background calls and the compaction loop, in the order of the code.
  \<open>Compactions\<close> shows that what a compaction drops changes no read and that the search for the base level is
  exact; \<open>DBWrites\<close> that a written batch is read back, and, over the step relation \<open>db_step\<close> of all calls,
  that background calls are scheduled once and drain; \<open>Recoveries\<close> that the replay of a log rebuilds the
  memtable that the logged writes made; \<open>Obsoletes\<close> that the removal of obsolete files spares what is needed.

  Conventions. A fallible operation returns a \<open>Status\<close> or a sum with a \<open>Status\<close>. A loop whose end
  is not structural is a \<open>partial_function\<close> in \<open>option\<close>, with \<open>None\<close> for not returning, and the
  theorems show that \<open>Some\<close> is returned. Machine integers are words of their width where the code
  can wrap; the bounds that rule it out (blocks and tables below \<open>2 ^ 32\<close> bytes, sequence numbers below
  \<open>2 ^ 56\<close>, batches of fewer than \<open>2 ^ 31\<close> entries) are hypotheses of the theorems that need them.

  Not modelled. Threads, mutexes and atomics: operations run one after another, and a background call
  is one step. The contents of arena memory, capacities of strings, mmap and the file descriptor
  limits, time, the reference counts of file metadata, the block cache of an open database, and the
  tests. An iterator of a memtable holds the memtable as it was when the iterator was made.
\<close>

text \<open>C16: A write batch built from any list of puts and deletes and inserted into a new
  memtable is applied with status OK, and afterwards a lookup of any user key at any snapshot
  returns the newest entry of the batch that the snapshot sees: its value, or NotFound for a
  deletion or a key that is absent. This holds for every lawful user comparator and every
  allocator.\<close>

theorem batch_read_back:
  assumes "user_comparator c"
    and "\<forall>x \<in> set ops. op_bounded x" and "length ops < 2 ^ 31" and "unat seq + length ops \<le> 2 ^ 56"
  shows "\<exists>m. WB_InsertInto fresh c (WB_SetSequence seq (fold apply_op ops WB_Clear)) (MemTable_new fresh) = Some (OK, m) \<and>
           (\<forall>u snap value. length u + 8 < 2 ^ 32 \<longrightarrow> snap \<le> kMaxSequenceNumber \<longrightarrow>
              MemTable_Get c m (LookupKey_new u snap) value =
                Some (get_result c (newest c u snap (op_entries seq ops)) u value))"
proof -
  have "WB_SetSequence seq (fold apply_op ops WB_Clear) = batch_of seq ops"
    by (simp add: build_batch) (simp add: batch_of_def)
  with user_comparator.InsertInto_Get [OF assms, of fresh] show ?thesis
    by simp
qed

theorem batch_read_back_witness:
  "\<exists>m. WB_InsertInto bump_new BytewiseComparator
          (WB_SetSequence 7 (fold apply_op [PutOp [1] [2], DeleteOp [1], PutOp [3] [4]] WB_Clear)) (MemTable_new bump_new) = Some (OK, m) \<and>
       MemTable_Get BytewiseComparator m (LookupKey_new [1] 7) [] = Some (True, [2], OK) \<and>
       MemTable_Get BytewiseComparator m (LookupKey_new [1] 8) [9] = Some (True, [], NotFound [1] []) \<and>
       MemTable_Get BytewiseComparator m (LookupKey_new [3] 8) [9] = Some (False, [9], NotFound [3] [])"
proof -
  let ?ops = "[PutOp [1] [2], DeleteOp [1], PutOp [3] [4]]"
  have n: "newest BytewiseComparator [1] 7 (op_entries 7 ?ops) = Some \<lparr> me_key = [1], me_seq = 7, me_type = kTypeValue, me_value = [2] \<rparr>"
    "newest BytewiseComparator [1] 8 (op_entries 7 ?ops) = Some \<lparr> me_key = [1], me_seq = 8, me_type = kTypeDeletion, me_value = [] \<rparr>"
    "newest BytewiseComparator [3] 8 (op_entries 7 ?ops) = None"
    by code_simp+
  have max: "(7 :: 64 word) \<le> kMaxSequenceNumber" "(8 :: 64 word) \<le> kMaxSequenceNumber"
    by code_simp+
  have "\<forall>x \<in> set ?ops. op_bounded x" "length ?ops < 2 ^ 31" "unat (7 :: 64 word) + length ?ops \<le> 2 ^ 56"
    by (simp_all add: op_bounded_def)
  from batch_read_back [OF bytewise.user_comparator_axioms this, of bump_new] obtain m where
    m: "WB_InsertInto bump_new BytewiseComparator (WB_SetSequence 7 (fold apply_op ?ops WB_Clear)) (MemTable_new bump_new) = Some (OK, m)"
    and get: "\<And>u snap value. length u + 8 < 2 ^ 32 \<Longrightarrow> snap \<le> kMaxSequenceNumber \<Longrightarrow>
        MemTable_Get BytewiseComparator m (LookupKey_new u snap) value =
          Some (get_result BytewiseComparator (newest BytewiseComparator u snap (op_entries 7 ?ops)) u value)"
    by blast
  show ?thesis
    using m get [of "[1]" 7 "[]", OF _ max(1), unfolded n] get [of "[1]" 8 "[9]", OF _ max(2), unfolded n]
      get [of "[3]" 8 "[9]", OF _ max(2), unfolded n]
    by (intro exI [of _ m]) (simp add: get_result_def del: fold.simps)
qed

section \<open>The write-ahead log\<close>

text \<open>C17: Records of any sizes written with AddRecord to a new log on a file that does not fail are all
  written with status OK, and a reader of that file returns exactly these records in order and
  ends with status OK, with checksums on or off. This composes the writer's fragmentation into
  32 KiB blocks, the file below it and the reader's reassembly.\<close>

theorem wal_round_trip:
  assumes "reliable_file ops contents" "sequential_file read remaining" and "contents f = []"
  shows "\<exists>w. AddRecords ops ds (LogWriter_new f 0) = Some (OK, w) \<and>
           (\<forall>s checksum. remaining s = contents (dest w) \<longrightarrow>
              ReadAllRecords read (LogReader_new s checksum) [] = Some (ds, OK))"
proof -
  obtain w where w: "AddRecords ops ds (LogWriter_new f 0) = Some (OK, w)" "contents (dest w) = emitted_all 0 ds"
    using reliable_file.AddRecords_exact [OF assms(1), of ds "LogWriter_new f 0"] assms(3)
    by (auto simp: LogWriter_new_def)
  then show ?thesis
    using sequential_file.Replay_complete [OF assms(2)] by auto
qed

theorem wal_round_trip_witness:
  "\<exists>w. AddRecords (Posix_ops (disk_calls 3)) [[1, 2], [], replicate 40000 7] (LogWriter_new (PosixWritableFile_new [] []) 0) = Some (OK, w) \<and>
     ReadAllRecords (PosixSequential_Read (\<lambda>_. []) disk_read []) (LogReader_new (Posix_contents (\<lambda>k. k) (dest w)) True) []
       = Some ([[1, 2], [], replicate 40000 7], OK)"
  using wal_round_trip [OF disk.reliable_file_axioms [of 3] disk.sequential_file_axioms [of "\<lambda>_. []" "[]"],
      of "(PosixWritableFile_new [] [])" "[[1, 2], [], replicate 40000 7]"]
  by (auto simp: Posix_contents_def PosixWritableFile_new_def)

text \<open>C18: When the log file is cut at any byte (a crash while its tail was being written), a replay
  returns a prefix of the records that were written, never a record that was not, and every
  record whose bytes lie wholly before the cut is in that prefix.\<close>

theorem wal_torn_tail:
  assumes "reliable_file ops contents" "sequential_file read remaining" and "contents f = []"
  shows "\<exists>w. AddRecords ops (ds @ ds') (LogWriter_new f 0) = Some (OK, w) \<and>
           (\<forall>s checksum n. length (emitted_all 0 ds) \<le> n \<longrightarrow> remaining s = take n (contents (dest w)) \<longrightarrow>
              (\<exists>m st. ReadAllRecords read (LogReader_new s checksum) [] = Some (ds @ take m ds', st)))"
proof -
  obtain w where w: "AddRecords ops (ds @ ds') (LogWriter_new f 0) = Some (OK, w)" "contents (dest w) = emitted_all 0 (ds @ ds')"
    using reliable_file.AddRecords_exact [OF assms(1), of "ds @ ds'" "LogWriter_new f 0"] assms(3)
    by (auto simp: LogWriter_new_def)
  have "\<exists>m st. ReadAllRecords read (LogReader_new s checksum) [] = Some (ds @ take m ds', st)"
    if n: "length (emitted_all 0 ds) \<le> n" and s: "remaining s = take n (emitted_all 0 (ds @ ds'))" for s checksum n
    using n s
  proof (induction ds' arbitrary: ds)
    case Nil
    then have "remaining s = emitted_all 0 ds" by simp
    from sequential_file.Replay_complete [OF assms(2) this] show ?case by auto
  next
    case (Cons d ds')
    show ?case
    proof (cases "length (emitted_all 0 (ds @ [d])) \<le> n")
      case True
      from Cons.IH [OF this] Cons.prems(2) obtain m st where
        "ReadAllRecords read (LogReader_new s checksum) [] = Some ((ds @ [d]) @ take m ds', st)" by auto
      then show ?thesis by (intro exI [of _ "Suc m"] exI [of _ st]) simp
    next
      case False
      let ?e = "emitted (foldl offset_after 0 ds) True d"
      have split: "emitted_all off (xs @ ys) = emitted_all off xs @ emitted_all (foldl offset_after off xs) ys" for off xs ys
        by (induction xs arbitrary: off) simp_all
      have k: "n - length (emitted_all 0 ds) < length ?e" using False Cons.prems(1) by (simp add: split)
      have "remaining s = emitted_all 0 ds @ take (n - length (emitted_all 0 ds)) ?e"
        using Cons.prems k by (simp add: split)
      from sequential_file.Replay_torn [OF assms(2) this k] obtain st where
        "ReadAllRecords read (LogReader_new s checksum) [] = Some (ds, st)" by blast
      then show ?thesis by (intro exI [of _ 0] exI [of _ st]) simp
    qed
  qed
  then show ?thesis using w by auto
qed

theorem wal_torn_tail_witness:
  "\<exists>w m st. AddRecords (Posix_ops (disk_calls 3)) [[1, 2], [3, 4, 5]] (LogWriter_new (PosixWritableFile_new [] []) 0) = Some (OK, w) \<and>
     ReadAllRecords (PosixSequential_Read (\<lambda>_. []) disk_read []) (LogReader_new (take 12 (Posix_contents (\<lambda>k. k) (dest w))) True) []
       = Some ([[1, 2]] @ take m [[3, 4, 5]], st)"
proof -
  have l: "length (emitted_all 0 [[1, 2]]) \<le> 12"
    by (simp add: emitted.simps padding_def room_def start_offset_def log_sizes)
  from wal_torn_tail [OF disk.reliable_file_axioms [of 3] disk.sequential_file_axioms [of "\<lambda>_. []" "[]"],
      of "(PosixWritableFile_new [] [])" "[[1, 2]]" "[[3, 4, 5]]"] l
  show ?thesis by (fastforce simp: Posix_contents_def PosixWritableFile_new_def)
qed



section \<open>Write batches\<close>

text \<open>C24: A batch representation cut anywhere is rejected: iterating over it with a handler that always
  returns gives a Corruption status, whatever operations were applied before the cut.\<close>

theorem batch_truncated:
  assumes "\<forall>x \<in> set ops. op_sized x" "handler_total h" "length ops < 2 ^ 31" "k < length (batch_of seq ops)"
  shows "\<exists>msg st'. WB_Iterate h (take k (WB_SetSequence seq (fold apply_op ops WB_Clear))) st = Some (Corruption msg [], st')"
proof -
  have "WB_SetSequence seq (fold apply_op ops WB_Clear) = batch_of seq ops"
    by (simp add: build_batch) (simp add: batch_of_def)
  with WB_Iterate_truncated [OF assms] show ?thesis by simp
qed

theorem batch_truncated_witness:
  "\<exists>msg st'. WB_Iterate \<lparr>h_Put = (\<lambda>k v st. Some (st + 1)), h_Delete = (\<lambda>k st. Some (st + 1))\<rparr>
       (take 15 (WB_SetSequence 9 (fold apply_op [PutOp [1] [2], DeleteOp [1]] WB_Clear))) (0 :: nat) = Some (Corruption msg [], st')"
proof (rule batch_truncated)
  show "15 < length (batch_of 9 [PutOp [1] [2], DeleteOp [1]])" by code_simp
qed (simp_all add: handler_total_def)

text \<open>Appending one batch to another and iterating over the result performs the operations of the
  first and then those of the second, in order, with status OK.\<close>

theorem batch_append:
  assumes "\<forall>x \<in> set (ops @ ops'). op_sized x" "length (ops @ ops') < 2 ^ 31"
  shows "WB_Iterate h (WB_Append (fold apply_op ops WB_Clear) (fold apply_op ops' WB_Clear)) st
    = map_option (\<lambda>st'. (OK, st')) (run_ops h (ops @ ops') st)"
  using WB_Append_batch [of ops ops' 0 0] WB_Iterate_batch [OF assms] assms(2) by (simp add: build_batch)

theorem batch_append_witness:
  "WB_Iterate \<lparr>h_Put = (\<lambda>k v st. Some (st @ [(k, Some v)])), h_Delete = (\<lambda>k st. Some (st @ [(k, None)]))\<rparr>
       (WB_Append (fold apply_op [PutOp [1] [2]] WB_Clear) (fold apply_op [DeleteOp [1]] WB_Clear)) [] = Some (OK, [([1], Some [2]), ([1], None)])"
  by (subst batch_append) simp_all

section \<open>Encodings, checksums, memory\<close>

text \<open>C33: Every 64-bit value is written as a varint of at most 10 bytes (its VarintLength), read back
  from the front of any buffer with the rest of the buffer, and not read from any proper prefix.\<close>

theorem varint64_roundtrip:
  "GetVarint64 (EncodeVarint64 v @ rest) = Some (v, rest)
   \<and> length (EncodeVarint64 v) = VarintLength v \<and> VarintLength v \<le> 10
   \<and> (\<forall>k < length (EncodeVarint64 v). GetVarint64 (take k (EncodeVarint64 v)) = None)"
  using length_EncodeVarint64 [of v] VarintLength_EncodeVarint64 [of v] by (simp add: GetVarint64_truncated)

theorem varint64_roundtrip_witness:
  "GetVarint64 (take 1 (EncodeVarint64 300)) = None"
proof -
  have "1 < length (EncodeVarint64 300)" by code_simp
  with varint64_roundtrip [of 300 "[]"] show ?thesis by blast
qed

text \<open>The unrolled 32-bit encoder (five cases by the size of the value) and the 64-bit loop
  both produce the base-128 digits of the value, least significant first, with the continuation
  bit on all but the last.\<close>

theorem varint_encoders_agree:
  "EncodeVarint32 v = varint_bytes (unat v) \<and> EncodeVarint64 (ucast v) = EncodeVarint32 v"
proof -
  have "unat v < 2 ^ 32" using unsigned_less [of v] by simp
  then have "unat (ucast v :: u64) = unat v" by (simp add: unsigned_ucast_eq take_bit_nat_eq_self)
  then show ?thesis by (simp add: EncodeVarint32_reference EncodeVarint64_reference)
qed

text \<open>C31: The table-driven CRC32C computes the bit-serial polynomial division with reflected input and
  output, continues across a split of the data at any point, and the stored (masked) form
  determines it.\<close>

theorem crc_table_reference:
  "Value data = crc_serial 0xffffffff data XOR 0xffffffff
   \<and> Value (xs @ ys) = Extend (Value xs) ys \<and> Unmask (Mask (Value data)) = Value data"
  by (simp add: Value_serial Unmask_Mask) (simp add: Value_def Extend_Extend flip: Value_serial)

text \<open>C32: Two byte strings that differ only within four adjacent bytes have different checksums.\<close>

theorem crc_detects_bursts:
  assumes "length bs = length bs'" "length bs \<le> 4" "bs \<noteq> bs'"
  shows "Mask (Value (pre @ bs @ post)) \<noteq> Mask (Value (pre @ bs' @ post))"
  using Value_burst [OF assms(1,2)] assms(3) Mask_inj by blast

theorem crc_detects_bursts_witness:
  "Mask (Value ([1, 2] @ [3, 4] @ [5])) \<noteq> Mask (Value ([1, 2] @ [4, 3] @ [5]))"
  by (rule crc_detects_bursts) simp_all

text \<open>From any seed, the generator of the skip list heights stays in 1..2^31-2 and each step
  multiplies by 16807 modulo 2^31-1: the shift-and-add reduction of the 64-bit product is exact.\<close>

theorem random_is_lehmer:
  "let s = (RandomNext ^^ n) (RandomInit seed)
   in 0 < unat s \<and> unat s < 2147483647 \<and> unat (RandomNext s) = unat s * 16807 mod 2147483647"
proof -
  have "0 < unat ((RandomNext ^^ n) (RandomInit seed)) \<and> unat ((RandomNext ^^ n) (RandomInit seed)) < 2147483647"
    by (induction n) (simp_all add: RandomInit_range RandomNext_range)
  then show ?thesis using RandomNext_value(1) by (simp add: Let_def)
qed



text \<open>C20: Inserting keys into an empty skip list, in any order and with whatever heights its random
  generator draws, ends, keeps the list's invariant (every level is the sublist of the tall
  enough nodes, in key order), and Contains then answers exactly for the inserted keys.\<close>

theorem skip_list_set:
  assumes "key_order cmp dm" "\<forall>k \<in> set ks. dm k" "sorted_wrt (\<lambda>a b. cmp a b \<noteq> 0) ks"
  shows "\<exists>s ids. InsertAll cmp fresh ks (SkipList_new fresh d a) = Some s \<and> skip_inv cmp dm s ids
    \<and> set (keys_of s ids) = set ks \<and> (\<forall>k. dm k \<longrightarrow> Contains cmp s k = Some (\<exists>x \<in> set ks. cmp k x = 0))"
proof -
  obtain s ids where "InsertAll cmp fresh ks (SkipList_new fresh d a) = Some s"
      "skip_inv cmp dm s ids" "set (keys_of s ids) = set ks"
    using key_order.InsertAll_spec [OF assms(1) SkipList_new_inv _ assms(2,3), of fresh d a fresh] by (auto simp: keys_of_def)
  with key_order.Contains_spec [OF assms(1) this(2)] show ?thesis by metis
qed

theorem skip_list_set_witness:
  "\<exists>s. InsertAll (\<lambda>a b. a - b) bump_new [5, 2, 9 :: int] (SkipList_new bump_new 0 Arena_new) = Some s
     \<and> Contains (\<lambda>a b. a - b) s 2 = Some True \<and> Contains (\<lambda>a b. a - b) s 3 = Some False"
proof -
  have "key_order (\<lambda>a b. a - b) (\<lambda>x :: int. True)" by unfold_locales auto
  from skip_list_set [OF this, of "[5, 2, 9]" bump_new 0 Arena_new] show ?thesis by auto
qed

section \<open>Blocks and tables\<close>

text \<open>The footer of a table is always 48 bytes and decodes to the two handles it was made from,
  whatever follows; a table file that is shorter, or whose last 8 bytes are not the magic number,
  is rejected with a Corruption status.\<close>

theorem footer_roundtrip:
  "length (Footer_EncodeTo f []) = kEncodedLength \<and> Footer_DecodeFrom (Footer_EncodeTo f [] @ rest) = Inr (f, rest)
   \<and> (length input < kEncodedLength \<or>
      push_bit 32 (ucast (DecodeFixed32 (drop 44 input)) :: u64) OR ucast (DecodeFixed32 (drop 40 input)) \<noteq> kTableMagicNumber
      \<longrightarrow> (\<exists>msg. Footer_DecodeFrom input = Inl (Corruption msg [])))"
  using Footer_length Footer_Decode_Encode
  by (auto simp: Footer_DecodeFrom_def kEncodedLength_def kMaxEncodedLength_def Let_def)

theorem footer_roundtrip_witness:
  "\<exists>msg. Footer_DecodeFrom [1, 2, 3] = Inl (Corruption msg [])"
proof -
  have "length [1, 2, 3 :: byte] < kEncodedLength" by (simp add: kEncodedLength_def)
  with footer_roundtrip [of "\<lparr>ft_metaindex_handle = BlockHandle_new, ft_index_handle = BlockHandle_new\<rparr>" "[]" "[1, 2, 3]"]
  show ?thesis by blast
qed

text \<open>C25: A block built from entries in strictly ascending order (for any lawful comparator and any
  restart interval) opens to an iterator whose forward scan returns exactly these entries, whose
  backward scan returns them reversed, and whose Seek from the fresh state stands at the first
  entry not below the target, if any.\<close>

theorem block_roundtrip:
  assumes "comparator_laws c dm" "0 < interval" "length (fst (BB_Finish (BB_AddAll (BlockBuilder_new interval) es))) < 2 ^ 32"
    and "sorted_wrt (\<lambda>a b. Compare c (fst a) (fst b) < 0) es" "\<forall>e \<in> set es. dm (fst e)" "dm t"
  shows "let it = Block_NewIterator (Block_new (fst (BB_Finish (BB_AddAll (BlockBuilder_new interval) es)))); lb = lower_bound c es t
    in scan (Block_ops c) it = Some es \<and> rscan (Block_ops c) it = Some (rev es)
       \<and> (\<exists>it'. it_Seek (Block_ops c) it t = Some it' \<and> it_Valid (Block_ops c) it' = (lb < length es)
             \<and> (lb < length es \<longrightarrow> (it_key (Block_ops c) it', it_value (Block_ops c) it') = es ! lb))"
  using comparator_laws.block_cursor [OF assms] by (simp add: Let_def)

theorem block_roundtrip_witness:
  "rscan (Block_ops BytewiseComparator) (Block_NewIterator (Block_new (fst (BB_Finish
     (BB_AddAll (BlockBuilder_new 2) [([1, 1], [7]), ([1, 2], []), ([1, 2, 3], [8])]))))) = Some [([1, 2, 3], [8]), ([1, 2], []), ([1, 1], [7])]"
proof -
  let ?es = "[([1, 1], [7]), ([1, 2], []), ([1, 2, 3], [8])] :: entries"
  have "EncodeVarint32 0 = [0]" "EncodeVarint32 1 = [1]" "EncodeVarint32 2 = [2]" "EncodeVarint32 3 = [3]" by code_simp+
  then have "length (fst (BB_Finish (BB_AddAll (BlockBuilder_new 2) ?es))) < 2 ^ 32"
    by (simp add: Finish_length BB_CurrentSizeEstimate_def BB_AddAll_def BB_Add_def BlockBuilder_new_def PutVarint32_def)
  moreover have "sorted_wrt (\<lambda>a b. Compare BytewiseComparator (fst a) (fst b) < 0) ?es" by simp
  ultimately have "rscan (Block_ops BytewiseComparator) (Block_NewIterator (Block_new (fst (BB_Finish (BB_AddAll (BlockBuilder_new 2) ?es)))))
      = Some (rev ?es)"
    using block_roundtrip [OF bytewise.comparator_laws_axioms, of 2 ?es "[]"] unfolding Let_def by simp
  then show ?thesis by simp
qed

text \<open>
  A table written to a file that does not fail opens, as the contents of a file that does not change.
\<close>

lemma written_table_opens:
  assumes "reliable_file ops contents" "comparator_laws (op_comparator opt) dm" "contents f = []" "0 < op_block_restart_interval opt"
    and "sorted_wrt (\<lambda>a b. Compare (op_comparator opt) (fst a) (fst b) < 0) es" "\<forall>e \<in> set es. dm (fst e)"
  shows "\<exists>r s r'. TB_AddAll ops es (TableBuilder_new opt f) = Some r \<and> TB_Finish ops r = Some (s, r') \<and> ok s \<and>
    (\<forall>read inb. random_file read (contents (tb_file r')) inb \<longrightarrow> length (contents (tb_file r')) < 2 ^ 32 \<longrightarrow>
       (\<exists>t id fl ies. Table_Open opt read (TB_FileSize r') next_id = Some (Inr t, id)
          \<and> table_reader read (contents (tb_file r')) inb opt dm \<and> table_of opt dm read (contents (tb_file r')) t es fl ies))"
proof -
  have "table_writer ops contents opt dm" unfolding table_writer_def using assms(1,2) by blast
  from table_writer.table_built [OF this assms(3-6)] obtain r s r' fl ix mx where
    B: "TB_AddAll ops es (TableBuilder_new opt f) = Some r" "TB_Finish ops r = Some (s, r')" "ok s"
      "table_file opt dm (contents (tb_file r')) es fl ix mx" "tb_offset r' = of_nat (length (contents (tb_file r')))"
    by blast
  obtain ioff ies iraw where ix: "ix = (ioff, ies, iraw)" by (cases ix)
  obtain moff mes mraw where mx: "mx = (moff, mes, mraw)" by (cases mx)
  have "\<exists>t id fl ies. Table_Open opt read (TB_FileSize r') next_id = Some (Inr t, id)
      \<and> table_reader read (contents (tb_file r')) inb opt dm \<and> table_of opt dm read (contents (tb_file r')) t es fl ies"
    if "random_file read (contents (tb_file r')) inb" "length (contents (tb_file r')) < 2 ^ 32" for read inb
  proof -
    have R: "table_reader read (contents (tb_file r')) inb opt dm"
      unfolding table_reader_def table_reader_axioms_def using assms(2) that by blast
    from table_reader.Open_written [OF R B(4) [unfolded ix mx], of next_id] R show ?thesis
      by (auto simp: TB_FileSize_def B(5))
  qed
  with B(1-3) show ?thesis by blast
qed

text \<open>A concrete table, small enough to know the length of its file.\<close>

lemma small_table_length:
  "\<exists>r s r'. TB_AddAll memory_file_ops [([1], [2]), ([3], [4])] (TableBuilder_new Options_new []) = Some r
     \<and> TB_Finish memory_file_ops r = Some (s, r') \<and> length (tb_file r') < 2 ^ 32"
proof -
  have e: "EncodeVarint32 0 = [0]" "EncodeVarint32 1 = [1]" by code_simp+
  have s: "Bytewise_FindShortestSeparator [1] [3] = [2]" "Bytewise_FindShortSuccessor [3] = [4]" by code_simp+
  have t: "length (block_trailer d t) = 5" for d t by (simp add: block_trailer_def)
  let ?h = "BlockHandle_EncodeTo \<lparr>bh_offset = 0, bh_size = 18\<rparr> []"
  have "length (EncodeVarint32 (of_nat (length ?h))) + length ?h \<le> 5 + 20"
    using BlockHandle_EncodeTo_length [of "\<lparr>bh_offset = 0, bh_size = 18\<rparr>"] length_EncodeVarint32 [of "of_nat (length ?h)"]
    by (simp add: kMaxEncodedLength_def)
  then show ?thesis
    by (simp add: e s t TB_Add_def TableBuilder_new_def Options_new_def memory_file_ops_def BB_Add_def BlockBuilder_new_def
        Let_def TB_Finish_def TB_Flush_def WriteBlock_def WriteRawBlock_def BB_empty_def BB_CurrentSizeEstimate_def PutVarint32_def
        ok_def OK_def TB_WriteMeta_def TB_WriteFilter_def TB_WriteIndex_def TB_WriteFooter_def Footer_length kEncodedLength_def
        kMaxEncodedLength_def BB_Reset_def BB_Finish_def TB_AddIndex_def)
qed

text \<open>C6: A table built from entries in strictly ascending order, on a file that does not fail, under any
  options (block size, restart interval, filter policy) and any lawful comparator, is finished
  with status OK; opening what was written succeeds, and the iterator of the opened table scans
  exactly the entries, forwards and backwards, and seeks to the first entry not below the target.
  This composes block builder, checksummed block storage, index and footer with their readers and
  the two-level iterator.\<close>

theorem table_roundtrip:
  assumes "reliable_file ops contents" "comparator_laws (op_comparator opt) dm" "contents f = []" "0 < op_block_restart_interval opt"
    and "sorted_wrt (\<lambda>a b. Compare (op_comparator opt) (fst a) (fst b) < 0) es" "\<forall>e \<in> set es. dm (fst e)" "dm k"
  shows "\<exists>r s r'. TB_AddAll ops es (TableBuilder_new opt f) = Some r \<and> TB_Finish ops r = Some (s, r') \<and> ok s \<and>
    (\<forall>read inb. random_file read (contents (tb_file r')) inb \<longrightarrow> length (contents (tb_file r')) < 2 ^ 32 \<longrightarrow>
       (\<exists>t id. Table_Open opt read (TB_FileSize r') next_id = Some (Inr t, id) \<and>
          (let ops = Table_iter_ops t options; it = Table_NewIterator t; lb = lower_bound (op_comparator opt) es k in
             scan ops it = Some es \<and> rscan ops it = Some (rev es)
             \<and> (\<exists>it'. it_Seek ops it k = Some it' \<and> it_Valid ops it' = (lb < length es)
                  \<and> (lb < length es \<longrightarrow> (it_key ops it', it_value ops it') = es ! lb)))))"
proof -
  obtain r s r' where R: "TB_AddAll ops es (TableBuilder_new opt f) = Some r" "TB_Finish ops r = Some (s, r')" "ok s"
    and T: "\<And>read inb. random_file read (contents (tb_file r')) inb \<Longrightarrow> length (contents (tb_file r')) < 2 ^ 32 \<Longrightarrow>
       \<exists>t id fl ies. Table_Open opt read (TB_FileSize r') next_id = Some (Inr t, id)
          \<and> table_reader read (contents (tb_file r')) inb opt dm \<and> table_of opt dm read (contents (tb_file r')) t es fl ies"
    using written_table_opens [OF assms(1-6), of next_id] by blast
  have "\<exists>t id. Table_Open opt read (TB_FileSize r') next_id = Some (Inr t, id) \<and>
          (let ops = Table_iter_ops t options; it = Table_NewIterator t; lb = lower_bound (op_comparator opt) es k in
             scan ops it = Some es \<and> rscan ops it = Some (rev es)
             \<and> (\<exists>it'. it_Seek ops it k = Some it' \<and> it_Valid ops it' = (lb < length es)
                  \<and> (lb < length es \<longrightarrow> (it_key ops it', it_value ops it') = es ! lb)))"
    if file_ok: "random_file read (contents (tb_file r')) inb" "length (contents (tb_file r')) < 2 ^ 32" for read inb
  proof -
    from T [OF file_ok] obtain t id fl ies where t: "Table_Open opt read (TB_FileSize r') next_id = Some (Inr t, id)"
        "table_reader read (contents (tb_file r')) inb opt dm" "table_of opt dm read (contents (tb_file r')) t es fl ies" by blast
    from table_reader.table_cursor [OF t(2,3) assms(7), of options] t(1) show ?thesis by blast
  qed
  with R show ?thesis by blast
qed

theorem table_roundtrip_witness:
  "\<exists>r s r' t id. TB_AddAll memory_file_ops [([1], [2]), ([3], [4])] (TableBuilder_new Options_new []) = Some r
     \<and> TB_Finish memory_file_ops r = Some (s, r') \<and> ok s
     \<and> Table_Open Options_new (PosixRandom_Read (\<lambda>_. []) disk_pread [] (tb_file r')) (TB_FileSize r') 0 = Some (Inr t, id)
     \<and> scan (Table_iter_ops t \<lparr>ro_verify_checksums = True, ro_fill_cache = False\<rparr>) (Table_NewIterator t) = Some [([1], [2]), ([3], [4])]"
proof -
  have o: "op_comparator Options_new = BytewiseComparator" "0 < op_block_restart_interval Options_new"
    by (simp_all add: Options_new_def)
  have "comparator_laws (op_comparator Options_new) (\<lambda>_. True)" unfolding o by (rule bytewise.comparator_laws_axioms)
  from table_roundtrip [where es = "[([1], [2]), ([3], [4])]" and k = "[]" and next_id = 0
      and options = "\<lparr>ro_verify_checksums = True, ro_fill_cache = False\<rparr>", OF memory.reliable_file_axioms this refl o(2)]
  have "\<exists>r s r'. TB_AddAll memory_file_ops [([1], [2]), ([3], [4])] (TableBuilder_new Options_new []) = Some r \<and>
      TB_Finish memory_file_ops r = Some (s, r') \<and> ok s \<and>
      (\<forall>read inb. random_file read (tb_file r') inb \<longrightarrow> length (tb_file r') < 2 ^ 32 \<longrightarrow>
      (\<exists>t id. Table_Open Options_new read (TB_FileSize r') 0 = Some (Inr t, id)
         \<and> scan (Table_iter_ops t \<lparr>ro_verify_checksums = True, ro_fill_cache = False\<rparr>) (Table_NewIterator t) = Some [([1], [2]), ([3], [4])]))"
    unfolding Let_def by (simp add: o(1) del: TB_AddAll.simps) blast
  then obtain r s r' where R: "TB_AddAll memory_file_ops [([1], [2]), ([3], [4])] (TableBuilder_new Options_new []) = Some r"
      "TB_Finish memory_file_ops r = Some (s, r')" "ok s"
    and T: "\<And>read inb. random_file read (tb_file r') inb \<Longrightarrow> length (tb_file r') < 2 ^ 32 \<Longrightarrow>
      \<exists>t id. Table_Open Options_new read (TB_FileSize r') 0 = Some (Inr t, id)
         \<and> scan (Table_iter_ops t \<lparr>ro_verify_checksums = True, ro_fill_cache = False\<rparr>) (Table_NewIterator t) = Some [([1], [2]), ([3], [4])]"
    by blast
  have "length (tb_file r') < 2 ^ 32" using small_table_length R by auto
  from T [OF disk.random_file_axioms this] R show ?thesis by blast
qed

text \<open>C8: The merging iterator over any number of children, each a lawful iterator over its own
  entries and with no key shared between two of them, is a lawful iterator over the sorted merge:
  it scans exactly the merge in both directions, a seek stands at the first entry of the merge not
  below the target, and from there a Prev that turns the direction round lands on the entry before.\<close>

theorem merging_iterator_sorted:
  fixes ops :: "'s iter_ops"
  assumes "comparator_laws c dm" "sorted_iterator c dm ops pos"
    and "mset es = mset (concat ess)" "sorted_wrt (\<lambda>a b. Compare c (fst a) (fst b) < 0) es" "\<forall>e \<in> set es. dm (fst e)"
    and "length children = length ess" "\<forall>j < length ess. pos (children ! j) (ess ! j) (length (ess ! j))" "dm t"
  shows "let it = NewMergingIterator ops children; m = Merged_ops c ops; lb = lower_bound c es t
    in scan m it = Some es \<and> rscan m it = Some (rev es)
       \<and> (\<exists>s. it_Seek m it t = Some s \<and> it_Valid m s = (lb < length es)
             \<and> (lb < length es \<longrightarrow> (it_key m s, it_value m s) = es ! lb)
             \<and> (0 < lb \<and> lb < length es \<longrightarrow> (\<exists>s'. it_Prev m s = Some s' \<and> (it_key m s', it_value m s') = es ! (lb - 1))))"
proof -
  let ?m = "Merged_ops c ops" and ?lb = "lower_bound c es t"
  have M: "merging c dm ops pos" unfolding merging_def using assms(1,2) by blast
  have mg: "merge_of c es ess" unfolding merge_of_def using assms(3,4) by blast
  note L = merging.merged_sorted [OF M] and A = merging.NewMergingIterator_at [OF M mg assms(5,6,7)]
  obtain s where s: "it_Seek ?m (NewMergingIterator ops children) t = Some s"
      "case_sum at_empty (case_sum pos (at_merging c dm ops pos)) s es ?lb"
    using sorted_iterator.at_Seek [OF L A assms(8)] by blast
  have "\<exists>s'. it_Prev ?m s = Some s' \<and> (it_key ?m s', it_value ?m s') = es ! (?lb - 1)" if lb: "0 < ?lb" "?lb < length es"
  proof -
    obtain s' where s': "it_Prev ?m s = Some s'" "case_sum at_empty (case_sum pos (at_merging c dm ops pos)) s' es (?lb - 1)"
      using sorted_iterator.at_Prev [OF L s(2) lb(2)] lb(1) by auto
    from s'(1) sorted_iterator.at_key [OF L s'(2)] sorted_iterator.at_value [OF L s'(2)] lb show ?thesis by simp
  qed
  note prev = this and cur = merging.merged_cursor [OF M mg assms(5,6,7,8)]
  from cur s(1) have v: "it_Valid ?m s = (?lb < length es)"
      "?lb < length es \<longrightarrow> (it_key ?m s, it_value ?m s) = es ! ?lb"
    by (elim conjE exE, simp)+
  have "0 < ?lb \<and> ?lb < length es \<longrightarrow> (\<exists>s'. it_Prev ?m s = Some s' \<and> (it_key ?m s', it_value ?m s') = es ! (?lb - 1))"
    using prev by blast
  with v s(1) have "\<exists>s. it_Seek ?m (NewMergingIterator ops children) t = Some s \<and> it_Valid ?m s = (?lb < length es)
      \<and> (?lb < length es \<longrightarrow> (it_key ?m s, it_value ?m s) = es ! ?lb)
      \<and> (0 < ?lb \<and> ?lb < length es \<longrightarrow> (\<exists>s'. it_Prev ?m s = Some s' \<and> (it_key ?m s', it_value ?m s') = es ! (?lb - 1)))"
    by blast
  with cur show ?thesis unfolding Let_def by blast
qed

theorem merging_iterator_sorted_witness:
  "rscan (Merged_ops BytewiseComparator (Block_ops BytewiseComparator)) (NewMergingIterator (Block_ops BytewiseComparator)
     [Block_NewIterator (Block_new (fst (BB_Finish (BB_AddAll (BlockBuilder_new 2) [([1], [7]), ([3], [8])])))),
      Block_NewIterator (Block_new (fst (BB_Finish (BB_AddAll (BlockBuilder_new 2) [([2], [9])]))))])
   = Some [([3], [8]), ([2], [9]), ([1], [7])]"
proof -
  let ?b = "\<lambda>es. Block_NewIterator (Block_new (fst (BB_Finish (BB_AddAll (BlockBuilder_new 2) es))))"
  let ?ess = "[[([1], [7]), ([3], [8])], [([2], [9])]] :: entries list" and ?es = "[([1], [7]), ([2], [9]), ([3], [8])] :: entries"
  have "EncodeVarint32 0 = [0]" "EncodeVarint32 1 = [1]" by code_simp+
  then have len: "\<forall>es \<in> set ?ess. length (fst (BB_Finish (BB_AddAll (BlockBuilder_new 2) es))) < 2 ^ 32"
    by (simp add: Finish_length BB_CurrentSizeEstimate_def BB_AddAll_def BB_Add_def BlockBuilder_new_def PutVarint32_def)
  have at: "\<forall>es \<in> set ?ess. case_sum at_empty (at_block BytewiseComparator (\<lambda>_. True)) (?b es) es (length es)"
  proof
    fix es assume "es \<in> set ?ess"
    then show "case_sum at_empty (at_block BytewiseComparator (\<lambda>_. True)) (?b es) es (length es)"
      by (intro bytewise.block_read_back) (use len in auto)
  qed
  then have "\<forall>j < length ?ess. case_sum at_empty (at_block BytewiseComparator (\<lambda>_. True)) (map ?b ?ess ! j) (?ess ! j) (length (?ess ! j))"
    unfolding all_set_conv_all_nth by (intro allI impI) (subst nth_map, assumption, blast)
  moreover have "mset ?es = mset (concat ?ess)" "sorted_wrt (\<lambda>a b. Compare BytewiseComparator (fst a) (fst b) < 0) ?es" by simp_all
  ultimately have "rscan (Merged_ops BytewiseComparator (Block_ops BytewiseComparator))
      (NewMergingIterator (Block_ops BytewiseComparator) (map ?b ?ess)) = Some (rev ?es)"
    using merging_iterator_sorted [where es = ?es and ess = ?ess and children = "map ?b ?ess" and t = "[]", OF bytewise.comparator_laws_axioms
        bytewise.block.sorted_iterator_axioms]
    unfolding Let_def by simp
  then show ?thesis by simp
qed

section \<open>The database iterator\<close>

text \<open>C9: Over any lawful iterator on internal keys, the database iterator at a snapshot scans, in
  either direction, exactly the user view of the snapshot: for each user key the newest entry with
  a sequence number not above the snapshot, and nothing for a key whose newest such entry is a
  deletion. A seek reaches the first key of the view not below the target, and moving forward from
  there gives the rest of the view. All loops of the iterator end.\<close>

theorem snapshot_iterator:
  assumes "user_comparator c" "sorted_iterator (InternalKeyComparator c) (\<lambda>k. 8 \<le> length k) ops pos"
    and "pos it es p" "\<forall>e \<in> set es. ParseInternalKey (fst e) \<noteq> None" "snap \<le> kMaxSequenceNumber"
  shows "let v = user_view c snap es; m = DBIter_ops c ops; db = NewDBIterator it snap; lb = lower_bound c v t
    in scan m db = Some v \<and> rscan m db = Some (rev v)
       \<and> (\<exists>s. it_Seek m db t = Some s \<and> it_Valid m s = (lb < length v) \<and> scan_from m s = Some (drop lb v))"
proof -
  have "db_iterator c ops pos" unfolding db_iterator_def using assms(1,2) by blast
  from db_iterator.snapshot_scan [OF this assms(3) _ assms(5)] assms(4) show ?thesis
    by (simp add: Let_def well_keyed_def)
qed

text \<open>A bound on the size of a block.\<close>

lemma block_size_bound:
  "length (bb_buffer (BB_AddAll b es)) + 4 * length (bb_restarts (BB_AddAll b es))
     \<le> length (bb_buffer b) + 4 * length (bb_restarts b) + (\<Sum>(k, v)\<leftarrow>es. 19 + length k + length v)"
proof (induction es arbitrary: b)
  case (Cons e es)
  obtain k v where e: "e = (k, v)" by (cases e)
  have "length (bb_buffer (BB_Add b k v)) + 4 * length (bb_restarts (BB_Add b k v))
      \<le> length (bb_buffer b) + 4 * length (bb_restarts b) + (19 + length k + length v)"
  proof -
    have enc: "length (EncodeVarint32 x) + length (EncodeVarint32 y) + length (EncodeVarint32 z) \<le> 15" for x y z
      using length_EncodeVarint32 [of x] length_EncodeVarint32 [of y] length_EncodeVarint32 [of z] by linarith
    let ?s = "shared_prefix (bb_last_key b) k"
    show ?thesis
      using enc [of "of_nat ?s" "of_nat (length k - ?s)" "of_nat (length v)"] enc [of 0 "of_nat (length k)" "of_nat (length v)"] diff_le_self [of "length k" ?s]
      by (cases "bb_counter b < bb_interval b") (simp_all add: BB_Add_def Let_def PutVarint32_def)
  qed
  moreover have "BB_AddAll b (e # es) = BB_AddAll (BB_Add b k v) es" by (simp add: BB_AddAll_def e)
  ultimately show ?case using Cons.IH [of "BB_Add b k v"] by (simp add: e)
qed (simp add: BB_AddAll_def)

lemma block_fits:
  assumes "(\<Sum>(k, v)\<leftarrow>es. 19 + length k + length v) < 2 ^ 31"
  shows "length (fst (BB_Finish (BB_AddAll (BlockBuilder_new interval) es))) < 2 ^ 32"
  using block_size_bound [of "BlockBuilder_new interval" es] assms
  by (simp add: Finish_length BB_CurrentSizeEstimate_def BlockBuilder_new_def)

theorem snapshot_iterator_witness:
  "let es = [(InternalKey_new [1] 7 kTypeValue, [10]), (InternalKey_new [1] 3 kTypeValue, [11]),
             (InternalKey_new [2] 4 kTypeDeletion, []), (InternalKey_new [2] 1 kTypeValue, [12]), (InternalKey_new [3] 2 kTypeValue, [13])];
       it = Block_NewIterator (Block_new (fst (BB_Finish (BB_AddAll (BlockBuilder_new 16) es))))
   in rscan (DBIter_ops BytewiseComparator (Block_ops (InternalKeyComparator BytewiseComparator))) (NewDBIterator it 5)
        = Some [([3], [13]), ([1], [11])]"
proof -
  define es :: entries where "es = [(InternalKey_new [1] 7 kTypeValue, [10]), (InternalKey_new [1] 3 kTypeValue, [11]),
             (InternalKey_new [2] 4 kTypeDeletion, []), (InternalKey_new [2] 1 kTypeValue, [12]), (InternalKey_new [3] 2 kTypeValue, [13])]"
  let ?it = "Block_NewIterator (Block_new (fst (BB_Finish (BB_AddAll (BlockBuilder_new 16) es))))"
  have "sorted_wrt (\<lambda>a b. Compare (InternalKeyComparator BytewiseComparator) (fst a) (fst b) < 0) es"
    unfolding es_def by code_simp
  moreover have "\<forall>e \<in> set es. 8 \<le> length (fst e)" "\<forall>e \<in> set es. ParseInternalKey (fst e) \<noteq> None"
    unfolding es_def by code_simp+
  moreover have "length (fst (BB_Finish (BB_AddAll (BlockBuilder_new 16) es))) < 2 ^ 32"
    by (rule block_fits) (simp add: es_def)
  moreover have "(5 :: u64) \<le> kMaxSequenceNumber" by code_simp
  moreover have "user_view BytewiseComparator 5 es = [([1], [11]), ([3], [13])]" unfolding es_def by code_simp
  ultimately have "rscan (DBIter_ops BytewiseComparator (Block_ops (InternalKeyComparator BytewiseComparator))) (NewDBIterator ?it 5)
      = Some [([3], [13]), ([1], [11])]"
    using snapshot_iterator [OF bytewise.user_comparator_axioms bytewise.ikey.block.sorted_iterator_axioms
        comparator_laws.block_read_back [OF bytewise.ikey.comparator_laws_axioms, of 16 es], where snap = 5 and t = "[]"]
    unfolding Let_def by auto
  then show ?thesis unfolding es_def Let_def .
qed

text \<open>C14: After a reverse move, a Next of the database iterator can return the key it already stands
  at: over the keys \<open>a\<close> (sequence 1), \<open>b\<close> (sequence 10) and \<open>c\<close> (sequence 3), at snapshot 5, which
  sees \<open>a\<close> and \<open>c\<close>, SeekToLast stands at \<open>c\<close> and the following Next is valid and stands at \<open>c\<close> again
  instead of past the end. The turn takes the key of the entry after the internal iterator for the
  current key, and that entry is \<open>b\<close>, which the snapshot does not see.\<close>

theorem next_after_prev_repeats:
  "let es = [(InternalKey_new [97] 1 kTypeValue, [1]), (InternalKey_new [98] 10 kTypeValue, [2]), (InternalKey_new [99] 3 kTypeValue, [3])];
       it = Block_NewIterator (Block_new (fst (BB_Finish (BB_AddAll (BlockBuilder_new 16) es))));
       m = DBIter_ops BytewiseComparator (Block_ops (InternalKeyComparator BytewiseComparator)); db = NewDBIterator it 5
   in scan m db = Some [([97], [1]), ([99], [3])] \<and>
      (\<exists>s s'. it_SeekToLast m db = Some s \<and> it_Valid m s \<and> it_key m s = [99] \<and>
              it_Next m s = Some s' \<and> it_Valid m s' \<and> it_key m s' = [99])"
proof -
  define es :: entries where "es = [(InternalKey_new [97] 1 kTypeValue, [1]), (InternalKey_new [98] 10 kTypeValue, [2]), (InternalKey_new [99] 3 kTypeValue, [3])]"
  define it where "it = Block_NewIterator (Block_new (fst (BB_Finish (BB_AddAll (BlockBuilder_new 16) es))))"
  let ?m = "DBIter_ops BytewiseComparator (Block_ops (InternalKeyComparator BytewiseComparator))"
  have fits: "length (fst (BB_Finish (BB_AddAll (BlockBuilder_new 16) es))) < 2 ^ 32" by (rule block_fits) (simp add: es_def)
  have sorted: "sorted_wrt (\<lambda>a b. Compare (InternalKeyComparator BytewiseComparator) (fst a) (fst b) < 0) es"
    and keys: "\<forall>e \<in> set es. 8 \<le> length (fst e)" "well_keyed es" unfolding es_def by code_simp+
  have snap: "(5 :: u64) \<le> kMaxSequenceNumber" by code_simp
  have v: "user_view BytewiseComparator 5 es = [([97], [1]), ([99], [3])]" unfolding es_def by code_simp
  have at: "case_sum at_empty (at_block (InternalKeyComparator BytewiseComparator) (\<lambda>k. 8 \<le> length k)) it es (length es)"
    unfolding it_def by (rule comparator_laws.block_read_back [OF bytewise.ikey.comparator_laws_axioms _ fits sorted keys(1)]) simp
  note P = bytewise.db_block.NewDBIterator_at [OF at keys(2) snap]
  have seq: "di_sequence (NewDBIterator it 5) = 5" by (simp add: NewDBIterator_def)
  obtain s where s: "DI_SeekToLast BytewiseComparator (Block_ops (InternalKeyComparator BytewiseComparator)) (NewDBIterator it 5) = Some s"
      "bytewise.db_block.db_pos s es 1" "bytewise.db_block.same_but (NewDBIterator it 5) s" "di_valid s \<longrightarrow> \<not> di_forward s"
    using bytewise.db_block.DI_SeekToLast_at [OF P] seq v by auto
  have s5: "di_sequence s = 5" using s(3) seq by (simp add: bytewise.db_block.same_but_def)
  have many: "1 < length (user_view BytewiseComparator (di_sequence s) es)" using s5 v by simp
  have rev: "\<not> di_forward s" using s(4) bytewise.db_block.db_pos_valid(1) [OF s(2)] many by simp
  have "\<exists>s'. DI_Next BytewiseComparator (Block_ops (InternalKeyComparator BytewiseComparator)) s = Some s' \<and> bytewise.db_block.db_pos s' es 1
      \<and> bytewise.db_block.same_but s s'"
  proof (rule bytewise.db_block.DI_Next_repeats [OF s(2) _ rev])
    show "di_valid s" using bytewise.db_block.db_pos_valid(1) [OF s(2)] many by simp
    fix p q assume q: "q < length es" "exposed BytewiseComparator (di_sequence s) es q" "1 = rank BytewiseComparator (di_sequence s) es q"
      "seen_before (di_sequence s) es q p"
    have len: "length es = 3" by (simp add: es_def)
    have r: "rank BytewiseComparator 5 es 0 = 0" "rank BytewiseComparator 5 es 1 = 1" "\<not> exposed BytewiseComparator 5 es 1"
      "entry_seq es 0 \<le> 5" "\<not> entry_seq es 1 \<le> 5" "Compare BytewiseComparator (uk es 1) (uk es 2) < 0"
      unfolding es_def by code_simp+
    have "q = 0 \<or> q = 1 \<or> q = 2" using q(1) len by linarith
    moreover have "q \<noteq> 0" using q(3) r(1) s5 by (metis zero_neq_one)
    moreover have "q \<noteq> 1" using q(2) r(3) unfolding s5 by blast
    ultimately have "q = 2" by blast
    moreover have "p = 0"
    proof -
      have "p < 2 \<and> entry_seq es p \<le> 5 \<or> \<not> entry_seq es 0 \<le> 5"
        using q(4) unfolding \<open>q = 2\<close> seen_before_def s5 by fastforce
      then have "p < 2" "p \<noteq> 1" using r(4,5) by blast+
      then show ?thesis by linarith
    qed
    ultimately show "(if p < length es then Suc p else 0) < q \<and> Compare BytewiseComparator (uk es (if p < length es then Suc p else 0)) (uk es q) < 0"
      using r(6) len by simp
  qed
  then obtain s' where s': "DI_Next BytewiseComparator (Block_ops (InternalKeyComparator BytewiseComparator)) s = Some s'"
      "bytewise.db_block.db_pos s' es 1" "bytewise.db_block.same_but s s'" by blast
  have more: "1 < length (user_view BytewiseComparator (di_sequence s') es)" using many s'(3) by (simp add: bytewise.db_block.same_but_def)
  have e: "di_valid s" "di_valid s'" "DI_key (Block_ops (InternalKeyComparator BytewiseComparator)) s = [99]"
      "DI_key (Block_ops (InternalKeyComparator BytewiseComparator)) s' = [99]"
    using bytewise.db_block.db_pos_valid(1) [OF s(2)] bytewise.db_block.db_pos_valid(1) [OF s'(2)] many more
      bytewise.db_block.db_pos_entry(1) [OF s(2) many] bytewise.db_block.db_pos_entry(1) [OF s'(2) more] s5 s'(3) v
    by (simp_all add: bytewise.db_block.same_but_def)
  have "scan ?m (NewDBIterator it 5) = Some [([97], [1]), ([99], [3])]"
    using bytewise.db_block.snapshot_scan [OF at keys(2) snap] v by simp
  moreover have "\<exists>s s'. it_SeekToLast ?m (NewDBIterator it 5) = Some s \<and> it_Valid ?m s \<and> it_key ?m s = [99] \<and>
      it_Next ?m s = Some s' \<and> it_Valid ?m s' \<and> it_key ?m s' = [99]"
    using s(1) s'(1) e by (intro exI [of _ s] exI [of _ s'] conjI) (simp_all add: DBIter_ops_def)
  ultimately show ?thesis unfolding es_def it_def Let_def by blast
qed



section \<open>Files of the environment\<close>

text \<open>C27: Whatever short writes and interruptions the device makes, when a sequence of
  appends and the final flush of a buffered file all return OK, the device holds exactly the
  appended bytes, in order, after what it held, and the buffer is empty.\<close>

theorem posix_appends_reach_device:
  assumes "write_call_ok sys written" "pw_buf f = []"
    and "foldl (\<lambda>r d. Option.bind r (\<lambda>(s, f). if ok s then Posix_Append sys d f else Some (s, f))) (Some (OK, f)) ds = Some (s1, f1)"
    and "ok s1" "Posix_Flush sys f1 = Some (s2, f2)" "ok s2"
  shows "written (pw_os f2) = written (pw_os f) @ concat ds \<and> pw_buf f2 = []"
proof -
  have "Posix_contents written f' = Posix_contents written f @ concat ds"
    if "foldl (\<lambda>r d. Option.bind r (\<lambda>(s, f). if ok s then Posix_Append sys d f else Some (s, f))) (Some (OK, f)) ds = Some (s', f')"
      "ok s'" for s' f'
    using that
  proof (induction ds arbitrary: s' f' rule: rev_induct)
    case (snoc d ds)
    obtain s0 f0 where f0: "foldl (\<lambda>r d. Option.bind r (\<lambda>(s, f). if ok s then Posix_Append sys d f else Some (s, f))) (Some (OK, f)) ds = Some (s0, f0)"
        "(if ok s0 then Posix_Append sys d f0 else Some (s0, f0)) = Some (s', f')"
      using snoc.prems(1) by (auto simp: bind_eq_Some_conv)
    then have "ok s0" using snoc.prems(2) by (auto split: if_splits)
    with f0 snoc.IH Posix_Append_contents [OF assms(1) _ snoc.prems(2), of d f0 f'] show ?case by simp
  qed simp
  from this [OF assms(3,4)] FlushBuffer_written [OF assms(1) assms(5) [unfolded Posix_Flush_def] assms(6)] assms(2)
  show ?thesis by (simp add: Posix_contents_def)
qed

theorem posix_appends_reach_device_witness:
  "\<exists>f2. Posix_Flush (disk_calls 0) \<lparr>pw_filename = [], pw_open = True, pw_buf = [1, 2, 3], pw_os = []\<rparr> = Some (OK, f2) \<and> pw_os f2 = [1, 2, 3]"
proof -
  let ?f1 = "\<lparr>pw_filename = [], pw_open = True, pw_buf = [1, 2, 3], pw_os = []\<rparr>"
  obtain f2 where f2: "Posix_Flush (disk_calls 0) ?f1 = Some (OK, f2)"
    by (simp add: Posix_Flush_def FlushBuffer_def WriteUnbuffered_def disk_WriteUnbufferedLoop)
  have "write_call_ok (disk_calls 0) (\<lambda>k. k)" by (rule disk_write_ok)
  moreover have "foldl (\<lambda>r d. Option.bind r (\<lambda>(s, f). if ok s then Posix_Append (disk_calls 0) d f else Some (s, f)))
      (Some (OK, PosixWritableFile_new [] [])) [[1], [2, 3]] = Some (OK, ?f1)"
    by (simp add: Posix_Append_def PosixWritableFile_new_def kWritableFileBufferSize_def ok_def OK_def)
  ultimately show ?thesis
    using posix_appends_reach_device [of "disk_calls 0" "\<lambda>k. k" "PosixWritableFile_new [] []" "[[1], [2, 3]]" OK ?f1 OK f2] f2
    by (simp add: PosixWritableFile_new_def ok_def OK_def)
qed




text \<open>C34: The name of every kind of file of a database parses back to its number and kind, for every
  64-bit number, including those with more digits than the padding.\<close>

theorem file_names_roundtrip:
  "ParseFileName (base_name db (LogFileName db n)) = Some (n, kLogFile)
   \<and> ParseFileName (base_name db (TableFileName db n)) = Some (n, kTableFile)
   \<and> ParseFileName (base_name db (TempFileName db n)) = Some (n, kTempFile)
   \<and> ParseFileName (base_name db (DescriptorFileName db n)) = Some (n, kDescriptorFile)
   \<and> ParseFileName (base_name db (CurrentFileName db)) = Some (0, kCurrentFile)
   \<and> ParseFileName (base_name db (LockFileName db)) = Some (0, kDBLockFile)
   \<and> ParseFileName (base_name db (InfoLogFileName db)) = Some (0, kInfoLogFile)
   \<and> ParseFileName (base_name db (OldInfoLogFileName db)) = Some (0, kInfoLogFile)"
  using ParseFileName_Mask ParseFileName_fixed ParseFileName_Descriptor by blast

text \<open>C35: Parsing a maximal run of decimal digits returns its value when it is below 2^64 and
  fails otherwise: the overflow test before each digit is exact.\<close>

theorem decimal_exact_or_rejected:
  assumes "ds \<noteq> []" "\<forall>b \<in> set ds. is_digit b" "rest = [] \<or> \<not> is_digit (hd rest)"
  shows "ConsumeDecimalNumber (ds @ rest) = (if dec_value 0 ds < 2 ^ 64 then Some (of_nat (dec_value 0 ds), rest) else None)"
  by (rule ConsumeDecimalNumber_digits [OF assms])

theorem decimal_exact_or_rejected_witness:
  "ConsumeDecimalNumber (lit ''18446744073709551616'') = None \<and> ConsumeDecimalNumber (lit ''18446744073709551615'' @ lit ''.log'') = Some (NOT 0, lit ''.log'')"
  using decimal_exact_or_rejected [of "lit ''18446744073709551616''" "[]"]
    decimal_exact_or_rejected [of "lit ''18446744073709551615''" "lit ''.log''"]
  by (simp add: lit_def is_digit_def dec_value_simps)

section \<open>Filters\<close>

text \<open>C22: For every Bloom filter setting, every layout of data blocks at ascending offsets and every
  key added for a block, the filter block written for the table lets that key through for that
  block's offset: a reader never skips a block that holds the key it looks for, byte for byte.\<close>

theorem filter_block_complete:
  assumes "sorted (map fst fblocks)" "(off, keys) \<in> set fblocks" "k \<in> set keys"
    and "length (FilterBlock_Finish (BloomFilterPolicy n) (AddBlocks (BloomFilterPolicy n) fblocks FilterBlockBuilder_new)) < 2 ^ 32"
  shows "FilterBlock_KeyMayMatch (BloomFilterPolicy n)
    (FilterBlockReader_new (FilterBlock_Finish (BloomFilterPolicy n) (AddBlocks (BloomFilterPolicy n) fblocks FilterBlockBuilder_new))) off k"
  by (rule bloom.FilterBlock_no_false_negative [OF assms])

theorem filter_block_complete_witness:
  "FilterBlock_KeyMayMatch (BloomFilterPolicy 10) (FilterBlockReader_new (FilterBlock_Finish (BloomFilterPolicy 10)
     (AddBlocks (BloomFilterPolicy 10) [(0, [[1], [2]]), (3000, [[3]])] FilterBlockBuilder_new))) 3000 [3]"
proof (rule filter_block_complete [where keys = "[[3]]"])
  have l: "length (Bloom_CreateFilter 10 keys dst) = length dst + bloom_bytes (length keys) 10 + 1" for keys dst
    by (simp add: Bloom_CreateFilter_def Let_def)
  show "length (FilterBlock_Finish (BloomFilterPolicy 10)
     (AddBlocks (BloomFilterPolicy 10) [(0, [[1], [2]]), (3000, [[3]])] FilterBlockBuilder_new)) < 2 ^ 32"
    by (simp add: FilterBlock_Finish_def StartBlock_def StartBlockLoop.simps AddKey_def GenerateFilter_def FilterBlockBuilder_new_def
        PutFixed32_def BloomFilterPolicy_def kFilterBase_def l bloom_bytes_def)
qed simp_all





section \<open>The cache\<close>



text \<open>C26: An entry that is pinned by one handle and then erased (or replaced) keeps the cache's own
  reference: releasing the handle leaves it with one reference, off the evictable list and out of
  the table, its charge still counted and its deleter not called. Nothing can reach it any more,
  so it is never freed.\<close>

theorem cache_pinned_entry_leaks:
  assumes "cache_inv c" "cache_abs c (le_key e) = Some (le_value e)" "lc_store c i = Some e" "i \<in> lc_ids c" "le_refs e = 2"
  shows "let d = Cache_Release i (Cache_Erase (le_key e) c)
    in lc_store d i = Some (e\<lparr>le_in_cache := False, le_refs := 1\<rparr>) \<and> i \<notin> lc_ids d \<and> i \<notin> set (lc_lru d)
       \<and> lc_usage d = lc_usage c \<and> lc_calls d = lc_calls c"
proof -
  have but: "cache_inv_but c {}" using assms(1) by (simp add: cache_inv_def)
  note I = cache_butD [OF but]
  obtain r t where rm: "HT_Remove (lc_store c) (lc_table c) (le_key e) (Hash (le_key e) 0) = (r, t)" by fastforce
  note R = HT_Remove_inv [OF assms(1) rm]
  have "HT_Lookup (lc_store c) (lc_table c) (le_key e) (Hash (le_key e) 0) = Some i"
    using HT_Lookup_iff [OF I(1), of "le_key e" i] assms(3,4) by (simp add: lc_ids_def)
  then have r: "r = Some i" using R(1) by simp
  have lru: "i \<notin> set (lc_lru c)" using I(10) [OF assms(3)] assms(5) by (simp add: entry_inv_def)
  have ids: "i \<notin> lc_ids (c\<lparr>lc_table := t\<rparr>)" using R(4) r by simp
  let ?c1 = "c\<lparr>lc_table := t, lc_store := (lc_store c)(i \<mapsto> e\<lparr>le_in_cache := False\<rparr>)\<rparr>"
  have er: "Cache_Erase (le_key e) c = ?c1"
    unfolding Cache_Erase_def rm r Cache_Drop_def lc_entry_def lc_set_def Let_def using assms(3,5) by simp
  have "Cache_Release i ?c1 = ?c1\<lparr>lc_store := (lc_store c)(i \<mapsto> e\<lparr>le_in_cache := False, le_refs := 1\<rparr>)\<rparr>"
    using assms(5) by (simp add: Cache_Release_def Cache_Unref_def lc_entry_def lc_set_def)
  note rel = this
  show ?thesis unfolding Let_def er rel using ids lru by (simp add: lc_ids_def)
qed

theorem cache_pinned_entry_leaks_witness:
  "\<exists>d i. Cache_Insert [1] (7 :: nat) 3 (Some ()) (NewLRUCache 10) = Some (Some i, d)
     \<and> lc_calls (Cache_Release i (Cache_Erase [1] d)) = lc_calls d \<and> lc_usage (Cache_Release i (Cache_Erase [1] d)) = lc_usage d"
proof -
  let ?n = "NewLRUCache 10 :: (nat, unit) LRUCache"
  have "ht_count (lc_table ?n) < 2 ^ 31 - 1" by (simp add: NewLRUCache_def HandleTable_new_def Resize_def Let_def)
  moreover have "0 < lc_capacity ?n" by (simp add: NewLRUCache_def)
  ultimately obtain d where d: "Cache_Insert [1] 7 3 (Some ()) ?n = Some (Some (lc_next ?n), d)" "cache_inv d"
      "lc_store d (lc_next ?n) = Some (new_entry [1] 7 3 (Some ()))" "lc_next ?n \<in> lc_ids d"
    using Cache_Insert_spec [OF NewLRUCache_inv, of 10 3 "[1]" 7 "Some ()"] by auto
  have a: "cache_abs d [1] = Some 7"
    unfolding cache_abs_iff [OF d(2)] using d(3) by (intro bexI [OF _ d(4)]) (simp add: new_entry_def)
  show ?thesis
    using cache_pinned_entry_leaks [OF d(2) _ d(3,4)] a d(1) by (auto simp: new_entry_def Let_def)
qed


section \<open>Versions\<close>

text \<open>C15: Decoding any bytes as a version edit ends with status OK or Corruption and leaves a
  well-formed edit (levels below 7, keys that parse, deletions in order); and a well-formed edit
  encodes to bytes that decode with status OK to the same edit. So whatever the decoder accepts
  survives being written to the MANIFEST and read again.\<close>

theorem version_edit_roundtrip:
  "edit_ok (snd (VE_DecodeFrom src)) \<and>
     (fst (VE_DecodeFrom src) = OK \<or> (\<exists>msg. fst (VE_DecodeFrom src) = Corruption (lit ''VersionEdit'') msg)) \<and>
     (\<forall>e. edit_ok e \<longrightarrow> VE_DecodeFrom (VE_EncodeTo e []) = (OK, e))"
  using Decode_total Decode_Encode by blast

theorem version_edit_roundtrip_witness:
  "let e = VE_AddFile (VE_RemoveFile (SetLastSequence VE_Clear 42) 1 7) 2 9 100
             (InternalKey_new [97] 5 kTypeValue) (InternalKey_new [98] 3 kTypeValue)
   in VE_DecodeFrom (VE_EncodeTo e []) = (OK, e)"
proof -
  have "edit_ok (VE_AddFile (VE_RemoveFile (SetLastSequence VE_Clear 42) 1 7) 2 9 100
             (InternalKey_new [97] 5 kTypeValue) (InternalKey_new [98] 3 kTypeValue))"
    by (simp add: edit_ok_def edit_fields_def VE_AddFile_def VE_AddFileMeta_def VE_RemoveFile_def SetLastSequence_def VE_Clear_def
        FileMetaData_new_def key_ok_def level_ok_def kNumLevels_def ParseInternalKey_new kMaxSequenceNumber_def insort_insert_key_def)
  with version_edit_roundtrip [of "[]"] show ?thesis unfolding Let_def by blast
qed


text \<open>C39: The search for the files that overlap a key range ends with a result: every file of the level
  that overlaps the range is in it; at level 0, where the range widens and the search restarts, no
  file that is left out shares a user key range with a file that was taken; at the other levels
  the result is exactly the files that overlap the given range, in their order.\<close>

theorem overlap_inputs_closed:
  assumes "user_comparator c"
  shows "let rb = map_option InternalKey_user_key b; re = map_option InternalKey_user_key e
    in \<exists>inputs. GetOverlappingInputs c v level b e = Some inputs \<and> set inputs \<subseteq> set (v_files v level)
     \<and> {f \<in> set (v_files v level). overlaps c rb re f} \<subseteq> set inputs
     \<and> (if level = 0
        then \<forall>f \<in> set inputs. \<forall>g \<in> set (v_files v 0) - set inputs.
               Compare c (limit_of g) (start_of f) < 0 \<or> Compare c (limit_of f) (start_of g) < 0
        else inputs = filter (overlaps c rb re) (v_files v level))"
proof (cases "level = 0")
  case False
  with user_comparator.GetOverlappingInputs_plain [OF assms] show ?thesis by (simp add: Let_def)
next
  case True
  from user_comparator.GetOverlappingInputs_level0 [OF assms] obtain b' e' where
    w: "widens c (map_option InternalKey_user_key b) (map_option InternalKey_user_key e) b' e'"
    and r: "GetOverlappingInputs c v 0 b e = Some (filter (overlaps c b' e') (v_files v 0))"
    and i: "\<forall>f \<in> set (v_files v 0). overlaps c b' e' f \<longrightarrow> Versions.inside c b' e' f" by blast
  have "overlaps c b' e' f" if "overlaps c (map_option InternalKey_user_key b) (map_option InternalKey_user_key e) f" for f
    by (rule user_comparator.overlaps_widens [OF assms w that])
  moreover have "Compare c (limit_of g) (start_of f) < 0 \<or> Compare c (limit_of f) (start_of g) < 0"
    if "f \<in> set (v_files v 0)" "overlaps c b' e' f" "\<not> overlaps c b' e' g" for f g
    using user_comparator.inside_disjoint [OF assms _ that(3)] i that(1,2) by blast
  ultimately show ?thesis using r True unfolding Let_def by (intro exI [of _ "filter (overlaps c b' e') (v_files v 0)"]) auto
qed

theorem overlap_inputs_closed_witness:
  "let f = (\<lambda>n a b. FileMetaData_new\<lparr>fm_number := n, fm_smallest := InternalKey_new [a] 9 kTypeValue, fm_largest := InternalKey_new [b] 1 kTypeValue\<rparr>);
       v = Version_new\<lparr>v_files := (\<lambda>level. if level = 0 then [f 1 1 4, f 2 3 8, f 3 9 10] else [])\<rparr>
   in \<exists>inputs. GetOverlappingInputs BytewiseComparator v 0 (Some (InternalKey_new [2] 5 kTypeValue)) (Some (InternalKey_new [2] 5 kTypeValue)) = Some inputs
        \<and> f 1 1 4 \<in> set inputs"
proof -
  define f where "f = (\<lambda>n a b. FileMetaData_new\<lparr>fm_number := n, fm_smallest := InternalKey_new [a] 9 kTypeValue, fm_largest := InternalKey_new [b] 1 kTypeValue\<rparr>)"
  define v where "v = Version_new\<lparr>v_files := (\<lambda>level. if level = 0 then [f 1 1 4, f 2 3 8, f 3 9 10] else [])\<rparr>"
  let ?k = "Some (InternalKey_new [2] 5 kTypeValue)"
  have "overlaps BytewiseComparator (map_option InternalKey_user_key ?k) (map_option InternalKey_user_key ?k) (f 1 1 4)"
    by (simp add: f_def overlaps_def before_begin_def after_end_def InternalKey_user_key_def InternalKey_Encode_def)
  moreover have "f 1 1 4 \<in> set (v_files v 0)" by (simp add: v_def)
  ultimately have "\<exists>inputs. GetOverlappingInputs BytewiseComparator v 0 ?k ?k = Some inputs \<and> f 1 1 4 \<in> set inputs"
    using overlap_inputs_closed [OF bytewise.user_comparator_axioms, where b = ?k and e = ?k and v = v and level = 0] unfolding Let_def by blast
  then show ?thesis unfolding Let_def v_def f_def .
qed

text \<open>C40: When every file of a level has its smallest key not above its largest, adding the boundary files to the
  inputs of a compaction ends; it only appends files of the level, and afterwards no file of the
  level starts behind the largest input key with the same user key. So a compaction never leaves
  older versions of a user key behind that it moves down.\<close>

theorem boundary_inputs_end:
  assumes "user_comparator c" "\<forall>f \<in> set level_files. InternalKey_Compare c (fm_smallest f) (fm_largest f) \<le> 0" "files \<noteq> []"
  shows "\<exists>added key. AddBoundaryInputs c level_files files = Some (files @ added) \<and> set added \<subseteq> set level_files
    \<and> FindLargestKey c (files @ added) = Some key
    \<and> (\<forall>f \<in> set level_files. \<not> (InternalKey_Compare c (fm_smallest f) key > 0
         \<and> Compare c (InternalKey_user_key (fm_smallest f)) (InternalKey_user_key key) = 0))"
  using user_comparator.AddBoundaryInputs_largest [OF assms] by (simp add: boundary_def)

theorem boundary_inputs_end_witness:
  "let f = (\<lambda>n a s b t. FileMetaData_new\<lparr>fm_number := n, fm_smallest := InternalKey_new [a] s kTypeValue, fm_largest := InternalKey_new [b] t kTypeValue\<rparr>);
       fs = [f 1 1 9 4 5, f 2 4 4 4 2, f 3 6 9 7 1]
   in \<exists>added. AddBoundaryInputs BytewiseComparator fs [f 1 1 9 4 5] = Some (f 1 1 9 4 5 # added)"
proof -
  define f where "f = (\<lambda>n a s b t. FileMetaData_new\<lparr>fm_number := n, fm_smallest := InternalKey_new [a] s kTypeValue, fm_largest := InternalKey_new [b] t kTypeValue\<rparr>)"
  have "\<forall>g \<in> set [f 1 1 9 4 5, f 2 4 4 4 2, f 3 6 9 7 1]. InternalKey_Compare BytewiseComparator (fm_smallest g) (fm_largest g) \<le> 0"
    unfolding f_def by code_simp
  from boundary_inputs_end [OF bytewise.user_comparator_axioms this, of "[f 1 1 9 4 5]"] show ?thesis unfolding Let_def f_def by auto
qed


section \<open>Reading a version\<close>





section \<open>Compaction\<close>

text \<open>C13: The search of \<open>IsBaseLevelForKey\<close> in the levels below the output, which never moves its pointers
  back, answers for every key of an ascending sequence of user keys exactly whether no file of
  those levels has the key in its range.\<close>

theorem base_level_exact:
  assumes "user_comparator c" "cp_input_version cp = Some v" "cp_level_ptrs cp = (\<lambda>_. 0)"
    and "\<forall>level \<in> {cp_level cp + 2..<kNumLevels}. (\<forall>f \<in> set (v_files v level). Compare c (start_of f) (limit_of f) \<le> 0)
      \<and> sorted_wrt (\<lambda>f g. Compare c (limit_of f) (start_of g) < 0) (v_files v level)"
    and "sorted_wrt (\<lambda>a b. Compare c a b \<le> 0) keys"
  shows "base_answers c cp keys
    = map (\<lambda>key. \<forall>level \<in> {cp_level cp + 2..<kNumLevels}. \<forall>f \<in> set (v_files v level). \<not> FileMayContainUserkey c f key) keys"
proof -
  have "base_answers c cp keys = map (at_base c v (deeper cp)) keys"
    by (rule user_comparator.base_answers_exact [OF assms(1) _ assms(2,5)])
      (use assms(3,4) user_comparator.level_sorted_def [OF assms(1)] in \<open>simp_all add: ptrs_behind_def\<close>)
  moreover have "set (deeper cp) = {cp_level cp + 2..<kNumLevels}" by (auto simp: deeper_def)
  ultimately show ?thesis by (simp add: at_base_def)
qed

theorem base_level_exact_witness:
  "let key = \<lambda>k. InternalKey_new [k] 5 kTypeValue;
       v = Version_new\<lparr>v_files := (\<lambda>_. [])(2 := [FileMetaData_new\<lparr>fm_smallest := key 2, fm_largest := key 4\<rparr>,
             FileMetaData_new\<lparr>fm_smallest := key 6, fm_largest := key 7\<rparr>])\<rparr>;
       cp = (Compaction_new Options_new 0)\<lparr>cp_input_version := Some v\<rparr>
   in base_answers BytewiseComparator cp [[1], [3], [5], [6], [9]] = [True, False, True, False, True]"
proof -
  define key where "key = (\<lambda>k. InternalKey_new [k] 5 kTypeValue)"
  define v where "v = Version_new\<lparr>v_files := (\<lambda>_. [])(2 := [FileMetaData_new\<lparr>fm_smallest := key 2, fm_largest := key 4\<rparr>,
             FileMetaData_new\<lparr>fm_smallest := key 6, fm_largest := key 7\<rparr>])\<rparr>"
  define cp where "cp = (Compaction_new Options_new 0)\<lparr>cp_input_version := Some v\<rparr>"
  let ?keys = "[[1], [3], [5], [6], [9]] :: bytes list"
  have cp: "cp_input_version cp = Some v" "cp_level_ptrs cp = (\<lambda>_. 0)" "cp_level cp = 0" by (simp_all add: cp_def Compaction_new_def)
  have levels: "{cp_level cp + 2..<kNumLevels} = {2, 3, 4, 5, 6}" unfolding cp kNumLevels_def by auto
  have 1: "\<forall>level \<in> {cp_level cp + 2..<kNumLevels}. (\<forall>f \<in> set (v_files v level). Compare BytewiseComparator (start_of f) (limit_of f) \<le> 0)
      \<and> sorted_wrt (\<lambda>f g. Compare BytewiseComparator (limit_of f) (start_of g) < 0) (v_files v level)"
    unfolding levels v_def key_def by code_simp
  have 2: "sorted_wrt (\<lambda>a b. Compare BytewiseComparator a b \<le> 0) ?keys" by code_simp
  have 3: "map (\<lambda>key. \<forall>level \<in> {2, 3, 4, 5, 6}. \<forall>f \<in> set (v_files v level). \<not> FileMayContainUserkey BytewiseComparator f key) ?keys
      = [True, False, True, False, True]"
    unfolding v_def key_def by code_simp
  show ?thesis
    using base_level_exact [OF bytewise.user_comparator_axioms cp(1,2) 1 2] unfolding levels 3
    by (simp only: Let_def cp_def v_def key_def)
qed

text \<open>C2: The entries that a compaction keeps answer every read at a snapshot that is still held, or at the
  last sequence number, as its inputs did: in any surrounding of newer entries and of entries of
  the levels below its output, a read of any user key finds the same value or the same absence.
  Shadowed entries and deletions are dropped only where that is so; the inputs may contain an
  entry twice.\<close>

theorem compaction_preserves_reads:
  assumes "user_comparator c" "in_order c es" "db_last_sequence db < kMaxSequenceNumber"
    and "sorted (db_snapshots db)" "\<forall>s \<in> set (db_snapshots db). s \<le> db_last_sequence db"
    and "snap \<in> insert (db_last_sequence db) (set (db_snapshots db))"
    and "cp_input_version cp = Some v" "cp_level_ptrs cp = (\<lambda>_. 0)"
    and "\<forall>level \<in> {cp_level cp + 2..<kNumLevels}. (\<forall>f \<in> set (v_files v level). Compare c (start_of f) (limit_of f) \<le> 0)
      \<and> sorted_wrt (\<lambda>f g. Compare c (limit_of f) (start_of g) < 0) (v_files v level)"
    and "\<forall>e \<in> set deep. \<exists>level \<in> {cp_level cp + 2..<kNumLevels}. \<exists>f \<in> set (v_files v level). FileMayContainUserkey c f (key_of e)"
  shows "outcome u (find (sees c u snap) (newer @ kept_entries c options (SmallestSnapshot db) (None, kMaxSequenceNumber) cp es @ deep)) val
    = outcome u (find (sees c u snap) (newer @ es @ deep)) val"
proof -
  have d: "set (deeper cp) = {cp_level cp + 2..<kNumLevels}" by (auto simp: deeper_def)
  have le: "SmallestSnapshot db \<le> snap" "SmallestSnapshot db \<le> db_last_sequence db"
    using SmallestSnapshot_least [OF assms(4,5)] assms(6) by blast+
  show ?thesis
    by (rule user_comparator.kept_reads [OF assms(1,2) _ le(1) assms(7,8)])
      (use assms(3,9,10) le(2) user_comparator.level_sorted_def [OF assms(1)] in \<open>simp_all add: d\<close>)
qed

theorem compaction_preserves_reads_witness:
  "let es = [(InternalKey_new [1] 9 kTypeDeletion, []), (InternalKey_new [1] 5 kTypeValue, [10]), (InternalKey_new [1] 3 kTypeValue, [11]),
             (InternalKey_new [2] 4 kTypeDeletion, []), (InternalKey_new [2] 2 kTypeValue, [12])];
       db = (DBImpl_new bump_new Options_new [] () :: (unit, unit) DBImpl)\<lparr>db_last_sequence := 9, db_snapshots := [6, 7]\<rparr>;
       cp = (Compaction_new Options_new 0)\<lparr>cp_input_version := Some Version_new\<rparr>;
       kept = kept_entries BytewiseComparator Options_new (SmallestSnapshot db) (None, kMaxSequenceNumber) cp es
   in outcome [1] (find (sees BytewiseComparator [1] 7) kept) [] = (OK, [10])
      \<and> outcome [2] (find (sees BytewiseComparator [2] 9) kept) [] = (NotFound [2] [], [])"
proof -
  define es :: entries where "es = [(InternalKey_new [1] 9 kTypeDeletion, []), (InternalKey_new [1] 5 kTypeValue, [10]), (InternalKey_new [1] 3 kTypeValue, [11]),
             (InternalKey_new [2] 4 kTypeDeletion, []), (InternalKey_new [2] 2 kTypeValue, [12])]"
  define db :: "(unit, unit) DBImpl" where "db = (DBImpl_new bump_new Options_new [] ())\<lparr>db_last_sequence := 9, db_snapshots := [6, 7]\<rparr>"
  define cp where "cp = (Compaction_new Options_new 0)\<lparr>cp_input_version := Some Version_new\<rparr>"
  have o: "in_order BytewiseComparator es" unfolding in_order_def well_keyed_def es_def by code_simp
  have n: "db_last_sequence db = 9" "db_snapshots db = [6, 7]" by (simp_all add: db_def)
  have m: "(9 :: u64) < kMaxSequenceNumber" by code_simp
  have cp: "cp_input_version cp = Some Version_new" "cp_level_ptrs cp = (\<lambda>_. 0)" by (simp_all add: cp_def Compaction_new_def)
  have lv: "\<forall>level \<in> {cp_level cp + 2..<kNumLevels}. (\<forall>f \<in> set (v_files Version_new level). Compare BytewiseComparator (start_of f) (limit_of f) \<le> 0)
      \<and> sorted_wrt (\<lambda>f g. Compare BytewiseComparator (limit_of f) (start_of g) < 0) (v_files Version_new level)"
    by (simp add: Version_new_def)
  note T = compaction_preserves_reads [OF bytewise.user_comparator_axioms o, of db _ cp Version_new "[]" _ "[]" Options_new "[]", unfolded n]
  have "outcome [1] (find (sees BytewiseComparator [1] 7) es) [] = (OK, [10])" "outcome [2] (find (sees BytewiseComparator [2] 9) es) [] = (NotFound [2] [], [])"
    unfolding es_def by code_simp+
  with T [OF m _ _ _ cp lv, of 7 "[1]"] T [OF m _ _ _ cp lv, of 9 "[2]"] show ?thesis
    by (simp add: Let_def es_def db_def cp_def)
qed


section \<open>Writes and background work\<close>

text \<open>C4: A read right after a write that returned OK finds what the batch left of the key: the value of the last
  operation on it, or NotFound when that is a deletion, whether the batch went through the log alone
  or first flushed the memtable. The invariant that this rests on, that the memtable is well formed
  and holds nothing newer than the last sequence number, is kept.\<close>

theorem write_then_get:
  assumes "user_comparator c" "mem_holds c db" "db_comparator db = c"
    and "\<forall>x \<in> set ops. op_bounded x" "length ops < 2 ^ 31" "unat (db_last_sequence db) + length ops < 2 ^ 56"
    and "DB_Write fresh env sync (Some (fold apply_op ops WB_Clear)) db = Some (status, b, db')" "ok status"
    and "length u + 8 < 2 ^ 32" "find (\<lambda>op. Compare c (op_key op) u = 0) (rev ops) = Some op"
  shows "mem_holds c db' \<and> db_comparator db' = c \<and> DB_Get env' options None u (Some val) db' =
    Some (case op of PutOp k v \<Rightarrow> (OK, Some v, db') | DeleteOp k \<Rightarrow> (NotFound u [], Some [], db'))"
  by (rule user_comparator.written_batch_read [OF assms(1-9)]) (use assms(10) in \<open>simp add: last_op_def\<close>)

theorem write_then_get_witness:
  "\<exists>b db'. DB_Write bump_new ample_env False (Some (fold apply_op [PutOp [1] [2], PutOp [3] [4], DeleteOp [1]] WB_Clear))
        ((DBImpl_new bump_new Options_new [] \<lparr>mf_files = [], mf_space = 0\<rparr>)\<lparr>db_log := Some (LogWriter_new ([7], []) 0)\<rparr>) = Some (OK, b, db')
    \<and> DB_Get ample_env \<lparr>ro_verify_checksums = False, ro_fill_cache = True\<rparr> None [1] (Some []) db' = Some (NotFound [1] [], Some [], db')
    \<and> DB_Get ample_env \<lparr>ro_verify_checksums = False, ro_fill_cache = True\<rparr> None [3] (Some []) db' = Some (OK, Some [4], db')"
proof -
  let ?db = "(DBImpl_new bump_new Options_new [] \<lparr>mf_files = [], mf_space = 0\<rparr>)\<lparr>db_log := Some (LogWriter_new ([7], []) 0)\<rparr> :: (bytes \<times> bytes, mem_fs) DBImpl"
  let ?ops = "[PutOp [1] [2], PutOp [3] [4], DeleteOp [1]]"
  have c: "db_comparator ?db = BytewiseComparator" "db_last_sequence ?db = 0" "db_imm ?db = None" "db_log ?db = Some (LogWriter_new ([7], []) 0)"
      "db_options ?db = Options_new" "db_mem ?db = MemTable_new bump_new"
    by (simp_all add: DBImpl_new_def Options_new_def)
  have room: "ApproximateMemoryUsage (db_mem ?db) \<le> op_write_buffer_size (db_options ?db)" unfolding c by (simp add: MemTable_new_usage kBlockSize_def Options_new_def)
  have ops: "\<forall>x \<in> set ?ops. op_bounded x" "?ops \<noteq> []" "length ?ops < 2 ^ 31" "unat (db_last_sequence ?db) + length ?ops < 2 ^ 56"
    by (simp_all add: op_bounded_def c)
  have h: "mem_holds BytewiseComparator ?db" by (rule mem_holds_new [OF c(6)])
  from bytewise.DB_Write_succeeds [where sync = False, OF ample.reliable_file_axioms _ h c(1,3) room c(4) ops, where fresh = bump_new]
  obtain b db' where w: "DB_Write bump_new ample_env False (Some (fold apply_op ?ops WB_Clear)) ?db = Some (OK, b, db')" by blast
  have f: "find (\<lambda>op. Compare BytewiseComparator (op_key op) [1] = 0) (rev ?ops) = Some (DeleteOp [1])"
      "find (\<lambda>op. Compare BytewiseComparator (op_key op) [3] = 0) (rev ?ops) = Some (PutOp [3] [4])" by (code_simp, code_simp)
  note T = write_then_get [OF bytewise.user_comparator_axioms h c(1) ops(1,3,4) w, of _ _ ample_env "\<lparr>ro_verify_checksums = False, ro_fill_cache = True\<rparr>" "[]"]
  from w T [OF _ _ f(1)] T [OF _ _ f(2)] show ?thesis by (auto simp: ok_def OK_def)
qed



section \<open>Recovery\<close>

text \<open>C1: Synced writes that returned OK survive a crash: whatever else became of the file system, once the log
  file is as it was after the last of them, replaying it into an empty memtable succeeds, gives
  the memtable and the last sequence number that the database had, and every key that the
  batches touched reads as their last operation on it left it. This composes DBImpl::Write, the
  log writer, the file system, the log reader, RecoverLogFile, the memtable and DBImpl::Get, for
  batches that fit the write buffer.\<close>

theorem synced_writes_survive:
  assumes "file_system env files name held remaining" "user_comparator c"
    and "db_comparator db = c" "db_imm db = None" "db_mem db = MemTable_new fresh"
    and "db_log db = Some (LogWriter_new h 0)" "held h (db_env db) = []" "files (db_env db) (name h) = Some []"
    and "\<forall>ops \<in> set opss. (\<forall>x \<in> set ops. op_bounded x) \<and> ops \<noteq> [] \<and> length ops < 2 ^ 31"
    and "unat (db_last_sequence db) + length (concat opss) + 1 < 2 ^ 56"
    and "synced_writes fresh env opss db = Some db'"
    and "\<forall>m. insert_all fresh c (log_batches (db_last_sequence db + 1) opss) (MemTable_new fresh) = Some m \<longrightarrow>
      ApproximateMemoryUsage m \<le> op_write_buffer_size (db_options db)"
    and "db_options db2 = db_options db" "db_mem db2 = MemTable_new fresh" "db_last_sequence db2 = db_last_sequence db"
    and "LogFileName (db_dbname db2) n = name h" "files (db_env db2) (name h) = files (db_env db') (name h)"
  shows "\<exists>db3. RecoverLogFile fresh env n db2 = Some (OK, db3) \<and> db_mem db3 = db_mem db' \<and> db_last_sequence db3 = db_last_sequence db'
    \<and> (\<forall>u op val options. length u + 8 < 2 ^ 32 \<and> find (\<lambda>op. Compare c (op_key op) u = 0) (rev (concat opss)) = Some op \<longrightarrow>
        DB_Get env options None u (Some val) db3
          = Some (case op of PutOp k v \<Rightarrow> (OK, Some v, db3) | DeleteOp k \<Rightarrow> (NotFound u [], Some [], db3)))"
proof -
  have b: "unat (db_last_sequence db) + length (concat opss) < 2 ^ 56" using assms(10) by simp
  have "mem_inv c (MemTable_new fresh) [] []" by (rule mem_inv_new)
  from user_comparator.insert_all_exists [OF assms(2) this _ assms(9) b, of fresh] obtain m where
    m: "insert_all fresh c (log_batches (db_last_sequence db + 1) opss) (MemTable_new fresh) = Some m" by auto
  then have fits: "ApproximateMemoryUsage m \<le> op_write_buffer_size (db_options db)" using assms(12) by blast
  let ?db3 = "db2\<lparr>db_mem := db_mem db', db_last_sequence := db_last_sequence db'\<rparr>"
  from user_comparator.synced_writes_recovered [OF assms(2,1,3-11) m fits assms(13-17)]
  have r: "db_mem db' = m" "db_last_sequence db' = db_last_sequence db + of_nat (length (concat opss))"
    and R: "RecoverLogFile fresh env n db2 = Some (OK, ?db3)" by blast+
  have "DB_Get env options None u (Some val) ?db3
      = Some (case op of PutOp k v \<Rightarrow> (OK, Some v, ?db3) | DeleteOp k \<Rightarrow> (NotFound u [], Some [], ?db3))"
    if "length u + 8 < 2 ^ 32" "find (\<lambda>op. Compare c (op_key op) u = 0) (rev (concat opss)) = Some op" for u op val options
    by (rule user_comparator.recovered_reads [OF assms(2) m assms(9) b]) (use that r assms(3,13) in \<open>simp_all add: last_op_def\<close>)
  with R show ?thesis by (intro exI [of _ ?db3]) simp
qed

theorem synced_writes_survive_witness:
  "\<exists>db' db3. synced_writes bump_new ample_env [[PutOp [1] [2], PutOp [3] [4]], [DeleteOp [1]]]
        ((DBImpl_new bump_new Options_new [] \<lparr>mf_files = [(LogFileName [] 1, [])], mf_space = 0\<rparr>)
           \<lparr>db_log := Some (LogWriter_new (LogFileName [] 1, []) 0)\<rparr>) = Some db'
    \<and> RecoverLogFile bump_new ample_env 1 (DBImpl_new bump_new Options_new [] (db_env db')) = Some (OK, db3)
    \<and> DB_Get ample_env \<lparr>ro_verify_checksums = False, ro_fill_cache = True\<rparr> None [1] (Some []) db3 = Some (NotFound [1] [], Some [], db3)
    \<and> DB_Get ample_env \<lparr>ro_verify_checksums = False, ro_fill_cache = True\<rparr> None [3] (Some []) db3 = Some (OK, Some [4], db3)"
proof -
  let ?db = "(DBImpl_new bump_new Options_new [] \<lparr>mf_files = [(LogFileName [] 1, [])], mf_space = 0\<rparr>)
      \<lparr>db_log := Some (LogWriter_new (LogFileName [] 1, []) 0)\<rparr> :: (bytes \<times> bytes, mem_fs) DBImpl"
  let ?opss = "[[PutOp [1] [2], PutOp [3] [4]], [DeleteOp [1]]]"
  have c: "db_comparator ?db = BytewiseComparator" "db_last_sequence ?db = 0" "db_imm ?db = None" "db_log ?db = Some (LogWriter_new (LogFileName [] 1, []) 0)"
      "db_options ?db = Options_new" "db_mem ?db = MemTable_new bump_new" "map_of (mf_files (db_env ?db)) (LogFileName [] 1) = Some []"
    by (simp_all add: DBImpl_new_def Options_new_def)
  have ops: "\<forall>ops \<in> set ?opss. loggable ops" by (simp add: op_bounded_def)
  have b: "unat (db_last_sequence ?db) + length (concat ?opss) + 1 < 2 ^ 56" "unat (db_last_sequence ?db) + length (concat ?opss) < 2 ^ 56"
    by (simp_all add: c(2))
  have fits: "ApproximateMemoryUsage m \<le> op_write_buffer_size (db_options ?db)"
    if "insert_all bump_new BytewiseComparator (log_batches (db_last_sequence ?db + 1) ?opss) (MemTable_new bump_new) = Some m" for m
    unfolding c(5) using insert_all_usage_le [OF that ops]
    by (simp add: op_cost_def MemTable_new_usage kBlockSize_def Options_new_def)
  have h: "mem_holds BytewiseComparator ?db" by (rule mem_holds_new [OF c(6)])
  have "mem_inv BytewiseComparator (MemTable_new bump_new) [] []" by (rule mem_inv_new)
  from bytewise.insert_all_exists [OF this _ ops b(2), of bump_new] obtain m where
    m: "insert_all bump_new BytewiseComparator (log_batches (db_last_sequence ?db + 1) ?opss) (db_mem ?db) = Some m" unfolding c(6) by auto
  have sync: "\<forall>f. \<exists>f'. wf_Sync (ev_file ample_env) f = Some (OK, f')" by (simp add: ample_env_def)
  from bytewise.synced_writes_succeed [OF ample.reliable_file_axioms sync h c(1,3,4) ops b(2) m fits] m obtain db' where
    w: "synced_writes bump_new ample_env ?opss ?db = Some db'" unfolding c(6) by blast
  let ?db2 = "DBImpl_new bump_new Options_new [] (db_env db') :: (bytes \<times> bytes, mem_fs) DBImpl"
  have d: "db_options ?db2 = db_options ?db" "db_mem ?db2 = MemTable_new bump_new" "db_last_sequence ?db2 = db_last_sequence ?db"
      "LogFileName (db_dbname ?db2) 1 = fst (LogFileName [] 1, [])" "db_env ?db2 = db_env db'"
    by (simp_all add: DBImpl_new_def)
  have f: "find (\<lambda>op. Compare BytewiseComparator (op_key op) [1] = 0) (rev (concat ?opss)) = Some (DeleteOp [1])"
      "find (\<lambda>op. Compare BytewiseComparator (op_key op) [3] = 0) (rev (concat ?opss)) = Some (PutOp [3] [4])" by (code_simp, code_simp)
  from synced_writes_survive [OF ample_fs.file_system_axioms bytewise.user_comparator_axioms c(1,3,6,4) _ _ ops b(1) w _ d(1-4)] fits c(7) d(5)
  obtain db3 where r: "RecoverLogFile bump_new ample_env 1 ?db2 = Some (OK, db3)"
    and g: "\<forall>u op val options. length u + 8 < 2 ^ 32 \<and> find (\<lambda>op. Compare BytewiseComparator (op_key op) u = 0) (rev (concat ?opss)) = Some op \<longrightarrow>
        DB_Get ample_env options None u (Some val) db3
          = Some (case op of PutOp k v \<Rightarrow> (OK, Some v, db3) | DeleteOp k \<Rightarrow> (NotFound u [], Some [], db3))"
    by auto
  have "DB_Get ample_env \<lparr>ro_verify_checksums = False, ro_fill_cache = True\<rparr> None [1] (Some []) db3 = Some (NotFound [1] [], Some [], db3)"
    using g [rule_format, OF conjI, OF _ f(1)] by simp
  moreover have "DB_Get ample_env \<lparr>ro_verify_checksums = False, ro_fill_cache = True\<rparr> None [3] (Some []) db3 = Some (OK, Some [4], db3)"
    using g [rule_format, OF conjI, OF _ f(2)] by simp
  ultimately show ?thesis using w r by blast
qed

text \<open>C3: After any run of edits that LogAndApply logged with status OK, the first of them creating the
  MANIFEST, recovery from CURRENT and the MANIFEST succeeds and gives the version, the log number,
  the last sequence number, the compaction pointers, the MANIFEST's number and the next file number
  that the version set had. This composes the snapshot record, the encoding of edits, the log
  writer and reader, SetCurrentFile, the builder and the file system, whatever the rest of the
  file system holds.\<close>

theorem recovery_restores_version:
  assumes "file_system env files name held remaining" "length (Name (InternalKeyComparator c)) < 2 ^ 32"
    and "\<forall>(k, edit) \<in> set edits. edit_ok edit \<and> \<not> ve_has_next_file_number edit" "edits \<noteq> []"
    and "log_edits c env edits (VersionSet_new db options) e = Some (vs, e1)"
    and "files e2 (CurrentFileName db) = files e1 (CurrentFileName db)"
    and "files e2 (DescriptorFileName db (vs_manifest_file_number vs)) = files e1 (DescriptorFileName db (vs_manifest_file_number vs))"
  shows "\<exists>vr. Recover c env (VersionSet_new db options') e2 = Some (OK, vr, e2) \<and> current_version vr = current_version vs
    \<and> vs_log_number vr = vs_log_number vs \<and> vs_last_sequence vr = vs_last_sequence vs \<and> vs_compact_pointer vr = vs_compact_pointer vs
    \<and> vs_manifest_file_number vr = vs_manifest_file_number vs \<and> vs_next_file_number vr = vs_next_file_number vs"
  using logged_edits_recovered [OF assms] by (auto simp: recovers_def)

theorem recovery_restores_version_witness:
  "\<exists>vs e1 vr. log_edits BytewiseComparator ample_env
        [(3, VE_AddFile (SetLogNumber VE_Clear 5) 1 7 100 (InternalKey_new [97] 5 kTypeValue) (InternalKey_new [98] 3 kTypeValue)),
         (0, VE_RemoveFile (SetLastSequence VE_Clear 42) 1 7)]
        (VersionSet_new [] Options_new) \<lparr>mf_files = [], mf_space = 0\<rparr> = Some (vs, e1)
    \<and> Recover BytewiseComparator ample_env (VersionSet_new [] Options_new) e1 = Some (OK, vr, e1)
    \<and> current_version vr = current_version vs \<and> vs_next_file_number vr = vs_next_file_number vs"
proof -
  let ?e1 = "VE_AddFile (SetLogNumber VE_Clear 5) 1 7 100 (InternalKey_new [97] 5 kTypeValue) (InternalKey_new [98] 3 kTypeValue)"
    and ?e2 = "VE_RemoveFile (SetLastSequence VE_Clear 42) 1 7"
  let ?vs = "VersionSet_new [] Options_new :: (bytes \<times> bytes) VersionSet" and ?e = "\<lparr>mf_files = [], mf_space = 0\<rparr>"
  note defs = VE_AddFile_def VE_AddFileMeta_def VE_RemoveFile_def SetLastSequence_def SetLogNumber_def VE_Clear_def
  have ok: "ok OK" by (simp add: ok_def OK_def)
  have edits: "edit_ok ?e1" "\<not> ve_has_next_file_number ?e1" "edit_ok ?e2" "\<not> ve_has_next_file_number ?e2"
    by (simp_all add: defs edit_ok_def edit_fields_def FileMetaData_new_def key_ok_def level_ok_def kNumLevels_def ParseInternalKey_new
        kMaxSequenceNumber_def insort_insert_key_def)
  have chk: "ok (CheckComparatorName BytewiseComparator ?e1)" "ok (CheckComparatorName BytewiseComparator ?e2)"
    by (simp_all add: CheckComparatorName_def defs ok)
  obtain vs1 e1 where 1: "LogAndApply BytewiseComparator ample_env ?e1 (take_numbers 3 ?vs) ?e = Some (OK, vs1, e1)"
    using ample_LogAndApply [OF chk(1)] by blast
  obtain vs2 e2 where 2: "LogAndApply BytewiseComparator ample_env ?e2 vs1 e1 = Some (OK, vs2, e2)"
    using ample_LogAndApply [OF chk(2)] by blast
  have n: "unat (vs_next_file_number ?vs) + 3 + 1 < 2 ^ 64" by (simp add: VersionSet_new_facts)
  have c: "length (Name (InternalKeyComparator BytewiseComparator)) < 2 ^ 32"
    by (simp add: InternalKeyComparator_def BytewiseComparator_def lit_def)
  have v: "versions_ok (take_numbers 3 ?vs)" by (simp add: take_numbers_facts VersionSet_new_facts)
  have "vs_next_file_number vs1 = 8"
    using LogAndApply_next_file [OF v 1 ok edits(2)] unfolding take_numbers_facts VersionSet_new_facts
    by (auto simp: defs mark_used_def FileMetaData_new_def)
  then have "log_edits BytewiseComparator ample_env [(3, ?e1), (0, ?e2)] ?vs ?e = Some (vs2, e2)"
    using n 1 2 ok by simp
  moreover from recovery_restores_version [OF ample_fs.file_system_axioms c _ _ this refl refl, of Options_new] edits obtain vr where
    "Recover BytewiseComparator ample_env (VersionSet_new [] Options_new) e2 = Some (OK, vr, e2)" "current_version vr = current_version vs2"
    "vs_next_file_number vr = vs_next_file_number vs2" by auto
  ultimately show ?thesis by blast
qed

text \<open>C11: Applying an edit gives a version whose files at each level are exactly those of the current version
  that the edit does not delete and the files that the edit adds, with their allowed seeks, where the
  file numbers concerned are distinct. This is the set semantics that the builder's merge of the
  sorted base with the sorted new files implements.\<close>

theorem edit_applied_exactly:
  assumes "versions_ok vs" "ApplyVersionEdit c edit vs = (status, vs')" "ok status" "0 \<le> level" "level < kNumLevels"
    and "distinct (map fm_number (v_files (current_version vs) level @ map snd (filter (\<lambda>(l, f). l = level) (ve_new_files edit))))"
  shows "mset (v_files (current_version vs') level)
    = mset (filter (\<lambda>f. (level, fm_number f) \<notin> set (ve_deleted_files edit) - (\<lambda>(l, f). (l, fm_number f)) ` set (ve_new_files edit)) (v_files (current_version vs) level))
      + mset (map (\<lambda>(l, f). f\<lparr>fm_allowed_seeks := allowed_seeks (fm_file_size f)\<rparr>) (filter (\<lambda>(l, f). l = level) (ve_new_files edit)))"
  by (rule ApplyVersionEdit_exact [OF assms(1-3) _ assms(6)]) (use assms(4,5) in \<open>simp add: levels_def kNumLevels_def\<close>)

theorem edit_applied_exactly_witness:
  "let k = \<lambda>x. InternalKey_new [x] 5 kTypeValue;
       f = \<lambda>n x. FileMetaData_new\<lparr>fm_number := n, fm_file_size := 100, fm_smallest := k x, fm_largest := k x\<rparr>;
       edit = VE_Clear\<lparr>ve_new_files := [(1, f 9 5), (2, f 8 1), (1, f 7 3)]\<rparr>
   in mset (v_files (current_version (snd (ApplyVersionEdit BytewiseComparator edit (VersionSet_new [] Options_new :: bytes VersionSet)))) 1)
     = mset [(f 9 5)\<lparr>fm_allowed_seeks := 100\<rparr>, (f 7 3)\<lparr>fm_allowed_seeks := 100\<rparr>]"
proof -
  define k where "k = (\<lambda>x. InternalKey_new [x] 5 kTypeValue)"
  define f where "f = (\<lambda>n x. FileMetaData_new\<lparr>fm_number := n, fm_file_size := 100, fm_smallest := k x, fm_largest := k x\<rparr>)"
  let ?edit = "VE_Clear\<lparr>ve_new_files := [(1, f 9 5), (2, f 8 1), (1, f 7 3)]\<rparr>" and ?vs = "VersionSet_new [] Options_new :: bytes VersionSet"
  have ok: "ok OK" by (simp add: ok_def OK_def)
  have chk: "ok (CheckComparatorName BytewiseComparator ?edit)" by (simp add: CheckComparatorName_def VE_Clear_def ok)
  obtain vs' where a: "ApplyVersionEdit BytewiseComparator ?edit ?vs = (OK, vs')" using ApplyVersionEdit_ok [OF chk] by blast
  have n: "fm_number (f i x) = i" "fm_file_size (f i x) = 100" for i x by (simp_all add: f_def)
  have s: "allowed_seeks 100 = 100" by code_simp
  have e: "v_files (current_version ?vs) 1 = []" by (simp add: VersionSet_new_facts Finalize_files Version_new_def)
  have "mset (v_files (current_version vs') 1) = mset [(f 9 5)\<lparr>fm_allowed_seeks := 100\<rparr>, (f 7 3)\<lparr>fm_allowed_seeks := 100\<rparr>]"
    using edit_applied_exactly [OF VersionSet_new_facts(1) a ok, of 1] by (simp add: e n s VE_Clear_def kNumLevels_def)
  then show ?thesis by (simp add: Let_def a [unfolded f_def k_def] f_def k_def)
qed




text \<open>C12: Where CURRENT names a MANIFEST, the removal of obsolete files leaves every table that a live version
  or a pending output holds, every log that recovery may still need, the MANIFEST, CURRENT, the lock
  and the info logs as they are, also when a removal fails on the way; and when its status is OK,
  every file that the directory lists and that is obsolete is gone.\<close>

theorem obsolete_files_spare_live:
  assumes "file_system env files name held remaining" "\<forall>n e. ev_FileExists env n e \<longleftrightarrow> files e n \<noteq> None"
    and "files (db_env db) (CurrentFileName (db_dbname db)) = Some (base_name (db_dbname db) (DescriptorFileName (db_dbname db) manifest) @ [10])"
    and "ev_GetChildren env (db_dbname db) (db_env db) = (st, names)" "ok st"
    and "live = set (db_pending_outputs db)
      \<union> (\<Union>(i, node) \<in> set (vs_versions (db_versions db)). \<Union>level \<in> set levels. fm_number ` set (v_files (vn_version node) level))"
  shows "\<exists>status db'. RemoveObsoleteFiles env db = Some (status, db')
    \<and> (\<forall>p \<in> needed_names live manifest db. files (db_env db') p = files (db_env db) p)
    \<and> (ok status \<longrightarrow> (\<forall>filename \<in> set names. \<forall>n type. ParseFileName filename = Some (n, type) \<and> is_obsolete live manifest db n type \<longrightarrow>
        files (db_env db') (db_dbname db @ lit ''/'' @ filename) = None))"
proof -
  note exists = spec [OF spec [OF assms(2)]]
  obtain live' where run: "RemoveObsoleteFiles env db = Some (RemoveFiles env live' manifest names db)" and live: "set live' = live"
    using file_system.RemoveObsoleteFiles_run [OF assms(1) exists assms(3-5)] assms(6) by metis
  obtain status db' where r: "RemoveFiles env live' manifest names db = (status, db')" by fastforce
  have "files (db_env db') p = files (db_env db) p" if "p \<in> needed_names live manifest db" for p
    by (rule file_system.RemoveFiles_spares [OF assms(1) r]) (use that live in simp)
  moreover have "files (db_env db') (db_dbname db @ lit ''/'' @ filename) = None"
    if "ok status" "filename \<in> set names" "ParseFileName filename = Some (n, type)" "is_obsolete live manifest db n type" for filename n type
    using file_system.RemoveFiles_removes [OF assms(1) exists r that(1,2) dots_not_parsed [OF that(3)] that(3)]
      obsolete_not_kept [of live' manifest db n type] that(4) live by blast
  ultimately show ?thesis using run r by (intro exI [of _ status] exI [of _ db']) simp
qed

theorem obsolete_files_spare_live_witness:
  "let db = (DBImpl_new bump_new Options_new []
        \<lparr>mf_files = [(CurrentFileName [], base_name [] (DescriptorFileName [] 2) @ [10]), (TableFileName [] 5, [1]), (TableFileName [] 6, [2])],
         mf_space = 0\<rparr>) \<lparr>db_pending_outputs := [5]\<rparr>
   in \<exists>status db'. RemoveObsoleteFiles ample_env db = Some (status, db') \<and> map_of (mf_files (db_env db')) (TableFileName [] 5) = Some [1]
     \<and> map_of (mf_files (db_env db')) (CurrentFileName []) \<noteq> None \<and> (ok status \<longrightarrow> map_of (mf_files (db_env db')) (TableFileName [] 6) = None)"
proof -
  let ?db = "(DBImpl_new bump_new Options_new []
      \<lparr>mf_files = [(CurrentFileName [], base_name [] (DescriptorFileName [] 2) @ [10]), (TableFileName [] 5, [1]), (TableFileName [] 6, [2])],
       mf_space = 0\<rparr>) \<lparr>db_pending_outputs := [5]\<rparr> :: (bytes \<times> bytes, mem_fs) DBImpl"
  have apart: "TableFileName [] 5 \<noteq> CurrentFileName []" "TableFileName [] 6 \<noteq> CurrentFileName []" "TableFileName [] 5 \<noteq> TableFileName [] 6"
    by code_simp+
  have names: "ev_GetChildren ample_env (db_dbname ?db) (db_env ?db)
      = (OK, map (base_name []) [CurrentFileName [], TableFileName [] 5, TableFileName [] 6])"
    by (simp add: ample_env_def mem_env_def DBImpl_new_def base_name_def CurrentFileName_def TableFileName_def MaskFileName_def lit_def)
  have ok: "ok OK" by (simp add: ok_def OK_def)
  have exists: "\<forall>n e. ev_FileExists ample_env n e \<longleftrightarrow> map_of (mf_files e) n \<noteq> None" by (simp add: ample_env_def mem_env_def)
  have live: "{5} = set (db_pending_outputs ?db)
      \<union> (\<Union>(i, node) \<in> set (vs_versions (db_versions ?db)). \<Union>level \<in> set levels. fm_number ` set (v_files (vn_version node) level))"
    by (auto simp: DBImpl_new_def VersionSet_new_def Let_def AppendVersion_def VS_Finalize_current_def vs_set_def vs_node_def Finalize_files Version_new_def)
  have cur: "map_of (mf_files (db_env ?db)) (CurrentFileName (db_dbname ?db))
      = Some (base_name (db_dbname ?db) (DescriptorFileName (db_dbname ?db) 2) @ [10])" by (simp add: DBImpl_new_def)
  obtain status db' where r: "RemoveObsoleteFiles ample_env ?db = Some (status, db')"
    and keep: "\<forall>p \<in> needed_names {5} 2 ?db. map_of (mf_files (db_env db')) p = map_of (mf_files (db_env ?db)) p"
    and gone: "ok status \<longrightarrow> (\<forall>filename \<in> set (map (base_name []) [CurrentFileName [], TableFileName [] 5, TableFileName [] 6]). \<forall>n type.
        ParseFileName filename = Some (n, type) \<and> is_obsolete {5} 2 ?db n type \<longrightarrow> map_of (mf_files (db_env db')) (db_dbname ?db @ lit ''/'' @ filename) = None)"
    using obsolete_files_spare_live [OF ample_fs.file_system_axioms exists cur names ok live] by blast
  have "TableFileName [] 5 \<in> needed_names {5} 2 ?db" "CurrentFileName [] \<in> needed_names {5} 2 ?db"
    by (auto simp: needed_names_def DBImpl_new_def)
  moreover have "map_of (mf_files (db_env db')) (TableFileName [] 6) = None" if "ok status"
  proof -
    have "is_obsolete {5} 2 ?db 6 kTableFile" by (simp add: is_obsolete_def)
    with gone that ParseFileName_Mask(2) [of "[]" 6]
    have "map_of (mf_files (db_env db')) (db_dbname ?db @ lit ''/'' @ base_name [] (TableFileName [] 6)) = None" by auto
    then show ?thesis by (simp add: DBImpl_new_def base_name_def TableFileName_def MaskFileName_def lit_def)
  qed
  ultimately show ?thesis using r keep apart by (auto simp: Let_def DBImpl_new_def)
qed

end
